(* ===== verification/Prelude.thy ===== *)
theory Prelude
  imports Complex_Main "HOL-Library.AList"
begin

text \<open>
  The vocabulary every component of the development shares.

  \<^item> \<open>'a exec\<close> is the outcome of running a piece of Rust code: it returns a value, panics, or
    runs forever. Every arithmetic operation, \<open>unwrap\<close>, \<open>assert!\<close> and \<open>panic!\<close> of the source is
    a branch of the outcome.
  \<^item> Unsigned machine integers are natural numbers below a power of two; the operations
    \<open>add_u64\<close>, \<open>sub_u64\<close>, \<open>rem_u64\<close>, \<dots> panic exactly where a build with overflow checks
    panics. Where a theorem says that an operation returns, no check fired, so a build without
    overflow checks computes the same value.
  \<^item> A \<open>HashMap\<close> is an association list (the order of the list is one iteration order the table
    may have), read through \<^const>\<open>map_of\<close>.
  \<^item> \<open>loop\<close> runs a Rust \<open>while\<close>/\<open>loop\<close> whose end is not known in advance and \<open>for_each\<close> a
    \<open>for\<close> loop with an early return. \<open>returns m Q\<close> is total correctness (no panic, no
    divergence, and the value satisfies \<open>Q\<close>); \<open>on_return m Q\<close> is partial correctness.
\<close>

named_theorems exec_simps \<open>unfolding the outcome combinators\<close>
named_theorems wp_simps \<open>total and partial correctness of the outcome combinators\<close>

section \<open>Outcomes\<close>

datatype panic =
    ArithmeticOverflow
  | DivisionByZero
  | UnwrapNone
  | AssertionFailed
  | Explicit string
  | UndefinedBehaviour string

datatype 'a exec = Ret 'a | Panic panic | Diverge

primrec bindE :: "'a exec \<Rightarrow> ('a \<Rightarrow> 'b exec) \<Rightarrow> 'b exec" where
  "bindE (Ret v) f = f v"
| "bindE (Panic p) f = Panic p"
| "bindE Diverge f = Diverge"

primrec returns :: "'a exec \<Rightarrow> ('a \<Rightarrow> bool) \<Rightarrow> bool" where
  "returns (Ret v) Q = Q v"
| "returns (Panic p) Q = False"
| "returns Diverge Q = False"

primrec on_return :: "'a exec \<Rightarrow> ('a \<Rightarrow> bool) \<Rightarrow> bool" where
  "on_return (Ret v) Q = Q v"
| "on_return (Panic p) Q = True"
| "on_return Diverge Q = True"

lemma returns_bindE [simp, wp_simps]:
  "returns (bindE m f) Q = returns m (\<lambda>v. returns (f v) Q)"
  by (cases m) auto

lemma on_return_bindE [simp, wp_simps]:
  "on_return (bindE m f) Q = on_return m (\<lambda>v. on_return (f v) Q)"
  by (cases m) auto

lemma bindE_Ret [simp]: "bindE m Ret = m"
  by (cases m) auto

lemma bindE_assoc [exec_simps]: "bindE (bindE m f) g = bindE m (\<lambda>v. bindE (f v) g)"
  by (cases m) auto

lemma bindE_eq_Ret: "bindE m f = Ret v \<longleftrightarrow> (\<exists>u. m = Ret u \<and> f u = Ret v)"
  by (cases m) auto

lemma returns_eq: "returns m Q \<longleftrightarrow> (\<exists>v. m = Ret v \<and> Q v)"
  by (cases m) auto

lemma on_return_eq: "on_return m Q \<longleftrightarrow> (\<forall>v. m = Ret v \<longrightarrow> Q v)"
  by (cases m) auto

lemma returns_mono: "returns m Q \<Longrightarrow> (\<And>v. m = Ret v \<Longrightarrow> Q v \<Longrightarrow> Q' v) \<Longrightarrow> returns m Q'"
  by (cases m) auto

lemma on_return_mono: "on_return m Q \<Longrightarrow> (\<And>v. m = Ret v \<Longrightarrow> Q v \<Longrightarrow> Q' v) \<Longrightarrow> on_return m Q'"
  by (cases m) auto

lemma returns_on_return: "returns m Q \<Longrightarrow> on_return m Q"
  by (cases m) auto

lemma on_return_True [simp]: "on_return m (\<lambda>_. True)"
  by (cases m) auto

lemma on_return_False: "on_return m (\<lambda>_. False) \<Longrightarrow> on_return m Q"
  by (cases m) auto

lemma returns_conj: "returns m Q \<Longrightarrow> on_return m Q' \<Longrightarrow> returns m (\<lambda>v. Q v \<and> Q' v)"
  by (cases m) auto

definition assertE :: "bool \<Rightarrow> unit exec" where
  "assertE b = (if b then Ret () else Panic AssertionFailed)"

definition unwrap :: "'a option \<Rightarrow> 'a exec" where
  "unwrap x = (case x of None \<Rightarrow> Panic UnwrapNone | Some v \<Rightarrow> Ret v)"

lemma assertE_wp [simp, wp_simps]:
  "returns (assertE b) Q \<longleftrightarrow> b \<and> Q ()"
  "on_return (assertE b) Q \<longleftrightarrow> (b \<longrightarrow> Q ())"
  by (auto simp: assertE_def)

lemma unwrap_wp [simp, wp_simps]:
  "returns (unwrap x) Q \<longleftrightarrow> (\<exists>v. x = Some v \<and> Q v)"
  "on_return (unwrap x) Q \<longleftrightarrow> (\<forall>v. x = Some v \<longrightarrow> Q v)"
  by (auto simp: unwrap_def split: option.splits)

lemma unwrap_Some [simp]: "unwrap (Some v) = Ret v"
  by (simp add: unwrap_def)

section \<open>Machine integers\<close>

abbreviation u64_bound :: nat where "u64_bound \<equiv> 2 ^ 64"
abbreviation u32_bound :: nat where "u32_bound \<equiv> 2 ^ 32"

text \<open>\<open>usize\<close> is 64 bits wide on the targets modelled, so it shares the operations of \<open>u64\<close>.\<close>

definition add_u64 :: "nat \<Rightarrow> nat \<Rightarrow> nat exec" where
  "add_u64 a b = (if a + b < u64_bound then Ret (a + b) else Panic ArithmeticOverflow)"

definition sub_u64 :: "nat \<Rightarrow> nat \<Rightarrow> nat exec" where
  "sub_u64 a b = (if b \<le> a then Ret (a - b) else Panic ArithmeticOverflow)"

definition mul_u64 :: "nat \<Rightarrow> nat \<Rightarrow> nat exec" where
  "mul_u64 a b = (if a * b < u64_bound then Ret (a * b) else Panic ArithmeticOverflow)"

definition div_u64 :: "nat \<Rightarrow> nat \<Rightarrow> nat exec" where
  "div_u64 a b = (if b = 0 then Panic DivisionByZero else Ret (a div b))"

definition rem_u64 :: "nat \<Rightarrow> nat \<Rightarrow> nat exec" where
  "rem_u64 a b = (if b = 0 then Panic DivisionByZero else Ret (a mod b))"

text \<open>\<open>u64::next_multiple_of\<close> of the standard library.\<close>

definition next_multiple_of_u64 :: "nat \<Rightarrow> nat \<Rightarrow> nat exec" where
  "next_multiple_of_u64 a b =
     bindE (rem_u64 a b) (\<lambda>r. if r = 0 then Ret a else bindE (sub_u64 b r) (add_u64 a))"

lemma arith_u64_wp [simp, wp_simps]:
  "returns (add_u64 a b) Q \<longleftrightarrow> a + b < u64_bound \<and> Q (a + b)"
  "returns (sub_u64 a b) Q \<longleftrightarrow> b \<le> a \<and> Q (a - b)"
  "returns (mul_u64 a b) Q \<longleftrightarrow> a * b < u64_bound \<and> Q (a * b)"
  "returns (div_u64 a b) Q \<longleftrightarrow> b \<noteq> 0 \<and> Q (a div b)"
  "returns (rem_u64 a b) Q \<longleftrightarrow> b \<noteq> 0 \<and> Q (a mod b)"
  "on_return (add_u64 a b) Q \<longleftrightarrow> (a + b < u64_bound \<longrightarrow> Q (a + b))"
  "on_return (sub_u64 a b) Q \<longleftrightarrow> (b \<le> a \<longrightarrow> Q (a - b))"
  "on_return (mul_u64 a b) Q \<longleftrightarrow> (a * b < u64_bound \<longrightarrow> Q (a * b))"
  "on_return (div_u64 a b) Q \<longleftrightarrow> (b \<noteq> 0 \<longrightarrow> Q (a div b))"
  "on_return (rem_u64 a b) Q \<longleftrightarrow> (b \<noteq> 0 \<longrightarrow> Q (a mod b))"
  by (auto simp: add_u64_def sub_u64_def mul_u64_def div_u64_def rem_u64_def)

definition add_u32 :: "nat \<Rightarrow> nat \<Rightarrow> nat exec" where
  "add_u32 a b = (if a + b < u32_bound then Ret (a + b) else Panic ArithmeticOverflow)"

definition sub_u32 :: "nat \<Rightarrow> nat \<Rightarrow> nat exec" where
  "sub_u32 a b = (if b \<le> a then Ret (a - b) else Panic ArithmeticOverflow)"

definition mul_u32 :: "nat \<Rightarrow> nat \<Rightarrow> nat exec" where
  "mul_u32 a b = (if a * b < u32_bound then Ret (a * b) else Panic ArithmeticOverflow)"

lemma arith_u32_wp [simp, wp_simps]:
  "returns (add_u32 a b) Q \<longleftrightarrow> a + b < u32_bound \<and> Q (a + b)"
  "returns (sub_u32 a b) Q \<longleftrightarrow> b \<le> a \<and> Q (a - b)"
  "returns (mul_u32 a b) Q \<longleftrightarrow> a * b < u32_bound \<and> Q (a * b)"
  "on_return (add_u32 a b) Q \<longleftrightarrow> (a + b < u32_bound \<longrightarrow> Q (a + b))"
  "on_return (sub_u32 a b) Q \<longleftrightarrow> (b \<le> a \<longrightarrow> Q (a - b))"
  "on_return (mul_u32 a b) Q \<longleftrightarrow> (a * b < u32_bound \<longrightarrow> Q (a * b))"
  by (auto simp: add_u32_def sub_u32_def mul_u32_def)

text \<open>The smallest multiple of \<open>b\<close> that is at least \<open>a\<close>.\<close>

definition round_up :: "nat \<Rightarrow> nat \<Rightarrow> nat" where
  "round_up a b = (if a mod b = 0 then a else a + (b - a mod b))"

lemma round_up_dvd [simp]: "0 < b \<Longrightarrow> b dvd round_up a b"
proof -
  assume b: "0 < b"
  define k r where "k = a div b" and "r = a mod b"
  have "a = k * b + r" and r: "r < b" using b by (simp_all add: k_def r_def)
  then have "r \<noteq> 0 \<Longrightarrow> a + (b - r) = (k + 1) * b"
    by simp
  then show ?thesis
    by (auto simp: round_up_def dvd_eq_mod_eq_0 r_def simp del: mult_Suc)
qed

lemma round_up_ge [simp]: "a \<le> round_up a b"
  by (simp add: round_up_def)

lemma round_up_less: "0 < b \<Longrightarrow> round_up a b < a + b"
  by (simp add: round_up_def)

lemma round_up_id: "b dvd a \<Longrightarrow> round_up a b = a"
  by (simp add: round_up_def dvd_eq_mod_eq_0)

lemma round_up_le_iff:
  assumes "0 < b" and "b dvd c"
  shows "round_up a b \<le> c \<longleftrightarrow> a \<le> c"
proof
  assume "a \<le> c"
  from assms(2) obtain k where c: "c = k * b" by (auto simp: dvd_def mult.commute)
  from round_up_dvd [OF assms(1), of a] obtain j where j: "round_up a b = j * b"
    by (auto simp: dvd_def mult.commute)
  from round_up_less [OF assms(1), of a] \<open>a \<le> c\<close> have "j * b < (k + 1) * b"
    by (simp add: j c)
  then have "j < k + 1" by (simp only: mult_less_cancel2)
  then show "round_up a b \<le> c" by (simp add: j c)
next
  assume "round_up a b \<le> c"
  then show "a \<le> c" by (rule order_trans [OF round_up_ge])
qed

lemma next_multiple_of_u64_wp [simp, wp_simps]:
  "returns (next_multiple_of_u64 a b) Q \<longleftrightarrow>
     b \<noteq> 0 \<and> (b dvd a \<or> round_up a b < u64_bound) \<and> Q (round_up a b)"
  "on_return (next_multiple_of_u64 a b) Q \<longleftrightarrow>
     (b \<noteq> 0 \<and> (b dvd a \<or> round_up a b < u64_bound) \<longrightarrow> Q (round_up a b))"
  by (auto simp: next_multiple_of_u64_def round_up_def rem_u64_def sub_u64_def add_u64_def
      dvd_eq_mod_eq_0 mod_le_divisor)

lemma ivl_disjoint_iff:
  fixes a b k l :: nat
  shows "{a ..< a + l} \<inter> {b ..< b + k} = {} \<longleftrightarrow> b + k \<le> a \<or> a + l \<le> b \<or> k = 0 \<or> l = 0"
proof
  assume "{a ..< a + l} \<inter> {b ..< b + k} = {}"
  then have "max a b \<notin> {a ..< a + l} \<or> max a b \<notin> {b ..< b + k}" by blast
  then show "b + k \<le> a \<or> a + l \<le> b \<or> k = 0 \<or> l = 0" by (auto simp: max_def split: if_splits)
qed auto

section \<open>Loops\<close>

text \<open>
  The body of a loop maps the loop's variables to \<open>Inl\<close> of the next ones (\<open>continue\<close>) or to
  \<open>Inr\<close> of the result (\<open>break\<close> or \<open>return\<close>).
\<close>

partial_function (option) loop_opt :: "('s \<Rightarrow> ('s + 'r) exec) \<Rightarrow> 's \<Rightarrow> 'r exec option" where
  "loop_opt body s =
     (case body s of
        Ret x \<Rightarrow> (case x of Inl s' \<Rightarrow> loop_opt body s' | Inr r \<Rightarrow> Some (Ret r))
      | Panic p \<Rightarrow> Some (Panic p)
      | Diverge \<Rightarrow> Some Diverge)"

definition loop :: "('s \<Rightarrow> ('s + 'r) exec) \<Rightarrow> 's \<Rightarrow> 'r exec" where
  "loop body s = (case loop_opt body s of None \<Rightarrow> Diverge | Some r \<Rightarrow> r)"

lemma loop_unfold:
  "loop body s = bindE (body s) (\<lambda>x. case x of Inl s' \<Rightarrow> loop body s' | Inr r \<Rightarrow> Ret r)"
  unfolding loop_def
  by (subst loop_opt.simps) (auto split: exec.splits sum.splits option.splits)

text \<open>Total correctness of a loop: an invariant and a measure the body decreases.\<close>

lemma loop_returns:
  fixes m :: "'s \<Rightarrow> nat"
  assumes "I s"
    and "\<And>s. I s \<Longrightarrow> returns (body s)
      (\<lambda>x. case x of Inl s' \<Rightarrow> I s' \<and> m s' < m s | Inr r \<Rightarrow> Q r)"
  shows "returns (loop body s) Q"
  using assms(1)
proof (induction "m s" arbitrary: s rule: less_induct)
  case less
  from assms(2) [OF less.prems] obtain x where x: "body s = Ret x"
    "case x of Inl s' \<Rightarrow> I s' \<and> m s' < m s | Inr r \<Rightarrow> Q r"
    by (auto simp: returns_eq)
  then show ?case
    using less.hyps by (subst loop_unfold) (auto split: sum.splits)
qed

text \<open>A \<open>for\<close> loop; \<open>Inr r\<close> leaves the enclosing function with \<open>r\<close>.\<close>

fun for_each :: "'i list \<Rightarrow> ('s \<Rightarrow> 'i \<Rightarrow> ('s + 'r) exec) \<Rightarrow> 's \<Rightarrow> ('s + 'r) exec" where
  "for_each [] body s = Ret (Inl s)"
| "for_each (i # is) body s =
     bindE (body s i) (\<lambda>x. case x of Inl s' \<Rightarrow> for_each is body s' | Inr r \<Rightarrow> Ret (Inr r))"

lemma for_each_returns:
  assumes "I s"
    and "\<And>s i. i \<in> set is \<Longrightarrow> I s \<Longrightarrow> returns (body s i) (\<lambda>x. case x of Inl s' \<Rightarrow> I s' | Inr r \<Rightarrow> Q r)"
  shows "returns (for_each is body s) (\<lambda>x. case x of Inl s' \<Rightarrow> I s' | Inr r \<Rightarrow> Q r)"
  using assms
proof (induction "is" arbitrary: s)
  case Nil
  then show ?case by simp
next
  case (Cons i "is")
  have "returns (body s i) (\<lambda>x. case x of Inl s' \<Rightarrow> I s' | Inr r \<Rightarrow> Q r)"
    using Cons.prems by simp
  then obtain x where "body s i = Ret x" "case x of Inl s' \<Rightarrow> I s' | Inr r \<Rightarrow> Q r"
    by (auto simp: returns_eq)
  then show ?case
    using Cons by (cases x) auto
qed

primrec mapE :: "('a \<Rightarrow> 'b exec) \<Rightarrow> 'a list \<Rightarrow> 'b list exec" where
  "mapE f [] = Ret []"
| "mapE f (x # xs) = bindE (f x) (\<lambda>y. bindE (mapE f xs) (\<lambda>ys. Ret (y # ys)))"

lemma mapE_returns:
  "(\<And>x. x \<in> set xs \<Longrightarrow> returns (f x) (Q x)) \<Longrightarrow> returns (mapE f xs) (list_all2 Q xs)"
proof (induction xs)
  case (Cons x xs)
  have "returns (f x) (Q x)" "returns (mapE f xs) (list_all2 Q xs)" using Cons by auto
  then show ?case by (auto simp: returns_eq)
qed simp

lemma mapE_returns_all:
  assumes "\<And>x. x \<in> set xs \<Longrightarrow> returns (f x) Q"
  shows "returns (mapE f xs) (\<lambda>ys. length ys = length xs \<and> (\<forall>y \<in> set ys. Q y))"
  by (rule returns_mono [OF mapE_returns [OF assms]]) (auto simp: list_all2_conv_all_nth set_conv_nth)

lemma mapE_on_return:
  "(\<And>x. x \<in> set xs \<Longrightarrow> on_return (f x) P) \<Longrightarrow> on_return (mapE f xs) (\<lambda>ys. length ys = length xs \<and> (\<forall>y \<in> set ys. P y))"
proof (induction xs)
  case (Cons x xs)
  have "on_return (f x) P" "on_return (mapE f xs) (\<lambda>ys. length ys = length xs \<and> (\<forall>y \<in> set ys. P y))" using Cons by auto
  then show ?case by (cases "f x"; cases "mapE f xs") auto
qed simp

text \<open>A \<open>for\<close> loop that cannot be left early.\<close>

primrec foldE :: "('s \<Rightarrow> 'i \<Rightarrow> 's exec) \<Rightarrow> 'i list \<Rightarrow> 's \<Rightarrow> 's exec" where
  "foldE f [] s = Ret s"
| "foldE f (x # xs) s = bindE (f s x) (foldE f xs)"

lemma foldE_returns:
  assumes "I 0 s"
    and "\<And>i s. i < length xs \<Longrightarrow> I i s \<Longrightarrow> returns (f s (xs ! i)) (I (Suc i))"
  shows "returns (foldE f xs s) (I (length xs))"
  using assms
proof (induction xs arbitrary: s I)
  case (Cons x xs)
  obtain s' where s': "f s x = Ret s'" "I 1 s'"
    using Cons.prems(1) Cons.prems(2) [of 0] by (auto simp: returns_eq)
  have "returns (foldE f xs s') (\<lambda>s. I (Suc (length xs)) s)"
    using s'(2) Cons.prems(2) by (intro Cons.IH [of "\<lambda>i. I (Suc i)"]) fastforce+
  then show ?case using s'(1) by simp
qed simp

lemma prod_list_drop_le:
  fixes ds :: "nat list"
  assumes "0 \<notin> set ds"
  shows "prod_list (drop k ds) \<le> prod_list ds" "0 < prod_list ds"
  using assms
proof (induction ds arbitrary: k)
  case (Cons d ds)
  { case 1
    then have "prod_list (drop (k - 1) ds) \<le> prod_list ds" "1 \<le> d" using Cons.IH(1) by (auto simp: Suc_le_eq)
    then have "prod_list (drop (k - 1) ds) \<le> d * prod_list ds"
      by (metis le_trans mult_le_mono1 nat_mult_1)
    then show ?case by (cases k) auto }
  { case 2 then show ?case using Cons.IH(2) by simp }
qed auto

text \<open>\<open>Iterator::product\<close> on \<open>usize\<close>.\<close>

definition productE :: "nat list \<Rightarrow> nat exec" where
  "productE xs = foldE mul_u64 xs 1"

primrec sumE :: "nat list \<Rightarrow> nat exec" where
  "sumE [] = Ret 0"
| "sumE (x # xs) = bindE (sumE xs) (add_u64 x)"

lemma sumE_eq: "sum_list xs < u64_bound \<Longrightarrow> sumE xs = Ret (sum_list xs)"
  by (induction xs) (auto simp: add_u64_def)

text \<open>\<open>Iterator::min_by_key\<close>: of several minimal elements the first.\<close>

fun min_by_key :: "('a \<Rightarrow> nat) \<Rightarrow> 'a list \<Rightarrow> 'a option" where
  "min_by_key f [] = None"
| "min_by_key f (x # xs) =
     (case min_by_key f xs of None \<Rightarrow> Some x | Some y \<Rightarrow> Some (if f x \<le> f y then x else y))"

lemma min_by_key_None [simp]: "min_by_key f xs = None \<longleftrightarrow> xs = []"
  by (cases xs) (auto split: option.splits)

lemma min_by_key_Some: "min_by_key f xs = Some x \<Longrightarrow> x \<in> set xs \<and> (\<forall>y \<in> set xs. f x \<le> f y)"
proof (induction xs arbitrary: x)
  case (Cons a xs)
  show ?case
  proof (cases "min_by_key f xs")
    case (Some y)
    from Cons.IH [OF this] Cons.prems Some show ?thesis by (auto split: if_splits)
  qed (use Cons.prems in auto)
qed simp

section \<open>Hash maps\<close>

type_synonym ('k, 'v) hash_map = "('k \<times> 'v) list"

abbreviation hm_get :: "('k, 'v) hash_map \<Rightarrow> 'k \<Rightarrow> 'v option" where
  "hm_get m k \<equiv> map_of m k"

abbreviation hm_insert :: "'k \<Rightarrow> 'v \<Rightarrow> ('k, 'v) hash_map \<Rightarrow> ('k, 'v) hash_map" where
  "hm_insert \<equiv> AList.update"

abbreviation hm_remove :: "'k \<Rightarrow> ('k, 'v) hash_map \<Rightarrow> ('k, 'v) hash_map" where
  "hm_remove \<equiv> AList.delete"

abbreviation hm_values :: "('k, 'v) hash_map \<Rightarrow> 'v list" where
  "hm_values m \<equiv> map snd m"

abbreviation hm_wf :: "('k, 'v) hash_map \<Rightarrow> bool" where
  "hm_wf m \<equiv> distinct (map fst m)"

declare map_of_eq_Some_iff [simp del] Some_eq_map_of_iff [simp del]

lemma map_of_update [simp]: "map_of (AList.update k v m) = (map_of m)(k \<mapsto> v)"
  by (rule update_conv')

lemma map_of_delete [simp]: "map_of (AList.delete k m) = (map_of m)(k := None)"
  by (rule delete_conv')

lemma hm_wf_update [simp]: "hm_wf m \<Longrightarrow> hm_wf (AList.update k v m)"
  by (rule distinct_update)

lemma hm_wf_delete [simp]: "hm_wf m \<Longrightarrow> hm_wf (AList.delete k m)"
  by (rule distinct_delete)

lemma length_update: "length (AList.update k v m) = (if map_of m k = None then Suc (length m) else length m)"
  by (induction m) auto

lemma length_delete:
  "hm_wf m \<Longrightarrow> map_of m k = Some v \<Longrightarrow> Suc (length (AList.delete k m)) = length m"
proof (induction m)
  case Nil
  then show ?case by simp
next
  case (Cons a m)
  then show ?case
    by (cases "fst a = k") (auto simp: delete_idem image_iff split: if_splits)
qed

lemma hm_values_conv: "hm_wf m \<Longrightarrow> v \<in> set (hm_values m) \<longleftrightarrow> (\<exists>k. map_of m k = Some v)"
  by (force simp: map_of_eq_Some_iff)

lemma map_of_update_nth:
  assumes "distinct (map fst xs)" "i < length xs" "fst x = fst (xs ! i)"
  shows "map_of (xs[i := x]) = (map_of xs)(fst x \<mapsto> snd x)"
  using assms
proof (induction xs arbitrary: i)
  case (Cons a xs)
  show ?case
  proof (cases i)
    case 0
    then show ?thesis using Cons.prems by (cases x) auto
  next
    case (Suc j)
    then have "fst x \<noteq> fst a" using Cons.prems by (auto simp: image_iff) (metis nth_mem)
    then show ?thesis using Suc Cons by (auto simp: fun_upd_twist)
  qed
qed simp

lemma map_of_snoc: "k \<notin> fst ` set xs \<Longrightarrow> map_of (xs @ [(k, v)]) = (map_of xs)(k \<mapsto> v)"
  by (induction xs) (auto simp: fun_upd_twist)

lemma update_fresh: "k \<notin> fst ` set xs \<Longrightarrow> AList.update k v xs = xs @ [(k, v)]"
  by (induction xs) auto

section \<open>Ordered maps\<close>

text \<open>A \<open>BTreeMap\<close> is an association list sorted by key.\<close>

fun bt_insert :: "'k::linorder \<Rightarrow> 'v \<Rightarrow> ('k \<times> 'v) list \<Rightarrow> ('k \<times> 'v) list" where
  "bt_insert k v [] = [(k, v)]"
| "bt_insert k v ((k', v') # m) =
     (if k < k' then (k, v) # (k', v') # m
      else if k = k' then (k, v) # m
      else (k', v') # bt_insert k v m)"

abbreviation bt_wf :: "('k::linorder \<times> 'v) list \<Rightarrow> bool" where
  "bt_wf m \<equiv> sorted_wrt (<) (map fst m)"

lemma fst_bt_insert: "fst ` set (bt_insert k v m) = insert k (fst ` set m)"
  by (induction k v m rule: bt_insert.induct) auto

lemma bt_wf_insert [simp]: "bt_wf m \<Longrightarrow> bt_wf (bt_insert k v m)"
proof (induction k v m rule: bt_insert.induct)
  case (2 k v k' v' m)
  then show ?case using fst_bt_insert [of k v m] by (auto simp: image_iff)
qed simp

lemma map_of_bt_insert [simp]: "bt_wf m \<Longrightarrow> map_of (bt_insert k v m) = (map_of m)(k \<mapsto> v)"
proof (induction k v m rule: bt_insert.induct)
  case (2 k v k' v' m)
  then show ?case by (auto simp: fun_eq_iff)
qed auto

lemma bt_wf_distinct: "bt_wf m \<Longrightarrow> distinct (map fst m)"
  by (simp add: strict_sorted_iff)

end
