(* ===== verification/Handles.thy ===== *)
theory Handles
  imports Prelude
begin

text \<open>
  Identifiers and reference-counted handles (\<open>cubecl-runtime/src/id.rs\<close>,
  \<open>memory_pool/handle.rs\<close>).

  A \<open>SliceHandle\<close> is a pair of \<open>Arc\<close>s that share their counters with every clone. The counters,
  and the two process-wide \<open>COUNTER\<close> statics that number storage buffers and slices, are the
  \<open>world\<close> record that every operation threads; a handle is the id under which its counters are
  kept. \<open>id_rc\<close> is the strong count of \<open>HandleRef::id\<close> and \<open>all_rc\<close> that of \<open>HandleRef::all\<close>
  (bindings hold only the second).
\<close>

type_synonym storage_id = nat
type_synonym slice_id = nat

record world =
  storage_next :: nat
  slice_next :: nat
  id_rc :: "slice_id \<Rightarrow> nat"
  all_rc :: "slice_id \<Rightarrow> nat"

definition init_world :: world where
  "init_world = \<lparr>storage_next = 0, slice_next = 0, id_rc = (\<lambda>_. 0), all_rc = (\<lambda>_. 0)\<rparr>"

definition usize_max :: nat where
  "usize_max = 2 ^ 64 - 1"

text \<open>\<open>StorageId::new\<close>: \<open>fetch_add\<close> first, the overflow check on the value read.\<close>

definition storage_id_new :: "world \<Rightarrow> (storage_id \<times> world) exec" where
  "storage_id_new w =
     (let value = storage_next w; w' = w\<lparr>storage_next := (value + 1) mod u64_bound\<rparr>
      in if value = usize_max then Panic (Explicit ''Memory ID overflowed'') else Ret (value, w'))"

text \<open>\<open>SliceHandle::gen_id\<close> and \<open>SliceHandle::new\<close>.\<close>

definition gen_id :: "world \<Rightarrow> (slice_id \<times> world) exec" where
  "gen_id w =
     (let value = slice_next w; w' = w\<lparr>slice_next := (value + 1) mod u64_bound\<rparr>
      in if value = usize_max then Panic (Explicit ''Memory ID overflowed'') else Ret (value, w'))"

definition handle_ref_new :: "slice_id \<Rightarrow> world \<Rightarrow> world" where
  "handle_ref_new i w = w\<lparr>id_rc := (id_rc w)(i := 1), all_rc := (all_rc w)(i := 1)\<rparr>"

definition slice_handle_new :: "world \<Rightarrow> (slice_id \<times> world) exec" where
  "slice_handle_new w = bindE (gen_id w) (\<lambda>(value, w). Ret (value, handle_ref_new value w))"

text \<open>Cloning and dropping a handle touch both counters, a binding only \<open>all\<close>.\<close>

definition handle_clone :: "slice_id \<Rightarrow> world \<Rightarrow> world" where
  "handle_clone i w = w\<lparr>id_rc := (id_rc w)(i := id_rc w i + 1), all_rc := (all_rc w)(i := all_rc w i + 1)\<rparr>"

definition handle_drop :: "slice_id \<Rightarrow> world \<Rightarrow> world" where
  "handle_drop i w = w\<lparr>id_rc := (id_rc w)(i := id_rc w i - 1), all_rc := (all_rc w)(i := all_rc w i - 1)\<rparr>"

definition handle_binding :: "slice_id \<Rightarrow> world \<Rightarrow> world" where
  "handle_binding i w = w\<lparr>id_rc := (id_rc w)(i := id_rc w i - 1)\<rparr>"

definition binding_clone :: "slice_id \<Rightarrow> world \<Rightarrow> world" where
  "binding_clone i w = w\<lparr>all_rc := (all_rc w)(i := all_rc w i + 1)\<rparr>"

definition binding_drop :: "slice_id \<Rightarrow> world \<Rightarrow> world" where
  "binding_drop i w = w\<lparr>all_rc := (all_rc w)(i := all_rc w i - 1)\<rparr>"

definition can_mut :: "world \<Rightarrow> slice_id \<Rightarrow> bool" where
  "can_mut w i \<longleftrightarrow> id_rc w i \<le> 2"

definition handle_is_free :: "world \<Rightarrow> slice_id \<Rightarrow> bool" where
  "handle_is_free w i \<longleftrightarrow> all_rc w i \<le> 1"

lemmas handle_defs =
  handle_ref_new_def handle_clone_def handle_drop_def handle_binding_def binding_clone_def
  binding_drop_def

lemma slice_handle_new_wp [simp, wp_simps]:
  "returns (slice_handle_new w) Q \<longleftrightarrow> slice_next w \<noteq> usize_max \<and>
     Q (slice_next w, handle_ref_new (slice_next w)
          (w\<lparr>slice_next := (slice_next w + 1) mod u64_bound\<rparr>))"
  "on_return (slice_handle_new w) Q \<longleftrightarrow> (slice_next w \<noteq> usize_max \<longrightarrow>
     Q (slice_next w, handle_ref_new (slice_next w)
          (w\<lparr>slice_next := (slice_next w + 1) mod u64_bound\<rparr>)))"
  by (auto simp: slice_handle_new_def gen_id_def Let_def)

lemma storage_id_new_wp [simp, wp_simps]:
  "returns (storage_id_new w) Q \<longleftrightarrow> storage_next w \<noteq> usize_max \<and>
     Q (storage_next w, w\<lparr>storage_next := (storage_next w + 1) mod u64_bound\<rparr>)"
  "on_return (storage_id_new w) Q \<longleftrightarrow> (storage_next w \<noteq> usize_max \<longrightarrow>
     Q (storage_next w, w\<lparr>storage_next := (storage_next w + 1) mod u64_bound\<rparr>))"
  by (auto simp: storage_id_new_def Let_def)

text \<open>The counters stay inside \<open>usize\<close>, so below its maximum the next id is one larger.\<close>

definition world_wf :: "world \<Rightarrow> bool" where
  "world_wf w \<longleftrightarrow> storage_next w \<le> usize_max \<and> slice_next w \<le> usize_max"

lemma counter_succ [simp]:
  "n \<le> usize_max \<Longrightarrow> n \<noteq> usize_max \<Longrightarrow> Suc n mod 18446744073709551616 = Suc n"
  by (simp add: usize_max_def)

end
