(* ===== verification/Storage.thy ===== *)
theory Storage
  imports Handles "HOL-Library.Word"
begin

text \<open>
  Storage handles, the \<open>ComputeStorage\<close> trait and its implementation over the heap of the host
  (\<open>cubecl-runtime/src/storage/base.rs\<close> and \<open>storage/bytes_cpu.rs\<close>).

  A trait is the record of its methods (\<open>compute_storage_ops\<close>); the memory manager takes such a
  record as the Rust code takes a type parameter \<open>Storage: ComputeStorage\<close>. What the manager relies
  on is the locale \<open>compute_storage\<close>, and \<open>BytesStorage\<close> is shown to provide it.
\<close>

section \<open>Storage handles\<close>

record storage_utilization =
  su_offset :: nat
  su_size :: nat

record storage_handle =
  sh_id :: storage_id
  sh_utilization :: storage_utilization

definition sh_size :: "storage_handle \<Rightarrow> nat" where
  "sh_size h = su_size (sh_utilization h)"

definition sh_offset :: "storage_handle \<Rightarrow> nat" where
  "sh_offset h = su_offset (sh_utilization h)"

lemma sh_make [simp]:
  "sh_size \<lparr>sh_id = i, sh_utilization = \<lparr>su_offset = a, su_size = n\<rparr>\<rparr> = n"
  "sh_offset \<lparr>sh_id = i, sh_utilization = \<lparr>su_offset = a, su_size = n\<rparr>\<rparr> = a"
  by (simp_all add: sh_size_def sh_offset_def)

definition sh_offset_start :: "storage_handle \<Rightarrow> nat \<Rightarrow> storage_handle exec" where
  "sh_offset_start h offset_bytes =
     bindE (add_u64 (sh_offset h) offset_bytes) (\<lambda>offset.
     bindE (sub_u64 (sh_size h) offset_bytes) (\<lambda>size.
     Ret \<lparr>sh_id = sh_id h, sh_utilization = \<lparr>su_offset = offset, su_size = size\<rparr>\<rparr>))"

definition sh_offset_end :: "storage_handle \<Rightarrow> nat \<Rightarrow> storage_handle exec" where
  "sh_offset_end h offset_bytes =
     bindE (sub_u64 (sh_size h) offset_bytes) (\<lambda>size.
     Ret \<lparr>sh_id = sh_id h, sh_utilization = \<lparr>su_offset = sh_offset h, su_size = size\<rparr>\<rparr>)"

text \<open>The bytes a handle covers, as (buffer, address) pairs.\<close>

definition region :: "storage_handle \<Rightarrow> (storage_id \<times> nat) set" where
  "region h = {sh_id h} \<times> {sh_offset h ..< sh_offset h + sh_size h}"

lemma region_disjoint_iff:
  "region h \<inter> region h' = {} \<longleftrightarrow> sh_id h \<noteq> sh_id h' \<or>
     sh_offset h' + sh_size h' \<le> sh_offset h \<or> sh_offset h + sh_size h \<le> sh_offset h' \<or>
     sh_size h' = 0 \<or> sh_size h = 0"
  unfolding region_def Times_Int_Times Sigma_empty_iff ivl_disjoint_iff by auto

lemma sh_offset_start_region:
  "on_return (sh_offset_start h n) (\<lambda>h'. region h' \<subseteq> region h)"
  by (auto simp: sh_offset_start_def region_def sh_offset_def sh_size_def)

lemma sh_offset_end_region:
  "on_return (sh_offset_end h n) (\<lambda>h'. region h' \<subseteq> region h)"
  by (auto simp: sh_offset_end_def region_def sh_offset_def sh_size_def)

section \<open>The \<open>ComputeStorage\<close> trait\<close>

record ('s, 'r) compute_storage_ops =
  cs_alignment :: "'s \<Rightarrow> nat"
  cs_get :: "'s \<Rightarrow> storage_handle \<Rightarrow> ('r \<times> 's) exec"
  cs_alloc :: "'s \<Rightarrow> nat \<Rightarrow> world \<Rightarrow> (storage_handle \<times> 's \<times> world) exec"
  cs_dealloc :: "'s \<Rightarrow> storage_id \<Rightarrow> 's exec"

text \<open>
  The contract of a storage: \<open>allocated\<close> gives the size of every buffer it holds. \<open>alloc\<close> numbers
  a new buffer with the next storage id and returns a handle on all of it, \<open>dealloc\<close> releases one
  buffer, \<open>get\<close> leaves the buffers alone.
\<close>

locale compute_storage =
  fixes ops :: "('s, 'r) compute_storage_ops"
    and allocated :: "'s \<Rightarrow> storage_id \<Rightarrow> nat option"
  assumes alloc_law: "world_wf w \<Longrightarrow> on_return (cs_alloc ops st n w) (\<lambda>(h, st', w').
      storage_next w \<noteq> usize_max \<and>
      h = \<lparr>sh_id = storage_next w, sh_utilization = \<lparr>su_offset = 0, su_size = n\<rparr>\<rparr> \<and>
      allocated st' = (allocated st)(storage_next w \<mapsto> n) \<and>
      w' = w\<lparr>storage_next := storage_next w + 1\<rparr>)"
    and dealloc_law: "on_return (cs_dealloc ops st i) (\<lambda>st'. allocated st' = (allocated st)(i := None))"
    and get_law: "on_return (cs_get ops st h) (\<lambda>(r, st'). allocated st' = allocated st)"

section \<open>Byte storage on the host\<close>

type_synonym byte = "8 word"

text \<open>
  An allocation is the contents of its bytes (\<open>None\<close> before the first write) with the size of its
  \<open>Layout\<close>; the pointer a resource carries is the id of the allocation it points to.
\<close>

record allocated_bytes =
  ab_ptr :: "byte option list"
  ab_layout :: nat

record bytes_storage =
  bs_memory :: "(storage_id, allocated_bytes) hash_map"

record bytes_resource =
  br_ptr :: storage_id
  br_utilization :: storage_utilization

definition isize_max :: nat where
  "isize_max = 2 ^ 63 - 1"

definition bytes_alignment :: "bytes_storage \<Rightarrow> nat" where
  "bytes_alignment st = 4"

definition bytes_get :: "bytes_storage \<Rightarrow> storage_handle \<Rightarrow> (bytes_resource \<times> bytes_storage) exec" where
  "bytes_get st handle =
     bindE (unwrap (hm_get (bs_memory st) (sh_id handle))) (\<lambda>allocated_bytes.
     Ret (\<lparr>br_ptr = sh_id handle, br_utilization = sh_utilization handle\<rparr>, st))"

text \<open>
  \<open>Layout::array::<u8>(size)\<close> fails above \<open>isize::MAX\<close>, and \<open>alloc::alloc::alloc\<close> is undefined on
  a layout of size zero. The allocator is assumed not to run out of memory.
\<close>

definition bytes_alloc :: "bytes_storage \<Rightarrow> nat \<Rightarrow> world \<Rightarrow> (storage_handle \<times> bytes_storage \<times> world) exec" where
  "bytes_alloc st sz w =
     bindE (storage_id_new w) (\<lambda>(i, w).
     let handle = \<lparr>sh_id = i, sh_utilization = \<lparr>su_offset = 0, su_size = sz\<rparr>\<rparr> in
     bindE (unwrap (if sz \<le> isize_max then Some sz else None)) (\<lambda>layout.
     if layout = 0 then Panic (UndefinedBehaviour ''alloc with a zero-sized layout'')
     else
       let memory = \<lparr>ab_ptr = replicate sz None, ab_layout = layout\<rparr>
       in Ret (handle, st\<lparr>bs_memory := hm_insert i memory (bs_memory st)\<rparr>, w)))"

definition bytes_dealloc :: "bytes_storage \<Rightarrow> storage_id \<Rightarrow> bytes_storage exec" where
  "bytes_dealloc st i =
     (case hm_get (bs_memory st) i of
        Some memory \<Rightarrow> Ret (st\<lparr>bs_memory := hm_remove i (bs_memory st)\<rparr>)
      | None \<Rightarrow> Ret st)"

definition bytes_ops :: "(bytes_storage, bytes_resource) compute_storage_ops" where
  "bytes_ops = \<lparr>cs_alignment = bytes_alignment, cs_get = bytes_get, cs_alloc = bytes_alloc,
     cs_dealloc = bytes_dealloc\<rparr>"

text \<open>
  Reading and overwriting the window of a resource. Both are undefined behaviour when the
  allocation is gone or the window leaves it (\<open>ptr.add\<close> and \<open>slice::from_raw_parts\<close>).
\<close>

definition get_exact_location_and_length :: "bytes_resource \<Rightarrow> bytes_storage \<Rightarrow> (storage_id \<times> nat \<times> nat) exec" where
  "get_exact_location_and_length r st =
     (let offset = su_offset (br_utilization r); len = su_size (br_utilization r)
      in case hm_get (bs_memory st) (br_ptr r) of
           None \<Rightarrow> Panic (UndefinedBehaviour ''dangling pointer'')
         | Some m \<Rightarrow>
             if offset + len \<le> length (ab_ptr m) then Ret (br_ptr r, offset, len)
             else Panic (UndefinedBehaviour ''pointer out of bounds''))"

definition bytes_read :: "bytes_resource \<Rightarrow> bytes_storage \<Rightarrow> byte option list exec" where
  "bytes_read r st =
     bindE (get_exact_location_and_length r st) (\<lambda>(p, offset, len).
     bindE (unwrap (hm_get (bs_memory st) p)) (\<lambda>m.
     Ret (take len (drop offset (ab_ptr m)))))"

text \<open>\<open>write\<close> hands out the window as a mutable slice; the model overwrites all of it with \<open>data\<close>
  (\<open>copy_from_slice\<close> panics when the lengths differ).\<close>

definition bytes_write :: "bytes_resource \<Rightarrow> byte list \<Rightarrow> bytes_storage \<Rightarrow> bytes_storage exec" where
  "bytes_write r data st =
     bindE (get_exact_location_and_length r st) (\<lambda>(p, offset, len).
     bindE (assertE (length data = len)) (\<lambda>_.
     bindE (unwrap (hm_get (bs_memory st) p)) (\<lambda>m.
     Ret (st\<lparr>bs_memory := hm_insert p
       (m\<lparr>ab_ptr := take offset (ab_ptr m) @ map Some data @ drop (offset + len) (ab_ptr m)\<rparr>)
       (bs_memory st)\<rparr>))))"

definition bytes_allocated :: "bytes_storage \<Rightarrow> storage_id \<Rightarrow> nat option" where
  "bytes_allocated st i = map_option (length \<circ> ab_ptr) (hm_get (bs_memory st) i)"

lemma bytes_allocated_update [simp]:
  "bytes_allocated (st\<lparr>bs_memory := hm_insert i m (bs_memory st)\<rparr>) =
     (bytes_allocated st)(i \<mapsto> length (ab_ptr m))"
  by (auto simp: bytes_allocated_def)

lemma bytes_allocated_remove [simp]:
  "bytes_allocated (st\<lparr>bs_memory := hm_remove i (bs_memory st)\<rparr>) = (bytes_allocated st)(i := None)"
  by (auto simp: bytes_allocated_def)

interpretation bytes: compute_storage bytes_ops bytes_allocated
proof
  fix w :: world and st n
  assume "world_wf w"
  then show "on_return (cs_alloc bytes_ops st n w) (\<lambda>(h, st', w').
      storage_next w \<noteq> usize_max \<and>
      h = \<lparr>sh_id = storage_next w, sh_utilization = \<lparr>su_offset = 0, su_size = n\<rparr>\<rparr> \<and>
      bytes_allocated st' = (bytes_allocated st)(storage_next w \<mapsto> n) \<and>
      w' = w\<lparr>storage_next := storage_next w + 1\<rparr>)"
    by (auto simp: bytes_ops_def bytes_alloc_def Let_def world_wf_def)
next
  fix st :: bytes_storage and i
  show "on_return (cs_dealloc bytes_ops st i)
      (\<lambda>st'. bytes_allocated st' = (bytes_allocated st)(i := None))"
    by (auto simp: bytes_ops_def bytes_dealloc_def bytes_allocated_def fun_upd_idem
        split: option.split)
next
  fix st :: bytes_storage and h
  show "on_return (cs_get bytes_ops st h) (\<lambda>(r, st'). bytes_allocated st' = bytes_allocated st)"
    by (simp add: bytes_ops_def bytes_get_def)
qed

text \<open>
  What is written through a resource is read back through it, and through a resource on other
  bytes of the storage the contents are unchanged.
\<close>

definition resource_handle :: "bytes_resource \<Rightarrow> storage_handle" where
  "resource_handle r = \<lparr>sh_id = br_ptr r, sh_utilization = br_utilization r\<rparr>"

lemma bytes_write_read_same:
  assumes "bytes_write r data st = Ret st'"
  shows "bytes_read r st' = Ret (map Some data)"
  using assms
  by (auto simp: bytes_write_def bytes_read_def get_exact_location_and_length_def Let_def
      bindE_eq_Ret assertE_def unwrap_def split: option.splits if_splits)

lemma take_drop_write_other:
  assumes "length data = len" "offset + len \<le> length xs" "o' + len' \<le> length xs"
    and "o' + len' \<le> offset \<or> offset + len \<le> o' \<or> len' = 0 \<or> len = 0"
  shows "take len' (drop o' (take offset xs @ data @ drop (offset + len) xs)) = take len' (drop o' xs)"
proof (cases "len = 0")
  case True
  with assms(1) have "take offset xs @ data @ drop (offset + len) xs = xs" by simp
  then show ?thesis by simp
next
  case False
  let ?ys = "take offset xs @ data @ drop (offset + len) xs"
  have "length (take len' (drop o' ?ys)) = length (take len' (drop o' xs))"
    using assms by auto
  moreover have "take len' (drop o' ?ys) ! i = take len' (drop o' xs) ! i"
    if "i < length (take len' (drop o' ?ys))" for i
  proof -
    from that have i: "i < len'" and "o' + i < length xs" using assms by auto
    then show ?thesis using False assms by (auto simp: nth_append)
  qed
  ultimately show ?thesis by (rule nth_equalityI)
qed

lemma bytes_write_read_other:
  assumes "bytes_write r data st = Ret st'"
    and "region (resource_handle r) \<inter> region (resource_handle r') = {}"
  shows "bytes_read r' st' = bytes_read r' st"
proof (cases "br_ptr r' = br_ptr r")
  case False
  with assms(1) show ?thesis
    by (auto simp: bytes_write_def bytes_read_def get_exact_location_and_length_def Let_def
        bindE_eq_Ret unwrap_def split: option.splits if_splits)
next
  case True
  from assms(1) obtain m where m: "hm_get (bs_memory st) (br_ptr r) = Some m"
    and b: "su_offset (br_utilization r) + su_size (br_utilization r) \<le> length (ab_ptr m)"
    and l: "length data = su_size (br_utilization r)"
    and st': "st' = st\<lparr>bs_memory := hm_insert (br_ptr r)
       (m\<lparr>ab_ptr := take (su_offset (br_utilization r)) (ab_ptr m) @ map Some data @
          drop (su_offset (br_utilization r) + su_size (br_utilization r)) (ab_ptr m)\<rparr>) (bs_memory st)\<rparr>"
    by (auto simp: bytes_write_def get_exact_location_and_length_def Let_def bindE_eq_Ret
        unwrap_def assertE_def split: option.splits if_splits)
  define o1 l1 o2 l2 where d: "o1 = su_offset (br_utilization r)" "l1 = su_size (br_utilization r)"
    "o2 = su_offset (br_utilization r')" "l2 = su_size (br_utilization r')"
  have sep: "o2 + l2 \<le> o1 \<or> o1 + l1 \<le> o2 \<or> l2 = 0 \<or> l1 = 0"
    using assms(2) True unfolding region_disjoint_iff
    by (simp add: resource_handle_def sh_offset_def sh_size_def d)
  have "take l2 (drop o2 (take o1 (ab_ptr m) @ map Some data @ drop (o1 + l1) (ab_ptr m))) =
      take l2 (drop o2 (ab_ptr m))" if "o2 + l2 \<le> length (ab_ptr m)"
    using that sep b l by (intro take_drop_write_other) (auto simp: d)
  then show ?thesis
    using True m b l unfolding bytes_read_def get_exact_location_and_length_def Let_def st'
    by (auto simp: d unwrap_def)
qed

end
