(* ===== verification/Memory_Pool.thy ===== *)
theory Memory_Pool
  imports Storage
begin

text \<open>
  What the memory pools share: slices and padding (\<open>memory_pool/base.rs\<close>), the exclusion list
  and the usage report (\<open>memory_manage.rs\<close>, \<open>memory_management/base.rs\<close>), and the contract of
  the \<open>MemoryPool\<close> trait as a locale.

  A pool is seen through three abstractions: \<open>pool_slices\<close> (the slices it keeps, by id), \<open>owned\<close>
  (the storage buffers it holds, with their sizes) and \<open>live_slices\<close> (the slices somebody outside
  the pool still holds a handle or a binding of). The contract says what each operation does to
  the live slices; regions of distinct slices never overlap.
\<close>

section \<open>Slices\<close>

record slice =
  sl_storage :: storage_handle
  sl_handle :: slice_id
  sl_padding :: nat

definition is_free :: "world \<Rightarrow> slice \<Rightarrow> bool" where
  "is_free w s = handle_is_free w (sl_handle s)"

definition effective_size :: "slice \<Rightarrow> nat exec" where
  "effective_size s = add_u64 (sh_size (sl_storage s)) (sl_padding s)"

definition calculate_padding :: "nat \<Rightarrow> nat \<Rightarrow> nat exec" where
  "calculate_padding sz buffer_alignment =
     bindE (rem_u64 sz buffer_alignment) (\<lambda>remainder.
     if remainder \<noteq> 0 then sub_u64 buffer_alignment remainder else Ret 0)"

text \<open>The effective size as a number, for states in which it does not overflow.\<close>

definition eff :: "slice \<Rightarrow> nat" where
  "eff s = sh_size (sl_storage s) + sl_padding s"

lemma eff_make [simp]: "eff \<lparr>sl_storage = h, sl_handle = i, sl_padding = p\<rparr> = sh_size h + p"
  by (simp add: eff_def)

lemma effective_size_wp [simp, wp_simps]:
  "returns (effective_size s) Q \<longleftrightarrow> eff s < u64_bound \<and> Q (eff s)"
  "on_return (effective_size s) Q \<longleftrightarrow> (eff s < u64_bound \<longrightarrow> Q (eff s))"
  by (auto simp: effective_size_def eff_def)

definition padding_of :: "nat \<Rightarrow> nat \<Rightarrow> nat" where
  "padding_of sz al = round_up sz al - sz"

lemma calculate_padding_wp [simp, wp_simps]:
  "returns (calculate_padding sz al) Q \<longleftrightarrow> al \<noteq> 0 \<and> Q (padding_of sz al)"
  "on_return (calculate_padding sz al) Q \<longleftrightarrow> (al \<noteq> 0 \<longrightarrow> Q (padding_of sz al))"
  by (auto simp: calculate_padding_def padding_of_def round_up_def rem_u64_def mod_le_divisor)

lemma padding_of_round_up [simp]: "sz + padding_of sz al = round_up sz al"
  by (simp add: padding_of_def)

lemma padding_of_dvd [simp]: "al dvd sz \<Longrightarrow> padding_of sz al = 0"
  by (simp add: padding_of_def round_up_id)

section \<open>Exclusion lists and usage reports\<close>

record storage_exclude =
  se_ids :: "storage_id set"

definition exclude_storage :: "storage_exclude \<Rightarrow> storage_id \<Rightarrow> storage_exclude" where
  "exclude_storage e i = e\<lparr>se_ids := insert i (se_ids e)\<rparr>"

definition is_excluded :: "storage_exclude \<Rightarrow> storage_id \<Rightarrow> bool" where
  "is_excluded e i \<longleftrightarrow> i \<in> se_ids e"

definition exclude_clear :: "storage_exclude \<Rightarrow> storage_exclude" where
  "exclude_clear e = e\<lparr>se_ids := {}\<rparr>"

definition exclude_count :: "storage_exclude \<Rightarrow> nat" where
  "exclude_count e = card (se_ids e)"

text \<open>\<open>exclude.is_some_and(|e| e.is_excluded(id))\<close>\<close>

definition excluded_by :: "storage_exclude option \<Rightarrow> storage_id \<Rightarrow> bool" where
  "excluded_by ex i = (case ex of None \<Rightarrow> False | Some e \<Rightarrow> is_excluded e i)"

record memory_usage =
  number_allocs :: nat
  bytes_in_use :: nat
  bytes_padding :: nat
  bytes_reserved :: nat

definition mu_combine :: "memory_usage \<Rightarrow> memory_usage \<Rightarrow> memory_usage exec" where
  "mu_combine u v =
     bindE (add_u64 (number_allocs u) (number_allocs v)) (\<lambda>a.
     bindE (add_u64 (bytes_in_use u) (bytes_in_use v)) (\<lambda>b.
     bindE (add_u64 (bytes_padding u) (bytes_padding v)) (\<lambda>c.
     bindE (add_u64 (bytes_reserved u) (bytes_reserved v)) (\<lambda>d.
     Ret \<lparr>number_allocs = a, bytes_in_use = b, bytes_padding = c, bytes_reserved = d\<rparr>))))"

section \<open>How operations may change the world\<close>

text \<open>The counters of a slice a pool keeps: the pool itself holds one handle, and every handle
  counts in both.\<close>

definition counts_ok :: "world \<Rightarrow> slice_id \<Rightarrow> bool" where
  "counts_ok w i \<longleftrightarrow> 1 \<le> id_rc w i \<and> id_rc w i \<le> all_rc w i"

text \<open>\<open>world_ext A w w'\<close>: ids are only ever handed out, and of the slices known before only those
  in \<open>A\<close> may have other counters.\<close>

definition world_ext :: "slice_id set \<Rightarrow> world \<Rightarrow> world \<Rightarrow> bool" where
  "world_ext A w w' \<longleftrightarrow> world_wf w' \<and> slice_next w \<le> slice_next w' \<and> storage_next w \<le> storage_next w' \<and>
     (\<forall>i < slice_next w. i \<notin> A \<longrightarrow> id_rc w' i = id_rc w i \<and> all_rc w' i = all_rc w i)"

lemma world_ext_refl: "world_wf w \<Longrightarrow> world_ext A w w"
  by (simp add: world_ext_def)

lemma world_ext_trans:
  "world_ext A w w' \<Longrightarrow> world_ext B w' w'' \<Longrightarrow> A \<subseteq> C \<Longrightarrow> B \<inter> {..<slice_next w} \<subseteq> C \<Longrightarrow> world_ext C w w''"
  unfolding world_ext_def
  by (clarsimp simp: subset_eq) (metis Int_iff lessThan_iff order.strict_trans2)

lemma handle_is_free_counts: "counts_ok w i \<Longrightarrow> handle_is_free w i \<Longrightarrow> id_rc w i = 1 \<and> all_rc w i = 1"
  by (auto simp: counts_ok_def handle_is_free_def)

text \<open>The slices that are held outside the pool.\<close>

definition live_slices :: "(slice_id \<Rightarrow> slice option) \<Rightarrow> world \<Rightarrow> slice_id \<Rightarrow> storage_handle option" where
  "live_slices sl w i = (if handle_is_free w i then None else map_option sl_storage (sl i))"

lemma live_slices_Some:
  "live_slices sl w i = Some h \<longleftrightarrow> \<not> handle_is_free w i \<and> (\<exists>s. sl i = Some s \<and> sl_storage s = h)"
  by (auto simp: live_slices_def)

text \<open>
  The state a pool must keep, whatever its kind: every slice is filed under its own handle, its
  counters are sound, it lies inside a buffer the pool owns, and no two slices overlap.
\<close>

definition slices_sound ::
  "world \<Rightarrow> (slice_id \<Rightarrow> slice option) \<Rightarrow> (storage_id \<Rightarrow> nat option) \<Rightarrow> bool" where
  "slices_sound w sl own \<longleftrightarrow>
     (\<forall>i s. sl i = Some s \<longrightarrow> sl_handle s = i \<and> i < slice_next w \<and> counts_ok w i \<and>
        (\<exists>n. own (sh_id (sl_storage s)) = Some n \<and>
             sh_offset (sl_storage s) + sh_size (sl_storage s) \<le> n)) \<and>
     (\<forall>i j s t. sl i = Some s \<longrightarrow> sl j = Some t \<longrightarrow> i \<noteq> j \<longrightarrow>
        region (sl_storage s) \<inter> region (sl_storage t) = {}) \<and>
     (\<forall>p \<in> dom own. p < storage_next w)"

section \<open>The \<open>MemoryPool\<close> trait\<close>

text \<open>
  What an operation that hands out a handle does: the handle was not live before, afterwards it is
  live with one handle outside the pool and covers the bytes asked for (\<open>exact\<close> says whether it
  covers exactly those), and all other live slices are as before.
\<close>

definition hands_out ::
  "bool \<Rightarrow> nat \<Rightarrow> slice_id \<Rightarrow> (slice_id \<Rightarrow> slice option) \<Rightarrow> world \<Rightarrow> (slice_id \<Rightarrow> slice option) \<Rightarrow> world \<Rightarrow> bool" where
  "hands_out exact n h sl w sl' w' \<longleftrightarrow>
     (\<exists>sh. live_slices sl' w' = (live_slices sl w)(h \<mapsto> sh) \<and> live_slices sl w h = None \<and>
        id_rc w' h = 2 \<and> all_rc w' h = 2 \<and> n \<le> sh_size sh \<and> (exact \<longrightarrow> sh_size sh = n))"

text \<open>What every operation does to the slices the pool keeps and to the world.\<close>

definition keeps_to_itself ::
  "(slice_id \<Rightarrow> slice option) \<Rightarrow> world \<Rightarrow> (slice_id \<Rightarrow> slice option) \<Rightarrow> world \<Rightarrow> bool" where
  "keeps_to_itself sl w sl' w' \<longleftrightarrow> world_ext {i \<in> dom sl. handle_is_free w i} w w' \<and>
     dom sl' \<subseteq> dom sl \<union> {slice_next w ..< slice_next w'}"

lemma keeps_to_itself_refl: "world_wf w \<Longrightarrow> keeps_to_itself sl w sl w"
  by (simp add: keeps_to_itself_def world_ext_refl)

lemma keeps_to_itself_trans:
  assumes "keeps_to_itself S w S' w'" "keeps_to_itself S' w' S'' w''"
  shows "keeps_to_itself S w S'' w''"
proof -
  have "i \<in> dom S \<and> handle_is_free w i" if "i \<in> dom S'" "handle_is_free w' i" "i < slice_next w" for i
  proof -
    have d: "dom S' \<subseteq> dom S \<union> {slice_next w ..< slice_next w'}"
      and rc: "handle_is_free w i \<or> all_rc w' i = all_rc w i"
      using assms(1) that(3) by (auto simp: keeps_to_itself_def world_ext_def)
    from d that(1,3) have "i \<in> dom S" by auto
    with rc that(2) show ?thesis by (auto simp: handle_is_free_def)
  qed
  then have sub: "{i \<in> dom S'. handle_is_free w' i} \<inter> {..<slice_next w} \<subseteq> {i \<in> dom S. handle_is_free w i}" by auto
  have e: "world_ext {i \<in> dom S. handle_is_free w i} w w'" "world_ext {i \<in> dom S'. handle_is_free w' i} w' w''"
    and d: "dom S' \<subseteq> dom S \<union> {slice_next w ..< slice_next w'}" "dom S'' \<subseteq> dom S' \<union> {slice_next w' ..< slice_next w''}"
    using assms by (simp_all add: keeps_to_itself_def)
  have "slice_next w \<le> slice_next w'" "slice_next w' \<le> slice_next w''"
    using e by (auto simp: world_ext_def)
  then have "dom S'' \<subseteq> dom S \<union> {slice_next w ..< slice_next w''}"
    using d by (auto dest!: subsetD)
  then show ?thesis
    using world_ext_trans [OF e subset_refl sub] by (simp add: keeps_to_itself_def)
qed

text \<open>A step that changes slices nobody outside holds.\<close>

definition quiet ::
  "(slice_id \<Rightarrow> slice option) \<Rightarrow> world \<Rightarrow> (slice_id \<Rightarrow> slice option) \<Rightarrow> world \<Rightarrow> bool" where
  "quiet S w S' w' \<longleftrightarrow> live_slices S' w' = live_slices S w \<and> keeps_to_itself S w S' w' \<and>
     storage_next w' = storage_next w"

lemma quiet_refl: "world_wf w \<Longrightarrow> quiet S w S w"
  by (simp add: quiet_def keeps_to_itself_refl)

lemma quiet_trans: "quiet S w S' w' \<Longrightarrow> quiet S' w' S'' w'' \<Longrightarrow> quiet S w S'' w''"
  by (auto simp: quiet_def intro: keeps_to_itself_trans)

lemma live_slices_cong:
  assumes "\<And>i. i \<notin> F \<Longrightarrow> S' i = S i \<and> all_rc w' i = all_rc w i"
    and "\<And>i. i \<in> F \<Longrightarrow> live_slices S w i = None \<and> live_slices S' w' i = None"
  shows "live_slices S' w' = live_slices S w"
proof
  fix i show "live_slices S' w' i = live_slices S w i"
    using assms [of i] by (cases "i \<in> F") (auto simp: live_slices_def handle_is_free_def)
qed

text \<open>A new handle, and a slice filed under it.\<close>

definition fresh_handle :: "world \<Rightarrow> world" where
  "fresh_handle w = handle_ref_new (slice_next w) (w\<lparr>slice_next := slice_next w + 1\<rparr>)"

lemma fresh_handle_simps [simp]:
  "slice_next (fresh_handle w) = Suc (slice_next w)"
  "storage_next (fresh_handle w) = storage_next w"
  "id_rc (fresh_handle w) i = (if i = slice_next w then 1 else id_rc w i)"
  "all_rc (fresh_handle w) i = (if i = slice_next w then 1 else all_rc w i)"
  by (auto simp: fresh_handle_def handle_ref_new_def)

text \<open>The id counters are in range and a slice id is left.\<close>

definition ids_left :: "world \<Rightarrow> bool" where
  "ids_left w \<longleftrightarrow> world_wf w \<and> slice_next w \<noteq> usize_max"

lemma world_wf_fresh_handle [simp]: "ids_left w \<Longrightarrow> world_wf (fresh_handle w)"
  by (auto simp: ids_left_def world_wf_def usize_max_def)

lemma slice_handle_new_fresh:
  "ids_left w \<Longrightarrow> slice_handle_new w = Ret (slice_next w, fresh_handle w)"
  by (simp add: slice_handle_new_def gen_id_def Let_def fresh_handle_def ids_left_def world_wf_def)

lemma quiet_fresh:
  assumes "ids_left w" "S (slice_next w) = None"
  shows "quiet S w (S(slice_next w \<mapsto> s)) (fresh_handle w)"
proof -
  have "live_slices (S(slice_next w \<mapsto> s)) (fresh_handle w) = live_slices S w"
    by (rule live_slices_cong [where F = "{slice_next w}"])
      (use assms(2) in \<open>auto simp: live_slices_def handle_is_free_def\<close>)
  moreover have "keeps_to_itself S w (S(slice_next w \<mapsto> s)) (fresh_handle w)"
    using world_wf_fresh_handle [OF assms(1)] by (auto simp: keeps_to_itself_def world_ext_def)
  ultimately show ?thesis by (simp add: quiet_def)
qed

lemma handle_clone_simps [simp]:
  "slice_next (handle_clone h w) = slice_next w" "storage_next (handle_clone h w) = storage_next w"
  "id_rc (handle_clone h w) i = (if i = h then id_rc w h + 1 else id_rc w i)"
  "all_rc (handle_clone h w) i = (if i = h then all_rc w h + 1 else all_rc w i)"
  "world_wf (handle_clone h w) = world_wf w"
  by (simp_all add: handle_clone_def world_wf_def)

text \<open>Handing out a clone of the handle of a free slice.\<close>

lemma hand_out_clone:
  assumes q: "quiet S w S1 w1" and h: "S1 h = Some s" "handle_is_free w1 h" "counts_ok w1 h"
    and n: "n \<le> sh_size (sl_storage s')" "ex \<longrightarrow> sh_size (sl_storage s') = n"
  shows "hands_out ex n h S w (S1(h \<mapsto> s')) (handle_clone h w1) \<and>
    keeps_to_itself S w (S1(h \<mapsto> s')) (handle_clone h w1)"
proof -
  have rc: "id_rc w1 h = 1" "all_rc w1 h = 1" using handle_is_free_counts [OF h(3,2)] by auto
  have "live_slices (S1(h \<mapsto> s')) (handle_clone h w1) = (live_slices S1 w1)(h \<mapsto> sl_storage s')"
    using rc by (auto simp: live_slices_def handle_is_free_def fun_eq_iff)
  moreover have "live_slices S1 w1 h = None" using h by (simp add: live_slices_def)
  ultimately have "hands_out ex n h S w (S1(h \<mapsto> s')) (handle_clone h w1)"
    using q n rc by (auto simp: hands_out_def quiet_def)
  moreover have "keeps_to_itself S w (S1(h \<mapsto> s')) (handle_clone h w1)"
  proof -
    have "keeps_to_itself S1 w1 (S1(h \<mapsto> s')) (handle_clone h w1)"
      using q h by (auto simp: quiet_def keeps_to_itself_def world_ext_def)
    then show ?thesis using q keeps_to_itself_trans by (auto simp: quiet_def)
  qed
  ultimately show ?thesis by blast
qed

text \<open>Numbering a storage buffer does not touch the slices.\<close>

lemma keeps_to_itself_storage_next:
  assumes "keeps_to_itself S (w\<lparr>storage_next := n\<rparr>) S' w'" "storage_next w \<le> n"
  shows "keeps_to_itself S w S' w'"
  using assms by (auto simp: keeps_to_itself_def world_ext_def handle_is_free_def)

lemma live_slices_storage_next [simp]: "live_slices S (w\<lparr>storage_next := n\<rparr>) = live_slices S w"
  by (simp add: live_slices_def handle_is_free_def fun_eq_iff)

lemma hands_out_storage_next [simp]:
  "hands_out ex n h S (w\<lparr>storage_next := m\<rparr>) S' w' = hands_out ex n h S w S' w'"
  by (simp add: hands_out_def)

text \<open>
  What a cleanup may do: forget slices nobody outside holds, dropping the pool's own handle, and
  return buffers to the storage.
\<close>

definition cleaned ::
  "(slice_id \<Rightarrow> slice option) \<Rightarrow> (storage_id \<Rightarrow> nat option) \<Rightarrow> (storage_id \<Rightarrow> nat option) \<Rightarrow> world \<Rightarrow>
   (slice_id \<Rightarrow> slice option) \<Rightarrow> (storage_id \<Rightarrow> nat option) \<Rightarrow> (storage_id \<Rightarrow> nat option) \<Rightarrow> world \<Rightarrow> bool" where
  "cleaned S B A w S' B' A' w' \<longleftrightarrow> S' \<subseteq>\<^sub>m S \<and> B' \<subseteq>\<^sub>m B \<and>
     A' = (\<lambda>i. if i \<in> dom B - dom B' then None else A i) \<and>
     slice_next w' = slice_next w \<and> storage_next w' = storage_next w \<and>
     (\<forall>i. i \<notin> dom S - dom S' \<longrightarrow> id_rc w' i = id_rc w i \<and> all_rc w' i = all_rc w i) \<and>
     (\<forall>i \<in> dom S - dom S'. handle_is_free w i)"

lemma cleaned_refl: "cleaned S B A w S B A w"
  by (simp add: cleaned_def)

lemma cleaned_keep:
  assumes "cleaned S B A w S' B' A' w'" "S k = None" "B b = None"
  shows "cleaned (S(k \<mapsto> s)) (B(b \<mapsto> n)) A w (S'(k \<mapsto> s)) (B'(b \<mapsto> n)) A' w'"
proof -
  have "id_rc w' k = id_rc w k" "all_rc w' k = all_rc w k"
    using assms by (auto simp: cleaned_def)
  then show ?thesis
    using assms by (auto simp: cleaned_def map_le_def fun_eq_iff)
qed

lemma handle_is_free_drop: "i \<noteq> k \<Longrightarrow> handle_is_free (handle_drop k w) i = handle_is_free w i"
  by (simp add: handle_is_free_def handle_drop_def)

lemma cleaned_drop:
  assumes c: "cleaned S B (A(b := None)) (handle_drop k w) S' B' A' w'"
    and new: "S k = None" "B b = None" and free: "handle_is_free w k"
  shows "cleaned (S(k \<mapsto> s)) (B(b \<mapsto> n)) A w S' B' A' w'"
proof -
  have n': "S' k = None" "B' b = None"
    using c new unfolding cleaned_def map_le_def by (metis domIff)+
  show ?thesis
    unfolding cleaned_def
  proof (intro conjI allI ballI impI)
    show "S' \<subseteq>\<^sub>m S(k \<mapsto> s)" "B' \<subseteq>\<^sub>m B(b \<mapsto> n)"
      using c n' by (auto simp: cleaned_def map_le_def)
    show "A' = (\<lambda>i. if i \<in> dom (B(b \<mapsto> n)) - dom B' then None else A i)"
      using c n' by (auto simp: cleaned_def fun_eq_iff)
    show "slice_next w' = slice_next w" "storage_next w' = storage_next w"
      using c by (auto simp: cleaned_def handle_drop_def)
    fix i
    {
      assume "i \<notin> dom (S(k \<mapsto> s)) - dom S'"
      then have "i \<noteq> k" "i \<notin> dom S - dom S'" using n' by auto
      then show "id_rc w' i = id_rc w i" "all_rc w' i = all_rc w i"
        using c by (simp_all add: cleaned_def handle_drop_def)
    next
      assume "i \<in> dom (S(k \<mapsto> s)) - dom S'"
      then have "i = k \<or> i \<noteq> k \<and> i \<in> dom S - dom S'" by auto
      then show "handle_is_free w i"
        using c free unfolding cleaned_def by (metis handle_is_free_drop)
    }
  qed
qed

lemma cleaned_live:
  assumes "cleaned S B A w S' B' A' w'"
  shows "live_slices S' w' = live_slices S w"
proof (rule live_slices_cong [where F = "dom S - dom S'"])
  fix i
  assume "i \<notin> dom S - dom S'"
  then show "S' i = S i \<and> all_rc w' i = all_rc w i"
    using assms by (cases "i \<in> dom S'") (auto simp: cleaned_def map_le_def domIff)
next
  fix i
  assume "i \<in> dom S - dom S'"
  then show "live_slices S w i = None \<and> live_slices S' w' i = None"
    using assms by (auto simp: cleaned_def live_slices_def)
qed

lemma cleaned_keeps_to_itself:
  assumes "cleaned S B A w S' B' A' w'" "world_wf w"
  shows "keeps_to_itself S w S' w'"
proof -
  have "id_rc w' i = id_rc w i \<and> all_rc w' i = all_rc w i" if "\<not> (i \<in> dom S \<and> handle_is_free w i)" for i
    using assms(1) that unfolding cleaned_def by blast
  then show ?thesis
    using assms map_le_implies_dom_le [of S' S]
    by (auto simp: cleaned_def keeps_to_itself_def world_ext_def world_wf_def)
qed

locale memory_pool = compute_storage ops allocated
  for ops :: "('s, 'r) compute_storage_ops" and allocated :: "'s \<Rightarrow> storage_id \<Rightarrow> nat option" +
  fixes exact :: bool
    and inv :: "world \<Rightarrow> 'p \<Rightarrow> bool"
    and pool_slices :: "'p \<Rightarrow> slice_id \<Rightarrow> slice option"
    and owned :: "'p \<Rightarrow> storage_id \<Rightarrow> nat option"
    and get :: "'p \<Rightarrow> slice_id \<Rightarrow> storage_handle option"
    and try_reserve :: "'p \<Rightarrow> nat \<Rightarrow> storage_exclude option \<Rightarrow> world \<Rightarrow> (slice_id option \<times> 'p \<times> world) exec"
    and alloc :: "'p \<Rightarrow> 's \<Rightarrow> nat \<Rightarrow> world \<Rightarrow> (slice_id \<times> 'p \<times> 's \<times> world) exec"
    and cleanup :: "'p \<Rightarrow> 's \<Rightarrow> nat \<Rightarrow> bool \<Rightarrow> world \<Rightarrow> ('p \<times> 's \<times> world) exec"
    and accepts :: "'p \<Rightarrow> nat \<Rightarrow> bool"
  assumes inv_sound: "inv w p \<Longrightarrow> slices_sound w (pool_slices p) (owned p)"
    and inv_world: "inv w p \<Longrightarrow> slice_next w \<le> slice_next w' \<Longrightarrow> storage_next w \<le> storage_next w' \<Longrightarrow>
      (\<And>i. i \<in> dom (pool_slices p) \<Longrightarrow> counts_ok w' i) \<Longrightarrow> inv w' p"
    and get_law: "inv w p \<Longrightarrow> get p i = map_option sl_storage (pool_slices p i)"
    and try_reserve_law: "inv w p \<Longrightarrow> ids_left w \<Longrightarrow> accepts p n \<Longrightarrow>
      on_return (try_reserve p n ex w) (\<lambda>(r, p', w').
        inv w' p' \<and> owned p' = owned p \<and> accepts p' = accepts p \<and>
        storage_next w' = storage_next w \<and>
        keeps_to_itself (pool_slices p) w (pool_slices p') w' \<and>
        (case r of
           None \<Rightarrow> live_slices (pool_slices p') w' = live_slices (pool_slices p) w
         | Some h \<Rightarrow> hands_out exact n h (pool_slices p) w (pool_slices p') w' \<and>
             (\<exists>s. pool_slices p' h = Some s \<and> \<not> excluded_by ex (sh_id (sl_storage s)))))"
    and alloc_law: "inv w p \<Longrightarrow> ids_left w \<Longrightarrow> accepts p n \<Longrightarrow>
      on_return (alloc p st n w) (\<lambda>(h, p', st', w').
        inv w' p' \<and> accepts p' = accepts p \<and>
        (\<exists>m. owned p' = (owned p)(storage_next w \<mapsto> m) \<and>
             allocated st' = (allocated st)(storage_next w \<mapsto> m)) \<and>
        storage_next w' = storage_next w + 1 \<and>
        keeps_to_itself (pool_slices p) w (pool_slices p') w' \<and>
        hands_out exact n h (pool_slices p) w (pool_slices p') w')"
    and alloc_exhausted: "world_wf w \<Longrightarrow> slice_next w = usize_max \<Longrightarrow> on_return (alloc p st n w) (\<lambda>_. False)"
    and cleanup_law: "inv w p \<Longrightarrow> world_wf w \<Longrightarrow>
      on_return (cleanup p st nr explicit w) (\<lambda>(p', st', w').
        inv w' p' \<and> accepts p' = accepts p \<and>
        owned p' \<subseteq>\<^sub>m owned p \<and>
        allocated st' = (\<lambda>i. if i \<in> dom (owned p) - dom (owned p') then None else allocated st i) \<and>
        storage_next w' = storage_next w \<and>
        keeps_to_itself (pool_slices p) w (pool_slices p') w' \<and>
        live_slices (pool_slices p') w' = live_slices (pool_slices p) w)"
begin

text \<open>What a holder of a handle may rely on: \<open>get\<close> finds its bytes, inside a buffer of the pool.\<close>

lemma get_live:
  assumes "inv w p" and "live_slices (pool_slices p) w i = Some h"
  shows "get p i = Some h \<and> (\<exists>n. owned p (sh_id h) = Some n \<and> sh_offset h + sh_size h \<le> n)"
  using assms(2) get_law [OF assms(1)] inv_sound [OF assms(1)]
  by (auto simp: live_slices_Some slices_sound_def)

lemma live_disjoint:
  assumes "inv w p" and "live_slices (pool_slices p) w i = Some h"
    and "live_slices (pool_slices p) w j = Some h'" and "i \<noteq> j"
  shows "region h \<inter> region h' = {}"
proof -
  from assms(2,3) obtain s t where st: "pool_slices p i = Some s" "sl_storage s = h"
    "pool_slices p j = Some t" "sl_storage t = h'"
    by (auto simp: live_slices_Some)
  with inv_sound [OF assms(1)] assms(4) show ?thesis
    unfolding slices_sound_def by blast
qed

end

end
