(* ===== verification/Ring_Buffer.thy ===== *)
theory Ring_Buffer
  imports Memory_Pool
begin

text \<open>
  The pages of a sliced pool and the search for a free slice
  (\<open>memory_pool/sliced_pool.rs\<close>: \<open>MemoryPage\<close>, \<open>Slice::split\<close>; \<open>memory_pool/ring.rs\<close>:
  \<open>RingBuffer\<close>).

  A page maps addresses to slice ids and is tiled by its slices. \<open>pages_inv\<close> is that tiling for
  all pages; splitting a slice, merging two free neighbours and changing how much of a slice is
  used keep it. The search loop of one page is shown to end without a panic.
\<close>

section \<open>Pages and slices\<close>

type_synonym slice_map = "(slice_id, slice) hash_map"

record memory_page =
  mp_slices :: "(nat, slice_id) hash_map"

definition find_slice :: "memory_page \<Rightarrow> nat \<Rightarrow> slice_id option" where
  "find_slice page address = hm_get (mp_slices page) address"

definition insert_slice :: "memory_page \<Rightarrow> nat \<Rightarrow> slice_id \<Rightarrow> memory_page" where
  "insert_slice page address i = page\<lparr>mp_slices := hm_insert address i (mp_slices page)\<rparr>"

definition merge_with_next_slice ::
  "memory_page \<Rightarrow> nat \<Rightarrow> slice_map \<Rightarrow> world \<Rightarrow> (bool \<times> memory_page \<times> slice_map \<times> world) exec" where
  "merge_with_next_slice page first_slice_address slices w =
     bindE (unwrap (find_slice page first_slice_address)) (\<lambda>first_slice_id.
     bindE (unwrap (hm_get slices first_slice_id)) (\<lambda>first.
     bindE (effective_size first) (\<lambda>e.
     bindE (add_u64 first_slice_address e) (\<lambda>next_slice_address.
     case find_slice page next_slice_address of
       Some next_slice_id \<Rightarrow>
         bindE (unwrap (hm_get slices next_slice_id)) (\<lambda>next_slice.
         bindE (effective_size next_slice) (\<lambda>next_slice_eff_size.
         if is_free w next_slice then
           bindE (unwrap (hm_get slices first_slice_id)) (\<lambda>first_slice.
           bindE (effective_size first_slice) (\<lambda>first_slice_eff_size.
           let first_slice_offset = sh_offset (sl_storage first_slice) in
           bindE (add_u64 first_slice_eff_size next_slice_eff_size) (\<lambda>merged_size.
           let first_slice = first_slice\<lparr>sl_storage := (sl_storage first_slice)\<lparr>sh_utilization :=
                 \<lparr>su_offset = first_slice_offset, su_size = merged_size\<rparr>\<rparr>, sl_padding := 0\<rparr>;
               page = page\<lparr>mp_slices := hm_remove next_slice_address (mp_slices page)\<rparr>;
               slices = hm_remove next_slice_id (hm_insert first_slice_id first_slice slices)
           in Ret (True, page, slices, handle_drop (sl_handle next_slice) w))))
         else Ret (False, page, slices, w)))
     | None \<Rightarrow> Ret (False, page, slices, w)))))"

text \<open>\<open>Slice::split\<close> shortens \<open>self\<close> to \<open>offset_slice\<close> bytes and returns the rest as a new slice,
  unless the rest is smaller than the alignment.\<close>

definition slice_split :: "slice \<Rightarrow> nat \<Rightarrow> nat \<Rightarrow> world \<Rightarrow> (slice option \<times> slice \<times> world) exec" where
  "slice_split self offset_slice buffer_alignment w =
     bindE (effective_size self) (\<lambda>e.
     bindE (sub_u64 e offset_slice) (\<lambda>size_new.
     bindE (add_u64 (sh_offset (sl_storage self)) offset_slice) (\<lambda>offset_new.
     bindE (effective_size self) (\<lambda>old_size.
     let storage_new = \<lparr>sh_id = sh_id (sl_storage self),
           sh_utilization = \<lparr>su_offset = offset_new, su_size = size_new\<rparr>\<rparr>;
         self = self\<lparr>sl_storage := (sl_storage self)\<lparr>sh_utilization :=
           \<lparr>su_offset = sh_offset (sl_storage self), su_size = offset_slice\<rparr>\<rparr>\<rparr> in
     bindE (rem_u64 offset_new buffer_alignment) (\<lambda>r.
     if r \<noteq> 0 then Panic (Explicit ''slice offset needs to be a multiple of the alignment'') else
     bindE (slice_handle_new w) (\<lambda>(handle, w).
     if size_new < buffer_alignment then
       bindE (sub_u64 old_size offset_slice) (\<lambda>padding.
       let self = self\<lparr>sl_padding := padding\<rparr> in
       bindE (effective_size self) (\<lambda>e.
       bindE (assertE (e = old_size)) (\<lambda>_.
       Ret (None, self, handle_drop handle w))))
     else
       bindE (assertE (size_new \<ge> buffer_alignment)) (\<lambda>_.
       let self = self\<lparr>sl_padding := 0\<rparr> in
       bindE (sub_u64 size_new buffer_alignment) (\<lambda>rest.
       bindE (calculate_padding rest buffer_alignment) (\<lambda>padding.
       Ret (Some \<lparr>sl_storage = storage_new, sl_handle = handle, sl_padding = padding\<rparr>, self, w))))))))))"

definition next_slice_position :: "slice \<Rightarrow> nat exec" where
  "next_slice_position s =
     bindE (effective_size s) (\<lambda>e. add_u64 (sh_offset (sl_storage s)) e)"

section \<open>The ring buffer\<close>

record ring_buffer =
  rb_queue :: "storage_id list"
  rb_chunk_positions :: "(storage_id, nat) hash_map"
  rb_cursor_slice :: nat
  rb_cursor_chunk :: nat
  rb_buffer_alignment :: nat

definition ring_new :: "nat \<Rightarrow> ring_buffer" where
  "ring_new buffer_alignment = \<lparr>rb_queue = [], rb_chunk_positions = [], rb_cursor_slice = 0,
     rb_cursor_chunk = 0, rb_buffer_alignment = buffer_alignment\<rparr>"

definition push_page :: "ring_buffer \<Rightarrow> storage_id \<Rightarrow> ring_buffer" where
  "push_page r i =
     (let r = r\<lparr>rb_queue := rb_queue r @ [i]\<rparr>
      in r\<lparr>rb_chunk_positions := hm_insert i (length (rb_queue r) - 1) (rb_chunk_positions r)\<rparr>)"

text \<open>One turn of the \<open>while let\<close> loop of \<open>find_free_slice_in_chunk\<close>.\<close>

type_synonym chunk_state = "memory_page \<times> slice_map \<times> world \<times> nat"
type_synonym chunk_result = "(nat \<times> slice_id) option \<times> memory_page \<times> slice_map \<times> world"

definition find_free_slice_in_chunk_body ::
  "nat \<Rightarrow> nat \<Rightarrow> chunk_state \<Rightarrow> (chunk_state + chunk_result) exec" where
  "find_free_slice_in_chunk_body buffer_alignment sz = (\<lambda>(page, slices, w, slice_index).
     case find_slice page slice_index of
       None \<Rightarrow> Ret (Inr (None, page, slices, w))
     | Some slice_id \<Rightarrow>
         bindE (unwrap (hm_get slices slice_id)) (\<lambda>slice.
         bindE (effective_size slice) (\<lambda>e.
         if e \<ge> sz \<and> is_free w slice then
           if e > sz then
             bindE (slice_split slice sz buffer_alignment w) (\<lambda>(new, slice, w).
             let slices = hm_insert slice_id slice slices in
             case new of
               Some new_slice \<Rightarrow>
                 let new_slice_id = sl_handle new_slice in
                 bindE (next_slice_position slice) (\<lambda>position.
                 Ret (Inr (Some (slice_index, slice_id), insert_slice page position new_slice_id,
                   hm_insert new_slice_id new_slice slices, w)))
             | None \<Rightarrow> Ret (Inr (Some (slice_index, slice_id), page, slices, w)))
           else Ret (Inr (Some (slice_index, slice_id), page, slices, w))
         else
           bindE (unwrap (hm_get slices slice_id)) (\<lambda>slice.
           bindE (if is_free w slice then merge_with_next_slice page slice_index slices w
                  else Ret (False, page, slices, w)) (\<lambda>(merged, page, slices, w).
           if merged then Ret (Inl (page, slices, w, slice_index))
           else
             case hm_get slices slice_id of
               Some slice \<Rightarrow>
                 bindE (next_slice_position slice) (\<lambda>position.
                 Ret (Inl (page, slices, w, position)))
             | None \<Rightarrow> Panic (Explicit ''current slice_id should still be valid after potential merge''))))))"

definition find_free_slice_in_chunk ::
  "nat \<Rightarrow> nat \<Rightarrow> memory_page \<Rightarrow> slice_map \<Rightarrow> world \<Rightarrow> nat \<Rightarrow> chunk_result exec" where
  "find_free_slice_in_chunk buffer_alignment sz page slices w slice_index =
     loop (find_free_slice_in_chunk_body buffer_alignment sz) (page, slices, w, slice_index)"

type_synonym page_map = "(storage_id, memory_page) hash_map"
type_synonym search_state = "ring_buffer \<times> page_map \<times> slice_map \<times> world"

text \<open>One turn of the \<open>for\<close> loop over the chunks; \<open>start\<close> is the cursor at the beginning.\<close>

definition find_free_slice_in_all_chunks_body ::
  "nat \<Rightarrow> storage_exclude option \<Rightarrow> nat \<Rightarrow> search_state \<times> nat \<Rightarrow> nat \<Rightarrow>
     ((search_state \<times> nat) + (slice_id option \<times> search_state)) exec" where
  "find_free_slice_in_all_chunks_body sz exclude start = (\<lambda>((ring, pages, slices, w), slice_index) chunk_index.
     let slice_index = (if chunk_index > start then 0 else slice_index);
         continue = (\<lambda>pages slices w.
           Ret (Inl ((ring\<lparr>rb_cursor_chunk := chunk_index, rb_cursor_slice := 0\<rparr>, pages, slices, w),
             slice_index)))
     in if chunk_index < length (rb_queue ring) then
          let i = rb_queue ring ! chunk_index in
          if \<not> excluded_by exclude i then
            bindE (unwrap (hm_get pages i)) (\<lambda>chunk.
            bindE (find_free_slice_in_chunk (rb_buffer_alignment ring) sz chunk slices w slice_index)
              (\<lambda>(result, chunk, slices, w).
            let pages = hm_insert i chunk pages in
            case result of
              Some (_, slice_id) \<Rightarrow>
                bindE (unwrap (hm_get slices slice_id)) (\<lambda>slice.
                bindE (next_slice_position slice) (\<lambda>position.
                Ret (Inr (Some (sl_handle slice),
                  (ring\<lparr>rb_cursor_slice := position, rb_cursor_chunk := chunk_index\<rparr>, pages, slices, w)))))
            | None \<Rightarrow> continue pages slices w))
          else continue pages slices w
        else continue pages slices w)"

definition find_free_slice_in_all_chunks ::
  "nat \<Rightarrow> nat \<Rightarrow> storage_exclude option \<Rightarrow> search_state \<Rightarrow> (slice_id option \<times> search_state) exec" where
  "find_free_slice_in_all_chunks sz max_cursor_position exclude = (\<lambda>(ring, pages, slices, w).
     let start = rb_cursor_chunk ring;
         end = min (length (rb_queue ring)) max_cursor_position
     in bindE (for_each [start ..< end] (find_free_slice_in_all_chunks_body sz exclude start)
                 ((ring, pages, slices, w), rb_cursor_slice ring))
          (\<lambda>x. case x of Inl (s, _) \<Rightarrow> Ret (None, s) | Inr r \<Rightarrow> Ret r))"

definition find_free_slice ::
  "nat \<Rightarrow> storage_exclude option \<Rightarrow> search_state \<Rightarrow> (slice_id option \<times> search_state) exec" where
  "find_free_slice sz exclude = (\<lambda>(ring, pages, slices, w).
     let max_second = rb_cursor_chunk ring in
     bindE (find_free_slice_in_all_chunks sz (length (rb_queue ring)) exclude (ring, pages, slices, w))
       (\<lambda>(result, ring, pages, slices, w).
     if result \<noteq> None then Ret (result, ring, pages, slices, w)
     else find_free_slice_in_all_chunks sz max_second exclude
            (ring\<lparr>rb_cursor_chunk := 0, rb_cursor_slice := 0\<rparr>, pages, slices, w)))"

section \<open>The tiling invariant\<close>

text \<open>
  \<open>P\<close> gives for each page the ids by address and \<open>S\<close> the slices by id. The slice at address \<open>a\<close>
  of a page starts at \<open>a\<close>, is a positive multiple of the alignment long and ends where the next
  one starts, or at the end of the page.
\<close>

type_synonym pages_view = "storage_id \<Rightarrow> (nat \<Rightarrow> slice_id option) option"
type_synonym slices_view = "slice_id \<Rightarrow> slice option"

definition slot_ok :: "nat \<Rightarrow> nat \<Rightarrow> storage_id \<Rightarrow> (nat \<Rightarrow> slice_id option) \<Rightarrow> nat \<Rightarrow> slice \<Rightarrow> bool" where
  "slot_ok al ps pid pg a s \<longleftrightarrow> sh_id (sl_storage s) = pid \<and> sh_offset (sl_storage s) = a \<and>
     0 < eff s \<and> al dvd a \<and> al dvd eff s \<and> a + eff s \<le> ps \<and> (a + eff s = ps \<or> a + eff s \<in> dom pg) \<and>
     (\<forall>b \<in> dom pg. a < b \<longrightarrow> a + eff s \<le> b)"

definition page_tiled :: "nat \<Rightarrow> nat \<Rightarrow> storage_id \<Rightarrow> (nat \<Rightarrow> slice_id option) \<Rightarrow> slices_view \<Rightarrow> bool" where
  "page_tiled al ps pid pg S \<longleftrightarrow> 0 \<in> dom pg \<and>
     (\<forall>a i. pg a = Some i \<longrightarrow> (\<exists>s. S i = Some s \<and> slot_ok al ps pid pg a s))"

text \<open>Every slice is on its page, but for those of size zero: handing one out leaves the address
  to the rest of the slice it was cut from.\<close>

definition placed :: "nat \<Rightarrow> pages_view \<Rightarrow> world \<Rightarrow> slice_id \<Rightarrow> slice \<Rightarrow> bool" where
  "placed ps P w i s \<longleftrightarrow> sl_handle s = i \<and> i < slice_next w \<and> counts_ok w i \<and>
     sh_offset (sl_storage s) + eff s \<le> ps \<and>
     (\<exists>pg. P (sh_id (sl_storage s)) = Some pg \<and> (pg (sh_offset (sl_storage s)) = Some i \<or> eff s = 0))"

definition pages_inv :: "nat \<Rightarrow> nat \<Rightarrow> pages_view \<Rightarrow> slices_view \<Rightarrow> world \<Rightarrow> bool" where
  "pages_inv al ps P S w \<longleftrightarrow> 0 < al \<and> al dvd ps \<and> 0 < ps \<and> ps < u64_bound \<and>
     (\<forall>pid pg. P pid = Some pg \<longrightarrow> page_tiled al ps pid pg S) \<and>
     (\<forall>i s. S i = Some s \<longrightarrow> placed ps P w i s)"

lemma pages_inv_slot:
  assumes "pages_inv al ps P S w" "P pid = Some pg" "pg a = Some i"
  obtains s where "S i = Some s" "slot_ok al ps pid pg a s" "sl_handle s = i" "i < slice_next w"
    "counts_ok w i"
  using assms unfolding pages_inv_def page_tiled_def placed_def by metis

lemma pages_inv_world:
  assumes "pages_inv al ps P S w" "slice_next w \<le> slice_next w'" "\<And>i. i \<in> dom S \<Longrightarrow> counts_ok w' i"
  shows "pages_inv al ps P S w'"
  using assms unfolding pages_inv_def placed_def by (fastforce simp: dom_def)

lemma pages_inv_eff:
  "pages_inv al ps P S w \<Longrightarrow> S i = Some s \<Longrightarrow> sh_offset (sl_storage s) + eff s \<le> ps \<and> ps < u64_bound"
  by (auto simp: pages_inv_def placed_def)

text \<open>Two slices at different addresses of a page have different ids, and so have slices of
  different pages.\<close>

lemma pages_inv_inj:
  assumes "pages_inv al ps P S w" "P pid = Some pg" "pg a = Some i" "P pid' = Some pg'" "pg' b = Some i"
  shows "pid = pid' \<and> a = b"
  using pages_inv_slot [OF assms(1-3)] pages_inv_slot [OF assms(1,4,5)]
  unfolding slot_ok_def by (metis option.inject)

lemma slot_ok_next: "slot_ok al ps pid pg a s \<Longrightarrow> pg b = Some j \<Longrightarrow> a < b \<Longrightarrow> a + eff s \<le> b"
  by (auto simp: slot_ok_def)

text \<open>Changing how a slice is used, but not where it is and how long it is.\<close>

lemma pages_inv_reuse:
  assumes inv: "pages_inv al ps P S w" and s: "S i = Some s"
    and s': "sl_handle s' = sl_handle s" "sh_id (sl_storage s') = sh_id (sl_storage s)"
      "sh_offset (sl_storage s') = sh_offset (sl_storage s)" "eff s' = eff s"
  shows "pages_inv al ps P (S(i \<mapsto> s')) w"
proof -
  have "slot_ok al ps pid pg a s' = slot_ok al ps pid pg a s" for pid pg a
    using s' by (simp add: slot_ok_def)
  then have "page_tiled al ps pid pg (S(i \<mapsto> s'))" if "page_tiled al ps pid pg S" for pid pg
    using that s unfolding page_tiled_def by (metis fun_upd_apply option.inject)
  moreover have "placed ps P w j t" if "(S(i \<mapsto> s')) j = Some t" for j t
    using that inv s s' unfolding pages_inv_def placed_def by (auto split: if_splits)
  ultimately show ?thesis using inv unfolding pages_inv_def by blast
qed

text \<open>Merging a slice with the one after it.\<close>

lemma slot_ok_drop_next:
  assumes "slot_ok al ps pid pg b u" "slot_ok al ps pid pg a s" "a \<noteq> b" "pg a \<noteq> None"
    "pg b \<noteq> None"
  shows "slot_ok al ps pid (pg(a + eff s := None)) b u"
proof -
  have d: "a \<in> dom pg" "b \<in> dom pg" using assms(4,5) by auto
  have "b + eff u \<le> a" if "b < a" using that assms(1) d by (auto simp: slot_ok_def)
  moreover have "a + eff s \<le> b" if "a < b" using that assms(2) d by (auto simp: slot_ok_def)
  moreover have "0 < eff s" "0 < eff u" using assms(1,2) by (auto simp: slot_ok_def)
  ultimately have "b + eff u \<noteq> a + eff s" using assms(3) by (cases "b < a") auto
  then show ?thesis
    using assms(1) unfolding slot_ok_def by auto
qed

lemma slot_ok_merged:
  assumes "slot_ok al ps pid pg a s" "slot_ok al ps pid pg (a + eff s) t"
    and s': "sh_id (sl_storage s') = sh_id (sl_storage s)"
      "sh_offset (sl_storage s') = sh_offset (sl_storage s)" "eff s' = eff s + eff t"
  shows "slot_ok al ps pid (pg(a + eff s := None)) a s'"
proof -
  have "a + eff s' \<le> b" if "b \<in> dom pg" "b \<noteq> a + eff s" "a < b" for b
  proof -
    have "a + eff s \<le> b" using that assms(1) by (auto simp: slot_ok_def)
    with that have "a + eff s < b" by simp
    with that assms(2) have "a + eff s + eff t \<le> b" by (auto simp: slot_ok_def)
    then show ?thesis by (simp add: s')
  qed
  then show ?thesis
    using assms unfolding slot_ok_def by (auto simp: add.assoc)
qed

text \<open>Replacing one page: the slices of the other pages must not change.\<close>

lemma pages_inv_replace_page:
  assumes inv: "pages_inv al ps P S w"
    and tiled: "page_tiled al ps pid pg' S'"
    and other: "\<And>q pg2 b k. q \<noteq> pid \<Longrightarrow> P q = Some pg2 \<Longrightarrow> pg2 b = Some k \<Longrightarrow> S' k = S k"
    and plc: "\<And>k u. S' k = Some u \<Longrightarrow> placed ps (P(pid \<mapsto> pg')) w' k u"
  shows "pages_inv al ps (P(pid \<mapsto> pg')) S' w'"
proof -
  have "page_tiled al ps q pg2 S'" if "P q = Some pg2" "q \<noteq> pid" for q pg2
    using that inv other [OF that(2,1)] unfolding pages_inv_def page_tiled_def by metis
  then show ?thesis using inv tiled plc unfolding pages_inv_def by auto
qed

lemma page_tiled_merge:
  assumes inv: "pages_inv al ps P S w" and pg: "P pid = Some pg" "pg a = Some i" "S i = Some s"
    and nx: "pg (a + eff s) = Some j" "S j = Some t"
    and s': "sh_id (sl_storage s') = sh_id (sl_storage s)"
      "sh_offset (sl_storage s') = sh_offset (sl_storage s)" "eff s' = eff s + eff t"
  shows "page_tiled al ps pid (pg(a + eff s := None)) ((S(i \<mapsto> s'))(j := None))"
  unfolding page_tiled_def
proof (intro conjI allI impI)
  from pages_inv_slot [OF inv pg(1,2)] pg(3) have oki: "slot_ok al ps pid pg a s" by auto
  from pages_inv_slot [OF inv pg(1) nx(1)] nx(2) have okj: "slot_ok al ps pid pg (a + eff s) t" by auto
  have pos: "0 < eff s" using oki by (auto simp: slot_ok_def)
  have ij: "i \<noteq> j" using pages_inv_inj [OF inv pg(1,2) pg(1), of "a + eff s"] nx(1) pos by auto
  have "0 \<in> dom pg" using inv pg(1) by (auto simp: pages_inv_def page_tiled_def)
  then show "0 \<in> dom (pg(a + eff s := None))" using pos by auto
  fix b k assume "(pg(a + eff s := None)) b = Some k"
  then have b: "pg b = Some k" "b \<noteq> a + eff s" by (auto split: if_splits)
  show "\<exists>u. ((S(i \<mapsto> s'))(j := None)) k = Some u \<and> slot_ok al ps pid (pg(a + eff s := None)) b u"
  proof (cases "b = a")
    case True
    then show ?thesis using b pg(2) ij slot_ok_merged [OF oki okj s'] by auto
  next
    case False
    from pages_inv_slot [OF inv pg(1) b(1)] obtain u where
      u: "S k = Some u" "slot_ok al ps pid pg b u" by metis
    have "k \<noteq> i" "k \<noteq> j"
      using pages_inv_inj [OF inv pg(1) b(1) pg(1)] pg(2) nx(1) b(2) False by blast+
    then show ?thesis using u slot_ok_drop_next [OF u(2) oki] False pg(2) b(1) by auto
  qed
qed

lemma counts_ok_handle_drop [simp]: "k \<noteq> j \<Longrightarrow> counts_ok (handle_drop j w) k = counts_ok w k"
  by (simp add: counts_ok_def handle_drop_def)

lemma handle_drop_next [simp]:
  "slice_next (handle_drop j w) = slice_next w" "storage_next (handle_drop j w) = storage_next w"
  by (simp_all add: handle_drop_def)

lemma pages_inv_merge:
  assumes inv: "pages_inv al ps P S w" and pg: "P pid = Some pg" "pg a = Some i" "S i = Some s"
    and nx: "pg (a + eff s) = Some j" "S j = Some t"
    and s': "sl_handle s' = sl_handle s" "sh_id (sl_storage s') = sh_id (sl_storage s)"
      "sh_offset (sl_storage s') = sh_offset (sl_storage s)" "eff s' = eff s + eff t"
  shows "pages_inv al ps (P(pid \<mapsto> pg(a + eff s := None))) ((S(i \<mapsto> s'))(j := None)) (handle_drop j w)"
proof (rule pages_inv_replace_page [OF inv page_tiled_merge [OF inv pg nx s'(2-4)]])
  fix q pg2 b k assume "q \<noteq> pid" "P q = Some pg2" "pg2 b = Some k"
  then have "k \<noteq> i" "k \<noteq> j"
    using pages_inv_inj [OF inv \<open>P q = Some pg2\<close> \<open>pg2 b = Some k\<close> pg(1)] pg(2) nx(1) by blast+
  then show "((S(i \<mapsto> s'))(j := None)) k = S k" by simp
next
  fix k u assume k: "((S(i \<mapsto> s'))(j := None)) k = Some u"
  from pages_inv_slot [OF inv pg(1,2)] pg(3) have oki: "slot_ok al ps pid pg a s" by auto
  from pages_inv_slot [OF inv pg(1) nx(1)] nx(2) have okj: "slot_ok al ps pid pg (a + eff s) t" by auto
  have kj: "k \<noteq> j" using k by auto
  show "placed ps (P(pid \<mapsto> pg(a + eff s := None))) (handle_drop j w) k u"
  proof (cases "k = i")
    case True
    then show ?thesis
      using k kj inv pg s' oki okj by (auto simp: pages_inv_def placed_def slot_ok_def)
  next
    case False
    then have "placed ps P w k u" using k kj inv by (auto simp: pages_inv_def)
    then show ?thesis using pg(1) nx(1) kj unfolding placed_def by auto
  qed
qed

text \<open>Cutting a slice in two; a first part of size zero gives its address to the second.\<close>

lemma page_tiled_split:
  assumes inv: "pages_inv al ps P S w" and pg: "P pid = Some pg" "pg a = Some i" "S i = Some s"
    and n: "n < eff s" "al dvd n" and k: "S k = None"
    and s': "sh_id (sl_storage s') = pid" "sh_offset (sl_storage s') = a" "eff s' = n"
    and t: "sh_id (sl_storage t) = pid" "sh_offset (sl_storage t) = a + n" "eff t = eff s - n"
  shows "page_tiled al ps pid (pg(a + n \<mapsto> k)) (S(i \<mapsto> s', k \<mapsto> t))"
  unfolding page_tiled_def
proof (intro conjI allI impI)
  from pages_inv_slot [OF inv pg(1,2)] pg(3) have oki: "slot_ok al ps pid pg a s" by auto
  have ik: "i \<noteq> k" using k pg(3) by auto
  have "0 \<in> dom pg" using inv pg(1) by (auto simp: pages_inv_def page_tiled_def)
  then show "0 \<in> dom (pg(a + n \<mapsto> k))" by auto
  have okt: "slot_ok al ps pid (pg(a + n \<mapsto> k)) (a + n) t"
    using oki n t unfolding slot_ok_def by auto
  fix b j assume b: "(pg(a + n \<mapsto> k)) b = Some j"
  show "\<exists>u. (S(i \<mapsto> s', k \<mapsto> t)) j = Some u \<and> slot_ok al ps pid (pg(a + n \<mapsto> k)) b u"
  proof (cases "b = a + n")
    case True
    then show ?thesis using b okt by auto
  next
    case ban: False
    with b have b': "pg b = Some j" by simp
    then have jk: "j \<noteq> k" using pages_inv_slot [OF inv pg(1) b'] k by (metis option.distinct(1))
    show ?thesis
    proof (cases "b = a")
      case True
      then have "0 < n" using ban by simp
      then have "slot_ok al ps pid (pg(a + n \<mapsto> k)) a s'"
        using oki n s' unfolding slot_ok_def by auto
      then show ?thesis using True b' pg(2) ik by auto
    next
      case False
      from pages_inv_slot [OF inv pg(1) b'] obtain u where
        u: "S j = Some u" "slot_ok al ps pid pg b u" by metis
      have ji: "j \<noteq> i" using pages_inv_inj [OF inv pg(1) b' pg(1)] pg(2) False by blast
      have "b < a + n \<Longrightarrow> b + eff u \<le> a + n"
        using slot_ok_next [OF u(2) pg(2)] slot_ok_next [OF oki b'] False n(1) by linarith
      then have "slot_ok al ps pid (pg(a + n \<mapsto> k)) b u"
        using u(2) unfolding slot_ok_def by auto
      then show ?thesis using u(1) ji jk by auto
    qed
  qed
qed

lemma pages_inv_split:
  assumes inv: "pages_inv al ps P S w" and pg: "P pid = Some pg" "pg a = Some i" "S i = Some s"
    and n: "n < eff s" "al dvd n" and k: "S k = None" "k < slice_next w'" "counts_ok w' k"
    and w': "slice_next w \<le> slice_next w'" "\<And>i. i \<in> dom S \<Longrightarrow> counts_ok w' i"
    and s': "sl_handle s' = sl_handle s" "sh_id (sl_storage s') = pid" "sh_offset (sl_storage s') = a"
      "eff s' = n"
    and t: "sl_handle t = k" "sh_id (sl_storage t) = pid" "sh_offset (sl_storage t) = a + n"
      "eff t = eff s - n"
  shows "pages_inv al ps (P(pid \<mapsto> pg(a + n \<mapsto> k))) (S(i \<mapsto> s', k \<mapsto> t)) w'"
proof (rule pages_inv_replace_page [OF inv page_tiled_split [OF inv pg n k(1) s'(2-4) t(2-4)]])
  fix q pg2 b j assume "q \<noteq> pid" "P q = Some pg2" "pg2 b = Some j"
  then have "j \<noteq> i" and "S j \<noteq> None"
    using pages_inv_inj [OF inv \<open>P q = Some pg2\<close> \<open>pg2 b = Some j\<close> pg(1)] pg(2)
      pages_inv_slot [OF inv \<open>P q = Some pg2\<close> \<open>pg2 b = Some j\<close>] by (blast, metis option.distinct(1))
  then show "(S(i \<mapsto> s', k \<mapsto> t)) j = S j" using k(1) by auto
next
  fix j u assume j: "(S(i \<mapsto> s', k \<mapsto> t)) j = Some u"
  from pages_inv_slot [OF inv pg(1,2)] pg(3) have oki: "slot_ok al ps pid pg a s" "sl_handle s = i" by auto
  have ik: "i \<noteq> k" using k(1) pg(3) by auto
  have ae: "a + eff s \<le> ps" using oki by (simp add: slot_ok_def)
  have pi: "placed ps P w i s" using inv pg(3) by (auto simp: pages_inv_def)
  consider "j = k" | "j = i" "j \<noteq> k" | "j \<noteq> i" "j \<noteq> k" by blast
  then show "placed ps (P(pid \<mapsto> pg(a + n \<mapsto> k))) w' j u"
  proof cases
    case 1
    then have "u = t" using j by simp
    then show ?thesis using 1 k t n(1) ae by (simp add: placed_def)
  next
    case 2
    then have "u = s'" using j by simp
    then show ?thesis using 2 pi pg(2,3) oki(2) w' s' n(1) ae by (auto simp: placed_def)
  next
    case 3
    then have "S j = Some u" using j by auto
    then have "placed ps P w j u" and "counts_ok w' j" using inv w' by (auto simp: pages_inv_def)
    moreover have "pg (sh_offset (sl_storage u)) = Some j \<Longrightarrow> sh_offset (sl_storage u) \<noteq> a + n"
      using slot_ok_next [OF oki(1), of "a + n" j] n(1) 3 pg(2) by (cases "n = 0") auto
    ultimately show ?thesis using pg(1) w'(1) unfolding placed_def by auto
  qed
qed

section \<open>Splitting and merging, operationally\<close>

abbreviation page_view :: "memory_page \<Rightarrow> nat \<Rightarrow> slice_id option" where
  "page_view page \<equiv> map_of (mp_slices page)"

definition pages_view_of :: "page_map \<Rightarrow> pages_view" where
  "pages_view_of pages pid = map_option page_view (hm_get pages pid)"

lemma pages_view_of_insert [simp]:
  "pages_view_of (hm_insert i page pages) = (pages_view_of pages)(i \<mapsto> page_view page)"
  by (auto simp: pages_view_of_def)

definition resized :: "slice \<Rightarrow> nat \<Rightarrow> nat \<Rightarrow> slice" where
  "resized s n padding = s\<lparr>sl_storage := (sl_storage s)\<lparr>sh_utilization :=
     \<lparr>su_offset = sh_offset (sl_storage s), su_size = n\<rparr>\<rparr>, sl_padding := padding\<rparr>"

lemma resized_simps [simp]:
  "sl_handle (resized s n p) = sl_handle s"
  "sh_id (sl_storage (resized s n p)) = sh_id (sl_storage s)"
  "sh_offset (sl_storage (resized s n p)) = sh_offset (sl_storage s)"
  "sh_size (sl_storage (resized s n p)) = n"
  "sl_padding (resized s n p) = p"
  "eff (resized s n p) = n + p"
  by (simp_all add: resized_def sh_offset_def sh_size_def eff_def)

lemma slice_split_returns:
  assumes "n < eff s" "sh_offset (sl_storage s) + eff s < u64_bound" "0 < al"
    "al dvd sh_offset (sl_storage s)" "al dvd n" "al dvd eff s" "world_wf w" "slice_next w \<noteq> usize_max"
  shows "slice_split s n al w = Ret (Some \<lparr>sl_storage = \<lparr>sh_id = sh_id (sl_storage s),
      sh_utilization = \<lparr>su_offset = sh_offset (sl_storage s) + n, su_size = eff s - n\<rparr>\<rparr>,
      sl_handle = slice_next w, sl_padding = 0\<rparr>, resized s n 0, fresh_handle w)"
proof -
  have d: "al dvd eff s - n" "al dvd sh_offset (sl_storage s) + n" using assms by auto
  then have "al \<le> eff s - n" using assms(1) by (simp add: dvd_imp_le)
  moreover have "al dvd eff s - (n + al)" using dvd_diff_nat [OF d(1) dvd_refl] by simp
  ultimately have "returns (slice_split s n al w) (\<lambda>x. x = (Some \<lparr>sl_storage = \<lparr>sh_id = sh_id (sl_storage s),
      sh_utilization = \<lparr>su_offset = sh_offset (sl_storage s) + n, su_size = eff s - n\<rparr>\<rparr>,
      sl_handle = slice_next w, sl_padding = 0\<rparr>, resized s n 0, fresh_handle w))"
    using assms d by (auto simp: slice_split_def Let_def resized_def fresh_handle_def world_wf_def
        dvd_eq_mod_eq_0 [symmetric])
  then show ?thesis by (auto simp: returns_eq)
qed

lemma merge_with_next_slice_returns:
  assumes inv: "pages_inv al ps P S w" and S: "S = map_of slices"
    and P: "P pid = Some (page_view page)" and i: "page_view page a = Some i" "S i = Some s"
    and wf: "hm_wf (mp_slices page)" "hm_wf slices"
  shows "returns (merge_with_next_slice page a slices w) (\<lambda>(merged, page', slices', w').
    if merged then
      \<exists>j t. page_view page (a + eff s) = Some j \<and> S j = Some t \<and> is_free w t \<and>
        page' = page\<lparr>mp_slices := hm_remove (a + eff s) (mp_slices page)\<rparr> \<and>
        slices' = hm_remove j (hm_insert i (resized s (eff s + eff t) 0) slices) \<and> w' = handle_drop j w
    else page' = page \<and> slices' = slices \<and> w' = w)"
proof -
  from pages_inv_slot [OF inv P i(1)] i(2) have oki: "slot_ok al ps pid (page_view page) a s" by auto
  have ps: "ps < u64_bound" "a + eff s \<le> ps" using inv oki by (auto simp: pages_inv_def slot_ok_def)
  show ?thesis
  proof (cases "page_view page (a + eff s)")
    case None
    then show ?thesis
      using ps i S by (simp add: merge_with_next_slice_def find_slice_def)
  next
    case (Some j)
    from pages_inv_slot [OF inv P Some] obtain t where
      t: "S j = Some t" "slot_ok al ps pid (page_view page) (a + eff s) t" "sl_handle t = j" by metis
    then have "a + eff s + eff t \<le> ps" by (simp add: slot_ok_def)
    then show ?thesis
      using ps i S Some t
      by (simp add: merge_with_next_slice_def find_slice_def resized_def Let_def)
  qed
qed

section \<open>Searching one page\<close>

definition chunk_inv :: "nat \<Rightarrow> nat \<Rightarrow> pages_view \<Rightarrow> storage_id \<Rightarrow> memory_page \<Rightarrow> slice_map \<Rightarrow> world \<Rightarrow> bool" where
  "chunk_inv al ps P pid page slices w \<longleftrightarrow>
     pages_inv al ps (P(pid \<mapsto> page_view page)) (map_of slices) w \<and>
     hm_wf (mp_slices page) \<and> hm_wf slices \<and> world_wf w"

lemma chunk_inv_slot:
  assumes "chunk_inv al ps P pid page slices w" "page_view page a = Some i"
  obtains s where "hm_get slices i = Some s" "slot_ok al ps pid (page_view page) a s" "sl_handle s = i"
    "i < slice_next w" "counts_ok w i" "a + eff s \<le> ps" "ps < u64_bound" "0 < al"
proof -
  have inv: "pages_inv al ps (P(pid \<mapsto> page_view page)) (map_of slices) w"
    using assms(1) by (simp add: chunk_inv_def)
  from pages_inv_slot [OF inv fun_upd_same assms(2)] show ?thesis
    using that inv by (auto simp: slot_ok_def pages_inv_def)
qed

lemma chunk_merge:
  assumes inv: "chunk_inv al ps P pid page slices w" and i: "page_view page a = Some i" "hm_get slices i = Some s"
    and j: "page_view page (a + eff s) = Some j" "hm_get slices j = Some t"
    and free: "is_free w s" "is_free w t"
    and new: "slices' = hm_remove j (hm_insert i (resized s (eff s + eff t) 0) slices)"
      "page' = page\<lparr>mp_slices := hm_remove (a + eff s) (mp_slices page)\<rparr>"
  shows "chunk_inv al ps P pid page' slices' (handle_drop j w) \<and>
    quiet (map_of slices) w (map_of slices') (handle_drop j w)"
proof -
  have pinv: "pages_inv al ps (P(pid \<mapsto> page_view page)) (map_of slices) w" and wf: "world_wf w"
    using inv by (auto simp: chunk_inv_def)
  from chunk_inv_slot [OF inv i(1)] i(2) have si: "sl_handle s = i" by auto
  from chunk_inv_slot [OF inv j(1)] j(2) have tj: "sl_handle t = j" by auto
  have "pages_inv al ps ((P(pid \<mapsto> page_view page))(pid \<mapsto> (page_view page)(a + eff s := None)))
      (((map_of slices)(i \<mapsto> resized s (eff s + eff t) 0))(j := None)) (handle_drop j w)"
    by (rule pages_inv_merge [OF pinv fun_upd_same i j]) auto
  then have "chunk_inv al ps P pid page' slices' (handle_drop j w)"
    using inv by (simp add: chunk_inv_def new world_wf_def)
  moreover have "live_slices (map_of slices') (handle_drop j w) = live_slices (map_of slices) w"
    by (rule live_slices_cong [where F = "{i, j}"])
      (use free si tj in \<open>auto simp: new live_slices_def is_free_def handle_is_free_def handle_drop_def\<close>)
  moreover have "keeps_to_itself (map_of slices) w (map_of slices') (handle_drop j w)"
    using wf i j free(2) tj by (auto simp: keeps_to_itself_def world_ext_def new handle_drop_def world_wf_def is_free_def)
  ultimately show ?thesis by (simp add: quiet_def)
qed

lemma chunk_split:
  assumes inv: "chunk_inv al ps P pid page slices w" and i: "page_view page a = Some i" "hm_get slices i = Some s"
    and free: "is_free w s" and n: "n < eff s" "al dvd n" and room: "slice_next w \<noteq> usize_max"
    and t: "t = \<lparr>sl_storage = \<lparr>sh_id = sh_id (sl_storage s),
      sh_utilization = \<lparr>su_offset = sh_offset (sl_storage s) + n, su_size = eff s - n\<rparr>\<rparr>,
      sl_handle = slice_next w, sl_padding = 0\<rparr>"
    and new: "slices' = hm_insert (slice_next w) t (hm_insert i (resized s n 0) slices)"
      "page' = page\<lparr>mp_slices := hm_insert (a + n) (slice_next w) (mp_slices page)\<rparr>"
  shows "chunk_inv al ps P pid page' slices' (fresh_handle w) \<and>
    quiet (map_of slices) w (map_of slices') (fresh_handle w)"
proof -
  have pinv: "pages_inv al ps (P(pid \<mapsto> page_view page)) (map_of slices) w" and wf: "world_wf w"
    using inv by (auto simp: chunk_inv_def)
  from chunk_inv_slot [OF inv i(1)] i(2) have
    si: "sl_handle s = i" "sh_id (sl_storage s) = pid" "sh_offset (sl_storage s) = a" "i < slice_next w"
    by (auto simp: slot_ok_def)
  have old: "j < slice_next w \<and> counts_ok w j" if "hm_get slices j = Some u" for j u
    using pinv that by (auto simp: pages_inv_def placed_def)
  then have k: "hm_get slices (slice_next w) = None" by (cases "hm_get slices (slice_next w)") auto
  have "pages_inv al ps ((P(pid \<mapsto> page_view page))(pid \<mapsto> (page_view page)(a + n \<mapsto> slice_next w)))
      ((map_of slices)(i \<mapsto> resized s n 0, slice_next w \<mapsto> t)) (fresh_handle w)"
    by (rule pages_inv_split [OF pinv fun_upd_same i n k])
      (use old si in \<open>auto simp: t counts_ok_def\<close>)
  then have "chunk_inv al ps P pid page' slices' (fresh_handle w)"
    using inv room by (simp add: chunk_inv_def new world_wf_def)
  moreover have "live_slices (map_of slices') (fresh_handle w) = live_slices (map_of slices) w"
    by (rule live_slices_cong [where F = "{i, slice_next w}"])
      (use free si k in \<open>auto simp: new live_slices_def is_free_def handle_is_free_def\<close>)
  moreover have "keeps_to_itself (map_of slices) w (map_of slices') (fresh_handle w)"
    using wf i room by (auto simp: keeps_to_itself_def world_ext_def new world_wf_def)
  ultimately show ?thesis by (simp add: quiet_def)
qed

text \<open>The slice a search returns: free, on the page searched and of exactly the size asked for.\<close>

definition found :: "nat \<Rightarrow> storage_id \<Rightarrow> slice_map \<Rightarrow> world \<Rightarrow> slice_id \<Rightarrow> bool" where
  "found sz pid slices w i \<longleftrightarrow> (\<exists>s. hm_get slices i = Some s \<and> sh_id (sl_storage s) = pid \<and>
     eff s = sz \<and> handle_is_free w i)"

definition chunk_step_post ::
  "nat \<Rightarrow> nat \<Rightarrow> pages_view \<Rightarrow> storage_id \<Rightarrow> nat \<Rightarrow> chunk_state \<Rightarrow> chunk_state + chunk_result \<Rightarrow> bool" where
  "chunk_step_post al ps P pid sz = (\<lambda>(page, slices, w, idx) x. case x of
     Inl (page', slices', w', idx') \<Rightarrow>
       chunk_inv al ps P pid page' slices' w' \<and> quiet (map_of slices) w (map_of slices') w' \<and>
       slice_next w' = slice_next w \<and>
       length (mp_slices page') + (ps - idx') < length (mp_slices page) + (ps - idx)
   | Inr (res, page', slices', w') \<Rightarrow>
       chunk_inv al ps P pid page' slices' w' \<and> quiet (map_of slices) w (map_of slices') w' \<and>
       (case res of None \<Rightarrow> slice_next w' = slice_next w | Some (_, i) \<Rightarrow> found sz pid slices' w' i))"

lemma chunk_step_take:
  assumes inv: "chunk_inv al ps P pid page slices w" and a: "page_view page idx = Some i"
    and s: "hm_get slices i = Some s" "sz \<le> eff s" "is_free w s"
    and sz: "al dvd sz" and room: "slice_next w \<noteq> usize_max"
  shows "returns (find_free_slice_in_chunk_body al sz (page, slices, w, idx))
    (chunk_step_post al ps P pid sz (page, slices, w, idx))"
proof -
  from chunk_inv_slot [OF inv a] s(1) have ok: "slot_ok al ps pid (page_view page) idx s"
    "sl_handle s = i" "idx + eff s \<le> ps" "ps < u64_bound" "0 < al" "i < slice_next w" "counts_ok w i" by auto
  have wf: "world_wf w" using inv by (simp add: chunk_inv_def)
  show ?thesis
  proof (cases "sz < eff s")
    case False
    then have "eff s = sz" using s(2) by simp
    then show ?thesis
      using ok a s inv wf
      by (simp add: find_free_slice_in_chunk_body_def find_slice_def chunk_step_post_def quiet_refl
          found_def is_free_def slot_ok_def)
  next
    case True
    have off: "sh_offset (sl_storage s) = idx" "al dvd idx" "al dvd eff s"
      "sh_id (sl_storage s) = pid" using ok by (auto simp: slot_ok_def)
    have sp: "slice_split s sz al w = Ret (Some \<lparr>sl_storage = \<lparr>sh_id = sh_id (sl_storage s),
      sh_utilization = \<lparr>su_offset = sh_offset (sl_storage s) + sz, su_size = eff s - sz\<rparr>\<rparr>,
      sl_handle = slice_next w, sl_padding = 0\<rparr>, resized s sz 0, fresh_handle w)"
      using True off ok sz room wf by (intro slice_split_returns) auto
    from chunk_split [OF inv a s(1,3) True sz room refl refl refl]
    show ?thesis
      using ok a s True off
      by (simp add: find_free_slice_in_chunk_body_def find_slice_def chunk_step_post_def sp
          next_slice_position_def insert_slice_def found_def handle_is_free_def is_free_def Let_def)
  qed
qed

lemma chunk_step_pass:
  assumes inv: "chunk_inv al ps P pid page slices w" and a: "page_view page idx = Some i"
    and s: "hm_get slices i = Some s" "\<not> (sz \<le> eff s \<and> is_free w s)"
  shows "returns (find_free_slice_in_chunk_body al sz (page, slices, w, idx))
    (chunk_step_post al ps P pid sz (page, slices, w, idx))"
proof -
  from chunk_inv_slot [OF inv a] s(1) have ok: "slot_ok al ps pid (page_view page) idx s"
    "sl_handle s = i" "idx + eff s \<le> ps" "ps < u64_bound" by auto
  have wf: "world_wf w" "hm_wf (mp_slices page)" "hm_wf slices"
    and pinv: "pages_inv al ps (P(pid \<mapsto> page_view page)) (map_of slices) w"
    using inv by (auto simp: chunk_inv_def)
  have adv: "sh_offset (sl_storage s) = idx" "0 < eff s" using ok by (auto simp: slot_ok_def)
  have skip: "chunk_step_post al ps P pid sz (page, slices, w, idx) (Inl (page, slices, w, idx + eff s))"
    using inv wf adv ok by (auto simp: chunk_step_post_def quiet_refl)
  show ?thesis
  proof (cases "is_free w s")
    case False
    then show ?thesis
      using s a ok adv skip
      by (simp add: find_free_slice_in_chunk_body_def find_slice_def next_slice_position_def)
  next
    case True
    from merge_with_next_slice_returns [OF pinv refl fun_upd_same a s(1) wf(2,3)]
    obtain merged page' slices' w' where
      m: "merge_with_next_slice page idx slices w = Ret (merged, page', slices', w')"
      and post: "if merged then
        \<exists>j t. page_view page (idx + eff s) = Some j \<and> hm_get slices j = Some t \<and> is_free w t \<and>
          page' = page\<lparr>mp_slices := hm_remove (idx + eff s) (mp_slices page)\<rparr> \<and>
          slices' = hm_remove j (hm_insert i (resized s (eff s + eff t) 0) slices) \<and> w' = handle_drop j w
        else page' = page \<and> slices' = slices \<and> w' = w"
      by (auto simp: returns_eq)
    have "chunk_step_post al ps P pid sz (page, slices, w, idx) (Inl (page', slices', w', idx))" if merged
    proof -
      from that post obtain j t where jt: "page_view page (idx + eff s) = Some j"
        "hm_get slices j = Some t" "is_free w t"
        and new: "page' = page\<lparr>mp_slices := hm_remove (idx + eff s) (mp_slices page)\<rparr>"
          "slices' = hm_remove j (hm_insert i (resized s (eff s + eff t) 0) slices)" "w' = handle_drop j w"
        by auto
      from chunk_merge [OF inv a s(1) jt(1,2) True jt(3) new(2,1)] new(3)
        length_delete [OF wf(2) jt(1)]
      show ?thesis by (auto simp: chunk_step_post_def new(1))
    qed
    then show ?thesis
      using s a ok adv skip True post m
      by (auto simp: find_free_slice_in_chunk_body_def find_slice_def next_slice_position_def)
  qed
qed

lemma chunk_step:
  assumes "chunk_inv al ps P pid page slices w" "al dvd sz" "slice_next w \<noteq> usize_max"
  shows "returns (find_free_slice_in_chunk_body al sz (page, slices, w, idx))
    (chunk_step_post al ps P pid sz (page, slices, w, idx))"
proof (cases "page_view page idx")
  case None
  then show ?thesis
    using assms by (auto simp: find_free_slice_in_chunk_body_def find_slice_def chunk_step_post_def
        chunk_inv_def quiet_refl)
next
  case (Some i)
  from chunk_inv_slot [OF assms(1) Some] obtain s where "hm_get slices i = Some s" by metis
  then show ?thesis
    using assms Some chunk_step_take chunk_step_pass by (cases "sz \<le> eff s \<and> is_free w s") blast+
qed

text \<open>The search of one page ends, does not panic, keeps the tiling and disturbs no live slice.\<close>

lemma find_free_slice_in_chunk_returns:
  assumes inv: "chunk_inv al ps P pid page slices w" and sz: "al dvd sz" and room: "slice_next w \<noteq> usize_max"
  shows "returns (find_free_slice_in_chunk al sz page slices w idx) (\<lambda>(res, page', slices', w').
    chunk_inv al ps P pid page' slices' w' \<and> quiet (map_of slices) w (map_of slices') w' \<and>
    (case res of None \<Rightarrow> slice_next w' = slice_next w | Some (_, i) \<Rightarrow> found sz pid slices' w' i))"
  unfolding find_free_slice_in_chunk_def
proof (rule loop_returns [where
    I = "\<lambda>(page', slices', w', idx'). chunk_inv al ps P pid page' slices' w' \<and>
      quiet (map_of slices) w (map_of slices') w' \<and> slice_next w' = slice_next w"
    and m = "\<lambda>(page', slices', w', idx'). length (mp_slices page') + (ps - idx')"])
  show "case (page, slices, w, idx) of (page', slices', w', idx') \<Rightarrow> chunk_inv al ps P pid page' slices' w' \<and>
      quiet (map_of slices) w (map_of slices') w' \<and> slice_next w' = slice_next w"
    using inv by (simp add: chunk_inv_def quiet_refl)
next
  fix s :: chunk_state
  obtain pg sl v ix where s: "s = (pg, sl, v, ix)" by (cases s) auto
  assume "case s of (page', slices', w', idx') \<Rightarrow> chunk_inv al ps P pid page' slices' w' \<and>
      quiet (map_of slices) w (map_of slices') w' \<and> slice_next w' = slice_next w"
  then have I: "chunk_inv al ps P pid pg sl v" "quiet (map_of slices) w (map_of sl) v"
    "slice_next v = slice_next w" by (auto simp: s)
  from chunk_step [OF I(1) sz] room I(3)
  have "returns (find_free_slice_in_chunk_body al sz s) (chunk_step_post al ps P pid sz s)"
    by (simp add: s)
  then show "returns (find_free_slice_in_chunk_body al sz s) (\<lambda>x. case x of
      Inl s' \<Rightarrow> (case s' of (page', slices', w', idx') \<Rightarrow> chunk_inv al ps P pid page' slices' w' \<and>
        quiet (map_of slices) w (map_of slices') w' \<and> slice_next w' = slice_next w) \<and>
        (case s' of (page', slices', w', idx') \<Rightarrow> length (mp_slices page') + (ps - idx')) <
        (case s of (page', slices', w', idx') \<Rightarrow> length (mp_slices page') + (ps - idx'))
    | Inr r \<Rightarrow> (case r of (res, page', slices', w') \<Rightarrow> chunk_inv al ps P pid page' slices' w' \<and>
        quiet (map_of slices) w (map_of slices') w' \<and>
        (case res of None \<Rightarrow> slice_next w' = slice_next w | Some (_, i) \<Rightarrow> found sz pid slices' w' i)))"
    using I by (elim returns_mono)
      (auto simp: chunk_step_post_def s split: sum.splits option.splits intro: quiet_trans)
qed

section \<open>Searching all pages\<close>

definition search_inv :: "nat \<Rightarrow> nat \<Rightarrow> search_state \<Rightarrow> bool" where
  "search_inv al ps = (\<lambda>(ring, pages, slices, w).
     pages_inv al ps (pages_view_of pages) (map_of slices) w \<and> hm_wf pages \<and> hm_wf slices \<and> world_wf w \<and>
     (\<forall>pid page. hm_get pages pid = Some page \<longrightarrow> hm_wf (mp_slices page)) \<and>
     rb_buffer_alignment ring = al \<and> set (rb_queue ring) = dom (map_of pages))"

text \<open>What a search may change: the tiling is kept, the pages and the queue are the same, and only
  slices nobody holds are touched.\<close>

definition search_step :: "nat \<Rightarrow> nat \<Rightarrow> search_state \<Rightarrow> search_state \<Rightarrow> bool" where
  "search_step al ps = (\<lambda>(ring, pages, slices, w) (ring', pages', slices', w').
     search_inv al ps (ring', pages', slices', w') \<and> quiet (map_of slices) w (map_of slices') w' \<and>
     dom (map_of pages') = dom (map_of pages) \<and> length pages' = length pages \<and>
     rb_queue ring' = rb_queue ring)"

definition search_post ::
  "nat \<Rightarrow> nat \<Rightarrow> nat \<Rightarrow> storage_exclude option \<Rightarrow> search_state \<Rightarrow> slice_id option \<times> search_state \<Rightarrow> bool" where
  "search_post al ps sz ex st = (\<lambda>(res, st'). search_step al ps st st' \<and>
     (case (res, st') of
        (None, (_, _, _, w')) \<Rightarrow> slice_next w' = slice_next (snd (snd (snd st)))
      | (Some i, (_, _, slices', w')) \<Rightarrow> \<exists>pid. \<not> excluded_by ex pid \<and> found sz pid slices' w' i))"

lemma search_step_refl: "search_inv al ps st \<Longrightarrow> search_step al ps st st"
  by (cases st) (auto simp: search_step_def search_inv_def quiet_refl)

lemma search_step_trans: "search_step al ps st st' \<Longrightarrow> search_step al ps st' st'' \<Longrightarrow> search_step al ps st st''"
  by (cases st; cases st'; cases st'') (auto simp: search_step_def intro: quiet_trans)

lemma search_step_inv: "search_step al ps st st' \<Longrightarrow> search_inv al ps st'"
  by (cases st; cases st') (auto simp: search_step_def)

lemma search_step_cursor:
  "search_step al ps st (ring, pages, slices, w) \<Longrightarrow>
   search_step al ps st (ring\<lparr>rb_cursor_chunk := c, rb_cursor_slice := d\<rparr>, pages, slices, w)"
  "search_step al ps st (ring, pages, slices, w) \<Longrightarrow>
   search_step al ps st (ring\<lparr>rb_cursor_slice := d, rb_cursor_chunk := c\<rparr>, pages, slices, w)"
  by (cases st; auto simp: search_step_def search_inv_def)+

lemma search_post_trans:
  "search_step al ps st st' \<Longrightarrow> slice_next (snd (snd (snd st'))) = slice_next (snd (snd (snd st))) \<Longrightarrow>
   search_post al ps sz ex st' r \<Longrightarrow> search_post al ps sz ex st r"
  by (cases r) (auto simp: search_post_def intro: search_step_trans split: option.splits)

lemma search_chunk_inv:
  assumes "search_inv al ps (ring, pages, slices, w)" "hm_get pages pid = Some page"
  shows "chunk_inv al ps (pages_view_of pages) pid page slices w"
proof -
  have "(pages_view_of pages)(pid \<mapsto> page_view page) = pages_view_of pages"
    using assms(2) by (auto simp: pages_view_of_def)
  then show ?thesis using assms by (auto simp: search_inv_def chunk_inv_def)
qed

lemma search_chunk_back:
  assumes "search_inv al ps (ring, pages, slices, w)" "hm_get pages pid = Some page"
    and "chunk_inv al ps (pages_view_of pages) pid page' slices' w'"
    and "quiet (map_of slices) w (map_of slices') w'"
  shows "search_step al ps (ring, pages, slices, w) (ring, hm_insert pid page' pages, slices', w')"
  using assms by (auto simp: search_step_def search_inv_def chunk_inv_def length_update split: if_splits)

lemma search_body:
  assumes inv: "search_inv al ps (ring, pages, slices, w)" and sz: "al dvd sz"
    and room: "slice_next w \<noteq> usize_max"
  shows "returns (find_free_slice_in_all_chunks_body sz ex start ((ring, pages, slices, w), idx) c)
    (\<lambda>x. case x of
       Inl (st', _) \<Rightarrow> search_step al ps (ring, pages, slices, w) st' \<and>
         slice_next (snd (snd (snd st'))) = slice_next w
     | Inr r \<Rightarrow> search_post al ps sz ex (ring, pages, slices, w) r)"
proof (cases "c < length (rb_queue ring) \<and> \<not> excluded_by ex (rb_queue ring ! c)")
  case False
  then show ?thesis
    using search_step_cursor(1) [OF search_step_refl [OF inv]]
    by (auto simp: find_free_slice_in_all_chunks_body_def Let_def)
next
  case True
  let ?i = "rb_queue ring ! c" and ?idx = "if c > start then 0 else idx"
  have "?i \<in> dom (map_of pages)" using inv True by (auto simp: search_inv_def)
  then obtain page where page: "hm_get pages ?i = Some page" by auto
  have al: "rb_buffer_alignment ring = al" using inv by (simp add: search_inv_def)
  from find_free_slice_in_chunk_returns [OF search_chunk_inv [OF inv page] sz room, of ?idx]
  obtain res page' slices' w' where
    r: "find_free_slice_in_chunk al sz page slices w ?idx = Ret (res, page', slices', w')"
    and ci: "chunk_inv al ps (pages_view_of pages) ?i page' slices' w'"
    and q: "quiet (map_of slices) w (map_of slices') w'"
    and f: "case res of None \<Rightarrow> slice_next w' = slice_next w | Some (_, i) \<Rightarrow> found sz ?i slices' w' i"
    by (auto simp: returns_eq)
  note st = search_chunk_back [OF inv page ci q]
  show ?thesis
  proof (cases res)
    case None
    then show ?thesis
      using True page r f search_step_cursor(1) [OF st]
      by (auto simp: find_free_slice_in_all_chunks_body_def Let_def al)
  next
    case (Some ai)
    obtain a i where ai: "ai = (a, i)" by (cases ai)
    with f Some obtain s where s: "hm_get slices' i = Some s" "found sz ?i slices' w' i"
      by (auto simp: found_def)
    have p: "pages_inv al ps ((pages_view_of pages)(?i \<mapsto> page_view page')) (map_of slices') w'"
      using ci by (simp add: chunk_inv_def)
    have h: "sl_handle s = i" using p s(1) by (auto simp: pages_inv_def placed_def)
    have b: "eff s < u64_bound" "sh_offset (sl_storage s) + eff s < u64_bound"
      using pages_inv_eff [OF p s(1)] by auto
    show ?thesis
      using True page r Some ai s h b search_step_cursor(2) [OF st]
      by (auto simp: find_free_slice_in_all_chunks_body_def Let_def al next_slice_position_def
          search_post_def)
  qed
qed

lemma find_free_slice_in_all_chunks_returns:
  assumes inv: "search_inv al ps st" and sz: "al dvd sz"
    and room: "slice_next (snd (snd (snd st))) \<noteq> usize_max"
  shows "returns (find_free_slice_in_all_chunks sz m ex st) (search_post al ps sz ex st)"
proof -
  obtain ring pages slices w where st: "st = (ring, pages, slices, w)" by (cases st) auto
  let ?I = "\<lambda>(st', _::nat). search_step al ps st st' \<and>
    slice_next (snd (snd (snd st'))) = slice_next w"
  have loop: "returns (for_each cs (find_free_slice_in_all_chunks_body sz ex start) (st, idx))
      (\<lambda>x. case x of Inl s' \<Rightarrow> ?I s' | Inr r \<Rightarrow> search_post al ps sz ex st r)" for cs start idx
  proof (rule for_each_returns [where I = ?I])
    show "?I (st, idx)" using inv by (simp add: search_step_refl st)
  next
    fix s c assume "?I s"
    then obtain ring' pages' slices' w' idx' where s: "s = ((ring', pages', slices', w'), idx')"
      and stp: "search_step al ps st (ring', pages', slices', w')" and n: "slice_next w' = slice_next w"
      by (cases s) auto
    have room': "slice_next w' \<noteq> usize_max" using n room by (simp add: st)
    show "returns (find_free_slice_in_all_chunks_body sz ex start s c)
        (\<lambda>x. case x of Inl s' \<Rightarrow> ?I s' | Inr r \<Rightarrow> search_post al ps sz ex st r)"
      unfolding s
      by (rule returns_mono [OF search_body [OF search_step_inv [OF stp] sz room']])
        (auto simp: n st split: sum.splits intro: search_step_trans [OF stp [unfolded st]]
          search_post_trans [OF stp [unfolded st]])
  qed
  show ?thesis
    unfolding find_free_slice_in_all_chunks_def Let_def st case_prod_conv returns_bindE
    by (rule returns_mono [OF loop [unfolded st]])
      (auto simp: search_post_def split: sum.splits)
qed

text \<open>\<open>RingBuffer::find_free_slice\<close> ends without a panic; a slice it returns is free, of exactly
  the size asked for and on no excluded page.\<close>

lemma find_free_slice_returns:
  assumes inv: "search_inv al ps st" and sz: "al dvd sz"
    and room: "slice_next (snd (snd (snd st))) \<noteq> usize_max"
  shows "returns (find_free_slice sz ex st) (search_post al ps sz ex st)"
proof -
  obtain ring pages slices w where st: "st = (ring, pages, slices, w)" by (cases st) auto
  from find_free_slice_in_all_chunks_returns [OF inv sz room, of "length (rb_queue ring)" ex]
  obtain res ring' pages' slices' w' where
    r: "find_free_slice_in_all_chunks sz (length (rb_queue ring)) ex st = Ret (res, ring', pages', slices', w')"
    and p: "search_post al ps sz ex st (res, ring', pages', slices', w')"
    by (auto simp: returns_eq)
  show ?thesis
  proof (cases res)
    case (Some i)
    then show ?thesis using r p by (simp add: find_free_slice_def st)
  next
    case None
    let ?st = "(ring'\<lparr>rb_cursor_chunk := 0, rb_cursor_slice := 0\<rparr>, pages', slices', w')"
    have stp: "search_step al ps st ?st" and n: "slice_next w' = slice_next w"
      using p None search_step_cursor(1) [of al ps st ring' pages' slices' w' 0 0]
      by (auto simp: search_post_def st)
    have "returns (find_free_slice_in_all_chunks sz (rb_cursor_chunk ring) ex ?st)
        (search_post al ps sz ex st)"
      using n room
      by (intro returns_mono [OF find_free_slice_in_all_chunks_returns [OF search_step_inv [OF stp] sz]]
          search_post_trans [OF stp]) (auto simp: st)
    then show ?thesis
      using r None by (simp add: find_free_slice_def st Let_def)
  qed
qed

end
