(* ===== verification/Search_Index.thy ===== *)
theory Search_Index
  imports Prelude
begin

text \<open>
  \<open>SearchIndex\<close> (\<open>memory_pool/index.rs\<close>): items with sizes, found by a range of sizes. The items
  of each size are a vector in a \<open>BTreeMap\<close>, and a second map gives the size of an item.
\<close>

record 'a search_index =
  items_per_size :: "(nat \<times> 'a list) list"
  sizes_per_item :: "('a, nat) hash_map"

definition index_new :: "'a search_index" where
  "index_new = \<lparr>items_per_size = [], sizes_per_item = []\<rparr>"

text \<open>The loop of \<open>remove\<close>: the index of the first equal value.\<close>

fun position :: "'a \<Rightarrow> 'a list \<Rightarrow> nat \<Rightarrow> nat option" where
  "position item [] i = None"
| "position item (v # vs) i = (if v = item then Some i else position item vs (Suc i))"

definition vec_remove :: "'a list \<Rightarrow> nat \<Rightarrow> 'a list" where
  "vec_remove xs i = take i xs @ drop (Suc i) xs"

definition index_remove :: "'a \<Rightarrow> 'a search_index \<Rightarrow> 'a search_index" where
  "index_remove item ix =
     (case hm_get (sizes_per_item ix) item of
        None \<Rightarrow> ix
      | Some sz \<Rightarrow>
          let ix = ix\<lparr>sizes_per_item := hm_remove item (sizes_per_item ix)\<rparr> in
          case map_of (items_per_size ix) sz of
            None \<Rightarrow> ix
          | Some vals \<Rightarrow>
              (case position item vals 0 of
                 None \<Rightarrow> ix
               | Some i \<Rightarrow> ix\<lparr>items_per_size := bt_insert sz (vec_remove vals i) (items_per_size ix)\<rparr>))"

definition index_insert :: "'a \<Rightarrow> nat \<Rightarrow> 'a search_index \<Rightarrow> 'a search_index" where
  "index_insert item sz ix =
     (let ix = index_remove item ix;
          ix = (case map_of (items_per_size ix) sz of
                  Some vals \<Rightarrow> ix\<lparr>items_per_size := bt_insert sz (vals @ [item]) (items_per_size ix)\<rparr>
                | None \<Rightarrow> ix\<lparr>items_per_size := bt_insert sz [item] (items_per_size ix)\<rparr>)
      in ix\<lparr>sizes_per_item := hm_insert item sz (sizes_per_item ix)\<rparr>)"

text \<open>\<open>BTreeMap::range\<close> panics on a range that starts after its end.\<close>

definition find_by_size :: "'a search_index \<Rightarrow> nat \<Rightarrow> nat \<Rightarrow> 'a list exec" where
  "find_by_size ix lo hi =
     (if lo > hi then Panic (Explicit ''range start is greater than range end in BTreeMap'')
      else Ret (concat (map snd (filter (\<lambda>(sz, _). lo \<le> sz \<and> sz < hi) (items_per_size ix)))))"

text \<open>The two maps agree: an item is in the vector of a size exactly when it has that size.\<close>

definition index_inv :: "'a search_index \<Rightarrow> bool" where
  "index_inv ix \<longleftrightarrow> bt_wf (items_per_size ix) \<and>
     (\<forall>sz vals. map_of (items_per_size ix) sz = Some vals \<longrightarrow> distinct vals) \<and>
     (\<forall>item sz. hm_get (sizes_per_item ix) item = Some sz \<longleftrightarrow>
        (\<exists>vals. map_of (items_per_size ix) sz = Some vals \<and> item \<in> set vals))"

lemma position_Some:
  "position item vs i = Some j \<Longrightarrow> i \<le> j \<and> j - i < length vs \<and> vs ! (j - i) = item"
proof (induction item vs i rule: position.induct)
  case (2 item v vs i)
  then show ?case by (fastforce split: if_splits simp: Suc_le_eq nth_Cons')
qed simp

lemma position_None: "position item vs i = None \<longleftrightarrow> item \<notin> set vs"
  by (induction item vs i rule: position.induct) auto

lemma vec_remove_position:
  assumes "distinct vs" "position item vs 0 = Some i"
  shows "distinct (vec_remove vs i)" "set (vec_remove vs i) = set vs - {item}"
proof -
  have i: "i < length vs" "vs ! i = item" using position_Some [OF assms(2)] by auto
  have vs: "vs = take i vs @ item # drop (Suc i) vs" using id_take_nth_drop [OF i(1)] i(2) by simp
  have "distinct (take i vs @ item # drop (Suc i) vs)" using assms(1) vs by simp
  then show "distinct (vec_remove vs i)" by (simp add: vec_remove_def)
  have "set vs = insert item (set (vec_remove vs i))"
    by (subst vs) (simp add: vec_remove_def)
  moreover have "item \<notin> set (vec_remove vs i)"
    using \<open>distinct (take i vs @ item # drop (Suc i) vs)\<close> by (simp add: vec_remove_def)
  ultimately show "set (vec_remove vs i) = set vs - {item}" by simp
qed

lemma index_new_inv: "index_inv index_new"
  by (simp add: index_inv_def index_new_def)

lemma index_remove_inv:
  assumes "index_inv ix"
  shows "index_inv (index_remove item ix) \<and>
    map_of (sizes_per_item (index_remove item ix)) = (map_of (sizes_per_item ix))(item := None)"
proof (cases "hm_get (sizes_per_item ix) item")
  case None
  then show ?thesis using assms by (simp add: index_remove_def fun_upd_idem)
next
  case (Some sz)
  with assms obtain vals where v: "map_of (items_per_size ix) sz = Some vals" "item \<in> set vals"
    by (auto simp: index_inv_def)
  then obtain i where i: "position item vals 0 = Some i" by (cases "position item vals 0") (auto simp: position_None)
  have d: "distinct vals" using assms v by (auto simp: index_inv_def)
  define items' where "items' = bt_insert sz (vec_remove vals i) (items_per_size ix)"
  have ix': "index_remove item ix =
      \<lparr>items_per_size = items', sizes_per_item = hm_remove item (sizes_per_item ix)\<rparr>"
    using Some v i by (simp add: index_remove_def Let_def items'_def)
  have bt: "bt_wf (items_per_size ix)" using assms by (simp add: index_inv_def)
  then have m: "map_of items' = (map_of (items_per_size ix))(sz \<mapsto> vec_remove vals i)"
    by (simp add: items'_def)
  have iff: "hm_get (sizes_per_item ix) it = Some z \<longleftrightarrow>
      (\<exists>vs. map_of (items_per_size ix) z = Some vs \<and> it \<in> set vs)" for it z
    using assms by (simp add: index_inv_def)
  have "((map_of (sizes_per_item ix))(item := None)) it = Some z \<longleftrightarrow>
      (\<exists>vs. map_of items' z = Some vs \<and> it \<in> set vs)" for it z
    using iff [of it z] iff [of item z] Some v vec_remove_position(2) [OF d i]
    by (cases "z = sz"; cases "it = item") (auto simp: m)
  moreover have "distinct vs" if "map_of items' z = Some vs" for z vs
    using that assms vec_remove_position(1) [OF d i] by (auto simp: m index_inv_def split: if_splits)
  ultimately show ?thesis
    using bt unfolding ix' by (simp add: index_inv_def items'_def)
qed

lemma index_insert_inv:
  assumes "index_inv ix"
  shows "index_inv (index_insert item sz ix) \<and>
    map_of (sizes_per_item (index_insert item sz ix)) = (map_of (sizes_per_item ix))(item \<mapsto> sz)"
proof -
  define ix' where "ix' = index_remove item ix"
  have inv: "index_inv ix'" and m: "map_of (sizes_per_item ix') = (map_of (sizes_per_item ix))(item := None)"
    using index_remove_inv [OF assms, of item] by (auto simp: ix'_def)
  have fresh: "item \<notin> set vs" if "map_of (items_per_size ix') s = Some vs" for s vs
    using that inv m unfolding index_inv_def by (metis fun_upd_same option.distinct(1))
  show ?thesis
  proof (cases "map_of (items_per_size ix') sz")
    case None
    then show ?thesis
      using inv m fresh unfolding index_insert_def Let_def ix'_def [symmetric] index_inv_def
      by (auto split: if_splits)
  next
    case (Some vals)
    then show ?thesis
      using inv m fresh unfolding index_insert_def Let_def ix'_def [symmetric] index_inv_def
      by (auto split: if_splits)
  qed
qed

text \<open>Histories of an index, and the map from items to sizes that they stand for.\<close>

datatype 'a index_op = InsertOp 'a nat | RemoveOp 'a

fun index_step :: "'a index_op \<Rightarrow> 'a search_index \<Rightarrow> 'a search_index" where
  "index_step (InsertOp item sz) ix = index_insert item sz ix"
| "index_step (RemoveOp item) ix = index_remove item ix"

fun size_step :: "'a index_op \<Rightarrow> ('a \<rightharpoonup> nat) \<Rightarrow> ('a \<rightharpoonup> nat)" where
  "size_step (InsertOp item sz) m = m(item \<mapsto> sz)"
| "size_step (RemoveOp item) m = m(item := None)"

lemma index_history:
  "index_inv ix \<Longrightarrow> index_inv (fold index_step ops ix) \<and>
   map_of (sizes_per_item (fold index_step ops ix)) = fold size_step ops (map_of (sizes_per_item ix))"
proof (induction ops arbitrary: ix)
  case (Cons op ops)
  have "index_inv (index_step op ix) \<and> map_of (sizes_per_item (index_step op ix)) = size_step op (map_of (sizes_per_item ix))"
    using Cons.prems by (cases op) (simp_all add: index_insert_inv index_remove_inv)
  with Cons.IH [of "index_step op ix"] show ?case by simp
qed simp

text \<open>The vectors of different sizes share no item, and their keys increase.\<close>

lemma index_buckets:
  assumes "index_inv ix"
  shows "distinct (map fst (items_per_size ix))" "sorted (map fst (items_per_size ix))"
    "(sz, vs) \<in> set (items_per_size ix) \<Longrightarrow> distinct vs"
    "(sz, vs) \<in> set (items_per_size ix) \<Longrightarrow> item \<in> set vs \<longleftrightarrow> map_of (sizes_per_item ix) item = Some sz"
proof -
  show d: "distinct (map fst (items_per_size ix))" "sorted (map fst (items_per_size ix))"
    using assms by (auto simp: index_inv_def intro: bt_wf_distinct strict_sorted_imp_sorted)
  assume "(sz, vs) \<in> set (items_per_size ix)"
  with d(1) have "map_of (items_per_size ix) sz = Some vs" by simp
  with assms show "distinct vs" "item \<in> set vs \<longleftrightarrow> map_of (sizes_per_item ix) item = Some sz" by (auto simp: index_inv_def)
qed

lemma concat_buckets:
  assumes "distinct (map fst bs)" "sorted (map fst bs)"
    and "\<And>sz vs. (sz, vs) \<in> set bs \<Longrightarrow> distinct vs" "\<And>sz vs item. (sz, vs) \<in> set bs \<Longrightarrow> item \<in> set vs \<Longrightarrow> m item = Some sz"
  shows "distinct (concat (map snd bs)) \<and> sorted (map (the \<circ> m) (concat (map snd bs)))"
  using assms
proof (induction bs)
  case (Cons b bs)
  obtain sz vs where b: "b = (sz, vs)" by fastforce
  have "distinct (concat (map snd bs)) \<and> sorted (map (the \<circ> m) (concat (map snd bs)))"
    by (rule Cons.IH) (use Cons.prems(1,2) in simp, use Cons.prems(1,2) in simp, meson Cons.prems(3,4) list.set_intros(2))+
  then have IH: "distinct (concat (map snd bs))" "sorted (map (the \<circ> m) (concat (map snd bs)))" by blast+
  have later: "\<exists>z. m y = Some z \<and> sz < z" if "y \<in> set (concat (map snd bs))" for y
  proof -
    from that obtain z us where us: "(z, us) \<in> set bs" "y \<in> set us" by auto
    then have "sz \<le> z" "sz \<noteq> z" using Cons.prems(1,2) by (force simp: b)+
    with us Cons.prems(4) [of z us y] show ?thesis by (auto simp: b)
  qed
  have here: "m x = Some sz" if "x \<in> set vs" for x using Cons.prems(4) [of sz vs x] that by (simp add: b)
  then have "map (the \<circ> m) vs = replicate (length vs) sz" by (intro replicate_eqI) auto
  moreover have "set vs \<inter> set (concat (map snd bs)) = {}" using here later by fastforce
  moreover have "distinct vs" using Cons.prems(3) [of sz vs] by (simp add: b)
  moreover have "\<forall>y \<in> set (concat (map snd bs)). sz \<le> the (m y)" using later by fastforce
  then have "sorted (replicate (length vs) sz @ map (the \<circ> m) (concat (map snd bs)))"
    unfolding sorted_append using IH(2) by (simp only: set_map set_replicate_conv_if) auto
  ultimately show ?case using IH(1) by (simp add: b del: comp_apply)
qed simp

text \<open>
  C11. The index implements a map from items to sizes. Whatever sequence of insertions and removals built it,
  with an item inserted twice under different sizes, or removed and inserted again, a search returns exactly the
  items whose last recorded size lies in the half-open range, each of them once, from the smallest size to the
  largest.
\<close>

theorem find_by_size_finds:
  assumes "lo \<le> hi"
  shows "returns (find_by_size (fold index_step ops index_new) lo hi) (\<lambda>items.
    set items = {item. \<exists>sz. fold size_step ops Map.empty item = Some sz \<and> lo \<le> sz \<and> sz < hi} \<and>
    distinct items \<and> sorted (map (the \<circ> fold size_step ops Map.empty) items))"
proof -
  let ?ix = "fold index_step ops index_new"
  have inv: "index_inv ?ix" and m: "map_of (sizes_per_item ?ix) = fold size_step ops Map.empty"
    using index_history [OF index_new_inv, of ops] by (simp_all add: index_new_def)
  note b = index_buckets [OF inv, unfolded m]
  let ?bs = "filter (\<lambda>(sz, _). lo \<le> sz \<and> sz < hi) (items_per_size ?ix)"
  have "distinct (concat (map snd ?bs)) \<and> sorted (map (the \<circ> fold size_step ops Map.empty) (concat (map snd ?bs)))"
    by (rule concat_buckets) (use b in \<open>auto simp: distinct_map_filter sorted_filter\<close>)
  moreover have "fold size_step ops Map.empty item = Some sz \<longleftrightarrow> (\<exists>vs. (sz, vs) \<in> set (items_per_size ?ix) \<and> item \<in> set vs)" for item sz
    using b(1) inv by (auto simp: index_inv_def m [symmetric] map_of_eq_Some_iff)
  then have "set (concat (map snd ?bs)) = {item. \<exists>sz. fold size_step ops Map.empty item = Some sz \<and> lo \<le> sz \<and> sz < hi}"
    by fastforce
  ultimately show ?thesis using assms by (simp add: find_by_size_def)
qed

theorem find_by_size_finds_witness:
  "returns (find_by_size (fold index_step [InsertOp (7 :: nat) 100, InsertOp 8 60, InsertOp 7 300, InsertOp 9 50] index_new) 50 200)
     (\<lambda>items. items = [9, 8])"
proof -
  let ?ops = "[InsertOp (7 :: nat) 100, InsertOp 8 60, InsertOp 7 300, InsertOp 9 50]"
  let ?m = "fold size_step ?ops Map.empty"
  have m: "{item. \<exists>sz. ?m item = Some sz \<and> 50 \<le> sz \<and> sz < 200} = {8, 9}" by auto
  have "items = [9, 8]" if "set items = {8, 9}" "distinct items" "sorted (map (the \<circ> ?m) items)" for items
  proof -
    have "length items = 2" using distinct_card [OF that(2)] that(1) by simp
    then obtain x y where "items = [x, y]" by (auto simp: numeral_2_eq_2 length_Suc_conv)
    with that show ?thesis by (auto simp: doubleton_eq_iff)
  qed
  with find_by_size_finds [of 50 200 ?ops] show ?thesis unfolding m by (auto elim!: returns_mono)
qed

end
