(* ===== verification/Sliced_Pool.thy ===== *)
theory Sliced_Pool
  imports Ring_Buffer Search_Index
begin

text \<open>
  \<open>SlicedPool\<close> (\<open>memory_pool/sliced_pool.rs\<close>): pages of one size, each shared by many slices. The
  pool provides the \<open>memory_pool\<close> contract for every storage; in addition its reservation is shown
  to end without a panic.
\<close>

section \<open>The pool\<close>

record sliced_pool =
  sp_pages :: page_map
  sp_slices :: slice_map
  sp_storage_index :: "storage_id search_index"
  sp_ring :: ring_buffer
  sp_recently_added_pages :: "storage_id list"
  sp_recently_allocated_size :: nat
  sp_page_size :: nat
  sp_max_alloc_size :: nat
  sp_alignment :: nat

definition sliced_new :: "nat \<Rightarrow> nat \<Rightarrow> nat \<Rightarrow> sliced_pool exec" where
  "sliced_new page_size max_alloc_size alignment =
     bindE (rem_u64 page_size alignment) (\<lambda>r.
     bindE (assertE (r = 0)) (\<lambda>_.
     Ret \<lparr>sp_pages = [], sp_slices = [], sp_storage_index = index_new, sp_ring = ring_new alignment,
       sp_recently_added_pages = [], sp_recently_allocated_size = 0, sp_page_size = page_size,
       sp_max_alloc_size = max_alloc_size, sp_alignment = alignment\<rparr>))"

definition sliced_get :: "sliced_pool \<Rightarrow> slice_id \<Rightarrow> storage_handle option" where
  "sliced_get p binding = map_option sl_storage (hm_get (sp_slices p) binding)"

definition sliced_try_reserve ::
  "sliced_pool \<Rightarrow> nat \<Rightarrow> storage_exclude option \<Rightarrow> world \<Rightarrow> (slice_id option \<times> sliced_pool \<times> world) exec" where
  "sliced_try_reserve p sz exclude w =
     bindE (calculate_padding sz (sp_alignment p)) (\<lambda>padding.
     bindE (add_u64 sz padding) (\<lambda>effective.
     bindE (find_free_slice effective exclude (sp_ring p, sp_pages p, sp_slices p, w))
       (\<lambda>(result, ring, pages, slices, w).
     let p = p\<lparr>sp_ring := ring, sp_pages := pages, sp_slices := slices\<rparr> in
     case result of
       None \<Rightarrow> Ret (None, p, w)
     | Some slice_id \<Rightarrow>
         bindE (unwrap (hm_get (sp_slices p) slice_id)) (\<lambda>slice.
         bindE (effective_size slice) (\<lambda>old_slice_size.
         let offset = sh_offset (sl_storage slice);
             slice = slice\<lparr>sl_storage := (sl_storage slice)\<lparr>sh_utilization :=
               \<lparr>su_offset = offset, su_size = sz\<rparr>\<rparr>\<rparr> in
         bindE (sub_u64 old_slice_size sz) (\<lambda>new_padding.
         let slice = slice\<lparr>sl_padding := new_padding\<rparr> in
         bindE (effective_size slice) (\<lambda>e.
         bindE (assertE (e = old_slice_size)) (\<lambda>_.
         Ret (Some (sl_handle slice), p\<lparr>sp_slices := hm_insert slice_id slice (sp_slices p)\<rparr>,
           handle_clone (sl_handle slice) w)))))))))"

definition create_slice ::
  "sliced_pool \<Rightarrow> nat \<Rightarrow> nat \<Rightarrow> storage_id \<Rightarrow> world \<Rightarrow> (slice \<times> world) exec" where
  "create_slice p offset sz storage_id w =
     bindE (rem_u64 offset (sp_alignment p)) (\<lambda>r.
     bindE (assertE (r = 0)) (\<lambda>_.
     bindE (slice_handle_new w) (\<lambda>(handle, w).
     let storage = \<lparr>sh_id = storage_id, sh_utilization = \<lparr>su_offset = offset, su_size = sz\<rparr>\<rparr> in
     bindE (calculate_padding sz (sp_alignment p)) (\<lambda>padding.
     Ret (\<lparr>sl_storage = storage, sl_handle = handle, sl_padding = padding\<rparr>, w)))))"

definition create_page ::
  "('s, 'r) compute_storage_ops \<Rightarrow> sliced_pool \<Rightarrow> 's \<Rightarrow> world \<Rightarrow> (storage_id \<times> sliced_pool \<times> 's \<times> world) exec" where
  "create_page ops p st w =
     bindE (cs_alloc ops st (sp_page_size p) w) (\<lambda>(storage, st, w).
     let i = sh_id storage;
         p = p\<lparr>sp_ring := push_page (sp_ring p) i\<rparr>;
         p = p\<lparr>sp_pages := hm_insert i \<lparr>mp_slices = []\<rparr> (sp_pages p)\<rparr>;
         p = p\<lparr>sp_storage_index := index_insert i (sp_page_size p) (sp_storage_index p)\<rparr>
     in Ret (i, p, st, w))"

definition sliced_alloc ::
  "('s, 'r) compute_storage_ops \<Rightarrow> sliced_pool \<Rightarrow> 's \<Rightarrow> nat \<Rightarrow> world \<Rightarrow> (slice_id \<times> sliced_pool \<times> 's \<times> world) exec" where
  "sliced_alloc ops p st sz w =
     bindE (create_page ops p st w) (\<lambda>(storage_id, p, st, w).
     let p = p\<lparr>sp_recently_added_pages := sp_recently_added_pages p @ [storage_id]\<rparr> in
     bindE (add_u64 (sp_recently_allocated_size p) (sp_page_size p)) (\<lambda>total.
     let p = p\<lparr>sp_recently_allocated_size := total\<rparr> in
     bindE (create_slice p 0 sz storage_id w) (\<lambda>(slice, w).
     bindE (effective_size slice) (\<lambda>effective.
     bindE (if effective < sp_page_size p then
              bindE (sub_u64 (sp_page_size p) effective) (\<lambda>rest.
              bindE (create_slice p effective rest storage_id w) (\<lambda>(extra, w). Ret (Some extra, w)))
            else Ret (None, w)) (\<lambda>(extra_slice, w).
     let handle_slice = sl_handle slice;
         w = handle_clone handle_slice w;
         storage_id = sh_id (sl_storage slice);
         slice_id = sl_handle slice;
         slice_offset = sh_offset (sl_storage slice);
         p = p\<lparr>sp_slices := hm_insert slice_id slice (sp_slices p)\<rparr> in
     bindE (unwrap (hm_get (sp_pages p) storage_id)) (\<lambda>page.
     let page = page\<lparr>mp_slices := hm_insert slice_offset slice_id (mp_slices page)\<rparr>;
         (page, p) = (case extra_slice of
            Some extra_slice \<Rightarrow>
              (page\<lparr>mp_slices := hm_insert (sh_offset (sl_storage extra_slice)) (sl_handle extra_slice) (mp_slices page)\<rparr>,
               p\<lparr>sp_slices := hm_insert (sl_handle extra_slice) extra_slice (sp_slices p)\<rparr>)
          | None \<Rightarrow> (page, p))
     in Ret (handle_slice, p\<lparr>sp_pages := hm_insert storage_id page (sp_pages p)\<rparr>, st, w)))))))"

definition sliced_memory_usage :: "sliced_pool \<Rightarrow> world \<Rightarrow> memory_usage exec" where
  "sliced_memory_usage p w =
     (let used_slices = filter (\<lambda>s. \<not> is_free w s) (hm_values (sp_slices p)) in
      bindE (sumE (map (\<lambda>s. sh_size (sl_storage s)) used_slices)) (\<lambda>in_use.
      bindE (sumE (map sl_padding used_slices)) (\<lambda>padding.
      bindE (mul_u64 (length (sp_pages p)) (sp_page_size p)) (\<lambda>reserved.
      Ret \<lparr>number_allocs = length used_slices, bytes_in_use = in_use, bytes_padding = padding,
        bytes_reserved = reserved\<rparr>))))"

text \<open>This pool does not shrink: \<open>cleanup\<close> is empty.\<close>

definition sliced_cleanup ::
  "sliced_pool \<Rightarrow> 's \<Rightarrow> nat \<Rightarrow> bool \<Rightarrow> world \<Rightarrow> (sliced_pool \<times> 's \<times> world) exec" where
  "sliced_cleanup p st alloc_nr explicit w = Ret (p, st, w)"

section \<open>Invariant\<close>

definition sliced_inv :: "world \<Rightarrow> sliced_pool \<Rightarrow> bool" where
  "sliced_inv w p \<longleftrightarrow>
     pages_inv (sp_alignment p) (sp_page_size p) (pages_view_of (sp_pages p)) (map_of (sp_slices p)) w \<and>
     hm_wf (sp_pages p) \<and> hm_wf (sp_slices p) \<and>
     (\<forall>pid page. hm_get (sp_pages p) pid = Some page \<longrightarrow> hm_wf (mp_slices page)) \<and>
     rb_buffer_alignment (sp_ring p) = sp_alignment p \<and>
     set (rb_queue (sp_ring p)) = dom (map_of (sp_pages p)) \<and>
     (\<forall>pid \<in> dom (map_of (sp_pages p)). pid < storage_next w) \<and>
     sp_max_alloc_size p \<le> sp_page_size p"

definition sliced_slices :: "sliced_pool \<Rightarrow> slice_id \<Rightarrow> slice option" where
  "sliced_slices p = map_of (sp_slices p)"

definition sliced_owned :: "sliced_pool \<Rightarrow> storage_id \<Rightarrow> nat option" where
  "sliced_owned p i = map_option (\<lambda>_. sp_page_size p) (hm_get (sp_pages p) i)"

lemma sliced_new_inv:
  assumes "0 < al" "al dvd ps" "0 < ps" "ps < u64_bound" "m \<le> ps"
  shows "returns (sliced_new ps m al) (\<lambda>p. sliced_inv w p \<and> sliced_slices p = Map.empty \<and>
    sliced_owned p = Map.empty \<and> sp_max_alloc_size p = m)"
  using assms by (auto simp: sliced_new_def sliced_inv_def pages_inv_def pages_view_of_def ring_new_def
      sliced_slices_def sliced_owned_def dvd_eq_mod_eq_0 [symmetric])

lemma sliced_search_inv:
  "sliced_inv w p \<Longrightarrow> world_wf w \<Longrightarrow>
   search_inv (sp_alignment p) (sp_page_size p) (sp_ring p, sp_pages p, sp_slices p, w)"
  by (simp add: sliced_inv_def search_inv_def)

text \<open>Slices of a tiled page do not overlap.\<close>

lemma pages_inv_disjoint:
  assumes inv: "pages_inv al ps P S w" and s: "S i = Some s" "S j = Some t" "i \<noteq> j"
  shows "region (sl_storage s) \<inter> region (sl_storage t) = {}"
proof (cases "eff s = 0 \<or> eff t = 0 \<or> sh_id (sl_storage s) \<noteq> sh_id (sl_storage t)")
  case True
  then show ?thesis unfolding region_disjoint_iff by (auto simp: eff_def)
next
  case False
  let ?a = "sh_offset (sl_storage s)" and ?b = "sh_offset (sl_storage t)"
  from s False inv obtain pg where pg: "P (sh_id (sl_storage s)) = Some pg" "pg ?a = Some i" "pg ?b = Some j"
    unfolding pages_inv_def placed_def by (metis option.inject)
  from pages_inv_slot [OF inv pg(1,2)] s(1) have oki: "slot_ok al ps (sh_id (sl_storage s)) pg ?a s" by auto
  from pages_inv_slot [OF inv pg(1,3)] s(2) have okj: "slot_ok al ps (sh_id (sl_storage s)) pg ?b t" by auto
  have "?a \<noteq> ?b" using pg s(3) by auto
  then have "?a + eff s \<le> ?b \<or> ?b + eff t \<le> ?a"
    using slot_ok_next [OF oki pg(3)] slot_ok_next [OF okj pg(2)] by linarith
  then show ?thesis unfolding region_disjoint_iff by (auto simp: eff_def)
qed

lemma sliced_inv_sound: "sliced_inv w p \<Longrightarrow> slices_sound w (sliced_slices p) (sliced_owned p)"
proof -
  assume inv: "sliced_inv w p"
  then have pinv: "pages_inv (sp_alignment p) (sp_page_size p) (pages_view_of (sp_pages p)) (map_of (sp_slices p)) w"
    by (simp add: sliced_inv_def)
  have "placed (sp_page_size p) (pages_view_of (sp_pages p)) w i s" if "map_of (sp_slices p) i = Some s" for i s
    using that pinv by (simp add: pages_inv_def)
  then have "sl_handle s = i \<and> i < slice_next w \<and> counts_ok w i \<and>
      (\<exists>n. sliced_owned p (sh_id (sl_storage s)) = Some n \<and>
        sh_offset (sl_storage s) + sh_size (sl_storage s) \<le> n)" if "map_of (sp_slices p) i = Some s" for i s
    using that by (fastforce simp: placed_def pages_view_of_def sliced_owned_def eff_def)
  moreover have "\<forall>q \<in> dom (sliced_owned p). q < storage_next w"
    using inv by (auto simp: sliced_inv_def sliced_owned_def)
  ultimately show ?thesis
    using pages_inv_disjoint [OF pinv] unfolding slices_sound_def sliced_slices_def by blast
qed

lemma sliced_inv_world:
  assumes "sliced_inv w p" "slice_next w \<le> slice_next w'" "storage_next w \<le> storage_next w'"
    and "\<And>i. i \<in> dom (sliced_slices p) \<Longrightarrow> counts_ok w' i"
  shows "sliced_inv w' p"
proof -
  have "pages_inv (sp_alignment p) (sp_page_size p) (pages_view_of (sp_pages p)) (map_of (sp_slices p)) w"
    using assms(1) by (simp add: sliced_inv_def)
  from pages_inv_world [OF this assms(2)] assms(4)
  have "pages_inv (sp_alignment p) (sp_page_size p) (pages_view_of (sp_pages p)) (map_of (sp_slices p)) w'"
    unfolding sliced_slices_def by blast
  moreover have "\<forall>pid \<in> dom (map_of (sp_pages p)). pid < storage_next w'"
    using assms(1,3) unfolding sliced_inv_def by (meson order.strict_trans2)
  ultimately show ?thesis using assms(1) by (simp add: sliced_inv_def)
qed

section \<open>Reserving\<close>

lemma sliced_owned_dom: "sliced_owned p i = (if i \<in> dom (map_of (sp_pages p)) then Some (sp_page_size p) else None)"
  by (auto simp: sliced_owned_def)

lemma search_step_sliced:
  assumes "search_step (sp_alignment p) (sp_page_size p) (sp_ring p, sp_pages p, sp_slices p, w) (ring, pages, slices, w1)"
    and "sliced_inv w p" and p1: "p1 = p\<lparr>sp_ring := ring, sp_pages := pages, sp_slices := slices\<rparr>"
  shows "quiet (sliced_slices p) w (sliced_slices p1) w1" "world_wf w1" "sliced_inv w1 p1"
    "sliced_owned p1 = sliced_owned p"
  using assms
  by (simp_all add: search_step_def search_inv_def sliced_inv_def sliced_slices_def quiet_def
      sliced_owned_dom fun_eq_iff)

text \<open>\<open>try_reserve\<close> ends without a panic when the padded size fits in \<open>u64\<close>; the slice it hands out
  was free, has exactly the size asked for and is on no excluded page.\<close>

lemma sliced_try_reserve_returns:
  assumes inv: "sliced_inv w p" and wf: "world_wf w" and room: "slice_next w \<noteq> usize_max"
    and n: "round_up n (sp_alignment p) < u64_bound"
  shows "returns (sliced_try_reserve p n ex w) (\<lambda>(r, p', w').
    sliced_inv w' p' \<and> sliced_owned p' = sliced_owned p \<and> sp_max_alloc_size p' = sp_max_alloc_size p \<and>
    storage_next w' = storage_next w \<and>
    keeps_to_itself (sliced_slices p) w (sliced_slices p') w' \<and>
    (case r of
       None \<Rightarrow> live_slices (sliced_slices p') w' = live_slices (sliced_slices p) w
     | Some h \<Rightarrow> hands_out True n h (sliced_slices p) w (sliced_slices p') w' \<and>
         (\<exists>s. sliced_slices p' h = Some s \<and> \<not> excluded_by ex (sh_id (sl_storage s)))))"
proof -
  let ?al = "sp_alignment p" and ?ps = "sp_page_size p" and ?n = "round_up n (sp_alignment p)"
  have al: "0 < ?al" using inv by (simp add: sliced_inv_def pages_inv_def)
  from find_free_slice_returns [OF sliced_search_inv [OF inv wf] round_up_dvd [OF al], of n ex] room
  obtain res ring pages slices w1 where
    f: "find_free_slice ?n ex (sp_ring p, sp_pages p, sp_slices p, w) = Ret (res, ring, pages, slices, w1)"
    and post: "search_post ?al ?ps ?n ex (sp_ring p, sp_pages p, sp_slices p, w) (res, ring, pages, slices, w1)"
    by (auto simp: returns_eq)
  then have step: "search_step ?al ?ps (sp_ring p, sp_pages p, sp_slices p, w) (ring, pages, slices, w1)"
    by (simp add: search_post_def)
  define p1 where "p1 = p\<lparr>sp_ring := ring, sp_pages := pages, sp_slices := slices\<rparr>"
  note s1 = search_step_sliced [OF step inv p1_def]
  have q: "quiet (sliced_slices p) w (sliced_slices p1) w1"
    and inv1: "sliced_inv w1 p1" and own: "sliced_owned p1 = sliced_owned p"
    using s1 by auto
  show ?thesis
  proof (cases res)
    case None
    then show ?thesis
      using f n al q inv1 own
      by (simp add: sliced_try_reserve_def p1_def [symmetric] quiet_def) (simp add: p1_def)
  next
    case (Some h)
    with post obtain pid s where s: "sliced_slices p1 h = Some s" "eff s = ?n" "handle_is_free w1 h"
      "sh_id (sl_storage s) = pid" "\<not> excluded_by ex pid"
      by (auto simp: search_post_def found_def sliced_slices_def p1_def)
    from sliced_inv_sound [OF inv1] s(1) have h: "sl_handle s = h" "counts_ok w1 h"
      by (auto simp: slices_sound_def)
    let ?s = "resized s n (?n - n)"
    define p2 where "p2 = p1\<lparr>sp_slices := hm_insert h ?s (sp_slices p1)\<rparr>"
    have sl2: "sliced_slices p2 = (sliced_slices p1)(h \<mapsto> ?s)" by (simp add: sliced_slices_def p2_def)
    have "pages_inv ?al ?ps (pages_view_of pages) ((sliced_slices p1)(h \<mapsto> ?s)) w1"
      by (rule pages_inv_reuse [where s = s])
        (use inv1 s in \<open>simp_all add: sliced_inv_def sliced_slices_def p1_def\<close>)
    then have "sliced_inv w1 p2" using inv1 by (simp add: sliced_inv_def p1_def p2_def sliced_slices_def)
    then have inv2: "sliced_inv (handle_clone h w1) p2"
      by (rule sliced_inv_world [where w = w1])
        (use sliced_inv_sound [OF inv1] h in \<open>auto simp: slices_sound_def sl2 counts_ok_def split: if_splits\<close>)
    have "returns (sliced_try_reserve p n ex w) (\<lambda>x. x = (Some h, p2, handle_clone h w1))"
      using f n al Some s(1,2) h
      by (simp add: sliced_try_reserve_def p1_def p2_def sliced_slices_def Let_def resized_def [symmetric])
    then have r: "sliced_try_reserve p n ex w = Ret (Some h, p2, handle_clone h w1)"
      by (simp add: returns_eq)
    from hand_out_clone [OF q s(1,3) h(2), of n ?s True]
    moreover have "sliced_owned p2 = sliced_owned p" "sp_max_alloc_size p2 = sp_max_alloc_size p"
      by (simp_all add: own [symmetric] p2_def sliced_owned_dom fun_eq_iff) (simp add: p1_def)
    ultimately show ?thesis
      using inv2 q s(4,5) unfolding r by (simp add: sl2 quiet_def)
  qed
qed

section \<open>Allocating a page\<close>

text \<open>A new page that one slice covers.\<close>

lemma pages_inv_new_page:
  assumes inv: "pages_inv al ps P S w" and new: "P pid = None" "S i = None"
    and w': "slice_next w \<le> slice_next w'" "\<And>j. j \<in> dom S \<Longrightarrow> counts_ok w' j" "i < slice_next w'" "counts_ok w' i"
    and s: "sl_handle s = i" "sh_id (sl_storage s) = pid" "sh_offset (sl_storage s) = 0" "eff s = ps"
  shows "pages_inv al ps (P(pid \<mapsto> [0 \<mapsto> i])) (S(i \<mapsto> s)) w'"
proof (rule pages_inv_replace_page [OF inv])
  show "page_tiled al ps pid [0 \<mapsto> i] (S(i \<mapsto> s))"
    using inv s by (auto simp: page_tiled_def slot_ok_def pages_inv_def)
next
  fix q pg b k assume "P q = Some pg" "pg b = Some k"
  then have "S k \<noteq> None" using inv unfolding pages_inv_def page_tiled_def by fastforce
  then show "(S(i \<mapsto> s)) k = S k" using new(2) by auto
next
  fix k u assume k: "(S(i \<mapsto> s)) k = Some u"
  show "placed ps (P(pid \<mapsto> [0 \<mapsto> i])) w' k u"
  proof (cases "k = i")
    case True
    then show ?thesis using k s w' by (simp add: placed_def)
  next
    case False
    then have "placed ps P w k u" "counts_ok w' k" using k inv w'(2) by (auto simp: pages_inv_def)
    then show ?thesis using new(1) w'(1) unfolding placed_def by (metis fun_upd_other option.distinct(1) order.strict_trans2)
  qed
qed

lemma create_slice_on_return:
  assumes "ids_left w" "sp_alignment p \<noteq> 0"
  shows "create_slice p offset sz i w =
    (if sp_alignment p dvd offset then
       Ret (\<lparr>sl_storage = \<lparr>sh_id = i, sh_utilization = \<lparr>su_offset = offset, su_size = sz\<rparr>\<rparr>,
         sl_handle = slice_next w, sl_padding = padding_of sz (sp_alignment p)\<rparr>, fresh_handle w)
     else Panic AssertionFailed)"
  using assms calculate_padding_wp(1) [of sz "sp_alignment p" "\<lambda>x. x = padding_of sz (sp_alignment p)"]
  by (auto simp: create_slice_def slice_handle_new_fresh rem_u64_def assertE_def dvd_eq_mod_eq_0 returns_eq)

lemma sliced_inv_add_page:
  assumes inv: "sliced_inv w p" and pinv: "pages_inv (sp_alignment p) (sp_page_size p)
      ((pages_view_of (sp_pages p))(storage_next w \<mapsto> page_view page)) (map_of slices') w'"
    and wf: "hm_wf (mp_slices page)" "hm_wf slices'" and n: "storage_next w' = Suc (storage_next w)"
    and p': "sp_pages p' = hm_insert (storage_next w) page (hm_insert (storage_next w) e (sp_pages p))"
      "sp_slices p' = slices'" "sp_ring p' = push_page (sp_ring p) (storage_next w)"
      "sp_alignment p' = sp_alignment p" "sp_page_size p' = sp_page_size p"
      "sp_max_alloc_size p' = sp_max_alloc_size p"
  shows "sliced_inv w' p' \<and> sliced_slices p' = map_of slices' \<and>
    sliced_owned p' = (sliced_owned p)(storage_next w \<mapsto> sp_page_size p)"
proof -
  have pv: "pages_view_of (sp_pages p') = (pages_view_of (sp_pages p))(storage_next w \<mapsto> page_view page)"
    by (simp add: p')
  have "hm_wf (mp_slices pg)" if "hm_get (sp_pages p') q = Some pg" for q pg
    using that inv wf(1) by (auto simp: p' sliced_inv_def split: if_splits)
  moreover have "set (rb_queue (sp_ring p')) = dom (map_of (sp_pages p'))"
    "rb_buffer_alignment (sp_ring p') = sp_alignment p'"
    using inv by (simp_all add: p' push_page_def Let_def sliced_inv_def)
  moreover have "\<forall>q \<in> dom (map_of (sp_pages p')). q < storage_next w'"
    using inv n by (auto simp: p' sliced_inv_def less_Suc_eq)
  ultimately have "sliced_inv w' p'"
    using inv pinv wf unfolding sliced_inv_def pv by (simp add: p')
  then show ?thesis
    by (auto simp: p' sliced_slices_def sliced_owned_dom fun_eq_iff)
qed

text \<open>The slices of a new page: the one handed out and, unless it fills the page, the rest.\<close>

definition first_slice :: "storage_id \<Rightarrow> slice_id \<Rightarrow> nat \<Rightarrow> nat \<Rightarrow> slice" where
  "first_slice pid i n al = \<lparr>sl_storage = \<lparr>sh_id = pid, sh_utilization = \<lparr>su_offset = 0, su_size = n\<rparr>\<rparr>,
     sl_handle = i, sl_padding = padding_of n al\<rparr>"

definition rest_slice :: "storage_id \<Rightarrow> slice_id \<Rightarrow> nat \<Rightarrow> nat \<Rightarrow> slice" where
  "rest_slice pid i e ps = \<lparr>sl_storage = \<lparr>sh_id = pid, sh_utilization = \<lparr>su_offset = e, su_size = ps - e\<rparr>\<rparr>,
     sl_handle = i, sl_padding = 0\<rparr>"

lemma first_slice_simps [simp]:
  "sl_handle (first_slice pid i n al) = i" "sh_id (sl_storage (first_slice pid i n al)) = pid"
  "sh_offset (sl_storage (first_slice pid i n al)) = 0" "sh_size (sl_storage (first_slice pid i n al)) = n"
  "sl_padding (first_slice pid i n al) = padding_of n al" "eff (first_slice pid i n al) = round_up n al"
  by (simp_all add: first_slice_def)

lemma rest_slice_simps [simp]:
  "sl_handle (rest_slice pid i e ps) = i" "sh_id (sl_storage (rest_slice pid i e ps)) = pid"
  "sh_offset (sl_storage (rest_slice pid i e ps)) = e" "sh_size (sl_storage (rest_slice pid i e ps)) = ps - e"
  "sl_padding (rest_slice pid i e ps) = 0" "eff (rest_slice pid i e ps) = ps - e"
  by (simp_all add: rest_slice_def eff_def)

lemma rest_slice_eq:
  "al dvd ps \<Longrightarrow> al dvd e \<Longrightarrow> e \<le> ps \<Longrightarrow>
   \<lparr>sl_storage = \<lparr>sh_id = pid, sh_utilization = \<lparr>su_offset = e, su_size = ps - e\<rparr>\<rparr>,
     sl_handle = i, sl_padding = padding_of (ps - e) al\<rparr> = rest_slice pid i e ps"
  by (simp add: rest_slice_def padding_of_def round_up_id)

lemma new_page_slices:
  assumes inv: "pages_inv al ps P S w" and pid: "P pid = None" and n: "round_up n al \<le> ps"
    and i: "i = slice_next w"
  shows "round_up n al = ps \<Longrightarrow> pages_inv al ps (P(pid \<mapsto> [0 \<mapsto> i])) (S(i \<mapsto> first_slice pid i n al)) (fresh_handle w)"
    and "round_up n al < ps \<Longrightarrow> pages_inv al ps (P(pid \<mapsto> [0 \<mapsto> i, round_up n al \<mapsto> Suc i]))
      (S(i \<mapsto> first_slice pid i n al, Suc i \<mapsto> rest_slice pid (Suc i) (round_up n al) ps)) (fresh_handle (fresh_handle w))"
proof -
  have bound: "j < slice_next w \<and> counts_ok w j" if "S j = Some u" for j u
    using that inv by (auto simp: pages_inv_def placed_def)
  then have fresh: "S i = None" "S (Suc i) = None" unfolding i
    by (metis not_Some_eq less_irrefl, metis not_Some_eq Suc_lessD less_irrefl)
  have al: "0 < al" using inv by (simp add: pages_inv_def)
  have one: "pages_inv al ps (P(pid \<mapsto> [0 \<mapsto> i])) (S(i \<mapsto> u)) (fresh_handle w)"
    if "sl_handle u = i" "sh_id (sl_storage u) = pid" "sh_offset (sl_storage u) = 0" "eff u = ps" for u
    using inv pid fresh(1) by (rule pages_inv_new_page)
      (use that bound in \<open>auto simp: i counts_ok_def\<close>)
  show "pages_inv al ps (P(pid \<mapsto> [0 \<mapsto> i])) (S(i \<mapsto> first_slice pid i n al)) (fresh_handle w)"
    if "round_up n al = ps"
    using that by (intro one) (simp_all add: first_slice_def)
  show "pages_inv al ps (P(pid \<mapsto> [0 \<mapsto> i, round_up n al \<mapsto> Suc i]))
      (S(i \<mapsto> first_slice pid i n al, Suc i \<mapsto> rest_slice pid (Suc i) (round_up n al) ps))
      (fresh_handle (fresh_handle w))" if lt: "round_up n al < ps"
  proof -
    let ?u = "first_slice pid i ps al"
    have u: "pages_inv al ps (P(pid \<mapsto> [0 \<mapsto> i])) (S(i \<mapsto> ?u)) (fresh_handle w)"
      using inv by (intro one) (simp_all add: first_slice_def pages_inv_def)
    have "pages_inv al ps ((P(pid \<mapsto> [0 \<mapsto> i]))(pid \<mapsto> [0 \<mapsto> i](0 + round_up n al \<mapsto> Suc i)))
        ((S(i \<mapsto> ?u))(i \<mapsto> first_slice pid i n al, Suc i \<mapsto> rest_slice pid (Suc i) (round_up n al) ps))
        (fresh_handle (fresh_handle w))"
      by (rule pages_inv_split [OF u fun_upd_same])
        (use lt al fresh bound inv in \<open>auto simp: first_slice_def rest_slice_def i counts_ok_def pages_inv_def
           round_up_id split: if_splits\<close>)
    then show ?thesis by simp
  qed
qed

text \<open>Handing out the first slice of a new page, in the world after the storage allocation.\<close>

definition alloc_post :: "sliced_pool \<Rightarrow> world \<Rightarrow> nat \<Rightarrow> slice_id \<Rightarrow> sliced_pool \<Rightarrow> world \<Rightarrow> bool" where
  "alloc_post p w n h p' w' \<longleftrightarrow> sliced_inv w' p' \<and> sp_max_alloc_size p' = sp_max_alloc_size p \<and>
     sliced_owned p' = (sliced_owned p)(storage_next w \<mapsto> sp_page_size p) \<and>
     storage_next w' = storage_next w + 1 \<and>
     keeps_to_itself (sliced_slices p) w (sliced_slices p') w' \<and>
     hands_out True n h (sliced_slices p) w (sliced_slices p') w'"

lemma alloc_post_clone:
  assumes inv: "sliced_inv w p" and w1: "w1 = w\<lparr>storage_next := storage_next w + 1\<rparr>"
    and q: "quiet (sliced_slices p) w1 (map_of slices') w2"
    and pinv: "pages_inv (sp_alignment p) (sp_page_size p)
      ((pages_view_of (sp_pages p))(storage_next w \<mapsto> page_view page)) (map_of slices') w2"
    and wf: "hm_wf (mp_slices page)" "hm_wf slices'"
    and p': "sp_pages p' = hm_insert (storage_next w) page (hm_insert (storage_next w) e (sp_pages p))"
      "sp_slices p' = slices'" "sp_ring p' = push_page (sp_ring p) (storage_next w)"
      "sp_alignment p' = sp_alignment p" "sp_page_size p' = sp_page_size p"
      "sp_max_alloc_size p' = sp_max_alloc_size p"
    and h: "hm_get slices' h = Some s" "handle_is_free w2 h" "sh_size (sl_storage s) = n"
  shows "alloc_post p w n h p' (handle_clone h w2)"
proof -
  have sn: "storage_next w2 = Suc (storage_next w)" using q by (simp add: quiet_def w1)
  have cts: "counts_ok w2 i" if "hm_get slices' i = Some u" for i u
    using that pinv by (auto simp: pages_inv_def placed_def)
  have "pages_inv (sp_alignment p) (sp_page_size p)
      ((pages_view_of (sp_pages p))(storage_next w \<mapsto> page_view page)) (map_of slices') (handle_clone h w2)"
    by (rule pages_inv_world [OF pinv]) (use cts in \<open>auto simp: counts_ok_def\<close>)
  from sliced_inv_add_page [OF inv this wf _ p'] sn
  have i: "sliced_inv (handle_clone h w2) p'" "sliced_slices p' = map_of slices'"
    "sliced_owned p' = (sliced_owned p)(storage_next w \<mapsto> sp_page_size p)" by auto
  from hand_out_clone [OF q h(1,2) cts [OF h(1)], of n s True] h
  have "hands_out True n h (sliced_slices p) w1 (map_of slices') (handle_clone h w2)"
    "keeps_to_itself (sliced_slices p) w1 (map_of slices') (handle_clone h w2)"
    by (auto simp: fun_upd_idem)
  then show ?thesis
    using i p'(6) sn unfolding alloc_post_def w1
    by (auto intro: keeps_to_itself_storage_next)
qed

lemma create_page_eq:
  assumes "cs_alloc ops st (sp_page_size p) w = Ret (h, st', w')"
  shows "create_page ops p st w = Ret (sh_id h, p\<lparr>sp_ring := push_page (sp_ring p) (sh_id h),
    sp_pages := hm_insert (sh_id h) \<lparr>mp_slices = []\<rparr> (sp_pages p),
    sp_storage_index := index_insert (sh_id h) (sp_page_size p) (sp_storage_index p)\<rparr>, st', w')"
  using assms by (simp add: create_page_def Let_def)

text \<open>The state in which the slices of the new page are made.\<close>

lemma sliced_alloc_start:
  assumes inv: "sliced_inv w p" and ids: "ids_left w" and n: "n \<le> sp_max_alloc_size p"
    and w1: "w1 = w\<lparr>storage_next := storage_next w + 1\<rparr>" and room: "storage_next w \<noteq> usize_max"
  shows "pages_inv (sp_alignment p) (sp_page_size p) (pages_view_of (sp_pages p)) (map_of (sp_slices p)) w1"
    and "pages_view_of (sp_pages p) (storage_next w) = None"
    and "round_up n (sp_alignment p) \<le> sp_page_size p" and "ids_left w1"
    and "quiet (sliced_slices p) w1
      (map_of (hm_insert (slice_next w) (first_slice (storage_next w) (slice_next w) n (sp_alignment p)) (sp_slices p)))
      (fresh_handle w1)"
    and "hm_get (sp_slices p) (Suc (slice_next w)) = None"
proof -
  let ?al = "sp_alignment p" and ?ps = "sp_page_size p"
  have pinv: "pages_inv ?al ?ps (pages_view_of (sp_pages p)) (map_of (sp_slices p)) w"
    and mx: "sp_max_alloc_size p \<le> ?ps"
    using inv by (auto simp: sliced_inv_def)
  have bound: "j < slice_next w \<and> counts_ok w j" if "hm_get (sp_slices p) j = Some u" for j u
    using that pinv by (auto simp: pages_inv_def placed_def)
  then have fresh: "hm_get (sp_slices p) (slice_next w) = None"
    by (metis not_Some_eq less_irrefl)
  show "hm_get (sp_slices p) (Suc (slice_next w)) = None"
    using bound by (metis not_Some_eq Suc_lessD less_irrefl)
  show "pages_inv ?al ?ps (pages_view_of (sp_pages p)) (map_of (sp_slices p)) w1"
    by (rule pages_inv_world [OF pinv]) (use bound in \<open>auto simp: w1 counts_ok_def\<close>)
  have "storage_next w \<notin> dom (map_of (sp_pages p))" using inv by (auto simp: sliced_inv_def)
  then show "pages_view_of (sp_pages p) (storage_next w) = None" by (auto simp: pages_view_of_def)
  show "round_up n ?al \<le> ?ps"
    using n mx pinv round_up_le_iff [of ?al ?ps n] by (simp add: pages_inv_def)
  show ids1: "ids_left w1" using ids room by (auto simp: w1 ids_left_def world_wf_def)
  show "quiet (sliced_slices p) w1
      (map_of (hm_insert (slice_next w) (first_slice (storage_next w) (slice_next w) n ?al) (sp_slices p)))
      (fresh_handle w1)"
    using quiet_fresh [OF ids1, of "sliced_slices p"] fresh by (simp add: w1 sliced_slices_def)
qed

lemma sliced_alloc_full:
  assumes inv: "sliced_inv w p" and ids: "ids_left w" and n: "n \<le> sp_max_alloc_size p"
    and w1: "w1 = w\<lparr>storage_next := storage_next w + 1\<rparr>" and room: "storage_next w \<noteq> usize_max"
    and full: "round_up n (sp_alignment p) = sp_page_size p"
    and p': "sp_pages p' = hm_insert (storage_next w) \<lparr>mp_slices = [(0, slice_next w)]\<rparr>
        (hm_insert (storage_next w) \<lparr>mp_slices = []\<rparr> (sp_pages p))"
      "sp_slices p' = hm_insert (slice_next w) (first_slice (storage_next w) (slice_next w) n (sp_alignment p)) (sp_slices p)"
      "sp_ring p' = push_page (sp_ring p) (storage_next w)"
      "sp_alignment p' = sp_alignment p" "sp_page_size p' = sp_page_size p"
      "sp_max_alloc_size p' = sp_max_alloc_size p"
  shows "alloc_post p w n (slice_next w) p' (handle_clone (slice_next w) (fresh_handle w1))"
proof -
  note st = sliced_alloc_start [OF inv ids n w1 room]
  have i1: "slice_next w = slice_next w1" by (simp add: w1)
  show ?thesis
    by (rule alloc_post_clone [where s = "first_slice (storage_next w) (slice_next w) n (sp_alignment p)",
          OF inv w1 st(5) _ _ _ p'])
      (use new_page_slices(1) [OF st(1,2,3) i1 full] inv in
        \<open>simp_all add: handle_is_free_def i1 first_slice_def sliced_inv_def\<close>)
qed

lemma sliced_alloc_rest:
  assumes inv: "sliced_inv w p" and ids: "ids_left w" and n: "n \<le> sp_max_alloc_size p"
    and w1: "w1 = w\<lparr>storage_next := storage_next w + 1\<rparr>" and room: "storage_next w \<noteq> usize_max"
    and ids2: "ids_left (fresh_handle w1)" and e: "e = round_up n (sp_alignment p)" "e < sp_page_size p"
    and p': "sp_pages p' = hm_insert (storage_next w) \<lparr>mp_slices = hm_insert e (Suc (slice_next w)) (hm_insert 0 (slice_next w) [])\<rparr>
        (hm_insert (storage_next w) \<lparr>mp_slices = []\<rparr> (sp_pages p))"
      "sp_slices p' = hm_insert (Suc (slice_next w)) (rest_slice (storage_next w) (Suc (slice_next w)) e (sp_page_size p))
        (hm_insert (slice_next w) (first_slice (storage_next w) (slice_next w) n (sp_alignment p)) (sp_slices p))"
      "sp_ring p' = push_page (sp_ring p) (storage_next w)"
      "sp_alignment p' = sp_alignment p" "sp_page_size p' = sp_page_size p"
      "sp_max_alloc_size p' = sp_max_alloc_size p"
  shows "alloc_post p w n (slice_next w) p' (handle_clone (slice_next w) (fresh_handle (fresh_handle w1)))"
proof -
  note st = sliced_alloc_start [OF inv ids n w1 room]
  have i1: "slice_next w = slice_next w1" by (simp add: w1)
  have q: "quiet (sliced_slices p) w1 (map_of (sp_slices p')) (fresh_handle (fresh_handle w1))"
    using st(6) quiet_fresh [OF ids2, of "map_of (hm_insert (slice_next w)
        (first_slice (storage_next w) (slice_next w) n (sp_alignment p)) (sp_slices p))"]
    by (intro quiet_trans [OF st(5)]) (simp add: p'(2) i1 [symmetric])
  show ?thesis
    by (rule alloc_post_clone [where s = "first_slice (storage_next w) (slice_next w) n (sp_alignment p)",
          OF inv w1 q [unfolded p'(2)] _ _ _ p'])
      (use new_page_slices(2) [OF st(1,2,3) i1] e inv in
        \<open>simp_all add: handle_is_free_def i1 first_slice_def sliced_inv_def del: update.simps\<close>)
qed

lemma sliced_alloc_post:
  assumes inv: "sliced_inv w p" and ids: "ids_left w" and n: "n \<le> sp_max_alloc_size p"
    and a: "cs_alloc ops st (sp_page_size p) w = Ret (h, st', w1)"
    and h: "h = \<lparr>sh_id = storage_next w, sh_utilization = \<lparr>su_offset = 0, su_size = sp_page_size p\<rparr>\<rparr>"
    and w1: "w1 = w\<lparr>storage_next := storage_next w + 1\<rparr>" and room: "storage_next w \<noteq> usize_max"
  shows "on_return (sliced_alloc ops p st n w) (\<lambda>(i, p', st'', w'). st'' = st' \<and> alloc_post p w n i p' w')"
proof -
  note st = sliced_alloc_start [OF inv ids n w1 room]
  have al: "0 < sp_alignment p" "sp_alignment p dvd sp_page_size p"
    using inv by (auto simp: sliced_inv_def pages_inv_def)
  have i1: "slice_next w1 = slice_next w" by (simp add: w1)
  note eval = sliced_alloc_def create_page_eq [OF a] create_slice_on_return h Let_def i1
    first_slice_def [symmetric] rest_slice_def [symmetric]
  consider "round_up n (sp_alignment p) = sp_page_size p"
    | "round_up n (sp_alignment p) < sp_page_size p" "ids_left (fresh_handle w1)"
    | "round_up n (sp_alignment p) < sp_page_size p" "slice_next (fresh_handle w1) = usize_max"
    using st(3,4) by (fastforce simp: ids_left_def)
  then show ?thesis
  proof cases
    case 1
    then show ?thesis
      using al st(4) by (auto simp: eval intro!: sliced_alloc_full [OF inv ids n w1 room 1])
  next
    case 2
    then show ?thesis
      using al st(4)
      by (auto simp: eval simp del: update.simps intro!: sliced_alloc_rest [OF inv ids n w1 room 2(2) refl 2(1)])
  next
    case 3
    then show ?thesis
      using al st(4) by (auto simp: eval create_slice_def [of _ "round_up n (sp_alignment p)"])
  qed
qed

section \<open>The pool contract\<close>

definition sliced_accepts :: "sliced_pool \<Rightarrow> nat \<Rightarrow> bool" where
  "sliced_accepts p n \<longleftrightarrow> n \<le> sp_max_alloc_size p"

lemma sliced_try_reserve_law:
  assumes inv: "sliced_inv w p" and ids: "ids_left w" and n: "sliced_accepts p n"
  shows "on_return (sliced_try_reserve p n ex w) (\<lambda>(r, p', w').
    sliced_inv w' p' \<and> sliced_owned p' = sliced_owned p \<and> sliced_accepts p' = sliced_accepts p \<and>
    storage_next w' = storage_next w \<and>
    keeps_to_itself (sliced_slices p) w (sliced_slices p') w' \<and>
    (case r of
       None \<Rightarrow> live_slices (sliced_slices p') w' = live_slices (sliced_slices p) w
     | Some h \<Rightarrow> hands_out True n h (sliced_slices p) w (sliced_slices p') w' \<and>
         (\<exists>s. sliced_slices p' h = Some s \<and> \<not> excluded_by ex (sh_id (sl_storage s)))))"
proof -
  have "round_up n (sp_alignment p) < u64_bound"
    using n inv round_up_le_iff [of "sp_alignment p" "sp_page_size p" n]
    by (auto simp: sliced_accepts_def sliced_inv_def pages_inv_def)
  from sliced_try_reserve_returns [OF inv _ _ this] ids
  have "on_return (sliced_try_reserve p n ex w) (\<lambda>(r, p', w').
    sliced_inv w' p' \<and> sliced_owned p' = sliced_owned p \<and> sp_max_alloc_size p' = sp_max_alloc_size p \<and>
    storage_next w' = storage_next w \<and>
    keeps_to_itself (sliced_slices p) w (sliced_slices p') w' \<and>
    (case r of
       None \<Rightarrow> live_slices (sliced_slices p') w' = live_slices (sliced_slices p) w
     | Some h \<Rightarrow> hands_out True n h (sliced_slices p) w (sliced_slices p') w' \<and>
         (\<exists>s. sliced_slices p' h = Some s \<and> \<not> excluded_by ex (sh_id (sl_storage s)))))"
    by (intro returns_on_return) (simp add: ids_left_def)
  then show ?thesis
    by (rule on_return_mono) (auto simp: sliced_accepts_def fun_eq_iff)
qed

context compute_storage
begin

lemma sliced_alloc_law:
  assumes inv: "sliced_inv w p" and ids: "ids_left w" and n: "sliced_accepts p n"
  shows "on_return (sliced_alloc ops p st n w) (\<lambda>(h, p', st', w').
    sliced_inv w' p' \<and> sliced_accepts p' = sliced_accepts p \<and>
    (\<exists>m. sliced_owned p' = (sliced_owned p)(storage_next w \<mapsto> m) \<and>
         allocated st' = (allocated st)(storage_next w \<mapsto> m)) \<and>
    storage_next w' = storage_next w + 1 \<and>
    keeps_to_itself (sliced_slices p) w (sliced_slices p') w' \<and>
    hands_out True n h (sliced_slices p) w (sliced_slices p') w')"
proof (cases "cs_alloc ops st (sp_page_size p) w")
  case (Ret x)
  obtain h st' w1 where x: "x = (h, st', w1)" by (cases x)
  have "world_wf w" using ids by (simp add: ids_left_def)
  from alloc_law [OF this, of st "sp_page_size p"]
  have h: "storage_next w \<noteq> usize_max"
    "h = \<lparr>sh_id = storage_next w, sh_utilization = \<lparr>su_offset = 0, su_size = sp_page_size p\<rparr>\<rparr>"
    "allocated st' = (allocated st)(storage_next w \<mapsto> sp_page_size p)"
    "w1 = w\<lparr>storage_next := storage_next w + 1\<rparr>"
    by (simp_all add: Ret x)
  from sliced_alloc_post [OF inv ids _ _ h(2,4,1)] n Ret x
  have "on_return (sliced_alloc ops p st n w) (\<lambda>(i, p', st'', w'). st'' = st' \<and> alloc_post p w n i p' w')"
    by (simp add: sliced_accepts_def)
  then show ?thesis
    by (rule on_return_mono) (auto simp: alloc_post_def sliced_accepts_def h(3))
qed (simp_all add: sliced_alloc_def create_page_def)

lemma sliced_alloc_exhausted:
  assumes "world_wf w" "slice_next w = usize_max"
  shows "on_return (sliced_alloc ops p st n w) (\<lambda>_. False)"
proof (cases "cs_alloc ops st (sp_page_size p) w")
  case (Ret x)
  obtain h st' w1 where x: "x = (h, st', w1)" by (cases x)
  from alloc_law [OF assms(1), of st "sp_page_size p"] have "slice_next w1 = usize_max"
    by (simp add: Ret x assms(2))
  then show ?thesis by (simp add: sliced_alloc_def create_page_def create_slice_def Let_def Ret x)
qed (simp_all add: sliced_alloc_def create_page_def)

end

sublocale compute_storage \<subseteq> sliced: memory_pool ops allocated True sliced_inv sliced_slices sliced_owned
  sliced_get sliced_try_reserve "sliced_alloc ops" sliced_cleanup sliced_accepts
proof
  fix w p
  assume "sliced_inv w p"
  then show "slices_sound w (sliced_slices p) (sliced_owned p)" by (rule sliced_inv_sound)
next
  fix w p w'
  assume "sliced_inv w p" "slice_next w \<le> slice_next w'" "storage_next w \<le> storage_next w'"
    "\<And>i. i \<in> dom (sliced_slices p) \<Longrightarrow> counts_ok w' i"
  then show "sliced_inv w' p" by (rule sliced_inv_world)
next
  fix w p i
  show "sliced_get p i = map_option sl_storage (sliced_slices p i)"
    by (simp add: sliced_get_def sliced_slices_def)
qed (blast intro: sliced_try_reserve_law sliced_alloc_law,
  blast intro: sliced_try_reserve_law sliced_alloc_law,
  blast intro: sliced_alloc_exhausted,
  simp add: sliced_cleanup_def keeps_to_itself_refl)

end
