(* ===== verification/Float64.thy ===== *)
theory Float64
  imports Prelude
begin

text \<open>
  The \<open>f64\<close> arithmetic of the memory manager and of the optimizer's constant folding: IEEE 754
  binary64, round to nearest with ties to even. A finite number is the rational it denotes, the
  negative zero apart, and a result whose magnitude exceeds the largest finite number is an
  infinity. \<open>as u64\<close> and \<open>as i64\<close> truncate and saturate, and send \<open>NaN\<close> to zero, as in Rust.
  \<open>Finite\<close> of a rational that is no binary64 number is never the result of an operation.
\<close>

datatype f64 = Finite rat | NegZero | PosInf | NegInf | NaN

definition pow2 :: "int \<Rightarrow> rat" where
  "pow2 e = (if 0 \<le> e then of_int (2 ^ nat e) else 1 / of_int (2 ^ nat (- e)))"

function bit_len :: "int \<Rightarrow> int" where
  "bit_len n = (if n \<le> 0 then 0 else 1 + bit_len (n div 2))"
  by auto
termination by (relation "measure nat") auto

declare bit_len.simps [simp del]

text \<open>The exponent of the leading bit of a positive rational.\<close>

definition lead_exp :: "rat \<Rightarrow> int" where
  "lead_exp x =
     (let (n, d) = quotient_of x; e = bit_len n - bit_len d
      in if pow2 e \<le> x then e else e - 1)"

definition round_half_even :: "rat \<Rightarrow> int" where
  "round_half_even q =
     (let f = \<lfloor>q\<rfloor>; r = q - of_int f
      in if r < 1 / 2 then f else if 1 / 2 < r then f + 1 else if even f then f else f + 1)"

definition f64_zero :: "bool \<Rightarrow> f64" where
  "f64_zero negative = (if negative then NegZero else Finite 0)"

definition f64_round :: "rat \<Rightarrow> f64" where
  "f64_round x =
     (if x = 0 then Finite 0
      else
        let u = max (lead_exp \<bar>x\<bar> - 52) (- 1074);
            m = round_half_even (\<bar>x\<bar> / pow2 u);
            y = of_int m * pow2 u
        in if m = 0 then f64_zero (x < 0)
           else if 1024 \<le> lead_exp y then (if 0 < x then PosInf else NegInf)
           else Finite (if 0 < x then y else - y))"

definition f64_of_nat :: "nat \<Rightarrow> f64" where
  "f64_of_nat n = f64_round (of_nat n)"

definition f64_of_int :: "int \<Rightarrow> f64" where
  "f64_of_int n = f64_round (of_int n)"

definition f64_of_bool :: "bool \<Rightarrow> f64" where
  "f64_of_bool b = Finite (if b then 1 else 0)"

text \<open>The number a finite value denotes, and the sign bit (that of a \<open>NaN\<close> is never looked at).\<close>

primrec f64_rat :: "f64 \<Rightarrow> rat option" where
  "f64_rat (Finite x) = Some x"
| "f64_rat NegZero = Some 0"
| "f64_rat PosInf = None"
| "f64_rat NegInf = None"
| "f64_rat NaN = None"

primrec f64_negative :: "f64 \<Rightarrow> bool" where
  "f64_negative (Finite x) = (x < 0)"
| "f64_negative NegZero = True"
| "f64_negative PosInf = False"
| "f64_negative NegInf = True"
| "f64_negative NaN = False"

fun f64_neg :: "f64 \<Rightarrow> f64" where
  "f64_neg (Finite x) = (if x = 0 then NegZero else Finite (- x))"
| "f64_neg NegZero = Finite 0"
| "f64_neg PosInf = NegInf"
| "f64_neg NegInf = PosInf"
| "f64_neg NaN = NaN"

definition f64_abs :: "f64 \<Rightarrow> f64" where
  "f64_abs x = (if f64_negative x then f64_neg x else x)"

definition f64_add :: "f64 \<Rightarrow> f64 \<Rightarrow> f64" where
  "f64_add x y =
     (if x = NaN \<or> y = NaN then NaN
      else case (f64_rat x, f64_rat y) of
        (Some a, Some b) \<Rightarrow>
          if a + b = 0 then f64_zero (x = NegZero \<and> y = NegZero) else f64_round (a + b)
      | (Some a, None) \<Rightarrow> y
      | (None, Some b) \<Rightarrow> x
      | (None, None) \<Rightarrow> if x = y then x else NaN)"

definition f64_sub :: "f64 \<Rightarrow> f64 \<Rightarrow> f64" where
  "f64_sub x y = f64_add x (f64_neg y)"

definition f64_inf :: "bool \<Rightarrow> f64" where
  "f64_inf negative = (if negative then NegInf else PosInf)"

definition f64_mul :: "f64 \<Rightarrow> f64 \<Rightarrow> f64" where
  "f64_mul x y =
     (let negative = (f64_negative x \<noteq> f64_negative y) in
      if x = NaN \<or> y = NaN then NaN
      else case (f64_rat x, f64_rat y) of
        (Some a, Some b) \<Rightarrow> if a * b = 0 then f64_zero negative else f64_round (a * b)
      | (Some a, None) \<Rightarrow> if a = 0 then NaN else f64_inf negative
      | (None, Some b) \<Rightarrow> if b = 0 then NaN else f64_inf negative
      | (None, None) \<Rightarrow> f64_inf negative)"

definition f64_div :: "f64 \<Rightarrow> f64 \<Rightarrow> f64" where
  "f64_div x y =
     (let negative = (f64_negative x \<noteq> f64_negative y) in
      if x = NaN \<or> y = NaN then NaN
      else case (f64_rat x, f64_rat y) of
        (Some a, Some b) \<Rightarrow>
          if b = 0 then (if a = 0 then NaN else f64_inf negative)
          else if a = 0 then f64_zero negative else f64_round (a / b)
      | (Some a, None) \<Rightarrow> f64_zero negative
      | (None, Some b) \<Rightarrow> f64_inf negative
      | (None, None) \<Rightarrow> NaN)"

text \<open>The remainder of the truncating division, which is exact; it has the sign of the dividend.\<close>

definition f64_rem :: "f64 \<Rightarrow> f64 \<Rightarrow> f64" where
  "f64_rem x y =
     (if x = NaN \<or> y = NaN then NaN
      else case (f64_rat x, f64_rat y) of
        (Some a, Some b) \<Rightarrow>
          if b = 0 then NaN
          else let q = a / b; r = a - b * of_int (if 0 \<le> q then \<lfloor>q\<rfloor> else \<lceil>q\<rceil>)
               in if r = 0 then f64_zero (f64_negative x) else Finite r
      | (Some a, None) \<Rightarrow> x
      | _ \<Rightarrow> NaN)"

fun f64_le :: "f64 \<Rightarrow> f64 \<Rightarrow> bool" where
  "f64_le NaN _ = False"
| "f64_le _ NaN = False"
| "f64_le NegInf _ = True"
| "f64_le _ PosInf = True"
| "f64_le x y =
     (case (f64_rat x, f64_rat y) of (Some a, Some b) \<Rightarrow> a \<le> b | _ \<Rightarrow> False)"

definition f64_eq :: "f64 \<Rightarrow> f64 \<Rightarrow> bool" where
  "f64_eq x y = (f64_le x y \<and> f64_le y x)"

definition f64_less :: "f64 \<Rightarrow> f64 \<Rightarrow> bool" where
  "f64_less x y = (f64_le x y \<and> \<not> f64_le y x)"

text \<open>
  \<open>f64::max\<close> and \<open>f64::min\<close>: a \<open>NaN\<close> gives way to the other operand. Of two zeros of different
  sign the standard library does not say which is returned; the model takes the first operand.
\<close>

definition f64_max :: "f64 \<Rightarrow> f64 \<Rightarrow> f64" where
  "f64_max x y = (if x = NaN then y else if f64_less x y then y else x)"

definition f64_min :: "f64 \<Rightarrow> f64 \<Rightarrow> f64" where
  "f64_min x y = (if x = NaN then y else if f64_less y x then y else x)"

definition f64_clamp :: "f64 \<Rightarrow> f64 \<Rightarrow> f64 \<Rightarrow> f64 exec" where
  "f64_clamp x lo hi =
     bindE (assertE (f64_le lo hi)) (\<lambda>_.
       Ret (if f64_less x lo then lo else if f64_less hi x then hi else x))"

text \<open>\<open>f64::round\<close>: to the nearest integer, ties away from zero.\<close>

fun f64_round_int :: "f64 \<Rightarrow> f64" where
  "f64_round_int (Finite x) =
     (let n = (if 0 \<le> x then \<lfloor>x + 1 / 2\<rfloor> else \<lceil>x - 1 / 2\<rceil>)
      in if n = 0 then f64_zero (x < 0) else Finite (of_int n))"
| "f64_round_int x = x"

fun f64_to_u64 :: "f64 \<Rightarrow> nat" where
  "f64_to_u64 (Finite x) = nat (min \<lfloor>x\<rfloor> (2 ^ 64 - 1))"
| "f64_to_u64 NegZero = 0"
| "f64_to_u64 PosInf = u64_bound - 1"
| "f64_to_u64 NegInf = 0"
| "f64_to_u64 NaN = 0"

definition i64_min :: int where
  "i64_min = - (2 ^ 63)"

definition i64_max :: int where
  "i64_max = 2 ^ 63 - 1"

fun f64_to_i64 :: "f64 \<Rightarrow> int" where
  "f64_to_i64 (Finite x) = max i64_min (min i64_max (if 0 \<le> x then \<lfloor>x\<rfloor> else \<lceil>x\<rceil>))"
| "f64_to_i64 NegZero = 0"
| "f64_to_i64 PosInf = i64_max"
| "f64_to_i64 NegInf = i64_min"
| "f64_to_i64 NaN = 0"

lemma f64_to_u64_bound: "f64_to_u64 x < u64_bound"
proof (cases x)
  case (Finite r)
  have "nat (min \<lfloor>r\<rfloor> (2 ^ 64 - 1)) \<le> nat (2 ^ 64 - 1)" by (intro nat_mono) simp
  also have "nat (2 ^ 64 - 1) < 2 ^ 64" by simp
  finally show ?thesis by (simp only: Finite f64_to_u64.simps)
qed simp_all

lemma f64_to_i64_bound: "i64_min \<le> f64_to_i64 x \<and> f64_to_i64 x \<le> i64_max"
  by (cases x) (auto simp: i64_min_def i64_max_def)

lemma f64_eq_Finite [simp]: "f64_eq (Finite a) (Finite b) \<longleftrightarrow> a = b"
  by (auto simp: f64_eq_def)

end
