(* ===== verification/Exclusive_Pool.thy ===== *)
theory Exclusive_Pool
  imports Memory_Pool Float64
begin

text \<open>
  The pool with one slice per page (\<open>memory_pool/exclusive_pool.rs\<close>): a free page big enough for
  the request is reused, a page that was found free often enough is returned to the storage. The
  running average of request sizes is kept in \<open>f64\<close> arithmetic; that the pool is correct does not
  depend on its value.
\<close>

section \<open>Operations\<close>

record ex_page =
  ep_slice :: slice
  ep_alloc_size :: nat
  ep_free_count :: nat

record exclusive_pool =
  xp_pages :: "ex_page list"
  xp_alignment :: nat
  xp_dealloc_period :: nat
  xp_last_dealloc_check :: nat
  xp_max_alloc_size :: nat
  xp_cur_avg_size :: f64

definition size_avg_decay :: f64 where
  "size_avg_decay = f64_round (1 / 100)"

definition alloc_after_free :: nat where
  "alloc_after_free = 5"

definition exclusive_new :: "nat \<Rightarrow> nat \<Rightarrow> nat \<Rightarrow> exclusive_pool exec" where
  "exclusive_new max_alloc_size alignment dealloc_period =
     bindE (rem_u64 max_alloc_size alignment) (\<lambda>r.
     bindE (assertE (r = 0)) (\<lambda>_.
     Ret \<lparr>xp_pages = [], xp_alignment = alignment, xp_dealloc_period = dealloc_period,
       xp_last_dealloc_check = 0, xp_max_alloc_size = max_alloc_size,
       xp_cur_avg_size = f64_div (f64_of_nat max_alloc_size) (Finite 2)\<rparr>))"

text \<open>The mutable reference the source returns is the index of the page.\<close>

definition get_free_page :: "exclusive_pool \<Rightarrow> nat \<Rightarrow> storage_exclude option \<Rightarrow> world \<Rightarrow> nat option" where
  "get_free_page p sz exclude w =
     min_by_key (\<lambda>i. ep_free_count (xp_pages p ! i))
       (filter (\<lambda>i. let page = xp_pages p ! i in
            sz \<le> ep_alloc_size page \<and> is_free w (ep_slice page) \<and>
            \<not> excluded_by exclude (sh_id (sl_storage (ep_slice page))))
          [0..<length (xp_pages p)])"

definition alloc_page ::
  "('s, 'r) compute_storage_ops \<Rightarrow> exclusive_pool \<Rightarrow> 's \<Rightarrow> nat \<Rightarrow> world \<Rightarrow> (nat \<times> exclusive_pool \<times> 's \<times> world) exec" where
  "alloc_page ops p st sz w =
     bindE (next_multiple_of_u64 (max (f64_to_u64 (xp_cur_avg_size p)) sz) (xp_alignment p)) (\<lambda>alloc_size.
     bindE (cs_alloc ops st alloc_size w) (\<lambda>(storage, st, w).
     bindE (slice_handle_new w) (\<lambda>(handle, w).
     bindE (calculate_padding sz (xp_alignment p)) (\<lambda>padding.
     let slice = \<lparr>sl_storage = storage, sl_handle = handle, sl_padding = padding\<rparr>;
         slice = slice\<lparr>sl_storage := (sl_storage slice)\<lparr>sh_utilization := \<lparr>su_offset = 0, su_size = sz\<rparr>\<rparr>,
           sl_padding := padding\<rparr>;
         pages = xp_pages p @ [\<lparr>ep_slice = slice, ep_alloc_size = alloc_size,
           ep_free_count = alloc_after_free - 1\<rparr>]
     in Ret (length pages - 1, p\<lparr>xp_pages := pages\<rparr>, st, w)))))"

definition exclusive_get :: "exclusive_pool \<Rightarrow> slice_id \<Rightarrow> storage_handle option" where
  "exclusive_get p binding =
     map_option (\<lambda>page. sl_storage (ep_slice page))
       (find (\<lambda>page. sl_handle (ep_slice page) = binding) (xp_pages p))"

definition exclusive_try_reserve ::
  "exclusive_pool \<Rightarrow> nat \<Rightarrow> storage_exclude option \<Rightarrow> world \<Rightarrow> (slice_id option \<times> exclusive_pool \<times> world) exec" where
  "exclusive_try_reserve p sz exclude w =
     (let p = p\<lparr>xp_cur_avg_size :=
        f64_add (f64_mul (xp_cur_avg_size p) (f64_sub (Finite 1) size_avg_decay))
          (f64_mul (f64_of_nat sz) size_avg_decay)\<rparr> in
      bindE (calculate_padding sz (xp_alignment p)) (\<lambda>padding.
      case get_free_page p sz exclude w of
        None \<Rightarrow> Ret (None, p, w)
      | Some i \<Rightarrow>
          let page = xp_pages p ! i;
              slice = ep_slice page;
              slice = slice\<lparr>sl_storage := (sl_storage slice)\<lparr>sh_utilization := \<lparr>su_offset = 0, su_size = sz\<rparr>\<rparr>,
                sl_padding := padding\<rparr>;
              page = page\<lparr>ep_slice := slice, ep_free_count := ep_free_count page - 1\<rparr>
          in Ret (Some (sl_handle slice), p\<lparr>xp_pages := (xp_pages p)[i := page]\<rparr>,
               handle_clone (sl_handle slice) w)))"

definition exclusive_alloc ::
  "('s, 'r) compute_storage_ops \<Rightarrow> exclusive_pool \<Rightarrow> 's \<Rightarrow> nat \<Rightarrow> world \<Rightarrow> (slice_id \<times> exclusive_pool \<times> 's \<times> world) exec" where
  "exclusive_alloc ops p st sz w =
     bindE (assertE (sz \<le> xp_max_alloc_size p)) (\<lambda>_.
     bindE (alloc_page ops p st sz w) (\<lambda>(i, p, st, w).
     let h = sl_handle (ep_slice (xp_pages p ! i)) in Ret (h, p, st, handle_clone h w)))"

definition exclusive_memory_usage :: "exclusive_pool \<Rightarrow> world \<Rightarrow> memory_usage exec" where
  "exclusive_memory_usage p w =
     (let used_slices = filter (\<lambda>page. \<not> is_free w (ep_slice page)) (xp_pages p) in
      bindE (sumE (map (\<lambda>page. sh_size (sl_storage (ep_slice page))) used_slices)) (\<lambda>in_use.
      bindE (sumE (map (\<lambda>page. sl_padding (ep_slice page)) used_slices)) (\<lambda>padding.
      bindE (sumE (map ep_alloc_size (xp_pages p))) (\<lambda>reserved.
      Ret \<lparr>number_allocs = length used_slices, bytes_in_use = in_use, bytes_padding = padding,
        bytes_reserved = reserved\<rparr>))))"

text \<open>\<open>retain_mut\<close>: a page that is not retained is dropped, and with it the handle it holds.\<close>

fun retain_pages ::
  "('s, 'r) compute_storage_ops \<Rightarrow> bool \<Rightarrow> 's \<Rightarrow> world \<Rightarrow> ex_page list \<Rightarrow> (ex_page list \<times> 's \<times> world) exec" where
  "retain_pages ops explicit st w [] = Ret ([], st, w)"
| "retain_pages ops explicit st w (page # pages) =
     (if is_free w (ep_slice page) then
        bindE (add_u32 (ep_free_count page) 1) (\<lambda>count.
        let page = page\<lparr>ep_free_count := count\<rparr> in
        if alloc_after_free \<le> ep_free_count page \<or> explicit then
          bindE (cs_dealloc ops st (sh_id (sl_storage (ep_slice page)))) (\<lambda>st.
          retain_pages ops explicit st (handle_drop (sl_handle (ep_slice page)) w) pages)
        else
          bindE (retain_pages ops explicit st w pages) (\<lambda>(pages, st, w). Ret (page # pages, st, w)))
      else
        bindE (retain_pages ops explicit st w pages) (\<lambda>(pages, st, w). Ret (page # pages, st, w)))"

definition exclusive_cleanup ::
  "('s, 'r) compute_storage_ops \<Rightarrow> exclusive_pool \<Rightarrow> 's \<Rightarrow> nat \<Rightarrow> bool \<Rightarrow> world \<Rightarrow> (exclusive_pool \<times> 's \<times> world) exec" where
  "exclusive_cleanup ops p st alloc_nr explicit w =
     (let check_period = xp_dealloc_period p div alloc_after_free in
      bindE (if explicit then Ret True
             else bindE (sub_u64 alloc_nr (xp_last_dealloc_check p)) (\<lambda>d. Ret (check_period \<le> d))) (\<lambda>check.
      if check then
        let p = p\<lparr>xp_last_dealloc_check := alloc_nr\<rparr> in
        bindE (retain_pages ops explicit st w (xp_pages p)) (\<lambda>(pages, st, w).
        Ret (p\<lparr>xp_pages := pages\<rparr>, st, w))
      else Ret (p, st, w)))"

section \<open>Invariant\<close>

abbreviation page_slices :: "ex_page list \<Rightarrow> (slice_id \<times> slice) list" where
  "page_slices pages \<equiv> map (\<lambda>page. (sl_handle (ep_slice page), ep_slice page)) pages"

abbreviation page_buffers :: "ex_page list \<Rightarrow> (storage_id \<times> nat) list" where
  "page_buffers pages \<equiv> map (\<lambda>page. (sh_id (sl_storage (ep_slice page)), ep_alloc_size page)) pages"

definition page_ok :: "world \<Rightarrow> ex_page \<Rightarrow> bool" where
  "page_ok w page \<longleftrightarrow> sl_handle (ep_slice page) < slice_next w \<and> counts_ok w (sl_handle (ep_slice page)) \<and>
     sh_id (sl_storage (ep_slice page)) < storage_next w \<and>
     sh_offset (sl_storage (ep_slice page)) = 0 \<and>
     sh_size (sl_storage (ep_slice page)) \<le> ep_alloc_size page \<and> ep_free_count page < alloc_after_free"

definition pages_ok :: "world \<Rightarrow> ex_page list \<Rightarrow> bool" where
  "pages_ok w pages \<longleftrightarrow> distinct (map fst (page_slices pages)) \<and> distinct (map fst (page_buffers pages)) \<and>
     (\<forall>page \<in> set pages. page_ok w page)"

definition exclusive_inv :: "world \<Rightarrow> exclusive_pool \<Rightarrow> bool" where
  "exclusive_inv w p \<longleftrightarrow> 0 < xp_alignment p \<and> pages_ok w (xp_pages p)"

definition exclusive_slices :: "exclusive_pool \<Rightarrow> slice_id \<Rightarrow> slice option" where
  "exclusive_slices p = map_of (page_slices (xp_pages p))"

definition exclusive_owned :: "exclusive_pool \<Rightarrow> storage_id \<Rightarrow> nat option" where
  "exclusive_owned p = map_of (page_buffers (xp_pages p))"

definition exclusive_accepts :: "exclusive_pool \<Rightarrow> nat \<Rightarrow> bool" where
  "exclusive_accepts p n \<longleftrightarrow> n \<le> xp_max_alloc_size p"

lemma exclusive_new_inv:
  assumes "0 < al" "al dvd m"
  shows "returns (exclusive_new m al d) (\<lambda>p. exclusive_inv w p \<and> exclusive_slices p = Map.empty \<and>
    exclusive_owned p = Map.empty \<and> exclusive_accepts p = (\<lambda>n. n \<le> m) \<and> xp_last_dealloc_check p = 0)"
  using assms by (auto simp: exclusive_new_def exclusive_inv_def pages_ok_def exclusive_slices_def
      exclusive_owned_def exclusive_accepts_def fun_eq_iff)

lemma page_slices_Some:
  "map_of (page_slices pages) i = Some s \<Longrightarrow> \<exists>page \<in> set pages. sl_handle (ep_slice page) = i \<and> ep_slice page = s"
  by (drule map_of_SomeD) auto

lemma map_of_page_buffers:
  "distinct (map fst (page_buffers pages)) \<Longrightarrow> page \<in> set pages \<Longrightarrow>
   map_of (page_buffers pages) (sh_id (sl_storage (ep_slice page))) = Some (ep_alloc_size page)"
  by (intro map_of_is_SomeI) auto

lemma exclusive_inv_sound:
  assumes "exclusive_inv w p"
  shows "slices_sound w (exclusive_slices p) (exclusive_owned p)"
proof -
  have ok: "pages_ok w (xp_pages p)" using assms by (simp add: exclusive_inv_def)
  have 1: "sl_handle s = i \<and> i < slice_next w \<and> counts_ok w i \<and>
      (\<exists>n. exclusive_owned p (sh_id (sl_storage s)) = Some n \<and>
        sh_offset (sl_storage s) + sh_size (sl_storage s) \<le> n)"
    if s: "exclusive_slices p i = Some s" for i s
  proof -
    from page_slices_Some s obtain page where page: "page \<in> set (xp_pages p)" "sl_handle s = i" "ep_slice page = s"
      unfolding exclusive_slices_def by blast
    with ok have "page_ok w page" by (simp add: pages_ok_def)
    then show ?thesis
      using page ok map_of_page_buffers [of "xp_pages p" page]
      unfolding exclusive_owned_def pages_ok_def page_ok_def by auto
  qed
  have 2: "region (sl_storage s) \<inter> region (sl_storage t) = {}"
    if s: "exclusive_slices p i = Some s" "exclusive_slices p j = Some t" "i \<noteq> j" for i j s t
  proof -
    from page_slices_Some s obtain page page' where page: "page \<in> set (xp_pages p)" "sl_handle s = i" "ep_slice page = s"
        "page' \<in> set (xp_pages p)" "sl_handle t = j" "ep_slice page' = t"
      unfolding exclusive_slices_def by blast
    with s(3) have "page \<noteq> page'" by auto
    with page ok have "sh_id (sl_storage s) \<noteq> sh_id (sl_storage t)"
      unfolding pages_ok_def by (auto simp: distinct_map inj_on_def)
    then show ?thesis unfolding region_disjoint_iff by simp
  qed
  have 3: "\<forall>q \<in> dom (exclusive_owned p). q < storage_next w"
    using ok by (auto simp: exclusive_owned_def pages_ok_def page_ok_def dest!: map_of_SomeD)
  show ?thesis using 1 2 3 unfolding slices_sound_def by blast
qed

lemma dom_page_slices: "dom (map_of (page_slices pages)) = (\<lambda>page. sl_handle (ep_slice page)) ` set pages"
  by (simp add: dom_map_of_conv_image_fst image_image)

lemma pages_ok_world:
  assumes "pages_ok w pages" "slice_next w \<le> slice_next w'" "storage_next w \<le> storage_next w'"
    and "\<And>i. i \<in> dom (map_of (page_slices pages)) \<Longrightarrow> counts_ok w' i"
  shows "pages_ok w' pages"
  using assms(1,2,3) assms(4) [unfolded dom_page_slices] unfolding pages_ok_def page_ok_def
  by (auto intro: less_le_trans)

lemma exclusive_inv_world:
  assumes "exclusive_inv w p" "slice_next w \<le> slice_next w'" "storage_next w \<le> storage_next w'"
    and "\<And>i. i \<in> dom (exclusive_slices p) \<Longrightarrow> counts_ok w' i"
  shows "exclusive_inv w' p"
  using assms pages_ok_world by (auto simp: exclusive_inv_def exclusive_slices_def)

section \<open>Reserving\<close>

lemma pages_ok_update:
  assumes ok: "pages_ok w pages" and i: "i < length pages" and page: "page_ok w page"
    and same: "sl_handle (ep_slice page) = sl_handle (ep_slice (pages ! i))"
      "sh_id (sl_storage (ep_slice page)) = sh_id (sl_storage (ep_slice (pages ! i)))"
      "ep_alloc_size page = ep_alloc_size (pages ! i)"
  shows "pages_ok w (pages[i := page])"
    and "map_of (page_slices (pages[i := page])) = (map_of (page_slices pages))(sl_handle (ep_slice page) \<mapsto> ep_slice page)"
    and "map_of (page_buffers (pages[i := page])) = map_of (page_buffers pages)"
proof -
  have keys: "map fst (page_slices (pages[i := page])) = map fst (page_slices pages)"
    "page_buffers (pages[i := page]) = page_buffers pages"
    using i same by (auto simp: map_update comp_def intro!: nth_equalityI) (auto simp: nth_list_update)
  show "map_of (page_buffers (pages[i := page])) = map_of (page_buffers pages)"
    by (simp only: keys(2))
  show "pages_ok w (pages[i := page])"
    using ok page unfolding pages_ok_def keys by (auto dest: set_update_subset_insert [THEN subsetD])
  have "map_of ((page_slices pages)[i := (sl_handle (ep_slice page), ep_slice page)]) =
      (map_of (page_slices pages))(sl_handle (ep_slice page) \<mapsto> ep_slice page)"
    using ok i same(1) map_of_update_nth [of "page_slices pages" i "(sl_handle (ep_slice page), ep_slice page)"]
    by (simp add: pages_ok_def)
  then show "map_of (page_slices (pages[i := page])) =
      (map_of (page_slices pages))(sl_handle (ep_slice page) \<mapsto> ep_slice page)"
    by (simp add: map_update)
qed

lemma get_free_page_Some:
  assumes "get_free_page p n ex w = Some i"
  shows "i < length (xp_pages p)" "n \<le> ep_alloc_size (xp_pages p ! i)"
    "handle_is_free w (sl_handle (ep_slice (xp_pages p ! i)))"
    "\<not> excluded_by ex (sh_id (sl_storage (ep_slice (xp_pages p ! i))))"
  using min_by_key_Some [OF assms [unfolded get_free_page_def]] by (auto simp: Let_def is_free_def)

text \<open>The slice of a page, cut to a new size.\<close>

definition cut_slice :: "slice \<Rightarrow> nat \<Rightarrow> nat \<Rightarrow> slice" where
  "cut_slice s sz padding = s\<lparr>sl_storage := (sl_storage s)\<lparr>sh_utilization := \<lparr>su_offset = 0, su_size = sz\<rparr>\<rparr>,
     sl_padding := padding\<rparr>"

lemma cut_slice_simps [simp]:
  "sl_handle (cut_slice s sz padding) = sl_handle s" "sh_id (sl_storage (cut_slice s sz padding)) = sh_id (sl_storage s)"
  "sh_offset (sl_storage (cut_slice s sz padding)) = 0" "sh_size (sl_storage (cut_slice s sz padding)) = sz"
  by (simp_all add: cut_slice_def sh_offset_def sh_size_def)

lemma pages_ok_clone:
  assumes "pages_ok w pages"
  shows "pages_ok (handle_clone h w) pages"
  using assms by (rule pages_ok_world)
    (use assms in \<open>auto simp: pages_ok_def page_ok_def counts_ok_def dest!: map_of_SomeD\<close>)

text \<open>\<open>try_reserve\<close> never panics, and what it hands out was free, is not excluded and has the size
  asked for.\<close>

lemma exclusive_try_reserve_returns:
  assumes inv: "exclusive_inv w p" and wf: "world_wf w"
  shows "returns (exclusive_try_reserve p n ex w) (\<lambda>(r, p', w').
    exclusive_inv w' p' \<and> exclusive_owned p' = exclusive_owned p \<and> exclusive_accepts p' = exclusive_accepts p \<and>
    storage_next w' = storage_next w \<and>
    keeps_to_itself (exclusive_slices p) w (exclusive_slices p') w' \<and>
    (case r of
       None \<Rightarrow> live_slices (exclusive_slices p') w' = live_slices (exclusive_slices p) w
     | Some h \<Rightarrow> hands_out True n h (exclusive_slices p) w (exclusive_slices p') w' \<and>
         (\<exists>s. exclusive_slices p' h = Some s \<and> \<not> excluded_by ex (sh_id (sl_storage s)))))"
proof -
  let ?pages = "xp_pages p"
  have al: "0 < xp_alignment p" and ok: "pages_ok w ?pages" using inv by (simp_all add: exclusive_inv_def)
  have gfp: "get_free_page (p\<lparr>xp_cur_avg_size := a\<rparr>) n ex w = get_free_page p n ex w" for a
    by (simp add: get_free_page_def)
  show ?thesis
  proof (cases "get_free_page p n ex w")
    case None
    then show ?thesis
      using inv al wf by (simp add: exclusive_try_reserve_def Let_def gfp keeps_to_itself_refl
          exclusive_inv_def exclusive_owned_def exclusive_slices_def exclusive_accepts_def fun_eq_iff)
  next
    case (Some i)
    note f = get_free_page_Some [OF Some]
    define s where "s = ep_slice (?pages ! i)"
    let ?h = "sl_handle s" and ?s = "cut_slice s n (padding_of n (xp_alignment p))"
    define page where "page = (?pages ! i)\<lparr>ep_slice := ?s, ep_free_count := ep_free_count (?pages ! i) - 1\<rparr>"
    have "page_ok w (?pages ! i)" using ok f(1) by (simp add: pages_ok_def)
    then have pok: "page_ok w page" and cnt: "counts_ok w ?h"
      using f(2) by (auto simp: page_ok_def page_def s_def)
    have h: "map_of (page_slices ?pages) ?h = Some s"
      using ok f(1) by (auto simp: pages_ok_def s_def intro!: map_of_is_SomeI)
    note u = pages_ok_update [OF ok f(1) pok]
    have u': "pages_ok w (?pages[i := page])"
      "map_of (page_slices (?pages[i := page])) = (map_of (page_slices ?pages))(?h \<mapsto> ?s)"
      "map_of (page_buffers (?pages[i := page])) = map_of (page_buffers ?pages)"
      using u by (simp_all add: page_def s_def)
    from hand_out_clone [OF quiet_refl [OF wf, of "map_of (page_slices ?pages)"] h _ cnt, of n ?s True] f(3)
    have ho: "hands_out True n ?h (map_of (page_slices ?pages)) w ((map_of (page_slices ?pages))(?h \<mapsto> ?s)) (handle_clone ?h w)"
      "keeps_to_itself (map_of (page_slices ?pages)) w ((map_of (page_slices ?pages))(?h \<mapsto> ?s)) (handle_clone ?h w)"
      by (simp_all add: s_def)
    have r: "returns (exclusive_try_reserve p n ex w) (\<lambda>(r, p', w'). r = Some ?h \<and> w' = handle_clone ?h w \<and>
        xp_pages p' = ?pages[i := page] \<and> xp_alignment p' = xp_alignment p \<and> xp_max_alloc_size p' = xp_max_alloc_size p)"
      using al by (simp add: exclusive_try_reserve_def Let_def gfp Some page_def cut_slice_def s_def)
    show ?thesis
      by (rule returns_mono [OF r])
        (use u' ho f(4) al in \<open>auto simp: exclusive_inv_def exclusive_owned_def exclusive_slices_def exclusive_accepts_def [abs_def]
           s_def [symmetric] intro!: pages_ok_clone\<close>)
  qed
qed

section \<open>Allocating a page\<close>

lemma pages_ok_snoc:
  assumes ok: "pages_ok w pages" and page: "page_ok w' page"
    and w': "slice_next w \<le> slice_next w'" "storage_next w \<le> storage_next w'"
      "\<And>i. i < slice_next w \<Longrightarrow> counts_ok w i \<Longrightarrow> counts_ok w' i"
    and new: "slice_next w \<le> sl_handle (ep_slice page)" "storage_next w \<le> sh_id (sl_storage (ep_slice page))"
  shows "pages_ok w' (pages @ [page])"
    and "map_of (page_slices (pages @ [page])) = (map_of (page_slices pages))(sl_handle (ep_slice page) \<mapsto> ep_slice page)"
    and "map_of (page_buffers (pages @ [page])) =
      (map_of (page_buffers pages))(sh_id (sl_storage (ep_slice page)) \<mapsto> ep_alloc_size page)"
proof -
  have old: "sl_handle (ep_slice page) \<notin> (\<lambda>q. sl_handle (ep_slice q)) ` set pages"
    "sh_id (sl_storage (ep_slice page)) \<notin> (\<lambda>q. sh_id (sl_storage (ep_slice q))) ` set pages"
    using ok new by (force simp: pages_ok_def page_ok_def)+
  have "pages_ok w' pages"
    by (rule pages_ok_world [OF ok w'(1,2)])
      (use ok w'(3) in \<open>auto simp: pages_ok_def page_ok_def dest!: map_of_SomeD\<close>)
  then show "pages_ok w' (pages @ [page])"
    using page old by (simp add: pages_ok_def comp_def)
  show "map_of (page_slices (pages @ [page])) = (map_of (page_slices pages))(sl_handle (ep_slice page) \<mapsto> ep_slice page)"
    using old(1) map_of_snoc [of "sl_handle (ep_slice page)" "page_slices pages" "ep_slice page"] by (simp add: image_image)
  show "map_of (page_buffers (pages @ [page])) =
      (map_of (page_buffers pages))(sh_id (sl_storage (ep_slice page)) \<mapsto> ep_alloc_size page)"
    using old(2) map_of_snoc [of "sh_id (sl_storage (ep_slice page))" "page_buffers pages" "ep_alloc_size page"] by (simp add: image_image)
qed

lemma exclusive_alloc_post:
  assumes inv: "exclusive_inv w p" and ids: "ids_left w" and n: "n \<le> sz" and room: "storage_next w \<noteq> usize_max"
    and w1: "w1 = w\<lparr>storage_next := storage_next w + 1\<rparr>" and h: "h = slice_next w"
    and page: "page = \<lparr>ep_slice = \<lparr>sl_storage = \<lparr>sh_id = storage_next w, sh_utilization = \<lparr>su_offset = 0, su_size = n\<rparr>\<rparr>,
      sl_handle = h, sl_padding = pad\<rparr>, ep_alloc_size = sz, ep_free_count = alloc_after_free - 1\<rparr>"
    and p': "p' = p\<lparr>xp_pages := xp_pages p @ [page]\<rparr>" and w': "w' = handle_clone h (fresh_handle w1)"
  shows "exclusive_inv w' p'" "exclusive_owned p' = (exclusive_owned p)(storage_next w \<mapsto> sz)"
    "keeps_to_itself (exclusive_slices p) w (exclusive_slices p') w'"
    "hands_out True n h (exclusive_slices p) w (exclusive_slices p') w'"
proof -
  let ?S = "map_of (page_slices (xp_pages p))" and ?s = "ep_slice page"
  have ok: "pages_ok w (xp_pages p)" and al: "0 < xp_alignment p" using inv by (simp_all add: exclusive_inv_def)
  have ids1: "ids_left w1" using ids room by (auto simp: w1 ids_left_def world_wf_def)
  have fresh: "?S (slice_next w1) = None"
  proof (rule ccontr)
    assume "?S (slice_next w1) \<noteq> None"
    then obtain s where "?S (slice_next w1) = Some s" by blast
    from page_slices_Some [OF this] ok show False by (auto simp: w1 pages_ok_def page_ok_def)
  qed
  have pg: "page_ok w' page"
    using n by (simp add: page_ok_def page w' w1 h counts_ok_def alloc_after_free_def)
  note u = pages_ok_snoc [OF ok pg]
  have u': "pages_ok w' (xp_pages p @ [page])" "map_of (page_slices (xp_pages p @ [page])) = ?S(h \<mapsto> ?s)"
    "map_of (page_buffers (xp_pages p @ [page])) = (map_of (page_buffers (xp_pages p)))(storage_next w \<mapsto> sz)"
    using u by (simp_all add: page w' w1 h counts_ok_def)
  from u'(1) al show "exclusive_inv w' p'" by (simp add: exclusive_inv_def p')
  from u'(3) show "exclusive_owned p' = (exclusive_owned p)(storage_next w \<mapsto> sz)"
    by (simp add: exclusive_owned_def p')
  have q: "quiet ?S w1 (?S(h \<mapsto> ?s)) (fresh_handle w1)"
    using quiet_fresh [of w1 ?S ?s, OF ids1 fresh] by (simp add: h w1)
  have "hands_out True n h ?S w1 (?S(h \<mapsto> ?s)) w' \<and> keeps_to_itself ?S w1 (?S(h \<mapsto> ?s)) w'"
    using hand_out_clone [OF q, of h ?s n ?s True]
    by (simp add: w' handle_is_free_def counts_ok_def h w1 page)
  then show "hands_out True n h (exclusive_slices p) w (exclusive_slices p') w'"
    and "keeps_to_itself (exclusive_slices p) w (exclusive_slices p') w'"
    using u'(2) by (auto simp: exclusive_slices_def p' w1 intro: keeps_to_itself_storage_next)
qed

section \<open>Cleaning up\<close>

abbreviation pages_cleaned where
  "pages_cleaned pages A w pages' A' w' \<equiv>
     cleaned (map_of (page_slices pages)) (map_of (page_buffers pages)) A w
       (map_of (page_slices pages')) (map_of (page_buffers pages')) A' w'"

lemma pages_ok_keep:
  assumes ok: "pages_ok w (page # pages)" and page': "page' = page\<lparr>ep_free_count := c\<rparr>" "c < alloc_after_free"
    and ok': "pages_ok w' pages'" and c: "pages_cleaned pages A w pages' A' w'"
  shows "pages_ok w' (page' # pages')" "pages_cleaned (page # pages) A w (page' # pages') A' w'"
    "is_free w' (ep_slice page') = is_free w (ep_slice page)"
proof -
  let ?h = "sl_handle (ep_slice page)" and ?b = "sh_id (sl_storage (ep_slice page))"
  have new: "map_of (page_slices pages) ?h = None" "map_of (page_buffers pages) ?b = None"
    using ok by (auto simp: pages_ok_def map_of_eq_None_iff image_image)
  from cleaned_keep [OF c new] show "pages_cleaned (page # pages) A w (page' # pages') A' w'"
    by (simp add: page')
  have w': "id_rc w' ?h = id_rc w ?h" "all_rc w' ?h = all_rc w ?h" "slice_next w' = slice_next w"
    "storage_next w' = storage_next w" using c new by (auto simp: cleaned_def)
  then show "is_free w' (ep_slice page') = is_free w (ep_slice page)"
    by (simp add: is_free_def handle_is_free_def page')
  have "page_ok w' page'" using ok page' w' by (simp add: pages_ok_def page_ok_def counts_ok_def)
  moreover have "?h \<notin> dom (map_of (page_slices pages'))" "?b \<notin> dom (map_of (page_buffers pages'))"
    using c new by (auto simp: cleaned_def dest!: map_le_implies_dom_le)
  ultimately show "pages_ok w' (page' # pages')"
    using ok' by (simp add: pages_ok_def page' dom_map_of_conv_image_fst image_image comp_def)
qed

lemma pages_ok_drop:
  assumes ok: "pages_ok w (page # pages)"
  shows "pages_ok (handle_drop (sl_handle (ep_slice page)) w) pages"
    and "is_free w (ep_slice page) \<Longrightarrow>
      pages_cleaned pages (A(sh_id (sl_storage (ep_slice page)) := None)) (handle_drop (sl_handle (ep_slice page)) w) pages' A' w' \<Longrightarrow>
      pages_cleaned (page # pages) A w pages' A' w'"
proof -
  let ?h = "sl_handle (ep_slice page)" and ?b = "sh_id (sl_storage (ep_slice page))"
  have new: "map_of (page_slices pages) ?h = None" "map_of (page_buffers pages) ?b = None"
    using ok by (auto simp: pages_ok_def map_of_eq_None_iff image_image)
  have okp: "pages_ok w pages" using ok by (simp add: pages_ok_def)
  show "pages_ok (handle_drop ?h w) pages"
    using okp
  proof (rule pages_ok_world)
    fix i assume i: "i \<in> dom (map_of (page_slices pages))"
    then have "i \<noteq> ?h" using new(1) by auto
    moreover have "counts_ok w i" using i okp by (auto simp: dom_page_slices pages_ok_def page_ok_def)
    ultimately show "counts_ok (handle_drop ?h w) i" by (simp add: counts_ok_def handle_drop_def)
  qed (simp_all add: handle_drop_def)
  show "pages_cleaned (page # pages) A w pages' A' w'"
    if "is_free w (ep_slice page)" "pages_cleaned pages (A(?b := None)) (handle_drop ?h w) pages' A' w'"
    using cleaned_drop [OF that(2) new] that(1) by (simp add: is_free_def)
qed

lemma exclusive_get_slices: "exclusive_get p i = map_option sl_storage (exclusive_slices p i)"
proof -
  have "map_option (\<lambda>page. sl_storage (ep_slice page)) (find (\<lambda>page. sl_handle (ep_slice page) = i) pages) =
      map_option sl_storage (map_of (page_slices pages) i)" for pages
    by (induction pages) auto
  then show ?thesis by (simp add: exclusive_get_def exclusive_slices_def)
qed

context compute_storage
begin

lemma exclusive_alloc_law:
  assumes inv: "exclusive_inv w p" and ids: "ids_left w"
  shows "on_return (exclusive_alloc ops p st n w) (\<lambda>(h, p', st', w').
    exclusive_inv w' p' \<and> exclusive_accepts p' = exclusive_accepts p \<and>
    (\<exists>m. exclusive_owned p' = (exclusive_owned p)(storage_next w \<mapsto> m) \<and>
         allocated st' = (allocated st)(storage_next w \<mapsto> m)) \<and>
    storage_next w' = storage_next w + 1 \<and>
    keeps_to_itself (exclusive_slices p) w (exclusive_slices p') w' \<and>
    hands_out True n h (exclusive_slices p) w (exclusive_slices p') w')"
proof -
  define sz where "sz = round_up (max (f64_to_u64 (xp_cur_avg_size p)) n) (xp_alignment p)"
  have n: "n \<le> sz" unfolding sz_def by (rule order_trans [OF _ round_up_ge]) simp
  show ?thesis
  proof (cases "cs_alloc ops st sz w")
    case (Ret x)
    obtain sh st' w1 where x: "x = (sh, st', w1)" by (cases x)
    from alloc_law [of w st sz] ids
    have a: "storage_next w \<noteq> usize_max"
      "sh = \<lparr>sh_id = storage_next w, sh_utilization = \<lparr>su_offset = 0, su_size = sz\<rparr>\<rparr>"
      "allocated st' = (allocated st)(storage_next w \<mapsto> sz)"
      "w1 = w\<lparr>storage_next := storage_next w + 1\<rparr>"
      by (simp_all add: Ret x ids_left_def)
    have ids1: "ids_left w1" using ids a(1) by (auto simp: a(4) ids_left_def world_wf_def)
    note post = exclusive_alloc_post [OF inv ids n a(1,4) refl refl refl refl]
    show ?thesis
      using post by (auto simp: exclusive_alloc_def alloc_page_def Let_def sz_def [symmetric] Ret x
          slice_handle_new_fresh [OF ids1] a(2,3) exclusive_accepts_def [abs_def])
        (auto simp: a(4))
  qed (simp_all add: exclusive_alloc_def alloc_page_def sz_def [symmetric])
qed


lemma exclusive_alloc_exhausted:
  assumes "world_wf w" "slice_next w = usize_max"
  shows "on_return (exclusive_alloc ops p st n w) (\<lambda>_. False)"
  using on_return_mono [OF alloc_law [OF assms(1), of st]] assms(2)
  by (auto simp: exclusive_alloc_def alloc_page_def Let_def split: prod.splits)

text \<open>Returning pages to the storage.\<close>

lemma retain_pages_law:
  assumes "pages_ok w pages"
  shows "on_return (retain_pages ops explicit st w pages) (\<lambda>(pages', st', w').
    pages_ok w' pages' \<and> pages_cleaned pages (allocated st) w pages' (allocated st') w' \<and>
    (explicit \<longrightarrow> (\<forall>page \<in> set pages'. \<not> is_free w' (ep_slice page))))"
  using assms
proof (induction pages arbitrary: st w)
  case Nil
  then show ?case by (simp add: cleaned_refl)
next
  case (Cons page pages)
  let ?h = "sl_handle (ep_slice page)" and ?b = "sh_id (sl_storage (ep_slice page))"
  have ok: "pages_ok w pages" "page_ok w page" and fc: "ep_free_count page < alloc_after_free"
    using Cons.prems by (auto simp: pages_ok_def page_ok_def)
  have keep: "on_return (bindE (retain_pages ops explicit st w pages) (\<lambda>(pages', st', w'). Ret (page' # pages', st', w')))
      (\<lambda>(pages', st', w'). pages_ok w' pages' \<and> pages_cleaned (page # pages) (allocated st) w pages' (allocated st') w' \<and>
        (explicit \<longrightarrow> (\<forall>page \<in> set pages'. \<not> is_free w' (ep_slice page))))"
    if "page' = page\<lparr>ep_free_count := c\<rparr>" "c < alloc_after_free" "explicit \<longrightarrow> \<not> is_free w (ep_slice page)" for page' c
    using Cons.IH [OF ok(1), of st] that pages_ok_keep [OF Cons.prems that(1,2)]
    unfolding on_return_bindE by (elim on_return_mono) auto
  have drop: "on_return (retain_pages ops explicit st' (handle_drop ?h w) pages)
      (\<lambda>(pages', st', w'). pages_ok w' pages' \<and> pages_cleaned (page # pages) (allocated st) w pages' (allocated st') w' \<and>
        (explicit \<longrightarrow> (\<forall>page \<in> set pages'. \<not> is_free w' (ep_slice page))))"
    if "is_free w (ep_slice page)" "allocated st' = (allocated st)(?b := None)" for st'
    using Cons.IH [OF pages_ok_drop(1) [OF Cons.prems], of st', unfolded that(2)]
    by (elim on_return_mono) (auto simp del: fun_upd_apply map_of.simps list.map dest: pages_ok_drop(2) [OF Cons.prems that(1)])
  show ?case
  proof (cases "is_free w (ep_slice page)")
    case True
    have "on_return (cs_dealloc ops st ?b) (\<lambda>st'. on_return (retain_pages ops explicit st' (handle_drop ?h w) pages)
      (\<lambda>(pages', st', w'). pages_ok w' pages' \<and> pages_cleaned (page # pages) (allocated st) w pages' (allocated st') w' \<and>
        (explicit \<longrightarrow> (\<forall>page \<in> set pages'. \<not> is_free w' (ep_slice page)))))"
      by (rule on_return_mono [OF dealloc_law]) (rule drop [OF True])
    then show ?thesis
      using keep [OF refl, of "Suc (ep_free_count page)"] True
      by (cases "alloc_after_free \<le> Suc (ep_free_count page) \<or> explicit") (auto simp: Let_def not_le simp del: fun_upd_apply)
  next
    case False
    then show ?thesis using keep [of page "ep_free_count page"] fc by (simp del: fun_upd_apply)
  qed
qed

lemma exclusive_cleanup_law:
  assumes inv: "exclusive_inv w p" and wf: "world_wf w"
  shows "on_return (exclusive_cleanup ops p st nr explicit w) (\<lambda>(p', st', w').
    exclusive_inv w' p' \<and> exclusive_accepts p' = exclusive_accepts p \<and>
    exclusive_owned p' \<subseteq>\<^sub>m exclusive_owned p \<and>
    allocated st' = (\<lambda>i. if i \<in> dom (exclusive_owned p) - dom (exclusive_owned p') then None else allocated st i) \<and>
    storage_next w' = storage_next w \<and>
    keeps_to_itself (exclusive_slices p) w (exclusive_slices p') w' \<and>
    live_slices (exclusive_slices p') w' = live_slices (exclusive_slices p) w)"
proof -
  have "pages_ok w (xp_pages p)" and al: "0 < xp_alignment p" using inv by (simp_all add: exclusive_inv_def)
  from retain_pages_law [OF this(1), of explicit st]
  have "on_return (retain_pages ops explicit st w (xp_pages p)) (\<lambda>(pages', st', w').
    pages_ok w' pages' \<and> pages_cleaned (xp_pages p) (allocated st) w pages' (allocated st') w')"
    by (elim on_return_mono) auto
  then have r: "on_return (retain_pages ops explicit st w (xp_pages p)) (\<lambda>(pages', st', w').
    pages_ok w' pages' \<and> pages_cleaned (xp_pages p) (allocated st) w pages' (allocated st') w' \<and>
    keeps_to_itself (map_of (page_slices (xp_pages p))) w (map_of (page_slices pages')) w' \<and>
    live_slices (map_of (page_slices pages')) w' = live_slices (map_of (page_slices (xp_pages p))) w)"
    using wf by (elim on_return_mono) (auto intro: cleaned_live cleaned_keeps_to_itself)
  have u: "on_return (bindE (retain_pages ops explicit st w (xp_pages p)) (\<lambda>(pages, st, w).
      Ret (p\<lparr>xp_last_dealloc_check := nr, xp_pages := pages\<rparr>, st, w))) (\<lambda>(p', st', w').
    exclusive_inv w' p' \<and> exclusive_accepts p' = exclusive_accepts p \<and>
    exclusive_owned p' \<subseteq>\<^sub>m exclusive_owned p \<and>
    allocated st' = (\<lambda>i. if i \<in> dom (exclusive_owned p) - dom (exclusive_owned p') then None else allocated st i) \<and>
    storage_next w' = storage_next w \<and>
    keeps_to_itself (exclusive_slices p) w (exclusive_slices p') w' \<and>
    live_slices (exclusive_slices p') w' = live_slices (exclusive_slices p) w)"
    unfolding on_return_bindE using r al
    by (elim on_return_mono)
      (auto simp: exclusive_inv_def exclusive_accepts_def [abs_def] exclusive_owned_def exclusive_slices_def cleaned_def)
  show ?thesis
    using u inv keeps_to_itself_refl [OF wf, of "exclusive_slices p"]
    by (auto simp: exclusive_cleanup_def Let_def)
qed

end

sublocale compute_storage \<subseteq> exclusive: memory_pool ops allocated True exclusive_inv exclusive_slices exclusive_owned
  exclusive_get exclusive_try_reserve "exclusive_alloc ops" "exclusive_cleanup ops" exclusive_accepts
proof
  fix w p
  assume "exclusive_inv w p"
  then show "slices_sound w (exclusive_slices p) (exclusive_owned p)" by (rule exclusive_inv_sound)
next
  fix w p w'
  assume "exclusive_inv w p" "slice_next w \<le> slice_next w'" "storage_next w \<le> storage_next w'"
    "\<And>i. i \<in> dom (exclusive_slices p) \<Longrightarrow> counts_ok w' i"
  then show "exclusive_inv w' p" by (rule exclusive_inv_world)
next
  fix w p i
  show "exclusive_get p i = map_option sl_storage (exclusive_slices p i)"
    by (rule exclusive_get_slices)
next
  fix w p n ex
  assume "exclusive_inv w p" "ids_left w"
  then show "on_return (exclusive_try_reserve p n ex w) (\<lambda>(r, p', w').
        exclusive_inv w' p' \<and> exclusive_owned p' = exclusive_owned p \<and> exclusive_accepts p' = exclusive_accepts p \<and>
        storage_next w' = storage_next w \<and>
        keeps_to_itself (exclusive_slices p) w (exclusive_slices p') w' \<and>
        (case r of
           None \<Rightarrow> live_slices (exclusive_slices p') w' = live_slices (exclusive_slices p) w
         | Some h \<Rightarrow> hands_out True n h (exclusive_slices p) w (exclusive_slices p') w' \<and>
             (\<exists>s. exclusive_slices p' h = Some s \<and> \<not> excluded_by ex (sh_id (sl_storage s)))))"
    by (intro returns_on_return exclusive_try_reserve_returns) (simp_all add: ids_left_def)
qed (rule exclusive_alloc_law exclusive_alloc_exhausted exclusive_cleanup_law; assumption)+

end
