(* ===== verification/Static_Pool.thy ===== *)
theory Static_Pool
  imports Memory_Pool
begin

text \<open>
  The pool for data that is not meant to be freed (\<open>memory_pool/static_pool.rs\<close>): every request
  gets a buffer of its own, and only an explicit cleanup returns the buffers nobody holds. The slice
  it files covers the padded size, so unlike the other pools it may hand out more bytes than asked.
\<close>

section \<open>Operations\<close>

record static_pool =
  tp_slices :: "(slice_id, slice) hash_map"
  tp_max_alloc_size :: nat

definition static_new :: "nat \<Rightarrow> static_pool" where
  "static_new max_alloc_size = \<lparr>tp_slices = [], tp_max_alloc_size = max_alloc_size\<rparr>"

definition static_get :: "static_pool \<Rightarrow> slice_id \<Rightarrow> storage_handle option" where
  "static_get p binding = map_option sl_storage (hm_get (tp_slices p) binding)"

definition static_try_reserve ::
  "static_pool \<Rightarrow> nat \<Rightarrow> storage_exclude option \<Rightarrow> world \<Rightarrow> (slice_id option \<times> static_pool \<times> world) exec" where
  "static_try_reserve p sz exclude w = Ret (None, p, w)"

definition static_alloc ::
  "('s, 'r) compute_storage_ops \<Rightarrow> static_pool \<Rightarrow> 's \<Rightarrow> nat \<Rightarrow> world \<Rightarrow> (slice_id \<times> static_pool \<times> 's \<times> world) exec" where
  "static_alloc ops p st sz w =
     bindE (calculate_padding sz (cs_alignment ops st)) (\<lambda>padding.
     bindE (add_u64 sz padding) (\<lambda>size_alloc.
     bindE (cs_alloc ops st size_alloc w) (\<lambda>(storage_handle, st, w).
     bindE (slice_handle_new w) (\<lambda>(slice_handle, w).
     let w = handle_clone slice_handle w;
         slice = \<lparr>sl_storage = storage_handle, sl_handle = slice_handle, sl_padding = padding\<rparr>
     in Ret (slice_handle, p\<lparr>tp_slices := hm_insert (sl_handle slice) slice (tp_slices p)\<rparr>, st, w)))))"

definition static_memory_usage :: "static_pool \<Rightarrow> world \<Rightarrow> memory_usage exec" where
  "static_memory_usage p w =
     (let used_slices = filter (\<lambda>s. \<not> is_free w s) (hm_values (tp_slices p)) in
      bindE (sumE (map (\<lambda>s. sh_size (sl_storage s)) used_slices)) (\<lambda>in_use.
      bindE (sumE (map sl_padding used_slices)) (\<lambda>padding.
      bindE (sumE (map (\<lambda>s. sh_size (sl_storage s)) (hm_values (tp_slices p)))) (\<lambda>reserved.
      Ret \<lparr>number_allocs = length used_slices, bytes_in_use = in_use, bytes_padding = padding,
        bytes_reserved = reserved\<rparr>))))"

text \<open>\<open>HashMap::retain\<close>; a slice that is not retained is dropped with the handle it holds.\<close>

fun retain_slices ::
  "('s, 'r) compute_storage_ops \<Rightarrow> 's \<Rightarrow> world \<Rightarrow> (slice_id, slice) hash_map \<Rightarrow>
   ((slice_id, slice) hash_map \<times> 's \<times> world) exec" where
  "retain_slices ops st w [] = Ret ([], st, w)"
| "retain_slices ops st w ((i, sl) # slices) =
     (if is_free w sl then
        bindE (cs_dealloc ops st (sh_id (sl_storage sl))) (\<lambda>st.
        retain_slices ops st (handle_drop (sl_handle sl) w) slices)
      else
        bindE (retain_slices ops st w slices) (\<lambda>(slices, st, w). Ret ((i, sl) # slices, st, w)))"

definition static_cleanup ::
  "('s, 'r) compute_storage_ops \<Rightarrow> static_pool \<Rightarrow> 's \<Rightarrow> nat \<Rightarrow> bool \<Rightarrow> world \<Rightarrow> (static_pool \<times> 's \<times> world) exec" where
  "static_cleanup ops p st alloc_nr explicit w =
     (if explicit then
        bindE (retain_slices ops st w (tp_slices p)) (\<lambda>(slices, st, w).
        Ret (p\<lparr>tp_slices := slices\<rparr>, st, w))
      else Ret (p, st, w))"

section \<open>Invariant\<close>

abbreviation buffers_of :: "(slice_id, slice) hash_map \<Rightarrow> (storage_id \<times> nat) list" where
  "buffers_of slices \<equiv> map (\<lambda>e. (sh_id (sl_storage (snd e)), sh_size (sl_storage (snd e)))) slices"

definition entry_ok :: "world \<Rightarrow> slice_id \<Rightarrow> slice \<Rightarrow> bool" where
  "entry_ok w i s \<longleftrightarrow> sl_handle s = i \<and> i < slice_next w \<and> counts_ok w i \<and>
     sh_id (sl_storage s) < storage_next w \<and> sh_offset (sl_storage s) = 0"

definition entries_ok :: "world \<Rightarrow> (slice_id, slice) hash_map \<Rightarrow> bool" where
  "entries_ok w slices \<longleftrightarrow> hm_wf slices \<and> distinct (map fst (buffers_of slices)) \<and>
     (\<forall>(i, s) \<in> set slices. entry_ok w i s)"

definition static_inv :: "world \<Rightarrow> static_pool \<Rightarrow> bool" where
  "static_inv w p \<longleftrightarrow> entries_ok w (tp_slices p)"

definition static_slices :: "static_pool \<Rightarrow> slice_id \<Rightarrow> slice option" where
  "static_slices p = map_of (tp_slices p)"

definition static_owned :: "static_pool \<Rightarrow> storage_id \<Rightarrow> nat option" where
  "static_owned p = map_of (buffers_of (tp_slices p))"

definition static_accepts :: "static_pool \<Rightarrow> nat \<Rightarrow> bool" where
  "static_accepts p n \<longleftrightarrow> True"

lemma static_new_inv: "static_inv w (static_new m)" "static_slices (static_new m) = Map.empty"
    "static_owned (static_new m) = Map.empty"
  by (simp_all add: static_new_def static_inv_def entries_ok_def static_slices_def static_owned_def)

lemma static_inv_sound:
  assumes "static_inv w p"
  shows "slices_sound w (static_slices p) (static_owned p)"
proof -
  have ok: "entries_ok w (tp_slices p)" using assms by (simp add: static_inv_def)
  have 1: "(i, s) \<in> set (tp_slices p)" "entry_ok w i s" if "static_slices p i = Some s" for i s
    using that ok map_of_SomeD unfolding static_slices_def entries_ok_def by fastforce+
  have 2: "static_owned p (sh_id (sl_storage s)) = Some (sh_size (sl_storage s))"
    if "static_slices p i = Some s" for i s
    unfolding static_owned_def
    by (rule map_of_is_SomeI) (use ok 1(1) [OF that] in \<open>force simp: entries_ok_def\<close>)+
  have 3: "region (sl_storage s) \<inter> region (sl_storage t) = {}"
    if s: "static_slices p i = Some s" "static_slices p j = Some t" "i \<noteq> j" for i j s t
  proof -
    have "sh_id (sl_storage s) \<noteq> sh_id (sl_storage t)"
      using ok 1(1) [OF s(1)] 1(1) [OF s(2)] s(3)
      by (fastforce simp: entries_ok_def distinct_map inj_on_def)
    then show ?thesis unfolding region_disjoint_iff by simp
  qed
  have 4: "\<forall>q \<in> dom (static_owned p). q < storage_next w"
    using ok by (fastforce simp: static_owned_def entries_ok_def entry_ok_def dest!: map_of_SomeD)
  show ?thesis
    unfolding slices_sound_def using 1(2) 2 3 4 by (fastforce simp: entry_ok_def)
qed

lemma entries_ok_world:
  assumes "entries_ok w slices" "slice_next w \<le> slice_next w'" "storage_next w \<le> storage_next w'"
    and "\<And>i. i \<in> dom (map_of slices) \<Longrightarrow> counts_ok w' i"
  shows "entries_ok w' slices"
  using assms(1-3) assms(4) [unfolded dom_map_of_conv_image_fst] unfolding entries_ok_def entry_ok_def
  by (fastforce intro: less_le_trans)

section \<open>Allocating and cleaning up\<close>

lemma static_alloc_post:
  assumes inv: "static_inv w p" and ids: "ids_left w" and n: "n \<le> sz" and room: "storage_next w \<noteq> usize_max"
    and w1: "w1 = w\<lparr>storage_next := storage_next w + 1\<rparr>" and h: "h = slice_next w"
    and s: "s = \<lparr>sl_storage = \<lparr>sh_id = storage_next w, sh_utilization = \<lparr>su_offset = 0, su_size = sz\<rparr>\<rparr>,
      sl_handle = h, sl_padding = pad\<rparr>"
    and p': "p' = p\<lparr>tp_slices := hm_insert h s (tp_slices p)\<rparr>" and w': "w' = handle_clone h (fresh_handle w1)"
  shows "static_inv w' p'" "static_owned p' = (static_owned p)(storage_next w \<mapsto> sz)"
    "keeps_to_itself (static_slices p) w (static_slices p') w'"
    "hands_out False n h (static_slices p) w (static_slices p') w'"
proof -
  let ?S = "map_of (tp_slices p)"
  have ok: "entries_ok w (tp_slices p)" using inv by (simp add: static_inv_def)
  have ids1: "ids_left w1" using ids room by (auto simp: w1 ids_left_def world_wf_def)
  have new: "h \<notin> fst ` set (tp_slices p)" "storage_next w \<notin> fst ` set (buffers_of (tp_slices p))"
    using ok by (fastforce simp: h entries_ok_def entry_ok_def)+
  have upd: "hm_insert h s (tp_slices p) = tp_slices p @ [(h, s)]"
    using new(1) by (rule update_fresh)
  have "entries_ok w' (tp_slices p)"
    by (rule entries_ok_world [OF ok])
      (use ok in \<open>auto simp: w' w1 counts_ok_def entries_ok_def entry_ok_def dest!: map_of_SomeD\<close>)
  then have "entries_ok w' (tp_slices p @ [(h, s)])"
    using new by (simp add: entries_ok_def entry_ok_def s w' w1 h counts_ok_def image_image)
  then show "static_inv w' p'" by (simp add: static_inv_def p' upd)
  have "static_owned p' = map_of (buffers_of (tp_slices p) @ [(storage_next w, sz)])"
    by (simp add: static_owned_def p' upd del: map_of_append) (simp add: s)
  also have "\<dots> = (static_owned p)(storage_next w \<mapsto> sz)"
    unfolding static_owned_def by (rule map_of_snoc [OF new(2)])
  finally show "static_owned p' = (static_owned p)(storage_next w \<mapsto> sz)" .
  have "?S (slice_next w1) = None" using new(1) by (simp add: w1 h map_of_eq_None_iff)
  from quiet_fresh [of w1 ?S s, OF ids1 this]
  have q: "quiet ?S w1 (?S(h \<mapsto> s)) (fresh_handle w1)" by (simp add: h w1)
  have "hands_out False n h ?S w1 (?S(h \<mapsto> s)) w' \<and> keeps_to_itself ?S w1 (?S(h \<mapsto> s)) w'"
    using hand_out_clone [OF q, of h s n s False] n
    by (simp add: w' handle_is_free_def counts_ok_def h w1 s)
  then show "hands_out False n h (static_slices p) w (static_slices p') w'"
    and "keeps_to_itself (static_slices p) w (static_slices p') w'"
    by (auto simp: static_slices_def p' w1 intro: keeps_to_itself_storage_next)
qed

lemma entries_ok_ConsD:
  assumes "entries_ok w ((i, s) # slices)"
  shows "entries_ok w slices" "entry_ok w i s" "map_of slices i = None" "map_of (buffers_of slices) (sh_id (sl_storage s)) = None"
  using assms by (auto simp: entries_ok_def map_of_eq_None_iff image_image)

abbreviation entries_cleaned where
  "entries_cleaned slices A w slices' A' w' \<equiv>
     cleaned (map_of slices) (map_of (buffers_of slices)) A w (map_of slices') (map_of (buffers_of slices')) A' w'"

lemma entries_ok_keep:
  assumes ok: "entries_ok w ((i, s) # slices)" and ok': "entries_ok w' slices'"
    and c: "entries_cleaned slices A w slices' A' w'"
  shows "entries_ok w' ((i, s) # slices')" "entries_cleaned ((i, s) # slices) A w ((i, s) # slices') A' w'"
    "is_free w' s = is_free w s"
proof -
  note okD = entries_ok_ConsD [OF ok]
  have h: "sl_handle s = i" using okD(2) by (simp add: entry_ok_def)
  from cleaned_keep [OF c okD(3,4)] show "entries_cleaned ((i, s) # slices) A w ((i, s) # slices') A' w'" by simp
  have w': "id_rc w' i = id_rc w i" "all_rc w' i = all_rc w i" "slice_next w' = slice_next w"
    "storage_next w' = storage_next w" using c okD(3) by (auto simp: cleaned_def)
  then show "is_free w' s = is_free w s" by (simp add: is_free_def handle_is_free_def h)
  have "entry_ok w' i s" using okD(2) w' by (simp add: entry_ok_def counts_ok_def)
  moreover have "i \<notin> dom (map_of slices')" "sh_id (sl_storage s) \<notin> dom (map_of (buffers_of slices'))"
    using c okD(3,4) by (auto simp: cleaned_def dest!: map_le_implies_dom_le)
  ultimately show "entries_ok w' ((i, s) # slices')"
    using ok' by (simp add: entries_ok_def dom_map_of_conv_image_fst image_image comp_def)
qed

lemma entries_ok_drop:
  assumes ok: "entries_ok w ((i, s) # slices)"
  shows "entries_ok (handle_drop i w) slices"
    and "is_free w s \<Longrightarrow> entries_cleaned slices (A(sh_id (sl_storage s) := None)) (handle_drop i w) slices' A' w' \<Longrightarrow>
      entries_cleaned ((i, s) # slices) A w slices' A' w'"
proof -
  note okD = entries_ok_ConsD [OF ok]
  have h: "sl_handle s = i" using okD(2) by (simp add: entry_ok_def)
  show "entries_ok (handle_drop i w) slices"
  proof (rule entries_ok_world [OF okD(1)])
    fix j assume j: "j \<in> dom (map_of slices)"
    then have "j \<noteq> i" "counts_ok w j"
      using okD by (auto simp: entries_ok_def entry_ok_def dest!: map_of_SomeD)
    then show "counts_ok (handle_drop i w) j" by (simp add: counts_ok_def handle_drop_def)
  qed (simp_all add: handle_drop_def)
  show "entries_cleaned ((i, s) # slices) A w slices' A' w'"
    if "is_free w s" "entries_cleaned slices (A(sh_id (sl_storage s) := None)) (handle_drop i w) slices' A' w'"
    using cleaned_drop [OF that(2) okD(3,4)] that(1) by (simp add: is_free_def h)
qed

context compute_storage
begin

lemma retain_slices_law:
  assumes "entries_ok w slices"
  shows "on_return (retain_slices ops st w slices) (\<lambda>(slices', st', w').
    entries_ok w' slices' \<and> entries_cleaned slices (allocated st) w slices' (allocated st') w' \<and>
    (\<forall>(i, s) \<in> set slices'. \<not> is_free w' s))"
  using assms
proof (induction slices arbitrary: st w)
  case Nil
  then show ?case by (simp add: cleaned_refl)
next
  case (Cons a slices)
  obtain i s where a: "a = (i, s)" by (cases a)
  note ok = Cons.prems [unfolded a]
  note okD = entries_ok_ConsD [OF ok]
  have h: "sl_handle s = i" using okD(2) by (simp add: entry_ok_def)
  show ?case
  proof (cases "is_free w s")
    case True
    have "on_return (retain_slices ops st' (handle_drop i w) slices) (\<lambda>(slices', st', w').
        entries_ok w' slices' \<and> entries_cleaned ((i, s) # slices) (allocated st) w slices' (allocated st') w' \<and>
        (\<forall>(i, s) \<in> set slices'. \<not> is_free w' s))"
      if "allocated st' = (allocated st)(sh_id (sl_storage s) := None)" for st'
      using Cons.IH [OF entries_ok_drop(1) [OF ok], of st', unfolded that]
      by (elim on_return_mono) (auto simp del: fun_upd_apply map_of.simps list.map dest: entries_ok_drop(2) [OF ok True])
    from on_return_mono [OF dealloc_law this] True show ?thesis by (simp add: a h del: fun_upd_apply)
  next
    case False
    have "on_return (bindE (retain_slices ops st w slices) (\<lambda>(slices', st', w'). Ret ((i, s) # slices', st', w')))
      (\<lambda>(slices', st', w'). entries_ok w' slices' \<and> entries_cleaned ((i, s) # slices) (allocated st) w slices' (allocated st') w' \<and>
        (\<forall>(i, s) \<in> set slices'. \<not> is_free w' s))"
      using Cons.IH [OF okD(1), of st] entries_ok_keep [OF ok] False
      unfolding on_return_bindE by (elim on_return_mono) auto
    then show ?thesis using False by (simp add: a del: fun_upd_apply)
  qed
qed

lemma static_alloc_law:
  assumes inv: "static_inv w p" and ids: "ids_left w"
  shows "on_return (static_alloc ops p st n w) (\<lambda>(h, p', st', w').
    static_inv w' p' \<and> static_accepts p' = static_accepts p \<and>
    (\<exists>m. static_owned p' = (static_owned p)(storage_next w \<mapsto> m) \<and>
         allocated st' = (allocated st)(storage_next w \<mapsto> m)) \<and>
    storage_next w' = storage_next w + 1 \<and>
    keeps_to_itself (static_slices p) w (static_slices p') w' \<and>
    hands_out False n h (static_slices p) w (static_slices p') w')"
proof -
  define sz where "sz = round_up n (cs_alignment ops st)"
  have n: "n \<le> sz" by (simp add: sz_def)
  show ?thesis
  proof (cases "cs_alloc ops st sz w")
    case (Ret x)
    obtain sh st' w1 where x: "x = (sh, st', w1)" by (cases x)
    from alloc_law [of w st sz] ids
    have a: "storage_next w \<noteq> usize_max"
      "sh = \<lparr>sh_id = storage_next w, sh_utilization = \<lparr>su_offset = 0, su_size = sz\<rparr>\<rparr>"
      "allocated st' = (allocated st)(storage_next w \<mapsto> sz)"
      "w1 = w\<lparr>storage_next := storage_next w + 1\<rparr>"
      by (simp_all add: Ret x ids_left_def)
    have ids1: "ids_left w1" using ids a(1) by (auto simp: a(4) ids_left_def world_wf_def)
    note post = static_alloc_post [OF inv ids n a(1,4) refl refl refl refl]
    show ?thesis
      using post by (auto simp: static_alloc_def Let_def sz_def [symmetric] Ret x
          slice_handle_new_fresh [OF ids1] a(2,3) static_accepts_def [abs_def])
        (auto simp: a(4))
  qed (simp_all add: static_alloc_def sz_def [symmetric])
qed

lemma static_alloc_exhausted:
  assumes "world_wf w" "slice_next w = usize_max"
  shows "on_return (static_alloc ops p st n w) (\<lambda>_. False)"
  using on_return_mono [OF alloc_law [OF assms(1), of st]] assms(2)
  by (auto simp: static_alloc_def Let_def split: prod.splits)

lemma static_cleanup_law:
  assumes inv: "static_inv w p" and wf: "world_wf w"
  shows "on_return (static_cleanup ops p st nr explicit w) (\<lambda>(p', st', w').
    static_inv w' p' \<and> static_accepts p' = static_accepts p \<and>
    static_owned p' \<subseteq>\<^sub>m static_owned p \<and>
    allocated st' = (\<lambda>i. if i \<in> dom (static_owned p) - dom (static_owned p') then None else allocated st i) \<and>
    storage_next w' = storage_next w \<and>
    keeps_to_itself (static_slices p) w (static_slices p') w' \<and>
    live_slices (static_slices p') w' = live_slices (static_slices p) w)"
proof -
  from retain_slices_law inv
  have "on_return (retain_slices ops st w (tp_slices p)) (\<lambda>(slices', st', w').
    entries_ok w' slices' \<and> entries_cleaned (tp_slices p) (allocated st) w slices' (allocated st') w' \<and>
    (\<forall>(i, s) \<in> set slices'. \<not> is_free w' s))"
    unfolding static_inv_def by blast
  then have r: "on_return (retain_slices ops st w (tp_slices p)) (\<lambda>(slices', st', w').
    entries_ok w' slices' \<and> entries_cleaned (tp_slices p) (allocated st) w slices' (allocated st') w' \<and>
    keeps_to_itself (map_of (tp_slices p)) w (map_of slices') w' \<and>
    live_slices (map_of slices') w' = live_slices (map_of (tp_slices p)) w)"
    using wf by (elim on_return_mono) (auto intro: cleaned_live cleaned_keeps_to_itself)
  then have "on_return (bindE (retain_slices ops st w (tp_slices p)) (\<lambda>(slices, st, w). Ret (p\<lparr>tp_slices := slices\<rparr>, st, w)))
    (\<lambda>(p', st', w'). static_inv w' p' \<and> static_accepts p' = static_accepts p \<and>
    static_owned p' \<subseteq>\<^sub>m static_owned p \<and>
    allocated st' = (\<lambda>i. if i \<in> dom (static_owned p) - dom (static_owned p') then None else allocated st i) \<and>
    storage_next w' = storage_next w \<and>
    keeps_to_itself (static_slices p) w (static_slices p') w' \<and>
    live_slices (static_slices p') w' = live_slices (static_slices p) w)"
    unfolding on_return_bindE
    by (elim on_return_mono)
      (auto simp: static_inv_def static_accepts_def [abs_def] static_owned_def static_slices_def cleaned_def)
  then show ?thesis
    using inv keeps_to_itself_refl [OF wf, of "static_slices p"] by (auto simp: static_cleanup_def)
qed

end

sublocale compute_storage \<subseteq> static: memory_pool ops allocated False static_inv static_slices static_owned
  static_get static_try_reserve "static_alloc ops" "static_cleanup ops" static_accepts
proof
  fix w p
  assume "static_inv w p"
  then show "slices_sound w (static_slices p) (static_owned p)" by (rule static_inv_sound)
next
  fix w p w'
  assume "static_inv w p" "slice_next w \<le> slice_next w'" "storage_next w \<le> storage_next w'"
    "\<And>i. i \<in> dom (static_slices p) \<Longrightarrow> counts_ok w' i"
  then show "static_inv w' p" unfolding static_inv_def static_slices_def by (rule entries_ok_world)
next
  fix w p i
  show "static_get p i = map_option sl_storage (static_slices p i)"
    by (simp add: static_get_def static_slices_def)
next
  fix w p n ex
  assume "static_inv w p" "ids_left w"
  then show "on_return (static_try_reserve p n ex w) (\<lambda>(r, p', w').
        static_inv w' p' \<and> static_owned p' = static_owned p \<and> static_accepts p' = static_accepts p \<and>
        storage_next w' = storage_next w \<and>
        keeps_to_itself (static_slices p) w (static_slices p') w' \<and>
        (case r of
           None \<Rightarrow> live_slices (static_slices p') w' = live_slices (static_slices p) w
         | Some h \<Rightarrow> hands_out False n h (static_slices p) w (static_slices p') w' \<and>
             (\<exists>s. static_slices p' h = Some s \<and> \<not> excluded_by ex (sh_id (sl_storage s)))))"
    by (simp add: static_try_reserve_def keeps_to_itself_refl ids_left_def)
qed (rule static_alloc_law static_alloc_exhausted static_cleanup_law; assumption)+

end
