(* ===== verification/Pool_Family.thy ===== *)
theory Pool_Family
  imports Memory_Pool
begin

text \<open>
  Several pools over one storage. A pool is seen through its slices and its buffers; the pools of a
  manager have no slice and no buffer in common, and every buffer is allocated in the storage. A
  step of one pool keeps that, and changes no live slice of the others.
\<close>

type_synonym pool_view = "(slice_id \<Rightarrow> slice option) \<times> (storage_id \<Rightarrow> nat option)"

fun find_map :: "('a \<Rightarrow> 'b option) \<Rightarrow> 'a list \<Rightarrow> 'b option" where
  "find_map f [] = None"
| "find_map f (x # xs) = (case f x of Some v \<Rightarrow> Some v | None \<Rightarrow> find_map f xs)"

definition merged :: "pool_view list \<Rightarrow> slice_id \<Rightarrow> slice option" where
  "merged V k = find_map (\<lambda>v. fst v k) V"

definition views_disjoint :: "pool_view list \<Rightarrow> bool" where
  "views_disjoint V \<longleftrightarrow> (\<forall>i < length V. \<forall>j < length V. i \<noteq> j \<longrightarrow>
     dom (fst (V ! i)) \<inter> dom (fst (V ! j)) = {} \<and> dom (snd (V ! i)) \<inter> dom (snd (V ! j)) = {})"

definition family_ok :: "world \<Rightarrow> (storage_id \<Rightarrow> nat option) \<Rightarrow> pool_view list \<Rightarrow> bool" where
  "family_ok w A V \<longleftrightarrow> world_wf w \<and> views_disjoint V \<and>
     (\<forall>v \<in> set V. slices_sound w (fst v) (snd v) \<and> snd v \<subseteq>\<^sub>m A)"

lemma find_map_Some: "find_map f xs = Some v \<Longrightarrow> \<exists>i < length xs. f (xs ! i) = Some v"
proof (induction xs)
  case (Cons x xs)
  show ?case
  proof (cases "f x")
    case None
    with Cons obtain i where "i < length xs" "f (xs ! i) = Some v" by auto
    then show ?thesis by (intro exI [of _ "Suc i"]) auto
  qed (use Cons.prems in \<open>auto intro!: exI [of _ 0]\<close>)
qed simp

lemma find_map_unique:
  assumes "i < length xs" "f (xs ! i) = Some v" "\<And>j. j < length xs \<Longrightarrow> j \<noteq> i \<Longrightarrow> f (xs ! j) = None"
  shows "find_map f xs = Some v"
  using assms
proof (induction xs arbitrary: i)
  case (Cons x xs)
  show ?case
  proof (cases i)
    case 0
    then show ?thesis using Cons.prems by auto
  next
    case (Suc k)
    have "f x = None" using Cons.prems(3) [of 0] Suc by simp
    moreover have "find_map f xs = Some v"
      using Cons.prems(1,2) Cons.prems(3) [of "Suc j" for j] Suc by (intro Cons.IH [of k]) auto
    ultimately show ?thesis by simp
  qed
qed simp

lemma merged_Some:
  assumes "views_disjoint V"
  shows "merged V k = Some s \<longleftrightarrow> (\<exists>i < length V. fst (V ! i) k = Some s)"
proof
  assume "merged V k = Some s"
  then show "\<exists>i < length V. fst (V ! i) k = Some s"
    using find_map_Some unfolding merged_def by fast
next
  assume "\<exists>i < length V. fst (V ! i) k = Some s"
  then obtain i where i: "i < length V" "fst (V ! i) k = Some s" by blast
  show "merged V k = Some s"
    unfolding merged_def
  proof (rule find_map_unique [of i V "\<lambda>v. fst v k", OF i])
    fix j assume "j < length V" "j \<noteq> i"
    then have "dom (fst (V ! j)) \<inter> dom (fst (V ! i)) = {}" using assms i(1) by (simp add: views_disjoint_def)
    then show "fst (V ! j) k = None" using i(2) by (auto simp: domIff)
  qed
qed

lemma merged_at:
  assumes "views_disjoint V" "i < length V" "k \<in> dom (fst (V ! i))"
  shows "merged V k = fst (V ! i) k"
  using assms merged_Some [OF assms(1)] by (metis domIff not_Some_eq)

lemma merged_None: "views_disjoint V \<Longrightarrow> (\<And>i. i < length V \<Longrightarrow> fst (V ! i) k = None) \<Longrightarrow> merged V k = None"
  using merged_Some by (metis option.distinct(1) not_Some_eq)

text \<open>What a step of one pool does, as the other pools see it.\<close>

definition pool_step ::
  "(storage_id \<Rightarrow> nat option) \<Rightarrow> world \<Rightarrow> pool_view \<Rightarrow> (storage_id \<Rightarrow> nat option) \<Rightarrow> world \<Rightarrow> pool_view \<Rightarrow> bool" where
  "pool_step A w v A' w' v' \<longleftrightarrow> keeps_to_itself (fst v) w (fst v') w' \<and> slices_sound w' (fst v') (snd v') \<and>
     dom (snd v') \<subseteq> dom (snd v) \<union> {storage_next w ..< storage_next w'} \<and> snd v' \<subseteq>\<^sub>m A' \<and>
     (\<forall>i. i \<notin> dom (snd v) \<union> {storage_next w ..< storage_next w'} \<longrightarrow> A' i = A i)"

lemma slices_soundD:
  assumes "slices_sound w S B" "S i = Some s"
  shows "sl_handle s = i" "i < slice_next w" "counts_ok w i"
    "\<exists>n. B (sh_id (sl_storage s)) = Some n \<and> sh_offset (sl_storage s) + sh_size (sl_storage s) \<le> n"
  using assms by (simp_all add: slices_sound_def)

lemma slices_sound_disjoint:
  "slices_sound w S B \<Longrightarrow> S i = Some s \<Longrightarrow> S j = Some t \<Longrightarrow> i \<noteq> j \<Longrightarrow>
   region (sl_storage s) \<inter> region (sl_storage t) = {}"
  by (simp add: slices_sound_def)

lemma slices_sound_below: "slices_sound w S B \<Longrightarrow> dom S \<subseteq> {..<slice_next w} \<and> dom B \<subseteq> {..<storage_next w}"
  by (auto simp: slices_sound_def)

lemma slices_sound_world:
  assumes "slices_sound w S B" "slice_next w \<le> slice_next w'" "storage_next w \<le> storage_next w'"
    and "\<And>i. i \<in> dom S \<Longrightarrow> counts_ok w' i"
  shows "slices_sound w' S B"
  using assms unfolding slices_sound_def by (meson domI less_le_trans)

lemma fresh_disjoint:
  fixes X :: "nat set"
  assumes "X \<subseteq> {..<n}" "Y' \<subseteq> Y \<union> {n..<m}" "X \<inter> Y = {}"
  shows "X \<inter> Y' = {}"
proof (rule equals0I)
  fix x assume "x \<in> X \<inter> Y'"
  then have "x < n" "x \<in> Y \<or> n \<le> x" "x \<notin> Y" using assms by auto
  then show False by simp
qed

lemma step_ext:
  assumes "pool_step A w v A' w' v'"
  shows "world_wf w'" "slice_next w \<le> slice_next w'" "storage_next w \<le> storage_next w'"
  using assms by (auto simp: pool_step_def keeps_to_itself_def world_ext_def)

lemma view_sound:
  "family_ok w A V \<Longrightarrow> i < length V \<Longrightarrow> slices_sound w (fst (V ! i)) (snd (V ! i)) \<and> snd (V ! i) \<subseteq>\<^sub>m A"
  by (simp add: family_ok_def)

lemma view_disjoint:
  "family_ok w A V \<Longrightarrow> j < length V \<Longrightarrow> i < length V \<Longrightarrow> i \<noteq> j \<Longrightarrow>
   dom (fst (V ! i)) \<inter> dom (fst (V ! j)) = {} \<and> dom (snd (V ! i)) \<inter> dom (snd (V ! j)) = {}"
  by (simp add: family_ok_def views_disjoint_def)

text \<open>The lemmas below are about a step of pool \<open>j\<close> of a family.\<close>

text \<open>The slices of the other pools keep their counters.\<close>

lemma other_counters:
  assumes ok: "family_ok w A V" and j: "j < length V" and step: "pool_step A w (V ! j) A' w' v'"
    and i: "i < length V" "i \<noteq> j" and k: "k \<in> dom (fst (V ! i))"
  shows "id_rc w' k = id_rc w k \<and> all_rc w' k = all_rc w k" "counts_ok w' k"
proof -
  have "k < slice_next w" using slices_sound_below [of w "fst (V ! i)" "snd (V ! i)"] view_sound [OF ok i(1)] k by auto
  moreover have "k \<notin> dom (fst (V ! j))" using view_disjoint [OF ok j i] k by auto
  ultimately show rc: "id_rc w' k = id_rc w k \<and> all_rc w' k = all_rc w k"
    using step by (auto simp: pool_step_def keeps_to_itself_def world_ext_def)
  have "counts_ok w k" using view_sound [OF ok i(1)] k by (auto simp: slices_sound_def)
  then show "counts_ok w' k" using rc by (simp add: counts_ok_def)
qed

lemma other_new_disjoint:
  assumes ok: "family_ok w A V" and j: "j < length V" and step: "pool_step A w (V ! j) A' w' v'"
    and i: "i < length V" "i \<noteq> j"
  shows "dom (fst (V ! i)) \<inter> dom (fst v') = {} \<and> dom (snd (V ! i)) \<inter> dom (snd v') = {}"
proof (intro conjI)
  have X: "dom (fst (V ! i)) \<subseteq> {..<slice_next w}" "dom (snd (V ! i)) \<subseteq> {..<storage_next w}"
    using view_sound [OF ok i(1)] slices_sound_below by blast+
  have Y: "dom (fst v') \<subseteq> dom (fst (V ! j)) \<union> {slice_next w ..< slice_next w'}"
    "dom (snd v') \<subseteq> dom (snd (V ! j)) \<union> {storage_next w ..< storage_next w'}"
    using step by (simp_all add: pool_step_def keeps_to_itself_def)
  note d = view_disjoint [OF ok j i]
  show "dom (fst (V ! i)) \<inter> dom (fst v') = {}"
    by (rule fresh_disjoint [OF X(1) Y(1) conjunct1 [OF d]])
  show "dom (snd (V ! i)) \<inter> dom (snd v') = {}"
    by (rule fresh_disjoint [OF X(2) Y(2) conjunct2 [OF d]])
qed

lemma other_buffers:
  assumes ok: "family_ok w A V" and j: "j < length V" and step: "pool_step A w (V ! j) A' w' v'"
    and i: "i < length V" "i \<noteq> j"
  shows "snd (V ! i) \<subseteq>\<^sub>m A'"
  unfolding map_le_def
proof
  fix b assume b: "b \<in> dom (snd (V ! i))"
  then have "b < storage_next w" "b \<notin> dom (snd (V ! j))"
    using view_sound [OF ok i(1)] slices_sound_below view_disjoint [OF ok j i] by blast+
  then have "A' b = A b" using step by (simp add: pool_step_def)
  then show "snd (V ! i) b = A' b" using view_sound [OF ok i(1)] b by (simp add: map_le_def)
qed

lemma family_step:
  assumes ok: "family_ok w A V" and j: "j < length V" and step: "pool_step A w (V ! j) A' w' v'"
  shows "family_ok w' A' (V[j := v'])"
  unfolding family_ok_def
proof (intro conjI)
  show "world_wf w'" by (rule step_ext [OF step])
  show "views_disjoint (V[j := v'])"
    unfolding views_disjoint_def
  proof (intro allI impI)
    fix a b assume ab: "a < length (V[j := v'])" "b < length (V[j := v'])" "a \<noteq> b"
    then consider "a = j" "b \<noteq> j" | "a \<noteq> j" "b = j" | "a \<noteq> j" "b \<noteq> j" by auto
    then show "dom (fst (V[j := v'] ! a)) \<inter> dom (fst (V[j := v'] ! b)) = {} \<and>
        dom (snd (V[j := v'] ! a)) \<inter> dom (snd (V[j := v'] ! b)) = {}"
    proof cases
      case 1
      then show ?thesis using other_new_disjoint [OF ok j step, of b] ab j by auto
    next
      case 2
      then show ?thesis using other_new_disjoint [OF ok j step, of a] ab j by auto
    next
      case 3
      then show ?thesis using ok ab by (simp add: family_ok_def views_disjoint_def)
    qed
  qed
  have "slices_sound w' (fst (V[j := v'] ! i)) (snd (V[j := v'] ! i)) \<and> snd (V[j := v'] ! i) \<subseteq>\<^sub>m A'"
    if i: "i < length V" for i
  proof (cases "i = j")
    case True
    then show ?thesis using step j by (simp add: pool_step_def)
  next
    case False
    then show ?thesis
      using view_sound [OF ok i] other_counters [OF ok j step i False] step_ext [OF step] other_buffers [OF ok j step i False]
      by (auto intro: slices_sound_world)
  qed
  then show "\<forall>v \<in> set (V[j := v']). slices_sound w' (fst v) (snd v) \<and> snd v \<subseteq>\<^sub>m A'"
    by (metis in_set_conv_nth length_list_update)
qed

text \<open>The live slices of the family change exactly where those of the pool do.\<close>

lemma merged_live_step:
  assumes ok: "family_ok w A V" and j: "j < length V" and step: "pool_step A w (V ! j) A' w' v'"
  shows "live_slices (merged (V[j := v'])) w' = (\<lambda>k. if k \<in> dom (fst (V ! j)) \<union> dom (fst v')
     then live_slices (fst v') w' k else live_slices (merged V) w k)"
proof
  have dV: "views_disjoint V" and dV': "views_disjoint (V[j := v'])"
    using ok family_step [OF ok j step] by (simp_all add: family_ok_def)
  fix k
  consider "k \<in> dom (fst v')" | "k \<notin> dom (fst v')" "\<exists>i < length V. i \<noteq> j \<and> k \<in> dom (fst (V ! i))"
    | "k \<notin> dom (fst v')" "\<forall>i < length V. i \<noteq> j \<longrightarrow> k \<notin> dom (fst (V ! i))" by blast
  then show "live_slices (merged (V[j := v'])) w' k = (if k \<in> dom (fst (V ! j)) \<union> dom (fst v')
     then live_slices (fst v') w' k else live_slices (merged V) w k)"
  proof cases
    case 1
    then show ?thesis using merged_at [OF dV', of j k] j by (simp add: live_slices_def)
  next
    case 2
    then obtain i where i: "i < length V" "i \<noteq> j" "k \<in> dom (fst (V ! i))" by blast
    then have "merged (V[j := v']) k = merged V k"
      using merged_at [OF dV', of i k] merged_at [OF dV, of i k] by simp
    moreover have "handle_is_free w' k = handle_is_free w k"
      using other_counters(1) [OF ok j step i] by (simp add: handle_is_free_def)
    moreover have "k \<notin> dom (fst (V ! j))" using view_disjoint [OF ok j i(1,2)] i(3) by auto
    ultimately show ?thesis using 2(1) by (simp add: live_slices_def)
  next
    case 3
    then have "merged (V[j := v']) k = None"
      using j by (intro merged_None [OF dV']) (auto simp: nth_list_update domIff)
    moreover have "merged V k = None" if "k \<notin> dom (fst (V ! j))"
      using 3(2) that j by (intro merged_None [OF dV]) (metis domIff)
    ultimately show ?thesis using 3(1) by (auto simp: live_slices_def domIff)
  qed
qed

lemma merged_live_before:
  assumes ok: "family_ok w A V" and j: "j < length V" and step: "pool_step A w (V ! j) A' w' v'"
  shows "live_slices (merged V) w = (\<lambda>k. if k \<in> dom (fst (V ! j)) \<union> dom (fst v')
     then live_slices (fst (V ! j)) w k else live_slices (merged V) w k)"
proof
  have dV: "views_disjoint V" using ok by (simp add: family_ok_def)
  fix k
  have "merged V k = None" if k: "k \<in> dom (fst v')" "k \<notin> dom (fst (V ! j))"
    using j other_new_disjoint [OF ok j step] k by (intro merged_None [OF dV]) (metis disjoint_iff domIff)
  then show "live_slices (merged V) w k = (if k \<in> dom (fst (V ! j)) \<union> dom (fst v')
     then live_slices (fst (V ! j)) w k else live_slices (merged V) w k)"
    using merged_at [OF dV j, of k] by (cases "k \<in> dom (fst (V ! j))") (auto simp: live_slices_def domIff)
qed

lemma merged_live_same:
  assumes ok: "family_ok w A V" and j: "j < length V" and step: "pool_step A w (V ! j) A' w' v'"
    and a: "live_slices (fst v') w' = live_slices (fst (V ! j)) w"
  shows "live_slices (merged (V[j := v'])) w' = live_slices (merged V) w"
  by (subst merged_live_step [OF ok j step], subst merged_live_before [OF ok j step]) (auto simp: a fun_eq_iff)

lemma merged_hands_out:
  assumes ok: "family_ok w A V" and j: "j < length V" and step: "pool_step A w (V ! j) A' w' v'"
    and a: "hands_out ex n h (fst (V ! j)) w (fst v') w'"
  shows "hands_out ex n h (merged V) w (merged (V[j := v'])) w'"
proof -
  from a obtain sh where sh: "live_slices (fst v') w' = (live_slices (fst (V ! j)) w)(h \<mapsto> sh)"
    "live_slices (fst (V ! j)) w h = None" "id_rc w' h = 2" "all_rc w' h = 2"
    "n \<le> sh_size sh" "ex \<longrightarrow> sh_size sh = n"
    by (auto simp: hands_out_def)
  have "live_slices (fst v') w' h = Some sh" using sh(1) by simp
  then have h: "h \<in> dom (fst v')" by (auto simp: live_slices_Some)
  have "live_slices (merged (V[j := v'])) w' = (live_slices (merged V) w)(h \<mapsto> sh)"
    by (subst merged_live_step [OF ok j step], subst merged_live_before [OF ok j step]) (use h in \<open>auto simp: sh(1) fun_eq_iff\<close>)
  moreover have "live_slices (merged V) w h = None"
    by (subst merged_live_before [OF ok j step]) (use h sh(2) in auto)
  ultimately show ?thesis using sh by (auto simp: hands_out_def)
qed

lemma dom_merged: "views_disjoint V \<Longrightarrow> dom (merged V) = (\<Union>i < length V. dom (fst (V ! i)))"
  by (auto simp: merged_Some dom_def)

lemma merged_keeps:
  assumes ok: "family_ok w A V" and j: "j < length V" and step: "pool_step A w (V ! j) A' w' v'"
  shows "keeps_to_itself (merged V) w (merged (V[j := v'])) w'"
proof -
  have dV: "views_disjoint V" and dV': "views_disjoint (V[j := v'])"
    using ok family_step [OF ok j step] by (simp_all add: family_ok_def)
  have k: "keeps_to_itself (fst (V ! j)) w (fst v') w'" using step by (simp add: pool_step_def)
  have sub: "dom (fst (V ! j)) \<subseteq> dom (merged V)" using j dom_merged [OF dV] by auto
  have "dom (fst (V[j := v'] ! i)) \<subseteq> dom (merged V) \<union> {slice_next w ..< slice_next w'}" if i: "i < length V" for i
  proof (cases "i = j")
    case True
    then show ?thesis using k sub j by (auto simp: keeps_to_itself_def dest!: subsetD)
  next
    case False
    then show ?thesis using i dom_merged [OF dV] by auto
  qed
  then have "dom (merged (V[j := v'])) \<subseteq> dom (merged V) \<union> {slice_next w ..< slice_next w'}"
    unfolding dom_merged [OF dV'] by (auto simp del: nth_list_update)
  moreover have "world_ext {i \<in> dom (merged V). handle_is_free w i} w w'"
    using k sub unfolding keeps_to_itself_def world_ext_def by blast
  ultimately show ?thesis by (simp add: keeps_to_itself_def)
qed

text \<open>Live slices of different pools do not overlap either.\<close>

lemma family_live_disjoint:
  assumes ok: "family_ok w A V" and h: "live_slices (merged V) w k = Some h" "live_slices (merged V) w l = Some g" "k \<noteq> l"
  shows "region h \<inter> region g = {}"
proof -
  have dV: "views_disjoint V" using ok by (simp add: family_ok_def)
  from h obtain i j s t where s: "i < length V" "fst (V ! i) k = Some s" "sl_storage s = h"
    "j < length V" "fst (V ! j) l = Some t" "sl_storage t = g"
    by (auto simp: live_slices_Some merged_Some [OF dV])
  have ss: "slices_sound w (fst (V ! i)) (snd (V ! i))" if "i < length V" for i
    using ok that by (simp add: family_ok_def)
  show ?thesis
  proof (cases "i = j")
    case True
    then show ?thesis using slices_sound_disjoint [OF ss [OF s(1)] s(2)] s h(3) by blast
  next
    case False
    have "sh_id h \<in> dom (snd (V ! i))" "sh_id g \<in> dom (snd (V ! j))"
      using slices_soundD(4) [OF ss [OF s(1)] s(2)] slices_soundD(4) [OF ss [OF s(4)] s(5)] s by auto
    moreover have "dom (snd (V ! i)) \<inter> dom (snd (V ! j)) = {}"
      using dV s False by (simp add: views_disjoint_def)
    ultimately have "sh_id h \<noteq> sh_id g" by auto
    then show ?thesis unfolding region_disjoint_iff by simp
  qed
qed

lemma family_live_allocated:
  assumes ok: "family_ok w A V" and h: "live_slices (merged V) w k = Some h"
  shows "\<exists>n. A (sh_id h) = Some n \<and> sh_offset h + sh_size h \<le> n" "counts_ok w k"
proof -
  have dV: "views_disjoint V" using ok by (simp add: family_ok_def)
  from h obtain i s where s: "i < length V" "fst (V ! i) k = Some s" "sl_storage s = h"
    by (auto simp: live_slices_Some merged_Some [OF dV])
  from view_sound [OF ok s(1)] have v: "slices_sound w (fst (V ! i)) (snd (V ! i))" "snd (V ! i) \<subseteq>\<^sub>m A" by auto
  from slices_soundD [OF v(1) s(2)] s(3) obtain n where
    n: "snd (V ! i) (sh_id h) = Some n" "sh_offset h + sh_size h \<le> n" and "counts_ok w k" by auto
  then show "counts_ok w k" by simp
  from v(2) n(1) have "A (sh_id h) = Some n" by (force simp: map_le_def)
  with n(2) show "\<exists>n. A (sh_id h) = Some n \<and> sh_offset h + sh_size h \<le> n" by blast
qed

section \<open>Steps of a pool that meets the contract\<close>

context memory_pool
begin

lemma step_intro:
  assumes "inv w' p'" "keeps_to_itself (pool_slices p) w (pool_slices p') w'" "owned p' \<subseteq>\<^sub>m A'"
    and "dom (owned p') \<subseteq> dom (owned p) \<union> {storage_next w ..< storage_next w'}"
    and "\<And>i. i \<notin> dom (owned p) \<Longrightarrow> \<not> (storage_next w \<le> i \<and> i < storage_next w') \<Longrightarrow> A' i = A i"
  shows "pool_step A w (pool_slices p, owned p) A' w' (pool_slices p', owned p')"
  using assms inv_sound [OF assms(1)] by (auto simp: pool_step_def)

lemma try_reserve_step:
  assumes "inv w p" "ids_left w" "accepts p n" "owned p \<subseteq>\<^sub>m A"
  shows "on_return (try_reserve p n ex w) (\<lambda>(r, p', w').
    inv w' p' \<and> accepts p' = accepts p \<and>
    pool_step A w (pool_slices p, owned p) A w' (pool_slices p', owned p') \<and>
    (case r of
       None \<Rightarrow> live_slices (pool_slices p') w' = live_slices (pool_slices p) w
     | Some h \<Rightarrow> hands_out exact n h (pool_slices p) w (pool_slices p') w' \<and>
         (\<exists>s. pool_slices p' h = Some s \<and> \<not> excluded_by ex (sh_id (sl_storage s)))))"
  using try_reserve_law [OF assms(1-3)] by (rule on_return_mono) (use assms(4) in \<open>auto intro!: step_intro\<close>)

lemma alloc_step:
  assumes "inv w p" "world_wf w" "accepts p n" "owned p \<subseteq>\<^sub>m allocated st"
  shows "on_return (alloc p st n w) (\<lambda>(h, p', st', w').
    inv w' p' \<and> accepts p' = accepts p \<and>
    pool_step (allocated st) w (pool_slices p, owned p) (allocated st') w' (pool_slices p', owned p') \<and>
    hands_out exact n h (pool_slices p) w (pool_slices p') w')"
proof (cases "slice_next w = usize_max")
  case True
  then show ?thesis using alloc_exhausted [OF assms(2) True, of p st n] by (auto elim: on_return_mono)
next
  case False
  then have "ids_left w" using assms(2) by (simp add: ids_left_def)
  from alloc_law [OF assms(1) this assms(3), of st] show ?thesis
    by (rule on_return_mono) (use assms(4) in \<open>auto intro!: step_intro simp: map_le_def\<close>)
qed

lemma cleanup_step:
  assumes "inv w p" "world_wf w" "owned p \<subseteq>\<^sub>m allocated st"
  shows "on_return (cleanup p st nr explicit w) (\<lambda>(p', st', w').
    inv w' p' \<and> accepts p' = accepts p \<and>
    pool_step (allocated st) w (pool_slices p, owned p) (allocated st') w' (pool_slices p', owned p') \<and>
    live_slices (pool_slices p') w' = live_slices (pool_slices p) w)"
  using cleanup_law [OF assms(1,2), of st nr explicit]
  by (rule on_return_mono)
    (use assms(3) in \<open>auto intro!: step_intro simp: map_le_def dom_def; metis option.distinct(1)\<close>)

end

end
