(* ===== verification/Memory_Manage.thy ===== *)
theory Memory_Manage
  imports Sliced_Pool Exclusive_Pool Static_Pool Pool_Family
begin

text \<open>
  The memory manager (\<open>memory_management/memory_manage.rs\<close>, \<open>memory_management/mod.rs\<close>): a static
  pool and a list of dynamic pools over one storage, with the presets that configure the pools.

  \<open>family_ok\<close> over the pools of a manager is its invariant; the lemmas show that \<open>reserve\<close> and
  \<open>cleanup\<close> keep it, and what they do to the live slices of all pools together.
\<close>

section \<open>Dynamic pools\<close>

datatype dynamic_pool = Sliced sliced_pool | Exclusive exclusive_pool

fun dyn_get :: "dynamic_pool \<Rightarrow> slice_id \<Rightarrow> storage_handle option" where
  "dyn_get (Sliced m) binding = sliced_get m binding"
| "dyn_get (Exclusive m) binding = exclusive_get m binding"

fun dyn_try_reserve ::
  "dynamic_pool \<Rightarrow> nat \<Rightarrow> storage_exclude option \<Rightarrow> world \<Rightarrow> (slice_id option \<times> dynamic_pool \<times> world) exec" where
  "dyn_try_reserve (Sliced m) sz exclude w =
     bindE (sliced_try_reserve m sz exclude w) (\<lambda>(r, m, w). Ret (r, Sliced m, w))"
| "dyn_try_reserve (Exclusive m) sz exclude w =
     bindE (exclusive_try_reserve m sz exclude w) (\<lambda>(r, m, w). Ret (r, Exclusive m, w))"

fun dyn_alloc ::
  "('s, 'r) compute_storage_ops \<Rightarrow> dynamic_pool \<Rightarrow> 's \<Rightarrow> nat \<Rightarrow> world \<Rightarrow> (slice_id \<times> dynamic_pool \<times> 's \<times> world) exec" where
  "dyn_alloc ops (Sliced m) st sz w =
     bindE (sliced_alloc ops m st sz w) (\<lambda>(h, m, st, w). Ret (h, Sliced m, st, w))"
| "dyn_alloc ops (Exclusive m) st sz w =
     bindE (exclusive_alloc ops m st sz w) (\<lambda>(h, m, st, w). Ret (h, Exclusive m, st, w))"

fun dyn_memory_usage :: "dynamic_pool \<Rightarrow> world \<Rightarrow> memory_usage exec" where
  "dyn_memory_usage (Sliced m) w = sliced_memory_usage m w"
| "dyn_memory_usage (Exclusive m) w = exclusive_memory_usage m w"

fun dyn_max_alloc_size :: "dynamic_pool \<Rightarrow> nat" where
  "dyn_max_alloc_size (Sliced m) = sp_max_alloc_size m"
| "dyn_max_alloc_size (Exclusive m) = xp_max_alloc_size m"

fun dyn_cleanup ::
  "('s, 'r) compute_storage_ops \<Rightarrow> dynamic_pool \<Rightarrow> 's \<Rightarrow> nat \<Rightarrow> bool \<Rightarrow> world \<Rightarrow> (dynamic_pool \<times> 's \<times> world) exec" where
  "dyn_cleanup ops (Sliced m) st alloc_nr explicit w =
     bindE (sliced_cleanup m st alloc_nr explicit w) (\<lambda>(m, st, w). Ret (Sliced m, st, w))"
| "dyn_cleanup ops (Exclusive m) st alloc_nr explicit w =
     bindE (exclusive_cleanup ops m st alloc_nr explicit w) (\<lambda>(m, st, w). Ret (Exclusive m, st, w))"

section \<open>Configuration\<close>

datatype memory_allocation_mode = Auto | Static

datatype pool_type = ExclusivePages nat | SlicedPages nat nat

record memory_pool_options =
  po_pool_type :: pool_type
  po_dealloc_period :: "nat option"

datatype memory_configuration = SubSlices | ExclusivePagesPreset | Custom "memory_pool_options list"

record memory_device_properties =
  mdp_max_page_size :: nat
  mdp_alignment :: nat

record 's memory_management =
  mm_static_pool :: static_pool
  mm_pools :: "dynamic_pool list"
  mm_storage :: 's
  mm_alloc_reserve_count :: nat
  mm_mode :: memory_allocation_mode

text \<open>
  \<open>f64::ln\<close> and \<open>f64::exp\<close> are the platform's, whose results the standard library does not specify; the model
  takes them as parameters.
\<close>

definition generate_bucket_sizes ::
  "(f64 \<Rightarrow> f64) \<Rightarrow> (f64 \<Rightarrow> f64) \<Rightarrow> nat \<Rightarrow> nat \<Rightarrow> nat \<Rightarrow> nat \<Rightarrow> nat list exec" where
  "generate_bucket_sizes f64_ln f64_exp start_size end_size max_buckets alignment =
     (let log_min = f64_ln (f64_of_nat start_size);
          log_max = f64_ln (f64_of_nat end_size);
          log_range = f64_sub log_max log_min
      in bindE (mapE (\<lambda>i.
           bindE (sub_u64 max_buckets 1) (\<lambda>last.
           let p = f64_div (f64_of_nat i) (f64_of_nat last);
               log_size = f64_add log_min (f64_mul log_range p);
               size = f64_to_u64 (f64_exp log_size)
           in next_multiple_of_u64 size alignment)) [0..<max_buckets]) (\<lambda>buckets.
         Ret (remdups_adj buckets)))"

definition dealloc_scale_mb :: nat where
  "dealloc_scale_mb = 1024 * 1024 * 1024"

definition base_dealloc_period :: nat where
  "base_dealloc_period = 5000"

definition megabyte :: nat where
  "megabyte = 1024 * 1024"

text \<open>One round of the loop over page sizes; \<open>2u64.pow(base)\<close> overflows from \<open>base = 64\<close> on.\<close>

definition sub_slices_body ::
  "nat \<Rightarrow> nat \<times> nat list \<times> nat list \<times> nat \<Rightarrow> ((nat \<times> nat list \<times> nat list \<times> nat) + (nat list \<times> nat list)) exec" where
  "sub_slices_body memory_alignment = (\<lambda>(current, max_sizes, page_sizes, base).
     if 32 * megabyte \<le> current then
       let current = current div 4 in
       bindE (next_multiple_of_u64 current memory_alignment) (\<lambda>current.
       bindE (if (2 :: nat) ^ base < u64_bound then Ret (2 ^ base) else Panic ArithmeticOverflow) (\<lambda>power.
       let max_sizes = max_sizes @ [current div power];
           page_sizes = page_sizes @ [current] in
       bindE (add_u32 base 1) (\<lambda>base.
       Ret (Inl (current, max_sizes, page_sizes, base)))))
     else Ret (Inr (max_sizes, page_sizes)))"

definition sub_slices_options :: "memory_device_properties \<Rightarrow> memory_pool_options list exec" where
  "sub_slices_options properties =
     (let memory_alignment = mdp_alignment properties;
          max_page = mdp_max_page_size properties;
          pools = [\<lparr>po_pool_type = ExclusivePages 0, po_dealloc_period = None\<rparr>]
      in bindE (loop (sub_slices_body memory_alignment) (max_page, [], [], length pools)) (\<lambda>(max_sizes, page_sizes).
         let max_sizes = rev max_sizes; page_sizes = rev page_sizes;
             pools = pools @ map (\<lambda>i. \<lparr>po_pool_type = SlicedPages (page_sizes ! i) (max_sizes ! i),
               po_dealloc_period = None\<rparr>) [0..<length max_sizes] in
         bindE (div_u64 max_page memory_alignment) (\<lambda>units.
         bindE (mul_u64 units memory_alignment) (\<lambda>page_size.
         Ret (pools @ [\<lparr>po_pool_type = SlicedPages page_size page_size, po_dealloc_period = None\<rparr>])))))"

definition exclusive_options ::
  "(f64 \<Rightarrow> f64) \<Rightarrow> (f64 \<Rightarrow> f64) \<Rightarrow> memory_device_properties \<Rightarrow> memory_pool_options list exec" where
  "exclusive_options f64_ln f64_exp properties =
     bindE (generate_bucket_sizes f64_ln f64_exp (1024 * 32) (mdp_max_page_size properties) 24 (mdp_alignment properties)) (\<lambda>sizes.
     Ret (map (\<lambda>size.
       let dealloc_period = f64_to_u64 (f64_mul (f64_of_nat base_dealloc_period)
             (f64_round_int (f64_add (Finite 1) (f64_div (f64_of_nat size) (f64_of_nat dealloc_scale_mb)))))
       in \<lparr>po_pool_type = ExclusivePages size, po_dealloc_period = Some dealloc_period\<rparr>) sizes))"

definition pool_of_options :: "nat \<Rightarrow> memory_pool_options \<Rightarrow> dynamic_pool exec" where
  "pool_of_options alignment options =
     (case po_pool_type options of
        SlicedPages page_size max_slice_size \<Rightarrow>
          bindE (sliced_new page_size max_slice_size alignment) (\<lambda>p. Ret (Sliced p))
      | ExclusivePages max_alloc_size \<Rightarrow>
          bindE (exclusive_new max_alloc_size alignment
            (case po_dealloc_period options of Some d \<Rightarrow> d | None \<Rightarrow> u64_bound - 1)) (\<lambda>p. Ret (Exclusive p)))"

definition from_configuration ::
  "(f64 \<Rightarrow> f64) \<Rightarrow> (f64 \<Rightarrow> f64) \<Rightarrow> 's \<Rightarrow> memory_device_properties \<Rightarrow> memory_configuration \<Rightarrow> 's memory_management exec" where
  "from_configuration f64_ln f64_exp storage properties config =
     bindE (case config of
              SubSlices \<Rightarrow> sub_slices_options properties
            | ExclusivePagesPreset \<Rightarrow> exclusive_options f64_ln f64_exp properties
            | Custom pool_options \<Rightarrow> Ret pool_options) (\<lambda>pool_options.
     bindE (mapE (pool_of_options (mdp_alignment properties)) pool_options) (\<lambda>pools.
     Ret \<lparr>mm_static_pool = static_new (mdp_max_page_size properties), mm_pools = pools, mm_storage = storage,
       mm_alloc_reserve_count = 0, mm_mode = Auto\<rparr>))"

section \<open>Operations of the manager\<close>

definition set_mode :: "'s memory_management \<Rightarrow> memory_allocation_mode \<Rightarrow> 's memory_management" where
  "set_mode m mode = m\<lparr>mm_mode := mode\<rparr>"

fun cleanup_pools ::
  "('s, 'r) compute_storage_ops \<Rightarrow> nat \<Rightarrow> bool \<Rightarrow> dynamic_pool list \<Rightarrow> 's \<Rightarrow> world \<Rightarrow> (dynamic_pool list \<times> 's \<times> world) exec" where
  "cleanup_pools ops nr explicit [] st w = Ret ([], st, w)"
| "cleanup_pools ops nr explicit (p # ps) st w =
     bindE (dyn_cleanup ops p st nr explicit w) (\<lambda>(p, st, w).
     bindE (cleanup_pools ops nr explicit ps st w) (\<lambda>(ps, st, w). Ret (p # ps, st, w)))"

definition mm_cleanup ::
  "('s, 'r) compute_storage_ops \<Rightarrow> 's memory_management \<Rightarrow> bool \<Rightarrow> world \<Rightarrow> ('s memory_management \<times> world) exec" where
  "mm_cleanup ops m explicit w =
     bindE (static_cleanup ops (mm_static_pool m) (mm_storage m) (mm_alloc_reserve_count m) explicit w) (\<lambda>(sp, st, w).
     bindE (cleanup_pools ops (mm_alloc_reserve_count m) explicit (mm_pools m) st w) (\<lambda>(pools, st, w).
     Ret (m\<lparr>mm_static_pool := sp, mm_pools := pools, mm_storage := st\<rparr>, w)))"

text \<open>\<open>get\<close> consumes the binding, which is dropped on return.\<close>

definition mm_get :: "'s memory_management \<Rightarrow> slice_id \<Rightarrow> world \<Rightarrow> storage_handle option \<times> world" where
  "mm_get m binding w =
     (case static_get (mm_static_pool m) binding of
        Some val \<Rightarrow> (Some val, binding_drop binding w)
      | None \<Rightarrow> (find_map (\<lambda>p. dyn_get p binding) (mm_pools m), binding_drop binding w))"

definition mm_get_resource ::
  "('s, 'r) compute_storage_ops \<Rightarrow> 's memory_management \<Rightarrow> slice_id \<Rightarrow> nat option \<Rightarrow> nat option \<Rightarrow> world \<Rightarrow>
   ('r option \<times> 's memory_management \<times> world) exec" where
  "mm_get_resource ops m binding offset_start offset_end w =
     (let (handle, w) = mm_get m binding w in
      case handle of
        None \<Rightarrow> Ret (None, m, w)
      | Some handle \<Rightarrow>
          bindE (case offset_start of Some offset \<Rightarrow> sh_offset_start handle offset | None \<Rightarrow> Ret handle) (\<lambda>handle.
          bindE (case offset_end of Some offset \<Rightarrow> sh_offset_end handle offset | None \<Rightarrow> Ret handle) (\<lambda>handle.
          bindE (cs_get ops (mm_storage m) handle) (\<lambda>(r, st).
          Ret (Some r, m\<lparr>mm_storage := st\<rparr>, w)))))"

text \<open>The end of \<open>reserve\<close>, once the pool is chosen.\<close>

definition reserve_in_pool ::
  "('s, 'r) compute_storage_ops \<Rightarrow> 's memory_management \<Rightarrow> nat \<Rightarrow> nat \<Rightarrow> storage_exclude option \<Rightarrow> world \<Rightarrow>
   (slice_id \<times> 's memory_management \<times> world) exec" where
  "reserve_in_pool ops m i sz exclude w =
     bindE (dyn_try_reserve (mm_pools m ! i) sz exclude w) (\<lambda>(r, pool, w).
     let m = m\<lparr>mm_pools := (mm_pools m)[i := pool]\<rparr> in
     case r of
       Some sl \<Rightarrow> Ret (sl, m, w)
     | None \<Rightarrow>
         bindE (dyn_alloc ops pool (mm_storage m) sz w) (\<lambda>(h, pool, st, w).
         Ret (h, m\<lparr>mm_pools := (mm_pools m)[i := pool], mm_storage := st\<rparr>, w)))"

definition mm_reserve ::
  "('s, 'r) compute_storage_ops \<Rightarrow> 's memory_management \<Rightarrow> nat \<Rightarrow> storage_exclude option \<Rightarrow> world \<Rightarrow>
   (slice_id \<times> 's memory_management \<times> world) exec" where
  "mm_reserve ops m sz exclude w =
     (case mm_mode m of
        Static \<Rightarrow>
          bindE (static_alloc ops (mm_static_pool m) (mm_storage m) sz w) (\<lambda>(h, sp, st, w).
          Ret (h, m\<lparr>mm_static_pool := sp, mm_storage := st\<rparr>, w))
      | Auto \<Rightarrow>
          bindE (add_u64 (mm_alloc_reserve_count m) 1) (\<lambda>count.
          let m = m\<lparr>mm_alloc_reserve_count := count\<rparr> in
          case find (\<lambda>i. sz \<le> dyn_max_alloc_size (mm_pools m ! i)) [0..<length (mm_pools m)] of
            None \<Rightarrow> Panic (Explicit ''No pool handles allocation'')
          | Some i \<Rightarrow> reserve_in_pool ops m i sz exclude w))"

fun fold_usages :: "world \<Rightarrow> memory_usage \<Rightarrow> dynamic_pool list \<Rightarrow> memory_usage exec" where
  "fold_usages w m1 [] = Ret m1"
| "fold_usages w m1 (p # ps) =
     bindE (dyn_memory_usage p w) (\<lambda>m2. bindE (mu_combine m1 m2) (\<lambda>m. fold_usages w m ps))"

definition mm_memory_usage :: "'s memory_management \<Rightarrow> world \<Rightarrow> memory_usage exec" where
  "mm_memory_usage m w =
     bindE (fold_usages w \<lparr>number_allocs = 0, bytes_in_use = 0, bytes_padding = 0, bytes_reserved = 0\<rparr>
       (mm_pools m)) (\<lambda>u.
     bindE (static_memory_usage (mm_static_pool m) w) (mu_combine u))"

section \<open>Dynamic pools meet the contract\<close>

fun dyn_inv :: "world \<Rightarrow> dynamic_pool \<Rightarrow> bool" where
  "dyn_inv w (Sliced m) = sliced_inv w m"
| "dyn_inv w (Exclusive m) = exclusive_inv w m"

fun dyn_slices :: "dynamic_pool \<Rightarrow> slice_id \<Rightarrow> slice option" where
  "dyn_slices (Sliced m) = sliced_slices m"
| "dyn_slices (Exclusive m) = exclusive_slices m"

fun dyn_owned :: "dynamic_pool \<Rightarrow> storage_id \<Rightarrow> nat option" where
  "dyn_owned (Sliced m) = sliced_owned m"
| "dyn_owned (Exclusive m) = exclusive_owned m"

fun dyn_accepts :: "dynamic_pool \<Rightarrow> nat \<Rightarrow> bool" where
  "dyn_accepts (Sliced m) = sliced_accepts m"
| "dyn_accepts (Exclusive m) = exclusive_accepts m"

lemma dyn_accepts_iff [simp]: "dyn_accepts p n \<longleftrightarrow> n \<le> dyn_max_alloc_size p"
  by (cases p) (simp_all add: sliced_accepts_def exclusive_accepts_def)

sublocale compute_storage \<subseteq> dyn: memory_pool ops allocated True dyn_inv dyn_slices dyn_owned
  dyn_get dyn_try_reserve "dyn_alloc ops" "dyn_cleanup ops" dyn_accepts
proof
  fix w p
  assume "dyn_inv w p"
  then show "slices_sound w (dyn_slices p) (dyn_owned p)"
    by (cases p) (simp_all add: sliced.inv_sound exclusive.inv_sound)
next
  fix w p w'
  assume "dyn_inv w p" "slice_next w \<le> slice_next w'" "storage_next w \<le> storage_next w'"
    "\<And>i. i \<in> dom (dyn_slices p) \<Longrightarrow> counts_ok w' i"
  then show "dyn_inv w' p"
    by (cases p) (auto intro: sliced.inv_world exclusive.inv_world)
next
  fix w p i
  assume "dyn_inv w p"
  then show "dyn_get p i = map_option sl_storage (dyn_slices p i)"
    by (cases p) (auto simp: sliced.get_law exclusive.get_law)
next
  fix w p n ex
  assume "dyn_inv w p" "ids_left w" "dyn_accepts p n"
  then show "on_return (dyn_try_reserve p n ex w) (\<lambda>(r, p', w').
      dyn_inv w' p' \<and> dyn_owned p' = dyn_owned p \<and> dyn_accepts p' = dyn_accepts p \<and>
      storage_next w' = storage_next w \<and>
      keeps_to_itself (dyn_slices p) w (dyn_slices p') w' \<and>
      (case r of
         None \<Rightarrow> live_slices (dyn_slices p') w' = live_slices (dyn_slices p) w
       | Some h \<Rightarrow> hands_out True n h (dyn_slices p) w (dyn_slices p') w' \<and>
           (\<exists>s. dyn_slices p' h = Some s \<and> \<not> excluded_by ex (sh_id (sl_storage s)))))"
  proof (cases p)
    case (Sliced m)
    then show ?thesis
      using \<open>dyn_inv w p\<close> \<open>ids_left w\<close> \<open>dyn_accepts p n\<close> sliced.try_reserve_law [of w m n ex]
      by (simp del: dyn_accepts_iff) (elim on_return_mono, auto split: option.splits)
  next
    case (Exclusive m)
    then show ?thesis
      using \<open>dyn_inv w p\<close> \<open>ids_left w\<close> \<open>dyn_accepts p n\<close> exclusive.try_reserve_law [of w m n ex]
      by (simp del: dyn_accepts_iff) (elim on_return_mono, auto split: option.splits)
  qed
next
  fix w p n st
  assume "dyn_inv w p" "ids_left w" "dyn_accepts p n"
  then show "on_return (dyn_alloc ops p st n w) (\<lambda>(h, p', st', w').
      dyn_inv w' p' \<and> dyn_accepts p' = dyn_accepts p \<and>
      (\<exists>m. dyn_owned p' = (dyn_owned p)(storage_next w \<mapsto> m) \<and>
           allocated st' = (allocated st)(storage_next w \<mapsto> m)) \<and>
      storage_next w' = storage_next w + 1 \<and>
      keeps_to_itself (dyn_slices p) w (dyn_slices p') w' \<and>
      hands_out True n h (dyn_slices p) w (dyn_slices p') w')"
  proof (cases p)
    case (Sliced m)
    then show ?thesis
      using \<open>dyn_inv w p\<close> \<open>ids_left w\<close> \<open>dyn_accepts p n\<close> sliced.alloc_law [of w m n st]
      by (simp del: dyn_accepts_iff fun_upd_apply) (elim on_return_mono, auto)
  next
    case (Exclusive m)
    then show ?thesis
      using \<open>dyn_inv w p\<close> \<open>ids_left w\<close> \<open>dyn_accepts p n\<close> exclusive.alloc_law [of w m n st]
      by (simp del: dyn_accepts_iff fun_upd_apply) (elim on_return_mono, auto)
  qed
next
  fix w p n st
  assume w: "world_wf w" "slice_next w = usize_max"
  show "on_return (dyn_alloc ops p st n w) (\<lambda>_. False)"
    using on_return_False [OF sliced.alloc_exhausted [OF w]] on_return_False [OF exclusive.alloc_exhausted [OF w]]
    by (cases p) simp_all
next
  fix w p st nr explicit
  assume "dyn_inv w p" "world_wf w"
  then show "on_return (dyn_cleanup ops p st nr explicit w) (\<lambda>(p', st', w').
      dyn_inv w' p' \<and> dyn_accepts p' = dyn_accepts p \<and> dyn_owned p' \<subseteq>\<^sub>m dyn_owned p \<and>
      allocated st' = (\<lambda>i. if i \<in> dom (dyn_owned p) - dom (dyn_owned p') then None else allocated st i) \<and>
      storage_next w' = storage_next w \<and>
      keeps_to_itself (dyn_slices p) w (dyn_slices p') w' \<and>
      live_slices (dyn_slices p') w' = live_slices (dyn_slices p) w)"
  proof (cases p)
    case (Sliced m)
    then show ?thesis
      using \<open>dyn_inv w p\<close> \<open>world_wf w\<close> sliced.cleanup_law [of w m st nr explicit]
      by (simp del: dyn_accepts_iff) (elim on_return_mono, auto)
  next
    case (Exclusive m)
    then show ?thesis
      using \<open>dyn_inv w p\<close> \<open>world_wf w\<close> exclusive.cleanup_law [of w m st nr explicit]
      by (simp del: dyn_accepts_iff) (elim on_return_mono, auto)
  qed
qed

section \<open>The invariant of the manager\<close>

definition mm_views :: "'s memory_management \<Rightarrow> pool_view list" where
  "mm_views m = (static_slices (mm_static_pool m), static_owned (mm_static_pool m)) #
     map (\<lambda>p. (dyn_slices p, dyn_owned p)) (mm_pools m)"

definition mm_inv :: "('s \<Rightarrow> storage_id \<Rightarrow> nat option) \<Rightarrow> world \<Rightarrow> 's memory_management \<Rightarrow> bool" where
  "mm_inv allocated w m \<longleftrightarrow> static_inv w (mm_static_pool m) \<and> (\<forall>p \<in> set (mm_pools m). dyn_inv w p) \<and>
     family_ok w (allocated (mm_storage m)) (mm_views m)"

text \<open>The live allocations: slice id to the bytes it stands for.\<close>

definition mm_live :: "'s memory_management \<Rightarrow> world \<Rightarrow> slice_id \<Rightarrow> storage_handle option" where
  "mm_live m w = live_slices (merged (mm_views m)) w"

lemma mm_views_simps [simp]:
  "mm_views (m\<lparr>mm_alloc_reserve_count := c\<rparr>) = mm_views m"
  "mm_views (m\<lparr>mm_mode := d\<rparr>) = mm_views m"
  "mm_views (m\<lparr>mm_storage := st\<rparr>) = mm_views m"
  "length (mm_views m) = Suc (length (mm_pools m))"
  "mm_views m ! 0 = (static_slices (mm_static_pool m), static_owned (mm_static_pool m))"
  "j < length (mm_pools m) \<Longrightarrow> mm_views m ! Suc j = (dyn_slices (mm_pools m ! j), dyn_owned (mm_pools m ! j))"
  "mm_views (m\<lparr>mm_pools := (mm_pools m)[j := p]\<rparr>) = (mm_views m)[Suc j := (dyn_slices p, dyn_owned p)]"
  "mm_views (m\<lparr>mm_static_pool := sp\<rparr>) = (mm_views m)[0 := (static_slices sp, static_owned sp)]"
  by (simp_all add: mm_views_def map_update)

lemma mm_inv_simps [simp]:
  "mm_inv al w (m\<lparr>mm_alloc_reserve_count := c\<rparr>) = mm_inv al w m"
  "mm_inv al w (m\<lparr>mm_mode := d\<rparr>) = mm_inv al w m"
  by (simp_all add: mm_inv_def)

lemma mm_live_simps [simp]:
  "mm_live (m\<lparr>mm_alloc_reserve_count := c\<rparr>) = mm_live m"
  "mm_live (m\<lparr>mm_mode := d\<rparr>) = mm_live m"
  "mm_live (m\<lparr>mm_storage := st\<rparr>) = mm_live m"
  by (simp_all add: mm_live_def fun_eq_iff)

lemma on_return_case_option:
  "on_return (case x of None \<Rightarrow> m | Some v \<Rightarrow> f v) Q = (case x of None \<Rightarrow> on_return m Q | Some v \<Rightarrow> on_return (f v) Q)"
  by (cases x) auto

lemma mm_reserve_mode: "on_return (mm_reserve ops m n ex w) (\<lambda>(h, m', w'). mm_mode m' = mm_mode m)"
  unfolding mm_reserve_def reserve_in_pool_def Let_def
  by (auto simp: case_prod_unfold on_return_case_option split: memory_allocation_mode.split option.split)

text \<open>The world as the holders of live allocations see it.\<close>

definition mm_keeps :: "'s memory_management \<Rightarrow> world \<Rightarrow> 's memory_management \<Rightarrow> world \<Rightarrow> bool" where
  "mm_keeps m w m' w' \<longleftrightarrow> keeps_to_itself (merged (mm_views m)) w (merged (mm_views m')) w'"

lemma mm_keeps_simps [simp]:
  "mm_keeps (m\<lparr>mm_alloc_reserve_count := c\<rparr>) w m' w' = mm_keeps m w m' w'"
  "mm_keeps (m\<lparr>mm_storage := st\<rparr>) w m' w' = mm_keeps m w m' w'"
  "mm_keeps m w (m'\<lparr>mm_storage := st\<rparr>) w' = mm_keeps m w m' w'"
  by (simp_all add: mm_keeps_def)

lemma mm_keeps_trans: "mm_keeps m w m' w' \<Longrightarrow> mm_keeps m' w' m'' w'' \<Longrightarrow> mm_keeps m w m'' w''"
  unfolding mm_keeps_def by (rule keeps_to_itself_trans)

lemma hands_out_after:
  "hands_out ex n h S1 w1 S' w' \<Longrightarrow> live_slices S1 w1 = live_slices S w \<Longrightarrow> hands_out ex n h S w S' w'"
  by (simp add: hands_out_def)

text \<open>
  Where the bytes of a reservation come from: a buffer the pool already owns and that is not excluded, with the
  storage unchanged, or one new buffer.
\<close>

definition serves_from ::
  "('s \<Rightarrow> storage_id \<Rightarrow> nat option) \<Rightarrow> storage_exclude option \<Rightarrow> (storage_id \<Rightarrow> nat option) \<Rightarrow> world \<Rightarrow> 's \<Rightarrow> 's \<Rightarrow>
   storage_handle \<Rightarrow> bool" where
  "serves_from al ex own w st st' sh \<longleftrightarrow>
     st' = st \<and> sh_id sh \<in> dom own \<and> \<not> excluded_by ex (sh_id sh) \<or>
     (\<exists>k. al st' = (al st)(storage_next w \<mapsto> k) \<and> storage_next w \<notin> dom own)"

lemma hands_out_get:
  assumes "hands_out exact n h S w S' w'"
  obtains s where "S' h = Some s" "n \<le> sh_size (sl_storage s)" "exact \<longrightarrow> sh_size (sl_storage s) = n"
proof -
  from assms obtain sh where sh: "live_slices S' w' = (live_slices S w)(h \<mapsto> sh)" "n \<le> sh_size sh" "exact \<longrightarrow> sh_size sh = n"
    by (auto simp: hands_out_def)
  then have "live_slices S' w' h = Some sh" by simp
  with sh(2,3) that show thesis by (auto simp: live_slices_Some)
qed

context compute_storage
begin

lemma mm_inv_pool_step:
  assumes inv: "mm_inv allocated w m" and j: "j < length (mm_pools m)" and p': "dyn_inv w' p'"
    and step: "pool_step (allocated (mm_storage m)) w (dyn_slices (mm_pools m ! j), dyn_owned (mm_pools m ! j))
      (allocated st') w' (dyn_slices p', dyn_owned p')"
  shows "mm_inv allocated w' (m\<lparr>mm_pools := (mm_pools m)[j := p'], mm_storage := st'\<rparr>)"
proof -
  let ?V = "mm_views m"
  have ok: "family_ok w (allocated (mm_storage m)) ?V" using inv by (simp add: mm_inv_def)
  have j': "Suc j < length ?V" and st: "pool_step (allocated (mm_storage m)) w (?V ! Suc j) (allocated st') w' (dyn_slices p', dyn_owned p')"
    using j step by simp_all
  note other = other_counters(2) [OF ok j' st] and ext = step_ext [OF st]
  have "static_inv w' (mm_static_pool m)"
    by (rule static.inv_world [where w = w]) (use inv ext other [of 0] in \<open>auto simp: mm_inv_def\<close>)
  moreover have "dyn_inv w' ((mm_pools m)[j := p'] ! i)" if i: "i < length (mm_pools m)" for i
  proof (cases "i = j")
    case False
    have "dyn_inv w' (mm_pools m ! i)"
      by (rule dyn.inv_world [where w = w]) (use inv ext other [of "Suc i"] i False in \<open>auto simp: mm_inv_def\<close>)
    then show ?thesis using False by simp
  qed (use p' j in simp)
  then have "\<forall>p \<in> set ((mm_pools m)[j := p']). dyn_inv w' p" by (metis in_set_conv_nth length_list_update)
  ultimately show ?thesis using family_step [OF ok j' st] by (simp add: mm_inv_def)
qed

lemma mm_inv_static_step:
  assumes inv: "mm_inv allocated w m" and sp': "static_inv w' sp'"
    and step: "pool_step (allocated (mm_storage m)) w (static_slices (mm_static_pool m), static_owned (mm_static_pool m))
      (allocated st') w' (static_slices sp', static_owned sp')"
  shows "mm_inv allocated w' (m\<lparr>mm_static_pool := sp', mm_storage := st'\<rparr>)"
proof -
  let ?V = "mm_views m"
  have ok: "family_ok w (allocated (mm_storage m)) ?V" using inv by (simp add: mm_inv_def)
  have j': "0 < length ?V" and st: "pool_step (allocated (mm_storage m)) w (?V ! 0) (allocated st') w' (static_slices sp', static_owned sp')"
    using step by simp_all
  note other = other_counters(2) [OF ok j' st] and ext = step_ext [OF st]
  have "dyn_inv w' (mm_pools m ! i)" if i: "i < length (mm_pools m)" for i
    by (rule dyn.inv_world [where w = w]) (use inv ext other [of "Suc i"] i in \<open>auto simp: mm_inv_def\<close>)
  then have "\<forall>p \<in> set (mm_pools m). dyn_inv w' p" by (metis in_set_conv_nth)
  then show ?thesis using family_step [OF ok j' st] sp' by (simp add: mm_inv_def)
qed

lemma mm_inv_views:
  assumes "mm_inv allocated w m"
  shows "static_owned (mm_static_pool m) \<subseteq>\<^sub>m allocated (mm_storage m)" "world_wf w"
    "j < length (mm_pools m) \<Longrightarrow> dyn_owned (mm_pools m ! j) \<subseteq>\<^sub>m allocated (mm_storage m) \<and> dyn_inv w (mm_pools m ! j)"
  using assms view_sound [of w "allocated (mm_storage m)" "mm_views m" 0]
    view_sound [of w "allocated (mm_storage m)" "mm_views m" "Suc j"]
  by (auto simp: mm_inv_def family_ok_def)

text \<open>\<open>reserve\<close> hands out a slice that was not live, in every mode and through every pool.\<close>

lemma mm_try_in_pool:
  assumes inv: "mm_inv allocated w m" and ids: "ids_left w" and i: "i < length (mm_pools m)"
    and n: "n \<le> dyn_max_alloc_size (mm_pools m ! i)"
  shows "on_return (dyn_try_reserve (mm_pools m ! i) n ex w) (\<lambda>(r, p, w1).
    mm_inv allocated w1 (m\<lparr>mm_pools := (mm_pools m)[i := p]\<rparr>) \<and> n \<le> dyn_max_alloc_size p \<and>
    mm_keeps m w (m\<lparr>mm_pools := (mm_pools m)[i := p]\<rparr>) w1 \<and>
    (case r of
       None \<Rightarrow> mm_live (m\<lparr>mm_pools := (mm_pools m)[i := p]\<rparr>) w1 = mm_live m w
     | Some h \<Rightarrow> hands_out True n h (merged (mm_views m)) w (merged (mm_views (m\<lparr>mm_pools := (mm_pools m)[i := p]\<rparr>))) w1))"
proof -
  let ?A = "allocated (mm_storage m)" and ?p = "mm_pools m ! i" and ?V = "mm_views m"
  note v = mm_inv_views [OF inv]
  have ok: "family_ok w ?A ?V" and i': "Suc i < length ?V" and nth: "?V ! Suc i = (dyn_slices ?p, dyn_owned ?p)"
    using inv i by (simp_all add: mm_inv_def)
  have max: "n \<le> dyn_max_alloc_size p" if "dyn_accepts p = dyn_accepts ?p" for p
    using that n dyn_accepts_iff by metis
  have "on_return (dyn_try_reserve ?p n ex w) (\<lambda>(r, p', w').
      dyn_inv w' p' \<and> dyn_accepts p' = dyn_accepts ?p \<and>
      pool_step ?A w (dyn_slices ?p, dyn_owned ?p) ?A w' (dyn_slices p', dyn_owned p') \<and>
      (case r of
         None \<Rightarrow> live_slices (dyn_slices p') w' = live_slices (dyn_slices ?p) w
       | Some h \<Rightarrow> hands_out True n h (dyn_slices ?p) w (dyn_slices p') w' \<and>
           (\<exists>s. dyn_slices p' h = Some s \<and> \<not> excluded_by ex (sh_id (sl_storage s)))))"
    by (rule dyn.try_reserve_step) (use v(3) [OF i] ids n in simp_all)
  then show ?thesis
  proof (elim on_return_mono, clarify)
    fix r p w1
    assume p: "dyn_inv w1 p" and a: "dyn_accepts p = dyn_accepts ?p"
      and st: "pool_step ?A w (dyn_slices ?p, dyn_owned ?p) ?A w1 (dyn_slices p, dyn_owned p)"
      and r: "case r of None \<Rightarrow> live_slices (dyn_slices p) w1 = live_slices (dyn_slices ?p) w
       | Some h \<Rightarrow> hands_out True n h (dyn_slices ?p) w (dyn_slices p) w1 \<and>
           (\<exists>s. dyn_slices p h = Some s \<and> \<not> excluded_by ex (sh_id (sl_storage s)))"
    have st': "pool_step ?A w (?V ! Suc i) ?A w1 (dyn_slices p, dyn_owned p)" using st nth by simp
    from mm_inv_pool_step [OF inv i p st] have "mm_inv allocated w1 (m\<lparr>mm_pools := (mm_pools m)[i := p]\<rparr>)" by simp
    then show "mm_inv allocated w1 (m\<lparr>mm_pools := (mm_pools m)[i := p]\<rparr>) \<and> n \<le> dyn_max_alloc_size p \<and>
      mm_keeps m w (m\<lparr>mm_pools := (mm_pools m)[i := p]\<rparr>) w1 \<and>
      (case r of None \<Rightarrow> mm_live (m\<lparr>mm_pools := (mm_pools m)[i := p]\<rparr>) w1 = mm_live m w
       | Some h \<Rightarrow> hands_out True n h (merged ?V) w (merged (mm_views (m\<lparr>mm_pools := (mm_pools m)[i := p]\<rparr>))) w1)"
      using r max [OF a] merged_live_same [OF ok i' st'] merged_hands_out [OF ok i' st'] merged_keeps [OF ok i' st']
      by (auto simp: nth mm_live_def mm_keeps_def split: option.splits)
  qed
qed

lemma mm_alloc_in_pool:
  assumes inv: "mm_inv allocated w m" and i: "i < length (mm_pools m)" and n: "n \<le> dyn_max_alloc_size (mm_pools m ! i)"
  shows "on_return (dyn_alloc ops (mm_pools m ! i) (mm_storage m) n w) (\<lambda>(h, p, st, w1).
    mm_inv allocated w1 (m\<lparr>mm_pools := (mm_pools m)[i := p], mm_storage := st\<rparr>) \<and>
    mm_keeps m w (m\<lparr>mm_pools := (mm_pools m)[i := p], mm_storage := st\<rparr>) w1 \<and>
    hands_out True n h (merged (mm_views m)) w (merged (mm_views (m\<lparr>mm_pools := (mm_pools m)[i := p]\<rparr>))) w1)"
proof -
  let ?A = "allocated (mm_storage m)" and ?p = "mm_pools m ! i" and ?V = "mm_views m"
  note v = mm_inv_views [OF inv]
  have ok: "family_ok w ?A ?V" and i': "Suc i < length ?V" and nth: "?V ! Suc i = (dyn_slices ?p, dyn_owned ?p)"
    using inv i by (simp_all add: mm_inv_def)
  have "on_return (dyn_alloc ops ?p (mm_storage m) n w) (\<lambda>(h, p', st', w').
      dyn_inv w' p' \<and> dyn_accepts p' = dyn_accepts ?p \<and>
      pool_step ?A w (dyn_slices ?p, dyn_owned ?p) (allocated st') w' (dyn_slices p', dyn_owned p') \<and>
      hands_out True n h (dyn_slices ?p) w (dyn_slices p') w')"
    by (rule dyn.alloc_step) (use v(2) v(3) [OF i] n in simp_all)
  then show ?thesis
    by (elim on_return_mono)
      (auto intro!: mm_inv_pool_step [OF inv i] merged_hands_out [OF ok i'] merged_keeps [OF ok i'] simp: nth mm_keeps_def)
qed

lemma mm_static_alloc:
  assumes inv: "mm_inv allocated w m"
  shows "on_return (static_alloc ops (mm_static_pool m) (mm_storage m) n w) (\<lambda>(h, sp, st, w1).
    mm_inv allocated w1 (m\<lparr>mm_static_pool := sp, mm_storage := st\<rparr>) \<and>
    mm_keeps m w (m\<lparr>mm_static_pool := sp, mm_storage := st\<rparr>) w1 \<and>
    hands_out False n h (merged (mm_views m)) w (merged (mm_views (m\<lparr>mm_static_pool := sp\<rparr>))) w1)"
proof -
  let ?A = "allocated (mm_storage m)" and ?p = "mm_static_pool m" and ?V = "mm_views m"
  note v = mm_inv_views [OF inv]
  have ok: "family_ok w ?A ?V" and i': "0 < length ?V" using inv by (simp_all add: mm_inv_def)
  have "on_return (static_alloc ops ?p (mm_storage m) n w) (\<lambda>(h, p', st', w').
      static_inv w' p' \<and> static_accepts p' = static_accepts ?p \<and>
      pool_step ?A w (static_slices ?p, static_owned ?p) (allocated st') w' (static_slices p', static_owned p') \<and>
      hands_out False n h (static_slices ?p) w (static_slices p') w')"
    by (rule static.alloc_step) (use v(1,2) inv in \<open>simp_all add: mm_inv_def static_accepts_def\<close>)
  then show ?thesis
    by (elim on_return_mono)
      (auto intro!: mm_inv_static_step [OF inv] merged_hands_out [OF ok i'] merged_keeps [OF ok i'] simp: mm_keeps_def)
qed

lemma reserve_in_pool_law:
  assumes inv: "mm_inv allocated w m" and ids: "ids_left w"
    and i: "i < length (mm_pools m)" "n \<le> dyn_max_alloc_size (mm_pools m ! i)"
  shows "on_return (reserve_in_pool ops m i n ex w) (\<lambda>(h, m', w').
    mm_inv allocated w' m' \<and> mm_keeps m w m' w' \<and> hands_out True n h (merged (mm_views m)) w (merged (mm_views m')) w')"
  unfolding reserve_in_pool_def on_return_bindE
proof (rule on_return_mono [OF mm_try_in_pool [OF inv ids i]], clarify)
  fix r p w1
  let ?m = "m\<lparr>mm_pools := (mm_pools m)[i := p]\<rparr>"
  assume p: "mm_inv allocated w1 ?m" "n \<le> dyn_max_alloc_size p" "mm_keeps m w ?m w1"
    and r: "case r of None \<Rightarrow> mm_live ?m w1 = mm_live m w
      | Some h \<Rightarrow> hands_out True n h (merged (mm_views m)) w (merged (mm_views ?m)) w1"
  from mm_alloc_in_pool [OF p(1), of i n] i p(2)
  have "on_return (dyn_alloc ops p (mm_storage m) n w1) (\<lambda>(h, p', st, w2).
      mm_inv allocated w2 (?m\<lparr>mm_pools := (mm_pools ?m)[i := p'], mm_storage := st\<rparr>) \<and>
      mm_keeps ?m w1 (?m\<lparr>mm_pools := (mm_pools ?m)[i := p'], mm_storage := st\<rparr>) w2 \<and>
      hands_out True n h (merged (mm_views ?m)) w1 (merged (mm_views (?m\<lparr>mm_pools := (mm_pools ?m)[i := p']\<rparr>))) w2)"
    by simp
  then have "r = None \<Longrightarrow> on_return (dyn_alloc ops p (mm_storage m) n w1) (\<lambda>(h, p', st, w2).
      mm_inv allocated w2 (?m\<lparr>mm_pools := (mm_pools ?m)[i := p'], mm_storage := st\<rparr>) \<and>
      mm_keeps m w (?m\<lparr>mm_pools := (mm_pools ?m)[i := p'], mm_storage := st\<rparr>) w2 \<and>
      hands_out True n h (merged (mm_views m)) w (merged (mm_views (?m\<lparr>mm_pools := (mm_pools ?m)[i := p']\<rparr>))) w2)"
    using r mm_keeps_trans [OF p(3)] by (elim on_return_mono) (auto simp: mm_live_def elim!: hands_out_after)
  then show "on_return (let m = ?m in case r of Some sl \<Rightarrow> Ret (sl, m, w1)
    | None \<Rightarrow> bindE (dyn_alloc ops p (mm_storage m) n w1) (\<lambda>(h, pool, st, w).
        Ret (h, m\<lparr>mm_pools := (mm_pools m)[i := pool], mm_storage := st\<rparr>, w)))
    (\<lambda>(h, m', w'). mm_inv allocated w' m' \<and> mm_keeps m w m' w' \<and> hands_out True n h (merged (mm_views m)) w (merged (mm_views m')) w')"
    using p r by (cases r) (auto elim!: on_return_mono)
qed

lemma mm_reserve_law:
  assumes inv: "mm_inv allocated w m" and ids: "ids_left w"
  shows "on_return (mm_reserve ops m n ex w) (\<lambda>(h, m', w'). mm_inv allocated w' m' \<and> mm_keeps m w m' w' \<and>
    hands_out (mm_mode m = Auto) n h (merged (mm_views m)) w (merged (mm_views m')) w')"
proof (cases "mm_mode m")
  case Static
  then show ?thesis
    using mm_static_alloc [OF inv, of n] by (simp add: mm_reserve_def) (elim on_return_mono, auto)
next
  case Auto
  then show ?thesis
    using reserve_in_pool_law [of w "m\<lparr>mm_alloc_reserve_count := Suc (mm_alloc_reserve_count m)\<rparr>"] inv ids
    by (auto simp: mm_reserve_def Let_def find_Some_iff split: option.splits)
qed

text \<open>The pool that serves a reservation, and that no other is touched.\<close>

lemma owned_fresh:
  assumes "mm_inv allocated w m"
  shows "storage_next w \<notin> dom (static_owned (mm_static_pool m))"
    "i < length (mm_pools m) \<Longrightarrow> storage_next w \<notin> dom (dyn_owned (mm_pools m ! i))"
  using assms static.inv_sound [of w "mm_static_pool m"] dyn.inv_sound [of w "mm_pools m ! i"] mm_inv_views(3) [OF assms, of i]
  by (auto simp: mm_inv_def slices_sound_def domI)

lemma dyn_reserve_serves:
  assumes inv: "dyn_inv w p" and ids: "ids_left w" and n: "n \<le> dyn_max_alloc_size p"
    and wf: "storage_next w \<notin> dom (dyn_owned p)"
    and m: "mm_pools m ! i = p" "i < length (mm_pools m)"
  shows "on_return (reserve_in_pool ops m i n ex w) (\<lambda>(h, m', w'). \<exists>p' st' sh. m' = m\<lparr>mm_pools := (mm_pools m)[i := p'], mm_storage := st'\<rparr> \<and>
    dyn_get p' h = Some sh \<and> sh_size sh = n \<and> serves_from allocated ex (dyn_owned p) w (mm_storage m) st' sh)"
  unfolding reserve_in_pool_def m(1) on_return_bindE
proof (rule on_return_mono [OF dyn.try_reserve_law [OF inv ids]], use n in simp, clarify)
  fix r p1 w1
  assume p1: "dyn_inv w1 p1" "dyn_owned p1 = dyn_owned p" "dyn_accepts p1 = dyn_accepts p" "storage_next w1 = storage_next w"
    "keeps_to_itself (dyn_slices p) w (dyn_slices p1) w1"
    and r: "case r of None \<Rightarrow> live_slices (dyn_slices p1) w1 = live_slices (dyn_slices p) w
      | Some h \<Rightarrow> hands_out True n h (dyn_slices p) w (dyn_slices p1) w1 \<and>
          (\<exists>s. dyn_slices p1 h = Some s \<and> \<not> excluded_by ex (sh_id (sl_storage s)))"
  let ?Q = "\<lambda>(h, m', w'). \<exists>p' st' sh. m' = m\<lparr>mm_pools := (mm_pools m)[i := p'], mm_storage := st'\<rparr> \<and>
    dyn_get p' h = Some sh \<and> sh_size sh = n \<and> serves_from allocated ex (dyn_owned p) w (mm_storage m) st' sh"
  show "on_return (let m = m\<lparr>mm_pools := (mm_pools m)[i := p1]\<rparr> in case r of Some sl \<Rightarrow> Ret (sl, m, w1)
    | None \<Rightarrow> bindE (dyn_alloc ops p1 (mm_storage m) n w1) (\<lambda>(h, pool, st, w).
        Ret (h, m\<lparr>mm_pools := (mm_pools m)[i := pool], mm_storage := st\<rparr>, w))) ?Q"
  proof (cases r)
    case (Some h)
    with r obtain s where s: "dyn_slices p1 h = Some s" "\<not> excluded_by ex (sh_id (sl_storage s))"
      and ho: "hands_out True n h (dyn_slices p) w (dyn_slices p1) w1" by auto
    from hands_out_get [OF ho] s(1) have "sh_size (sl_storage s) = n" by (metis option.inject)
    moreover have "sh_id (sl_storage s) \<in> dom (dyn_owned p)"
      using dyn.inv_sound [OF p1(1), unfolded slices_sound_def] s(1) unfolding p1(2) by blast
    moreover have "dyn_get p1 h = Some (sl_storage s)" using dyn.get_law [OF p1(1)] s(1) by simp
    ultimately show ?thesis using s(2) Some by (auto simp: serves_from_def intro!: exI [of _ p1] exI [of _ "mm_storage m"])
  next
    case None
    have acc: "dyn_accepts p1 n" using n p1(3) by (simp del: dyn_accepts_iff add: dyn_accepts_iff [of p, symmetric])
    have "on_return (dyn_alloc ops p1 (mm_storage m) n w1) (\<lambda>(h, p', st', w').
        dyn_inv w' p' \<and> (\<exists>k. allocated st' = (allocated (mm_storage m))(storage_next w1 \<mapsto> k)) \<and> hands_out True n h (dyn_slices p1) w1 (dyn_slices p') w')"
    proof (cases "ids_left w1")
      case True
      from dyn.alloc_law [OF p1(1) True acc, of "mm_storage m"] show ?thesis by (elim on_return_mono) auto
    next
      case False
      have "world_wf w1" using p1(5) by (simp add: keeps_to_itself_def world_ext_def)
      with False dyn.alloc_exhausted [of w1 p1 "mm_storage m" n] show ?thesis by (auto simp: ids_left_def elim: on_return_mono)
    qed
    then have "on_return (dyn_alloc ops p1 (mm_storage m) n w1) (\<lambda>(h, p', st', w').
        \<exists>sh. dyn_get p' h = Some sh \<and> sh_size sh = n \<and> serves_from allocated ex (dyn_owned p) w (mm_storage m) st' sh)"
    proof (elim on_return_mono, clarify)
      fix h p' st' w' k
      assume p': "dyn_inv w' p'" "allocated st' = (allocated (mm_storage m))(storage_next w1 \<mapsto> k)"
        and ho: "hands_out True n h (dyn_slices p1) w1 (dyn_slices p') w'"
      from hands_out_get [OF ho] obtain s where s: "dyn_slices p' h = Some s" "sh_size (sl_storage s) = n" by metis
      then have "dyn_get p' h = Some (sl_storage s)" using dyn.get_law [OF p'(1)] by simp
      with s(2) p'(2) p1(4) wf
      show "\<exists>sh. dyn_get p' h = Some sh \<and> sh_size sh = n \<and> serves_from allocated ex (dyn_owned p) w (mm_storage m) st' sh"
        by (auto simp: serves_from_def)
    qed
    then show ?thesis unfolding None by (fastforce elim!: on_return_mono)
  qed
qed

lemma static_reserve_serves:
  assumes inv: "mm_inv allocated w m" and ids: "ids_left w" and mode: "mm_mode m = Static"
  shows "on_return (mm_reserve ops m n ex w) (\<lambda>(h, m', w'). \<exists>sp st' sh k. m' = m\<lparr>mm_static_pool := sp, mm_storage := st'\<rparr> \<and>
    static_get sp h = Some sh \<and> n \<le> sh_size sh \<and> allocated st' = (allocated (mm_storage m))(storage_next w \<mapsto> k) \<and>
    storage_next w \<notin> dom (static_owned (mm_static_pool m)))"
proof -
  have sp: "static_inv w (mm_static_pool m)" using inv by (simp add: mm_inv_def)
  have "on_return (static_alloc ops (mm_static_pool m) (mm_storage m) n w) (\<lambda>(h, sp, st', w'). \<exists>sh k. static_get sp h = Some sh \<and>
      n \<le> sh_size sh \<and> allocated st' = (allocated (mm_storage m))(storage_next w \<mapsto> k))"
  proof (rule on_return_mono [OF static.alloc_law [OF sp ids]], simp add: static_accepts_def, clarify)
    fix h sp st' w' k
    assume sp': "static_inv w' sp" and al: "allocated st' = (allocated (mm_storage m))(storage_next w \<mapsto> k)"
      and ho: "hands_out False n h (static_slices (mm_static_pool m)) w (static_slices sp) w'"
    from hands_out_get [OF ho] obtain s where "static_slices sp h = Some s" "n \<le> sh_size (sl_storage s)" by blast
    with al static.get_law [OF sp', of h] show "\<exists>sh k. static_get sp h = Some sh \<and> n \<le> sh_size sh \<and>
        allocated st' = (allocated (mm_storage m))(storage_next w \<mapsto> k)" by auto
  qed
  then show ?thesis using owned_fresh(1) [OF inv] mode by (auto simp: mm_reserve_def elim!: on_return_mono)
qed

text \<open>\<open>cleanup\<close> leaves the live allocations alone.\<close>

lemma cleanup_pools_law:
  assumes "mm_inv allocated w m" "mm_pools m = ds @ ps"
  shows "on_return (cleanup_pools ops nr explicit ps (mm_storage m) w) (\<lambda>(ps', st, w').
    mm_inv allocated w' (m\<lparr>mm_pools := ds @ ps', mm_storage := st\<rparr>) \<and>
    mm_live (m\<lparr>mm_pools := ds @ ps', mm_storage := st\<rparr>) w' = mm_live m w \<and>
    mm_keeps m w (m\<lparr>mm_pools := ds @ ps', mm_storage := st\<rparr>) w')"
  using assms
proof (induction ps arbitrary: m w ds)
  case Nil
  then have ds: "ds = mm_pools m" by simp
  show ?case unfolding ds using Nil.prems(1) mm_inv_views(2) [OF Nil.prems(1)]
    by (simp add: mm_keeps_def keeps_to_itself_refl)
next
  case (Cons p ps)
  let ?A = "allocated (mm_storage m)" and ?V = "mm_views m" and ?j = "length ds"
  note v = mm_inv_views [OF Cons.prems(1)]
  have j: "?j < length (mm_pools m)" and nth: "mm_pools m ! ?j = p" using Cons.prems(2) by simp_all
  have ok: "family_ok w ?A ?V" and j': "Suc ?j < length ?V" and vj: "?V ! Suc ?j = (dyn_slices p, dyn_owned p)"
    using Cons.prems(1) j nth by (simp_all add: mm_inv_def)
  have "on_return (dyn_cleanup ops p (mm_storage m) nr explicit w) (\<lambda>(p', st', w').
      dyn_inv w' p' \<and> dyn_accepts p' = dyn_accepts p \<and>
      pool_step ?A w (dyn_slices p, dyn_owned p) (allocated st') w' (dyn_slices p', dyn_owned p') \<and>
      live_slices (dyn_slices p') w' = live_slices (dyn_slices p) w)"
    by (rule dyn.cleanup_step) (use v(2) v(3) [OF j] nth in simp_all)
  then have step: "on_return (dyn_cleanup ops p (mm_storage m) nr explicit w) (\<lambda>(p', st', w').
      mm_inv allocated w' (m\<lparr>mm_pools := (ds @ [p']) @ ps, mm_storage := st'\<rparr>) \<and>
      mm_live (m\<lparr>mm_pools := (ds @ [p']) @ ps, mm_storage := st'\<rparr>) w' = mm_live m w \<and>
      mm_keeps m w (m\<lparr>mm_pools := (ds @ [p']) @ ps, mm_storage := st'\<rparr>) w')"
  proof (elim on_return_mono, clarify)
    fix p' st' w'
    assume p': "dyn_inv w' p'" and st: "pool_step ?A w (dyn_slices p, dyn_owned p) (allocated st') w' (dyn_slices p', dyn_owned p')"
      and l: "live_slices (dyn_slices p') w' = live_slices (dyn_slices p) w"
    have upd: "(mm_pools m)[?j := p'] = (ds @ [p']) @ ps" using Cons.prems(2) by simp
    from mm_inv_pool_step [OF Cons.prems(1) j p', of st'] st
    have "mm_inv allocated w' (m\<lparr>mm_pools := (mm_pools m)[?j := p'], mm_storage := st'\<rparr>)" by (simp add: nth)
    moreover have "mm_live (m\<lparr>mm_pools := (mm_pools m)[?j := p']\<rparr>) w' = mm_live m w"
      using merged_live_same [OF ok j', of "allocated st'" w' "(dyn_slices p', dyn_owned p')"] st l vj
      by (simp add: mm_live_def)
    moreover have "mm_keeps m w (m\<lparr>mm_pools := (mm_pools m)[?j := p']\<rparr>) w'"
      using merged_keeps [OF ok j', of "allocated st'" w' "(dyn_slices p', dyn_owned p')"] st vj
      by (simp add: mm_keeps_def)
    ultimately show "mm_inv allocated w' (m\<lparr>mm_pools := (ds @ [p']) @ ps, mm_storage := st'\<rparr>) \<and>
      mm_live (m\<lparr>mm_pools := (ds @ [p']) @ ps, mm_storage := st'\<rparr>) w' = mm_live m w \<and>
      mm_keeps m w (m\<lparr>mm_pools := (ds @ [p']) @ ps, mm_storage := st'\<rparr>) w'"
      unfolding upd by simp
  qed
  show ?case
    unfolding cleanup_pools.simps on_return_bindE
  proof (rule on_return_mono [OF step], clarify)
    fix p' st' w'
    let ?m = "m\<lparr>mm_pools := (ds @ [p']) @ ps, mm_storage := st'\<rparr>"
    assume "mm_inv allocated w' ?m" "mm_live ?m w' = mm_live m w" and k: "mm_keeps m w ?m w'"
    with Cons.IH [of w' ?m "ds @ [p']"]
    show "on_return (bindE (cleanup_pools ops nr explicit ps st' w') (\<lambda>(ps, st, w). Ret (p' # ps, st, w)))
      (\<lambda>(ps', st, w'). mm_inv allocated w' (m\<lparr>mm_pools := ds @ ps', mm_storage := st\<rparr>) \<and>
        mm_live (m\<lparr>mm_pools := ds @ ps', mm_storage := st\<rparr>) w' = mm_live m w \<and>
    mm_keeps m w (m\<lparr>mm_pools := ds @ ps', mm_storage := st\<rparr>) w')"
      unfolding on_return_bindE by simp (elim on_return_mono, auto dest: mm_keeps_trans [OF k, simplified])
  qed
qed

lemma mm_cleanup_law:
  assumes inv: "mm_inv allocated w m"
  shows "on_return (mm_cleanup ops m explicit w) (\<lambda>(m', w'). mm_inv allocated w' m' \<and> mm_live m' w' = mm_live m w \<and> mm_keeps m w m' w')"
proof -
  let ?A = "allocated (mm_storage m)" and ?p = "mm_static_pool m" and ?V = "mm_views m"
  note v = mm_inv_views [OF inv]
  have ok: "family_ok w ?A ?V" and i': "0 < length ?V" using inv by (simp_all add: mm_inv_def)
  have "on_return (static_cleanup ops ?p (mm_storage m) nr explicit w) (\<lambda>(p', st', w').
      static_inv w' p' \<and> static_accepts p' = static_accepts ?p \<and>
      pool_step ?A w (static_slices ?p, static_owned ?p) (allocated st') w' (static_slices p', static_owned p') \<and>
      live_slices (static_slices p') w' = live_slices (static_slices ?p) w)" for nr
    by (rule static.cleanup_step) (use v(1,2) inv in \<open>simp_all add: mm_inv_def\<close>)
  then have s: "on_return (static_cleanup ops ?p (mm_storage m) nr explicit w) (\<lambda>(p', st', w').
      mm_inv allocated w' (m\<lparr>mm_static_pool := p', mm_storage := st'\<rparr>) \<and>
      mm_live (m\<lparr>mm_static_pool := p', mm_storage := st'\<rparr>) w' = mm_live m w \<and>
      mm_keeps m w (m\<lparr>mm_static_pool := p', mm_storage := st'\<rparr>) w')" for nr
    by (rule on_return_mono)
      (use merged_live_same [OF ok i'] merged_keeps [OF ok i'] in
        \<open>auto simp: mm_live_def mm_keeps_def intro!: mm_inv_static_step [OF inv]\<close>)
  show ?thesis
    unfolding mm_cleanup_def on_return_bindE
  proof (rule on_return_mono [OF s], clarify)
    fix p' st' w'
    let ?m = "m\<lparr>mm_static_pool := p', mm_storage := st'\<rparr>"
    assume "mm_inv allocated w' ?m" "mm_live ?m w' = mm_live m w" and k: "mm_keeps m w ?m w'"
    with cleanup_pools_law [of w' ?m "[]" "mm_pools m" "mm_alloc_reserve_count m" explicit]
    show "on_return (bindE (cleanup_pools ops (mm_alloc_reserve_count m) explicit (mm_pools m) st' w')
        (\<lambda>(pools, st, w). Ret (m\<lparr>mm_static_pool := p', mm_pools := pools, mm_storage := st\<rparr>, w)))
      (\<lambda>(m', w'). mm_inv allocated w' m' \<and> mm_live m' w' = mm_live m w \<and> mm_keeps m w m' w')"
      unfolding on_return_bindE by simp (elim on_return_mono, auto dest: mm_keeps_trans [OF k, simplified])
  qed
qed

text \<open>\<open>get\<close> finds the bytes of every slice some pool keeps.\<close>

lemma find_map_dyn_get:
  assumes "\<forall>p \<in> set ps. dyn_inv w p"
  shows "find_map (\<lambda>p. dyn_get p i) ps =
    map_option sl_storage (find_map (\<lambda>v. fst v i) (map (\<lambda>p. (dyn_slices p, dyn_owned p)) ps))"
  using assms by (induction ps) (auto simp: dyn.get_law split: option.splits)

lemma mm_get_law:
  assumes inv: "mm_inv allocated w m"
  shows "mm_get m i w' = (map_option sl_storage (merged (mm_views m) i), binding_drop i w')"
  using inv find_map_dyn_get [of "mm_pools m" w i] static.get_law [of w "mm_static_pool m" i]
  by (auto simp: mm_get_def merged_def mm_views_def mm_inv_def split: option.splits)

end

end
