(* ===== verification/Configuration.thy ===== *)
theory Configuration
  imports Memory_Manage
begin

text \<open>
  The presets of the memory manager: from the device properties \<open>from_configuration\<close> builds a
  manager that satisfies its invariant and has no live allocation.
\<close>

section \<open>Building the pools\<close>

text \<open>What a custom option list has to satisfy for the pools to be usable.\<close>

definition option_ok :: "nat \<Rightarrow> memory_pool_options \<Rightarrow> bool" where
  "option_ok al options \<longleftrightarrow> (case po_pool_type options of
      SlicedPages page_size max_slice \<Rightarrow> al dvd page_size \<and> 0 < page_size \<and> page_size < u64_bound \<and> max_slice \<le> page_size
    | ExclusivePages max_alloc \<Rightarrow> al dvd max_alloc)"

definition option_max :: "memory_pool_options \<Rightarrow> nat" where
  "option_max options = (case po_pool_type options of SlicedPages _ m \<Rightarrow> m | ExclusivePages m \<Rightarrow> m)"

definition new_pool :: "world \<Rightarrow> memory_pool_options \<Rightarrow> dynamic_pool \<Rightarrow> bool" where
  "new_pool w options p \<longleftrightarrow> dyn_inv w p \<and> dyn_slices p = Map.empty \<and> dyn_owned p = Map.empty \<and>
     dyn_max_alloc_size p = option_max options"

lemma pool_of_options_returns:
  assumes "0 < al" "option_ok al options"
  shows "returns (pool_of_options al options) (new_pool w options)"
proof (cases "po_pool_type options")
  case (SlicedPages ps m)
  with sliced_new_inv [of al ps m w] assms show ?thesis
    by (simp add: pool_of_options_def option_ok_def option_max_def)
      (elim returns_mono, auto simp: new_pool_def option_max_def)
next
  case (ExclusivePages m)
  define d where "d = (case po_dealloc_period options of Some d \<Rightarrow> d | None \<Rightarrow> u64_bound - 1)"
  from exclusive_new_inv [of al m d w] ExclusivePages assms
  have "returns (exclusive_new m al d) (\<lambda>p. exclusive_inv w p \<and> exclusive_slices p = Map.empty \<and>
      exclusive_owned p = Map.empty \<and> xp_max_alloc_size p = m)"
    by (auto simp: exclusive_new_def option_ok_def)
  then show ?thesis
    unfolding pool_of_options_def ExclusivePages pool_type.case d_def [symmetric] returns_bindE
    by (elim returns_mono) (auto simp: new_pool_def option_max_def ExclusivePages)
qed

text \<open>A manager whose pools are all new.\<close>

lemma new_manager:
  assumes wf: "world_wf w" and ps: "list_all2 (new_pool w) options (mm_pools m)" and sp: "mm_static_pool m = static_new d"
  shows "mm_inv allocated w m" "mm_live m w = Map.empty"
proof -
  have p: "new_pool w (options ! i) (mm_pools m ! i)" if "i < length (mm_pools m)" for i
    using ps that by (simp add: list_all2_conv_all_nth)
  have v: "mm_views m ! i = (Map.empty, Map.empty)" if "i < length (mm_views m)" for i
    using that p by (cases i) (auto simp: sp static_new_inv new_pool_def)
  then have "slices_sound w (fst u) (snd u) \<and> snd u \<subseteq>\<^sub>m A" if "u \<in> set (mm_views m)" for u A
    using that by (auto simp: in_set_conv_nth slices_sound_def)
  then have ok: "family_ok w (allocated (mm_storage m)) (mm_views m)"
    using v wf by (simp add: family_ok_def views_disjoint_def)
  then show "mm_inv allocated w m"
    using p by (auto simp: mm_inv_def sp static_new_inv in_set_conv_nth new_pool_def)
  have "merged (mm_views m) k = None" for k
    using ok v by (intro merged_None) (auto simp: family_ok_def)
  then show "mm_live m w = Map.empty" by (simp add: mm_live_def live_slices_def fun_eq_iff)
qed

text \<open>A manager built from options that are all usable.\<close>

definition built :: "('s \<Rightarrow> storage_id \<Rightarrow> nat option) \<Rightarrow> world \<Rightarrow> memory_pool_options list \<Rightarrow> 's \<Rightarrow> 's memory_management \<Rightarrow> bool" where
  "built allocated w options st m \<longleftrightarrow> mm_inv allocated w m \<and> mm_live m w = Map.empty \<and> mm_mode m = Auto \<and>
     mm_storage m = st \<and> map dyn_max_alloc_size (mm_pools m) = map option_max options"

lemma build_returns:
  assumes "0 < al" "world_wf w" "\<forall>opt \<in> set options. option_ok al opt"
  shows "returns (bindE (mapE (pool_of_options al) options) (\<lambda>pools.
      Ret \<lparr>mm_static_pool = static_new d, mm_pools = pools, mm_storage = st, mm_alloc_reserve_count = 0, mm_mode = Auto\<rparr>))
    (built allocated w options st)"
proof -
  have "returns (mapE (pool_of_options al) options) (list_all2 (new_pool w) options)"
    using assms by (intro mapE_returns pool_of_options_returns) auto
  then show ?thesis
    unfolding returns_bindE
  proof (rule returns_mono)
    fix pools assume l: "list_all2 (new_pool w) options pools"
    then have "map dyn_max_alloc_size pools = map option_max options"
      by (auto simp: list_all2_conv_all_nth new_pool_def intro!: nth_equalityI)
    moreover
    let ?m = "\<lparr>mm_static_pool = static_new d, mm_pools = pools, mm_storage = st, mm_alloc_reserve_count = 0, mm_mode = Auto\<rparr>"
    have "mm_inv allocated w ?m" "mm_live ?m w = Map.empty"
      by (rule new_manager [OF assms(2), of options], use l in simp_all)+
    ultimately show "returns (Ret ?m) (built allocated w options st)" by (simp add: built_def)
  qed
qed

lemma from_configuration_custom:
  assumes "0 < mdp_alignment props" "world_wf w" "\<forall>opt \<in> set options. option_ok (mdp_alignment props) opt"
  shows "returns (from_configuration f64_ln f64_exp st props (Custom options)) (built allocated w options st)"
  using build_returns [OF assms] by (simp add: from_configuration_def)

section \<open>The sub-slices preset\<close>

definition sub_slices_inv :: "nat \<Rightarrow> nat \<times> nat list \<times> nat list \<times> nat \<Rightarrow> bool" where
  "sub_slices_inv al = (\<lambda>(current, max_sizes, page_sizes, base).
     current < u64_bound \<and> current * 2 ^ base < 2 ^ 65 \<and>
     list_all2 (\<lambda>m ps. al dvd ps \<and> 0 < ps \<and> ps < u64_bound \<and> m \<le> ps) max_sizes page_sizes)"

lemma halves:
  fixes c al :: nat
  assumes "0 < al" "al \<le> 8 * megabyte" "32 * megabyte \<le> c"
  shows "2 * round_up (c div 4) al \<le> c" "0 < round_up (c div 4) al"
proof -
  show "2 * round_up (c div 4) al \<le> c"
    using round_up_less [OF assms(1), of "c div 4"] assms by (simp add: megabyte_def)
  have "0 < c div 4" using assms by (simp add: megabyte_def)
  then show "0 < round_up (c div 4) al" using round_up_ge [of "c div 4" al] by linarith
qed

lemma sub_slices_base:
  assumes "32 * megabyte \<le> c" "c * 2 ^ base < 2 ^ 65"
  shows "base < 40"
proof (rule ccontr)
  assume "\<not> base < 40"
  then have "(2 :: nat) ^ 40 \<le> 2 ^ base" by (intro power_increasing) auto
  then have "(32 * megabyte) * 2 ^ 40 \<le> c * 2 ^ base" using assms(1) by (intro mult_mono) auto
  with assms(2) show False by (simp add: megabyte_def)
qed

lemma sub_slices_body_returns:
  assumes al: "0 < al" "al \<le> 8 * megabyte" and inv: "sub_slices_inv al s"
  shows "returns (sub_slices_body al s) (\<lambda>x. case x of
      Inl s' \<Rightarrow> sub_slices_inv al s' \<and> fst s' < fst s
    | Inr (max_sizes, page_sizes) \<Rightarrow>
        list_all2 (\<lambda>m ps. al dvd ps \<and> 0 < ps \<and> ps < u64_bound \<and> m \<le> ps) max_sizes page_sizes)"
proof -
  obtain c ms ps base where s: "s = (c, ms, ps, base)" by (cases s)
  show ?thesis
  proof (cases "32 * megabyte \<le> c")
    case True
    let ?c = "round_up (c div 4) al"
    note h = halves [OF al True]
    have c: "c < u64_bound" "c * 2 ^ base < 2 ^ 65" using inv by (simp_all add: sub_slices_inv_def s)
    have b: "base < 40" by (rule sub_slices_base [OF True c(2)])
    then have "(2 :: nat) ^ base \<le> 2 ^ 40" by (intro power_increasing) auto
    then have p: "(2 :: nat) ^ base < u64_bound" by simp
    have "?c * 2 ^ Suc base \<le> c * 2 ^ base" using h(1) by simp
    then have "?c * 2 ^ Suc base < 2 ^ 65" using c(2) by linarith
    moreover have "?c < u64_bound" "?c < c" using h c by linarith+
    ultimately show ?thesis
      using True al h(2) p b inv
      by (simp add: sub_slices_body_def s Let_def sub_slices_inv_def list_all2_appendI mult.commute)
  next
    case False
    then show ?thesis using inv by (simp add: sub_slices_body_def s sub_slices_inv_def)
  qed
qed

lemma sub_slices_options_returns:
  assumes al: "0 < mdp_alignment props" "mdp_alignment props \<le> 8 * megabyte" "mdp_alignment props \<le> mdp_max_page_size props"
    and page: "mdp_max_page_size props < u64_bound"
  shows "returns (sub_slices_options props) (\<lambda>options. (\<forall>opt \<in> set options. option_ok (mdp_alignment props) opt) \<and>
    options \<noteq> [] \<and> option_max (last options) = mdp_max_page_size props div mdp_alignment props * mdp_alignment props)"
proof -
  let ?al = "mdp_alignment props" and ?page = "mdp_max_page_size props"
  let ?fit = "\<lambda>(m :: nat) ps. ?al dvd ps \<and> 0 < ps \<and> ps < u64_bound \<and> m \<le> ps"
  have "sub_slices_inv ?al (?page, [], [], 1)" using page by (simp add: sub_slices_inv_def)
  then have loop: "returns (loop (sub_slices_body ?al) (?page, [], [], 1))
      (\<lambda>(max_sizes, page_sizes). list_all2 ?fit max_sizes page_sizes)"
    by (rule loop_returns [where m = fst]) (rule sub_slices_body_returns [OF al(1,2)])
  have last: "?page div ?al * ?al \<le> ?page" "0 < ?page div ?al * ?al" "?al dvd ?page div ?al * ?al"
    using al by (simp_all add: div_times_less_eq_dividend div_greater_zero_iff)
  then have lt: "?page div ?al * ?al < u64_bound" using page by linarith
  have fit: "option_ok ?al \<lparr>po_pool_type = SlicedPages (rev ps ! i) (rev ms ! i), po_dealloc_period = None\<rparr>"
    if "list_all2 ?fit ms ps" "i < length ms" for ms ps i
    using that list_all2_nthD [of ?fit "rev ms" "rev ps" i]
    by (simp add: option_ok_def list_all2_rev)
  show ?thesis
    using loop lt last
    unfolding sub_slices_options_def Let_def returns_bindE
    by (simp, elim returns_mono) (auto simp: option_ok_def [of _ "\<lparr>po_pool_type = ExclusivePages 0, po_dealloc_period = d\<rparr>" for d]
      option_ok_def [of _ "\<lparr>po_pool_type = SlicedPages x x, po_dealloc_period = d\<rparr>" for x d] option_max_def intro!: fit)
qed

lemma from_configuration_sub_slices:
  assumes "0 < mdp_alignment props" "mdp_alignment props \<le> 8 * megabyte" "mdp_alignment props \<le> mdp_max_page_size props"
    and "mdp_max_page_size props < u64_bound" "world_wf w"
  shows "returns (from_configuration f64_ln f64_exp st props SubSlices) (\<lambda>m.
    mm_inv allocated w m \<and> mm_live m w = Map.empty \<and>
    (\<forall>n \<le> mdp_max_page_size props div mdp_alignment props * mdp_alignment props.
       \<exists>p \<in> set (mm_pools m). n \<le> dyn_max_alloc_size p))"
  unfolding from_configuration_def memory_configuration.case returns_bindE [of "sub_slices_options props"]
proof (rule returns_mono [OF sub_slices_options_returns [OF assms(1-4)]], elim conjE)
  fix options
  assume ok: "\<forall>opt \<in> set options. option_ok (mdp_alignment props) opt" and ne: "options \<noteq> []"
    and mx: "option_max (last options) = mdp_max_page_size props div mdp_alignment props * mdp_alignment props"
  from build_returns [OF assms(1,5) ok, of "mdp_max_page_size props" st allocated]
  show "returns (bindE (mapE (pool_of_options (mdp_alignment props)) options) (\<lambda>pools.
      Ret \<lparr>mm_static_pool = static_new (mdp_max_page_size props), mm_pools = pools, mm_storage = st,
        mm_alloc_reserve_count = 0, mm_mode = Auto\<rparr>))
    (\<lambda>m. mm_inv allocated w m \<and> mm_live m w = Map.empty \<and>
      (\<forall>n \<le> mdp_max_page_size props div mdp_alignment props * mdp_alignment props.
        \<exists>p \<in> set (mm_pools m). n \<le> dyn_max_alloc_size p))"
  proof (rule returns_mono)
    fix m assume b: "built allocated w options st m"
    then have "option_max (last options) \<in> set (map dyn_max_alloc_size (mm_pools m))"
      using ne by (simp add: built_def)
    then obtain p where "p \<in> set (mm_pools m)" "dyn_max_alloc_size p = option_max (last options)" by auto
    then show "mm_inv allocated w m \<and> mm_live m w = Map.empty \<and>
      (\<forall>n \<le> mdp_max_page_size props div mdp_alignment props * mdp_alignment props.
        \<exists>p \<in> set (mm_pools m). n \<le> dyn_max_alloc_size p)"
      using b unfolding mx by (auto simp: built_def intro!: bexI [of _ p])
  qed
qed

section \<open>The exclusive-pages preset\<close>

text \<open>Whatever \<open>ln\<close> and \<open>exp\<close> return, the bucket sizes are multiples of the alignment without
  neighbouring duplicates, and there is at least one.\<close>

lemma generate_bucket_sizes_ok:
  assumes "0 < buckets"
  shows "on_return (generate_bucket_sizes f64_ln f64_exp a b buckets al) (\<lambda>sizes.
    sizes \<noteq> [] \<and> length sizes \<le> buckets \<and> (\<forall>s \<in> set sizes. al dvd s) \<and> distinct_adj sizes)"
proof -
  have "on_return (mapE (\<lambda>i. bindE (sub_u64 buckets 1) (\<lambda>last.
      let p = f64_div (f64_of_nat i) (f64_of_nat last);
          log_size = f64_add (f64_ln (f64_of_nat a)) (f64_mul (f64_sub (f64_ln (f64_of_nat b)) (f64_ln (f64_of_nat a))) p);
          size = f64_to_u64 (f64_exp log_size)
      in next_multiple_of_u64 size al)) [0..<buckets])
    (\<lambda>ys. length ys = length [0..<buckets] \<and> (\<forall>y \<in> set ys. al dvd y))"
    by (rule mapE_on_return) (simp add: Let_def)
  then show ?thesis
    using assms unfolding generate_bucket_sizes_def Let_def on_return_bindE
    by (elim on_return_mono) (use remdups_adj_length in \<open>auto simp: distinct_adj_remdups_adj\<close>)
qed

lemma from_configuration_exclusive:
  assumes "0 < mdp_alignment props" "world_wf w"
  shows "on_return (from_configuration f64_ln f64_exp st props ExclusivePagesPreset) (\<lambda>m.
    mm_inv allocated w m \<and> mm_live m w = Map.empty \<and> mm_pools m \<noteq> [])"
proof -
  have "on_return (exclusive_options f64_ln f64_exp props)
      (\<lambda>options. options \<noteq> [] \<and> (\<forall>opt \<in> set options. option_ok (mdp_alignment props) opt))"
    using generate_bucket_sizes_ok [of 24 f64_ln f64_exp "1024 * 32" "mdp_max_page_size props" "mdp_alignment props"]
    unfolding exclusive_options_def on_return_bindE
    by (simp, elim on_return_mono) (auto simp: option_ok_def Let_def)
  then show ?thesis
    unfolding from_configuration_def memory_configuration.case on_return_bindE [of "exclusive_options f64_ln f64_exp props"]
  proof (rule on_return_mono, elim conjE)
    fix options
    assume ne: "options \<noteq> []" and ok: "\<forall>opt \<in> set options. option_ok (mdp_alignment props) opt"
    from build_returns [OF assms ok, of "mdp_max_page_size props" st allocated]
    show "on_return (bindE (mapE (pool_of_options (mdp_alignment props)) options) (\<lambda>pools.
        Ret \<lparr>mm_static_pool = static_new (mdp_max_page_size props), mm_pools = pools, mm_storage = st,
          mm_alloc_reserve_count = 0, mm_mode = Auto\<rparr>))
      (\<lambda>m. mm_inv allocated w m \<and> mm_live m w = Map.empty \<and> mm_pools m \<noteq> [])"
      using ne by (intro returns_on_return) (elim returns_mono, auto simp: built_def)
  qed
qed

end
