(* ===== verification/Client.thy ===== *)
theory Client
  imports Configuration "HOL-Library.Multiset"
begin

text \<open>
  The memory manager together with the code that holds its handles, as a step relation: the state is
  the manager, the reference counters and the multisets of handles and bindings held outside. Every
  public operation of the manager and of a handle is a step. The reachable states satisfy
  \<open>sys_inv\<close>: exactly the held slices are live, with the counters the held handles and bindings add up
  to.
\<close>

record 's system =
  sy_mm :: "'s memory_management"
  sy_world :: world
  sy_handles :: "slice_id multiset"
  sy_bindings :: "slice_id multiset"

text \<open>The step of an operation; \<open>reserve\<close> is taken while slice ids are left (there are \<open>2^64 - 1\<close>).\<close>

inductive step :: "('s, 'r) compute_storage_ops \<Rightarrow> 's system \<Rightarrow> 's system \<Rightarrow> bool" for ops where
  reserve: "ids_left w \<Longrightarrow> mm_reserve ops m n ex w = Ret (h, m', w') \<Longrightarrow>
    step ops \<lparr>sy_mm = m, sy_world = w, sy_handles = H, sy_bindings = B\<rparr>
      \<lparr>sy_mm = m', sy_world = w', sy_handles = add_mset h H, sy_bindings = B\<rparr>"
| cleanup: "mm_cleanup ops m explicit w = Ret (m', w') \<Longrightarrow>
    step ops \<lparr>sy_mm = m, sy_world = w, sy_handles = H, sy_bindings = B\<rparr>
      \<lparr>sy_mm = m', sy_world = w', sy_handles = H, sy_bindings = B\<rparr>"
| mode: "step ops \<lparr>sy_mm = m, sy_world = w, sy_handles = H, sy_bindings = B\<rparr>
      \<lparr>sy_mm = set_mode m d, sy_world = w, sy_handles = H, sy_bindings = B\<rparr>"
| get: "b \<in># B \<Longrightarrow> mm_get m b w = (r, w') \<Longrightarrow>
    step ops \<lparr>sy_mm = m, sy_world = w, sy_handles = H, sy_bindings = B\<rparr>
      \<lparr>sy_mm = m, sy_world = w', sy_handles = H, sy_bindings = B - {#b#}\<rparr>"
| get_resource: "b \<in># B \<Longrightarrow> mm_get_resource ops m b os oe w = Ret (r, m', w') \<Longrightarrow>
    step ops \<lparr>sy_mm = m, sy_world = w, sy_handles = H, sy_bindings = B\<rparr>
      \<lparr>sy_mm = m', sy_world = w', sy_handles = H, sy_bindings = B - {#b#}\<rparr>"
| clone_handle: "h \<in># H \<Longrightarrow>
    step ops \<lparr>sy_mm = m, sy_world = w, sy_handles = H, sy_bindings = B\<rparr>
      \<lparr>sy_mm = m, sy_world = handle_clone h w, sy_handles = add_mset h H, sy_bindings = B\<rparr>"
| drop_handle: "h \<in># H \<Longrightarrow>
    step ops \<lparr>sy_mm = m, sy_world = w, sy_handles = H, sy_bindings = B\<rparr>
      \<lparr>sy_mm = m, sy_world = handle_drop h w, sy_handles = H - {#h#}, sy_bindings = B\<rparr>"
| bind: "h \<in># H \<Longrightarrow>
    step ops \<lparr>sy_mm = m, sy_world = w, sy_handles = H, sy_bindings = B\<rparr>
      \<lparr>sy_mm = m, sy_world = handle_binding h w, sy_handles = H - {#h#}, sy_bindings = add_mset h B\<rparr>"
| clone_binding: "b \<in># B \<Longrightarrow>
    step ops \<lparr>sy_mm = m, sy_world = w, sy_handles = H, sy_bindings = B\<rparr>
      \<lparr>sy_mm = m, sy_world = binding_clone b w, sy_handles = H, sy_bindings = add_mset b B\<rparr>"
| drop_binding: "b \<in># B \<Longrightarrow>
    step ops \<lparr>sy_mm = m, sy_world = w, sy_handles = H, sy_bindings = B\<rparr>
      \<lparr>sy_mm = m, sy_world = binding_drop b w, sy_handles = H, sy_bindings = B - {#b#}\<rparr>"

inductive reachable :: "('s, 'r) compute_storage_ops \<Rightarrow> 's system \<Rightarrow> 's system \<Rightarrow> bool" for ops s where
  start: "reachable ops s s"
| next_step: "reachable ops s t \<Longrightarrow> step ops t u \<Longrightarrow> reachable ops s u"

section \<open>The invariant\<close>

definition held :: "'s system \<Rightarrow> slice_id \<Rightarrow> bool" where
  "held s i \<longleftrightarrow> i \<in># sy_handles s + sy_bindings s"

definition counted :: "world \<Rightarrow> slice_id multiset \<Rightarrow> slice_id multiset \<Rightarrow> slice_id \<Rightarrow> bool" where
  "counted w H B i \<longleftrightarrow> id_rc w i = 1 + count H i \<and> all_rc w i = 1 + count H i + count B i"

definition sys_inv :: "('s \<Rightarrow> storage_id \<Rightarrow> nat option) \<Rightarrow> 's system \<Rightarrow> bool" where
  "sys_inv allocated s \<longleftrightarrow> mm_inv allocated (sy_world s) (sy_mm s) \<and>
     (\<forall>i. if i \<in># sy_handles s + sy_bindings s
          then mm_live (sy_mm s) (sy_world s) i \<noteq> None \<and> counted (sy_world s) (sy_handles s) (sy_bindings s) i
          else mm_live (sy_mm s) (sy_world s) i = None)"

lemma sys_inv_make [simp]:
  "sys_inv al \<lparr>sy_mm = m, sy_world = w, sy_handles = H, sy_bindings = B\<rparr> \<longleftrightarrow> mm_inv al w m \<and>
     (\<forall>i. if i \<in># H + B then mm_live m w i \<noteq> None \<and> counted w H B i else mm_live m w i = None)"
  by (simp add: sys_inv_def)

text \<open>The counters of live slices do not change in a step of the manager.\<close>

lemma mm_keeps_live:
  assumes "mm_keeps m w m' w'" "mm_live m w i = Some h" "family_ok w A (mm_views m)"
  shows "id_rc w' i = id_rc w i \<and> all_rc w' i = all_rc w i"
proof -
  have i: "\<not> handle_is_free w i" "i \<in> dom (merged (mm_views m))"
    using assms(2) by (auto simp: mm_live_def live_slices_Some)
  from i(2) obtain j where j: "j < length (mm_views m)" "i \<in> dom (fst (mm_views m ! j))"
    using dom_merged [of "mm_views m"] assms(3) by (auto simp: family_ok_def)
  from view_sound [OF assms(3) j(1)] j(2) have "i < slice_next w" by (auto simp: slices_sound_def)
  with i assms(1) show ?thesis
    by (auto simp: mm_keeps_def keeps_to_itself_def world_ext_def)
qed

context compute_storage
begin

lemma mm_inv_world:
  assumes inv: "mm_inv allocated w m" and w': "slice_next w' = slice_next w" "storage_next w' = storage_next w"
    and cts: "\<And>i. i \<in> dom (merged (mm_views m)) \<Longrightarrow> counts_ok w' i"
  shows "mm_inv allocated w' m"
proof -
  let ?V = "mm_views m"
  have ok: "family_ok w (allocated (mm_storage m)) ?V" using inv by (simp add: mm_inv_def)
  have dV: "views_disjoint ?V" using ok by (simp add: family_ok_def)
  have cts': "counts_ok w' k" if "i < length ?V" "k \<in> dom (fst (?V ! i))" for i k
    using that cts dom_merged [OF dV] by blast
  have "slices_sound w' (fst v) (snd v) \<and> snd v \<subseteq>\<^sub>m allocated (mm_storage m)" if v: "v \<in> set ?V" for v
  proof -
    from v obtain i where i: "i < length ?V" "v = ?V ! i" by (metis in_set_conv_nth)
    show ?thesis
      using view_sound [OF ok i(1)] cts' [OF i(1)] w' i(2) slices_sound_world [of w "fst v" "snd v" w'] by auto
  qed
  then have "family_ok w' (allocated (mm_storage m)) ?V"
    using ok w' by (simp add: family_ok_def world_wf_def)
  moreover have "static_inv w' (mm_static_pool m)"
    by (rule static.inv_world [where w = w]) (use inv w' cts' [of 0] in \<open>auto simp: mm_inv_def\<close>)
  moreover have "dyn_inv w' (mm_pools m ! i)" if i: "i < length (mm_pools m)" for i
    by (rule dyn.inv_world [where w = w]) (use inv w' cts' [of "Suc i"] i in \<open>auto simp: mm_inv_def\<close>)
  then have "\<forall>p \<in> set (mm_pools m). dyn_inv w' p" by (metis in_set_conv_nth)
  ultimately show ?thesis by (simp add: mm_inv_def)
qed

text \<open>A step of the client: counters of held slices only, in agreement with what is held.\<close>

lemma sys_inv_client:
  assumes sys: "sys_inv allocated \<lparr>sy_mm = m, sy_world = w, sy_handles = H, sy_bindings = B\<rparr>"
    and w': "slice_next w' = slice_next w" "storage_next w' = storage_next w"
    and held_counts: "\<And>i. i \<in># H + B \<Longrightarrow> counted w H B i \<Longrightarrow> counted w' H' B' i"
    and was_free: "\<And>i. i \<notin># H + B \<Longrightarrow> i \<notin># H' + B' \<and> id_rc w' i = id_rc w i \<and> all_rc w' i = all_rc w i"
  shows "sys_inv allocated \<lparr>sy_mm = m, sy_world = w', sy_handles = H', sy_bindings = B'\<rparr>"
proof -
  have inv: "mm_inv allocated w m"
      "\<And>i. if i \<in># H + B then mm_live m w i \<noteq> None \<and> counted w H B i else mm_live m w i = None"
    using sys by simp_all
  have was_held: "counted w' H' B' i" if "i \<in># H + B" for i
    using held_counts [OF that] inv(2) [of i] that by simp
  have ok: "family_ok w (allocated (mm_storage m)) (mm_views m)" using inv by (simp add: mm_inv_def)
  have cts: "counts_ok w' i" if i: "i \<in> dom (merged (mm_views m))" for i
  proof (cases "i \<in># H + B")
    case True
    then show ?thesis using was_held [of i] by (simp add: counts_ok_def counted_def)
  next
    case False
    from i obtain j where "j < length (mm_views m)" "i \<in> dom (fst (mm_views m ! j))"
      using dom_merged [of "mm_views m"] ok by (auto simp: family_ok_def)
    with view_sound [OF ok, of j] have "counts_ok w i" by (auto simp: slices_sound_def)
    then show ?thesis using was_free [OF False] by (simp add: counts_ok_def)
  qed
  have "if i \<in># H' + B' then mm_live m w' i \<noteq> None \<and> counted w' H' B' i else mm_live m w' i = None" for i
  proof (cases "i \<in># H + B")
    case True
    then have "merged (mm_views m) i \<noteq> None" "counted w' H' B' i"
      using inv(2) [of i] was_held by (auto simp: mm_live_def live_slices_def split: if_splits)
    moreover have "i \<in># H' + B' \<longleftrightarrow> 1 < all_rc w' i"
      using was_held [OF True] by (auto simp: counted_def)
    ultimately show ?thesis by (auto simp: mm_live_def live_slices_def handle_is_free_def)
  next
    case False
    then show ?thesis
      using inv(2) [of i] was_free [OF False] by (auto simp: mm_live_def live_slices_def handle_is_free_def)
  qed
  then show ?thesis using mm_inv_world [OF inv(1) w' cts] by simp
qed

lemma sys_inv_reserve:
  assumes inv: "sys_inv allocated \<lparr>sy_mm = m, sy_world = w, sy_handles = H, sy_bindings = B\<rparr>"
    and r: "ids_left w" "mm_reserve ops m n ex w = Ret (h, m', w')"
  shows "sys_inv allocated \<lparr>sy_mm = m', sy_world = w', sy_handles = add_mset h H, sy_bindings = B\<rparr>"
proof -
  have i: "mm_inv allocated w m" and ok: "family_ok w (allocated (mm_storage m)) (mm_views m)"
    and s: "\<And>i. if i \<in># H + B then mm_live m w i \<noteq> None \<and> counted w H B i else mm_live m w i = None"
    using inv by (simp_all add: mm_inv_def)
  from mm_reserve_law [OF i r(1), of n ex] r(2)
  have i': "mm_inv allocated w' m'" and k: "mm_keeps m w m' w'"
    and ho: "hands_out (mm_mode m = Auto) n h (merged (mm_views m)) w (merged (mm_views m')) w'" by auto
  from ho obtain sh where sh: "mm_live m' w' = (mm_live m w)(h \<mapsto> sh)" "mm_live m w h = None"
    "id_rc w' h = 2" "all_rc w' h = 2"
    by (auto simp: hands_out_def mm_live_def)
  have h: "h \<notin># H + B" using s [of h] sh(2) by (auto split: if_splits)
  then have c: "count H h = 0" "count B h = 0" by (auto simp: count_eq_zero_iff)
  have "if j \<in># add_mset h H + B then mm_live m' w' j \<noteq> None \<and> counted w' (add_mset h H) B j else mm_live m' w' j = None" for j
  proof (cases "j = h")
    case True
    then show ?thesis using sh c by (simp add: counted_def)
  next
    case False
    have "id_rc w' j = id_rc w j \<and> all_rc w' j = all_rc w j" if "mm_live m w j \<noteq> None"
      using that mm_keeps_live [OF k _ ok] by auto
    then show ?thesis using s [of j] False sh(1) by (auto simp: counted_def)
  qed
  then show ?thesis using i' by simp
qed

lemma sys_inv_cleanup:
  assumes inv: "sys_inv allocated \<lparr>sy_mm = m, sy_world = w, sy_handles = H, sy_bindings = B\<rparr>"
    and r: "mm_cleanup ops m explicit w = Ret (m', w')"
  shows "sys_inv allocated \<lparr>sy_mm = m', sy_world = w', sy_handles = H, sy_bindings = B\<rparr>"
proof -
  have i: "mm_inv allocated w m" and ok: "family_ok w (allocated (mm_storage m)) (mm_views m)"
    and s: "\<And>i. if i \<in># H + B then mm_live m w i \<noteq> None \<and> counted w H B i else mm_live m w i = None"
    using inv by (simp_all add: mm_inv_def)
  from mm_cleanup_law [OF i, of explicit] r
  have i': "mm_inv allocated w' m'" and l: "mm_live m' w' = mm_live m w" and k: "mm_keeps m w m' w'" by auto
  have "id_rc w' j = id_rc w j \<and> all_rc w' j = all_rc w j" if "mm_live m w j \<noteq> None" for j
    using that mm_keeps_live [OF k _ ok] by auto
  then have "if j \<in># H + B then mm_live m' w' j \<noteq> None \<and> counted w' H B j else mm_live m' w' j = None" for j
    using s [of j] l by (auto simp: counted_def)
  then show ?thesis using i' by simp
qed

lemma mm_get_resource_eq:
  assumes "mm_inv allocated w m" "mm_get_resource ops m b os oe w = Ret (r, m', w')"
  shows "w' = binding_drop b w \<and> mm_views m' = mm_views m \<and> mm_inv allocated w m'"
proof -
  have "allocated st' = allocated st" if "cs_get ops st h = Ret (x, st')" for st h x st'
    using get_law [of st h] that by simp
  then have w': "w' = binding_drop b w" and m': "m' = m\<lparr>mm_storage := mm_storage m'\<rparr>"
    and al: "allocated (mm_storage m') = allocated (mm_storage m)"
    using assms mm_get_law [OF assms(1), of b w]
    by (auto simp: mm_get_resource_def bindE_eq_Ret split: option.splits prod.splits)
  have "mm_views m' = mm_views m" "mm_static_pool m' = mm_static_pool m" "mm_pools m' = mm_pools m"
    by (subst m', simp)+
  then show ?thesis using assms(1) w' al by (simp add: mm_inv_def)
qed

lemma sys_inv_drop_binding:
  assumes inv: "sys_inv allocated \<lparr>sy_mm = m, sy_world = w, sy_handles = H, sy_bindings = B\<rparr>" and b: "b \<in># B"
  shows "sys_inv allocated \<lparr>sy_mm = m, sy_world = binding_drop b w, sy_handles = H, sy_bindings = B - {#b#}\<rparr>"
proof (rule sys_inv_client [OF inv])
  fix i assume "i \<notin># H + B"
  then show "i \<notin># H + (B - {#b#}) \<and> id_rc (binding_drop b w) i = id_rc w i \<and> all_rc (binding_drop b w) i = all_rc w i"
    using b by (auto simp: binding_drop_def dest: in_diffD)
next
  fix i assume "counted w H B i"
  moreover have "0 < count B b" using b by simp
  ultimately show "counted (binding_drop b w) H (B - {#b#}) i"
    by (auto simp: counted_def binding_drop_def)
qed (simp_all add: binding_drop_def)

lemma sys_inv_step:
  assumes "step ops s t" "sys_inv allocated s"
  shows "sys_inv allocated t"
  using assms
proof (induction rule: step.induct)
  case (reserve w m n ex h m' w' H B)
  then show ?case by (rule sys_inv_reserve [rotated])
next
  case (cleanup m explicit w m' w' H B)
  then show ?case by (rule sys_inv_cleanup [rotated])
next
  case (mode m w H B d)
  then show ?case by (simp add: set_mode_def)
next
  case (get b B m w r w' H)
  then have "w' = binding_drop b w" using mm_get_law [of w m b w] by simp
  then show ?case using sys_inv_drop_binding [OF get(3,1)] by simp
next
  case (get_resource b B m os oe w r m' w' H)
  then have eq: "w' = binding_drop b w" "mm_views m' = mm_views m" "mm_inv allocated w m'"
    using mm_get_resource_eq [of w m b os oe r m' w'] by auto
  have "mm_live m' = mm_live m" by (simp add: mm_live_def eq(2) fun_eq_iff)
  with get_resource(3) eq(3) have "sys_inv allocated \<lparr>sy_mm = m', sy_world = w, sy_handles = H, sy_bindings = B\<rparr>"
    by simp
  from sys_inv_drop_binding [OF this get_resource(1)] show ?case by (simp add: eq(1))
next
  case (clone_handle h H m w B)
  show ?case by (rule sys_inv_client [OF clone_handle(2)]) (use clone_handle(1) in \<open>auto simp: counted_def\<close>)
next
  case (drop_handle h H m w B)
  have "0 < count H h" using drop_handle(1) by simp
  then show ?case
    by (intro sys_inv_client [OF drop_handle(2)])
      (use drop_handle(1) in \<open>auto simp: counted_def handle_drop_def dest: in_diffD\<close>)
next
  case (bind h H m w B)
  have "0 < count H h" using bind(1) by simp
  then show ?case
    by (intro sys_inv_client [OF bind(2)])
      (use bind(1) in \<open>auto simp: counted_def handle_binding_def dest: in_diffD\<close>)
next
  case (clone_binding b B m w H)
  show ?case
    by (rule sys_inv_client [OF clone_binding(2)]) (use clone_binding(1) in \<open>auto simp: counted_def binding_clone_def\<close>)
next
  case (drop_binding b B m w H)
  then show ?case by (intro sys_inv_drop_binding)
qed

lemma sys_inv_reachable: "reachable ops s t \<Longrightarrow> sys_inv allocated s \<Longrightarrow> sys_inv allocated t"
  by (induction rule: reachable.induct) (auto intro: sys_inv_step)

text \<open>What a holder may rely on.\<close>

lemma held_live:
  assumes inv: "sys_inv allocated s" and i: "held s i"
  obtains h n where "mm_get (sy_mm s) i (sy_world s) = (Some h, binding_drop i (sy_world s))"
    "mm_live (sy_mm s) (sy_world s) i = Some h"
    "allocated (mm_storage (sy_mm s)) (sh_id h) = Some n" "sh_offset h + sh_size h \<le> n"
proof -
  have m: "mm_inv allocated (sy_world s) (sy_mm s)"
    and ok: "family_ok (sy_world s) (allocated (mm_storage (sy_mm s))) (mm_views (sy_mm s))"
    using inv by (simp_all add: sys_inv_def mm_inv_def)
  from inv i obtain h where h: "mm_live (sy_mm s) (sy_world s) i = Some h"
    by (auto simp: sys_inv_def held_def split: if_splits)
  from family_live_allocated(1) [OF ok h [unfolded mm_live_def]] obtain n where
    n: "allocated (mm_storage (sy_mm s)) (sh_id h) = Some n" "sh_offset h + sh_size h \<le> n" by blast
  have "mm_get (sy_mm s) i (sy_world s) = (Some h, binding_drop i (sy_world s))"
    using mm_get_law [OF m, of i] h by (auto simp: mm_live_def live_slices_Some)
  then show ?thesis using that h n by blast
qed

lemma held_disjoint:
  assumes inv: "sys_inv allocated s" and "mm_live (sy_mm s) (sy_world s) i = Some h"
    "mm_live (sy_mm s) (sy_world s) j = Some g" "i \<noteq> j"
  shows "region h \<inter> region g = {}"
  using family_live_disjoint [of "sy_world s" "allocated (mm_storage (sy_mm s))" "mm_views (sy_mm s)" i h j g] assms
  by (simp add: sys_inv_def mm_inv_def mm_live_def)

end

end
