(* ===== verification/Memory_Properties.thy ===== *)
theory Memory_Properties
  imports Client
begin

text \<open>
  What the memory manager guarantees, stated over the model's definitions for the manager on
  \<open>BytesStorage\<close>. The proofs read off the locale facts through the interpretation \<open>bytes\<close>.
\<close>

section \<open>Configurations and concrete runs\<close>

text \<open>The configurations for which the manager is usable: what the code relies on but does not
  check of the device properties and of custom pool options.\<close>

definition well_configured :: "memory_device_properties \<Rightarrow> memory_configuration \<Rightarrow> bool" where
  "well_configured props cfg \<longleftrightarrow> 0 < mdp_alignment props \<and> (case cfg of
      SubSlices \<Rightarrow> mdp_alignment props \<le> 8 * megabyte \<and> mdp_alignment props \<le> mdp_max_page_size props \<and>
        mdp_max_page_size props < u64_bound
    | ExclusivePagesPreset \<Rightarrow> True
    | Custom options \<Rightarrow> \<forall>opt \<in> set options. option_ok (mdp_alignment props) opt)"

definition empty_storage :: bytes_storage where
  "empty_storage = \<lparr>bs_memory = []\<rparr>"

text \<open>The system right after \<open>from_configuration\<close>, with nothing held.\<close>

definition fresh_system :: "'s memory_management \<Rightarrow> 's system" where
  "fresh_system m = \<lparr>sy_mm = m, sy_world = init_world, sy_handles = {#}, sy_bindings = {#}\<rparr>"

lemma init_world_wf [simp]: "world_wf init_world" "ids_left init_world"
  by (simp_all add: init_world_def world_wf_def ids_left_def usize_max_def)

lemma configured_inv:
  assumes "well_configured props cfg" "from_configuration f64_ln f64_exp empty_storage props cfg = Ret m"
  shows "mm_inv bytes_allocated init_world m \<and> mm_live m init_world = Map.empty"
proof (cases cfg)
  case SubSlices
  from from_configuration_sub_slices [of props init_world f64_ln f64_exp empty_storage bytes_allocated] assms SubSlices
  show ?thesis by (simp add: well_configured_def)
next
  case ExclusivePagesPreset
  from from_configuration_exclusive [of props init_world f64_ln f64_exp empty_storage bytes_allocated] assms ExclusivePagesPreset
  show ?thesis by (simp add: well_configured_def)
next
  case (Custom options)
  from from_configuration_custom [of props init_world options f64_ln f64_exp empty_storage bytes_allocated] assms Custom
  show ?thesis by (simp add: well_configured_def built_def)
qed

lemma reachable_inv:
  assumes "well_configured props cfg" "from_configuration f64_ln f64_exp empty_storage props cfg = Ret m"
    and "reachable bytes_ops (fresh_system m) s"
  shows "sys_inv bytes_allocated s"
  using bytes.sys_inv_reachable [OF assms(3)] configured_inv [OF assms(1,2)]
  by (simp add: fresh_system_def)

text \<open>A run used by the witnesses: one sliced pool of 2048-byte pages, static mode, two requests.\<close>

definition demo_props :: memory_device_properties where
  "demo_props = \<lparr>mdp_max_page_size = 2048, mdp_alignment = 32\<rparr>"

definition demo_config :: memory_configuration where
  "demo_config = Custom [\<lparr>po_pool_type = SlicedPages 2048 2048, po_dealloc_period = None\<rparr>]"

definition demo_pool :: sliced_pool where
  "demo_pool = \<lparr>sp_pages = [], sp_slices = [], sp_storage_index = index_new, sp_ring = ring_new 32,
     sp_recently_added_pages = [], sp_recently_allocated_size = 0, sp_page_size = 2048,
     sp_max_alloc_size = 2048, sp_alignment = 32\<rparr>"

definition demo_manager :: "bytes_storage memory_management" where
  "demo_manager = \<lparr>mm_static_pool = static_new 2048, mm_pools = [Sliced demo_pool], mm_storage = empty_storage,
     mm_alloc_reserve_count = 0, mm_mode = Auto\<rparr>"

definition demo_slice :: "nat \<Rightarrow> nat \<Rightarrow> slice" where
  "demo_slice i n = \<lparr>sl_storage = \<lparr>sh_id = i, sh_utilization = \<lparr>su_offset = 0, su_size = n\<rparr>\<rparr>,
     sl_handle = i, sl_padding = padding_of n 4\<rparr>"

lemma demo_configured: "well_configured demo_props demo_config"
  by (simp add: well_configured_def demo_props_def demo_config_def option_ok_def)

lemma demo_built: "from_configuration f64_ln f64_exp empty_storage demo_props demo_config = Ret demo_manager"
  by (simp add: from_configuration_def demo_config_def demo_props_def pool_of_options_def sliced_new_def
      demo_manager_def demo_pool_def rem_u64_def assertE_def)

definition demo_memory :: "nat \<Rightarrow> allocated_bytes" where
  "demo_memory n = \<lparr>ab_ptr = replicate n None, ab_layout = n\<rparr>"

text \<open>The manager and the world after the first \<open>k\<close> requests of the run.\<close>

definition demo_mm :: "nat \<Rightarrow> bytes_storage memory_management" where
  "demo_mm k = \<lparr>mm_static_pool = \<lparr>tp_slices = take k [(0, demo_slice 0 8), (1, demo_slice 1 4)], tp_max_alloc_size = 2048\<rparr>,
     mm_pools = [Sliced demo_pool], mm_storage = \<lparr>bs_memory = take k [(0, demo_memory 8), (1, demo_memory 4)]\<rparr>,
     mm_alloc_reserve_count = 0, mm_mode = Static\<rparr>"

definition demo_world :: "nat \<Rightarrow> world" where
  "demo_world k = \<lparr>storage_next = k, slice_next = k, id_rc = (\<lambda>i. if i < k then 2 else 0), all_rc = (\<lambda>i. if i < k then 2 else 0)\<rparr>"

definition demo_system :: "bytes_storage system" where
  "demo_system = \<lparr>sy_mm = demo_mm 2, sy_world = demo_world 2, sy_handles = {#1, 0#}, sy_bindings = {#}\<rparr>"

lemmas demo_defs = mm_reserve_def static_alloc_def calculate_padding_def rem_u64_def add_u64_def bytes_ops_def
  bytes_alignment_def bytes_alloc_def storage_id_new_def isize_max_def usize_max_def slice_handle_new_def gen_id_def
  handle_ref_new_def handle_clone_def Let_def demo_slice_def demo_memory_def demo_mm_def demo_world_def unwrap_def

lemma demo_reserve_0: "mm_reserve bytes_ops (demo_mm 0) 8 None (demo_world 0) = Ret (0, demo_mm 1, demo_world 1)"
  by (simp add: demo_defs fun_eq_iff)

lemma demo_reserve_1: "mm_reserve bytes_ops (demo_mm 1) 4 None (demo_world 1) = Ret (1, demo_mm 2, demo_world 2)"
  by (simp add: demo_defs fun_eq_iff)

lemma demo_reserve_2: "\<exists>m' w'. mm_reserve bytes_ops (demo_mm 2) 12 None (demo_world 2) = Ret (2, m', w')"
  by (simp add: demo_defs)

lemma demo_reachable: "reachable bytes_ops (fresh_system demo_manager) demo_system"
proof -
  have ids: "ids_left (demo_world k)" if "k < 5" for k
    using that by (simp add: ids_left_def world_wf_def demo_world_def usize_max_def)
  have "set_mode demo_manager Static = demo_mm 0" "init_world = demo_world 0"
    by (simp_all add: set_mode_def demo_manager_def demo_mm_def static_new_def empty_storage_def init_world_def demo_world_def)
  then have "reachable bytes_ops (fresh_system demo_manager)
      \<lparr>sy_mm = demo_mm 0, sy_world = demo_world 0, sy_handles = {#}, sy_bindings = {#}\<rparr>"
    using reachable.next_step [OF reachable.start step.mode [of bytes_ops demo_manager init_world "{#}" "{#}" Static]]
    by (simp add: fresh_system_def)
  from reachable.next_step [OF reachable.next_step [OF this step.reserve [OF ids demo_reserve_0]] step.reserve [OF ids demo_reserve_1]]
  show ?thesis by (simp add: demo_system_def)
qed

lemma demo_inv: "sys_inv bytes_allocated demo_system"
  by (rule reachable_inv [OF demo_configured demo_built [of "\<lambda>x. x" "\<lambda>x. x"] demo_reachable])

lemma demo_held [simp]: "held demo_system 0" "held demo_system 1"
  by (simp_all add: held_def demo_system_def)

section \<open>Safety of held allocations\<close>

text \<open>
  C1. In every state a configured manager can reach through its own operations (\<open>reserve\<close>,
  \<open>cleanup\<close>, \<open>mode\<close>, \<open>get\<close>, \<open>get_resource\<close>) and those of the handles it gave out (clone, drop,
  turning into a binding), two different slices that somebody still holds are found by \<open>get\<close>, lie
  inside buffers that are allocated in the storage, and do not overlap.
\<close>

theorem held_allocations_are_safe:
  assumes "well_configured props cfg" "from_configuration f64_ln f64_exp empty_storage props cfg = Ret m"
    and "reachable bytes_ops (fresh_system m) s" and "held s i" "held s j" "i \<noteq> j"
  shows "\<exists>h g n k. mm_get (sy_mm s) i (sy_world s) = (Some h, binding_drop i (sy_world s)) \<and>
    mm_get (sy_mm s) j (sy_world s) = (Some g, binding_drop j (sy_world s)) \<and>
    bytes_allocated (mm_storage (sy_mm s)) (sh_id h) = Some n \<and> sh_offset h + sh_size h \<le> n \<and>
    bytes_allocated (mm_storage (sy_mm s)) (sh_id g) = Some k \<and> sh_offset g + sh_size g \<le> k \<and>
    region h \<inter> region g = {}"
proof -
  have inv: "sys_inv bytes_allocated s" by (rule reachable_inv [OF assms(1-3)])
  from bytes.held_live [OF inv assms(4)] bytes.held_live [OF inv assms(5)] bytes.held_disjoint [OF inv _ _ assms(6)]
  show ?thesis by metis
qed

theorem held_allocations_are_safe_witness:
  "\<exists>h g n k. mm_get (sy_mm demo_system) 0 (sy_world demo_system) = (Some h, binding_drop 0 (sy_world demo_system)) \<and>
    mm_get (sy_mm demo_system) 1 (sy_world demo_system) = (Some g, binding_drop 1 (sy_world demo_system)) \<and>
    bytes_allocated (mm_storage (sy_mm demo_system)) (sh_id h) = Some n \<and> sh_offset h + sh_size h \<le> n \<and>
    bytes_allocated (mm_storage (sy_mm demo_system)) (sh_id g) = Some k \<and> sh_offset g + sh_size g \<le> k \<and>
    region h \<inter> region g = {}"
  by (rule held_allocations_are_safe [OF demo_configured demo_built [of "\<lambda>x. x" "\<lambda>x. x"] demo_reachable demo_held]) simp

text \<open>The window a resource of a held slice covers.\<close>

lemma resource_of_held:
  assumes inv: "sys_inv bytes_allocated s" and "held s i"
    and "mm_get_resource bytes_ops (sy_mm s) i None None (sy_world s) = Ret (Some r, m', w')"
  shows "\<exists>n. mm_live (sy_mm s) (sy_world s) i = Some (resource_handle r) \<and>
    bytes_allocated (mm_storage (sy_mm s)) (br_ptr r) = Some n \<and>
    su_offset (br_utilization r) + su_size (br_utilization r) \<le> n"
proof -
  from bytes.held_live [OF inv assms(2)] obtain h n where
    h: "mm_get (sy_mm s) i (sy_world s) = (Some h, binding_drop i (sy_world s))"
    "mm_live (sy_mm s) (sy_world s) i = Some h"
    "bytes_allocated (mm_storage (sy_mm s)) (sh_id h) = Some n" "sh_offset h + sh_size h \<le> n" by blast
  then have "r = \<lparr>br_ptr = sh_id h, br_utilization = sh_utilization h\<rparr>"
    using assms(3) by (auto simp: mm_get_resource_def bytes_ops_def bytes_get_def bindE_eq_Ret unwrap_def split: option.splits)
  then show ?thesis using h by (simp add: resource_handle_def sh_offset_def sh_size_def)
qed

lemma in_bounds_access:
  assumes "bytes_allocated st (br_ptr r) = Some n" "su_offset (br_utilization r) + su_size (br_utilization r) \<le> n"
  shows "\<exists>old. bytes_read r st = Ret old"
    "length data = su_size (br_utilization r) \<Longrightarrow> \<exists>st'. bytes_write r data st = Ret st'"
  using assms by (auto simp: bytes_allocated_def bytes_read_def bytes_write_def get_exact_location_and_length_def Let_def assertE_def)

text \<open>
  C2. Isolation: writing a full window of data through the resource of a held slice is defined
  behaviour (the buffer is allocated and the window is inside it), the data is read back through the
  same resource, and what is read through the resource of any other held slice does not change.
\<close>

theorem writes_are_isolated:
  assumes "well_configured props cfg" "from_configuration f64_ln f64_exp empty_storage props cfg = Ret m"
    and "reachable bytes_ops (fresh_system m) s" and "held s i" "held s j" "i \<noteq> j"
    and "mm_get_resource bytes_ops (sy_mm s) i None None (sy_world s) = Ret (Some r, m1, w1)"
    and "mm_get_resource bytes_ops (sy_mm s) j None None (sy_world s) = Ret (Some q, m2, w2)"
    and "length data = su_size (br_utilization r)"
  shows "\<exists>st' old. bytes_write r data (mm_storage (sy_mm s)) = Ret st' \<and> bytes_read r st' = Ret (map Some data) \<and>
    bytes_read q (mm_storage (sy_mm s)) = Ret old \<and> bytes_read q st' = Ret old"
proof -
  have inv: "sys_inv bytes_allocated s" by (rule reachable_inv [OF assms(1-3)])
  from resource_of_held [OF inv assms(4,7)] obtain n where r: "mm_live (sy_mm s) (sy_world s) i = Some (resource_handle r)"
    "bytes_allocated (mm_storage (sy_mm s)) (br_ptr r) = Some n"
    "su_offset (br_utilization r) + su_size (br_utilization r) \<le> n" by blast
  from resource_of_held [OF inv assms(5,8)] obtain k where q: "mm_live (sy_mm s) (sy_world s) j = Some (resource_handle q)"
    "bytes_allocated (mm_storage (sy_mm s)) (br_ptr q) = Some k"
    "su_offset (br_utilization q) + su_size (br_utilization q) \<le> k" by blast
  have sep: "region (resource_handle r) \<inter> region (resource_handle q) = {}"
    by (rule bytes.held_disjoint [OF inv r(1) q(1) assms(6)])
  obtain st' where st': "bytes_write r data (mm_storage (sy_mm s)) = Ret st'"
    using in_bounds_access(2) [OF r(2,3) assms(9)] by blast
  obtain old where "bytes_read q (mm_storage (sy_mm s)) = Ret old"
    using in_bounds_access(1) [OF q(2,3)] by blast
  then show ?thesis
    using st' bytes_write_read_same [OF st'] bytes_write_read_other [OF st' sep] by auto
qed

lemma demo_resource:
  "mm_get_resource bytes_ops (sy_mm demo_system) 0 None None (sy_world demo_system) =
     Ret (Some \<lparr>br_ptr = 0, br_utilization = \<lparr>su_offset = 0, su_size = 8\<rparr>\<rparr>, sy_mm demo_system, binding_drop 0 (sy_world demo_system))"
  "mm_get_resource bytes_ops (sy_mm demo_system) 1 None None (sy_world demo_system) =
     Ret (Some \<lparr>br_ptr = 1, br_utilization = \<lparr>su_offset = 0, su_size = 4\<rparr>\<rparr>, sy_mm demo_system, binding_drop 1 (sy_world demo_system))"
  by (simp_all add: demo_system_def mm_get_resource_def mm_get_def static_get_def demo_mm_def demo_slice_def bytes_ops_def
      bytes_get_def numeral_2_eq_2)

theorem writes_are_isolated_witness:
  "\<exists>st' old. bytes_write \<lparr>br_ptr = 1, br_utilization = \<lparr>su_offset = 0, su_size = 4\<rparr>\<rparr> [1, 2, 3, 4] (mm_storage (sy_mm demo_system)) = Ret st' \<and>
    bytes_read \<lparr>br_ptr = 1, br_utilization = \<lparr>su_offset = 0, su_size = 4\<rparr>\<rparr> st' = Ret (map Some [1, 2, 3, 4]) \<and>
    bytes_read \<lparr>br_ptr = 0, br_utilization = \<lparr>su_offset = 0, su_size = 8\<rparr>\<rparr> (mm_storage (sy_mm demo_system)) = Ret old \<and>
    bytes_read \<lparr>br_ptr = 0, br_utilization = \<lparr>su_offset = 0, su_size = 8\<rparr>\<rparr> st' = Ret old"
  by (rule writes_are_isolated [OF demo_configured demo_built [of "\<lambda>x. x" "\<lambda>x. x"] demo_reachable demo_held(2,1) _ demo_resource(2,1)])
    simp_all

text \<open>
  C3. Mutability: in every reachable state a held handle reports \<open>can_mut\<close> exactly when it is the
  only handle on its slice (bindings do not count), and a slice nobody holds is free.
\<close>

theorem can_mut_means_unique:
  assumes "well_configured props cfg" "from_configuration f64_ln f64_exp empty_storage props cfg = Ret m"
    and "reachable bytes_ops (fresh_system m) s" and "i \<in># sy_handles s"
  shows "(can_mut (sy_world s) i \<longleftrightarrow> count (sy_handles s) i = 1) \<and> \<not> handle_is_free (sy_world s) i"
proof -
  obtain k where "count (sy_handles s) i = Suc k" using assms(4) by (metis count_greater_zero_iff gr0_implies_Suc)
  moreover have "counted (sy_world s) (sy_handles s) (sy_bindings s) i"
    using reachable_inv [OF assms(1-3)] assms(4) by (auto simp: sys_inv_def split: if_splits)
  ultimately show ?thesis
    by (auto simp: can_mut_def handle_is_free_def counted_def)
qed

theorem can_mut_means_unique_witness:
  "(can_mut (sy_world demo_system) 0 \<longleftrightarrow> count (sy_handles demo_system) 0 = 1) \<and> \<not> handle_is_free (sy_world demo_system) 0"
  by (rule can_mut_means_unique [OF demo_configured demo_built [of "\<lambda>x. x" "\<lambda>x. x"] demo_reachable])
    (simp add: demo_system_def)

section \<open>Operations of the manager\<close>

lemma demo_mm_inv: "mm_inv bytes_allocated (demo_world k) (demo_mm k) \<and> ids_left (demo_world k)" if "k = 2"
  using demo_inv that by (simp add: demo_system_def ids_left_def world_wf_def demo_world_def usize_max_def)

text \<open>
  C4. \<open>reserve\<close> implements an abstract allocator. The abstraction of a manager is the map from live
  slice ids to the bytes they stand for; a successful \<open>reserve\<close> keeps the invariant and adds exactly
  one entry to that map, under an id that was not live, with at least the requested size (exactly the
  requested size in automatic mode), disjoint from every entry that was there; the handle it returns
  is the only one on the slice.
\<close>

theorem reserve_refines_allocator:
  assumes "mm_inv bytes_allocated w m" "ids_left w" "mm_reserve bytes_ops m n ex w = Ret (h, m', w')"
  shows "mm_inv bytes_allocated w' m' \<and>
    (\<exists>sh. mm_live m' w' = (mm_live m w)(h \<mapsto> sh) \<and> h \<notin> dom (mm_live m w) \<and>
       n \<le> sh_size sh \<and> (mm_mode m = Auto \<longrightarrow> sh_size sh = n) \<and>
       (\<forall>i g. mm_live m w i = Some g \<longrightarrow> region sh \<inter> region g = {})) \<and>
    can_mut w' h \<and> mm_mode m' = mm_mode m"
proof -
  from bytes.mm_reserve_law [OF assms(1,2), of n ex] assms(3)
  have inv: "mm_inv bytes_allocated w' m'"
    and ho: "hands_out (mm_mode m = Auto) n h (merged (mm_views m)) w (merged (mm_views m')) w'" by auto
  from ho obtain sh where sh: "mm_live m' w' = (mm_live m w)(h \<mapsto> sh)" "mm_live m w h = None" "id_rc w' h = 2"
    "n \<le> sh_size sh" "mm_mode m = Auto \<longrightarrow> sh_size sh = n"
    by (auto simp: hands_out_def mm_live_def)
  have ok: "family_ok w' (bytes_allocated (mm_storage m')) (mm_views m')" using inv by (simp add: mm_inv_def)
  have "region sh \<inter> region g = {}" if g: "mm_live m w i = Some g" for i g
  proof -
    have "i \<noteq> h" using g sh(2) by auto
    then have "mm_live m' w' i = Some g" "mm_live m' w' h = Some sh" using g sh(1) by simp_all
    with \<open>i \<noteq> h\<close> show ?thesis using family_live_disjoint [OF ok, of h sh i g] by (simp add: mm_live_def)
  qed
  moreover have "mm_mode m' = mm_mode m"
    using mm_reserve_mode [of bytes_ops m n ex w] assms(3) by simp
  ultimately show ?thesis using inv sh by (auto simp: can_mut_def)
qed

theorem reserve_refines_allocator_witness:
  "\<exists>m' w'. mm_reserve bytes_ops (demo_mm 2) 12 None (demo_world 2) = Ret (2, m', w') \<and> mm_inv bytes_allocated w' m' \<and>
    (\<exists>sh. mm_live m' w' = (mm_live (demo_mm 2) (demo_world 2))(2 \<mapsto> sh) \<and> 2 \<notin> dom (mm_live (demo_mm 2) (demo_world 2)) \<and>
       12 \<le> sh_size sh \<and> (mm_mode (demo_mm 2) = Auto \<longrightarrow> sh_size sh = 12) \<and>
       (\<forall>i g. mm_live (demo_mm 2) (demo_world 2) i = Some g \<longrightarrow> region sh \<inter> region g = {})) \<and>
    can_mut w' 2 \<and> mm_mode m' = mm_mode (demo_mm 2)"
proof -
  obtain m' w' where r: "mm_reserve bytes_ops (demo_mm 2) 12 None (demo_world 2) = Ret (2, m', w')"
    using demo_reserve_2 by blast
  show ?thesis
    using r reserve_refines_allocator [OF _ _ r] demo_mm_inv [OF refl] by blast
qed

text \<open>
  C5. \<open>cleanup\<close>, explicit or not, keeps the invariant and every live allocation with its bytes: it
  only returns to the storage buffers on which nothing is live.
\<close>

theorem cleanup_keeps_live:
  assumes "mm_inv bytes_allocated w m" "mm_cleanup bytes_ops m explicit w = Ret (m', w')"
  shows "mm_inv bytes_allocated w' m' \<and> mm_live m' w' = mm_live m w \<and>
    (\<forall>i h. mm_live m w i = Some h \<longrightarrow> bytes_allocated (mm_storage m') (sh_id h) \<noteq> None)"
proof -
  from bytes.mm_cleanup_law [OF assms(1), of explicit] assms(2)
  have inv: "mm_inv bytes_allocated w' m'" and live: "mm_live m' w' = mm_live m w" by auto
  then have "family_ok w' (bytes_allocated (mm_storage m')) (mm_views m')" by (simp add: mm_inv_def)
  from family_live_allocated(1) [OF this] live inv show ?thesis by (fastforce simp: mm_live_def)
qed

theorem cleanup_keeps_live_witness:
  "\<exists>m' w'. mm_cleanup bytes_ops (demo_mm 2) True (demo_world 2) = Ret (m', w') \<and>
    mm_inv bytes_allocated w' m' \<and> mm_live m' w' = mm_live (demo_mm 2) (demo_world 2) \<and>
    (\<forall>i h. mm_live (demo_mm 2) (demo_world 2) i = Some h \<longrightarrow> bytes_allocated (mm_storage m') (sh_id h) \<noteq> None)"
proof -
  have "\<exists>m' w'. mm_cleanup bytes_ops (demo_mm 2) True (demo_world 2) = Ret (m', w')"
    by (simp add: mm_cleanup_def static_cleanup_def demo_mm_def demo_world_def demo_slice_def is_free_def handle_is_free_def
        sliced_cleanup_def)
  then obtain m' w' where r: "mm_cleanup bytes_ops (demo_mm 2) True (demo_world 2) = Ret (m', w')" by blast
  show ?thesis using r cleanup_keeps_live [OF _ r] demo_mm_inv [OF refl] by blast
qed

text \<open>
  C6. The sub-slices preset: for an alignment of at most 8 MiB that does not exceed the maximal page
  size, \<open>from_configuration\<close> ends without a panic, the manager it returns satisfies the invariant, has
  no live allocation, and some pool accepts every request up to the maximal page size rounded down to
  the alignment.
\<close>

theorem sub_slices_preset_serves_all_sizes:
  assumes "0 < mdp_alignment props" "mdp_alignment props \<le> 8 * megabyte" "mdp_alignment props \<le> mdp_max_page_size props"
    and "mdp_max_page_size props < u64_bound"
  shows "\<exists>m. from_configuration f64_ln f64_exp empty_storage props SubSlices = Ret m \<and>
    mm_inv bytes_allocated init_world m \<and> mm_live m init_world = Map.empty \<and>
    (\<forall>n \<le> mdp_max_page_size props div mdp_alignment props * mdp_alignment props.
       \<exists>p \<in> set (mm_pools m). n \<le> dyn_max_alloc_size p)"
  using from_configuration_sub_slices [OF assms init_world_wf(1), of f64_ln f64_exp empty_storage bytes_allocated]
  unfolding returns_eq by blast

theorem sub_slices_preset_serves_all_sizes_witness:
  "\<exists>m. from_configuration (\<lambda>x. x) (\<lambda>x. x) empty_storage \<lparr>mdp_max_page_size = 128 * megabyte, mdp_alignment = 32\<rparr> SubSlices = Ret m \<and>
    mm_inv bytes_allocated init_world m \<and> mm_live m init_world = Map.empty \<and>
    (\<forall>n \<le> 128 * megabyte. \<exists>p \<in> set (mm_pools m). n \<le> dyn_max_alloc_size p)"
  using sub_slices_preset_serves_all_sizes [of "\<lparr>mdp_max_page_size = 128 * megabyte, mdp_alignment = 32\<rparr>" "\<lambda>x. x" "\<lambda>x. x"]
  by (simp add: megabyte_def)

text \<open>The first pool that accepts a size.\<close>

definition first_fit :: "dynamic_pool list \<Rightarrow> nat \<Rightarrow> nat \<Rightarrow> bool" where
  "first_fit pools n i \<longleftrightarrow> i < length pools \<and> n \<le> dyn_max_alloc_size (pools ! i) \<and> (\<forall>j < i. dyn_max_alloc_size (pools ! j) < n)"

lemma find_fit:
  "find (\<lambda>i. n \<le> dyn_max_alloc_size (ps ! i)) [0..<length ps] = Some i \<Longrightarrow> first_fit ps n i"
  "find (\<lambda>i. n \<le> dyn_max_alloc_size (ps ! i)) [0..<length ps] = None \<longleftrightarrow> (\<forall>p \<in> set ps. dyn_max_alloc_size p < n)"
proof -
  show "find (\<lambda>i. n \<le> dyn_max_alloc_size (ps ! i)) [0..<length ps] = Some i \<Longrightarrow> first_fit ps n i"
    by (auto simp: find_Some_iff first_fit_def not_le)
  have "find (\<lambda>i. n \<le> dyn_max_alloc_size (ps ! i)) [0..<length ps] = None \<longleftrightarrow> (\<forall>i < length ps. dyn_max_alloc_size (ps ! i) < n)"
    by (auto simp: find_None_iff not_le)
  then show "find (\<lambda>i. n \<le> dyn_max_alloc_size (ps ! i)) [0..<length ps] = None \<longleftrightarrow> (\<forall>p \<in> set ps. dyn_max_alloc_size p < n)"
    by (simp add: all_set_conv_all_nth)
qed


lemma demo_manager_inv: "mm_inv bytes_allocated init_world demo_manager"
  using configured_inv [OF demo_configured demo_built [of "\<lambda>x. x" "\<lambda>x. x"]] by simp

text \<open>A request of 64 bytes gets a new page, one of 5000 bytes no pool.\<close>

lemma demo_auto_reserve: "\<exists>m' w'. mm_reserve bytes_ops demo_manager 64 None init_world = Ret (0, m', w')"
  by (simp add: demo_manager_def demo_pool_def empty_storage_def mm_reserve_def reserve_in_pool_def sliced_try_reserve_def
      find_free_slice_def find_free_slice_in_all_chunks_def ring_new_def sliced_alloc_def create_page_def create_slice_def
      init_world_def effective_size_def sub_u64_def push_page_def assertE_def demo_defs)


section \<open>The pools\<close>

text \<open>
  C8. Reserving in a sliced pool always ends, without a panic: for every request whose padded size fits
  in \<open>u64\<close> the search over the ring of pages (splitting and merging free slices on its way) terminates,
  keeps the tiling invariant and the owned pages, and either changes no live slice or hands out a slice
  that was free, has exactly the requested size and lies on no excluded page.
\<close>

theorem sliced_reservation_total:
  assumes "sliced_inv w p" "ids_left w" "round_up n (sp_alignment p) < u64_bound"
  shows "\<exists>r p' w'. sliced_try_reserve p n ex w = Ret (r, p', w') \<and> sliced_inv w' p' \<and> sliced_owned p' = sliced_owned p \<and>
    (case r of
       None \<Rightarrow> live_slices (sliced_slices p') w' = live_slices (sliced_slices p) w
     | Some h \<Rightarrow> \<exists>s. sliced_slices p' h = Some s \<and> sh_size (sl_storage s) = n \<and>
         \<not> excluded_by ex (sh_id (sl_storage s)) \<and> live_slices (sliced_slices p) w h = None \<and>
         live_slices (sliced_slices p') w' = (live_slices (sliced_slices p) w)(h \<mapsto> sl_storage s))"
proof -
  from sliced_try_reserve_returns [OF assms(1) _ _ assms(3), of ex] assms(2)
  obtain r p' w' where r: "sliced_try_reserve p n ex w = Ret (r, p', w')" "sliced_inv w' p'" "sliced_owned p' = sliced_owned p"
    "case r of
       None \<Rightarrow> live_slices (sliced_slices p') w' = live_slices (sliced_slices p) w
     | Some h \<Rightarrow> hands_out True n h (sliced_slices p) w (sliced_slices p') w' \<and>
         (\<exists>s. sliced_slices p' h = Some s \<and> \<not> excluded_by ex (sh_id (sl_storage s)))"
    by (auto simp: ids_left_def returns_eq)
  show ?thesis
  proof (cases r)
    case None
    then show ?thesis using r by auto
  next
    case (Some h)
    with r(4) obtain s sh where s: "sliced_slices p' h = Some s" "\<not> excluded_by ex (sh_id (sl_storage s))"
      "live_slices (sliced_slices p') w' = (live_slices (sliced_slices p) w)(h \<mapsto> sh)"
      "live_slices (sliced_slices p) w h = None" "sh_size sh = n"
      by (auto simp: hands_out_def)
    then have "live_slices (sliced_slices p') w' h = Some sh" by simp
    then have "sl_storage s = sh" using s(1) by (auto simp: live_slices_Some)
    then show ?thesis using r s Some by auto
  qed
qed

theorem sliced_reservation_total_witness:
  "\<exists>r p' w'. sliced_try_reserve demo_pool 100 None init_world = Ret (r, p', w') \<and> sliced_inv w' p' \<and> sliced_owned p' = sliced_owned demo_pool \<and>
    (case r of
       None \<Rightarrow> live_slices (sliced_slices p') w' = live_slices (sliced_slices demo_pool) init_world
     | Some h \<Rightarrow> \<exists>s. sliced_slices p' h = Some s \<and> sh_size (sl_storage s) = 100 \<and>
         \<not> excluded_by None (sh_id (sl_storage s)) \<and> live_slices (sliced_slices demo_pool) init_world h = None \<and>
         live_slices (sliced_slices p') w' = (live_slices (sliced_slices demo_pool) init_world)(h \<mapsto> sl_storage s))"
proof (rule sliced_reservation_total)
  show "sliced_inv init_world demo_pool"
    using sliced_new_inv [of 32 2048 2048 init_world] by (simp add: sliced_new_def demo_pool_def)
qed (simp_all add: demo_pool_def round_up_def)

lemma retain_pages_bytes_returns:
  assumes "\<forall>page \<in> set pages. ep_free_count page < alloc_after_free"
  shows "\<exists>r. retain_pages bytes_ops explicit st w pages = Ret r"
  using assms
proof (induction pages arbitrary: st w)
  case (Cons page pages)
  have d: "\<exists>st'. cs_dealloc bytes_ops st i = Ret st'" for i
    by (simp add: bytes_ops_def bytes_dealloc_def split: option.split)
  have ih: "\<exists>r. retain_pages bytes_ops explicit st w pages = Ret r" for st w
    using Cons by simp
  have fc: "add_u32 (ep_free_count page) 1 = Ret (Suc (ep_free_count page))"
    using Cons.prems by (simp add: add_u32_def alloc_after_free_def)
  obtain st' where st': "cs_dealloc bytes_ops st (sh_id (sl_storage (ep_slice page))) = Ret st'" using d by blast
  obtain r r' where "retain_pages bytes_ops explicit st w pages = Ret r"
    "retain_pages bytes_ops explicit st' (handle_drop (sl_handle (ep_slice page)) w) pages = Ret r'" using ih by blast
  then show ?case using st' fc by (cases explicit; cases r; cases r') (simp_all add: Let_def)
qed simp

text \<open>
  C9. An explicit cleanup of an exclusive pool ends without a panic and leaves only pages that are in
  use: every page nobody holds is returned to the storage, and every buffer still owned is still
  allocated.
\<close>

theorem explicit_cleanup_releases_free_pages:
  assumes "exclusive_inv w p" "exclusive_owned p \<subseteq>\<^sub>m bytes_allocated st"
  shows "\<exists>p' st' w'. exclusive_cleanup bytes_ops p st nr True w = Ret (p', st', w') \<and> exclusive_inv w' p' \<and>
    (\<forall>page \<in> set (xp_pages p'). \<not> is_free w' (ep_slice page)) \<and>
    exclusive_owned p' \<subseteq>\<^sub>m bytes_allocated st' \<and>
    (\<forall>i \<in> dom (exclusive_owned p) - dom (exclusive_owned p'). bytes_allocated st' i = None)"
proof -
  have ok: "pages_ok w (xp_pages p)" and al: "0 < xp_alignment p" using assms(1) by (simp_all add: exclusive_inv_def)
  then obtain pages' st' w' where r: "retain_pages bytes_ops True st w (xp_pages p) = Ret (pages', st', w')"
    using retain_pages_bytes_returns [of "xp_pages p" True st w] by (fastforce simp: pages_ok_def page_ok_def)
  from bytes.retain_pages_law [OF ok, of True st] r
  have post: "pages_ok w' pages'" "pages_cleaned (xp_pages p) (bytes_allocated st) w pages' (bytes_allocated st') w'"
    "\<forall>page \<in> set pages'. \<not> is_free w' (ep_slice page)" by auto
  let ?p = "p\<lparr>xp_last_dealloc_check := nr, xp_pages := pages'\<rparr>"
  have "exclusive_cleanup bytes_ops p st nr True w = Ret (?p, st', w')"
    using r by (simp add: exclusive_cleanup_def Let_def)
  moreover have "exclusive_owned ?p \<subseteq>\<^sub>m bytes_allocated st'"
    "\<forall>i \<in> dom (exclusive_owned p) - dom (exclusive_owned ?p). bytes_allocated st' i = None"
    using post(2) assms(2) by (auto simp: exclusive_owned_def cleaned_def map_le_def dom_def)
  ultimately show ?thesis using post al by (auto simp: exclusive_inv_def)
qed

definition demo_exclusive :: exclusive_pool where
  "demo_exclusive = \<lparr>xp_pages = [\<lparr>ep_slice = demo_slice 0 8, ep_alloc_size = 32, ep_free_count = 4\<rparr>], xp_alignment = 32,
     xp_dealloc_period = 100, xp_last_dealloc_check = 0, xp_max_alloc_size = 64, xp_cur_avg_size = Finite 32\<rparr>"

definition demo_free_world :: world where
  "demo_free_world = \<lparr>storage_next = 1, slice_next = 1, id_rc = (\<lambda>_. 1), all_rc = (\<lambda>_. 1)\<rparr>"

theorem explicit_cleanup_releases_free_pages_witness:
  "\<exists>p' st' w'. exclusive_cleanup bytes_ops demo_exclusive \<lparr>bs_memory = [(0, demo_memory 32)]\<rparr> 7 True demo_free_world = Ret (p', st', w') \<and>
    exclusive_inv w' p' \<and> (\<forall>page \<in> set (xp_pages p'). \<not> is_free w' (ep_slice page)) \<and>
    exclusive_owned p' \<subseteq>\<^sub>m bytes_allocated st' \<and>
    (\<forall>i \<in> dom (exclusive_owned demo_exclusive) - dom (exclusive_owned p'). bytes_allocated st' i = None)"
  by (rule explicit_cleanup_releases_free_pages)
    (simp_all add: demo_exclusive_def exclusive_inv_def pages_ok_def page_ok_def demo_slice_def demo_free_world_def counts_ok_def
      alloc_after_free_def exclusive_owned_def bytes_allocated_def demo_memory_def map_le_def)

text \<open>
  C10. The exclusive-pages preset, whatever the platform's \<open>ln\<close> and \<open>exp\<close> return: the bucket sizes are
  multiples of the alignment, at least one and at most as many as asked for, and no two neighbours are
  equal; so every pool passes the alignment assertion of its constructor.
\<close>

theorem bucket_sizes_are_aligned:
  assumes "0 < buckets" "generate_bucket_sizes f64_ln f64_exp a b buckets al = Ret sizes"
  shows "sizes \<noteq> [] \<and> length sizes \<le> buckets \<and> (\<forall>s \<in> set sizes. al dvd s) \<and> distinct_adj sizes \<and>
    (\<forall>s \<in> set sizes. 0 < al \<longrightarrow> (\<exists>p. exclusive_new s al d = Ret p))"
  using generate_bucket_sizes_ok [OF assms(1), of f64_ln f64_exp a b al] assms(2)
  by (auto simp: exclusive_new_def rem_u64_def assertE_def dvd_eq_mod_eq_0)

theorem bucket_sizes_are_aligned_witness:
  "generate_bucket_sizes (\<lambda>x. x) (\<lambda>x. Finite 40) 1 2 3 32 = Ret [64] \<and>
   length [64 :: nat] \<le> 3 \<and> 32 dvd (64 :: nat) \<and> distinct_adj [64 :: nat] \<and> (\<exists>p. exclusive_new 64 32 100 = Ret p)"
proof -
  have e: "generate_bucket_sizes (\<lambda>x. x) (\<lambda>x. Finite 40) 1 2 3 32 = Ret [64]"
    by (simp add: generate_bucket_sizes_def Let_def sub_u64_def next_multiple_of_u64_def rem_u64_def add_u64_def upt_rec)
  from bucket_sizes_are_aligned [OF _ e, of 100] e show ?thesis by simp
qed

definition demo_page :: memory_page where
  "demo_page = \<lparr>mp_slices = [(0, 0), (32, 1)]\<rparr>"

definition demo_half :: "nat \<Rightarrow> slice" where
  "demo_half i = \<lparr>sl_storage = \<lparr>sh_id = 0, sh_utilization = \<lparr>su_offset = 32 * i, su_size = 32\<rparr>\<rparr>, sl_handle = i, sl_padding = 0\<rparr>"

definition demo_half_world :: world where
  "demo_half_world = \<lparr>storage_next = 1, slice_next = 2, id_rc = (\<lambda>i. if i = 0 then 1 else 2), all_rc = (\<lambda>i. if i = 0 then 1 else 2)\<rparr>"

definition demo_ring :: search_state where
  "demo_ring = (\<lparr>rb_queue = [0], rb_chunk_positions = [(0, 0)], rb_cursor_slice = 32, rb_cursor_chunk = 0, rb_buffer_alignment = 32\<rparr>,
     [(0, demo_page)], [(0, demo_half 0), (1, demo_half 1)], demo_half_world)"

lemmas demo_ring_defs = demo_page_def demo_half_def demo_half_world_def find_slice_def effective_size_def add_u64_def
  is_free_def handle_is_free_def next_slice_position_def

lemma demo_chunk:
  "find_free_slice_in_chunk 32 32 demo_page [(0, demo_half 0), (1, demo_half 1)] demo_half_world 32 =
     Ret (None, demo_page, [(0, demo_half 0), (1, demo_half 1)], demo_half_world)"
proof -
  let ?s = "\<lambda>i. (demo_page, [(0, demo_half 0), (1, demo_half 1)], demo_half_world, i)"
  have "find_free_slice_in_chunk_body 32 32 (?s 32) = Ret (Inl (?s 64))"
    by (simp add: find_free_slice_in_chunk_body_def demo_ring_defs)
  moreover have "find_free_slice_in_chunk_body 32 32 (?s 64) =
      Ret (Inr (None, demo_page, [(0, demo_half 0), (1, demo_half 1)], demo_half_world))"
    by (simp add: find_free_slice_in_chunk_body_def demo_ring_defs)
  ultimately show ?thesis
    unfolding find_free_slice_in_chunk_def by (subst loop_unfold, simp, subst loop_unfold, simp)
qed

text \<open>
  Where the search stops short: the first pass starts at the cursor and the second ends before
  the chunk of the cursor, so with a single page whose free first slice lies before the cursor the
  search reports that there is no free slice, although the slice is free and has the size asked for.
\<close>

theorem search_misses_free_slice:
  "(\<exists>s. find_free_slice 32 None demo_ring = Ret (None, s)) \<and>
   (case demo_ring of (ring, pages, slices, w) \<Rightarrow>
     \<exists>s. hm_get slices 0 = Some s \<and> is_free w s \<and> effective_size s = Ret 32 \<and> \<not> excluded_by None (sh_id (sl_storage s)))"
  using demo_chunk
  by (simp add: demo_ring_def find_free_slice_def find_free_slice_in_all_chunks_def find_free_slice_in_all_chunks_body_def
      excluded_by_def Let_def, simp add: demo_ring_defs)

end
