(* ===== verification/Machine_Words.thy ===== *)
theory Machine_Words
  imports Prelude "HOL-Library.Word"
begin

text \<open>
  Unsigned machine words as kernels and constant payloads use them. Code that runs in a kernel is
  modelled on \<^typ>\<open>32 word\<close>, where arithmetic wraps as it does on the device; host code that is
  compiled with overflow checks uses the checked operations of the prelude on natural numbers, or
  \<open>add_w32\<close> and \<open>sub_w32\<close> on words. The lemmas in \<open>no_wrap\<close> read a word expression as the same
  expression on natural numbers wherever it does not wrap.
\<close>

unbundle bit_operations_syntax

type_synonym i64 = "64 word"
type_synonym u64 = "64 word"
type_synonym u32 = "32 word"
type_synonym u16 = "16 word"
type_synonym u8 = "8 word"
named_theorems no_wrap \<open>word arithmetic that does not wrap, on natural numbers\<close>

section \<open>Powers of two\<close>

definition is_power_of_two :: "u32 \<Rightarrow> bool" where
  "is_power_of_two w = (length (filter (bit w) [0..<32]) = 1)"

definition trailing_zeros :: "u32 \<Rightarrow> nat" where
  "trailing_zeros w = length (takeWhile (\<lambda>i. \<not> bit w i) [0..<32])"

definition add_w32 :: "u32 \<Rightarrow> u32 \<Rightarrow> u32 exec" where
  "add_w32 a b = (if uint a + uint b < 2 ^ 32 then Ret (a + b) else Panic ArithmeticOverflow)"

definition sub_w32 :: "u32 \<Rightarrow> u32 \<Rightarrow> u32 exec" where
  "sub_w32 a b = (if b \<le> a then Ret (a - b) else Panic ArithmeticOverflow)"

section \<open>Arithmetic that does not wrap\<close>

lemma unat_add_small [no_wrap]:
  "unat a + unat b < 2 ^ LENGTH('w) \<Longrightarrow> unat (a + b) = unat a + unat b" for a b :: "'w::len word"
  by (rule unat_add_lem [THEN iffD1])

lemma unat_mul_small [no_wrap]:
  "unat a * unat b < 2 ^ LENGTH('w) \<Longrightarrow> unat (a * b) = unat a * unat b" for a b :: "'w::len word"
  by (rule unat_mult_lem [THEN iffD1])

lemma unat_sub_small [no_wrap]:
  "unat b \<le> unat a \<Longrightarrow> unat (a - b) = unat a - unat b" for a b :: "'w::len word"
  by (simp add: unat_sub word_le_nat_alt)

lemmas [no_wrap] = unat_div unat_mod

lemma unat_pow2 [simp]: "n < LENGTH('w) \<Longrightarrow> unat (2 ^ n :: 'w::len word) = 2 ^ n"
  using unsigned_of_nat [where 'a = nat and 'b = 'w, of "2 ^ n"] by (simp add: take_bit_nat_eq_self)

lemma unat_of_nat_small [no_wrap]: "n < 2 ^ LENGTH('w) \<Longrightarrow> unat (of_nat n :: 'w::len word) = n"
  by (simp add: unsigned_of_nat take_bit_nat_eq_self)

lemma unat_u32_less [simp]: "unat (w :: u32) < 4294967296"
  using unsigned_less [of w] by simp

section \<open>Arithmetic of powers of two\<close>

lemma takeWhile_upt: "n < m \<Longrightarrow> takeWhile (\<lambda>i. i \<noteq> n) [0..<m] = [0..<n]"
proof -
  assume "n < m"
  then have "[0..<m] = [0..<n] @ n # [Suc n..<m]"
    using upt_add_eq_append [of 0 n "m - n"] upt_conv_Cons [of n m] by simp
  then show ?thesis by (simp add: takeWhile_append)
qed

lemma power_of_two_word:
  assumes "is_power_of_two w"
  shows "trailing_zeros w < 32" "w = 2 ^ trailing_zeros w"
proof -
  from assms obtain n where f: "filter (bit w) [0..<32] = [n]"
    by (auto simp: is_power_of_two_def length_Suc_conv)
  have iff: "k < 32 \<Longrightarrow> bit w k \<longleftrightarrow> k = n" for k
    using arg_cong [OF f, of set] by auto
  have n: "n < 32" "bit w n" using arg_cong [OF f, of set] by auto
  have "takeWhile (\<lambda>i. \<not> bit w i) [0..<32] = takeWhile (\<lambda>i. i \<noteq> n) [0..<32]"
    using iff by (intro takeWhile_cong) auto
  also have "\<dots> = [0..<n]" using n(1) by (rule takeWhile_upt)
  finally have tz: "trailing_zeros w = n" by (simp add: trailing_zeros_def)
  have "w = 2 ^ n"
    by (rule bit_word_eqI) (use iff n in \<open>auto simp: bit_simps\<close>)
  with tz n(1) show "trailing_zeros w < 32" "w = 2 ^ trailing_zeros w" by simp_all
qed

lemma unat_trailing_zeros:
  "is_power_of_two w \<Longrightarrow> unat (of_nat (trailing_zeros w) :: u32) = trailing_zeros w"
  using power_of_two_word(1) [of w] by (simp add: unsigned_of_nat take_bit_nat_eq_self)

lemma shift_left_mul: "is_power_of_two w \<Longrightarrow> push_bit (trailing_zeros w) (x :: u32) = x * w"
  using power_of_two_word(2) [of w] by (simp add: push_bit_eq_mult)

lemma shift_right_div: "is_power_of_two w \<Longrightarrow> drop_bit (trailing_zeros w) (x :: u32) = x div w"
  using power_of_two_word(2) [of w] by (simp add: drop_bit_eq_div)

lemma mask_mod:
  assumes "is_power_of_two w"
  shows "(x :: u32) AND (w - 1) = x mod w"
proof -
  have "w - 1 = mask (trailing_zeros w)"
    using power_of_two_word(2) [OF assms] by (simp add: mask_eq_exp_minus_1)
  then show ?thesis
    using power_of_two_word(2) [OF assms] by (metis take_bit_eq_mask take_bit_eq_mod)
qed

end
