(* ===== verification/IR_Types.thy ===== *)
theory IR_Types
  imports Float64 Machine_Words
begin

text \<open>
  The types and variables of the intermediate representation: \<open>cubecl-ir/src/item.rs\<close> and
  \<open>cubecl-ir/src/variable.rs\<close>, with the value ranges of the small floats of
  \<open>cubecl-common/src/float\<close>. Constructors of Rust enums that share a name get the initial of their
  enum as a suffix (\<open>Elem::Int\<close> is \<open>IntE\<close>, \<open>ConstantScalarValue::Int\<close> is \<open>IntC\<close>). Both payloads
  \<open>i64\<close> and \<open>u64\<close> are \<open>64 word\<close>, so the casts between them are the identity on the bits; \<^const>\<open>sint\<close>
  and \<^const>\<open>unat\<close> read them.
\<close>

unbundle bit_operations_syntax

type_synonym id = u32

named_theorems ir_simps \<open>unfolding the queries on variables and constants\<close>

section \<open>Element types\<close>

datatype float_kind =
    E2M1 | E2M3 | E3M2 | E4M3 | E5M2 | UE8M0 | F16 | BF16 | Flex32 | F32 | TF32 | F64

datatype int_kind = I8 | I16 | I32 | I64

datatype uint_kind = U8 | U16 | U32 | U64

datatype elem =
    FloatE float_kind
  | IntE int_kind
  | UIntE uint_kind
  | AtomicFloat float_kind
  | AtomicInt int_kind
  | AtomicUInt uint_kind
  | BoolE

datatype constant_scalar_value =
    IntC i64 int_kind
  | FloatC f64 float_kind
  | UIntC u64 uint_kind
  | BoolC bool

text \<open>\<open>Option<NonZero<u8>>\<close>; that the number is not zero is part of \<open>item_wf\<close>.\<close>

type_synonym vectorization = "u8 option"

record item =
  it_elem :: elem
  it_vectorization :: vectorization

definition item_wf :: "item \<Rightarrow> bool" where
  "item_wf it = (it_vectorization it \<noteq> Some 0)"

definition item_new :: "elem \<Rightarrow> item" where
  "item_new e = \<lparr>it_elem = e, it_vectorization = None\<rparr>"

definition item_vectorized :: "elem \<Rightarrow> vectorization \<Rightarrow> item" where
  "item_vectorized e vec = \<lparr>it_elem = e, it_vectorization = vec\<rparr>"

definition item_vectorize :: "item \<Rightarrow> vectorization \<Rightarrow> item" where
  "item_vectorize it vec = \<lparr>it_elem = it_elem it, it_vectorization = vec\<rparr>"

section \<open>Matrices, barriers and builtins\<close>

datatype matrix_ident = MatA | MatB | Accumulator

datatype matrix_layout = ColMajor | RowMajor | Undefined

record matrix =
  mat_ident :: matrix_ident
  mat_m :: u8
  mat_n :: u8
  mat_k :: u8
  mat_elem :: elem
  mat_layout :: matrix_layout

datatype barrier_level = UnitLevel | CubeCoop u32 | CubeManual u32

datatype builtin =
    UnitPos | UnitPosX | UnitPosY | UnitPosZ
  | CubePosCluster | CubePosClusterX | CubePosClusterY | CubePosClusterZ
  | CubePos | CubePosX | CubePosY | CubePosZ
  | CubeDim | CubeDimX | CubeDimY | CubeDimZ
  | CubeClusterDim | CubeClusterDimX | CubeClusterDimY | CubeClusterDimZ
  | CubeCount | CubeCountX | CubeCountY | CubeCountZ
  | PlaneDim | UnitPosPlane
  | AbsolutePos | AbsolutePosX | AbsolutePosY | AbsolutePosZ

section \<open>Variables\<close>

datatype variable_kind =
    GlobalInputArray id
  | GlobalOutputArray id
  | GlobalScalar id
  | TensorMap id
  | LocalArray id u32
  | LocalMut id
  | LocalConst id
  | Versioned id u16
  | ConstantScalar constant_scalar_value
  | ConstantArray id u32
  | SharedMemory id u32 "u32 option"
  | MatrixV id matrix
  | BuiltinV builtin
  | Pipeline id item u8
  | BarrierV id item barrier_level

record variable =
  v_kind :: variable_kind
  v_item :: item

definition variable_new :: "variable_kind \<Rightarrow> item \<Rightarrow> variable" where
  "variable_new k it = \<lparr>v_kind = k, v_item = it\<rparr>"

definition variable_builtin :: "builtin \<Rightarrow> variable" where
  "variable_builtin b = variable_new (BuiltinV b) (item_new (UIntE U32))"

fun constant_elem :: "constant_scalar_value \<Rightarrow> elem" where
  "constant_elem (IntC _ k) = IntE k"
| "constant_elem (FloatC _ k) = FloatE k"
| "constant_elem (UIntC _ k) = UIntE k"
| "constant_elem (BoolC _) = BoolE"

definition variable_constant :: "constant_scalar_value \<Rightarrow> variable" where
  "variable_constant scalar =
     (let e = (case scalar of
                IntC _ int_kind \<Rightarrow> IntE int_kind
              | FloatC _ float_kind \<Rightarrow> FloatE float_kind
              | UIntC _ kind \<Rightarrow> UIntE kind
              | BoolC _ \<Rightarrow> BoolE)
      in variable_new (ConstantScalar scalar) (item_new e))"

abbreviation variable_elem :: "variable \<Rightarrow> elem" where
  "variable_elem v \<equiv> it_elem (v_item v)"

fun is_immutable :: "variable \<Rightarrow> bool" where
  "is_immutable v =
     (case v_kind v of
        GlobalOutputArray _ \<Rightarrow> False
      | TensorMap _ \<Rightarrow> False
      | LocalMut _ \<Rightarrow> False
      | SharedMemory _ _ _ \<Rightarrow> False
      | MatrixV _ _ \<Rightarrow> False
      | LocalArray _ _ \<Rightarrow> False
      | GlobalInputArray _ \<Rightarrow> False
      | GlobalScalar _ \<Rightarrow> True
      | Versioned _ _ \<Rightarrow> True
      | LocalConst _ \<Rightarrow> True
      | ConstantScalar _ \<Rightarrow> True
      | ConstantArray _ _ \<Rightarrow> True
      | BuiltinV _ \<Rightarrow> True
      | Pipeline _ _ _ \<Rightarrow> False
      | BarrierV _ _ _ \<Rightarrow> False)"

fun is_array :: "variable \<Rightarrow> bool" where
  "is_array v =
     (case v_kind v of
        GlobalInputArray _ \<Rightarrow> True
      | GlobalOutputArray _ \<Rightarrow> True
      | ConstantArray _ _ \<Rightarrow> True
      | SharedMemory _ _ _ \<Rightarrow> True
      | LocalArray _ _ \<Rightarrow> True
      | MatrixV _ _ \<Rightarrow> True
      | _ \<Rightarrow> False)"

fun has_length :: "variable \<Rightarrow> bool" where
  "has_length v =
     (case v_kind v of GlobalInputArray _ \<Rightarrow> True | GlobalOutputArray _ \<Rightarrow> True | _ \<Rightarrow> False)"

fun has_buffer_length :: "variable \<Rightarrow> bool" where
  "has_buffer_length v =
     (case v_kind v of GlobalInputArray _ \<Rightarrow> True | GlobalOutputArray _ \<Rightarrow> True | _ \<Rightarrow> False)"

definition is_constant :: "variable \<Rightarrow> i64 \<Rightarrow> bool" where
  "is_constant v value =
     (case v_kind v of
        ConstantScalar (IntC val _) \<Rightarrow> val = value
      | ConstantScalar (UIntC val _) \<Rightarrow> val = value
      | ConstantScalar (FloatC val _) \<Rightarrow> f64_eq val (f64_of_int (sint value))
      | _ \<Rightarrow> False)"

definition is_true :: "variable \<Rightarrow> bool" where
  "is_true v = (case v_kind v of ConstantScalar (BoolC val) \<Rightarrow> val | _ \<Rightarrow> False)"

definition is_false :: "variable \<Rightarrow> bool" where
  "is_false v = (case v_kind v of ConstantScalar (BoolC val) \<Rightarrow> \<not> val | _ \<Rightarrow> False)"

definition as_const :: "variable \<Rightarrow> constant_scalar_value option" where
  "as_const v = (case v_kind v of ConstantScalar c \<Rightarrow> Some c | _ \<Rightarrow> None)"

definition vectorization_factor :: "variable \<Rightarrow> u8" where
  "vectorization_factor v = (case it_vectorization (v_item v) of None \<Rightarrow> 1 | Some n \<Rightarrow> n)"

fun variable_index :: "variable \<Rightarrow> id option" where
  "variable_index v =
     (case v_kind v of
        GlobalInputArray i \<Rightarrow> Some i
      | GlobalOutputArray i \<Rightarrow> Some i
      | TensorMap i \<Rightarrow> Some i
      | GlobalScalar i \<Rightarrow> Some i
      | LocalMut i \<Rightarrow> Some i
      | Versioned i _ \<Rightarrow> Some i
      | LocalConst i \<Rightarrow> Some i
      | ConstantArray i _ \<Rightarrow> Some i
      | SharedMemory i _ _ \<Rightarrow> Some i
      | LocalArray i _ \<Rightarrow> Some i
      | MatrixV i _ \<Rightarrow> Some i
      | _ \<Rightarrow> None)"

section \<open>Constants as numbers\<close>

fun try_as_usize :: "constant_scalar_value \<Rightarrow> u64 option" where
  "try_as_usize (UIntC val _) = Some val"
| "try_as_usize (IntC val _) = Some val"
| "try_as_usize (FloatC _ _) = None"
| "try_as_usize (BoolC _) = None"

fun try_as_u32 :: "constant_scalar_value \<Rightarrow> u32 option" where
  "try_as_u32 (UIntC val _) = Some (ucast val)"
| "try_as_u32 (IntC val _) = Some (ucast val)"
| "try_as_u32 (FloatC _ _) = None"
| "try_as_u32 (BoolC _) = None"

fun try_as_u64 :: "constant_scalar_value \<Rightarrow> u64 option" where
  "try_as_u64 (UIntC val _) = Some val"
| "try_as_u64 (IntC val _) = Some val"
| "try_as_u64 (FloatC _ _) = None"
| "try_as_u64 (BoolC _) = None"

fun try_as_i64 :: "constant_scalar_value \<Rightarrow> i64 option" where
  "try_as_i64 (UIntC val _) = Some val"
| "try_as_i64 (IntC val _) = Some val"
| "try_as_i64 (FloatC _ _) = None"
| "try_as_i64 (BoolC _) = None"

fun try_as_bool :: "constant_scalar_value \<Rightarrow> bool option" where
  "try_as_bool (BoolC val) = Some val"
| "try_as_bool _ = None"

definition expect :: "string \<Rightarrow> 'a option \<Rightarrow> 'a exec" where
  "expect msg x = (case x of None \<Rightarrow> Panic (Explicit msg) | Some v \<Rightarrow> Ret v)"

definition as_usize :: "constant_scalar_value \<Rightarrow> u64 exec" where
  "as_usize c = expect ''Only Int and UInt kind can be made into usize.'' (try_as_usize c)"

definition as_u32 :: "constant_scalar_value \<Rightarrow> u32 exec" where
  "as_u32 c = expect ''Only Int and UInt kind can be made into u32.'' (try_as_u32 c)"

definition as_u64 :: "constant_scalar_value \<Rightarrow> u64 exec" where
  "as_u64 c = expect ''Only Int and UInt kind can be made into u64.'' (try_as_u64 c)"

definition as_i64 :: "constant_scalar_value \<Rightarrow> i64 exec" where
  "as_i64 c = expect ''Only Int and UInt kind can be made into i64.'' (try_as_i64 c)"

definition as_bool :: "constant_scalar_value \<Rightarrow> bool exec" where
  "as_bool c = expect ''Only bool can be made into a bool'' (try_as_bool c)"

fun is_zero :: "constant_scalar_value \<Rightarrow> bool" where
  "is_zero (IntC val _) = (val = 0)"
| "is_zero (FloatC val _) = f64_eq val (Finite 0)"
| "is_zero (UIntC val _) = (val = 0)"
| "is_zero (BoolC _) = False"

fun is_one :: "constant_scalar_value \<Rightarrow> bool" where
  "is_one (IntC val _) = (val = 1)"
| "is_one (FloatC val _) = f64_eq val (Finite 1)"
| "is_one (UIntC val _) = (val = 1)"
| "is_one (BoolC _) = False"

text \<open>The casts between the payloads.\<close>

abbreviation i64_as_f64 :: "i64 \<Rightarrow> f64" where "i64_as_f64 w \<equiv> f64_of_int (sint w)"
abbreviation u64_as_f64 :: "u64 \<Rightarrow> f64" where "u64_as_f64 w \<equiv> f64_of_nat (unat w)"
abbreviation f64_as_i64 :: "f64 \<Rightarrow> i64" where "f64_as_i64 x \<equiv> word_of_int (f64_to_i64 x)"
abbreviation f64_as_u64 :: "f64 \<Rightarrow> u64" where "f64_as_u64 x \<equiv> word_of_nat (f64_to_u64 x)"

fun cast_to :: "constant_scalar_value \<Rightarrow> elem \<Rightarrow> constant_scalar_value exec" where
  "cast_to (IntC val _) (FloatE k) = Ret (FloatC (i64_as_f64 val) k)"
| "cast_to (IntC val _) (IntE k) = Ret (IntC val k)"
| "cast_to (IntC val _) (UIntE k) = Ret (UIntC val k)"
| "cast_to (IntC val _) BoolE = Ret (BoolC (val = 1))"
| "cast_to (FloatC val _) (FloatE k) = Ret (FloatC val k)"
| "cast_to (FloatC val _) (IntE k) = Ret (IntC (f64_as_i64 val) k)"
| "cast_to (FloatC val _) (UIntE k) = Ret (UIntC (f64_as_u64 val) k)"
| "cast_to (FloatC val _) BoolE = Ret (BoolC (f64_eq val (Finite 0)))"
| "cast_to (UIntC val _) (FloatE k) = Ret (FloatC (u64_as_f64 val) k)"
| "cast_to (UIntC val _) (IntE k) = Ret (IntC val k)"
| "cast_to (UIntC val _) (UIntE k) = Ret (UIntC val k)"
| "cast_to (UIntC val _) BoolE = Ret (BoolC (val = 1))"
| "cast_to (BoolC val) (FloatE k) = Ret (FloatC (f64_of_bool val) k)"
| "cast_to (BoolC val) (IntE k) = Ret (IntC (of_bool val) k)"
| "cast_to (BoolC val) (UIntE k) = Ret (UIntC (of_bool val) k)"
| "cast_to (BoolC val) BoolE = Ret (BoolC val)"
| "cast_to _ _ = Panic (Explicit ''unreachable'')"

section \<open>Constants of an element type\<close>

definition constant_from_f64 :: "elem \<Rightarrow> f64 \<Rightarrow> variable" where
  "constant_from_f64 e val = variable_constant
     (case e of
        FloatE kind \<Rightarrow> FloatC val kind
      | IntE kind \<Rightarrow> IntC (f64_as_i64 val) kind
      | UIntE kind \<Rightarrow> UIntC (f64_as_u64 val) kind
      | BoolE \<Rightarrow> BoolC (f64_less (Finite 0) val)
      | AtomicInt kind \<Rightarrow> IntC (f64_as_i64 val) kind
      | AtomicUInt kind \<Rightarrow> UIntC (f64_as_u64 val) kind
      | AtomicFloat kind \<Rightarrow> FloatC val kind)"

definition constant_from_i64 :: "elem \<Rightarrow> i64 \<Rightarrow> variable" where
  "constant_from_i64 e val = variable_constant
     (case e of
        FloatE kind \<Rightarrow> FloatC (i64_as_f64 val) kind
      | IntE kind \<Rightarrow> IntC val kind
      | UIntE kind \<Rightarrow> UIntC val kind
      | BoolE \<Rightarrow> BoolC (0 < sint val)
      | AtomicInt kind \<Rightarrow> IntC val kind
      | AtomicUInt kind \<Rightarrow> UIntC val kind
      | AtomicFloat kind \<Rightarrow> FloatC (i64_as_f64 val) kind)"

definition constant_from_u64 :: "elem \<Rightarrow> u64 \<Rightarrow> variable" where
  "constant_from_u64 e val = variable_constant
     (case e of
        FloatE kind \<Rightarrow> FloatC (u64_as_f64 val) kind
      | IntE kind \<Rightarrow> IntC val kind
      | UIntE kind \<Rightarrow> UIntC val kind
      | BoolE \<Rightarrow> BoolC (0 < val)
      | AtomicInt kind \<Rightarrow> IntC val kind
      | AtomicUInt kind \<Rightarrow> UIntC val kind
      | AtomicFloat kind \<Rightarrow> FloatC (u64_as_f64 val) kind)"

definition constant_from_bool :: "elem \<Rightarrow> bool \<Rightarrow> variable" where
  "constant_from_bool e val = variable_constant
     (case e of
        FloatE kind \<Rightarrow> FloatC (f64_of_bool val) kind
      | IntE kind \<Rightarrow> IntC (of_bool val) kind
      | AtomicInt kind \<Rightarrow> IntC (of_bool val) kind
      | UIntE kind \<Rightarrow> UIntC (of_bool val) kind
      | AtomicUInt kind \<Rightarrow> UIntC (of_bool val) kind
      | AtomicFloat kind \<Rightarrow> FloatC (f64_of_bool val) kind
      | BoolE \<Rightarrow> BoolC val)"

definition from_constant :: "elem \<Rightarrow> variable \<Rightarrow> variable" where
  "from_constant e constant =
     (case v_kind constant of
        ConstantScalar value \<Rightarrow>
          (case value of
             IntC val _ \<Rightarrow> constant_from_i64 e val
           | FloatC val _ \<Rightarrow> constant_from_f64 e val
           | UIntC val _ \<Rightarrow> constant_from_u64 e val
           | BoolC val \<Rightarrow> constant_from_bool e val)
      | _ \<Rightarrow> constant)"

section \<open>Sizes and classes of element types\<close>

fun elem_size :: "elem \<Rightarrow> nat exec" where
  "elem_size e =
     (let float_size = (\<lambda>kind. case kind of
            E2M1 \<Rightarrow> Panic (Explicit ''Can't get byte size of sub-byte type'')
          | E2M3 \<Rightarrow> Ret 1 | E3M2 \<Rightarrow> Ret 1 | E4M3 \<Rightarrow> Ret 1 | E5M2 \<Rightarrow> Ret 1 | UE8M0 \<Rightarrow> Ret 1
          | F16 \<Rightarrow> Ret 2 | BF16 \<Rightarrow> Ret 2
          | F32 \<Rightarrow> Ret 4 | F64 \<Rightarrow> Ret 8 | Flex32 \<Rightarrow> Ret 4 | TF32 \<Rightarrow> Ret 4);
          int_size = (\<lambda>kind. case kind of I8 \<Rightarrow> Ret 1 | I16 \<Rightarrow> Ret 2 | I32 \<Rightarrow> Ret 4 | I64 \<Rightarrow> Ret 8);
          uint_size = (\<lambda>kind. case kind of U8 \<Rightarrow> Ret 1 | U16 \<Rightarrow> Ret 2 | U32 \<Rightarrow> Ret 4 | U64 \<Rightarrow> Ret 8)
      in case e of
        FloatE kind \<Rightarrow> float_size kind
      | AtomicFloat kind \<Rightarrow> float_size kind
      | IntE kind \<Rightarrow> int_size kind
      | AtomicInt kind \<Rightarrow> int_size kind
      | UIntE kind \<Rightarrow> uint_size kind
      | AtomicUInt kind \<Rightarrow> uint_size kind
      | BoolE \<Rightarrow> Ret 1)"

definition elem_size_bits :: "elem \<Rightarrow> nat exec" where
  "elem_size_bits e =
     (if e = FloatE E2M1 \<or> e = AtomicFloat E2M1 then Ret 4
      else bindE (elem_size e) (\<lambda>n. Ret (n * 8)))"

definition min_line_size :: "elem \<Rightarrow> nat" where
  "min_line_size e = (case e of FloatE E2M1 \<Rightarrow> 2 | _ \<Rightarrow> 1)"

fun is_atomic :: "elem \<Rightarrow> bool" where
  "is_atomic e = (case e of AtomicFloat _ \<Rightarrow> True | AtomicInt _ \<Rightarrow> True | AtomicUInt _ \<Rightarrow> True | _ \<Rightarrow> False)"

fun is_int :: "elem \<Rightarrow> bool" where
  "is_int e =
     (case e of IntE _ \<Rightarrow> True | AtomicInt _ \<Rightarrow> True | UIntE _ \<Rightarrow> True | AtomicUInt _ \<Rightarrow> True
      | BoolE \<Rightarrow> True | _ \<Rightarrow> False)"

fun is_signed_int :: "elem \<Rightarrow> bool" where
  "is_signed_int e = (case e of IntE _ \<Rightarrow> True | AtomicInt _ \<Rightarrow> True | _ \<Rightarrow> False)"

fun is_unsigned_int :: "elem \<Rightarrow> bool" where
  "is_unsigned_int e =
     (case e of UIntE _ \<Rightarrow> True | AtomicUInt _ \<Rightarrow> True | BoolE \<Rightarrow> True | _ \<Rightarrow> False)"

fun is_float :: "elem \<Rightarrow> bool" where
  "is_float e = (case e of FloatE _ \<Rightarrow> True | AtomicFloat _ \<Rightarrow> True | _ \<Rightarrow> False)"


text \<open>
  The bounds of \<open>half::f16\<close> and \<open>half::bf16\<close> (already widened to \<open>f64\<close>) belong to the crate
  \<open>half\<close> and are a parameter.
\<close>

record half_consts =
  f16_max :: f64
  f16_min :: f64
  bf16_max :: f64
  bf16_min :: f64

definition f32_max :: rat where "f32_max = (2 ^ 24 - 1) * 2 ^ 104"
definition f64_largest :: rat where "f64_largest = (2 ^ 53 - 1) * 2 ^ 971"

text \<open>\<open>MAX\<close> and \<open>MIN\<close> of the small floats of \<open>cubecl-common\<close>.\<close>

definition e2m1_max :: f64 where "e2m1_max = Finite 3"
definition e2m3_max :: f64 where "e2m3_max = Finite (15 / 4)"
definition e3m2_max :: f64 where "e3m2_max = Finite 14"
definition e4m3_max :: f64 where "e4m3_max = Finite 240"
definition e5m2_max :: f64 where "e5m2_max = Finite 57344"
definition ue8m0_max :: f64 where "ue8m0_max = Finite (2 ^ 127)"
definition e2m1_min :: f64 where "e2m1_min = Finite (- 3)"
definition e2m3_min :: f64 where "e2m3_min = Finite (- (15 / 4))"
definition e3m2_min :: f64 where "e3m2_min = Finite (- 14)"
definition e4m3_min :: f64 where "e4m3_min = Finite (- 240)"
definition e5m2_min :: f64 where "e5m2_min = Finite (- 57344)"
definition ue8m0_min :: f64 where "ue8m0_min = Finite 0"

definition max_variable :: "half_consts \<Rightarrow> elem \<Rightarrow> variable" where
  "max_variable half e =
     (let float_value = (\<lambda>kind. case kind of
            E2M1 \<Rightarrow> FloatC e2m1_max E2M1
          | E2M3 \<Rightarrow> FloatC e2m3_max E2M3
          | E3M2 \<Rightarrow> FloatC e3m2_max E3M2
          | E4M3 \<Rightarrow> FloatC e4m3_max E4M3
          | E5M2 \<Rightarrow> FloatC e5m2_max E5M2
          | UE8M0 \<Rightarrow> FloatC ue8m0_max UE8M0
          | F16 \<Rightarrow> FloatC (f16_max half) F16
          | BF16 \<Rightarrow> FloatC (bf16_max half) BF16
          | Flex32 \<Rightarrow> FloatC (Finite f32_max) Flex32
          | F32 \<Rightarrow> FloatC (Finite f32_max) F32
          | TF32 \<Rightarrow> FloatC (Finite f32_max) TF32
          | F64 \<Rightarrow> FloatC (Finite f64_largest) F64);
          int_value = (\<lambda>kind. case kind of
            I8 \<Rightarrow> IntC (2 ^ 7 - 1) I8
          | I16 \<Rightarrow> IntC (2 ^ 15 - 1) I16
          | I32 \<Rightarrow> IntC (2 ^ 31 - 1) I32
          | I64 \<Rightarrow> IntC (2 ^ 63 - 1) I64);
          uint_value = (\<lambda>kind. case kind of
            U8 \<Rightarrow> UIntC (2 ^ 8 - 1) U8
          | U16 \<Rightarrow> UIntC (2 ^ 16 - 1) U16
          | U32 \<Rightarrow> UIntC (2 ^ 32 - 1) U32
          | U64 \<Rightarrow> UIntC (- 1) U64);
          value = (case e of
            FloatE kind \<Rightarrow> float_value kind
          | AtomicFloat kind \<Rightarrow> float_value kind
          | IntE kind \<Rightarrow> int_value kind
          | AtomicInt kind \<Rightarrow> int_value kind
          | UIntE kind \<Rightarrow> uint_value kind
          | AtomicUInt kind \<Rightarrow> uint_value kind
          | BoolE \<Rightarrow> BoolC True)
      in variable_new (ConstantScalar value) (item_new e))"

definition min_variable :: "half_consts \<Rightarrow> elem \<Rightarrow> variable" where
  "min_variable half e =
     (let float_value = (\<lambda>kind. case kind of
            E2M1 \<Rightarrow> FloatC e2m1_min E2M1
          | E2M3 \<Rightarrow> FloatC e2m3_min E2M3
          | E3M2 \<Rightarrow> FloatC e3m2_min E3M2
          | E4M3 \<Rightarrow> FloatC e4m3_min E4M3
          | E5M2 \<Rightarrow> FloatC e5m2_min E5M2
          | UE8M0 \<Rightarrow> FloatC ue8m0_min UE8M0
          | F16 \<Rightarrow> FloatC (f16_min half) F16
          | BF16 \<Rightarrow> FloatC (bf16_min half) BF16
          | Flex32 \<Rightarrow> FloatC (Finite (- f32_max)) Flex32
          | F32 \<Rightarrow> FloatC (Finite (- f32_max)) F32
          | TF32 \<Rightarrow> FloatC (Finite (- f32_max)) TF32
          | F64 \<Rightarrow> FloatC (Finite (- f64_largest)) F64);
          int_value = (\<lambda>kind. case kind of
            I8 \<Rightarrow> IntC (- (2 ^ 7)) I8
          | I16 \<Rightarrow> IntC (- (2 ^ 15)) I16
          | I32 \<Rightarrow> IntC (- (2 ^ 31)) I32
          | I64 \<Rightarrow> IntC (- (2 ^ 63)) I64);
          uint_value = (\<lambda>kind. case kind of
            U8 \<Rightarrow> UIntC 0 U8
          | U16 \<Rightarrow> UIntC 0 U16
          | U32 \<Rightarrow> UIntC 0 U32
          | U64 \<Rightarrow> UIntC 0 U64);
          value = (case e of
            FloatE kind \<Rightarrow> float_value kind
          | AtomicFloat kind \<Rightarrow> float_value kind
          | IntE kind \<Rightarrow> int_value kind
          | AtomicInt kind \<Rightarrow> int_value kind
          | UIntE kind \<Rightarrow> uint_value kind
          | AtomicUInt kind \<Rightarrow> uint_value kind
          | BoolE \<Rightarrow> BoolC False)
      in variable_new (ConstantScalar value) (item_new e))"

section \<open>Conversions from Rust values\<close>

definition variable_from_bool :: "bool \<Rightarrow> variable" where
  "variable_from_bool val = variable_constant (BoolC val)"

definition variable_from_i8 :: "8 word \<Rightarrow> variable" where
  "variable_from_i8 val = variable_constant (IntC (scast val) I8)"

definition variable_from_i16 :: "16 word \<Rightarrow> variable" where
  "variable_from_i16 val = variable_constant (IntC (scast val) I16)"

definition variable_from_i32 :: "32 word \<Rightarrow> variable" where
  "variable_from_i32 val = variable_constant (IntC (scast val) I32)"

definition variable_from_i64 :: "64 word \<Rightarrow> variable" where
  "variable_from_i64 val = variable_constant (IntC val I64)"

definition variable_from_f64 :: "f64 \<Rightarrow> variable" where
  "variable_from_f64 val = variable_constant (FloatC val F64)"

definition variable_from_u8 :: "8 word \<Rightarrow> variable" where
  "variable_from_u8 val = variable_constant (UIntC (ucast val) U8)"

definition variable_from_u16 :: "16 word \<Rightarrow> variable" where
  "variable_from_u16 val = variable_constant (UIntC (ucast val) U16)"

definition variable_from_u32 :: "32 word \<Rightarrow> variable" where
  "variable_from_u32 val = variable_constant (UIntC (ucast val) U32)"

definition variable_from_u64 :: "64 word \<Rightarrow> variable" where
  "variable_from_u64 val = variable_constant (UIntC val U64)"

definition variable_from_usize :: "64 word \<Rightarrow> variable" where
  "variable_from_usize val = variable_constant (UIntC val U32)"

section \<open>Printing types\<close>

definition digit_char :: "nat \<Rightarrow> char" where
  "digit_char d = char_of (48 + d)"

fun show_nat :: "nat \<Rightarrow> string" where
  "show_nat n = (if n < 10 then [digit_char n] else show_nat (n div 10) @ [digit_char (n mod 10)])"

declare show_nat.simps [simp del]

fun float_kind_display :: "float_kind \<Rightarrow> string" where
  "float_kind_display kind =
     (case kind of
        E2M1 \<Rightarrow> ''e2m1'' | E2M3 \<Rightarrow> ''e2m3'' | E3M2 \<Rightarrow> ''e3m2'' | E4M3 \<Rightarrow> ''e4m3''
      | E5M2 \<Rightarrow> ''e5m2'' | UE8M0 \<Rightarrow> ''ue8m0'' | F16 \<Rightarrow> ''f16'' | BF16 \<Rightarrow> ''bf16''
      | Flex32 \<Rightarrow> ''flex32'' | TF32 \<Rightarrow> ''tf32'' | F32 \<Rightarrow> ''f32'' | F64 \<Rightarrow> ''f64'')"

fun int_kind_display :: "int_kind \<Rightarrow> string" where
  "int_kind_display kind =
     (case kind of I8 \<Rightarrow> ''i8'' | I16 \<Rightarrow> ''i16'' | I32 \<Rightarrow> ''i32'' | I64 \<Rightarrow> ''i64'')"

fun uint_kind_display :: "uint_kind \<Rightarrow> string" where
  "uint_kind_display kind =
     (case kind of U8 \<Rightarrow> ''u8'' | U16 \<Rightarrow> ''u16'' | U32 \<Rightarrow> ''u32'' | U64 \<Rightarrow> ''u64'')"

fun elem_display :: "elem \<Rightarrow> string" where
  "elem_display (FloatE kind) = float_kind_display kind"
| "elem_display (AtomicFloat kind) = ''atomic<'' @ float_kind_display kind @ ''>''"
| "elem_display (IntE kind) = int_kind_display kind"
| "elem_display (AtomicInt kind) = ''atomic<'' @ int_kind_display kind @ ''>''"
| "elem_display (UIntE kind) = uint_kind_display kind"
| "elem_display (AtomicUInt kind) = ''atomic<'' @ uint_kind_display kind @ ''>''"
| "elem_display BoolE = ''bool''"

definition item_display :: "item \<Rightarrow> string" where
  "item_display it =
     (case it_vectorization it of
        Some vec \<Rightarrow>
          if 1 < vec then ''vector'' @ show_nat (unat vec) @ ''<'' @ elem_display (it_elem it) @ ''>''
          else elem_display (it_elem it)
      | None \<Rightarrow> elem_display (it_elem it))"

text \<open>\<open>item_compatible\<close> of the optimizer (\<open>expression_merge.rs\<close>): two types a plain copy may connect.\<close>

definition item_compatible :: "item \<Rightarrow> item \<Rightarrow> bool" where
  "item_compatible lhs rhs =
     (let vectorization_lhs = (case it_vectorization lhs of None \<Rightarrow> 1 | Some n \<Rightarrow> n);
          vectorization_rhs = (case it_vectorization rhs of None \<Rightarrow> 1 | Some n \<Rightarrow> n)
      in vectorization_lhs = vectorization_rhs \<and> it_elem lhs = it_elem rhs)"

section \<open>Lemmas\<close>

lemma variable_new_sel [simp]: "v_kind (variable_new k it) = k" "v_item (variable_new k it) = it"
  by (simp_all add: variable_new_def)

lemma item_new_sel [simp]: "it_elem (item_new e) = e" "it_vectorization (item_new e) = None"
  by (simp_all add: item_new_def)

lemma variable_constant_sel [simp]:
  "v_kind (variable_constant c) = ConstantScalar c"
  "v_item (variable_constant c) = item_new (constant_elem c)"
  by (cases c; simp add: variable_constant_def)+

lemma as_const_constant [simp]: "as_const (variable_constant c) = Some c"
  by (simp add: as_const_def)

lemma as_const_Some: "as_const v = Some c \<longleftrightarrow> v_kind v = ConstantScalar c"
  by (auto simp: as_const_def split: variable_kind.splits)

lemma expect_wp [simp]:
  "returns (expect m x) Q \<longleftrightarrow> (\<exists>v. x = Some v \<and> Q v)"
  "on_return (expect m x) Q \<longleftrightarrow> (\<forall>v. x = Some v \<longrightarrow> Q v)"
  "expect m (Some v) = Ret v"
  by (auto simp: expect_def split: option.splits)

text \<open>The element type without \<open>Atomic\<close>: the type the constants of an element type have.\<close>

fun plain_elem :: "elem \<Rightarrow> elem" where
  "plain_elem (AtomicFloat k) = FloatE k"
| "plain_elem (AtomicInt k) = IntE k"
| "plain_elem (AtomicUInt k) = UIntE k"
| "plain_elem e = e"

lemma plain_elem_id: "\<not> is_atomic e \<Longrightarrow> plain_elem e = e"
  by (cases e) auto

lemma constant_from_elem [simp]:
  "v_item (constant_from_f64 e x) = item_new (plain_elem e)"
  "v_item (constant_from_i64 e i) = item_new (plain_elem e)"
  "v_item (constant_from_u64 e n) = item_new (plain_elem e)"
  "v_item (constant_from_bool e b) = item_new (plain_elem e)"
  by (cases e; simp add: constant_from_f64_def constant_from_i64_def constant_from_u64_def
      constant_from_bool_def)+

lemma cast_to_elem: "on_return (cast_to c e) (\<lambda>d. constant_elem d = e)"
  by (cases "(c, e)" rule: cast_to.cases) auto

lemma cast_to_returns: "returns (cast_to c e) (\<lambda>d. constant_elem d = e) \<longleftrightarrow> \<not> is_atomic e"
  by (cases "(c, e)" rule: cast_to.cases) auto

end
