(* ===== verification/IR_Display.thy ===== *)
theory IR_Display
  imports IR_Types
begin

text \<open>
  What the printed names of types determine: the printed decimal can be read back, distinct element
  types print differently, and two item types print alike exactly when the optimizer regards them
  as compatible.
\<close>

definition read_nat :: "string \<Rightarrow> nat" where
  "read_nat s = foldl (\<lambda>a c. 10 * a + (of_char c - 48)) 0 s"

lemma digit_char_code: "d < 10 \<Longrightarrow> of_char (digit_char d) = (48 + d :: nat)"
  by (simp add: digit_char_def)

lemma read_show_nat: "read_nat (show_nat n) = n"
proof (induction n rule: show_nat.induct)
  case (1 n)
  show ?case
  proof (cases "n < 10")
    case True
    then show ?thesis by (simp add: show_nat.simps read_nat_def digit_char_code)
  next
    case False
    then have "read_nat (show_nat n) = 10 * read_nat (show_nat (n div 10)) + n mod 10"
      by (simp add: show_nat.simps [of n] read_nat_def digit_char_code)
    also have "\<dots> = n" using 1 False by simp
    finally show ?thesis .
  qed
qed

lemma show_nat_digits: "c \<in> set (show_nat n) \<Longrightarrow> 48 \<le> (of_char c :: nat) \<and> (of_char c :: nat) < 58"
proof (induction n rule: show_nat.induct)
  case (1 n)
  then show ?case by (auto simp: show_nat.simps [of n] digit_char_code split: if_splits)
qed

lemma show_nat_no_angle: "CHR ''<'' \<notin> set (show_nat n)"
  using show_nat_digits [of "CHR ''<''" n] by auto

definition all_float_kinds :: "float_kind list" where
  "all_float_kinds = [E2M1, E2M3, E3M2, E4M3, E5M2, UE8M0, F16, BF16, Flex32, F32, TF32, F64]"

definition all_elems :: "elem list" where
  "all_elems = map FloatE all_float_kinds @ map IntE [I8, I16, I32, I64] @ map UIntE [U8, U16, U32, U64]
     @ map AtomicFloat all_float_kinds @ map AtomicInt [I8, I16, I32, I64]
     @ map AtomicUInt [U8, U16, U32, U64] @ [BoolE]"

lemma all_float_kinds [simp]: "k \<in> set all_float_kinds"
  by (cases k) (auto simp: all_float_kinds_def)

lemma all_elems [simp]: "e \<in> set all_elems"
proof -
  have "j \<in> {I8, I16, I32, I64}" for j by (cases j) simp_all
  moreover have "u \<in> {U8, U16, U32, U64}" for u by (cases u) simp_all
  ultimately show ?thesis
    by (cases e) (auto simp: all_elems_def)
qed

lemma elem_display_distinct: "distinct (map elem_display all_elems)"
  by (simp add: all_elems_def all_float_kinds_def)

lemma elem_display_inj [simp]: "elem_display a = elem_display b \<longleftrightarrow> a = b"
proof -
  have "inj_on elem_display (set all_elems)"
    using elem_display_distinct by (simp add: distinct_map)
  then show ?thesis by (auto simp: inj_on_def)
qed

lemma elem_display_hd: "\<exists>c cs. elem_display e = c # cs \<and> c \<noteq> CHR ''v''"
  by (cases e) (auto split: float_kind.splits int_kind.splits uint_kind.splits)

definition vector_display :: "nat \<Rightarrow> elem \<Rightarrow> string" where
  "vector_display n e = ''vector'' @ show_nat n @ ''<'' @ elem_display e @ ''>''"

lemma vector_display_neq: "elem_display e \<noteq> vector_display n e'"
  using elem_display_hd [of e] by (auto simp: vector_display_def)

lemma split_at_char:
  assumes "c \<notin> set xs" "c \<notin> set ys" "xs @ c # us = ys @ c # vs"
  shows "xs = ys \<and> us = vs"
proof -
  have *: "takeWhile (\<lambda>x. x \<noteq> c) (zs @ c # ws) = zs" if "c \<notin> set zs" for zs ws
    using that by (induction zs) auto
  from * [OF assms(1), of us] * [OF assms(2), of vs] assms(3) have "xs = ys" by simp
  with assms(3) show ?thesis by simp
qed

lemma vector_display_inj: "vector_display m a = vector_display n b \<longleftrightarrow> m = n \<and> a = b"
proof
  assume "vector_display m a = vector_display n b"
  then have "show_nat m @ CHR ''<'' # (elem_display a @ ''>'') = show_nat n @ CHR ''<'' # (elem_display b @ ''>'')"
    by (simp add: vector_display_def)
  from split_at_char [OF show_nat_no_angle show_nat_no_angle this]
  have "show_nat m = show_nat n" "elem_display a = elem_display b" by simp_all
  then show "m = n \<and> a = b" using read_show_nat by (metis elem_display_inj)
qed simp

definition lanes :: "item \<Rightarrow> u8" where
  "lanes it = (case it_vectorization it of None \<Rightarrow> 1 | Some n \<Rightarrow> n)"

lemma one_less_word: "1 < (n :: u8) \<longleftrightarrow> n \<noteq> 0 \<and> n \<noteq> 1"
proof -
  have "1 < unat n \<longleftrightarrow> unat n \<noteq> 0 \<and> unat n \<noteq> 1" by linarith
  then show ?thesis
    by (simp add: word_less_nat_alt word_unat_eq_iff)
qed

lemma item_display_alt:
  "item_wf it \<Longrightarrow> item_display it =
     (if lanes it = 1 then elem_display (it_elem it) else vector_display (unat (lanes it)) (it_elem it))"
  unfolding item_display_def lanes_def item_wf_def one_less_word vector_display_def
  by (simp split: option.splits)

text \<open>
  C12. Two item types print the same exactly when the optimizer treats them as compatible: the same
  element type (atomic and plain types are told apart) and the same number of lanes, where no
  vectorization means one lane.
\<close>

theorem item_display_iff_compatible:
  assumes "item_wf a" "item_wf b"
  shows "item_display a = item_display b \<longleftrightarrow> item_compatible a b"
proof -
  have "item_compatible a b \<longleftrightarrow> lanes a = lanes b \<and> it_elem a = it_elem b"
    by (simp add: item_compatible_def lanes_def)
  then show ?thesis
    using vector_display_neq [of "it_elem a"] vector_display_neq [of "it_elem b", symmetric]
    by (auto simp: item_display_alt assms vector_display_inj word_unat_eq_iff)
qed

theorem item_display_iff_compatible_witness:
  "item_display (item_vectorized (UIntE U32) (Some 1)) = item_display (item_new (UIntE U32))"
  using item_display_iff_compatible [of "item_vectorized (UIntE U32) (Some 1)" "item_new (UIntE U32)"]
  by (simp add: item_wf_def item_vectorized_def item_new_def item_compatible_def)

end
