(* ===== verification/IR_Operation.thy ===== *)
theory IR_Operation
  imports IR_Types
begin

text \<open>
  The operations of the intermediate representation, one datatype per enum of \<open>cubecl-ir/src\<close>:
  \<open>arithmetic.rs\<close>, \<open>comparison.rs\<close>, \<open>bitwise.rs\<close>, \<open>operator.rs\<close>, \<open>atomic.rs\<close>, \<open>metadata.rs\<close>,
  \<open>branch.rs\<close>, \<open>synchronization.rs\<close>, \<open>plane.rs\<close>, \<open>cmma.rs\<close>, \<open>barrier.rs\<close>, \<open>tma.rs\<close>,
  \<open>non_semantic.rs\<close>, \<open>scope.rs\<close> and \<open>operation.rs\<close>.

  The types are parametric in the type \<open>'v\<close> of operands; the program's operations are those over
  \<^typ>\<open>variable\<close>. The parameter gives every operation type a set of operands, an operand-wise map and
  an operand-wise relation, which serve as the reference for the code's own visitors and for the
  derived \<open>PartialEq\<close>. A scope's allocator, debug information and type map are handles shared by the
  whole kernel and are left out of the tree.
\<close>

section \<open>Operand groups\<close>

datatype 'v binary_operator = BinaryOperator (b_lhs: 'v) (b_rhs: 'v)
datatype 'v unary_operator = UnaryOperator (u_input: 'v)
datatype 'v fma_operator = FmaOperator (fma_a: 'v) (fma_b: 'v) (fma_c: 'v)
datatype 'v clamp_operator = ClampOperator (cl_input: 'v) (cl_min_value: 'v) (cl_max_value: 'v)
datatype 'v index_operator = IndexOperator (ix_list: 'v) (ix_index: 'v) (ix_line_size: u32)
datatype 'v index_assign_operator =
  IndexAssignOperator (ia_index: 'v) (ia_value: 'v) (ia_line_size: u32)
datatype 'v line_init_operator = LineInitOperator (li_inputs: "'v list")
datatype 'v copy_memory_operator =
  CopyMemoryOperator (cm_out_index: 'v) (cm_input: 'v) (cm_in_index: 'v)
datatype 'v copy_memory_bulk_operator =
  CopyMemoryBulkOperator (cb_out_index: 'v) (cb_input: 'v) (cb_in_index: 'v) (cb_len: 'v)
    (cb_offset_input: 'v) (cb_offset_out: 'v)
datatype 'v select = SelectOperator (se_cond: 'v) (se_then: 'v) (se_or_else: 'v)
datatype 'v compare_and_swap_operator =
  CompareAndSwapOperator (cas_input: 'v) (cas_cmp: 'v) (cas_val: 'v)

section \<open>Operations\<close>

datatype 'v arithmetic =
    Add "'v binary_operator"
  | Fma "'v fma_operator"
  | Sub "'v binary_operator"
  | Mul "'v binary_operator"
  | Div "'v binary_operator"
  | Abs "'v unary_operator"
  | Exp "'v unary_operator"
  | Log "'v unary_operator"
  | Log1p "'v unary_operator"
  | Cos "'v unary_operator"
  | Sin "'v unary_operator"
  | Tanh "'v unary_operator"
  | Powf "'v binary_operator"
  | Sqrt "'v unary_operator"
  | Round "'v unary_operator"
  | Floor "'v unary_operator"
  | Ceil "'v unary_operator"
  | Erf "'v unary_operator"
  | Recip "'v unary_operator"
  | Clamp "'v clamp_operator"
  | Modulo "'v binary_operator"
  | Neg "'v unary_operator"
  | MaxA "'v binary_operator"
  | MinA "'v binary_operator"
  | Remainder "'v binary_operator"
  | Magnitude "'v unary_operator"
  | Normalize "'v unary_operator"
  | Dot "'v binary_operator"
  | MulHi "'v binary_operator"

datatype 'v comparison =
    Lower "'v binary_operator"
  | LowerEqual "'v binary_operator"
  | Equal "'v binary_operator"
  | NotEqual "'v binary_operator"
  | GreaterEqual "'v binary_operator"
  | Greater "'v binary_operator"

datatype 'v bitwise =
    BitwiseAnd "'v binary_operator"
  | BitwiseOr "'v binary_operator"
  | BitwiseXor "'v binary_operator"
  | ShiftLeft "'v binary_operator"
  | ShiftRight "'v binary_operator"
  | CountOnes "'v unary_operator"
  | ReverseBits "'v unary_operator"
  | BitwiseNot "'v unary_operator"
  | LeadingZeros "'v unary_operator"
  | FindFirstSet "'v unary_operator"

datatype 'v operator =
    Index "'v index_operator"
  | CopyMemory "'v copy_memory_operator"
  | CopyMemoryBulk "'v copy_memory_bulk_operator"
  | UncheckedIndex "'v index_operator"
  | IndexAssign "'v index_assign_operator"
  | UncheckedIndexAssign "'v index_assign_operator"
  | InitLine "'v line_init_operator"
  | AndO "'v binary_operator"
  | OrO "'v binary_operator"
  | NotO "'v unary_operator"
  | Cast "'v unary_operator"
  | Reinterpret "'v unary_operator"
  | Select "'v select"

datatype 'v atomic_op =
    LoadT "'v unary_operator"
  | StoreT "'v unary_operator"
  | SwapT "'v binary_operator"
  | AddT "'v binary_operator"
  | SubT "'v binary_operator"
  | MaxT "'v binary_operator"
  | MinT "'v binary_operator"
  | AndT "'v binary_operator"
  | OrT "'v binary_operator"
  | XorT "'v binary_operator"
  | CompareAndSwapT "'v compare_and_swap_operator"

datatype 'v metadata =
    Rank 'v
  | Stride (md_dim: 'v) (md_var: 'v)
  | Shape (md_dim: 'v) (md_var: 'v)
  | Length 'v
  | BufferLength 'v

datatype synchronization = SyncCube | SyncPlane | SyncStorage | SyncProxyShared

datatype 'v plane =
    Elect
  | AllP "'v unary_operator"
  | AnyP "'v unary_operator"
  | Ballot "'v unary_operator"
  | Broadcast "'v binary_operator"
  | SumP "'v unary_operator"
  | InclusiveSum "'v unary_operator"
  | ExclusiveSum "'v unary_operator"
  | Prod "'v unary_operator"
  | InclusiveProd "'v unary_operator"
  | ExclusiveProd "'v unary_operator"
  | MinP "'v unary_operator"
  | MaxP "'v unary_operator"

datatype 'v coop_mma =
    FillM 'v
  | LoadM (lm_value: 'v) (lm_stride: 'v) (lm_offset: 'v) (lm_layout: "matrix_layout option")
  | ExecuteM (ex_mat_a: 'v) (ex_mat_b: 'v) (ex_mat_c: 'v)
  | StoreM (sm_mat: 'v) (sm_stride: 'v) (sm_offset: 'v) (sm_layout: matrix_layout)
  | CastM 'v

datatype 'v barrier_ops =
    InitB (bar_barrier: 'v) (with_cta_fence: bool)
  | MemCopyAsync (bar_barrier: 'v) (mc_source: 'v) (mc_source_length: 'v) (mc_offset_source: 'v)
      (mc_offset_out: 'v)
  | TmaLoad (bar_barrier: 'v) (tl_tensor_map: 'v) (tl_indices: "'v list") (tl_offset_out: 'v)
  | TmaLoadIm2col (bar_barrier: 'v) (ti_tensor_map: 'v) (ti_indices: "'v list")
      (ti_offsets: "'v list") (ti_offset_out: 'v)
  | Arrive (bar_barrier: 'v)
  | ArriveTx (bar_barrier: 'v) (at_arrive_count_update: 'v) (at_transaction_count_update: 'v)
  | ExpectTx (bar_barrier: 'v) (et_transaction_count_update: 'v)
  | Wait (bar_barrier: 'v)
  | ArriveAndWait (bar_barrier: 'v)

datatype 'v tma_ops =
    TmaStore (ts_source: 'v) (ts_coordinates: "'v list") (ts_offset_source: 'v)
  | CommitGroup
  | WaitGroup u32
  | WaitGroupRead u32

datatype 'v non_semantic =
    EnterDebugScope
  | ExitDebugScope
  | Print string "'v list"
  | Comment string

record cube_fn_source =
  fs_function_name :: string
  fs_file :: string
  fs_source_text :: string
  fs_line :: u32
  fs_column :: u32

record source_loc =
  sl_line :: u32
  sl_column :: u32
  sl_source :: cube_fn_source

datatype 'v operation =
    CopyO 'v
  | ArithmeticO "'v arithmetic"
  | ComparisonO "'v comparison"
  | BitwiseO "'v bitwise"
  | OperatorO "'v operator"
  | AtomicO "'v atomic_op"
  | MetadataO "'v metadata"
  | BranchO "'v branch"
  | SynchronizationO synchronization
  | PlaneO "'v plane"
  | CoopMmaO "'v coop_mma"
  | BarrierO "'v barrier_ops"
  | TmaO "'v tma_ops"
  | NonSemanticO "'v non_semantic"
and 'v branch =
    IfB (br_cond: 'v) (br_scope: "'v scope")
  | IfElseB (br_cond: 'v) (br_scope_if: "'v scope") (br_scope_else: "'v scope")
  | SwitchB (br_value: 'v) (br_scope_default: "'v scope") (br_cases: "('v \<times> 'v scope) list")
  | RangeLoopB (br_i: 'v) (br_start: 'v) (br_end: 'v) (br_step: "'v option") (br_inclusive: bool)
      (br_scope: "'v scope")
  | LoopB (br_scope: "'v scope")
  | ReturnB
  | BreakB
and 'v scope =
    Scope (sc_depth: u8) (sc_instructions: "'v instruction list") (sc_locals: "'v list")
      (sc_matrices: "'v list") (sc_pipelines: "'v list") (sc_barriers: "'v list")
      (sc_shared_memories: "'v list") (sc_const_arrays: "('v \<times> 'v list) list")
      (sc_local_arrays: "'v list") (sc_index_offset_with_output_layout_position: "nat list")
and 'v instruction =
    Instruction (i_out: "'v option") (i_source_loc: "source_loc option") (i_operation: "'v operation")

section \<open>Instructions\<close>

definition instruction_new :: "variable operation \<Rightarrow> variable \<Rightarrow> variable instruction" where
  "instruction_new op v = Instruction (Some v) None op"

definition instruction_no_out :: "variable operation \<Rightarrow> variable instruction" where
  "instruction_no_out op = Instruction None None op"

definition inst_out :: "variable instruction \<Rightarrow> variable exec" where
  "inst_out inst = unwrap (i_out inst)"

definition inst_item :: "variable instruction \<Rightarrow> item exec" where
  "inst_item inst = bindE (inst_out inst) (\<lambda>v. Ret (v_item v))"

definition with_operation :: "variable instruction \<Rightarrow> variable operation \<Rightarrow> variable instruction" where
  "with_operation inst op = Instruction (i_out inst) (i_source_loc inst) op"

lemma with_operation_sel [simp]:
  "i_out (with_operation inst op) = i_out inst"
  "i_operation (with_operation inst op) = op"
  "i_source_loc (with_operation inst op) = i_source_loc inst"
  by (simp_all add: with_operation_def)

lemma instruction_new_sel [simp]:
  "i_out (instruction_new op v) = Some v"
  "i_operation (instruction_new op v) = op"
  by (simp_all add: instruction_new_def)

section \<open>Attributes of operations\<close>

text \<open>
  \<open>is_pure\<close> and \<open>is_commutative\<close> as the derive macro \<open>OperationReflect\<close> generates them from the
  \<open>#[operation(...)]\<close> attributes of each enum; \<open>Branch\<close>, \<open>CoopMma\<close> and \<open>NonSemantic\<close> implement the
  trait by hand and keep its defaults.
\<close>

fun operator_is_pure :: "'v operator \<Rightarrow> bool" where
  "operator_is_pure (Index _) = True"
| "operator_is_pure (CopyMemory _) = False"
| "operator_is_pure (CopyMemoryBulk _) = False"
| "operator_is_pure (UncheckedIndex _) = True"
| "operator_is_pure (IndexAssign _) = False"
| "operator_is_pure (UncheckedIndexAssign _) = False"
| "operator_is_pure (InitLine _) = True"
| "operator_is_pure (AndO _) = True"
| "operator_is_pure (OrO _) = True"
| "operator_is_pure (NotO _) = True"
| "operator_is_pure (Cast _) = True"
| "operator_is_pure (Reinterpret _) = True"
| "operator_is_pure (Select _) = True"

fun is_pure :: "'v operation \<Rightarrow> bool" where
  "is_pure (CopyO _) = True"
| "is_pure (ArithmeticO _) = True"
| "is_pure (ComparisonO _) = True"
| "is_pure (BitwiseO _) = True"
| "is_pure (OperatorO op) = operator_is_pure op"
| "is_pure (AtomicO _) = False"
| "is_pure (MetadataO _) = True"
| "is_pure (BranchO _) = False"
| "is_pure (SynchronizationO _) = False"
| "is_pure (PlaneO _) = False"
| "is_pure (CoopMmaO _) = False"
| "is_pure (BarrierO _) = False"
| "is_pure (TmaO _) = False"
| "is_pure (NonSemanticO _) = False"

fun arithmetic_is_commutative :: "'v arithmetic \<Rightarrow> bool" where
  "arithmetic_is_commutative op =
     (case op of Add _ \<Rightarrow> True | Mul _ \<Rightarrow> True | MaxA _ \<Rightarrow> True | MinA _ \<Rightarrow> True | Dot _ \<Rightarrow> True
      | MulHi _ \<Rightarrow> True | _ \<Rightarrow> False)"

fun is_commutative :: "'v operation \<Rightarrow> bool" where
  "is_commutative (ArithmeticO op) = arithmetic_is_commutative op"
| "is_commutative (ComparisonO op) = (case op of Equal _ \<Rightarrow> True | NotEqual _ \<Rightarrow> True | _ \<Rightarrow> False)"
| "is_commutative (BitwiseO op) =
     (case op of BitwiseAnd _ \<Rightarrow> True | BitwiseOr _ \<Rightarrow> True | BitwiseXor _ \<Rightarrow> True | _ \<Rightarrow> False)"
| "is_commutative (OperatorO op) = (case op of AndO _ \<Rightarrow> True | OrO _ \<Rightarrow> True | _ \<Rightarrow> False)"
| "is_commutative _ = False"

end
