(* ===== verification/Opt_Visitor.thy ===== *)
theory Opt_Visitor
  imports IR_Operation
begin

text \<open>
  \<open>cubecl-opt/src/instructions.rs\<close>: the visitors every analysis and pass of the optimizer uses to
  reach the operands of an operation. A visitor is a closure that may change its own state and the
  variable it is given; it is called on the operands in the order of the source. \<open>reads\<close> collects
  the visited variables, \<open>rename\<close> replaces them.
\<close>

type_synonym ('s, 'v) visitor = "'s \<Rightarrow> 'v \<Rightarrow> 's \<times> 'v"

section \<open>The visitors\<close>

definition visit_unop :: "('s, 'v) visitor \<Rightarrow> 's \<Rightarrow> 'v unary_operator \<Rightarrow> 's \<times> 'v unary_operator" where
  "visit_unop f s op = (let (s, x) = f s (u_input op) in (s, UnaryOperator x))"

definition visit_binop :: "('s, 'v) visitor \<Rightarrow> 's \<Rightarrow> 'v binary_operator \<Rightarrow> 's \<times> 'v binary_operator" where
  "visit_binop f s op =
     (let (s, x) = f s (b_lhs op); (s, y) = f s (b_rhs op) in (s, BinaryOperator x y))"

fun visit_vars :: "('s, 'v) visitor \<Rightarrow> 's \<Rightarrow> 'v list \<Rightarrow> 's \<times> 'v list" where
  "visit_vars f s [] = (s, [])"
| "visit_vars f s (x # xs) = (let (s, y) = f s x; (s, ys) = visit_vars f s xs in (s, y # ys))"

definition in_ctor :: "('a \<Rightarrow> 'b) \<Rightarrow> 's \<times> 'a \<Rightarrow> 's \<times> 'b" where
  "in_ctor C p = (fst p, C (snd p))"

fun visit_arithmetic :: "('s, 'v) visitor \<Rightarrow> 's \<Rightarrow> 'v arithmetic \<Rightarrow> 's \<times> 'v arithmetic" where
  "visit_arithmetic f s (Fma op) =
     (let (s, a) = f s (fma_a op); (s, b) = f s (fma_b op); (s, c) = f s (fma_c op)
      in (s, Fma (FmaOperator a b c)))"
| "visit_arithmetic f s (Add op) = in_ctor Add (visit_binop f s op)"
| "visit_arithmetic f s (Sub op) = in_ctor Sub (visit_binop f s op)"
| "visit_arithmetic f s (Mul op) = in_ctor Mul (visit_binop f s op)"
| "visit_arithmetic f s (Div op) = in_ctor Div (visit_binop f s op)"
| "visit_arithmetic f s (Powf op) = in_ctor Powf (visit_binop f s op)"
| "visit_arithmetic f s (Modulo op) = in_ctor Modulo (visit_binop f s op)"
| "visit_arithmetic f s (MaxA op) = in_ctor MaxA (visit_binop f s op)"
| "visit_arithmetic f s (MinA op) = in_ctor MinA (visit_binop f s op)"
| "visit_arithmetic f s (Remainder op) = in_ctor Remainder (visit_binop f s op)"
| "visit_arithmetic f s (Dot op) = in_ctor Dot (visit_binop f s op)"
| "visit_arithmetic f s (MulHi op) = in_ctor MulHi (visit_binop f s op)"
| "visit_arithmetic f s (Abs op) = in_ctor Abs (visit_unop f s op)"
| "visit_arithmetic f s (Exp op) = in_ctor Exp (visit_unop f s op)"
| "visit_arithmetic f s (Log op) = in_ctor Log (visit_unop f s op)"
| "visit_arithmetic f s (Log1p op) = in_ctor Log1p (visit_unop f s op)"
| "visit_arithmetic f s (Cos op) = in_ctor Cos (visit_unop f s op)"
| "visit_arithmetic f s (Sin op) = in_ctor Sin (visit_unop f s op)"
| "visit_arithmetic f s (Tanh op) = in_ctor Tanh (visit_unop f s op)"
| "visit_arithmetic f s (Sqrt op) = in_ctor Sqrt (visit_unop f s op)"
| "visit_arithmetic f s (Round op) = in_ctor Round (visit_unop f s op)"
| "visit_arithmetic f s (Floor op) = in_ctor Floor (visit_unop f s op)"
| "visit_arithmetic f s (Ceil op) = in_ctor Ceil (visit_unop f s op)"
| "visit_arithmetic f s (Erf op) = in_ctor Erf (visit_unop f s op)"
| "visit_arithmetic f s (Recip op) = in_ctor Recip (visit_unop f s op)"
| "visit_arithmetic f s (Neg op) = in_ctor Neg (visit_unop f s op)"
| "visit_arithmetic f s (Magnitude op) = in_ctor Magnitude (visit_unop f s op)"
| "visit_arithmetic f s (Normalize op) = in_ctor Normalize (visit_unop f s op)"
| "visit_arithmetic f s (Clamp op) =
     (let (s, a) = f s (cl_input op); (s, b) = f s (cl_min_value op); (s, c) = f s (cl_max_value op)
      in (s, Clamp (ClampOperator a b c)))"

fun visit_compare :: "('s, 'v) visitor \<Rightarrow> 's \<Rightarrow> 'v comparison \<Rightarrow> 's \<times> 'v comparison" where
  "visit_compare f s (Equal op) = in_ctor Equal (visit_binop f s op)"
| "visit_compare f s (NotEqual op) = in_ctor NotEqual (visit_binop f s op)"
| "visit_compare f s (LowerEqual op) = in_ctor LowerEqual (visit_binop f s op)"
| "visit_compare f s (Greater op) = in_ctor Greater (visit_binop f s op)"
| "visit_compare f s (Lower op) = in_ctor Lower (visit_binop f s op)"
| "visit_compare f s (GreaterEqual op) = in_ctor GreaterEqual (visit_binop f s op)"

fun visit_bitwise :: "('s, 'v) visitor \<Rightarrow> 's \<Rightarrow> 'v bitwise \<Rightarrow> 's \<times> 'v bitwise" where
  "visit_bitwise f s (BitwiseAnd op) = in_ctor BitwiseAnd (visit_binop f s op)"
| "visit_bitwise f s (BitwiseOr op) = in_ctor BitwiseOr (visit_binop f s op)"
| "visit_bitwise f s (BitwiseXor op) = in_ctor BitwiseXor (visit_binop f s op)"
| "visit_bitwise f s (ShiftLeft op) = in_ctor ShiftLeft (visit_binop f s op)"
| "visit_bitwise f s (ShiftRight op) = in_ctor ShiftRight (visit_binop f s op)"
| "visit_bitwise f s (CountOnes op) = in_ctor CountOnes (visit_unop f s op)"
| "visit_bitwise f s (BitwiseNot op) = in_ctor BitwiseNot (visit_unop f s op)"
| "visit_bitwise f s (ReverseBits op) = in_ctor ReverseBits (visit_unop f s op)"
| "visit_bitwise f s (LeadingZeros op) = in_ctor LeadingZeros (visit_unop f s op)"
| "visit_bitwise f s (FindFirstSet op) = in_ctor FindFirstSet (visit_unop f s op)"

definition visit_index :: "('s, 'v) visitor \<Rightarrow> 's \<Rightarrow> 'v index_operator \<Rightarrow> 's \<times> 'v index_operator" where
  "visit_index f s op =
     (let (s, l) = f s (ix_list op); (s, i) = f s (ix_index op)
      in (s, IndexOperator l i (ix_line_size op)))"

definition visit_index_assign ::
  "('s, 'v) visitor \<Rightarrow> 's \<Rightarrow> 'v index_assign_operator \<Rightarrow> 's \<times> 'v index_assign_operator" where
  "visit_index_assign f s op =
     (let (s, i) = f s (ia_index op); (s, v) = f s (ia_value op)
      in (s, IndexAssignOperator i v (ia_line_size op)))"

fun visit_operator :: "('s, 'v) visitor \<Rightarrow> 's \<Rightarrow> 'v operator \<Rightarrow> 's \<times> 'v operator" where
  "visit_operator f s (AndO op) = in_ctor AndO (visit_binop f s op)"
| "visit_operator f s (OrO op) = in_ctor OrO (visit_binop f s op)"
| "visit_operator f s (NotO op) = in_ctor NotO (visit_unop f s op)"
| "visit_operator f s (Cast op) = in_ctor Cast (visit_unop f s op)"
| "visit_operator f s (Reinterpret op) = in_ctor Reinterpret (visit_unop f s op)"
| "visit_operator f s (Index op) = in_ctor Index (visit_index f s op)"
| "visit_operator f s (UncheckedIndex op) = in_ctor UncheckedIndex (visit_index f s op)"
| "visit_operator f s (IndexAssign op) = in_ctor IndexAssign (visit_index_assign f s op)"
| "visit_operator f s (UncheckedIndexAssign op) = in_ctor UncheckedIndexAssign (visit_index_assign f s op)"
| "visit_operator f s (InitLine op) =
     (let (s, xs) = visit_vars f s (li_inputs op) in (s, InitLine (LineInitOperator xs)))"
| "visit_operator f s (CopyMemory op) =
     (let (s, x) = f s (cm_input op); (s, i) = f s (cm_in_index op); (s, j) = f s (cm_out_index op)
      in (s, CopyMemory (CopyMemoryOperator j x i)))"
| "visit_operator f s (CopyMemoryBulk op) =
     (let (s, x) = f s (cb_input op); (s, i) = f s (cb_in_index op); (s, j) = f s (cb_out_index op)
      in (s, CopyMemoryBulk (CopyMemoryBulkOperator j x i (cb_len op) (cb_offset_input op) (cb_offset_out op))))"
| "visit_operator f s (Select op) =
     (let (s, a) = f s (se_cond op); (s, b) = f s (se_then op); (s, c) = f s (se_or_else op)
      in (s, Select (SelectOperator a b c)))"

text \<open>An atomic store also visits the output, which therefore is part of the result.\<close>

fun visit_atomic ::
  "('s, 'v) visitor \<Rightarrow> 's \<Rightarrow> 'v atomic_op \<Rightarrow> 'v option \<Rightarrow> ('s \<times> 'v atomic_op \<times> 'v option) exec" where
  "visit_atomic f s (AddT op) v = (let (s, op) = visit_binop f s op in Ret (s, AddT op, v))"
| "visit_atomic f s (SubT op) v = (let (s, op) = visit_binop f s op in Ret (s, SubT op, v))"
| "visit_atomic f s (MaxT op) v = (let (s, op) = visit_binop f s op in Ret (s, MaxT op, v))"
| "visit_atomic f s (MinT op) v = (let (s, op) = visit_binop f s op in Ret (s, MinT op, v))"
| "visit_atomic f s (AndT op) v = (let (s, op) = visit_binop f s op in Ret (s, AndT op, v))"
| "visit_atomic f s (OrT op) v = (let (s, op) = visit_binop f s op in Ret (s, OrT op, v))"
| "visit_atomic f s (XorT op) v = (let (s, op) = visit_binop f s op in Ret (s, XorT op, v))"
| "visit_atomic f s (SwapT op) v = (let (s, op) = visit_binop f s op in Ret (s, SwapT op, v))"
| "visit_atomic f s (LoadT op) v = (let (s, op) = visit_unop f s op in Ret (s, LoadT op, v))"
| "visit_atomic f s (StoreT op) v =
     bindE (unwrap v) (\<lambda>w.
       let (s, w) = f s w; (s, op) = visit_unop f s op in Ret (s, StoreT op, Some w))"
| "visit_atomic f s (CompareAndSwapT op) v =
     (let (s, c) = f s (cas_cmp op); (s, c) = f s c; (s, x) = f s (cas_val op)
      in Ret (s, CompareAndSwapT (CompareAndSwapOperator (cas_input op) c x), v))"

fun visit_meta :: "('s, 'v) visitor \<Rightarrow> 's \<Rightarrow> 'v metadata \<Rightarrow> 's \<times> 'v metadata" where
  "visit_meta f s (Rank v) = in_ctor Rank (f s v)"
| "visit_meta f s (Stride d v) = (let (s, d) = f s d; (s, v) = f s v in (s, Stride d v))"
| "visit_meta f s (Shape d v) = (let (s, d) = f s d; (s, v) = f s v in (s, Shape d v))"
| "visit_meta f s (Length v) = in_ctor Length (f s v)"
| "visit_meta f s (BufferLength v) = in_ctor BufferLength (f s v)"

fun visit_plane :: "('s, 'v) visitor \<Rightarrow> 's \<Rightarrow> 'v plane \<Rightarrow> 's \<times> 'v plane" where
  "visit_plane f s Elect = (s, Elect)"
| "visit_plane f s (Broadcast op) = in_ctor Broadcast (visit_binop f s op)"
| "visit_plane f s (AllP op) = in_ctor AllP (visit_unop f s op)"
| "visit_plane f s (AnyP op) = in_ctor AnyP (visit_unop f s op)"
| "visit_plane f s (SumP op) = in_ctor SumP (visit_unop f s op)"
| "visit_plane f s (InclusiveSum op) = in_ctor InclusiveSum (visit_unop f s op)"
| "visit_plane f s (ExclusiveSum op) = in_ctor ExclusiveSum (visit_unop f s op)"
| "visit_plane f s (Prod op) = in_ctor Prod (visit_unop f s op)"
| "visit_plane f s (InclusiveProd op) = in_ctor InclusiveProd (visit_unop f s op)"
| "visit_plane f s (ExclusiveProd op) = in_ctor ExclusiveProd (visit_unop f s op)"
| "visit_plane f s (MinP op) = in_ctor MinP (visit_unop f s op)"
| "visit_plane f s (MaxP op) = in_ctor MaxP (visit_unop f s op)"
| "visit_plane f s (Ballot op) = in_ctor Ballot (visit_unop f s op)"

fun visit_cmma :: "('s, 'v) visitor \<Rightarrow> 's \<Rightarrow> 'v coop_mma \<Rightarrow> 's \<times> 'v coop_mma" where
  "visit_cmma f s (FillM v) = in_ctor FillM (f s v)"
| "visit_cmma f s (LoadM v stride offset layout) =
     (let (s, v) = f s v; (s, stride) = f s stride; (s, offset) = f s offset
      in (s, LoadM v stride offset layout))"
| "visit_cmma f s (ExecuteM a b c) =
     (let (s, a) = f s a; (s, b) = f s b; (s, c) = f s c in (s, ExecuteM a b c))"
| "visit_cmma f s (StoreM m stride offset layout) =
     (let (s, m) = f s m; (s, stride) = f s stride; (s, offset) = f s offset
      in (s, StoreM m stride offset layout))"
| "visit_cmma f s (CastM v) = in_ctor CastM (f s v)"

fun visit_barrier :: "('s, 'v) visitor \<Rightarrow> 's \<Rightarrow> 'v barrier_ops \<Rightarrow> 's \<times> 'v barrier_ops" where
  "visit_barrier f s (InitB b fence) = (let (s, b) = f s b in (s, InitB b fence))"
| "visit_barrier f s (MemCopyAsync b source source_length offset_source offset_out) =
     (let (s, b) = f s b; (s, source_length) = f s source_length; (s, source) = f s source;
          (s, offset_source) = f s offset_source; (s, offset_out) = f s offset_out
      in (s, MemCopyAsync b source source_length offset_source offset_out))"
| "visit_barrier f s (TmaLoad b tensor_map indices offset_out) =
     (let (s, offset_out) = f s offset_out; (s, b) = f s b; (s, tensor_map) = f s tensor_map;
          (s, indices) = visit_vars f s indices
      in (s, TmaLoad b tensor_map indices offset_out))"
| "visit_barrier f s (TmaLoadIm2col b tensor_map indices offsets offset_out) =
     (let (s, offset_out) = f s offset_out; (s, b) = f s b; (s, tensor_map) = f s tensor_map;
          (s, indices) = visit_vars f s indices; (s, offsets) = visit_vars f s offsets
      in (s, TmaLoadIm2col b tensor_map indices offsets offset_out))"
| "visit_barrier f s (ArriveAndWait b) = in_ctor ArriveAndWait (f s b)"
| "visit_barrier f s (Arrive b) = in_ctor Arrive (f s b)"
| "visit_barrier f s (ArriveTx b arrive_count transaction_count) =
     (let (s, b) = f s b; (s, arrive_count) = f s arrive_count; (s, transaction_count) = f s transaction_count
      in (s, ArriveTx b arrive_count transaction_count))"
| "visit_barrier f s (ExpectTx b transaction_count) =
     (let (s, b) = f s b; (s, transaction_count) = f s transaction_count in (s, ExpectTx b transaction_count))"
| "visit_barrier f s (Wait b) = in_ctor Wait (f s b)"

fun visit_tma :: "('s, 'v) visitor \<Rightarrow> 's \<Rightarrow> 'v tma_ops \<Rightarrow> 's \<times> 'v tma_ops" where
  "visit_tma f s (TmaStore source coordinates offset_source) =
     (let (s, source) = f s source; (s, offset_source) = f s offset_source;
          (s, coordinates) = visit_vars f s coordinates
      in (s, TmaStore source coordinates offset_source))"
| "visit_tma f s CommitGroup = (s, CommitGroup)"
| "visit_tma f s (WaitGroup n) = (s, WaitGroup n)"
| "visit_tma f s (WaitGroupRead n) = (s, WaitGroupRead n)"

fun visit_nonsemantic :: "('s, 'v) visitor \<Rightarrow> 's \<Rightarrow> 'v non_semantic \<Rightarrow> 's \<times> 'v non_semantic" where
  "visit_nonsemantic f s (Comment c) = (s, Comment c)"
| "visit_nonsemantic f s EnterDebugScope = (s, EnterDebugScope)"
| "visit_nonsemantic f s ExitDebugScope = (s, ExitDebugScope)"
| "visit_nonsemantic f s (Print fmt args) = in_ctor (Print fmt) (visit_vars f s args)"

definition keep_out :: "'v option \<Rightarrow> 's \<times> 'a \<Rightarrow> ('s \<times> 'a \<times> 'v option) exec" where
  "keep_out v p = Ret (fst p, snd p, v)"

fun visit_operation ::
  "('s, 'v) visitor \<Rightarrow> 's \<Rightarrow> 'v operation \<Rightarrow> 'v option \<Rightarrow> ('s \<times> 'v operation \<times> 'v option) exec" where
  "visit_operation f s (CopyO x) v = keep_out v (in_ctor CopyO (f s x))"
| "visit_operation f s (ArithmeticO op) v = keep_out v (in_ctor ArithmeticO (visit_arithmetic f s op))"
| "visit_operation f s (ComparisonO op) v = keep_out v (in_ctor ComparisonO (visit_compare f s op))"
| "visit_operation f s (BitwiseO op) v = keep_out v (in_ctor BitwiseO (visit_bitwise f s op))"
| "visit_operation f s (OperatorO op) v = keep_out v (in_ctor OperatorO (visit_operator f s op))"
| "visit_operation f s (AtomicO op) v =
     bindE (visit_atomic f s op v) (\<lambda>(s, op, v). Ret (s, AtomicO op, v))"
| "visit_operation f s (MetadataO op) v = keep_out v (in_ctor MetadataO (visit_meta f s op))"
| "visit_operation f s (SynchronizationO op) v = Ret (s, SynchronizationO op, v)"
| "visit_operation f s (PlaneO op) v = keep_out v (in_ctor PlaneO (visit_plane f s op))"
| "visit_operation f s (CoopMmaO op) v = keep_out v (in_ctor CoopMmaO (visit_cmma f s op))"
| "visit_operation f s (BranchO op) v = Panic (Explicit ''unreachable'')"
| "visit_operation f s (BarrierO op) v = keep_out v (in_ctor BarrierO (visit_barrier f s op))"
| "visit_operation f s (TmaO op) v = keep_out v (in_ctor TmaO (visit_tma f s op))"
| "visit_operation f s (NonSemanticO op) v = keep_out v (in_ctor NonSemanticO (visit_nonsemantic f s op))"

definition visit_out :: "('s, 'v) visitor \<Rightarrow> 's \<Rightarrow> 'v option \<Rightarrow> 's \<times> 'v option" where
  "visit_out f s v = (case v of None \<Rightarrow> (s, None) | Some w \<Rightarrow> in_ctor Some (f s w))"

text \<open>The read and the write visitor share the state; writes come first.\<close>

definition visit_instruction ::
  "('s, 'v) visitor \<Rightarrow> ('s, 'v) visitor \<Rightarrow> 's \<Rightarrow> 'v instruction \<Rightarrow> ('s \<times> 'v instruction) exec" where
  "visit_instruction visit_read visit_write s inst =
     (let (s, v) = visit_out visit_write s (i_out inst) in
      bindE (visit_operation visit_read s (i_operation inst) v) (\<lambda>(s, op, v).
        Ret (s, Instruction v (i_source_loc inst) op)))"

section \<open>Collecting and renaming\<close>

definition collector :: "('v list, 'v) visitor" where
  "collector acc v = (acc @ [v], v)"

definition renamer :: "('v \<Rightarrow> 'v) \<Rightarrow> (unit, 'v) visitor" where
  "renamer g s v = ((), g v)"

definition reads :: "'v operation \<Rightarrow> 'v option \<Rightarrow> 'v list exec" where
  "reads op v = bindE (visit_operation collector [] op v) (\<lambda>(s, _, _). Ret s)"

definition rename :: "('v \<Rightarrow> 'v) \<Rightarrow> 'v operation \<Rightarrow> 'v option \<Rightarrow> ('v operation \<times> 'v option) exec" where
  "rename g op v = bindE (visit_operation (renamer g) () op v) (\<lambda>(_, op, v). Ret (op, v))"

lemmas visit_simps = visit_unop_def visit_binop_def visit_index_def visit_index_assign_def in_ctor_def
  keep_out_def collector_def renamer_def Let_def split_beta

lemma visit_vars_collector: "visit_vars collector acc xs = (acc @ xs, xs)"
  by (induction xs arbitrary: acc) (simp_all add: collector_def)

lemma visit_vars_renamer: "visit_vars (renamer g) s xs = ((), map g xs)"
  by (induction xs arbitrary: s) (simp_all add: renamer_def)

text \<open>The operations some of whose operands the visitor leaves out.\<close>

fun partly_visited :: "'v operation \<Rightarrow> bool" where
  "partly_visited (OperatorO (CopyMemoryBulk _)) = True"
| "partly_visited (AtomicO (CompareAndSwapT _)) = True"
| "partly_visited (BranchO _) = True"
| "partly_visited _ = False"

fun is_atomic_store :: "'v operation \<Rightarrow> bool" where
  "is_atomic_store (AtomicO (StoreT _)) = True"
| "is_atomic_store _ = False"


section \<open>The renaming visitor is the operand-wise map\<close>

lemma in_ctor_simp [simp]: "in_ctor C (s, x) = (s, C x)"
  by (simp add: in_ctor_def)

lemma keep_out_simp [simp]: "keep_out v (s, x) = Ret (s, x, v)"
  by (simp add: keep_out_def)

lemma renamer_simp [simp]: "renamer g s v = ((), g v)"
  by (simp add: renamer_def)

lemma collector_simp [simp]: "collector acc v = (acc @ [v], v)"
  by (simp add: collector_def)

declare visit_vars_collector [simp] visit_vars_renamer [simp]

lemma rename_groups [simp]:
  "visit_unop (renamer g) s u = ((), map_unary_operator g u)"
  "visit_binop (renamer g) s b = ((), map_binary_operator g b)"
  "visit_index (renamer g) s i = ((), map_index_operator g i)"
  "visit_index_assign (renamer g) s j = ((), map_index_assign_operator g j)"
  by (cases u; cases b; cases i; cases j;
      simp add: visit_unop_def visit_binop_def visit_index_def visit_index_assign_def)+

lemma rename_arithmetic [simp]: "visit_arithmetic (renamer g) s op = ((), map_arithmetic g op)"
proof (cases op)
  case (Fma x)
  then show ?thesis by (cases x) simp
next
  case (Clamp x)
  then show ?thesis by (cases x) simp
qed simp_all

lemma rename_compare [simp]: "visit_compare (renamer g) s op = ((), map_comparison g op)"
  by (cases op) simp_all

lemma rename_bitwise [simp]: "visit_bitwise (renamer g) s op = ((), map_bitwise g op)"
  by (cases op) simp_all

lemma rename_operator [simp]:
  "\<not> partly_visited (OperatorO op) \<Longrightarrow> visit_operator (renamer g) s op = ((), map_operator g op)"
proof (cases op)
  case (InitLine x)
  then show ?thesis by (cases x) simp
next
  case (CopyMemory x)
  then show ?thesis by (cases x) simp
next
  case (Select x)
  then show ?thesis by (cases x) simp
qed simp_all

lemma rename_atomic [simp]:
  "\<not> partly_visited (AtomicO op) \<Longrightarrow> (is_atomic_store (AtomicO op) \<Longrightarrow> v \<noteq> None) \<Longrightarrow>
   visit_atomic (renamer g) s op v =
     Ret ((), map_atomic_op g op, if is_atomic_store (AtomicO op) then map_option g v else v)"
  by (cases op) (auto simp: unwrap_def)

lemma rename_others [simp]:
  "visit_meta (renamer g) () m = ((), map_metadata g m)"
  "visit_plane (renamer g) () p = ((), map_plane g p)"
  "visit_cmma (renamer g) () c = ((), map_coop_mma g c)"
  "visit_barrier (renamer g) () b = ((), map_barrier_ops g b)"
  "visit_tma (renamer g) () t = ((), map_tma_ops g t)"
  "visit_nonsemantic (renamer g) () n = ((), map_non_semantic g n)"
  subgoal by (cases m) simp_all
  subgoal by (cases p) simp_all
  subgoal by (cases c) simp_all
  subgoal by (cases b) simp_all
  subgoal by (cases t) simp_all
  subgoal by (cases n) simp_all
  done

lemma rename_complete:
  assumes "\<not> partly_visited op" "is_atomic_store op \<Longrightarrow> v \<noteq> None"
  shows "rename g op v = Ret (map_operation g op, if is_atomic_store op then map_option g v else v)"
  using assms by (cases op) (simp_all add: rename_def)

section \<open>The collecting visitor finds every operand\<close>

lemma collect_groups [simp]:
  "visit_unop collector acc u = (acc @ [u_input u], u)"
  "visit_binop collector acc b = (acc @ [b_lhs b, b_rhs b], b)"
  "visit_index collector acc i = (acc @ [ix_list i, ix_index i], i)"
  "visit_index_assign collector acc j = (acc @ [ia_index j, ia_value j], j)"
  by (simp_all add: visit_unop_def visit_binop_def visit_index_def visit_index_assign_def)

lemma set_groups [simp]:
  "set_unary_operator u = {u_input u}"
  "set_binary_operator b = {b_lhs b, b_rhs b}"
  "set_index_operator i = {ix_list i, ix_index i}"
  "set_index_assign_operator j = {ia_index j, ia_value j}"
  subgoal by (cases u) auto
  subgoal by (cases b) auto
  subgoal by (cases i) auto
  subgoal by (cases j) auto
  done

lemma set_groups3 [simp]:
  "set_fma_operator f = {fma_a f, fma_b f, fma_c f}"
  "set_clamp_operator c = {cl_input c, cl_min_value c, cl_max_value c}"
  "set_line_init_operator l = set (li_inputs l)"
  "set_copy_memory_operator m = {cm_out_index m, cm_input m, cm_in_index m}"
  "set_select e = {se_cond e, se_then e, se_or_else e}"
  "set_compare_and_swap_operator w = {cas_input w, cas_cmp w, cas_val w}"
  subgoal by (cases f) auto
  subgoal by (cases c) auto
  subgoal by (cases l) auto
  subgoal by (cases m) auto
  subgoal by (cases e) auto
  subgoal by (cases w) auto
  done

definition finds :: "'v list \<Rightarrow> 'v set \<Rightarrow> 'v list \<times> 'a \<Rightarrow> bool" where
  "finds acc V p = (set (fst p) = set acc \<union> V)"

lemma collect_arithmetic: "finds acc (set_arithmetic op) (visit_arithmetic collector acc op)"
  by (cases op) (auto simp: finds_def)

lemma collect_compare: "finds acc (set_comparison op) (visit_compare collector acc op)"
  by (cases op) (auto simp: finds_def)

lemma collect_bitwise: "finds acc (set_bitwise op) (visit_bitwise collector acc op)"
  by (cases op) (auto simp: finds_def)

lemma collect_operator:
  "\<not> partly_visited (OperatorO op) \<Longrightarrow> finds acc (set_operator op) (visit_operator collector acc op)"
  by (cases op) (auto simp: finds_def)

lemma collect_atomic:
  "\<not> partly_visited (AtomicO op) \<Longrightarrow> (is_atomic_store (AtomicO op) \<Longrightarrow> v \<noteq> None) \<Longrightarrow>
   returns (visit_atomic collector acc op v)
     (finds acc (set_atomic_op op \<union> (if is_atomic_store (AtomicO op) then set_option v else {})))"
  by (cases op) (auto simp: finds_def)

lemma collect_others:
  "finds acc (set_metadata m) (visit_meta collector acc m)"
  "finds acc (set_plane p) (visit_plane collector acc p)"
  "finds acc (set_coop_mma c) (visit_cmma collector acc c)"
  "finds acc (set_barrier_ops b) (visit_barrier collector acc b)"
  "finds acc (set_tma_ops t) (visit_tma collector acc t)"
  "finds acc (set_non_semantic n) (visit_nonsemantic collector acc n)"
  subgoal by (cases m) (auto simp: finds_def)
  subgoal by (cases p) (auto simp: finds_def)
  subgoal by (cases c) (auto simp: finds_def)
  subgoal by (cases b) (auto simp: finds_def)
  subgoal by (cases t) (auto simp: finds_def)
  subgoal by (cases n) (auto simp: finds_def)
  done

lemmas collect_lemmas = collect_arithmetic collect_compare collect_bitwise collect_operator collect_others

lemma finds_in_ctor [simp]: "finds acc V (in_ctor C p) = finds acc V p"
  by (simp add: finds_def in_ctor_def)

lemma reads_pure:
  assumes "visit_operation collector [] op v = keep_out v p" "finds [] V p"
  shows "returns (reads op v) (\<lambda>xs. set xs = V)"
  using assms by (simp add: reads_def finds_def keep_out_def)

lemma reads_complete:
  assumes "\<not> partly_visited op" "is_atomic_store op \<Longrightarrow> v \<noteq> None"
  shows "returns (reads op v)
    (\<lambda>xs. set xs = set_operation op \<union> (if is_atomic_store op then set_option v else {}))"
proof (cases op)
  case (AtomicO a)
  then show ?thesis
    using assms returns_mono [OF collect_atomic [of a v "[]"]] by (auto simp: reads_def finds_def)
next
  case (CopyO x)
  then show ?thesis by (simp add: reads_def)
next
  case (SynchronizationO x)
  then show ?thesis by (simp add: reads_def)
next
  case (BranchO x)
  then show ?thesis using assms by simp
qed (use assms collect_lemmas in \<open>auto intro!: reads_pure\<close>)


section \<open>Properties\<close>

text \<open>
  C14. For every operation but the bulk copy, the compare-and-swap and the branches (which the
  optimizer never visits), the visitor reaches exactly the operands: renaming through it is the
  operand-wise map, and the variables it reports are all the operands (with the output, for an atomic
  store) and nothing else.
\<close>

theorem visitor_reaches_every_operand:
  assumes "\<not> partly_visited op" "is_atomic_store op \<Longrightarrow> v \<noteq> None"
  shows "rename g op v = Ret (map_operation g op, if is_atomic_store op then map_option g v else v)
    \<and> returns (reads op v)
        (\<lambda>xs. set xs = set_operation op \<union> (if is_atomic_store op then set_option v else {}))"
  using rename_complete [OF assms] reads_complete [OF assms] by simp

theorem visitor_reaches_every_operand_witness:
  "rename (\<lambda>_. variable_from_bool True)
     (OperatorO (Select (SelectOperator (variable_from_bool False) (variable_from_u32 1) (variable_from_u32 2)))) None
   = Ret (OperatorO (Select (SelectOperator (variable_from_bool True) (variable_from_bool True)
       (variable_from_bool True))), None)"
  using visitor_reaches_every_operand
    [of "OperatorO (Select (SelectOperator (variable_from_bool False) (variable_from_u32 1) (variable_from_u32 2)))"
      None "\<lambda>_. variable_from_bool True"]
  by simp

text \<open>
  What the visitor leaves out: of a bulk copy it reports the input and the two indices, neither
  the length nor the two offsets, and of a compare-and-swap it reports the expected value twice and
  the new value, not the atomic that is swapped. An analysis built on the visitor takes a variable
  that is only used there for unused.
\<close>

theorem visitor_misses_operands:
  "reads (OperatorO (CopyMemoryBulk (CopyMemoryBulkOperator out_index input in_index len offset_input offset_out))) v
     = Ret [input, in_index, out_index]
   \<and> reads (AtomicO (CompareAndSwapT (CompareAndSwapOperator atomic cmp new))) v = Ret [cmp, cmp, new]"
  by (simp_all add: reads_def)

end
