(* ===== verification/Opt_Program.thy ===== *)
theory Opt_Program
  imports Opt_Visitor
begin

text \<open>
  The state of the optimizer: \<open>BasicBlock\<close>, \<open>PhiInstruction\<close>, \<open>ControlFlow\<close>, \<open>Program\<close> and
  \<open>Optimizer\<close> of \<open>cubecl-opt/src\<close> (\<open>block.rs\<close>, \<open>version.rs\<close>, \<open>control_flow.rs\<close>, \<open>lib.rs\<close>).

  The graph container of \<open>petgraph\<close> is represented by its nodes and its edges, each list in the order
  in which the container iterates; the vector of a block's instructions, whose indices stay
  valid when an element is removed, by the list of its elements. What the closures of a pass do to the
  program is a function from the program to the program and the number of changes it counted.
\<close>

type_synonym node_index = nat
type_synonym edge_index = nat

datatype block_use = ContinueTarget | Merge

record phi_entry =
  pe_block :: node_index
  pe_value :: variable

record phi_instruction =
  phi_out :: variable
  phi_entries :: "phi_entry list"

datatype control_flow =
    IfElseF (cf_cond: variable) (cf_then: node_index) (cf_or_else: node_index) (cf_merge: "node_index option")
  | SwitchF (cf_value: variable) (cf_default: node_index) (cf_branches: "(u32 \<times> node_index) list")
      (cf_switch_merge: "node_index option")
  | LoopF (cf_body: node_index) (cf_continue_target: node_index) (cf_loop_merge: node_index)
  | LoopBreakF (cf_break_cond: variable) (cf_body: node_index) (cf_continue_target: node_index)
      (cf_loop_merge: node_index)
  | ReturnF
  | NoneF

record basic_block =
  bb_block_use :: "block_use list"
  bb_phi_nodes :: "phi_instruction list"
  bb_ops :: "variable instruction list"
  bb_control_flow :: control_flow

definition default_block :: basic_block where
  "default_block = \<lparr>bb_block_use = [], bb_phi_nodes = [], bb_ops = [], bb_control_flow = NoneF\<rparr>"

record const_array =
  ca_id :: id
  ca_length :: u32
  ca_item :: item
  ca_values :: "variable list"

record program =
  pg_const_arrays :: "const_array list"
  pg_variables :: "(id, item) hash_map"
  pg_nodes :: "(node_index \<times> basic_block) list"
  pg_edges :: "(edge_index \<times> node_index \<times> node_index) list"
  pg_root :: node_index

record cube_dim =
  cd_x :: u32
  cd_y :: u32
  cd_z :: u32

record optimizer =
  op_program :: program
  op_next_local :: u32
  op_ret :: node_index
  op_cube_dim :: cube_dim

definition node_ids :: "program \<Rightarrow> node_index list" where
  "node_ids p = map fst (pg_nodes p)"

definition predecessors :: "program \<Rightarrow> node_index \<Rightarrow> node_index list" where
  "predecessors p n = map (fst \<circ> snd) (filter (\<lambda>(_, _, t). t = n) (pg_edges p))"

definition successors :: "program \<Rightarrow> node_index \<Rightarrow> node_index list" where
  "successors p n = map (snd \<circ> snd) (filter (\<lambda>(_, s, _). s = n) (pg_edges p))"

text \<open>\<open>opt.program[node]\<close> panics when the node does not exist.\<close>

definition block_at :: "program \<Rightarrow> node_index \<Rightarrow> basic_block exec" where
  "block_at p n = unwrap (map_of (pg_nodes p) n)"

definition local_variable_id :: "variable \<Rightarrow> id option" where
  "local_variable_id v =
     (case v_kind v of LocalMut i \<Rightarrow> if \<not> is_atomic (variable_elem v) then Some i else None | _ \<Rightarrow> None)"

text \<open>\<open>Allocator::create_local\<close>: the counter of the kernel's local variables wraps like an atomic.\<close>

definition create_local :: "u32 \<Rightarrow> item \<Rightarrow> variable \<times> u32" where
  "create_local next_id it = (variable_new (LocalConst next_id) it, next_id + 1)"

section \<open>Passes over all instructions\<close>

text \<open>A pass that looks at one instruction at a time: \<open>None\<close> leaves the instruction as it is.\<close>

definition rewrite_inst ::
  "(variable instruction \<Rightarrow> variable operation option exec) \<Rightarrow> variable instruction \<Rightarrow> (variable instruction \<times> nat) exec" where
  "rewrite_inst f inst =
     bindE (f inst) (\<lambda>r. case r of
         None \<Rightarrow> Ret (inst, 0)
       | Some op \<Rightarrow> Ret (with_operation inst op, 1))"

definition rewrite_block ::
  "(variable instruction \<Rightarrow> variable operation option exec) \<Rightarrow> basic_block \<Rightarrow> (basic_block \<times> nat) exec" where
  "rewrite_block f b =
     bindE (mapE (rewrite_inst f) (bb_ops b)) (\<lambda>rs.
       Ret (b\<lparr>bb_ops := map fst rs\<rparr>, sum_list (map snd rs)))"

definition rewrite_program ::
  "(variable instruction \<Rightarrow> variable operation option exec) \<Rightarrow> program \<Rightarrow> (program \<times> nat) exec" where
  "rewrite_program f p =
     bindE (mapE (\<lambda>(n, b). bindE (rewrite_block f b) (\<lambda>(b, c). Ret ((n, b), c))) (pg_nodes p)) (\<lambda>rs.
       Ret (p\<lparr>pg_nodes := map fst rs\<rparr>, sum_list (map snd rs)))"

text \<open>What such a pass does to every instruction, it does to the program, and it changes nothing else.\<close>

definition blocks_related ::
  "(variable instruction \<Rightarrow> variable instruction \<Rightarrow> bool) \<Rightarrow> program \<Rightarrow> program \<Rightarrow> bool" where
  "blocks_related P p p' \<longleftrightarrow> p' = p\<lparr>pg_nodes := pg_nodes p'\<rparr> \<and>
     list_all2 (\<lambda>(n, b) (n', b'). n' = n \<and> b' = b\<lparr>bb_ops := bb_ops b'\<rparr> \<and> list_all2 P (bb_ops b) (bb_ops b'))
       (pg_nodes p) (pg_nodes p')"

definition all_insts :: "program \<Rightarrow> variable instruction set" where
  "all_insts p = (\<Union>(n, b) \<in> set (pg_nodes p). set (bb_ops b))"

lemma rewrite_block_returns:
  assumes "\<And>inst. inst \<in> set (bb_ops b) \<Longrightarrow> returns (rewrite_inst f inst) (\<lambda>r. P inst (fst r))"
  shows "returns (rewrite_block f b) (\<lambda>(b', _). b' = b\<lparr>bb_ops := bb_ops b'\<rparr> \<and> list_all2 P (bb_ops b) (bb_ops b'))"
proof -
  have "returns (mapE (rewrite_inst f) (bb_ops b)) (list_all2 (\<lambda>inst r. P inst (fst r)) (bb_ops b))"
    using assms by (rule mapE_returns)
  then show ?thesis unfolding rewrite_block_def
    by (auto elim!: returns_mono simp: list.rel_map case_prod_beta)
qed

lemma rewrite_program_returns:
  assumes "\<And>inst. inst \<in> all_insts p \<Longrightarrow> returns (rewrite_inst f inst) (\<lambda>r. P inst (fst r))"
  shows "returns (rewrite_program f p) (\<lambda>(p', _). blocks_related P p p')"
proof -
  let ?Q = "\<lambda>(n, b) (n', b'). n' = n \<and> b' = b\<lparr>bb_ops := bb_ops b'\<rparr> \<and> list_all2 P (bb_ops b) (bb_ops b')"
  have "returns (mapE (\<lambda>(n, b). bindE (rewrite_block f b) (\<lambda>(b, c). Ret ((n, b), c))) (pg_nodes p))
      (list_all2 (\<lambda>x r. ?Q x (fst r)) (pg_nodes p))"
  proof (rule mapE_returns)
    fix x assume x: "x \<in> set (pg_nodes p)"
    obtain n b where nb: "x = (n, b)" by fastforce
    have "returns (rewrite_block f b) (\<lambda>(b', _). b' = b\<lparr>bb_ops := bb_ops b'\<rparr> \<and> list_all2 P (bb_ops b) (bb_ops b'))"
      using x nb by (intro rewrite_block_returns assms) (auto simp: all_insts_def)
    then show "returns (case x of (n, b) \<Rightarrow> bindE (rewrite_block f b) (\<lambda>(b, c). Ret ((n, b), c))) (\<lambda>r. ?Q x (fst r))"
      by (auto simp: nb elim!: returns_mono)
  qed
  then show ?thesis unfolding rewrite_program_def blocks_related_def
    by (auto elim!: returns_mono simp: list.rel_map case_prod_beta)
qed

section \<open>Visiting the whole program\<close>

fun visit_phi :: "('s, variable) visitor \<Rightarrow> ('s, variable) visitor \<Rightarrow> 's \<Rightarrow> phi_instruction \<Rightarrow> 's \<times> phi_instruction" where
  "visit_phi visit_read visit_write s phi =
     (let (s, vs) = visit_vars visit_read s (map pe_value (phi_entries phi));
          (s, v) = visit_write s (phi_out phi)
      in (s, \<lparr>phi_out = v, phi_entries = map (\<lambda>(e, v). e\<lparr>pe_value := v\<rparr>) (zip (phi_entries phi) vs)\<rparr>))"

fun visit_phis :: "('s, variable) visitor \<Rightarrow> ('s, variable) visitor \<Rightarrow> 's \<Rightarrow> phi_instruction list \<Rightarrow> 's \<times> phi_instruction list" where
  "visit_phis r w s [] = (s, [])"
| "visit_phis r w s (x # xs) = (let (s, y) = visit_phi r w s x; (s, ys) = visit_phis r w s xs in (s, y # ys))"

fun visit_insts ::
  "('s, variable) visitor \<Rightarrow> ('s, variable) visitor \<Rightarrow> 's \<Rightarrow> variable instruction list \<Rightarrow> ('s \<times> variable instruction list) exec" where
  "visit_insts r w s [] = Ret (s, [])"
| "visit_insts r w s (x # xs) =
     bindE (visit_instruction r w s x) (\<lambda>(s, y).
     bindE (visit_insts r w s xs) (\<lambda>(s, ys). Ret (s, y # ys)))"

fun visit_control_flow :: "('s, variable) visitor \<Rightarrow> 's \<Rightarrow> control_flow \<Rightarrow> 's \<times> control_flow" where
  "visit_control_flow r s (IfElseF cond t e m) = (let (s, cond) = r s cond in (s, IfElseF cond t e m))"
| "visit_control_flow r s (LoopBreakF cond b c m) = (let (s, cond) = r s cond in (s, LoopBreakF cond b c m))"
| "visit_control_flow r s (SwitchF v d bs m) = (let (s, v) = r s v in (s, SwitchF v d bs m))"
| "visit_control_flow r s cf = (s, cf)"

definition visit_block ::
  "('s, variable) visitor \<Rightarrow> ('s, variable) visitor \<Rightarrow> 's \<Rightarrow> basic_block \<Rightarrow> ('s \<times> basic_block) exec" where
  "visit_block r w s b =
     (let (s, phis) = visit_phis r w s (bb_phi_nodes b) in
      bindE (visit_insts r w s (bb_ops b)) (\<lambda>(s, ops).
        let (s, cf) = visit_control_flow r s (bb_control_flow b)
        in Ret (s, b\<lparr>bb_phi_nodes := phis, bb_ops := ops, bb_control_flow := cf\<rparr>)))"

fun visit_nodes ::
  "('s, variable) visitor \<Rightarrow> ('s, variable) visitor \<Rightarrow> 's \<Rightarrow> (node_index \<times> basic_block) list \<Rightarrow>
     ('s \<times> (node_index \<times> basic_block) list) exec" where
  "visit_nodes r w s [] = Ret (s, [])"
| "visit_nodes r w s ((n, b) # bs) =
     bindE (visit_block r w s b) (\<lambda>(s, b).
     bindE (visit_nodes r w s bs) (\<lambda>(s, bs). Ret (s, (n, b) # bs)))"

definition visit_all ::
  "('s, variable) visitor \<Rightarrow> ('s, variable) visitor \<Rightarrow> 's \<Rightarrow> program \<Rightarrow> ('s \<times> program) exec" where
  "visit_all r w s p =
     bindE (visit_nodes r w s (pg_nodes p)) (\<lambda>(s, ns). Ret (s, p\<lparr>pg_nodes := ns\<rparr>))"

definition visit_noop :: "('s, 'v) visitor" where
  "visit_noop s v = (s, v)"

end
