(* ===== verification/IR_Processing.thy ===== *)
theory IR_Processing
  imports IR_Operation
begin

text \<open>
  \<open>cubecl-ir/src/processing.rs\<close>: before a scope is compiled, every constant operand is given the
  type its operation expects. The functions follow the match of \<open>sanitize_constant_scalars\<close> arm by
  arm; an arm that reads \<open>inst.out.unwrap()\<close> panics when the instruction has no output.
\<close>

record scope_processing =
  sp_variables :: "variable list"
  sp_instructions :: "variable instruction list"

definition sanitize_constant_scalar_ref_elem :: "variable \<Rightarrow> elem \<Rightarrow> variable" where
  "sanitize_constant_scalar_ref_elem var e =
     (case v_kind var of
        ConstantScalar scalar \<Rightarrow>
          if constant_elem scalar \<noteq> e
          then (case scalar of
                  IntC val _ \<Rightarrow> constant_from_i64 e val
                | FloatC val _ \<Rightarrow> constant_from_f64 e val
                | UIntC val _ \<Rightarrow> constant_from_u64 e val
                | BoolC val \<Rightarrow> constant_from_bool e val)
          else var
      | _ \<Rightarrow> var)"

definition sanitize_constant_scalar_ref_var :: "variable \<Rightarrow> variable \<Rightarrow> variable" where
  "sanitize_constant_scalar_ref_var var reference =
     sanitize_constant_scalar_ref_elem var (it_elem (v_item reference))"

abbreviation sanitize_u32 :: "variable \<Rightarrow> variable" where
  "sanitize_u32 v \<equiv> sanitize_constant_scalar_ref_elem v (UIntE U32)"

abbreviation sanitize_bool :: "variable \<Rightarrow> variable" where
  "sanitize_bool v \<equiv> sanitize_constant_scalar_ref_elem v BoolE"

text \<open>Both operands, or the only operand, after the type of the output.\<close>

definition sanitize_binary :: "variable \<Rightarrow> variable binary_operator \<Rightarrow> variable binary_operator" where
  "sanitize_binary v op =
     BinaryOperator (sanitize_constant_scalar_ref_var (b_lhs op) v)
       (sanitize_constant_scalar_ref_var (b_rhs op) v)"

definition sanitize_unary :: "variable \<Rightarrow> variable unary_operator \<Rightarrow> variable unary_operator" where
  "sanitize_unary v op = UnaryOperator (sanitize_constant_scalar_ref_var (u_input op) v)"

text \<open>The left operand after the type of the right one, then the right after the new left one.\<close>

definition sanitize_mutual :: "variable binary_operator \<Rightarrow> variable binary_operator" where
  "sanitize_mutual op =
     (let lhs = sanitize_constant_scalar_ref_var (b_lhs op) (b_rhs op);
          rhs = sanitize_constant_scalar_ref_var (b_rhs op) lhs
      in BinaryOperator lhs rhs)"

fun sanitize_arithmetic :: "variable \<Rightarrow> variable arithmetic \<Rightarrow> variable arithmetic" where
  "sanitize_arithmetic v (Add op) = Add (sanitize_binary v op)"
| "sanitize_arithmetic v (Fma op) =
     Fma (FmaOperator (sanitize_constant_scalar_ref_var (fma_a op) v)
       (sanitize_constant_scalar_ref_var (fma_b op) v) (sanitize_constant_scalar_ref_var (fma_c op) v))"
| "sanitize_arithmetic v (Sub op) = Sub (sanitize_binary v op)"
| "sanitize_arithmetic v (Mul op) = Mul (sanitize_binary v op)"
| "sanitize_arithmetic v (Div op) = Div (sanitize_binary v op)"
| "sanitize_arithmetic v (MulHi op) = MulHi (sanitize_binary v op)"
| "sanitize_arithmetic v (Abs op) = Abs (sanitize_unary v op)"
| "sanitize_arithmetic v (Exp op) = Exp (sanitize_unary v op)"
| "sanitize_arithmetic v (Log op) = Log (sanitize_unary v op)"
| "sanitize_arithmetic v (Log1p op) = Log1p (sanitize_unary v op)"
| "sanitize_arithmetic v (Cos op) = Cos (sanitize_unary v op)"
| "sanitize_arithmetic v (Sin op) = Sin (sanitize_unary v op)"
| "sanitize_arithmetic v (Tanh op) = Tanh (sanitize_unary v op)"
| "sanitize_arithmetic v (Powf op) = Powf (sanitize_binary v op)"
| "sanitize_arithmetic v (Sqrt op) = Sqrt (sanitize_unary v op)"
| "sanitize_arithmetic v (Round op) = Round (sanitize_unary v op)"
| "sanitize_arithmetic v (Floor op) = Floor (sanitize_unary v op)"
| "sanitize_arithmetic v (Ceil op) = Ceil (sanitize_unary v op)"
| "sanitize_arithmetic v (Erf op) = Erf (sanitize_unary v op)"
| "sanitize_arithmetic v (Recip op) = Recip (sanitize_unary v op)"
| "sanitize_arithmetic v (Clamp op) =
     Clamp (ClampOperator (sanitize_constant_scalar_ref_var (cl_input op) v)
       (sanitize_constant_scalar_ref_var (cl_min_value op) v)
       (sanitize_constant_scalar_ref_var (cl_max_value op) v))"
| "sanitize_arithmetic v (Modulo op) = Modulo (sanitize_binary v op)"
| "sanitize_arithmetic v (Neg op) = Neg (sanitize_unary v op)"
| "sanitize_arithmetic v (MaxA op) = MaxA (sanitize_binary v op)"
| "sanitize_arithmetic v (MinA op) = MinA (sanitize_binary v op)"
| "sanitize_arithmetic v (Remainder op) = Remainder (sanitize_binary v op)"
| "sanitize_arithmetic v (Magnitude op) = Magnitude (sanitize_unary v op)"
| "sanitize_arithmetic v (Normalize op) = Normalize (sanitize_unary v op)"
| "sanitize_arithmetic v (Dot op) = Dot (sanitize_binary v op)"

fun sanitize_comparison :: "variable comparison \<Rightarrow> variable comparison" where
  "sanitize_comparison (Greater op) = Greater (sanitize_mutual op)"
| "sanitize_comparison (LowerEqual op) = LowerEqual (sanitize_mutual op)"
| "sanitize_comparison (GreaterEqual op) = GreaterEqual (sanitize_mutual op)"
| "sanitize_comparison (Equal op) = Equal (sanitize_mutual op)"
| "sanitize_comparison (NotEqual op) = NotEqual (sanitize_mutual op)"
| "sanitize_comparison (Lower op) = Lower (sanitize_mutual op)"

text \<open>An arm that reads the output variable.\<close>

definition with_out :: "variable option \<Rightarrow> (variable \<Rightarrow> 'a) \<Rightarrow> 'a exec" where
  "with_out v f = bindE (unwrap v) (\<lambda>v. Ret (f v))"

fun sanitize_bitwise :: "variable option \<Rightarrow> variable bitwise \<Rightarrow> variable bitwise exec" where
  "sanitize_bitwise v (BitwiseAnd op) = with_out v (\<lambda>v. BitwiseAnd (sanitize_binary v op))"
| "sanitize_bitwise v (BitwiseOr op) = with_out v (\<lambda>v. BitwiseOr (sanitize_binary v op))"
| "sanitize_bitwise v (BitwiseXor op) = with_out v (\<lambda>v. BitwiseXor (sanitize_binary v op))"
| "sanitize_bitwise v (CountOnes op) = Ret (CountOnes op)"
| "sanitize_bitwise v (LeadingZeros op) = Ret (LeadingZeros op)"
| "sanitize_bitwise v (FindFirstSet op) = Ret (FindFirstSet op)"
| "sanitize_bitwise v (ReverseBits op) = with_out v (\<lambda>v. ReverseBits (sanitize_unary v op))"
| "sanitize_bitwise v (ShiftLeft op) = with_out v (\<lambda>v. ShiftLeft (sanitize_binary v op))"
| "sanitize_bitwise v (ShiftRight op) = with_out v (\<lambda>v. ShiftRight (sanitize_binary v op))"
| "sanitize_bitwise v (BitwiseNot op) = with_out v (\<lambda>v. BitwiseNot (sanitize_unary v op))"

definition sanitize_index :: "variable \<Rightarrow> variable index_operator \<Rightarrow> variable index_operator" where
  "sanitize_index v op =
     IndexOperator (sanitize_constant_scalar_ref_var (ix_list op) v) (sanitize_u32 (ix_index op))
       (ix_line_size op)"

definition sanitize_index_assign ::
  "variable \<Rightarrow> variable index_assign_operator \<Rightarrow> variable index_assign_operator" where
  "sanitize_index_assign v op =
     IndexAssignOperator (sanitize_u32 (ia_index op)) (sanitize_constant_scalar_ref_var (ia_value op) v)
       (ia_line_size op)"

fun sanitize_operator :: "variable option \<Rightarrow> variable operator \<Rightarrow> variable operator exec" where
  "sanitize_operator v (Index op) = with_out v (\<lambda>v. Index (sanitize_index v op))"
| "sanitize_operator v (UncheckedIndex op) = with_out v (\<lambda>v. UncheckedIndex (sanitize_index v op))"
| "sanitize_operator v (IndexAssign op) = with_out v (\<lambda>v. IndexAssign (sanitize_index_assign v op))"
| "sanitize_operator v (UncheckedIndexAssign op) =
     with_out v (\<lambda>v. UncheckedIndexAssign (sanitize_index_assign v op))"
| "sanitize_operator v (AndO op) = Ret (AndO (sanitize_mutual op))"
| "sanitize_operator v (OrO op) = Ret (OrO (sanitize_mutual op))"
| "sanitize_operator v (NotO op) = Ret (NotO (UnaryOperator (sanitize_bool (u_input op))))"
| "sanitize_operator v (InitLine op) = Ret (InitLine op)"
| "sanitize_operator v (CopyMemory op) =
     with_out v (\<lambda>v. CopyMemory (CopyMemoryOperator (sanitize_u32 (cm_out_index op))
       (sanitize_constant_scalar_ref_var (cm_input op) v) (sanitize_u32 (cm_in_index op))))"
| "sanitize_operator v (CopyMemoryBulk op) =
     with_out v (\<lambda>v. CopyMemoryBulk (CopyMemoryBulkOperator (sanitize_u32 (cb_out_index op))
       (sanitize_constant_scalar_ref_var (cb_input op) v) (sanitize_u32 (cb_in_index op))
       (cb_len op) (cb_offset_input op) (cb_offset_out op)))"
| "sanitize_operator v (Select op) =
     with_out v (\<lambda>v. Select (SelectOperator (sanitize_bool (se_cond op))
       (sanitize_constant_scalar_ref_var (se_then op) v)
       (sanitize_constant_scalar_ref_var (se_or_else op) v)))"
| "sanitize_operator v (Cast op) = Ret (Cast op)"
| "sanitize_operator v (Reinterpret op) = Ret (Reinterpret op)"

definition sanitize_rhs :: "variable \<Rightarrow> variable binary_operator \<Rightarrow> variable binary_operator" where
  "sanitize_rhs v op = BinaryOperator (b_lhs op) (sanitize_constant_scalar_ref_var (b_rhs op) v)"

fun sanitize_atomic :: "variable option \<Rightarrow> variable atomic_op \<Rightarrow> variable atomic_op exec" where
  "sanitize_atomic v (LoadT op) = Ret (LoadT op)"
| "sanitize_atomic v (StoreT op) = Ret (StoreT op)"
| "sanitize_atomic v (SwapT op) = with_out v (\<lambda>v. SwapT (sanitize_rhs v op))"
| "sanitize_atomic v (CompareAndSwapT op) =
     with_out v (\<lambda>v. CompareAndSwapT (CompareAndSwapOperator (cas_input op)
       (sanitize_constant_scalar_ref_var (cas_cmp op) v)
       (sanitize_constant_scalar_ref_var (cas_val op) v)))"
| "sanitize_atomic v (AddT op) = with_out v (\<lambda>v. AddT (sanitize_rhs v op))"
| "sanitize_atomic v (SubT op) = with_out v (\<lambda>v. SubT (sanitize_rhs v op))"
| "sanitize_atomic v (MaxT op) = with_out v (\<lambda>v. MaxT (sanitize_rhs v op))"
| "sanitize_atomic v (MinT op) = with_out v (\<lambda>v. MinT (sanitize_rhs v op))"
| "sanitize_atomic v (AndT op) = with_out v (\<lambda>v. AndT (sanitize_rhs v op))"
| "sanitize_atomic v (OrT op) = with_out v (\<lambda>v. OrT (sanitize_rhs v op))"
| "sanitize_atomic v (XorT op) = with_out v (\<lambda>v. XorT (sanitize_rhs v op))"

fun sanitize_metadata :: "variable metadata \<Rightarrow> variable metadata" where
  "sanitize_metadata (Stride d var) = Stride (sanitize_u32 d) var"
| "sanitize_metadata (Shape d var) = Shape (sanitize_u32 d) var"
| "sanitize_metadata op = op"

fun sanitize_branch :: "variable branch \<Rightarrow> variable branch" where
  "sanitize_branch (IfB cond scope) = IfB (sanitize_bool cond) scope"
| "sanitize_branch (IfElseB cond scope_if scope_else) = IfElseB (sanitize_bool cond) scope_if scope_else"
| "sanitize_branch (RangeLoopB i start stop step inclusive scope) =
     RangeLoopB (sanitize_constant_scalar_ref_var i start) start
       (sanitize_constant_scalar_ref_var stop start) (map_option sanitize_u32 step) inclusive scope"
| "sanitize_branch op = op"

fun sanitize_coop_mma :: "variable option \<Rightarrow> variable coop_mma \<Rightarrow> variable coop_mma exec" where
  "sanitize_coop_mma v (FillM val) = with_out v (\<lambda>v. FillM (sanitize_constant_scalar_ref_var val v))"
| "sanitize_coop_mma v (LoadM val stride offset layout) =
     with_out v (\<lambda>v. LoadM (sanitize_constant_scalar_ref_var val v) (sanitize_u32 stride) offset layout)"
| "sanitize_coop_mma v (ExecuteM mat_a mat_b mat_c) = Ret (ExecuteM mat_a mat_b mat_c)"
| "sanitize_coop_mma v (StoreM mat stride offset layout) = Ret (StoreM mat (sanitize_u32 stride) offset layout)"
| "sanitize_coop_mma v (CastM input) = Ret (CastM input)"

fun sanitize_operation :: "variable option \<Rightarrow> variable operation \<Rightarrow> variable operation exec" where
  "sanitize_operation v (CopyO op) = with_out v (\<lambda>v. CopyO (sanitize_constant_scalar_ref_var op v))"
| "sanitize_operation v (ArithmeticO op) = with_out v (\<lambda>v. ArithmeticO (sanitize_arithmetic v op))"
| "sanitize_operation v (ComparisonO op) = Ret (ComparisonO (sanitize_comparison op))"
| "sanitize_operation v (BitwiseO op) = bindE (sanitize_bitwise v op) (\<lambda>op. Ret (BitwiseO op))"
| "sanitize_operation v (OperatorO op) = bindE (sanitize_operator v op) (\<lambda>op. Ret (OperatorO op))"
| "sanitize_operation v (AtomicO op) = bindE (sanitize_atomic v op) (\<lambda>op. Ret (AtomicO op))"
| "sanitize_operation v (MetadataO op) = Ret (MetadataO (sanitize_metadata op))"
| "sanitize_operation v (BranchO op) = Ret (BranchO (sanitize_branch op))"
| "sanitize_operation v (SynchronizationO op) = Ret (SynchronizationO op)"
| "sanitize_operation v (PlaneO op) = Ret (PlaneO op)"
| "sanitize_operation v (CoopMmaO op) = bindE (sanitize_coop_mma v op) (\<lambda>op. Ret (CoopMmaO op))"
| "sanitize_operation v (NonSemanticO op) = Ret (NonSemanticO op)"
| "sanitize_operation v (BarrierO op) = Ret (BarrierO op)"
| "sanitize_operation v (TmaO op) = Ret (TmaO op)"

definition sanitize_instruction :: "variable instruction \<Rightarrow> variable instruction exec" where
  "sanitize_instruction inst =
     bindE (sanitize_operation (i_out inst) (i_operation inst)) (\<lambda>op. Ret (with_operation inst op))"

definition sanitize_constant_scalars :: "scope_processing \<Rightarrow> scope_processing exec" where
  "sanitize_constant_scalars processing =
     bindE (mapE sanitize_instruction (sp_instructions processing)) (\<lambda>insts.
       Ret (processing\<lparr>sp_instructions := insts\<rparr>))"

definition optimize :: "scope_processing \<Rightarrow> scope_processing exec" where
  "optimize processing = sanitize_constant_scalars processing"

section \<open>Constants have the expected type\<close>

text \<open>A constant operand has the type the operation expects, anything else is left alone.\<close>

definition const_typed :: "elem \<Rightarrow> variable \<Rightarrow> bool" where
  "const_typed e v = (\<forall>c. as_const v = Some c \<longrightarrow> constant_elem c = plain_elem e)"

lemma constant_elem_plain [simp]: "plain_elem (constant_elem c) = constant_elem c"
  by (cases c) auto

lemma const_typed_constant [simp]: "const_typed e (variable_constant c) \<longleftrightarrow> constant_elem c = plain_elem e"
  by (simp add: const_typed_def)

lemma const_typed_constant_from [simp]:
  "const_typed e (constant_from_f64 e x)"
  "const_typed e (constant_from_i64 e i)"
  "const_typed e (constant_from_u64 e n)"
  "const_typed e (constant_from_bool e b)"
  by (cases e; simp add: constant_from_f64_def constant_from_i64_def constant_from_u64_def
      constant_from_bool_def)+

lemma const_typed_keep: "v_kind v = ConstantScalar c \<Longrightarrow> const_typed (constant_elem c) v"
  by (simp add: const_typed_def as_const_def)

lemma const_typed_other: "as_const v = None \<Longrightarrow> const_typed e v"
  by (simp add: const_typed_def)

lemma const_typed_ref_elem [simp]: "const_typed e (sanitize_constant_scalar_ref_elem v e)"
proof (cases "as_const v")
  case (Some c)
  then have kind: "v_kind v = ConstantScalar c" by (simp add: as_const_Some)
  with const_typed_keep [OF kind] show ?thesis
    by (auto simp: sanitize_constant_scalar_ref_elem_def split: constant_scalar_value.split)
qed (auto simp: sanitize_constant_scalar_ref_elem_def as_const_def const_typed_def
    split: variable_kind.splits)

lemma const_typed_ref_var [simp]: "const_typed (variable_elem r) (sanitize_constant_scalar_ref_var v r)"
  by (simp add: sanitize_constant_scalar_ref_var_def)

lemma ref_elem_idem [simp]:
  "sanitize_constant_scalar_ref_elem (sanitize_constant_scalar_ref_elem v e) e
     = sanitize_constant_scalar_ref_elem v e"
  by (cases e) (auto simp: sanitize_constant_scalar_ref_elem_def constant_from_f64_def
      constant_from_i64_def constant_from_u64_def constant_from_bool_def
      split: variable_kind.splits constant_scalar_value.splits)

lemma ref_var_idem [simp]:
  "sanitize_constant_scalar_ref_var (sanitize_constant_scalar_ref_var v r) r
     = sanitize_constant_scalar_ref_var v r"
  by (simp add: sanitize_constant_scalar_ref_var_def)


text \<open>Two operands that are both constants have the same type.\<close>

definition same_const_type :: "variable binary_operator \<Rightarrow> bool" where
  "same_const_type op =
     (\<forall>a b. as_const (b_lhs op) = Some a \<longrightarrow> as_const (b_rhs op) = Some b \<longrightarrow> constant_elem a = constant_elem b)"

fun comparison_operands :: "'v comparison \<Rightarrow> 'v binary_operator" where
  "comparison_operands (Lower op) = op"
| "comparison_operands (LowerEqual op) = op"
| "comparison_operands (Equal op) = op"
| "comparison_operands (NotEqual op) = op"
| "comparison_operands (GreaterEqual op) = op"
| "comparison_operands (Greater op) = op"

fun bitwise_counts :: "'v bitwise \<Rightarrow> bool" where
  "bitwise_counts (CountOnes _) = True"
| "bitwise_counts (LeadingZeros _) = True"
| "bitwise_counts (FindFirstSet _) = True"
| "bitwise_counts _ = False"

text \<open>
  The contract of the pass: what the later stages rely on for each kind of operation, given the type
  of the output. The operations after \<open>left_alone\<close> have no constant operand the pass looks at.
\<close>

fun left_alone :: "'v operation \<Rightarrow> bool" where
  "left_alone (BitwiseO op) = bitwise_counts op"
| "left_alone (OperatorO op) = (case op of InitLine _ \<Rightarrow> True | Cast _ \<Rightarrow> True | Reinterpret _ \<Rightarrow> True | _ \<Rightarrow> False)"
| "left_alone (AtomicO op) = (case op of LoadT _ \<Rightarrow> True | StoreT _ \<Rightarrow> True | _ \<Rightarrow> False)"
| "left_alone (MetadataO op) = (case op of Stride _ _ \<Rightarrow> False | Shape _ _ \<Rightarrow> False | _ \<Rightarrow> True)"
| "left_alone (BranchO op) = (case op of IfB _ _ \<Rightarrow> False | IfElseB _ _ _ \<Rightarrow> False | RangeLoopB _ _ _ _ _ _ \<Rightarrow> False | _ \<Rightarrow> True)"
| "left_alone (SynchronizationO op) = True"
| "left_alone (PlaneO op) = True"
| "left_alone (CoopMmaO op) = (case op of ExecuteM _ _ _ \<Rightarrow> True | CastM _ \<Rightarrow> True | _ \<Rightarrow> False)"
| "left_alone (NonSemanticO op) = True"
| "left_alone (BarrierO op) = True"
| "left_alone (TmaO op) = True"
| "left_alone _ = False"

fun operator_well_typed :: "elem \<Rightarrow> variable operator \<Rightarrow> bool" where
  "operator_well_typed e (Index op) = (const_typed e (ix_list op) \<and> const_typed (UIntE U32) (ix_index op))"
| "operator_well_typed e (UncheckedIndex op) = (const_typed e (ix_list op) \<and> const_typed (UIntE U32) (ix_index op))"
| "operator_well_typed e (IndexAssign op) = (const_typed (UIntE U32) (ia_index op) \<and> const_typed e (ia_value op))"
| "operator_well_typed e (UncheckedIndexAssign op) = (const_typed (UIntE U32) (ia_index op) \<and> const_typed e (ia_value op))"
| "operator_well_typed e (AndO op) = same_const_type op"
| "operator_well_typed e (OrO op) = same_const_type op"
| "operator_well_typed e (NotO op) = const_typed BoolE (u_input op)"
| "operator_well_typed e (CopyMemory op) =
     (const_typed e (cm_input op) \<and> const_typed (UIntE U32) (cm_in_index op) \<and> const_typed (UIntE U32) (cm_out_index op))"
| "operator_well_typed e (CopyMemoryBulk op) =
     (const_typed e (cb_input op) \<and> const_typed (UIntE U32) (cb_in_index op) \<and> const_typed (UIntE U32) (cb_out_index op))"
| "operator_well_typed e (Select op) =
     (const_typed BoolE (se_cond op) \<and> const_typed e (se_then op) \<and> const_typed e (se_or_else op))"
| "operator_well_typed e (InitLine _) = True"
| "operator_well_typed e (Cast _) = True"
| "operator_well_typed e (Reinterpret _) = True"

fun atomic_well_typed :: "elem \<Rightarrow> variable atomic_op \<Rightarrow> bool" where
  "atomic_well_typed e (LoadT _) = True"
| "atomic_well_typed e (StoreT _) = True"
| "atomic_well_typed e (CompareAndSwapT op) = (const_typed e (cas_cmp op) \<and> const_typed e (cas_val op))"
| "atomic_well_typed e (SwapT op) = const_typed e (b_rhs op)"
| "atomic_well_typed e (AddT op) = const_typed e (b_rhs op)"
| "atomic_well_typed e (SubT op) = const_typed e (b_rhs op)"
| "atomic_well_typed e (MaxT op) = const_typed e (b_rhs op)"
| "atomic_well_typed e (MinT op) = const_typed e (b_rhs op)"
| "atomic_well_typed e (AndT op) = const_typed e (b_rhs op)"
| "atomic_well_typed e (OrT op) = const_typed e (b_rhs op)"
| "atomic_well_typed e (XorT op) = const_typed e (b_rhs op)"

text \<open>The bounds of a counting loop have the type of its start.\<close>

fun branch_well_typed :: "variable branch \<Rightarrow> bool" where
  "branch_well_typed (IfB c _) = const_typed BoolE c"
| "branch_well_typed (IfElseB c _ _) = const_typed BoolE c"
| "branch_well_typed (RangeLoopB i start stop step _ _) =
     (const_typed (variable_elem start) i \<and> const_typed (variable_elem start) stop \<and>
      (\<forall>s \<in> set_option step. const_typed (UIntE U32) s))"
| "branch_well_typed _ = True"

fun consts_well_typed :: "elem \<Rightarrow> variable operation \<Rightarrow> bool" where
  "consts_well_typed e (CopyO v) = const_typed e v"
| "consts_well_typed e (ArithmeticO op) = (\<forall>v \<in> set_arithmetic op. const_typed e v)"
| "consts_well_typed e (ComparisonO op) = same_const_type (comparison_operands op)"
| "consts_well_typed e (BitwiseO op) = (bitwise_counts op \<or> (\<forall>v \<in> set_bitwise op. const_typed e v))"
| "consts_well_typed e (OperatorO op) = operator_well_typed e op"
| "consts_well_typed e (AtomicO op) = atomic_well_typed e op"
| "consts_well_typed e (MetadataO op) =
     (case op of Stride d _ \<Rightarrow> const_typed (UIntE U32) d | Shape d _ \<Rightarrow> const_typed (UIntE U32) d | _ \<Rightarrow> True)"
| "consts_well_typed e (BranchO op) = branch_well_typed op"
| "consts_well_typed e (CoopMmaO op) =
     (case op of
        FillM v \<Rightarrow> const_typed e v
      | LoadM v stride _ _ \<Rightarrow> const_typed e v \<and> const_typed (UIntE U32) stride
      | StoreM _ stride _ _ \<Rightarrow> const_typed (UIntE U32) stride
      | _ \<Rightarrow> True)"
| "consts_well_typed e _ = True"

text \<open>The operations whose arm reads the output of the instruction.\<close>

fun reads_out :: "'v operation \<Rightarrow> bool" where
  "reads_out (CopyO _) = True"
| "reads_out (ArithmeticO _) = True"
| "reads_out (BitwiseO op) = (\<not> bitwise_counts op)"
| "reads_out (OperatorO op) =
     (case op of
        Index _ \<Rightarrow> True | UncheckedIndex _ \<Rightarrow> True | IndexAssign _ \<Rightarrow> True | UncheckedIndexAssign _ \<Rightarrow> True
      | CopyMemory _ \<Rightarrow> True | CopyMemoryBulk _ \<Rightarrow> True | Select _ \<Rightarrow> True | _ \<Rightarrow> False)"
| "reads_out (AtomicO op) = (case op of LoadT _ \<Rightarrow> False | StoreT _ \<Rightarrow> False | _ \<Rightarrow> True)"
| "reads_out (CoopMmaO op) = (case op of FillM _ \<Rightarrow> True | LoadM _ _ _ _ \<Rightarrow> True | _ \<Rightarrow> False)"
| "reads_out _ = False"

lemma const_typed_item:
  "const_typed e v \<Longrightarrow> as_const v = Some c \<Longrightarrow> constant_elem c = plain_elem e"
  by (simp add: const_typed_def)

text \<open>The item of a constant agrees with its payload, up to \<open>Atomic\<close>.\<close>

definition variable_wf :: "variable \<Rightarrow> bool" where
  "variable_wf v = (\<forall>c. as_const v = Some c \<longrightarrow> constant_elem c = plain_elem (variable_elem v))"

lemma variable_wf_constant [simp]: "variable_wf (variable_constant c)"
  by (simp add: variable_wf_def)

lemma variable_wf_constant_from [simp]:
  "variable_wf (constant_from_f64 e x)" "variable_wf (constant_from_i64 e i)"
  "variable_wf (constant_from_u64 e n)" "variable_wf (constant_from_bool e b)"
  by (simp_all add: constant_from_f64_def constant_from_i64_def constant_from_u64_def constant_from_bool_def)

lemma variable_wf_ref_elem:
  "variable_wf v \<Longrightarrow> variable_wf (sanitize_constant_scalar_ref_elem v e)"
  by (auto simp: sanitize_constant_scalar_ref_elem_def
      split: variable_kind.split constant_scalar_value.split)

lemma same_const_type_mutual:
  assumes "variable_wf (b_lhs op)"
  shows "same_const_type (sanitize_mutual op)"
proof -
  define l where "l = sanitize_constant_scalar_ref_var (b_lhs op) (b_rhs op)"
  have "variable_wf l" using assms by (simp add: l_def sanitize_constant_scalar_ref_var_def variable_wf_ref_elem)
  moreover have "const_typed (variable_elem l) (sanitize_constant_scalar_ref_var (b_rhs op) l)" by simp
  ultimately show ?thesis
    by (auto simp: same_const_type_def sanitize_mutual_def l_def [symmetric] Let_def variable_wf_def
        const_typed_def)
qed

lemma sanitize_operands [simp]:
  "v \<in> set_binary_operator (sanitize_binary r b) \<Longrightarrow> const_typed (variable_elem r) v"
  "v \<in> set_unary_operator (sanitize_unary r u) \<Longrightarrow> const_typed (variable_elem r) v"
  by (auto simp: sanitize_binary_def sanitize_unary_def)

lemma sanitize_arithmetic_typed:
  "v \<in> set_arithmetic (sanitize_arithmetic r op) \<Longrightarrow> const_typed (variable_elem r) v"
  by (cases op) auto

lemma with_out_wp [simp]:
  "returns (with_out v f) Q \<longleftrightarrow> (\<exists>w. v = Some w \<and> Q (f w))"
  "on_return (with_out v f) Q \<longleftrightarrow> (\<forall>w. v = Some w \<longrightarrow> Q (f w))"
  by (auto simp: with_out_def)

lemma sanitize_bitwise_typed:
  "returns (sanitize_bitwise (Some r) op)
     (\<lambda>op'. bitwise_counts op' \<or> (\<forall>v \<in> set_bitwise op'. const_typed (variable_elem r) v))"
  by (cases op) auto

lemma sanitize_operator_typed:
  assumes "\<forall>v \<in> set_operator op. variable_wf v" "\<forall>r. out = Some r \<longrightarrow> e = variable_elem r"
    and "reads_out (OperatorO op) \<longrightarrow> out \<noteq> None"
  shows "returns (sanitize_operator out op) (operator_well_typed e)"
proof (cases op)
  case (AndO b)
  then have "variable_wf (b_lhs b)" using assms by (cases b) auto
  then show ?thesis by (simp add: AndO same_const_type_mutual)
next
  case (OrO b)
  then have "variable_wf (b_lhs b)" using assms by (cases b) auto
  then show ?thesis by (simp add: OrO same_const_type_mutual)
qed (use assms(2,3) in \<open>auto simp: sanitize_index_def sanitize_index_assign_def\<close>)

lemma sanitize_comparison_typed:
  assumes "\<forall>v \<in> set_comparison op. variable_wf v"
  shows "same_const_type (comparison_operands (sanitize_comparison op))"
proof -
  have "b_lhs (comparison_operands op) \<in> set_comparison op"
    by (cases op; cases "comparison_operands op") auto
  moreover have "comparison_operands (sanitize_comparison op) = sanitize_mutual (comparison_operands op)"
    by (cases op) auto
  ultimately show ?thesis using assms same_const_type_mutual by simp
qed

lemma sanitize_atomic_typed:
  assumes "\<forall>r. out = Some r \<longrightarrow> e = variable_elem r" "reads_out (AtomicO op) \<longrightarrow> out \<noteq> None"
  shows "returns (sanitize_atomic out op) (atomic_well_typed e)"
  using assms by (cases op) (auto simp: sanitize_rhs_def)

lemma sanitize_coop_mma_typed:
  assumes "\<forall>r. out = Some r \<longrightarrow> e = variable_elem r" "reads_out (CoopMmaO op) \<longrightarrow> out \<noteq> None"
  shows "returns (sanitize_coop_mma out op) (\<lambda>op'. consts_well_typed e (CoopMmaO op'))"
  using assms by (cases op) auto

lemma sanitize_operation_typed:
  assumes "\<forall>v \<in> set_operation op. variable_wf v" "\<forall>r. out = Some r \<longrightarrow> e = variable_elem r"
    and "reads_out op \<longrightarrow> out \<noteq> None"
  shows "returns (sanitize_operation out op) (consts_well_typed e)"
proof (cases op)
  case (OperatorO oper)
  then show ?thesis using assms returns_mono [OF sanitize_operator_typed [of oper out e]] by auto
next
  case (BitwiseO b)
  then show ?thesis using assms(2,3) by (cases b) auto
next
  case (ComparisonO c)
  then show ?thesis using assms sanitize_comparison_typed by auto
next
  case (BranchO b)
  then show ?thesis by (cases b) auto
next
  case (MetadataO m)
  then show ?thesis by (cases m) auto
next
  case (AtomicO a)
  then show ?thesis using assms returns_mono [OF sanitize_atomic_typed [of out e a]] by auto
next
  case (CoopMmaO c)
  then show ?thesis using assms returns_mono [OF sanitize_coop_mma_typed [of out e c]] by auto
qed (use assms(2,3) in \<open>auto simp: sanitize_arithmetic_typed\<close>)

definition inst_well_typed :: "variable instruction \<Rightarrow> bool" where
  "inst_well_typed inst \<longleftrightarrow> (\<forall>e. (\<forall>r. i_out inst = Some r \<longrightarrow> e = variable_elem r) \<longrightarrow> consts_well_typed e (i_operation inst))"

lemma inst_well_typedD:
  "inst_well_typed inst \<Longrightarrow> i_out inst = Some r \<Longrightarrow> consts_well_typed (variable_elem r) (i_operation inst)"
  by (simp add: inst_well_typed_def)

section \<open>Nothing else changes\<close>

text \<open>Between integers the payload keeps its bits, and a boolean becomes zero or one.\<close>

fun payload_kept :: "constant_scalar_value \<Rightarrow> constant_scalar_value \<Rightarrow> bool" where
  "payload_kept (IntC x _) (IntC y _) = (y = x)"
| "payload_kept (IntC x _) (UIntC y _) = (y = x)"
| "payload_kept (UIntC x _) (IntC y _) = (y = x)"
| "payload_kept (UIntC x _) (UIntC y _) = (y = x)"
| "payload_kept (FloatC x _) (FloatC y _) = (y = x)"
| "payload_kept (BoolC x) (BoolC y) = (y = x)"
| "payload_kept (BoolC x) (IntC y _) = (y = of_bool x)"
| "payload_kept (BoolC x) (UIntC y _) = (y = of_bool x)"
| "payload_kept (IntC x _) (BoolC y) = (y = (0 < sint x))"
| "payload_kept (UIntC x _) (BoolC y) = (y = (0 < x))"
| "payload_kept (FloatC x _) (BoolC y) = (y = f64_less (Finite 0) x)"
| "payload_kept _ _ = True"

definition recast :: "variable \<Rightarrow> variable \<Rightarrow> bool" where
  "recast v v' \<longleftrightarrow> (case as_const v of None \<Rightarrow> v' = v | Some c \<Rightarrow> \<exists>c'. as_const v' = Some c' \<and> payload_kept c c')"

lemma payload_kept_refl [simp]: "payload_kept c c"
  by (cases c) auto

lemma recast_refl [simp]: "recast v v"
  by (simp add: recast_def split: option.splits)

lemma recast_ref_elem [simp]: "recast v (sanitize_constant_scalar_ref_elem v e)"
proof (cases "as_const v")
  case None
  then have "sanitize_constant_scalar_ref_elem v e = v"
    by (auto simp: sanitize_constant_scalar_ref_elem_def as_const_def split: variable_kind.splits)
  then show ?thesis by simp
next
  case (Some c)
  then have "v_kind v = ConstantScalar c" by (simp add: as_const_Some)
  with Some show ?thesis
    by (cases c; cases e) (auto simp: recast_def sanitize_constant_scalar_ref_elem_def constant_from_f64_def
        constant_from_i64_def constant_from_u64_def constant_from_bool_def)
qed

lemma recast_ref_var [simp]: "recast v (sanitize_constant_scalar_ref_var v r)"
  by (simp add: sanitize_constant_scalar_ref_var_def)

lemma recast_groups [simp]:
  "rel_binary_operator recast b (sanitize_binary r b)" "rel_unary_operator recast u (sanitize_unary r u)"
  "rel_binary_operator recast b (sanitize_mutual b)" "rel_binary_operator recast b (sanitize_rhs r b)"
  "rel_index_operator recast i (sanitize_index r i)" "rel_index_assign_operator recast ia (sanitize_index_assign r ia)"
  by (cases b; cases u; cases i; cases ia; simp add: sanitize_binary_def sanitize_unary_def sanitize_mutual_def
      sanitize_rhs_def sanitize_index_def sanitize_index_assign_def Let_def)+

lemmas recast_same [simp] =
  binary_operator.rel_refl [of recast, OF recast_refl] unary_operator.rel_refl [of recast, OF recast_refl]
  line_init_operator.rel_refl [of recast, OF recast_refl]
  operation.rel_refl [of recast, OF recast_refl] branch.rel_refl [of recast, OF recast_refl] scope.rel_refl [of recast, OF recast_refl]
  plane.rel_refl [of recast, OF recast_refl] barrier_ops.rel_refl [of recast, OF recast_refl]
  tma_ops.rel_refl [of recast, OF recast_refl] non_semantic.rel_refl [of recast, OF recast_refl]

lemma recast_arithmetic [simp]: "rel_arithmetic recast op (sanitize_arithmetic r op)"
proof (cases op)
  case (Fma x)
  then show ?thesis by (cases x) simp
next
  case (Clamp x)
  then show ?thesis by (cases x) simp
qed simp_all

lemma recast_comparison [simp]: "rel_comparison recast op (sanitize_comparison op)"
  by (cases op) simp_all

lemma recast_bitwise: "on_return (sanitize_bitwise out op) (rel_bitwise recast op)"
  by (cases op) simp_all

lemma recast_operator: "on_return (sanitize_operator out op) (rel_operator recast op)"
proof (cases op)
  case (CopyMemory x)
  then show ?thesis by (cases x) simp
next
  case (CopyMemoryBulk x)
  then show ?thesis by (cases x) simp
next
  case (Select x)
  then show ?thesis by (cases x) simp
next
  case (NotO x)
  then show ?thesis by (cases x) simp
qed simp_all

lemma recast_atomic: "on_return (sanitize_atomic out op) (rel_atomic_op recast op)"
proof (cases op)
  case (CompareAndSwapT x)
  then show ?thesis by (cases x) simp
qed simp_all

lemma recast_coop_mma: "on_return (sanitize_coop_mma out op) (rel_coop_mma recast op)"
  by (cases op) simp_all

lemma recast_metadata [simp]: "rel_metadata recast op (sanitize_metadata op)"
  by (cases op) simp_all

lemma recast_branch [simp]: "rel_branch recast op (sanitize_branch op)"
proof (cases op)
  case (RangeLoopB i start stop step inclusive scope)
  then show ?thesis by (cases step) simp_all
next
  case (SwitchB v scope cases)
  then show ?thesis by (simp add: list.rel_refl prod.rel_refl)
qed simp_all

lemma recast_operation: "on_return (sanitize_operation out op) (rel_operation recast op)"
proof (cases op)
  case (BitwiseO b)
  then show ?thesis using recast_bitwise [of out b] by (auto elim: on_return_mono)
next
  case (OperatorO b)
  then show ?thesis using recast_operator [of out b] by (auto elim: on_return_mono)
next
  case (AtomicO b)
  then show ?thesis using recast_atomic [of out b] by (auto elim: on_return_mono)
next
  case (CoopMmaO b)
  then show ?thesis using recast_coop_mma [of out b] by (auto elim: on_return_mono)
qed simp_all

lemma left_alone_same: "left_alone op \<Longrightarrow> sanitize_operation out op = Ret op"
proof (cases op)
  case (BitwiseO b)
  then show "left_alone op \<Longrightarrow> ?thesis" by (cases b) simp_all
next
  case (OperatorO b)
  then show "left_alone op \<Longrightarrow> ?thesis" by (cases b) simp_all
next
  case (AtomicO b)
  then show "left_alone op \<Longrightarrow> ?thesis" by (cases b) simp_all
next
  case (MetadataO b)
  then show "left_alone op \<Longrightarrow> ?thesis" by (cases b) simp_all
next
  case (BranchO b)
  then show "left_alone op \<Longrightarrow> ?thesis" by (cases b) simp_all
next
  case (CoopMmaO b)
  then show "left_alone op \<Longrightarrow> ?thesis" by (cases b) simp_all
qed simp_all

text \<open>What the pass makes of one instruction.\<close>

definition sanitized :: "variable instruction \<Rightarrow> variable instruction \<Rightarrow> bool" where
  "sanitized inst inst' \<longleftrightarrow> i_out inst' = i_out inst \<and> i_source_loc inst' = i_source_loc inst \<and>
     rel_operation recast (i_operation inst) (i_operation inst') \<and>
     (left_alone (i_operation inst) \<longrightarrow> inst' = inst) \<and> inst_well_typed inst'"

definition sanitizable :: "variable instruction \<Rightarrow> bool" where
  "sanitizable inst \<longleftrightarrow> (reads_out (i_operation inst) \<longrightarrow> i_out inst \<noteq> None) \<and>
     (\<forall>v \<in> set_operation (i_operation inst). variable_wf v)"

lemma sanitize_instruction_ok:
  assumes "sanitizable inst"
  shows "returns (sanitize_instruction inst) (sanitized inst)"
proof -
  let ?out = "i_out inst" and ?op = "i_operation inst"
  have wf: "\<forall>v \<in> set_operation ?op. variable_wf v" "reads_out ?op \<longrightarrow> ?out \<noteq> None" using assms by (auto simp: sanitizable_def)
  have "returns (sanitize_operation ?out ?op) (consts_well_typed e)" if "\<forall>r. ?out = Some r \<longrightarrow> e = variable_elem r" for e
    by (rule sanitize_operation_typed [OF wf(1) that wf(2)])
  then obtain op' where op': "sanitize_operation ?out ?op = Ret op'"
    and typed: "\<And>e. (\<forall>r. ?out = Some r \<longrightarrow> e = variable_elem r) \<Longrightarrow> consts_well_typed e op'"
    by (cases ?out) (auto simp: returns_eq, metis exec.inject(1))
  have "rel_operation recast ?op op'" using recast_operation [of ?out ?op] op' by simp
  moreover have "op' = ?op" if "left_alone ?op" using left_alone_same [OF that, of ?out] op' by simp
  moreover have "sanitize_instruction inst = Ret (with_operation inst op')" by (simp add: sanitize_instruction_def op')
  ultimately show ?thesis using typed by (cases inst) (auto simp: sanitized_def inst_well_typed_def with_operation_def)
qed


text \<open>\<open>x = a + 2\<close> on \<open>u32\<close>, and copying element \<open>1\<close> to element \<open>2\<close> of an array, with \<open>i32\<close> constants.\<close>

definition demo_add :: "variable instruction" where
  "demo_add = instruction_new
     (ArithmeticO (Add (BinaryOperator (variable_new (LocalConst 0) (item_new (UIntE U32)))
       (variable_from_i32 2)))) (variable_new (LocalConst 1) (item_new (UIntE U32)))"

definition demo_copy :: "variable instruction" where
  "demo_copy = instruction_new
     (OperatorO (CopyMemory (CopyMemoryOperator (variable_from_i32 2) (variable_new (GlobalInputArray 0) (item_new (FloatE F32)))
       (variable_from_i32 1)))) (variable_new (GlobalOutputArray 1) (item_new (FloatE F32)))"


end
