(* ===== verification/Opt_Const_Prop.thy ===== *)
theory Opt_Const_Prop
  imports Opt_Program IR_Processing "HOL-Library.Signed_Division"
begin

text \<open>
  \<open>cubecl-opt/src/passes/constant_prop.rs\<close>: \<open>ConstOperandSimplify\<close>, which removes an operation one of
  whose operands is a neutral or absorbing constant, and \<open>ConstEval\<close>, which folds operations on
  constants. The payload arithmetic is that of \<open>i64\<close>, \<open>u64\<close> and \<open>f64\<close>, with the panics of a build with
  overflow checks; the elementary functions of \<open>num::Float\<close> belong to the crate \<open>num\<close> and are a
  parameter.
\<close>

section \<open>Simplification of one constant operand\<close>

definition copy_of :: "variable \<Rightarrow> variable operation option exec" where
  "copy_of v = Ret (Some (CopyO v))"

fun simplify_arithmetic :: "variable instruction \<Rightarrow> variable arithmetic \<Rightarrow> variable operation option exec" where
  "simplify_arithmetic inst (Mul op) =
     (if is_constant (b_lhs op) 0 then copy_of (b_lhs op)
      else if is_constant (b_rhs op) 0 then copy_of (b_rhs op)
      else if is_constant (b_lhs op) 1 then copy_of (b_rhs op)
      else if is_constant (b_rhs op) 1 then copy_of (b_lhs op)
      else Ret None)"
| "simplify_arithmetic inst (Add op) =
     (if is_constant (b_lhs op) 0 then copy_of (b_rhs op)
      else if is_constant (b_rhs op) 0 then copy_of (b_lhs op)
      else Ret None)"
| "simplify_arithmetic inst (Sub op) =
     (if is_constant (b_rhs op) 0 then copy_of (b_lhs op) else Ret None)"
| "simplify_arithmetic inst (Div op) =
     (if is_constant (b_lhs op) 0 \<or> is_constant (b_rhs op) 1 then copy_of (b_lhs op) else Ret None)"
| "simplify_arithmetic inst (Modulo op) =
     (if is_constant (b_rhs op) 1 \<or> is_constant (b_lhs op) 0
      then bindE (inst_item inst) (\<lambda>it.
           bindE (cast_to (UIntC 0 U32) (it_elem it)) (\<lambda>val. copy_of (variable_constant val)))
      else Ret None)"
| "simplify_arithmetic inst _ = Ret None"

fun simplify_operator :: "variable operator \<Rightarrow> variable operation option exec" where
  "simplify_operator (OrO op) =
     (if is_true (b_lhs op) \<or> is_true (b_rhs op) then copy_of (variable_from_bool True)
      else if is_false (b_lhs op) then copy_of (b_rhs op)
      else if is_false (b_rhs op) then copy_of (b_lhs op)
      else Ret None)"
| "simplify_operator (AndO op) =
     (if is_false (b_lhs op) \<or> is_false (b_rhs op) then copy_of (variable_from_bool False)
      else if is_true (b_lhs op) then copy_of (b_rhs op)
      else if is_true (b_rhs op) then copy_of (b_lhs op)
      else Ret None)"
| "simplify_operator (Select op) =
     (if is_true (se_cond op) then copy_of (se_then op)
      else if is_false (se_cond op) then copy_of (se_or_else op)
      else Ret None)"
| "simplify_operator _ = Ret None"

fun simplify_metadata :: "variable metadata \<Rightarrow> variable operation option exec" where
  "simplify_metadata (Length var) =
     (case v_kind var of
        ConstantArray _ len \<Rightarrow> copy_of (variable_from_u32 len)
      | SharedMemory _ len _ \<Rightarrow> copy_of (variable_from_u32 len)
      | LocalArray _ len \<Rightarrow> copy_of (variable_from_u32 len)
      | _ \<Rightarrow> Ret None)"
| "simplify_metadata _ = Ret None"

definition const_operand_simplify_inst :: "variable instruction \<Rightarrow> variable operation option exec" where
  "const_operand_simplify_inst inst =
     (case i_operation inst of
        ArithmeticO op \<Rightarrow> simplify_arithmetic inst op
      | OperatorO op \<Rightarrow> simplify_operator op
      | MetadataO op \<Rightarrow> simplify_metadata op
      | _ \<Rightarrow> Ret None)"

definition const_operand_simplify :: "program \<Rightarrow> (program \<times> nat) exec" where
  "const_operand_simplify = rewrite_program const_operand_simplify_inst"

section \<open>Payload arithmetic\<close>

definition i64_checked :: "int \<Rightarrow> i64 exec" where
  "i64_checked r = (if i64_min \<le> r \<and> r \<le> i64_max then Ret (word_of_int r) else Panic ArithmeticOverflow)"

definition u64_checked :: "int \<Rightarrow> u64 exec" where
  "u64_checked r = (if 0 \<le> r \<and> r < 2 ^ 64 then Ret (word_of_int r) else Panic ArithmeticOverflow)"

definition i64_div :: "i64 \<Rightarrow> i64 \<Rightarrow> i64 exec" where
  "i64_div a b = (if b = 0 then Panic DivisionByZero else i64_checked (sint a sdiv sint b))"

definition i64_rem :: "i64 \<Rightarrow> i64 \<Rightarrow> i64 exec" where
  "i64_rem a b =
     (if b = 0 then Panic DivisionByZero
      else if sint a = i64_min \<and> sint b = - 1 then Panic ArithmeticOverflow
      else Ret (word_of_int (sint a smod sint b)))"

definition u64_div :: "u64 \<Rightarrow> u64 \<Rightarrow> u64 exec" where
  "u64_div a b = (if b = 0 then Panic DivisionByZero else Ret (a div b))"

definition u64_rem :: "u64 \<Rightarrow> u64 \<Rightarrow> u64 exec" where
  "u64_rem a b = (if b = 0 then Panic DivisionByZero else Ret (a mod b))"

definition i64_shl :: "i64 \<Rightarrow> i64 \<Rightarrow> i64 exec" where
  "i64_shl a b =
     (if 0 \<le> sint b \<and> sint b < 64 then Ret (push_bit (nat (sint b)) a) else Panic ArithmeticOverflow)"

definition u64_shl :: "u64 \<Rightarrow> u64 \<Rightarrow> u64 exec" where
  "u64_shl a b = (if unat b < 64 then Ret (push_bit (unat b) a) else Panic ArithmeticOverflow)"

definition i64_shr :: "i64 \<Rightarrow> i64 \<Rightarrow> i64 exec" where
  "i64_shr a b =
     (if 0 \<le> sint b \<and> sint b < 64 then Ret (signed_drop_bit (nat (sint b)) a) else Panic ArithmeticOverflow)"

definition u64_shr :: "u64 \<Rightarrow> u64 \<Rightarrow> u64 exec" where
  "u64_shr a b = (if unat b < 64 then Ret (drop_bit (unat b) a) else Panic ArithmeticOverflow)"

definition word_count_ones :: "64 word \<Rightarrow> 64 word" where
  "word_count_ones w = of_nat (length (filter (\<lambda>i. bit w i) [0..<64]))"

definition word_reverse_bits :: "64 word \<Rightarrow> 64 word" where
  "word_reverse_bits w = horner_sum of_bool 2 (map (bit w) (rev [0..<64]))"

definition i64_clamp :: "i64 \<Rightarrow> i64 \<Rightarrow> i64 \<Rightarrow> i64 exec" where
  "i64_clamp a lo hi =
     bindE (assertE (sint lo \<le> sint hi)) (\<lambda>_.
       Ret (if sint a < sint lo then lo else if sint hi < sint a then hi else a))"

definition u64_clamp :: "u64 \<Rightarrow> u64 \<Rightarrow> u64 \<Rightarrow> u64 exec" where
  "u64_clamp a lo hi =
     bindE (assertE (lo \<le> hi)) (\<lambda>_. Ret (if a < lo then lo else if hi < a then hi else a))"

record num_float =
  nf_powf :: "f64 \<Rightarrow> f64 \<Rightarrow> f64"
  nf_exp :: "f64 \<Rightarrow> f64"
  nf_ln :: "f64 \<Rightarrow> f64"
  nf_ln_1p :: "f64 \<Rightarrow> f64"
  nf_cos :: "f64 \<Rightarrow> f64"
  nf_sin :: "f64 \<Rightarrow> f64"
  nf_tanh :: "f64 \<Rightarrow> f64"
  nf_sqrt :: "f64 \<Rightarrow> f64"
  nf_round :: "f64 \<Rightarrow> f64"
  nf_floor :: "f64 \<Rightarrow> f64"
  nf_ceil :: "f64 \<Rightarrow> f64"
  nf_recip :: "f64 \<Rightarrow> f64"

section \<open>Folding constants\<close>

abbreviation unreachable :: "'a exec" where
  "unreachable \<equiv> Panic (Explicit ''unreachable'')"

definition mapR :: "('a \<Rightarrow> 'b) \<Rightarrow> 'a exec \<Rightarrow> 'b exec" where
  "mapR f m = bindE m (\<lambda>x. Ret (f x))"

text \<open>Both operands as constants, the second cast to the type of the first.\<close>

definition const_operands ::
  "variable \<Rightarrow> variable \<Rightarrow> (constant_scalar_value \<Rightarrow> constant_scalar_value \<Rightarrow> constant_scalar_value exec) \<Rightarrow>
     constant_scalar_value option exec" where
  "const_operands l r f =
     (case (as_const l, as_const r) of
        (Some a, Some b) \<Rightarrow> bindE (cast_to b (constant_elem a)) (\<lambda>b. mapR Some (f a b))
      | _ \<Rightarrow> Ret None)"

text \<open>The macro \<open>const_eval!\<close>, by the three readings of its operator.\<close>

fun const_eval_arm ::
  "(i64 \<Rightarrow> i64 \<Rightarrow> i64 exec) \<Rightarrow> (f64 \<Rightarrow> f64 \<Rightarrow> f64) \<Rightarrow> (u64 \<Rightarrow> u64 \<Rightarrow> u64 exec) \<Rightarrow>
     constant_scalar_value \<Rightarrow> constant_scalar_value \<Rightarrow> constant_scalar_value exec" where
  "const_eval_arm fi ff fu (IntC a kind) (IntC b _) = mapR (\<lambda>r. IntC r kind) (fi a b)"
| "const_eval_arm fi ff fu (FloatC a kind) (FloatC b _) = Ret (FloatC (ff a b) kind)"
| "const_eval_arm fi ff fu (UIntC a kind) (UIntC b _) = mapR (\<lambda>r. UIntC r kind) (fu a b)"
| "const_eval_arm fi ff fu _ _ = unreachable"

definition const_eval ::
  "(i64 \<Rightarrow> i64 \<Rightarrow> i64 exec) \<Rightarrow> (f64 \<Rightarrow> f64 \<Rightarrow> f64) \<Rightarrow> (u64 \<Rightarrow> u64 \<Rightarrow> u64 exec) \<Rightarrow>
     variable binary_operator \<Rightarrow> constant_scalar_value option exec" where
  "const_eval fi ff fu op = const_operands (b_lhs op) (b_rhs op) (const_eval_arm fi ff fu)"

fun const_eval_int_arm ::
  "(i64 \<Rightarrow> i64 \<Rightarrow> i64 exec) \<Rightarrow> (u64 \<Rightarrow> u64 \<Rightarrow> u64 exec) \<Rightarrow>
     constant_scalar_value \<Rightarrow> constant_scalar_value \<Rightarrow> constant_scalar_value exec" where
  "const_eval_int_arm fi fu (IntC a kind) (IntC b _) = mapR (\<lambda>r. IntC r kind) (fi a b)"
| "const_eval_int_arm fi fu (UIntC a kind) (UIntC b _) = mapR (\<lambda>r. UIntC r kind) (fu a b)"
| "const_eval_int_arm fi fu _ _ = unreachable"

definition const_eval_int ::
  "(i64 \<Rightarrow> i64 \<Rightarrow> i64 exec) \<Rightarrow> (u64 \<Rightarrow> u64 \<Rightarrow> u64 exec) \<Rightarrow>
     variable binary_operator \<Rightarrow> constant_scalar_value option exec" where
  "const_eval_int fi fu op = const_operands (b_lhs op) (b_rhs op) (const_eval_int_arm fi fu)"

fun const_eval_float2_arm ::
  "(f64 \<Rightarrow> f64 \<Rightarrow> f64) \<Rightarrow> constant_scalar_value \<Rightarrow> constant_scalar_value \<Rightarrow> constant_scalar_value exec" where
  "const_eval_float2_arm f (FloatC a kind) (FloatC b _) = Ret (FloatC (f a b) kind)"
| "const_eval_float2_arm f _ _ = unreachable"

definition const_unary ::
  "variable unary_operator \<Rightarrow> (constant_scalar_value \<Rightarrow> constant_scalar_value exec) \<Rightarrow> constant_scalar_value option exec" where
  "const_unary op f =
     (case as_const (u_input op) of Some c \<Rightarrow> mapR Some (f c) | None \<Rightarrow> Ret None)"

definition const_eval_float :: "(f64 \<Rightarrow> f64) \<Rightarrow> variable unary_operator \<Rightarrow> constant_scalar_value option exec" where
  "const_eval_float f op = const_unary op (\<lambda>c. case c of FloatC x kind \<Rightarrow> Ret (FloatC (f x) kind) | _ \<Rightarrow> unreachable)"

text \<open>The macro \<open>const_eval_cmp!\<close> compares the payloads without a cast.\<close>

definition const_eval_cmp ::
  "(int \<Rightarrow> int \<Rightarrow> bool) \<Rightarrow> (f64 \<Rightarrow> f64 \<Rightarrow> bool) \<Rightarrow> variable binary_operator \<Rightarrow> constant_scalar_value option exec" where
  "const_eval_cmp fi ff op =
     (case (as_const (b_lhs op), as_const (b_rhs op)) of
        (Some (IntC a _), Some (IntC b _)) \<Rightarrow> Ret (Some (BoolC (fi (sint a) (sint b))))
      | (Some (FloatC a _), Some (FloatC b _)) \<Rightarrow> Ret (Some (BoolC (ff a b)))
      | (Some (UIntC a _), Some (UIntC b _)) \<Rightarrow> Ret (Some (BoolC (fi (uint a) (uint b))))
      | (Some _, Some _) \<Rightarrow> unreachable
      | _ \<Rightarrow> Ret None)"

definition const_eval_bool ::
  "(bool \<Rightarrow> bool \<Rightarrow> bool) \<Rightarrow> variable binary_operator \<Rightarrow> constant_scalar_value option exec" where
  "const_eval_bool f op =
     (case (as_const (b_lhs op), as_const (b_rhs op)) of
        (Some (BoolC a), Some (BoolC b)) \<Rightarrow> Ret (Some (BoolC (f a b)))
      | (Some _, Some _) \<Rightarrow> unreachable
      | _ \<Rightarrow> Ret None)"

definition i64_add where "i64_add a b = i64_checked (sint a + sint b)"
definition i64_sub where "i64_sub a b = i64_checked (sint a - sint b)"
definition i64_mul where "i64_mul a b = i64_checked (sint a * sint b)"
definition u64_add where "u64_add a b = u64_checked (uint a + uint b)"
definition u64_sub where "u64_sub a b = u64_checked (uint a - uint b)"
definition u64_mul where "u64_mul a b = u64_checked (uint a * uint b)"

definition i64_mul_hi :: "i64 \<Rightarrow> i64 \<Rightarrow> i64 exec" where
  "i64_mul_hi a b = mapR (\<lambda>m. scast (ucast (signed_drop_bit 32 m) :: 32 word)) (i64_mul a b)"

definition u64_mul_hi :: "u64 \<Rightarrow> u64 \<Rightarrow> u64 exec" where
  "u64_mul_hi a b = mapR (\<lambda>m. ucast (ucast (drop_bit 32 m) :: 32 word)) (u64_mul a b)"

definition const_ternary ::
  "variable \<Rightarrow> variable \<Rightarrow> variable \<Rightarrow>
   (constant_scalar_value \<Rightarrow> constant_scalar_value \<Rightarrow> constant_scalar_value \<Rightarrow> constant_scalar_value exec) \<Rightarrow>
     constant_scalar_value option exec" where
  "const_ternary x y z f =
     (case (as_const x, as_const y, as_const z) of
        (Some a, Some b, Some c) \<Rightarrow>
          bindE (cast_to b (constant_elem a)) (\<lambda>b.
          bindE (cast_to c (constant_elem a)) (\<lambda>c. mapR Some (f a b c)))
      | _ \<Rightarrow> Ret None)"

fun clamp_arm ::
  "constant_scalar_value \<Rightarrow> constant_scalar_value \<Rightarrow> constant_scalar_value \<Rightarrow> constant_scalar_value exec" where
  "clamp_arm (IntC a kind) (IntC b _) (IntC c _) = mapR (\<lambda>r. IntC r kind) (i64_clamp a b c)"
| "clamp_arm (FloatC a kind) (FloatC b _) (FloatC c _) = mapR (\<lambda>r. FloatC r kind) (f64_clamp a b c)"
| "clamp_arm (UIntC a kind) (UIntC b _) (UIntC c _) = mapR (\<lambda>r. UIntC r kind) (u64_clamp a b c)"
| "clamp_arm _ _ _ = unreachable"

fun try_const_eval_arithmetic :: "num_float \<Rightarrow> variable arithmetic \<Rightarrow> constant_scalar_value option exec" where
  "try_const_eval_arithmetic nf (Add op) = const_eval i64_add f64_add u64_add op"
| "try_const_eval_arithmetic nf (Sub op) = const_eval i64_sub f64_sub u64_sub op"
| "try_const_eval_arithmetic nf (Mul op) = const_eval i64_mul f64_mul u64_mul op"
| "try_const_eval_arithmetic nf (Div op) = const_eval i64_div f64_div u64_div op"
| "try_const_eval_arithmetic nf (Powf op) =
     const_operands (b_lhs op) (b_rhs op) (const_eval_float2_arm (nf_powf nf))"
| "try_const_eval_arithmetic nf (Modulo op) = const_eval i64_rem f64_rem u64_rem op"
| "try_const_eval_arithmetic nf (Remainder op) = const_eval i64_rem f64_rem u64_rem op"
| "try_const_eval_arithmetic nf (MulHi op) = const_eval_int i64_mul_hi u64_mul_hi op"
| "try_const_eval_arithmetic nf (MaxA op) =
     const_eval (\<lambda>a b. Ret (if sint a \<le> sint b then b else a)) f64_max (\<lambda>a b. Ret (max a b)) op"
| "try_const_eval_arithmetic nf (MinA op) =
     const_eval (\<lambda>a b. Ret (if sint a \<le> sint b then a else b)) f64_min (\<lambda>a b. Ret (min a b)) op"
| "try_const_eval_arithmetic nf (Dot op) = const_eval i64_mul f64_mul u64_mul op"
| "try_const_eval_arithmetic nf (Abs op) =
     const_unary op (\<lambda>c. case c of
         IntC x kind \<Rightarrow> mapR (\<lambda>r. IntC r kind) (i64_checked \<bar>sint x\<bar>)
       | FloatC x kind \<Rightarrow> Ret (FloatC (f64_abs x) kind)
       | _ \<Rightarrow> unreachable)"
| "try_const_eval_arithmetic nf (Exp op) = const_eval_float (nf_exp nf) op"
| "try_const_eval_arithmetic nf (Log op) = const_eval_float (nf_ln nf) op"
| "try_const_eval_arithmetic nf (Log1p op) = const_eval_float (nf_ln_1p nf) op"
| "try_const_eval_arithmetic nf (Cos op) = const_eval_float (nf_cos nf) op"
| "try_const_eval_arithmetic nf (Sin op) = const_eval_float (nf_sin nf) op"
| "try_const_eval_arithmetic nf (Tanh op) = const_eval_float (nf_tanh nf) op"
| "try_const_eval_arithmetic nf (Sqrt op) = const_eval_float (nf_sqrt nf) op"
| "try_const_eval_arithmetic nf (Round op) = const_eval_float (nf_round nf) op"
| "try_const_eval_arithmetic nf (Floor op) = const_eval_float (nf_floor nf) op"
| "try_const_eval_arithmetic nf (Ceil op) = const_eval_float (nf_ceil nf) op"
| "try_const_eval_arithmetic nf (Recip op) = const_eval_float (nf_recip nf) op"
| "try_const_eval_arithmetic nf (Neg op) =
     const_unary op (\<lambda>c. case c of
         IntC x kind \<Rightarrow> mapR (\<lambda>r. IntC r kind) (i64_checked (- sint x))
       | FloatC x kind \<Rightarrow> Ret (FloatC (f64_neg x) kind)
       | _ \<Rightarrow> unreachable)"
| "try_const_eval_arithmetic nf (Fma op) =
     const_ternary (fma_a op) (fma_b op) (fma_c op) (\<lambda>a b c. case (a, b, c) of
         (FloatC a kind, FloatC b _, FloatC c _) \<Rightarrow> Ret (FloatC (f64_add (f64_mul a b) c) kind)
       | _ \<Rightarrow> unreachable)"
| "try_const_eval_arithmetic nf (Clamp op) =
     const_ternary (cl_input op) (cl_min_value op) (cl_max_value op) clamp_arm"
| "try_const_eval_arithmetic nf (Erf _) = Ret None"
| "try_const_eval_arithmetic nf (Magnitude _) = Ret None"
| "try_const_eval_arithmetic nf (Normalize _) = Ret None"

fun try_const_eval_cmp :: "variable comparison \<Rightarrow> constant_scalar_value option exec" where
  "try_const_eval_cmp (Equal op) = const_eval_cmp (=) f64_eq op"
| "try_const_eval_cmp (NotEqual op) = const_eval_cmp (\<noteq>) (\<lambda>a b. \<not> f64_eq a b) op"
| "try_const_eval_cmp (Lower op) = const_eval_cmp (<) f64_less op"
| "try_const_eval_cmp (Greater op) = const_eval_cmp (>) (\<lambda>a b. f64_less b a) op"
| "try_const_eval_cmp (LowerEqual op) = const_eval_cmp (\<le>) f64_le op"
| "try_const_eval_cmp (GreaterEqual op) = const_eval_cmp (\<ge>) (\<lambda>a b. f64_le b a) op"

definition const_bits :: "variable unary_operator \<Rightarrow> (64 word \<Rightarrow> 64 word) \<Rightarrow> constant_scalar_value option exec" where
  "const_bits op f =
     const_unary op (\<lambda>c. case c of
         IntC x kind \<Rightarrow> Ret (IntC (f x) kind)
       | UIntC x kind \<Rightarrow> Ret (UIntC (f x) kind)
       | _ \<Rightarrow> unreachable)"

fun try_const_eval_bitwise :: "variable bitwise \<Rightarrow> constant_scalar_value option exec" where
  "try_const_eval_bitwise (BitwiseAnd op) = const_eval_int (\<lambda>a b. Ret (a AND b)) (\<lambda>a b. Ret (a AND b)) op"
| "try_const_eval_bitwise (BitwiseOr op) = const_eval_int (\<lambda>a b. Ret (a OR b)) (\<lambda>a b. Ret (a OR b)) op"
| "try_const_eval_bitwise (BitwiseXor op) = const_eval_int (\<lambda>a b. Ret (a XOR b)) (\<lambda>a b. Ret (a XOR b)) op"
| "try_const_eval_bitwise (ShiftLeft op) = const_eval_int i64_shl u64_shl op"
| "try_const_eval_bitwise (ShiftRight op) = const_eval_int i64_shr u64_shr op"
| "try_const_eval_bitwise (BitwiseNot op) = const_bits op (\<lambda>x. NOT x)"
| "try_const_eval_bitwise (CountOnes op) = const_bits op word_count_ones"
| "try_const_eval_bitwise (ReverseBits op) = const_bits op word_reverse_bits"
| "try_const_eval_bitwise (LeadingZeros _) = Ret None"
| "try_const_eval_bitwise (FindFirstSet _) = Ret None"

fun try_const_eval_operator :: "variable operator \<Rightarrow> constant_scalar_value option exec" where
  "try_const_eval_operator (AndO op) = const_eval_bool (\<and>) op"
| "try_const_eval_operator (OrO op) = const_eval_bool (\<or>) op"
| "try_const_eval_operator (NotO op) =
     const_unary op (\<lambda>c. case c of BoolC x \<Rightarrow> Ret (BoolC (\<not> x)) | _ \<Rightarrow> unreachable)"
| "try_const_eval_operator _ = Ret None"

definition try_const_eval :: "num_float \<Rightarrow> variable instruction \<Rightarrow> constant_scalar_value option exec" where
  "try_const_eval nf inst =
     (case i_operation inst of
        ArithmeticO op \<Rightarrow> try_const_eval_arithmetic nf op
      | ComparisonO op \<Rightarrow> try_const_eval_cmp op
      | BitwiseO op \<Rightarrow> try_const_eval_bitwise op
      | OperatorO op \<Rightarrow> try_const_eval_operator op
      | _ \<Rightarrow> Ret None)"

definition const_eval_inst :: "num_float \<Rightarrow> variable instruction \<Rightarrow> variable operation option exec" where
  "const_eval_inst nf inst = mapR (map_option (\<lambda>c. CopyO (variable_constant c))) (try_const_eval nf inst)"

definition const_eval_pass :: "num_float \<Rightarrow> program \<Rightarrow> (program \<times> nat) exec" where
  "const_eval_pass nf = rewrite_program (const_eval_inst nf)"

end
