(* ===== verification/Opt_Semantics.thy ===== *)
theory Opt_Semantics
  imports Opt_Const_Prop
begin

text \<open>
  A reference semantics of the integer operations, against which the rewriting passes are proved:
  values are words of the width \<open>'w\<close> of the operation's type, arithmetic wraps, and an operation whose
  result the targets leave undefined (division by zero, a shift by the width or more, clamping to an
  empty interval, an operation on other types) has no value. \<open>sg\<close> tells \<open>Int\<close> from \<open>UInt\<close>. A constant
  stands for its payload reduced to the width, any other variable for its value in the environment.
  Where the intermediate representation does not say what an operation computes, the semantics is that
  of the generated code: \<open>Remainder\<close> has the sign of the divisor, \<open>Modulo\<close> that of the dividend, and
  \<open>MulHi\<close> is the upper half of the product at the width of the type.
\<close>

definition denote :: "(variable \<Rightarrow> 'w::len word) \<Rightarrow> variable \<Rightarrow> 'w word" where
  "denote env v =
     (case as_const v of
        Some (IntC val _) \<Rightarrow> ucast val
      | Some (UIntC val _) \<Rightarrow> ucast val
      | _ \<Rightarrow> env v)"

definition word_div :: "bool \<Rightarrow> 'w::len word \<Rightarrow> 'w word \<Rightarrow> 'w word option" where
  "word_div sg x y =
     (if y = 0 then None
      else Some (if sg then word_of_int (sint x sdiv sint y) else x div y))"

definition word_mod :: "bool \<Rightarrow> 'w::len word \<Rightarrow> 'w word \<Rightarrow> 'w word option" where
  "word_mod sg x y =
     (if y = 0 then None
      else Some (if sg then word_of_int (sint x smod sint y) else x mod y))"

definition word_rem :: "bool \<Rightarrow> 'w::len word \<Rightarrow> 'w word \<Rightarrow> 'w word option" where
  "word_rem sg x y =
     (if y = 0 then None
      else Some (if sg then word_of_int (sint x mod sint y) else x mod y))"

definition word_mul_hi :: "bool \<Rightarrow> 'w::len word \<Rightarrow> 'w word \<Rightarrow> 'w word" where
  "word_mul_hi sg x y =
     word_of_int (drop_bit LENGTH('w) (if sg then sint x * sint y else uint x * uint y))"

definition word_le_as :: "bool \<Rightarrow> 'w::len word \<Rightarrow> 'w word \<Rightarrow> bool" where
  "word_le_as sg x y = (if sg then sint x \<le> sint y else x \<le> y)"

definition word_clamp :: "bool \<Rightarrow> 'w::len word \<Rightarrow> 'w word \<Rightarrow> 'w word \<Rightarrow> 'w word option" where
  "word_clamp sg x lo hi =
     (if word_le_as sg lo hi
      then Some (if \<not> word_le_as sg lo x then lo else if \<not> word_le_as sg x hi then hi else x)
      else None)"

text \<open>The number of set bits, and the bits in reverse order.\<close>

definition count_bits :: "'w::len word \<Rightarrow> nat" where
  "count_bits x = length (filter (bit x) [0..<LENGTH('w)])"

definition reverse_word :: "'w::len word \<Rightarrow> 'w word" where
  "reverse_word x = horner_sum of_bool 2 (map (bit x) (rev [0..<LENGTH('w)]))"

fun eval_arithmetic :: "bool \<Rightarrow> (variable \<Rightarrow> 'w::len word) \<Rightarrow> variable arithmetic \<Rightarrow> 'w word option" where
  "eval_arithmetic sg env (Add op) = Some (denote env (b_lhs op) + denote env (b_rhs op))"
| "eval_arithmetic sg env (Sub op) = Some (denote env (b_lhs op) - denote env (b_rhs op))"
| "eval_arithmetic sg env (Mul op) = Some (denote env (b_lhs op) * denote env (b_rhs op))"
| "eval_arithmetic sg env (Div op) = word_div sg (denote env (b_lhs op)) (denote env (b_rhs op))"
| "eval_arithmetic sg env (Modulo op) = word_mod sg (denote env (b_lhs op)) (denote env (b_rhs op))"
| "eval_arithmetic sg env (MaxA op) =
     (let x = denote env (b_lhs op); y = denote env (b_rhs op)
      in Some (if word_le_as sg x y then y else x))"
| "eval_arithmetic sg env (MinA op) =
     (let x = denote env (b_lhs op); y = denote env (b_rhs op)
      in Some (if word_le_as sg x y then x else y))"
| "eval_arithmetic sg env (Neg op) = Some (- denote env (u_input op))"
| "eval_arithmetic sg env (Remainder op) = word_rem sg (denote env (b_lhs op)) (denote env (b_rhs op))"
| "eval_arithmetic sg env (MulHi op) = Some (word_mul_hi sg (denote env (b_lhs op)) (denote env (b_rhs op)))"
| "eval_arithmetic sg env (Dot op) = Some (denote env (b_lhs op) * denote env (b_rhs op))"
| "eval_arithmetic sg env (Abs op) =
     (let x = denote env (u_input op) in Some (if sg then word_of_int \<bar>sint x\<bar> else x))"
| "eval_arithmetic sg env (Clamp op) =
     word_clamp sg (denote env (cl_input op)) (denote env (cl_min_value op)) (denote env (cl_max_value op))"
| "eval_arithmetic sg env _ = None"

fun eval_bitwise :: "bool \<Rightarrow> (variable \<Rightarrow> 'w::len word) \<Rightarrow> variable bitwise \<Rightarrow> 'w word option" where
  "eval_bitwise sg env (BitwiseAnd op) = Some (denote env (b_lhs op) AND denote env (b_rhs op))"
| "eval_bitwise sg env (BitwiseOr op) = Some (denote env (b_lhs op) OR denote env (b_rhs op))"
| "eval_bitwise sg env (BitwiseXor op) = Some (denote env (b_lhs op) XOR denote env (b_rhs op))"
| "eval_bitwise sg env (ShiftLeft op) =
     (let n = unat (denote env (b_rhs op))
      in if n < LENGTH('w) then Some (push_bit n (denote env (b_lhs op))) else None)"
| "eval_bitwise sg env (ShiftRight op) =
     (let n = unat (denote env (b_rhs op)); x = denote env (b_lhs op)
      in if n < LENGTH('w) then Some (if sg then signed_drop_bit n x else drop_bit n x) else None)"
| "eval_bitwise sg env (BitwiseNot op) = Some (NOT (denote env (u_input op)))"
| "eval_bitwise sg env (CountOnes op) = Some (of_nat (count_bits (denote env (u_input op))))"
| "eval_bitwise sg env (ReverseBits op) = Some (reverse_word (denote env (u_input op)))"
| "eval_bitwise sg env _ = None"

fun eval_operation :: "bool \<Rightarrow> (variable \<Rightarrow> 'w::len word) \<Rightarrow> variable operation \<Rightarrow> 'w word option" where
  "eval_operation sg env (CopyO v) = Some (denote env v)"
| "eval_operation sg env (ArithmeticO op) = eval_arithmetic sg env op"
| "eval_operation sg env (BitwiseO op) = eval_bitwise sg env op"
| "eval_operation sg env _ = None"

text \<open>Comparisons.\<close>

fun eval_comparison :: "bool \<Rightarrow> (variable \<Rightarrow> 'w::len word) \<Rightarrow> variable operation \<Rightarrow> bool option" where
  "eval_comparison sg env (ComparisonO c) =
     (let x = denote env (b_lhs (comparison_operands c)); y = denote env (b_rhs (comparison_operands c))
      in Some (case c of
          Lower _ \<Rightarrow> word_le_as sg x y \<and> x \<noteq> y
        | LowerEqual _ \<Rightarrow> word_le_as sg x y
        | Equal _ \<Rightarrow> x = y
        | NotEqual _ \<Rightarrow> x \<noteq> y
        | GreaterEqual _ \<Rightarrow> word_le_as sg y x
        | Greater _ \<Rightarrow> word_le_as sg y x \<and> x \<noteq> y))"
| "eval_comparison sg env _ = None"

definition denote_bool :: "(variable \<Rightarrow> bool) \<Rightarrow> variable \<Rightarrow> bool" where
  "denote_bool benv v = (case as_const v of Some (BoolC b) \<Rightarrow> b | _ \<Rightarrow> benv v)"

text \<open>Logical operations and selections; \<open>pick\<close> is the value a variable has, whatever its type.\<close>

fun eval_logic :: "(variable \<Rightarrow> bool) \<Rightarrow> variable operation \<Rightarrow> bool option" where
  "eval_logic benv (OperatorO (AndO op)) = Some (denote_bool benv (b_lhs op) \<and> denote_bool benv (b_rhs op))"
| "eval_logic benv (OperatorO (OrO op)) = Some (denote_bool benv (b_lhs op) \<or> denote_bool benv (b_rhs op))"
| "eval_logic benv (OperatorO (NotO op)) = Some (\<not> denote_bool benv (u_input op))"
| "eval_logic benv (CopyO v) = Some (denote_bool benv v)"
| "eval_logic benv _ = None"

fun eval_select :: "(variable \<Rightarrow> bool) \<Rightarrow> (variable \<Rightarrow> 'a) \<Rightarrow> variable operation \<Rightarrow> 'a option" where
  "eval_select benv pick (OperatorO (Select op)) =
     Some (if denote_bool benv (se_cond op) then pick (se_then op) else pick (se_or_else op))"
| "eval_select benv pick (CopyO v) = Some (pick v)"
| "eval_select benv pick _ = None"

text \<open>The length of an array is part of its kind, that of a buffer is known at run time only.\<close>

fun eval_length :: "(variable \<Rightarrow> u32) \<Rightarrow> variable operation \<Rightarrow> u32 option" where
  "eval_length lenv (MetadataO (Length v)) =
     Some (case v_kind v of ConstantArray _ n \<Rightarrow> n | SharedMemory _ n _ \<Rightarrow> n | LocalArray _ n \<Rightarrow> n | _ \<Rightarrow> lenv v)"
| "eval_length lenv (CopyO v) = Some (denote lenv v)"
| "eval_length lenv _ = None"

section \<open>Constants in the semantics\<close>

definition int_elem :: "elem \<Rightarrow> bool" where
  "int_elem e = (case e of IntE _ \<Rightarrow> True | UIntE _ \<Rightarrow> True | _ \<Rightarrow> False)"

lemma denote_IntC [simp]: "as_const v = Some (IntC val k) \<Longrightarrow> denote env v = ucast val"
  by (simp add: denote_def)

lemma denote_UIntC [simp]: "as_const v = Some (UIntC val k) \<Longrightarrow> denote env v = ucast val"
  by (simp add: denote_def)

lemma int_const_cases:
  assumes "const_typed e v" "int_elem e" "as_const v = Some c"
  obtains val k where "c = IntC val k" "e = IntE k" | val k where "c = UIntC val k" "e = UIntE k"
proof -
  from assms have "constant_elem c = plain_elem e" by (simp add: const_typed_def)
  with assms(2) show thesis
    by (cases c; cases e) (auto simp: int_elem_def intro: that)
qed

lemma is_constant_denote:
  assumes "const_typed e v" "int_elem e" "is_constant v n"
  shows "denote env v = ucast n"
proof -
  from assms(3) obtain c where c: "v_kind v = ConstantScalar c"
    by (auto simp: is_constant_def split: variable_kind.splits)
  then have const: "as_const v = Some c" by (simp add: as_const_Some)
  from int_const_cases [OF assms(1,2) const] assms(3) show ?thesis
    by cases (auto simp: is_constant_def c denote_def const)
qed

lemma is_true_denote: "is_true v \<Longrightarrow> denote_bool benv v"
  by (auto simp: is_true_def denote_bool_def as_const_def split: variable_kind.splits constant_scalar_value.splits)

lemma is_false_denote: "is_false v \<Longrightarrow> \<not> denote_bool benv v"
  by (auto simp: is_false_def denote_bool_def as_const_def split: variable_kind.splits constant_scalar_value.splits)

lemma smod_one [simp]: "(k :: int) smod 1 = 0"
  by (simp add: signed_modulo_int_def signed_divide_int_def)

lemma sdiv_one [simp]: "(k :: int) sdiv 1 = k"
  by (simp add: signed_divide_int_def sgn_mult_abs)

lemma zero_sdiv [simp]: "(0 :: int) sdiv k = 0" "(0 :: int) smod k = 0"
  by (simp_all add: signed_divide_int_def signed_modulo_int_def)

lemma sint_one_word: "1 < LENGTH('w::len) \<Longrightarrow> sint (1 :: 'w word) = 1"
  by (cases "LENGTH('w)") (simp_all add: signed_1)

lemma word_div_one: "1 < LENGTH('w) \<Longrightarrow> word_div sg (x :: 'w::len word) 1 = Some x"
  by (simp add: word_div_def sint_one_word)

lemma word_div_zero: "word_div sg 0 (y :: 'w::len word) = Some x \<Longrightarrow> x = 0"
  by (auto simp: word_div_def split: if_splits)

lemma word_mod_one: "1 < LENGTH('w) \<Longrightarrow> word_mod sg (x :: 'w::len word) 1 = Some 0"
  by (simp add: word_mod_def sint_one_word)

lemma word_mod_zero: "word_mod sg 0 (y :: 'w::len word) = Some x \<Longrightarrow> x = 0"
  by (auto simp: word_mod_def split: if_splits)


section \<open>Simplifying an operand keeps the value\<close>

lemmas simplify_splits = if_splits variable_kind.splits

lemma simplify_arithmetic_value:
  fixes env :: "variable \<Rightarrow> 'w::len word"
  assumes "1 < LENGTH('w)" "int_elem e" "i_out inst = Some r" "variable_elem r = e"
    and "\<forall>v \<in> set_arithmetic op. const_typed e v"
    and "simplify_arithmetic inst op = Ret (Some op')" "eval_arithmetic sg env op = Some x"
  shows "eval_operation sg env op' = Some x"
proof (cases op)
  case (Mul b)
  with assms show ?thesis
    by (auto simp: copy_of_def dest!: is_constant_denote [where env = env] split: if_splits)
next
  case (Add b)
  with assms show ?thesis
    by (auto simp: copy_of_def dest!: is_constant_denote [where env = env] split: if_splits)
next
  case (Sub b)
  with assms show ?thesis
    by (auto simp: copy_of_def dest!: is_constant_denote [where env = env] split: if_splits)
next
  case (Div b)
  with assms show ?thesis
    by (auto simp: copy_of_def word_div_one dest!: is_constant_denote [where env = env] word_div_zero
        split: if_splits)
next
  case (Modulo b)
  have zero: "x = 0"
    using assms Modulo
    by (auto simp: word_mod_one dest!: is_constant_denote [where env = env] word_mod_zero split: if_splits)
  from assms(2) obtain c where c: "cast_to (UIntC 0 U32) e = Ret c"
    "denote env (variable_constant c) = 0"
    by (cases e) (auto simp: int_elem_def denote_def)
  with zero Modulo assms show ?thesis
    by (auto simp: copy_of_def inst_item_def inst_out_def split: if_splits)
qed (use assms in \<open>simp_all\<close>)

lemma simplify_operator_value:
  assumes "simplify_operator op = Ret (Some op')"
  shows "eval_logic benv (OperatorO op) = Some x \<Longrightarrow> eval_logic benv op' = Some x"
    and "eval_select benv pick (OperatorO op) = Some y \<Longrightarrow> eval_select benv pick op' = Some y"
  using assms
  by (cases op; auto simp: copy_of_def variable_from_bool_def denote_bool_def [of benv "variable_constant c" for c]
      dest: is_true_denote [where benv = benv] is_false_denote [where benv = benv] split: if_splits)+

lemma ucast_u32_u64 [simp]: "(ucast (ucast (n :: u32) :: u64) :: u32) = n"
  by (rule bit_word_eqI) (simp add: bit_simps)

lemma simplify_metadata_value:
  "simplify_metadata op = Ret (Some op') \<Longrightarrow> eval_length lenv (MetadataO op) = Some n \<Longrightarrow> eval_length lenv op' = Some n"
  by (cases op) (auto simp: copy_of_def variable_from_u32_def denote_def split: variable_kind.splits)

section \<open>The pass on a program\<close>

text \<open>
  Two instructions compute the same: into the same output, the value of every integer operation of width \<open>'w\<close> whose
  output has an integer type, of every logical operation, of every selection of values of any type, and of every
  length of an array.
\<close>

definition value_kept ::
  "(variable \<Rightarrow> 'w::len word) \<Rightarrow> (variable \<Rightarrow> u32) \<Rightarrow> (variable \<Rightarrow> bool) \<Rightarrow> (variable \<Rightarrow> 'a) \<Rightarrow>
     variable instruction \<Rightarrow> variable instruction \<Rightarrow> bool" where
  "value_kept env lenv benv pick inst inst' \<longleftrightarrow> i_out inst' = i_out inst \<and>
     (\<forall>r sg x. i_out inst = Some r \<and> int_elem (variable_elem r) \<and> eval_operation sg env (i_operation inst) = Some x \<longrightarrow>
        eval_operation sg env (i_operation inst') = Some x) \<and>
     (\<forall>x. eval_logic benv (i_operation inst) = Some x \<longrightarrow> eval_logic benv (i_operation inst') = Some x) \<and>
     (\<forall>x. eval_select benv pick (i_operation inst) = Some x \<longrightarrow> eval_select benv pick (i_operation inst') = Some x) \<and>
     (\<forall>n. eval_length lenv (i_operation inst) = Some n \<longrightarrow> eval_length lenv (i_operation inst') = Some n)"

text \<open>No operand is left that the operation could do without.\<close>

fun no_neutral_operand :: "variable operation \<Rightarrow> bool" where
  "no_neutral_operand (ArithmeticO op) =
     (case op of
        Mul b \<Rightarrow> \<not> is_constant (b_lhs b) 0 \<and> \<not> is_constant (b_rhs b) 0 \<and> \<not> is_constant (b_lhs b) 1 \<and> \<not> is_constant (b_rhs b) 1
      | Add b \<Rightarrow> \<not> is_constant (b_lhs b) 0 \<and> \<not> is_constant (b_rhs b) 0
      | Sub b \<Rightarrow> \<not> is_constant (b_rhs b) 0
      | Div b \<Rightarrow> \<not> is_constant (b_lhs b) 0 \<and> \<not> is_constant (b_rhs b) 1
      | Modulo b \<Rightarrow> \<not> is_constant (b_lhs b) 0 \<and> \<not> is_constant (b_rhs b) 1
      | _ \<Rightarrow> True)"
| "no_neutral_operand (OperatorO op) =
     (case op of
        AndO b \<Rightarrow> (\<forall>c. as_const (b_lhs b) \<noteq> Some (BoolC c) \<and> as_const (b_rhs b) \<noteq> Some (BoolC c))
      | OrO b \<Rightarrow> (\<forall>c. as_const (b_lhs b) \<noteq> Some (BoolC c) \<and> as_const (b_rhs b) \<noteq> Some (BoolC c))
      | Select s \<Rightarrow> (\<forall>c. as_const (se_cond s) \<noteq> Some (BoolC c))
      | _ \<Rightarrow> True)"
| "no_neutral_operand _ = True"

lemma is_true_const: "is_true v \<longleftrightarrow> as_const v = Some (BoolC True)"
  by (auto simp: is_true_def as_const_def split: variable_kind.splits constant_scalar_value.splits)

lemma is_false_const: "is_false v \<longleftrightarrow> as_const v = Some (BoolC False)"
  by (auto simp: is_false_def as_const_def split: variable_kind.splits constant_scalar_value.splits)

lemma bool_constD: "as_const v = Some (BoolC c) \<Longrightarrow> is_true v \<or> is_false v"
  unfolding is_true_const is_false_const by (cases c) auto

text \<open>Arithmetic has an output, of a type that is not atomic.\<close>

definition arithmetic_has_out :: "variable instruction \<Rightarrow> bool" where
  "arithmetic_has_out inst \<longleftrightarrow>
     (\<forall>op. i_operation inst = ArithmeticO op \<longrightarrow> (\<exists>r. i_out inst = Some r \<and> \<not> is_atomic (variable_elem r)))"

lemma simplify_returns:
  assumes "arithmetic_has_out inst"
  shows "\<exists>r. const_operand_simplify_inst inst = Ret r \<and> (r = None \<longrightarrow> no_neutral_operand (i_operation inst)) \<and>
    (\<forall>op'. r = Some op' \<longrightarrow> (\<exists>v. op' = CopyO v))"
proof (cases "i_operation inst")
  case (ArithmeticO op)
  with assms obtain out where out: "i_out inst = Some out" "\<not> is_atomic (variable_elem out)" by (auto simp: arithmetic_has_out_def)
  from cast_to_returns [of "UIntC 0 U32" "variable_elem out"] out(2) obtain c where "cast_to (UIntC 0 U32) (variable_elem out) = Ret c"
    by (auto simp: returns_eq)
  with out(1) show ?thesis
    by (cases op) (auto simp: ArithmeticO const_operand_simplify_inst_def copy_of_def inst_item_def inst_out_def)
next
  case (OperatorO op)
  then show ?thesis by (cases op) (auto simp: const_operand_simplify_inst_def copy_of_def dest: bool_constD)
next
  case (MetadataO op)
  then show ?thesis by (cases op) (auto simp: const_operand_simplify_inst_def copy_of_def split: variable_kind.splits)
qed (simp_all add: const_operand_simplify_inst_def)

lemma simplify_keeps_value:
  fixes env :: "variable \<Rightarrow> 'w::len word"
  assumes "const_operand_simplify_inst inst = Ret (Some op')" "1 < LENGTH('w)" "inst_well_typed inst"
  shows "value_kept env lenv benv pick inst (with_operation inst op')"
proof (cases "i_operation inst")
  case (ArithmeticO op)
  have "eval_operation sg env op' = Some x"
    if "i_out inst = Some r" "int_elem (variable_elem r)" "eval_arithmetic sg env op = Some x" for r sg x
    using simplify_arithmetic_value [OF assms(2) that(2,1) refl _ _ that(3)] assms(1) ArithmeticO
      inst_well_typedD [OF assms(3) that(1)] by (simp add: const_operand_simplify_inst_def)
  then show ?thesis by (simp add: value_kept_def ArithmeticO)
next
  case (OperatorO op)
  with assms(1) have "simplify_operator op = Ret (Some op')" by (simp add: const_operand_simplify_inst_def)
  from simplify_operator_value(1) [OF this] simplify_operator_value(2) [OF this, of benv pick] OperatorO
  show ?thesis by (simp add: value_kept_def)
next
  case (MetadataO op)
  with assms(1) have "simplify_metadata op = Ret (Some op')" by (simp add: const_operand_simplify_inst_def)
  from simplify_metadata_value [OF this] MetadataO show ?thesis by (simp add: value_kept_def)
qed (use assms(1) in \<open>simp_all add: const_operand_simplify_inst_def\<close>)

text \<open>
  C18. The pass that simplifies operations with a neutral or absorbing constant operand (\<open>0 * x\<close>, \<open>x / 1\<close>,
  \<open>x + 0\<close>, \<open>x % 1\<close>, \<open>true && x\<close>, \<open>select(true, a, b)\<close>, the length of an array, \<dots>) returns, changes nothing but
  operations of instructions, leaves no such operand behind, and keeps the value of every instruction: of
  arithmetic whose output has an integer type, signed or unsigned, of any width above one bit; of logical
  operations; of selections between values of any type; and of lengths. The constants must have the types that
  constant sanitization gives them, arithmetic must have an output of a non-atomic type, and an operation must
  have a value (\<open>0 / x\<close> becomes \<open>0\<close> also where \<open>x\<close> is zero). Arithmetic on floats is not covered: there
  \<open>0 * x\<close> is not zero for an infinite \<open>x\<close>.
\<close>

theorem const_operand_simplify_sound:
  fixes env :: "variable \<Rightarrow> 'w::len word" and pick :: "variable \<Rightarrow> 'a"
  assumes "1 < LENGTH('w)" "\<And>inst. inst \<in> all_insts p \<Longrightarrow> inst_well_typed inst \<and> arithmetic_has_out inst"
  shows "returns (const_operand_simplify p) (\<lambda>(p', _).
    blocks_related (\<lambda>inst inst'. value_kept env lenv benv pick inst inst' \<and> no_neutral_operand (i_operation inst')) p p')"
  unfolding const_operand_simplify_def
proof (rule rewrite_program_returns)
  fix inst assume "inst \<in> all_insts p"
  with assms(2) have wt: "inst_well_typed inst" and out: "arithmetic_has_out inst" by auto
  from simplify_returns [OF out] obtain r where r: "const_operand_simplify_inst inst = Ret r"
    "r = None \<longrightarrow> no_neutral_operand (i_operation inst)" "\<forall>op'. r = Some op' \<longrightarrow> (\<exists>v. op' = CopyO v)" by blast
  show "returns (rewrite_inst const_operand_simplify_inst inst)
    (\<lambda>r. value_kept env lenv benv pick inst (fst r) \<and> no_neutral_operand (i_operation (fst r)))"
  proof (cases r)
    case None
    with r show ?thesis by (simp add: rewrite_inst_def value_kept_def)
  next
    case (Some op')
    with r simplify_keeps_value [OF _ assms(1) wt, of op' env lenv benv pick] show ?thesis by (auto simp: rewrite_inst_def)
  qed
qed

definition demo_local :: "id \<Rightarrow> elem \<Rightarrow> variable" where
  "demo_local i e = variable_new (LocalConst i) (item_new e)"

text \<open>\<open>x1 = x0 * 1; b3 = b2 && true\<close>.\<close>

definition demo_simplify :: program where
  "demo_simplify = \<lparr>pg_const_arrays = [], pg_variables = [], pg_nodes = [(0, default_block\<lparr>bb_ops :=
     [instruction_new (ArithmeticO (Mul (BinaryOperator (demo_local 0 (UIntE U32)) (variable_from_u32 1)))) (demo_local 1 (UIntE U32)),
      instruction_new (OperatorO (AndO (BinaryOperator (demo_local 2 BoolE) (variable_from_bool True)))) (demo_local 3 BoolE)]\<rparr>)],
     pg_edges = [], pg_root = 0\<rparr>"

theorem const_operand_simplify_sound_witness:
  "returns (const_operand_simplify demo_simplify) (\<lambda>(p', _). blocks_related (\<lambda>inst inst'.
     value_kept (\<lambda>_. 7 :: 32 word) (\<lambda>_. 0) (\<lambda>_. True) (\<lambda>_. ()) inst inst' \<and> no_neutral_operand (i_operation inst')) demo_simplify p')"
  by (rule const_operand_simplify_sound)
    (auto simp: demo_simplify_def demo_local_def all_insts_def inst_well_typed_def arithmetic_has_out_def const_typed_def
      same_const_type_def variable_from_u32_def variable_from_bool_def as_const_def)

end
