(* ===== verification/Opt_Fold.thy ===== *)
theory Opt_Fold
  imports Opt_Semantics
begin

text \<open>
  Constant folding against the reference semantics: on operands that are representable in the width of
  their type, every folded integer operation denotes the value the operation has. The exceptions the
  proof brings out are stated as properties of their own.
\<close>

section \<open>Payloads and words\<close>

fun representable :: "'w::len itself \<Rightarrow> bool \<Rightarrow> constant_scalar_value \<Rightarrow> bool" where
  "representable T sg (IntC val _) = (sg \<and> sint (ucast val :: 'w word) = sint val)"
| "representable T sg (UIntC val _) = (\<not> sg \<and> uint (ucast val :: 'w word) = uint val)"
| "representable T sg _ = False"

lemma ucast_of_int:
  "LENGTH('w::len) \<le> 64 \<Longrightarrow> (ucast (word_of_int r :: 64 word) :: 'w word) = word_of_int r"
  by (rule bit_word_eqI) (simp add: bit_simps)

lemma ucast_sint: "LENGTH('w::len) \<le> 64 \<Longrightarrow> (ucast (a :: 64 word) :: 'w word) = word_of_int (sint a)"
  using ucast_of_int [of "sint a", where 'w = 'w] by simp

lemma ucast_uint: "(ucast (a :: 64 word) :: 'w::len word) = word_of_int (uint a)"
  by (simp add: unsigned_ucast_eq)

lemma ucast_ring:
  assumes "LENGTH('w::len) \<le> 64"
  shows "(ucast (a + b :: 64 word) :: 'w word) = ucast a + ucast b"
    and "(ucast (a - b :: 64 word) :: 'w word) = ucast a - ucast b"
    and "(ucast (a * b :: 64 word) :: 'w word) = ucast a * ucast b"
    and "(ucast (- a :: 64 word) :: 'w word) = - ucast a"
  using ucast_of_int [OF assms, of "uint a + uint b"] ucast_of_int [OF assms, of "uint a - uint b"]
    ucast_of_int [OF assms, of "uint a * uint b"] ucast_of_int [OF assms, of "- uint a"]
  by simp_all

lemma ucast_bitwise:
  "LENGTH('w::len) \<le> 64 \<Longrightarrow> (ucast (a AND b :: 64 word) :: 'w word) = ucast a AND ucast b"
  "LENGTH('w::len) \<le> 64 \<Longrightarrow> (ucast (a OR b :: 64 word) :: 'w word) = ucast a OR ucast b"
  "LENGTH('w::len) \<le> 64 \<Longrightarrow> (ucast (a XOR b :: 64 word) :: 'w word) = ucast a XOR ucast b"
  "LENGTH('w::len) \<le> 64 \<Longrightarrow> (ucast (NOT a :: 64 word) :: 'w word) = NOT (ucast a)"
  by (rule bit_word_eqI; simp add: bit_simps; fail)+

lemma ucast_push_bit:
  assumes "LENGTH('w::len) \<le> 64"
  shows "(ucast (push_bit n a :: 64 word) :: 'w word) = push_bit n (ucast a)"
proof (rule bit_word_eqI)
  fix k assume "k < LENGTH('w)"
  moreover from this assms have "k < 64" "k - n < LENGTH('w)" by simp_all
  ultimately show "bit (ucast (push_bit n a) :: 'w word) k = bit (push_bit n (ucast a) :: 'w word) k"
    by (simp add: bit_simps)
qed

lemma sint_nonneg_uint: "0 \<le> sint (x :: 'w::len word) \<Longrightarrow> sint x = uint x"
proof -
  assume "0 \<le> sint x"
  moreover have "sint x < 2 ^ LENGTH('w)"
    using sint_lt [of x] by (rule order_less_le_trans) simp
  ultimately have "take_bit LENGTH('w) (sint x) = sint x"
    by (simp add: take_bit_int_eq_self)
  then show ?thesis by (simp add: uint_sint)
qed

lemma signed_drop_bit_of_int: "signed_drop_bit n (x :: 'w::len word) = word_of_int (drop_bit n (sint x))"
  by (simp flip: sint_signed_drop_bit_eq)

lemma drop_bit_of_int: "drop_bit n (x :: 'w::len word) = word_of_int (drop_bit n (uint x))"
  by (rule bit_word_eqI) (simp add: bit_simps)

lemma word_div_of_int: "(x :: 'w::len word) div y = word_of_int (uint x div uint y)"
  by (metis uint_div_distrib word_of_int_uint)

lemma word_mod_of_int: "(x :: 'w::len word) mod y = word_of_int (uint x mod uint y)"
  by (metis uint_mod_distrib word_of_int_uint)


section \<open>Folding one operation\<close>

text \<open>What a pair of operands of the right type folds to.\<close>

lemma const_eval_int_case:
  assumes "as_const (b_lhs b) = Some (IntC x k)" "as_const (b_rhs b) = Some (IntC y l)"
  shows "const_eval fi ff fu b = mapR (\<lambda>r. Some (IntC r k)) (fi x y)"
    and "const_eval_int fi fu b = mapR (\<lambda>r. Some (IntC r k)) (fi x y)"
  using assms by (auto simp: const_eval_def const_eval_int_def const_operands_def mapR_def bindE_assoc)

lemma const_eval_uint_case:
  assumes "as_const (b_lhs b) = Some (UIntC x k)" "as_const (b_rhs b) = Some (UIntC y l)"
  shows "const_eval fi ff fu b = mapR (\<lambda>r. Some (UIntC r k)) (fu x y)"
    and "const_eval_int fi fu b = mapR (\<lambda>r. Some (UIntC r k)) (fu x y)"
  using assms by (auto simp: const_eval_def const_eval_int_def const_operands_def mapR_def bindE_assoc)

lemma mapR_Ret: "mapR f m = Ret y \<longleftrightarrow> (\<exists>x. m = Ret x \<and> y = f x)"
  by (auto simp: mapR_def bindE_eq_Ret)

lemma i64_checked_Ret: "i64_checked r = Ret w \<Longrightarrow> w = word_of_int r"
  by (auto simp: i64_checked_def split: if_splits)

lemma u64_checked_Ret: "u64_checked r = Ret w \<Longrightarrow> w = word_of_int r"
  by (auto simp: u64_checked_def split: if_splits)

text \<open>The two operands of a foldable binary operation, by signedness.\<close>

definition int_operands :: "'w::len itself \<Rightarrow> bool \<Rightarrow> variable binary_operator \<Rightarrow> bool" where
  "int_operands T sg b =
     (\<exists>c d. as_const (b_lhs b) = Some c \<and> as_const (b_rhs b) = Some d \<and> representable T sg c \<and> representable T sg d)"

lemma int_operandsE:
  assumes "int_operands TYPE('w::len) sg b"
  obtains (signed) x k y l where "sg" "as_const (b_lhs b) = Some (IntC x k)" "as_const (b_rhs b) = Some (IntC y l)"
      "sint (ucast x :: 'w word) = sint x" "sint (ucast y :: 'w word) = sint y"
  | (unsigned) x k y l where "\<not> sg" "as_const (b_lhs b) = Some (UIntC x k)" "as_const (b_rhs b) = Some (UIntC y l)"
      "uint (ucast x :: 'w word) = uint x" "uint (ucast y :: 'w word) = uint y"
proof -
  from assms obtain c d where "as_const (b_lhs b) = Some c" "as_const (b_rhs b) = Some d"
    "representable TYPE('w) sg c" "representable TYPE('w) sg d"
    unfolding int_operands_def by blast
  then show thesis by (cases c; cases d) (auto intro: that)
qed

lemma denote_constant [simp]:
  "denote env (variable_constant (IntC r k)) = ucast r"
  "denote env (variable_constant (UIntC r l)) = ucast r"
  by (simp_all add: denote_def)

lemma fold_arithmetic_exact:
  fixes env :: "variable \<Rightarrow> 'w::len word"
  assumes w: "LENGTH('w) \<le> 64" and ops: "int_operands TYPE('w) sg b"
    and op: "op \<in> {Add b, Sub b, Mul b, Div b, Modulo b, MaxA b, MinA b, Dot b}"
    and c: "try_const_eval_arithmetic nf op = Ret (Some c)" and x: "eval_arithmetic sg env op = Some v"
  shows "denote env (variable_constant c) = v"
  using ops
proof (cases rule: int_operandsE)
  case (signed x k y l)
  note facts = const_eval_int_case [OF signed(2,3)] mapR_Ret i64_add_def i64_sub_def i64_mul_def i64_div_def
    i64_rem_def word_div_def word_mod_def word_le_as_def
  from op c x signed show ?thesis
    by (auto simp: facts ucast_ring [OF w] ucast_of_int [OF w] dest!: i64_checked_Ret split: if_splits)
next
  case (unsigned x k y l)
  note facts = const_eval_uint_case [OF unsigned(2,3)] mapR_Ret u64_add_def u64_sub_def u64_mul_def u64_div_def
    u64_rem_def word_div_def word_mod_def word_le_as_def
  from op c x unsigned show ?thesis
    by (auto simp: facts ucast_ring [OF w] ucast_of_int [OF w] word_div_of_int word_mod_of_int max_def min_def word_le_def
        dest!: u64_checked_Ret split: if_splits)
qed


lemma unat_of_sint: "0 \<le> sint (x :: 'w::len word) \<Longrightarrow> unat x = nat (sint x)"
  by (simp add: sint_nonneg_uint)

lemma fold_bitwise_exact:
  fixes env :: "variable \<Rightarrow> 'w::len word"
  assumes w: "LENGTH('w) \<le> 64" and ops: "int_operands TYPE('w) sg b"
    and op: "op \<in> {BitwiseAnd b, BitwiseOr b, BitwiseXor b, ShiftLeft b, ShiftRight b}"
    and c: "try_const_eval_bitwise op = Ret (Some c)" and v: "eval_bitwise sg env op = Some v"
  shows "denote env (variable_constant c) = v"
  using ops
proof (cases rule: int_operandsE)
  case (signed x k y l)
  then have "0 \<le> sint y \<Longrightarrow> unat (ucast y :: 'w word) = nat (sint y)"
    using unat_of_sint [of "ucast y :: 'w word"] by simp
  with op c v signed show ?thesis
    by (auto simp: const_eval_int_case [OF signed(2,3)] mapR_Ret i64_shl_def i64_shr_def Let_def
        ucast_bitwise [OF w] ucast_push_bit [OF w] signed_drop_bit_of_int ucast_of_int [OF w] split: if_splits)
next
  case (unsigned x k y l)
  then have "unat (ucast y :: 'w word) = unat y" by (metis unat_eq_nat_uint)
  with op c v unsigned show ?thesis
    by (auto simp: const_eval_uint_case [OF unsigned(2,3)] mapR_Ret u64_shl_def u64_shr_def Let_def
        ucast_bitwise [OF w] ucast_push_bit [OF w] drop_bit_of_int ucast_of_int [OF w] split: if_splits)
qed

lemma fold_unary_exact:
  fixes env :: "variable \<Rightarrow> 'w::len word"
  assumes w: "LENGTH('w) \<le> 64" and d: "as_const (u_input u) = Some d" "representable TYPE('w) sg d"
  shows "try_const_eval_arithmetic nf (Neg u) = Ret (Some c) \<Longrightarrow>
      denote env (variable_constant c) = - denote env (u_input u)"
    and "try_const_eval_bitwise (BitwiseNot u) = Ret (Some c) \<Longrightarrow>
      denote env (variable_constant c) = NOT (denote env (u_input u))"
  using d by (cases d; auto simp: const_bits_def const_unary_def mapR_Ret ucast_ring [OF w] ucast_bitwise [OF w]
      dest!: i64_checked_Ret)+

text \<open>
  The operations that are folded at the 64 bits of the payload, and where that is the width of the type or makes no
  difference: the upper half of a product is taken at 32 bits, bits are reversed and counted at 64 bits, and the
  remainder has the sign of the dividend.
\<close>

definition signs_agree :: "variable binary_operator \<Rightarrow> bool" where
  "signs_agree b = (\<forall>x k y l. as_const (b_lhs b) = Some (IntC x k) \<longrightarrow> as_const (b_rhs b) = Some (IntC y l) \<longrightarrow>
     0 \<le> sint x \<and> 0 \<le> sint y \<or> sint x \<le> 0 \<and> sint y \<le> 0)"

fun folds_exactly :: "'w::len itself \<Rightarrow> variable operation \<Rightarrow> bool" where
  "folds_exactly T (ArithmeticO (MulHi b)) = (LENGTH('w) = 32)"
| "folds_exactly T (ArithmeticO (Remainder b)) = signs_agree b"
| "folds_exactly T (BitwiseO (ReverseBits u)) = (LENGTH('w) = 64)"
| "folds_exactly T (BitwiseO (CountOnes u)) =
     (LENGTH('w) = 64 \<or> (\<forall>x k. as_const (u_input u) = Some (IntC x k) \<longrightarrow> 0 \<le> sint x))"
| "folds_exactly T _ = True"

lemma smod_same_sign:
  fixes x y :: int
  assumes "0 \<le> x \<and> 0 \<le> y \<or> x \<le> 0 \<and> y \<le> 0"
  shows "x smod y = x mod y"
proof (cases "0 \<le> x \<and> 0 \<le> y")
  case False
  with assms have "x \<le> 0" "y \<le> 0" by auto
  then have "x smod y = - ((- x) mod (- y))" by (cases "x = 0") (auto simp: signed_modulo_int_def signed_divide_int_def minus_mod_eq_mult_div sgn_if)
  then show ?thesis by simp
qed (auto simp: signed_modulo_int_def signed_divide_int_def minus_mod_eq_mult_div sgn_if)

lemma fold_remainder_exact:
  fixes env :: "variable \<Rightarrow> 'w::len word"
  assumes w: "LENGTH('w) \<le> 64" and ops: "int_operands TYPE('w) sg b" and sgn: "signs_agree b"
    and c: "try_const_eval_arithmetic nf (Remainder b) = Ret (Some c)" and v: "eval_arithmetic sg env (Remainder b) = Some v"
  shows "denote env (variable_constant c) = v"
  using ops
proof (cases rule: int_operandsE)
  case (signed x k y l)
  with sgn have "sint x smod sint y = sint x mod sint y" by (intro smod_same_sign) (simp add: signs_agree_def)
  with c v signed show ?thesis
    by (auto simp: const_eval_int_case [OF signed(2,3)] mapR_Ret i64_rem_def word_rem_def ucast_of_int [OF w] split: if_splits)
next
  case (unsigned x k y l)
  with c v show ?thesis
    by (auto simp: const_eval_uint_case [OF unsigned(2,3)] mapR_Ret u64_rem_def word_rem_def word_mod_of_int ucast_of_int [OF w]
        split: if_splits)
qed

lemma i64_checked_sint: "i64_checked r = Ret m \<Longrightarrow> sint m = r"
  by (auto simp: i64_checked_def i64_min_def i64_max_def signed_of_int signed_take_bit_int_eq_self split: if_splits)

lemma u64_checked_uint: "u64_checked r = Ret m \<Longrightarrow> uint m = r"
  by (auto simp: u64_checked_def unsigned_of_int take_bit_int_eq_self split: if_splits)

lemma fold_mul_hi_exact:
  fixes env :: "variable \<Rightarrow> 'w::len word"
  assumes w: "LENGTH('w) = 32" and ops: "int_operands TYPE('w) sg b"
    and c: "try_const_eval_arithmetic nf (MulHi b) = Ret (Some c)" and v: "eval_arithmetic sg env (MulHi b) = Some v"
  shows "denote env (variable_constant c) = v"
  using ops
proof (cases rule: int_operandsE)
  case (signed x k y l)
  have low: "(ucast (scast (word_of_int r :: 32 word) :: 64 word) :: 'w word) = word_of_int r" for r
    using w by (intro bit_word_eqI) (auto simp: bit_simps)
  from c signed obtain m where m: "i64_mul x y = Ret m" "c = IntC (scast (ucast (signed_drop_bit 32 m) :: 32 word)) k"
    by (auto simp: const_eval_int_case [OF signed(2,3)] mapR_Ret i64_mul_hi_def)
  then have "sint m = sint x * sint y" by (simp add: i64_mul_def i64_checked_sint)
  with m v signed w show ?thesis
    by (simp add: low word_mul_hi_def signed_drop_bit_of_int ucast_of_int)
next
  case (unsigned x k y l)
  have low: "(ucast (ucast (word_of_int r :: 32 word) :: 64 word) :: 'w word) = word_of_int r" for r
    using w by (intro bit_word_eqI) (auto simp: bit_simps)
  from c unsigned obtain m where m: "u64_mul x y = Ret m" "c = UIntC (ucast (ucast (drop_bit 32 m) :: 32 word)) k"
    by (auto simp: const_eval_uint_case [OF unsigned(2,3)] mapR_Ret u64_mul_hi_def)
  then have "uint m = uint x * uint y" by (simp add: u64_mul_def u64_checked_uint)
  with m v unsigned w show ?thesis
    by (simp add: low word_mul_hi_def drop_bit_of_int ucast_of_int)
qed

lemma fold_clamp_exact:
  fixes env :: "variable \<Rightarrow> 'w::len word"
  assumes w: "LENGTH('w) \<le> 64"
    and d: "as_const (cl_input op) = Some d1" "as_const (cl_min_value op) = Some d2" "as_const (cl_max_value op) = Some d3"
    and r: "representable TYPE('w) sg d1" "representable TYPE('w) sg d2" "representable TYPE('w) sg d3"
    and c: "try_const_eval_arithmetic nf (Clamp op) = Ret (Some c)" and v: "eval_arithmetic sg env (Clamp op) = Some v"
  shows "denote env (variable_constant c) = v"
  using assms
  by (cases d1; cases d2; cases d3)
    (auto simp: const_ternary_def mapR_Ret bindE_eq_Ret mapR_def i64_clamp_def u64_clamp_def assertE_def word_clamp_def word_le_as_def
      word_less_def word_le_def split: if_splits)

lemma uint_ucast_nonneg:
  assumes "sint (ucast x :: 'w::len word) = sint (x :: 64 word)" "0 \<le> sint x"
  shows "uint (ucast x :: 'w word) = uint x"
  using sint_nonneg_uint [of x] sint_nonneg_uint [of "ucast x :: 'w word"] assms by simp

lemma word_count_ones_eq: "word_count_ones x = of_nat (count_bits x)"
  by (simp add: word_count_ones_def count_bits_def)

lemma count_bits_card: "count_bits (x :: 'w::len word) = card {i. i < LENGTH('w) \<and> bit x i}"
proof -
  have "{i. i < LENGTH('w) \<and> bit x i} = set (filter (bit x) [0..<LENGTH('w)])" by auto
  then show ?thesis by (simp add: count_bits_def distinct_card del: set_filter)
qed

lemma count_bits_ucast:
  assumes "LENGTH('w::len) \<le> 64" "LENGTH('w) = 64 \<or> uint (ucast x :: 'w word) = uint (x :: 64 word)"
  shows "count_bits (ucast x :: 'w word) = count_bits x"
proof -
  have "bit x i \<longleftrightarrow> i < LENGTH('w) \<and> bit (ucast x :: 'w word) i" if "i < 64" for i
  proof (cases "LENGTH('w) = 64")
    case True
    with that show ?thesis by (simp add: bit_simps)
  next
    case False
    with assms(2) have "bit (uint x) i = bit (uint (ucast x :: 'w word)) i" by simp
    with that show ?thesis by (simp add: bit_uint_iff)
  qed
  then have "{i. i < LENGTH('w) \<and> bit (ucast x :: 'w word) i} = {i. i < LENGTH(64) \<and> bit x i}" using assms(1) by auto
  then show ?thesis by (simp add: count_bits_card)
qed

lemma reverse_bits_ucast:
  assumes "LENGTH('w::len) = 64"
  shows "(ucast (word_reverse_bits x) :: 'w word) = reverse_word (ucast x)"
proof (rule bit_word_eqI)
  fix n assume "n < LENGTH('w)"
  moreover have "63 - n < 64" by simp
  ultimately show "bit (ucast (word_reverse_bits x) :: 'w word) n = bit (reverse_word (ucast x) :: 'w word) n"
    using assms by (simp add: word_reverse_bits_def reverse_word_def bit_simps bit_horner_sum_bit_word_iff rev_nth)
qed

lemma fold_bits_exact:
  fixes env :: "variable \<Rightarrow> 'w::len word"
  assumes w: "LENGTH('w) \<le> 64" and d: "as_const (u_input u) = Some d" "representable TYPE('w) sg d"
  shows "folds_exactly TYPE('w) (BitwiseO (CountOnes u)) \<Longrightarrow> try_const_eval_bitwise (CountOnes u) = Ret (Some c) \<Longrightarrow>
      denote env (variable_constant c) = of_nat (count_bits (denote env (u_input u)))"
    and "folds_exactly TYPE('w) (BitwiseO (ReverseBits u)) \<Longrightarrow> try_const_eval_bitwise (ReverseBits u) = Ret (Some c) \<Longrightarrow>
      denote env (variable_constant c) = reverse_word (denote env (u_input u))"
  using d by (cases d; auto simp: const_bits_def const_unary_def mapR_Ret word_count_ones_eq reverse_bits_ucast
      ucast_of_int [OF w, of "int n" for n, simplified] count_bits_ucast [OF w] uint_ucast_nonneg)+

lemma fold_abs_exact:
  fixes env :: "variable \<Rightarrow> 'w::len word"
  assumes w: "LENGTH('w) \<le> 64" and d: "as_const (u_input u) = Some d" "representable TYPE('w) sg d"
    and c: "try_const_eval_arithmetic nf (Abs u) = Ret (Some c)"
  shows "eval_arithmetic sg env (Abs u) = Some (denote env (variable_constant c))"
  using d c by (cases d) (auto simp: const_unary_def mapR_Ret ucast_of_int [OF w] dest!: i64_checked_Ret)

lemma fold_comparison_exact:
  fixes env :: "variable \<Rightarrow> 'w::len word"
  assumes ops: "int_operands TYPE('w) sg (comparison_operands op)"
    and c: "try_const_eval_cmp op = Ret (Some c)" and v: "eval_comparison sg env (ComparisonO op) = Some v"
  shows "c = BoolC v"
  using ops
proof (cases rule: int_operandsE)
  case (signed x k y l)
  then have "(ucast x :: 'w word) = ucast y \<longleftrightarrow> sint x = sint y" by (metis signed_word_eqI)
  with c v signed show ?thesis
    by (cases op) (auto simp: const_eval_cmp_def word_le_as_def Let_def)
next
  case (unsigned x k y l)
  then have "(ucast x :: 'w word) = ucast y \<longleftrightarrow> uint x = uint y" by (simp add: word_uint_eq_iff)
  with c v unsigned show ?thesis
    by (cases op) (auto simp: const_eval_cmp_def word_le_as_def word_le_def Let_def)
qed

lemma fold_logic_exact:
  assumes "try_const_eval_operator op = Ret (Some c)" "eval_logic benv (OperatorO op) = Some v"
  shows "c = BoolC v"
  using assms by (cases op) (auto simp: const_eval_bool_def const_unary_def mapR_Ret denote_bool_def
      split: option.splits constant_scalar_value.splits)

text \<open>Operands that are constants of an integer type, and operands that are boolean constants.\<close>

definition int_constants :: "'w::len itself \<Rightarrow> bool \<Rightarrow> variable operation \<Rightarrow> bool" where
  "int_constants T sg op = (\<forall>v \<in> set_operation op. \<exists>d. as_const v = Some d \<and> representable T sg d)"

definition bool_constants :: "variable operation \<Rightarrow> bool" where
  "bool_constants op = (\<forall>v \<in> set_operation op. \<exists>b. as_const v = Some (BoolC b))"

lemma int_constantsD:
  assumes "int_constants TYPE('w::len) sg op" "b_lhs b \<in> set_operation op" "b_rhs b \<in> set_operation op"
  shows "int_operands TYPE('w) sg b"
  using assms unfolding int_constants_def int_operands_def by blast

lemma int_constantsE:
  assumes "int_constants TYPE('w::len) sg op" "v \<in> set_operation op"
  obtains d where "as_const v = Some d" "representable TYPE('w) sg d"
  using assms unfolding int_constants_def by blast

lemma fold_arithmetic_op:
  fixes env :: "variable \<Rightarrow> 'w::len word"
  assumes w: "LENGTH('w) \<le> 64" and ops: "int_constants TYPE('w) sg (ArithmeticO op)" and ex: "folds_exactly TYPE('w) (ArithmeticO op)"
    and c: "try_const_eval_arithmetic nf op = Ret (Some c)" and v: "eval_arithmetic sg env op = Some x"
  shows "denote env (variable_constant c) = x"
proof -
  note bin = int_constantsD [OF ops]
  have "(\<exists>b. op \<in> {Add b, Sub b, Mul b, Div b, Modulo b, MaxA b, MinA b, Dot b}) \<or> (\<exists>b. op = Remainder b) \<or> (\<exists>b. op = MulHi b) \<or>
      (\<exists>u. op = Neg u) \<or> (\<exists>u. op = Abs u) \<or> (\<exists>u. op = Clamp u)"
    using v by (cases op) auto
  then show ?thesis
  proof (elim disjE exE)
    fix b assume op: "op \<in> {Add b, Sub b, Mul b, Div b, Modulo b, MaxA b, MinA b, Dot b}"
    then have "int_operands TYPE('w) sg b" by (intro bin) auto
    from fold_arithmetic_exact [OF w this op c v] show ?thesis .
  next
    fix b assume op: "op = Remainder b"
    then have "int_operands TYPE('w) sg b" by (intro bin) auto
    from fold_remainder_exact [OF w this _ c [unfolded op] v [unfolded op]] ex op show ?thesis by simp
  next
    fix b assume op: "op = MulHi b"
    then have "int_operands TYPE('w) sg b" by (intro bin) auto
    from fold_mul_hi_exact [OF _ this c [unfolded op] v [unfolded op]] ex op show ?thesis by simp
  next
    fix u assume op: "op = Neg u"
    obtain d where "as_const (u_input u) = Some d" "representable TYPE('w) sg d" by (rule int_constantsE [OF ops]) (auto simp: op)
    from fold_unary_exact(1) [OF w this] c v op show ?thesis by fastforce
  next
    fix u assume op: "op = Abs u"
    obtain d where "as_const (u_input u) = Some d" "representable TYPE('w) sg d" by (rule int_constantsE [OF ops]) (auto simp: op)
    from fold_abs_exact [OF w this c [unfolded op]] v op show ?thesis by simp
  next
    fix u assume op: "op = Clamp u"
    obtain d1 where 1: "as_const (cl_input u) = Some d1" "representable TYPE('w) sg d1"
      by (rule int_constantsE [OF ops, of "cl_input u"]) (cases u, auto simp: op)
    obtain d2 where 2: "as_const (cl_min_value u) = Some d2" "representable TYPE('w) sg d2"
      by (rule int_constantsE [OF ops, of "cl_min_value u"]) (cases u, auto simp: op)
    obtain d3 where 3: "as_const (cl_max_value u) = Some d3" "representable TYPE('w) sg d3"
      by (rule int_constantsE [OF ops, of "cl_max_value u"]) (cases u, auto simp: op)
    from fold_clamp_exact [OF w 1(1) 2(1) 3(1) 1(2) 2(2) 3(2) c [unfolded op] v [unfolded op]] show ?thesis .
  qed
qed

lemma fold_bitwise_op:
  fixes env :: "variable \<Rightarrow> 'w::len word"
  assumes w: "LENGTH('w) \<le> 64" and ops: "int_constants TYPE('w) sg (BitwiseO op)" and ex: "folds_exactly TYPE('w) (BitwiseO op)"
    and c: "try_const_eval_bitwise op = Ret (Some c)" and v: "eval_bitwise sg env op = Some x"
  shows "denote env (variable_constant c) = x"
proof -
  have "(\<exists>b. op \<in> {BitwiseAnd b, BitwiseOr b, BitwiseXor b, ShiftLeft b, ShiftRight b}) \<or>
      (\<exists>u. op \<in> {BitwiseNot u, CountOnes u, ReverseBits u})"
    using v by (cases op) auto
  then show ?thesis
  proof (elim disjE exE)
    fix b assume op: "op \<in> {BitwiseAnd b, BitwiseOr b, BitwiseXor b, ShiftLeft b, ShiftRight b}"
    then have "int_operands TYPE('w) sg b" by (intro int_constantsD [OF ops]) auto
    from fold_bitwise_exact [OF w this op c v] show ?thesis .
  next
    fix u assume op: "op \<in> {BitwiseNot u, CountOnes u, ReverseBits u}"
    obtain d where d: "as_const (u_input u) = Some d" "representable TYPE('w) sg d" by (rule int_constantsE [OF ops]) (use op in auto)
    from op fold_unary_exact(2) [OF w d, of c env] fold_bits_exact [OF w d, of c env] ex c v show ?thesis by auto
  qed
qed

lemma bool_operands_fail:
  assumes "bool_constants op" "eval_operation sg env op \<noteq> None \<or> eval_comparison sg env op \<noteq> None" "i_operation inst = op"
  shows "try_const_eval nf inst \<noteq> Ret (Some c)"
proof -
  have b: "\<exists>b. as_const v = Some (BoolC b)" if "v \<in> set_operation op" for v using assms(1) that by (simp add: bool_constants_def)
  have bin: "const_eval fi ff fu b \<noteq> Ret (Some c)" "const_eval_int fi fu b \<noteq> Ret (Some c)" "const_eval_cmp gi gf b \<noteq> Ret (Some c)"
    if "b_lhs b \<in> set_operation op" "b_rhs b \<in> set_operation op" for fi ff fu gi gf b
    using b [OF that(1)] b [OF that(2)]
    by (auto simp: const_eval_def const_eval_int_def const_eval_cmp_def const_operands_def mapR_def)
  show ?thesis
  proof (cases op)
    case (ArithmeticO a)
    then show ?thesis using assms(2,3) bin b [of "u_input u" for u] b [of "cl_input u" for u] b [of "cl_min_value u" for u] b [of "cl_max_value u" for u]
      by (cases a) (auto simp: try_const_eval_def const_unary_def mapR_def const_ternary_def, (fastforce simp: const_unary_def const_ternary_def mapR_def)+)
  next
    case (BitwiseO a)
    then show ?thesis using assms(2,3) bin b [of "u_input u" for u]
      by (cases a) (auto simp: try_const_eval_def, (fastforce simp: const_unary_def const_bits_def mapR_def)+)
  next
    case (ComparisonO a)
    then show ?thesis using assms(3) bin by (cases a) (auto simp: try_const_eval_def)
  qed (use assms(2,3) in \<open>simp_all add: try_const_eval_def\<close>)
qed

text \<open>
  C19. Constant folding of integer arithmetic, bitwise operations, comparisons and logical operations is exact. When
  the operands are constants that the operation's type can represent (a signed or an unsigned type of at most 64
  bits), or booleans, and the pass replaces the operation, it puts a copy of a constant in its place, and that
  constant denotes the value of the operation at the width of the type, wrap-around included; a comparison or a
  logical operation becomes the boolean it evaluates to. Four operations are folded at the width of the payload, and
  for them the statement is restricted (\<open>folds_exactly\<close>): \<open>MulHi\<close> to types of 32 bits, \<open>ReverseBits\<close> to types of 64
  bits, \<open>CountOnes\<close> to types of 64 bits or operands that are not negative, and \<open>Remainder\<close> to operands of the same
  sign. Outside of this they do go wrong (\<open>folding_at_payload_width\<close>, \<open>folded_constants_leave_their_type\<close>). Folding of
  floats is not covered.
\<close>

theorem const_eval_exact:
  fixes env :: "variable \<Rightarrow> 'w::len word"
  assumes w: "LENGTH('w) \<le> 64" and ops: "int_constants TYPE('w) sg (i_operation inst) \<or> bool_constants (i_operation inst)"
    and fold: "const_eval_inst nf inst = Ret (Some op')"
  shows "\<exists>c. op' = CopyO (variable_constant c) \<and>
    (\<forall>x. folds_exactly TYPE('w) (i_operation inst) \<and> eval_operation sg env (i_operation inst) = Some x \<longrightarrow>
       denote env (variable_constant c) = x) \<and>
    (\<forall>b. eval_comparison sg env (i_operation inst) = Some b \<longrightarrow> c = BoolC b) \<and>
    (\<forall>b. eval_logic benv (i_operation inst) = Some b \<longrightarrow> c = BoolC b)"
proof -
  from fold obtain c where c: "try_const_eval nf inst = Ret (Some c)" "op' = CopyO (variable_constant c)"
    by (auto simp: const_eval_inst_def mapR_Ret) (metis map_option_eq_Some)
  have "denote env (variable_constant c) = x"
    if "folds_exactly TYPE('w) (i_operation inst)" "eval_operation sg env (i_operation inst) = Some x" for x
  proof -
    have int: "int_constants TYPE('w) sg (i_operation inst)" using ops bool_operands_fail [OF _ _ refl] c(1) that(2) by fastforce
    show ?thesis
      using fold_arithmetic_op [OF w] fold_bitwise_op [OF w] int that c(1)
      by (cases "i_operation inst") (auto simp: try_const_eval_def)
  qed
  moreover have "c = BoolC b" if v: "eval_comparison sg env (i_operation inst) = Some b" for b
  proof -
    have int: "int_constants TYPE('w) sg (i_operation inst)" using ops bool_operands_fail [OF _ _ refl] c(1) v by fastforce
    obtain cmp where cmp: "i_operation inst = ComparisonO cmp" using v by (cases "i_operation inst") auto
    then have "int_operands TYPE('w) sg (comparison_operands cmp)" using int by (intro int_constantsD) (auto, (cases cmp; auto)+)
    with fold_comparison_exact [OF this, of c env b] cmp c(1) v show ?thesis by (simp add: try_const_eval_def)
  qed
  moreover have "c = BoolC b" if "eval_logic benv (i_operation inst) = Some b" for b
    using that c(1) by (cases "i_operation inst") (auto simp: try_const_eval_def dest: fold_logic_exact)
  ultimately show ?thesis using c(2) by blast
qed

definition demo_sub :: "variable instruction" where
  "demo_sub = instruction_new
     (ArithmeticO (Sub (BinaryOperator (variable_constant (IntC 5 I8)) (variable_constant (IntC 7 I8)))))
     (demo_local 1 (IntE I8))"

definition demo_num_float :: num_float where
  "demo_num_float = \<lparr>nf_powf = f64_mul, nf_exp = f64_abs, nf_ln = f64_abs, nf_ln_1p = f64_abs, nf_cos = f64_abs,
     nf_sin = f64_abs, nf_tanh = f64_abs, nf_sqrt = f64_abs, nf_round = f64_round_int, nf_floor = f64_round_int,
     nf_ceil = f64_round_int, nf_recip = f64_div (Finite 1)\<rparr>"

theorem const_eval_exact_witness:
  "\<exists>c. const_eval_inst demo_num_float demo_sub = Ret (Some (CopyO (variable_constant c))) \<and> denote (\<lambda>_. 0 :: 8 word) (variable_constant c) = 254"
proof -
  have c: "const_eval_inst demo_num_float demo_sub = Ret (Some (CopyO (variable_constant (IntC (- 2) I8))))"
    by (simp add: demo_sub_def const_eval_inst_def try_const_eval_def const_eval_def const_operands_def mapR_def i64_sub_def
        i64_checked_def i64_min_def i64_max_def)
  have x: "eval_operation True (\<lambda>_. 0 :: 8 word) (i_operation demo_sub) = Some 254" "folds_exactly TYPE(8) (i_operation demo_sub)"
    by (simp_all add: demo_sub_def)
  have "int_constants TYPE(8) True (i_operation demo_sub)" by (auto simp: demo_sub_def int_constants_def)
  from const_eval_exact [OF _ disjI1, OF _ this c, of "\<lambda>_. 0" "\<lambda>_. True"] x c show ?thesis by auto
qed

section \<open>Where folding goes wrong\<close>

lemma constant_elem_BoolE [simp]: "constant_elem c = BoolE \<longleftrightarrow> (\<exists>b. c = BoolC b)"
  "BoolE = constant_elem c \<longleftrightarrow> (\<exists>b. c = BoolC b)"
  by (cases c; simp)+

text \<open>
  C20. Comparing constants of one type, folding reaches its \<open>unreachable!()\<close> exactly when both are
  booleans; on numbers it always returns.
\<close>

theorem comparing_bool_constants_panics:
  assumes "same_const_type (comparison_operands op)"
  shows "try_const_eval_cmp op = unreachable \<longleftrightarrow>
    (\<exists>a b. as_const (b_lhs (comparison_operands op)) = Some (BoolC a)
       \<and> as_const (b_rhs (comparison_operands op)) = Some (BoolC b))"
proof -
  have "const_eval_cmp fi ff b = unreachable \<longleftrightarrow>
    (\<exists>x y. as_const (b_lhs b) = Some (BoolC x) \<and> as_const (b_rhs b) = Some (BoolC y))"
    if "same_const_type b" for fi ff b
    using that by (auto simp: const_eval_cmp_def same_const_type_def
        split: option.splits constant_scalar_value.splits)
  with assms show ?thesis by (cases op) auto
qed

theorem comparing_bool_constants_panics_witness:
  "try_const_eval_cmp (Equal (BinaryOperator (variable_from_bool True) (variable_from_bool False))) = unreachable"
  using comparing_bool_constants_panics
    [of "Equal (BinaryOperator (variable_from_bool True) (variable_from_bool False))"]
  by (auto simp: same_const_type_def variable_from_bool_def)

text \<open>
  A folded constant can lie outside its type, and the next fold then goes wrong: \<open>!0u32\<close> folds to
  a \<open>u32\<close> constant with 64 set bits, which denotes the same 32-bit value as \<open>u32::MAX\<close>, yet folding
  the comparison of the two gives \<open>false\<close>. Reversing the bits of \<open>1u32\<close> folds to bit 63, so the
  32-bit value is 0.
\<close>

theorem folded_constants_leave_their_type:
  fixes env :: "variable \<Rightarrow> 32 word"
  shows "try_const_eval_bitwise (BitwiseNot (UnaryOperator (variable_from_u32 0))) = Ret (Some (UIntC (- 1) U32))
   \<and> denote env (variable_constant (UIntC (- 1) U32)) = denote env (variable_from_u32 0xFFFFFFFF)
   \<and> try_const_eval_cmp (Equal (BinaryOperator (variable_constant (UIntC (- 1) U32)) (variable_from_u32 0xFFFFFFFF)))
       = Ret (Some (BoolC False))
   \<and> try_const_eval_bitwise (ReverseBits (UnaryOperator (variable_from_u32 1))) = Ret (Some (UIntC (2 ^ 63) U32))
   \<and> denote env (variable_constant (UIntC (2 ^ 63) U32)) = 0"
proof -
  have "word_reverse_bits 1 = 2 ^ 63" by (simp add: word_reverse_bits_def upt_rec)
  moreover have "ucast (- 1 :: 64 word) = (0xFFFFFFFF :: 32 word)" "uint (- 1 :: 64 word) \<noteq> 0xFFFFFFFF"
    by (simp_all add: unsigned_minus_1_eq_mask mask_eq_exp_minus_1)
  ultimately show ?thesis
    by (simp add: const_bits_def const_unary_def mapR_def variable_from_u32_def const_eval_cmp_def)
qed

text \<open>
  The operations that are folded at the width of the payload, where that is not the width of the type: the upper
  half of \<open>2 ^ 40 * 2 ^ 20\<close> as \<open>u64\<close> is \<open>0\<close> but folds to \<open>2 ^ 28\<close>, \<open>-1i32\<close> has 32 set bits but folds to 64, and
  \<open>-5 rem 3\<close> is \<open>1\<close> but folds to \<open>-2\<close>.
\<close>

theorem folding_at_payload_width:
  fixes e32 :: "variable \<Rightarrow> 32 word" and e64 :: "variable \<Rightarrow> 64 word"
  shows "(let op = MulHi (BinaryOperator (variable_constant (UIntC (2 ^ 40) U64)) (variable_constant (UIntC (2 ^ 20) U64))) in
      try_const_eval_arithmetic nf op = Ret (Some (UIntC (2 ^ 28) U64)) \<and> eval_arithmetic False e64 op = Some 0)
   \<and> (let op = CountOnes (UnaryOperator (variable_constant (IntC (- 1) I32))) in
      try_const_eval_bitwise op = Ret (Some (IntC 64 I32)) \<and> eval_bitwise True e32 op = Some 32)
   \<and> (let op = Remainder (BinaryOperator (variable_constant (IntC (- 5) I32)) (variable_constant (IntC 3 I32))) in
      try_const_eval_arithmetic nf op = Ret (Some (IntC (- 2) I32)) \<and> eval_arithmetic True e32 op = Some 1)"
proof -
  have count: "word_count_ones (- 1) = 64" "count_bits (- 1 :: 32 word) = 32"
    by (simp_all add: word_count_ones_eq count_bits_card)
  have "ucast (- 1 :: 64 word) = (- 1 :: 32 word)" by (rule bit_word_eqI) (simp add: bit_simps)
  with count show ?thesis
    by (simp add: Let_def const_eval_int_def const_operands_def mapR_def u64_mul_hi_def u64_mul_def u64_checked_def word_mul_hi_def
        const_bits_def const_unary_def const_eval_def i64_rem_def i64_min_def word_rem_def signed_modulo_int_def signed_divide_int_def)
qed

text \<open>
  Folding an unsigned \<open>abs\<close>, which the front end offers for every numeric type, reaches
  \<open>unreachable!()\<close>; and a folded floating-point \<open>Remainder\<close> truncates (\<open>-5.0 rem 3.0\<close> folds to
  \<open>-2.0\<close>), where the generated code computes \<open>x - y * floor(x / y)\<close>, which is \<open>1.0\<close>.
\<close>

theorem folding_abs_and_remainder:
  "try_const_eval_arithmetic nf (Abs (UnaryOperator (variable_from_u32 x))) = unreachable
   \<and> try_const_eval_arithmetic nf (Remainder (BinaryOperator (variable_from_f64 (Finite (- 5))) (variable_from_f64 (Finite 3))))
       = Ret (Some (FloatC (Finite (- 2)) F64))"
proof -
  have "\<lceil>- (5 / 3 :: rat)\<rceil> = - 1" by (simp add: ceiling_eq_iff)
  then show ?thesis
    by (simp add: const_unary_def mapR_def variable_from_u32_def variable_from_f64_def const_eval_def
        const_operands_def f64_rem_def Let_def)
qed

end
