(* ===== verification/Opt_Strength.thy ===== *)
theory Opt_Strength
  imports Opt_Semantics
begin

text \<open>
  \<open>cubecl-opt/src/passes/reduce_strength.rs\<close>: multiplications, divisions and remainders of \<open>u32\<close> by
  constants near a power of two become shifts, additions, subtractions and masks. The pass rebuilds the
  instruction list of a block and takes fresh local variables from the kernel's allocator.
\<close>

section \<open>The pass\<close>

definition is_pow2 :: "variable \<Rightarrow> bool exec" where
  "is_pow2 var =
     (if variable_elem var = UIntE U32
      then case as_const var of
          None \<Rightarrow> Ret False
        | Some c \<Rightarrow> bindE (as_u32 c) (\<lambda>v. Ret (is_power_of_two v))
      else Ret False)"

text \<open>The constant operand, as \<open>u32\<close>, and the other one; \<open>None\<close> when both or neither are constant.\<close>

definition const_and_dyn :: "variable binary_operator \<Rightarrow> (u32 \<times> variable) option exec" where
  "const_and_dyn op =
     (case (as_const (b_lhs op), as_const (b_rhs op)) of
        (None, Some c) \<Rightarrow> bindE (as_u32 c) (\<lambda>v. Ret (Some (v, b_lhs op)))
      | (Some c, None) \<Rightarrow> bindE (as_u32 c) (\<lambda>v. Ret (Some (v, b_rhs op)))
      | _ \<Rightarrow> Ret None)"

definition shift_left :: "variable \<Rightarrow> u32 \<Rightarrow> variable operation" where
  "shift_left v w = BitwiseO (ShiftLeft (BinaryOperator v (variable_from_u32 (of_nat (trailing_zeros w)))))"

definition reduce_mul ::
  "u32 \<Rightarrow> variable instruction \<Rightarrow> variable binary_operator \<Rightarrow> (variable instruction list \<times> u32 \<times> nat) exec" where
  "reduce_mul next_id inst op =
     bindE (const_and_dyn op) (\<lambda>r.
     bindE (inst_out inst) (\<lambda>out.
       case r of
         None \<Rightarrow> Ret ([instruction_new (ArithmeticO (Mul op)) out], next_id, 0)
       | Some (val, dyn_val) \<Rightarrow>
           if is_power_of_two val
           then Ret ([instruction_new (shift_left dyn_val val) out], next_id, 1)
           else bindE (add_w32 val 1) (\<lambda>val1.
             if is_power_of_two val1
             then let (temp, next_id) = create_local next_id (v_item out)
                  in Ret ([instruction_new (shift_left dyn_val val1) temp,
                           instruction_new (ArithmeticO (Sub (BinaryOperator temp dyn_val))) out], next_id, 1)
             else bindE (sub_w32 val 1) (\<lambda>val2.
               if is_power_of_two val2
               then let (temp, next_id) = create_local next_id (v_item out)
                    in Ret ([instruction_new (shift_left dyn_val val2) temp,
                             instruction_new (ArithmeticO (Add (BinaryOperator temp dyn_val))) out], next_id, 1)
               else Ret ([instruction_new (ArithmeticO (Mul op)) out], next_id, 0)))))"

definition reduce_div ::
  "u32 \<Rightarrow> variable instruction \<Rightarrow> variable binary_operator \<Rightarrow> (variable instruction list \<times> u32 \<times> nat) exec" where
  "reduce_div next_id inst op =
     bindE (const_and_dyn op) (\<lambda>r.
     bindE (inst_out inst) (\<lambda>out.
       case r of
         None \<Rightarrow> Ret ([instruction_new (ArithmeticO (Div op)) out], next_id, 0)
       | Some (const_val, dyn_val) \<Rightarrow>
           Ret ([instruction_new (BitwiseO (ShiftRight (BinaryOperator dyn_val
                  (variable_from_u32 (of_nat (trailing_zeros const_val)))))) out], next_id, 1)))"

definition reduce_modulo ::
  "u32 \<Rightarrow> variable instruction \<Rightarrow> variable binary_operator \<Rightarrow> (variable instruction list \<times> u32 \<times> nat) exec" where
  "reduce_modulo next_id inst op =
     bindE (unwrap (as_const (b_rhs op))) (\<lambda>c.
     bindE (as_u32 c) (\<lambda>const_val.
     bindE (sub_w32 const_val 1) (\<lambda>mask_val.
     bindE (inst_out inst) (\<lambda>out.
       Ret ([instruction_new (BitwiseO (BitwiseAnd (BinaryOperator (b_lhs op)
              (variable_from_u32 mask_val)))) out], next_id, 1)))))"

definition reduce_inst ::
  "u32 \<Rightarrow> variable instruction \<Rightarrow> (variable instruction list \<times> u32 \<times> nat) exec" where
  "reduce_inst next_id inst =
     (case i_operation inst of
        ArithmeticO (Mul op) \<Rightarrow>
          bindE (inst_item inst) (\<lambda>it.
            if it_elem it = UIntE U32 then reduce_mul next_id inst op else Ret ([inst], next_id, 0))
      | ArithmeticO (Div op) \<Rightarrow>
          bindE (is_pow2 (b_rhs op)) (\<lambda>p.
            if p then reduce_div next_id inst op else Ret ([inst], next_id, 0))
      | ArithmeticO (Modulo op) \<Rightarrow>
          bindE (is_pow2 (b_rhs op)) (\<lambda>p.
            if p then reduce_modulo next_id inst op else Ret ([inst], next_id, 0))
      | _ \<Rightarrow> Ret ([inst], next_id, 0))"

fun reduce_insts ::
  "u32 \<Rightarrow> variable instruction list \<Rightarrow> (variable instruction list \<times> u32 \<times> nat) exec" where
  "reduce_insts next_id [] = Ret ([], next_id, 0)"
| "reduce_insts next_id (inst # insts) =
     bindE (reduce_inst next_id inst) (\<lambda>(new_ops, next_id, n).
     bindE (reduce_insts next_id insts) (\<lambda>(rest, next_id, m). Ret (new_ops @ rest, next_id, n + m)))"

fun reduce_nodes ::
  "u32 \<Rightarrow> (node_index \<times> basic_block) list \<Rightarrow> ((node_index \<times> basic_block) list \<times> u32 \<times> nat) exec" where
  "reduce_nodes next_id [] = Ret ([], next_id, 0)"
| "reduce_nodes next_id ((node, b) # bs) =
     bindE (reduce_insts next_id (bb_ops b)) (\<lambda>(ops, next_id, n).
     bindE (reduce_nodes next_id bs) (\<lambda>(bs, next_id, m).
       Ret ((node, b\<lparr>bb_ops := ops\<rparr>) # bs, next_id, n + m)))"

definition reduce_strength :: "optimizer \<Rightarrow> (optimizer \<times> nat) exec" where
  "reduce_strength opt =
     bindE (reduce_nodes (op_next_local opt) (pg_nodes (op_program opt))) (\<lambda>(nodes, next_id, n).
       Ret (opt\<lparr>op_program := (op_program opt)\<lparr>pg_nodes := nodes\<rparr>, op_next_local := next_id\<rparr>, n))"

section \<open>The values a list of instructions computes\<close>

fun run_u32 :: "(variable \<Rightarrow> u32) \<Rightarrow> variable instruction list \<Rightarrow> (variable \<Rightarrow> u32) option" where
  "run_u32 env [] = Some env"
| "run_u32 env (inst # insts) =
     (case (i_out inst, eval_operation False env (i_operation inst)) of
        (Some v, Some x) \<Rightarrow> run_u32 (env(v := x)) insts
      | _ \<Rightarrow> None)"

lemma run_u32_append:
  "run_u32 env (xs @ ys) = (case run_u32 env xs of None \<Rightarrow> None | Some e \<Rightarrow> run_u32 e ys)"
  by (induction xs arbitrary: env) (auto split: option.splits)

text \<open>The local variables the allocator has not handed out yet.\<close>

definition fresh_from :: "u32 \<Rightarrow> variable \<Rightarrow> bool" where
  "fresh_from start v = (\<exists>i. v_kind v = LocalConst i \<and> start \<le> i)"

definition agree :: "u32 \<Rightarrow> (variable \<Rightarrow> u32) \<Rightarrow> (variable \<Rightarrow> u32) \<Rightarrow> bool" where
  "agree start e e' = (\<forall>v. \<not> fresh_from start v \<longrightarrow> e v = e' v)"

definition inst_vars :: "variable instruction \<Rightarrow> variable set" where
  "inst_vars inst = set_operation (i_operation inst) \<union> set_option (i_out inst)"

lemma denote_agree: "agree start e e' \<Longrightarrow> \<not> fresh_from start v \<Longrightarrow> denote e v = denote e' v"
  by (auto simp: denote_def agree_def split: option.splits constant_scalar_value.splits)

lemma eval_arithmetic_cong:
  "(\<And>v. v \<in> set_arithmetic op \<Longrightarrow> denote e v = denote e' v) \<Longrightarrow> eval_arithmetic sg e op = eval_arithmetic sg e' op"
  by (cases op) simp_all

lemma eval_bitwise_cong:
  "(\<And>v. v \<in> set_bitwise op \<Longrightarrow> denote e v = denote e' v) \<Longrightarrow> eval_bitwise sg e op = eval_bitwise sg e' op"
  by (cases op) (simp_all add: Let_def)

lemma eval_operation_cong:
  "(\<And>v. v \<in> set_operation op \<Longrightarrow> denote e v = denote e' v) \<Longrightarrow> eval_operation sg e op = eval_operation sg e' op"
  by (cases op) (simp_all add: eval_arithmetic_cong [of _ e e'] eval_bitwise_cong [of _ e e'])

lemma as_u32_denote: "as_const v = Some c \<Longrightarrow> as_u32 c = Ret w \<Longrightarrow> denote env v = w"
  by (cases c) (auto simp: as_u32_def expect_def denote_def)

lemma ucast_u64_u32 [simp]: "ucast (ucast (w :: u32) :: u64) = w"
  by (rule bit_word_eqI) (simp add: bit_simps)

lemma denote_from_u32 [simp]: "denote env (variable_from_u32 w) = w"
  by (simp add: denote_def variable_from_u32_def)

lemma agree_upd: "agree start e e' \<Longrightarrow> agree start (e(v := x)) (e'(v := x))"
  by (auto simp: agree_def)

lemma agree_fresh: "agree start e e' \<Longrightarrow> fresh_from start v \<Longrightarrow> agree start e (e'(v := x))"
  by (auto simp: agree_def)

lemma create_local_fresh:
  assumes "create_local i it = (v, j)" "start \<le> i"
  shows "fresh_from start v" "as_const v = None" "j = i + 1"
  using assms by (auto simp: create_local_def fresh_from_def as_const_def)

lemma eval_shift_left:
  "is_power_of_two w \<Longrightarrow> eval_operation False env (shift_left v w) = Some (denote env v * w)"
  using unat_trailing_zeros [of w] power_of_two_word(1) [of w]
  by (simp add: shift_left_def Let_def shift_left_mul)

text \<open>What the rewritten instructions compute, in an environment \<open>e\<close> that agrees with \<open>env\<close>.\<close>

definition computes :: "u32 \<Rightarrow> (variable \<Rightarrow> u32) \<Rightarrow> variable instruction list \<Rightarrow> variable \<Rightarrow> u32 \<Rightarrow> bool" where
  "computes start e insts v x = (\<exists>e'. run_u32 e insts = Some e' \<and> agree start (e(v := x)) e')"

lemma computes_one:
  "eval_operation False e op = Some x \<Longrightarrow> computes start e [instruction_new op v] v x"
  by (simp add: computes_def agree_def)

lemma computes_two:
  assumes "eval_operation False e op1 = Some y" "fresh_from start t"
    and "eval_operation False (e(t := y)) op2 = Some x"
  shows "computes start e [instruction_new op1 t, instruction_new op2 v] v x"
  using assms by (auto simp: computes_def agree_def)

lemma const_and_dyn_denote:
  assumes "const_and_dyn op = Ret (Some (w, d))"
  shows "denote e (b_lhs op) * denote e (b_rhs op) = denote e d * w" "d \<in> {b_lhs op, b_rhs op}"
    and "as_const (b_rhs op) = Some c \<Longrightarrow> d = b_lhs op \<and> denote e (b_rhs op) = w"
  using assms by (auto simp: const_and_dyn_def bindE_eq_Ret as_u32_denote split: option.splits)

lemma denote_upd_fresh:
  "fresh_from start t \<Longrightarrow> \<not> fresh_from start d \<Longrightarrow> denote (e(t := y)) d = denote e d"
  by (auto simp: denote_def split: option.splits constant_scalar_value.splits)

lemma denote_upd_self: "as_const t = None \<Longrightarrow> denote (e(t := y)) t = y"
  by (simp add: denote_def)

lemma reduce_mul_computes:
  assumes "reduce_mul next_id inst op = Ret (insts, next', n)" "i_out inst = Some v" "start \<le> next_id"
    and "\<not> fresh_from start (b_lhs op)" "\<not> fresh_from start (b_rhs op)"
  shows "computes start e insts v (denote e (b_lhs op) * denote e (b_rhs op)) \<and> next' \<in> {next_id, next_id + 1}"
proof -
  from assms(1,2) obtain r where r: "const_and_dyn op = Ret r"
    by (auto simp: reduce_mul_def bindE_eq_Ret)
  show ?thesis
  proof (cases r)
    case None
    with assms r show ?thesis
      by (auto simp: reduce_mul_def inst_out_def intro!: computes_one)
  next
    case (Some wd)
    obtain w d where wd: "wd = (w, d)" by (cases wd) auto
    note r = r [unfolded Some wd]
    obtain t j where t: "create_local next_id (v_item v) = (t, j)" by (cases "create_local next_id (v_item v)")
    note fresh = create_local_fresh [OF t assms(3)]
    have d: "\<not> fresh_from start d" using const_and_dyn_denote(2) [OF r] assms(4,5) by auto
    note simps = denote_upd_fresh [OF fresh(1) d] denote_upd_self [OF fresh(2)] const_and_dyn_denote(1) [OF r]
    from assms(1,2) r t fresh(3) show ?thesis
      unfolding const_and_dyn_denote(1) [OF r]
      by (auto simp: reduce_mul_def inst_out_def add_w32_def sub_w32_def bindE_eq_Ret eval_shift_left simps
          algebra_simps split: if_splits intro!: computes_one computes_two [OF _ fresh(1)])
  qed
qed

lemma is_pow2_const:
  assumes "is_pow2 v = Ret True"
  obtains c w where "as_const v = Some c" "as_u32 c = Ret w" "is_power_of_two w"
  using assms by (auto simp: is_pow2_def bindE_eq_Ret split: if_splits option.splits)

lemma reduce_div_computes:
  assumes "is_pow2 (b_rhs op) = Ret True" "reduce_div next_id inst op = Ret (insts, next', n)" "i_out inst = Some v"
    and "word_div False (denote e (b_lhs op)) (denote e (b_rhs op)) = Some x"
  shows "computes start e insts v x \<and> next' = next_id"
proof -
  obtain c w where c: "as_const (b_rhs op) = Some c" "as_u32 c = Ret w" "is_power_of_two w"
    using assms(1) by (rule is_pow2_const)
  from assms(4) as_u32_denote [OF c(1,2), of e] have x: "x = denote e (b_lhs op) div w"
    by (auto simp: word_div_def split: if_splits)
  show ?thesis
  proof (cases "as_const (b_lhs op)")
    case None
    with c assms(2,3) x unat_trailing_zeros [OF c(3)] power_of_two_word(1) [OF c(3)] show ?thesis
      by (auto simp: reduce_div_def const_and_dyn_def inst_out_def Let_def shift_right_div intro!: computes_one)
  next
    case (Some d)
    with c assms(2,3,4) show ?thesis
      by (auto simp: reduce_div_def const_and_dyn_def inst_out_def intro!: computes_one)
  qed
qed

lemma reduce_modulo_computes:
  assumes "is_pow2 (b_rhs op) = Ret True" "reduce_modulo next_id inst op = Ret (insts, next', n)" "i_out inst = Some v"
    and "word_mod False (denote e (b_lhs op)) (denote e (b_rhs op)) = Some x"
  shows "computes start e insts v x \<and> next' = next_id"
proof -
  obtain c w where c: "as_const (b_rhs op) = Some c" "as_u32 c = Ret w" "is_power_of_two w"
    using assms(1) by (rule is_pow2_const)
  from assms(4) as_u32_denote [OF c(1,2), of e] have x: "x = denote e (b_lhs op) mod w"
    by (auto simp: word_mod_def split: if_splits)
  with c assms(2,3) show ?thesis
    by (auto simp: reduce_modulo_def inst_out_def sub_w32_def bindE_eq_Ret mask_mod split: if_splits intro!: computes_one)
qed


lemma computes_agree:
  assumes "computes start e insts v x" "agree start env e"
  shows "\<exists>e'. run_u32 e insts = Some e' \<and> agree start (env(v := x)) e'"
  using assms by (fastforce simp: computes_def agree_def)

lemma reduce_inst_computes:
  assumes "reduce_inst next_id inst = Ret (insts, next', n)" "start \<le> next_id"
    and "\<forall>u \<in> inst_vars inst. \<not> fresh_from start u" "agree start env e"
    and "i_out inst = Some v" "eval_operation False env (i_operation inst) = Some x"
  shows "(\<exists>e'. run_u32 e insts = Some e' \<and> agree start (env(v := x)) e') \<and> next' \<in> {next_id, next_id + 1}"
proof -
  have eval: "eval_operation False e (i_operation inst) = Some x"
    using assms(3,4,6) eval_operation_cong [of "i_operation inst" env e False] denote_agree [OF assms(4)]
    by (auto simp: inst_vars_def)
  have same: "computes start e [inst] v x"
    using eval assms(5) by (simp add: computes_def agree_def)
  have "computes start e insts v x \<and> next' \<in> {next_id, next_id + 1}"
  proof (cases "\<exists>op. i_operation inst \<in> {ArithmeticO (Mul op), ArithmeticO (Div op), ArithmeticO (Modulo op)}")
    case False
    then have "reduce_inst next_id inst = Ret ([inst], next_id, 0)"
      by (auto simp: reduce_inst_def split: operation.splits arithmetic.splits)
    with assms(1) same show ?thesis by auto
  next
    case True
    then obtain op where op: "i_operation inst \<in> {ArithmeticO (Mul op), ArithmeticO (Div op), ArithmeticO (Modulo op)}"
      by blast
    then have vars: "\<not> fresh_from start (b_lhs op)" "\<not> fresh_from start (b_rhs op)"
      using assms(3) by (auto simp: inst_vars_def)
    from op assms(1) same eval show ?thesis
      using reduce_mul_computes [OF _ assms(5,2) vars] reduce_div_computes [OF _ _ assms(5)]
        reduce_modulo_computes [OF _ _ assms(5)]
      by (fastforce simp: reduce_inst_def bindE_eq_Ret split: if_splits)
  qed
  with computes_agree [OF _ assms(4)] show ?thesis by blast
qed

lemma reduce_insts_simulation:
  assumes "reduce_insts next_id insts = Ret (insts', next', n)" "start \<le> next_id"
    and "unat next_id + length insts < 2 ^ 32"
    and "\<forall>inst \<in> set insts. \<forall>u \<in> inst_vars inst. \<not> fresh_from start u"
    and "agree start env e" "run_u32 env insts = Some env'"
  shows "\<exists>e'. run_u32 e insts' = Some e' \<and> agree start env' e'"
  using assms
proof (induction insts arbitrary: next_id insts' next' n env e)
  case (Cons inst insts)
  from Cons.prems(6) obtain v x where v: "i_out inst = Some v" "eval_operation False env (i_operation inst) = Some x"
    "run_u32 (env(v := x)) insts = Some env'"
    by (auto split: option.splits)
  from Cons.prems(1) obtain new j m rest m' where new: "reduce_inst next_id inst = Ret (new, j, m)"
    "reduce_insts j insts = Ret (rest, next', m')" "insts' = new @ rest"
    by (auto simp: bindE_eq_Ret)
  from reduce_inst_computes [OF new(1) Cons.prems(2) _ Cons.prems(5) v(1,2)] Cons.prems(4)
  obtain e' where e': "run_u32 e new = Some e'" "agree start (env(v := x)) e'" and j: "j \<in> {next_id, next_id + 1}"
    by auto
  have "unat (next_id + 1) = unat next_id + 1"
    using Cons.prems(3) by (simp add: unat_word_ariths(1))
  then have "start \<le> j" "unat j + length insts < 2 ^ 32"
    using j Cons.prems(2,3) by (auto simp: word_le_nat_alt)
  from Cons.IH [OF new(2) this _ e'(2) v(3)] Cons.prems(4) e'(1) new(3) show ?case
    by (auto simp: run_u32_append)
qed auto


text \<open>
  C21. Strength reduction preserves what a list of \<open>u32\<close> instructions computes: every variable other
  than the temporaries the pass allocates ends with the same value, for all 32-bit inputs. The
  allocator's counter must be above the identifiers in use and must not wrap.
\<close>

theorem reduce_strength_sound:
  assumes "reduce_insts next_id insts = Ret (insts', next', n)"
    and "unat next_id + length insts < 2 ^ 32"
    and "\<And>inst u. inst \<in> set insts \<Longrightarrow> u \<in> inst_vars inst \<Longrightarrow> \<not> fresh_from next_id u"
    and "run_u32 env insts = Some env'"
  shows "\<exists>e'. run_u32 env insts' = Some e' \<and> (\<forall>v. fresh_from next_id v \<or> e' v = env' v)"
proof -
  have "agree next_id env env" by (simp add: agree_def)
  from reduce_insts_simulation [OF assms(1) order_refl assms(2) _ this assms(4)] assms(3)
  show ?thesis by (fastforce simp: agree_def)
qed

definition demo_mul_15 :: "variable instruction" where
  "demo_mul_15 = instruction_new
     (ArithmeticO (Mul (BinaryOperator (demo_local 0 (UIntE U32)) (variable_from_u32 15))))
     (demo_local 1 (UIntE U32))"

lemma demo_powers:
  "\<not> is_power_of_two 15" "is_power_of_two 16" "trailing_zeros 16 = 4"
  by (simp_all add: is_power_of_two_def trailing_zeros_def upt_rec)

theorem reduce_strength_sound_witness:
  "\<exists>insts' e'. reduce_insts 2 [demo_mul_15] = Ret (insts', 3, 1) \<and> length insts' = 2
     \<and> run_u32 (\<lambda>_. 7) insts' = Some e' \<and> e' (demo_local 1 (UIntE U32)) = 105"
proof -
  let ?t = "demo_local 2 (UIntE U32)"
  let ?insts = "[instruction_new (shift_left (demo_local 0 (UIntE U32)) 16) ?t,
      instruction_new (ArithmeticO (Sub (BinaryOperator ?t (demo_local 0 (UIntE U32))))) (demo_local 1 (UIntE U32))]"
  have r: "reduce_insts 2 [demo_mul_15] = Ret (?insts, 3, 1)"
    by (simp add: demo_mul_15_def demo_local_def reduce_inst_def inst_item_def inst_out_def reduce_mul_def
        const_and_dyn_def as_const_def variable_from_u32_def as_u32_def demo_powers add_w32_def create_local_def)
  have run: "run_u32 (\<lambda>_. 7) [demo_mul_15] = Some ((\<lambda>_. 7)(demo_local 1 (UIntE U32) := 105))"
    by (simp add: demo_mul_15_def) (simp add: demo_local_def denote_def as_const_def)
  have vars: "\<not> fresh_from 2 u" if "inst \<in> set [demo_mul_15]" "u \<in> inst_vars inst" for inst u
    using that by (auto simp: demo_mul_15_def demo_local_def inst_vars_def fresh_from_def variable_from_u32_def
        word_le_nat_alt)
  have len: "unat (2 :: u32) + length [demo_mul_15] < 2 ^ 32" by simp
  obtain e' where "run_u32 (\<lambda>_. 7) ?insts = Some e'"
    "\<forall>v. fresh_from 2 v \<or> e' v = ((\<lambda>_. 7)(demo_local 1 (UIntE U32) := 105)) v"
    using reduce_strength_sound [OF r len _ run] vars by blast
  moreover have "\<not> fresh_from 2 (demo_local 1 (UIntE U32))" by (simp add: fresh_from_def demo_local_def word_le_nat_alt)
  ultimately show ?thesis using r by fastforce
qed

text \<open>
  The one constant factor on which the pass panics in a build with overflow checks: \<open>u32::MAX\<close>,
  whose successor it computes to look for \<open>2\<^sup>k - 1\<close>. Every other factor is handled.
\<close>

theorem reduce_mul_overflows_at_max:
  assumes "const_and_dyn op = Ret (Some (val, d))" "i_out inst = Some v"
  shows "reduce_mul next_id inst op = Panic ArithmeticOverflow \<longleftrightarrow> val = - 1"
proof -
  have "is_power_of_two 1" "\<not> is_power_of_two (- 1)" by (simp_all add: is_power_of_two_def upt_rec)
  moreover have "uint val + 1 < 2 ^ 32 \<longleftrightarrow> val \<noteq> - 1"
    using uint_lt2p [of val] by (auto simp: word_uint_eq_iff unsigned_minus_1_eq_mask mask_eq_exp_minus_1)
  moreover have "\<not> 1 \<le> val \<longleftrightarrow> val = 0" by (simp add: word_le_nat_alt unat_eq_0 not_le)
  ultimately show ?thesis
    using assms by (auto simp: reduce_mul_def inst_out_def add_w32_def sub_w32_def split_beta Let_def)
qed


theorem reduce_mul_overflows_at_max_witness:
  "reduce_mul 2 demo_mul_15
     (BinaryOperator (demo_local 0 (UIntE U32)) (variable_from_u32 (- 1))) = Panic ArithmeticOverflow"
proof -
  have "const_and_dyn (BinaryOperator (demo_local 0 (UIntE U32)) (variable_from_u32 (- 1)))
      = Ret (Some (- 1, demo_local 0 (UIntE U32)))"
    by (simp add: const_and_dyn_def demo_local_def as_const_def variable_from_u32_def as_u32_def)
  from reduce_mul_overflows_at_max [OF this, of demo_mul_15 "demo_local 1 (UIntE U32)"]
  show ?thesis by (simp add: demo_mul_15_def)
qed

end
