(* ===== verification/Opt_Reads.thy ===== *)
theory Opt_Reads
  imports Opt_Program
begin

text \<open>
  Visitors that only look: a closure that updates its own state and leaves the variables alone folds
  that state over the visited variables. With this, what an analysis does with the visitor is a
  statement about the list \<^const>\<open>reads\<close>.
\<close>

definition observer :: "('s \<Rightarrow> 'v \<Rightarrow> 's) \<Rightarrow> ('s, 'v) visitor" where
  "observer g s v = (g s v, v)"

lemma observer_simp [simp]: "observer g s v = (g s v, v)"
  by (simp add: observer_def)

lemma observe_vars [simp]: "visit_vars (observer g) s xs = (foldl g s xs, xs)"
  by (induction xs arbitrary: s) simp_all

lemma observe_groups [simp]:
  "visit_unop (observer g) s u = (g s (u_input u), u)"
  "visit_binop (observer g) s b = (g (g s (b_lhs b)) (b_rhs b), b)"
  "visit_index (observer g) s i = (g (g s (ix_list i)) (ix_index i), i)"
  "visit_index_assign (observer g) s j = (g (g s (ia_index j)) (ia_value j), j)"
  by (simp_all add: visit_unop_def visit_binop_def visit_index_def visit_index_assign_def)

definition observes :: "('s \<Rightarrow> 'v \<Rightarrow> 's) \<Rightarrow> 's \<Rightarrow> 'a \<Rightarrow> 'v list \<times> 'a \<Rightarrow> 's \<times> 'a \<Rightarrow> bool" where
  "observes g s op col obs = (obs = (foldl g s (fst col), op) \<and> snd col = op)"

lemma observe_arithmetic:
  "observes g s op (visit_arithmetic collector [] op) (visit_arithmetic (observer g) s op)"
  by (cases op) (auto simp: observes_def)

lemma observe_compare:
  "observes g s op (visit_compare collector [] op) (visit_compare (observer g) s op)"
  by (cases op) (auto simp: observes_def)

lemma observe_bitwise:
  "observes g s op (visit_bitwise collector [] op) (visit_bitwise (observer g) s op)"
  by (cases op) (auto simp: observes_def)

lemma observe_operator:
  "observes g s op (visit_operator collector [] op) (visit_operator (observer g) s op)"
  by (cases op) (auto simp: observes_def)

lemma observe_meta: "observes g s op (visit_meta collector [] op) (visit_meta (observer g) s op)"
  by (cases op) (auto simp: observes_def)

lemma observe_plane: "observes g s op (visit_plane collector [] op) (visit_plane (observer g) s op)"
  by (cases op) (auto simp: observes_def)

lemma observe_cmma: "observes g s op (visit_cmma collector [] op) (visit_cmma (observer g) s op)"
  by (cases op) (auto simp: observes_def)

lemma observe_barrier: "observes g s op (visit_barrier collector [] op) (visit_barrier (observer g) s op)"
  by (cases op) (auto simp: observes_def)

lemma observe_tma: "observes g s op (visit_tma collector [] op) (visit_tma (observer g) s op)"
  by (cases op) (auto simp: observes_def)

lemma observe_nonsemantic:
  "observes g s op (visit_nonsemantic collector [] op) (visit_nonsemantic (observer g) s op)"
  by (cases op) (auto simp: observes_def)

lemma observe_atomic:
  "visit_atomic (observer g) s op v =
     bindE (visit_atomic collector [] op v) (\<lambda>(xs, _, _). Ret (foldl g s xs, op, v))"
  by (cases op) (auto simp: unwrap_def split: option.splits)

lemmas observe_lemmas = observe_arithmetic observe_compare observe_bitwise observe_operator observe_meta
  observe_plane observe_cmma observe_barrier observe_tma observe_nonsemantic

lemma observes_keep_out:
  "observes g s op col obs \<Longrightarrow>
   keep_out v (in_ctor C obs) = bindE (keep_out v (in_ctor C col)) (\<lambda>p. Ret (foldl g s (fst p), C op, v))"
  by (simp add: observes_def in_ctor_def)

lemma visit_operation_observer:
  "visit_operation (observer g) s op v = bindE (reads op v) (\<lambda>xs. Ret (foldl g s xs, op, v))"
proof (cases op)
  case (AtomicO a)
  then show ?thesis
    by (simp add: reads_def observe_atomic bindE_assoc split_beta)
next
  case (CopyO x)
  then show ?thesis by (simp add: reads_def)
next
  case (SynchronizationO x)
  then show ?thesis by (simp add: reads_def)
next
  case (BranchO x)
  then show ?thesis by (simp add: reads_def)
qed (simp_all add: reads_def observe_lemmas [THEN observes_keep_out] bindE_assoc split_beta)

lemma visit_out_observer [simp]: "visit_out (observer g) s v = (case v of None \<Rightarrow> s | Some w \<Rightarrow> g s w, v)"
  by (auto simp: visit_out_def split: option.splits)

end
