(* ===== verification/Opt_Liveness.thy ===== *)
theory Opt_Liveness
  imports Opt_Reads
begin

text \<open>
  \<open>cubecl-opt/src/analyses/liveness.rs\<close>: the live local variables at the entry of every block, by a
  worklist iteration over the generated and killed variables of the blocks. The post-order the worklist
  starts from is computed by \<open>petgraph\<close>; it is a parameter, of which the proof uses that it lists
  existing nodes and is closed under successors. The specification is a path: a variable is live at a
  block when some path from there reads it before a block on the way has killed it.
\<close>

record block_sets =
  bs_generated :: "id set"
  bs_kill :: "id set"

type_synonym live_vars = "(node_index, id set) hash_map"

section \<open>The analysis\<close>

definition on_write :: "block_sets \<Rightarrow> variable \<Rightarrow> block_sets" where
  "on_write sets var =
     (case local_variable_id var of
        Some i \<Rightarrow> sets\<lparr>bs_kill := insert i (bs_kill sets), bs_generated := bs_generated sets - {i}\<rparr>
      | None \<Rightarrow> sets)"

definition on_read :: "block_sets \<Rightarrow> variable \<Rightarrow> block_sets" where
  "on_read sets var =
     (case local_variable_id var of
        Some i \<Rightarrow> sets\<lparr>bs_generated := insert i (bs_generated sets)\<rparr>
      | None \<Rightarrow> sets)"

text \<open>The instructions from last to first; of each, the write before the reads.\<close>

fun calculate_sets :: "block_sets \<Rightarrow> variable instruction list \<Rightarrow> block_sets exec" where
  "calculate_sets sets [] = Ret sets"
| "calculate_sets sets (inst # rest) =
     (let (sets, v) = visit_out (observer on_write) sets (i_out inst) in
      bindE (visit_operation (observer on_read) sets (i_operation inst) v) (\<lambda>(sets, _, _).
        calculate_sets sets rest))"

definition calculate_block_sets :: "basic_block \<Rightarrow> block_sets exec" where
  "calculate_block_sets b = calculate_sets \<lparr>bs_generated = {}, bs_kill = {}\<rparr> (rev (bb_ops b))"

record liveness_state =
  ls_live :: live_vars
  ls_worklist :: "node_index list"
  ls_block_sets :: "(node_index, block_sets) hash_map"

definition liveness_empty :: "program \<Rightarrow> live_vars" where
  "liveness_empty p = map (\<lambda>n. (n, {})) (node_ids p)"

definition at_block :: "live_vars \<Rightarrow> node_index \<Rightarrow> id set exec" where
  "at_block live n = unwrap (hm_get live n)"

definition is_dead :: "live_vars \<Rightarrow> node_index \<Rightarrow> id \<Rightarrow> bool exec" where
  "is_dead live n i = bindE (at_block live n) (\<lambda>s. Ret (i \<notin> s))"

text \<open>The sets of a block, computed at the first use.\<close>

definition block_sets_of ::
  "program \<Rightarrow> node_index \<Rightarrow> (node_index, block_sets) hash_map \<Rightarrow>
     (block_sets \<times> (node_index, block_sets) hash_map) exec" where
  "block_sets_of p n cache =
     (case hm_get cache n of
        Some sets \<Rightarrow> Ret (sets, cache)
      | None \<Rightarrow>
          bindE (block_at p n) (\<lambda>b.
          bindE (calculate_block_sets b) (\<lambda>sets. Ret (sets, hm_insert n sets cache))))"

fun live_from_successors :: "live_vars \<Rightarrow> id set \<Rightarrow> id set \<Rightarrow> node_index list \<Rightarrow> id set exec" where
  "live_from_successors live kill acc [] = Ret acc"
| "live_from_successors live kill acc (s # ss) =
     bindE (at_block live s) (\<lambda>l. live_from_successors live kill (acc \<union> (l - kill)) ss)"

definition analyze_block :: "program \<Rightarrow> node_index \<Rightarrow> liveness_state \<Rightarrow> liveness_state exec" where
  "analyze_block p n st =
     bindE (block_sets_of p n (ls_block_sets st)) (\<lambda>(sets, cache).
     bindE (live_from_successors (ls_live st) (bs_kill sets) (bs_generated sets) (successors p n)) (\<lambda>new.
     bindE (at_block (ls_live st) n) (\<lambda>old.
       if new \<noteq> old
       then Ret (st\<lparr>ls_worklist := ls_worklist st @ predecessors p n,
                    ls_live := hm_insert n new (ls_live st), ls_block_sets := cache\<rparr>)
       else Ret (st\<lparr>ls_block_sets := cache\<rparr>))))"

definition analyze_step :: "program \<Rightarrow> liveness_state \<Rightarrow> (liveness_state + live_vars) exec" where
  "analyze_step p st =
     (case ls_worklist st of
        [] \<Rightarrow> Ret (Inr (ls_live st))
      | n # ns \<Rightarrow> bindE (analyze_block p n (st\<lparr>ls_worklist := ns\<rparr>)) (\<lambda>st. Ret (Inl st)))"

definition analyze_liveness :: "program \<Rightarrow> node_index list \<Rightarrow> live_vars exec" where
  "analyze_liveness p post_order =
     loop (analyze_step p) \<lparr>ls_live = liveness_empty p, ls_worklist = post_order, ls_block_sets = []\<rparr>"

section \<open>The specification\<close>

text \<open>What the sets of a block are, read forwards: reads not preceded by a write, and all writes.\<close>

definition inst_reads :: "variable instruction \<Rightarrow> id set" where
  "inst_reads inst =
     (case reads (i_operation inst) (i_out inst) of
        Ret xs \<Rightarrow> {i. \<exists>v \<in> set xs. local_variable_id v = Some i}
      | _ \<Rightarrow> {})"

definition inst_writes :: "variable instruction \<Rightarrow> id set" where
  "inst_writes inst = {i. \<exists>v. i_out inst = Some v \<and> local_variable_id v = Some i}"

fun upward_exposed :: "variable instruction list \<Rightarrow> id set" where
  "upward_exposed [] = {}"
| "upward_exposed (inst # rest) = inst_reads inst \<union> (upward_exposed rest - inst_writes inst)"

definition written :: "variable instruction list \<Rightarrow> id set" where
  "written insts = (\<Union>inst \<in> set insts. inst_writes inst)"

definition ops_of :: "program \<Rightarrow> node_index \<Rightarrow> variable instruction list" where
  "ops_of p n = (case map_of (pg_nodes p) n of Some b \<Rightarrow> bb_ops b | None \<Rightarrow> [])"

inductive live_at :: "program \<Rightarrow> node_index \<Rightarrow> id \<Rightarrow> bool" for p where
  live_read: "i \<in> upward_exposed (ops_of p n) \<Longrightarrow> live_at p n i"
| live_flow: "s \<in> set (successors p n) \<Longrightarrow> live_at p s i \<Longrightarrow> i \<notin> written (ops_of p n) \<Longrightarrow> live_at p n i"

text \<open>A program the analysis accepts: edges join existing nodes, no block holds a branch operation.\<close>

definition visitable :: "variable instruction \<Rightarrow> bool" where
  "visitable inst = (case reads (i_operation inst) (i_out inst) of Ret _ \<Rightarrow> True | _ \<Rightarrow> False)"

definition program_ok :: "program \<Rightarrow> bool" where
  "program_ok p =
     (distinct (node_ids p)
      \<and> (\<forall>(_, s, t) \<in> set (pg_edges p). s \<in> set (node_ids p) \<and> t \<in> set (node_ids p))
      \<and> (\<forall>(_, b) \<in> set (pg_nodes p). \<forall>inst \<in> set (bb_ops b). visitable inst))"

section \<open>The sets of a block\<close>

lemma foldl_on_read:
  "foldl on_read sets xs =
     sets\<lparr>bs_generated := bs_generated sets \<union> {i. \<exists>v \<in> set xs. local_variable_id v = Some i}\<rparr>"
  by (induction xs arbitrary: sets) (auto simp: on_read_def split: option.splits intro!: block_sets.equality)

lemma calculate_sets_correct:
  assumes "\<forall>inst \<in> set insts. visitable inst"
  shows "calculate_sets sets (rev insts @ rest) =
    calculate_sets \<lparr>bs_generated = upward_exposed insts \<union> (bs_generated sets - written insts),
      bs_kill = bs_kill sets \<union> written insts\<rparr> rest"
  using assms
proof (induction insts arbitrary: rest)
  case (Cons inst insts)
  obtain xs where xs: "reads (i_operation inst) (i_out inst) = Ret xs"
    using Cons.prems by (auto simp: visitable_def split: exec.splits)
  have writes: "(case i_out inst of None \<Rightarrow> sets | Some w \<Rightarrow> on_write sets w)
    = sets\<lparr>bs_kill := bs_kill sets \<union> inst_writes inst, bs_generated := bs_generated sets - inst_writes inst\<rparr>" for sets
    by (auto simp: on_write_def inst_writes_def split: option.splits)
  show ?case
    using Cons.IH [of "inst # rest"] Cons.prems
    by (auto simp: visit_operation_observer xs writes foldl_on_read inst_reads_def written_def
        intro!: arg_cong2 [of _ _ _ _ calculate_sets])
next
  case Nil
  then show ?case by (cases sets) (simp add: written_def)
qed

lemma calculate_block_sets_correct:
  assumes "\<forall>inst \<in> set (bb_ops b). visitable inst"
  shows "calculate_block_sets b = Ret \<lparr>bs_generated = upward_exposed (bb_ops b), bs_kill = written (bb_ops b)\<rparr>"
  using calculate_sets_correct [OF assms, of "\<lparr>bs_generated = {}, bs_kill = {}\<rparr>" "[]"]
  by (simp add: calculate_block_sets_def)


section \<open>The iteration\<close>

text \<open>One transfer, on the live sets as a function of the node.\<close>

definition live_fun :: "live_vars \<Rightarrow> node_index \<Rightarrow> id set" where
  "live_fun live n = (case hm_get live n of Some s \<Rightarrow> s | None \<Rightarrow> {})"

definition transfer :: "program \<Rightarrow> (node_index \<Rightarrow> id set) \<Rightarrow> node_index \<Rightarrow> id set" where
  "transfer p L n = upward_exposed (ops_of p n) \<union> (\<Union>s \<in> set (successors p n). L s - written (ops_of p n))"

lemma transfer_mono: "(\<And>n. L n \<subseteq> L' n) \<Longrightarrow> transfer p L n \<subseteq> transfer p L' n"
  unfolding transfer_def by blast

lemma transfer_sound: "(\<And>n. L n \<subseteq> {i. live_at p n i}) \<Longrightarrow> transfer p L n \<subseteq> {i. live_at p n i}"
  by (fastforce simp: transfer_def intro: live_at.intros)

lemma successors_predecessors: "s \<in> set (successors p n) \<longleftrightarrow> n \<in> set (predecessors p s)"
  by (force simp: successors_def predecessors_def)

lemma program_ok_succ: "program_ok p \<Longrightarrow> s \<in> set (successors p n) \<Longrightarrow> s \<in> set (node_ids p)"
  by (force simp: program_ok_def successors_def)

lemma program_ok_pred: "program_ok p \<Longrightarrow> s \<in> set (predecessors p n) \<Longrightarrow> s \<in> set (node_ids p)"
  by (force simp: program_ok_def predecessors_def)

lemma program_ok_block:
  assumes "program_ok p" "n \<in> set (node_ids p)"
  obtains b where "block_at p n = Ret b" "ops_of p n = bb_ops b" "\<forall>inst \<in> set (bb_ops b). visitable inst"
proof -
  from assms(2) obtain b where b: "map_of (pg_nodes p) n = Some b"
    by (auto simp: node_ids_def dest: map_of_SomeD) (metis (mono_tags, lifting) map_of_eq_None_iff not_Some_eq image_eqI fst_conv)
  moreover from this assms(1) have "\<forall>inst \<in> set (bb_ops b). visitable inst"
    by (fastforce simp: program_ok_def dest: map_of_SomeD)
  ultimately show thesis by (intro that) (auto simp: block_at_def ops_of_def)
qed

definition cache_ok :: "program \<Rightarrow> (node_index, block_sets) hash_map \<Rightarrow> bool" where
  "cache_ok p cache = (\<forall>n sets. hm_get cache n = Some sets \<longrightarrow>
     sets = \<lparr>bs_generated = upward_exposed (ops_of p n), bs_kill = written (ops_of p n)\<rparr>)"

lemma block_sets_of_correct:
  assumes "program_ok p" "n \<in> set (node_ids p)" "cache_ok p cache"
  obtains cache' where "cache_ok p cache'"
    "block_sets_of p n cache = Ret (\<lparr>bs_generated = upward_exposed (ops_of p n), bs_kill = written (ops_of p n)\<rparr>, cache')"
proof (cases "hm_get cache n")
  case None
  obtain b where "block_at p n = Ret b" "ops_of p n = bb_ops b" "\<forall>inst \<in> set (bb_ops b). visitable inst"
    using program_ok_block [OF assms(1,2)] .
  with None assms(3) show thesis
    by (intro that [of "hm_insert n \<lparr>bs_generated = upward_exposed (ops_of p n), bs_kill = written (ops_of p n)\<rparr> cache"])
      (auto simp: block_sets_of_def calculate_block_sets_correct cache_ok_def)
next
  case (Some sets)
  with assms(3) show thesis by (intro that [of cache]) (auto simp: block_sets_of_def cache_ok_def)
qed

definition covers :: "program \<Rightarrow> live_vars \<Rightarrow> bool" where
  "covers p live = (\<forall>n \<in> set (node_ids p). hm_get live n \<noteq> None)"

lemma at_block_total: "covers p live \<Longrightarrow> n \<in> set (node_ids p) \<Longrightarrow> at_block live n = Ret (live_fun live n)"
  by (auto simp: covers_def at_block_def live_fun_def)

lemma live_from_successors_eq:
  assumes "covers p live" "set ss \<subseteq> set (node_ids p)"
  shows "live_from_successors live kill acc ss = Ret (acc \<union> (\<Union>s \<in> set ss. live_fun live s - kill))"
  using assms(2) by (induction ss arbitrary: acc) (auto simp: at_block_total [OF assms(1)] Un_assoc)


text \<open>The invariant of the iteration, and the measure that bounds it.\<close>

definition liveness_inv :: "program \<Rightarrow> node_index list \<Rightarrow> liveness_state \<Rightarrow> bool" where
  "liveness_inv p post_order st =
     (covers p (ls_live st) \<and> cache_ok p (ls_block_sets st)
      \<and> set (ls_worklist st) \<subseteq> set (node_ids p)
      \<and> (\<forall>n. live_fun (ls_live st) n \<subseteq> {i. live_at p n i})
      \<and> (\<forall>n \<in> set (node_ids p). live_fun (ls_live st) n \<subseteq> transfer p (live_fun (ls_live st)) n)
      \<and> (\<forall>n \<in> set post_order. n \<in> set (ls_worklist st)
           \<or> transfer p (live_fun (ls_live st)) n = live_fun (ls_live st) n))"

definition readable :: "program \<Rightarrow> id set" where
  "readable p = (\<Union>n \<in> set (node_ids p). upward_exposed (ops_of p n))"

definition liveness_measure :: "program \<Rightarrow> liveness_state \<Rightarrow> nat" where
  "liveness_measure p st =
     (\<Sum>n \<in> set (node_ids p). card (readable p) - card (live_fun (ls_live st) n)) * Suc (length (pg_edges p))
     + length (ls_worklist st)"

lemma finite_inst_reads [simp]: "finite (inst_reads inst)"
proof -
  have "finite {i. \<exists>v \<in> set xs. local_variable_id v = Some i}" for xs
    by (rule finite_subset [of _ "the ` local_variable_id ` set xs"]) force+
  then show ?thesis by (simp add: inst_reads_def split: exec.splits)
qed

lemma finite_upward_exposed [simp]: "finite (upward_exposed insts)"
  by (induction insts) auto

lemma finite_readable [simp]: "finite (readable p)"
  by (simp add: readable_def)

lemma ops_of_outside: "n \<notin> set (node_ids p) \<Longrightarrow> ops_of p n = []"
  by (auto simp: ops_of_def node_ids_def split: option.splits dest: map_of_SomeD)
    (metis fst_conv image_eqI map_of_SomeD)

lemma live_at_readable: "live_at p n i \<Longrightarrow> i \<in> readable p"
proof (induction rule: live_at.induct)
  case (live_read i n)
  then show ?case by (cases "n \<in> set (node_ids p)") (auto simp: readable_def ops_of_outside)
qed

lemma live_fun_insert: "live_fun (hm_insert n s live) = (live_fun live)(n := s)"
  by (rule ext) (simp add: live_fun_def)

lemma weighted_less: "(x::nat) < y \<Longrightarrow> l \<le> e \<Longrightarrow> x * Suc e + (k + l) < y * Suc e + Suc k"
proof -
  assume "x < y" "l \<le> e"
  from \<open>x < y\<close> have "Suc x * Suc e \<le> y * Suc e" by (intro mult_le_mono1) simp
  with \<open>l \<le> e\<close> show ?thesis by simp
qed

lemma length_predecessors: "length (predecessors p n) \<le> length (pg_edges p)"
  by (simp add: predecessors_def)

lemma measure_decreases:
  assumes "finite N" "n \<in> N" "L n \<subset> s" "s \<subseteq> U" "finite U"
  shows "(\<Sum>m \<in> N. card U - card ((L(n := s)) m)) < (\<Sum>m \<in> N. card U - card (L m))"
proof (rule sum_strict_mono_ex1)
  have "card (L n) < card s" "card s \<le> card U"
    using assms by (auto intro: psubset_card_mono card_mono finite_subset)
  then have "card U - card s < card U - card (L n)" by linarith
  with assms(2) show "\<exists>a \<in> N. card U - card ((L(n := s)) a) < card U - card (L a)" by auto
  then show "\<forall>x \<in> N. card U - card ((L(n := s)) x) \<le> card U - card (L x)"
    using \<open>card U - card s < card U - card (L n)\<close> by auto
qed fact

lemma transfer_upd:
  "n \<notin> set (predecessors p b) \<Longrightarrow> transfer p (L(b := s)) n = transfer p L n"
  by (auto simp: transfer_def successors_predecessors split: if_splits)

lemma analyze_block_eq:
  assumes "program_ok p" "liveness_inv p post_order st" "n \<in> set (node_ids p)"
  obtains cache where "cache_ok p cache"
    "analyze_block p n (st\<lparr>ls_worklist := ns\<rparr>) =
       (let new = transfer p (live_fun (ls_live st)) n
        in if new \<noteq> live_fun (ls_live st) n
           then Ret (st\<lparr>ls_worklist := ns @ predecessors p n, ls_live := hm_insert n new (ls_live st), ls_block_sets := cache\<rparr>)
           else Ret (st\<lparr>ls_worklist := ns, ls_block_sets := cache\<rparr>))"
proof -
  have total: "covers p (ls_live st)" and cache: "cache_ok p (ls_block_sets st)"
    using assms(2) by (auto simp: liveness_inv_def)
  obtain cache' where "cache_ok p cache'" "block_sets_of p n (ls_block_sets st)
      = Ret (\<lparr>bs_generated = upward_exposed (ops_of p n), bs_kill = written (ops_of p n)\<rparr>, cache')"
    using block_sets_of_correct [OF assms(1,3) cache] .
  moreover have "set (successors p n) \<subseteq> set (node_ids p)" using program_ok_succ [OF assms(1)] by blast
  ultimately show thesis
    by (intro that [of cache'])
      (auto simp: analyze_block_def live_from_successors_eq [OF total] at_block_total [OF total assms(3)]
        transfer_def Let_def)
qed

lemma analyze_step_inv:
  assumes ok: "program_ok p" and inv: "liveness_inv p post_order st"
  shows "returns (analyze_step p st) (\<lambda>x. case x of
      Inl st' \<Rightarrow> liveness_inv p post_order st' \<and> liveness_measure p st' < liveness_measure p st
    | Inr live \<Rightarrow> live = ls_live st \<and> ls_worklist st = [])"
proof (cases "ls_worklist st")
  case Nil
  then show ?thesis by (simp add: analyze_step_def)
next
  case (Cons n ns)
  let ?L = "live_fun (ls_live st)"
  have n: "n \<in> set (node_ids p)" using inv Cons by (auto simp: liveness_inv_def)
  obtain cache where cache: "cache_ok p cache" and eq: "analyze_block p n (st\<lparr>ls_worklist := ns\<rparr>) =
       (let new = transfer p ?L n
        in if new \<noteq> ?L n
           then Ret (st\<lparr>ls_worklist := ns @ predecessors p n, ls_live := hm_insert n new (ls_live st), ls_block_sets := cache\<rparr>)
           else Ret (st\<lparr>ls_worklist := ns, ls_block_sets := cache\<rparr>))"
    using analyze_block_eq [OF ok inv n] .
  show ?thesis
  proof (cases "transfer p ?L n = ?L n")
    case True
    with Cons cache inv eq show ?thesis
      by (auto simp: analyze_step_def liveness_inv_def liveness_measure_def)
  next
    case False
    let ?new = "transfer p ?L n" and ?L' = "?L(n := transfer p ?L n)"
    have grow: "?L m \<subseteq> ?L' m" for m using inv n by (auto simp: liveness_inv_def)
    have sound: "?L' m \<subseteq> {i. live_at p m i}" for m
      using inv transfer_sound [of ?L p n] by (auto simp: liveness_inv_def)
    have up: "?L' m \<subseteq> transfer p ?L' m" if "m \<in> set (node_ids p)" for m
    proof -
      have "?L m \<subseteq> transfer p ?L m" using inv that unfolding liveness_inv_def by blast
      with transfer_mono [of ?L ?L' p m, OF grow] show ?thesis by (cases "m = n") (simp, fastforce)
    qed
    have stable: "m \<in> set (ns @ predecessors p n) \<or> transfer p ?L' m = ?L' m" if "m \<in> set post_order" for m
      using inv that Cons transfer_upd [of m p n ?L ?new] by (auto simp: liveness_inv_def split: if_splits)
    have "?L n \<subset> ?new" "?new \<subseteq> readable p"
      using False grow [of n] sound [of n] live_at_readable by auto
    from measure_decreases [of "set (node_ids p)" n ?L ?new, OF _ n this] have less:
      "(\<Sum>m \<in> set (node_ids p). card (readable p) - card (?L' m)) < (\<Sum>m \<in> set (node_ids p). card (readable p) - card (?L m))"
      by simp
    let ?st = "st\<lparr>ls_worklist := ns @ predecessors p n, ls_live := hm_insert n ?new (ls_live st), ls_block_sets := cache\<rparr>"
    have "liveness_measure p ?st < liveness_measure p st"
      using weighted_less [OF less length_predecessors [of p n], of "length ns"]
      unfolding liveness_measure_def by (simp add: live_fun_insert Cons)
    moreover have "covers p (ls_live ?st)" using inv by (simp add: liveness_inv_def covers_def)
    moreover have "set (ls_worklist ?st) \<subseteq> set (node_ids p)"
      using inv Cons program_ok_pred [OF ok] by (auto simp: liveness_inv_def)
    ultimately show ?thesis
      using Cons False eq cache sound up stable
      unfolding analyze_step_def liveness_inv_def by (simp add: live_fun_insert)
  qed
qed

lemma liveness_complete:
  assumes "live_at p n i" "n \<in> N" "\<And>n. n \<in> N \<Longrightarrow> transfer p L n = L n"
    and "\<And>n s. n \<in> N \<Longrightarrow> s \<in> set (successors p n) \<Longrightarrow> s \<in> N"
  shows "i \<in> L n"
  using assms(1,2)
proof (induction rule: live_at.induct)
  case (live_read i n)
  then show ?case using assms(3) [of n] by (auto simp: transfer_def)
next
  case (live_flow s n i)
  then show ?case using assms(3) [of n] assms(4) [of n s] by (auto simp: transfer_def)
qed

text \<open>
  C22. Liveness analysis terminates without a panic on every well-formed control-flow graph, and at
  every block of the post-order it returns exactly the variables that are live on some path: those
  read, on a path from the block, before any block of the path writes them.
\<close>

theorem liveness_is_path_liveness:
  assumes "program_ok p" "set post_order \<subseteq> set (node_ids p)"
    and "\<And>n s. n \<in> set post_order \<Longrightarrow> s \<in> set (successors p n) \<Longrightarrow> s \<in> set post_order"
  shows "returns (analyze_liveness p post_order)
    (\<lambda>live. \<forall>n \<in> set post_order. at_block live n = Ret {i. live_at p n i})"
proof -
  let ?st = "\<lparr>ls_live = liveness_empty p, ls_worklist = post_order, ls_block_sets = []\<rparr>"
  have empty: "live_fun (liveness_empty p) n = {}" for n
    by (auto simp: live_fun_def liveness_empty_def split: option.splits dest: map_of_SomeD)
  have "hm_get (liveness_empty p) n \<noteq> None" if "n \<in> set (node_ids p)" for n
    using that by (simp add: liveness_empty_def map_of_eq_None_iff image_iff)
  then have inv: "liveness_inv p post_order ?st"
    using assms(2) by (auto simp: liveness_inv_def empty covers_def cache_ok_def)
  have step: "returns (analyze_step p st) (\<lambda>x. case x of
      Inl st' \<Rightarrow> liveness_inv p post_order st' \<and> liveness_measure p st' < liveness_measure p st
    | Inr live \<Rightarrow> \<forall>n \<in> set post_order. at_block live n = Ret {i. live_at p n i})"
    if "liveness_inv p post_order st" for st
  proof (rule returns_mono [OF analyze_step_inv [OF assms(1) that]], split sum.splits, intro conjI allI impI)
    fix x live assume x: "case x of Inl st' \<Rightarrow> liveness_inv p post_order st' \<and> liveness_measure p st' < liveness_measure p st
      | Inr live \<Rightarrow> live = ls_live st \<and> ls_worklist st = []" "x = Inr live"
    show "\<forall>n \<in> set post_order. at_block live n = Ret {i. live_at p n i}"
    proof
      fix n assume n: "n \<in> set post_order"
      have solved: "transfer p (live_fun live) m = live_fun live m" if "m \<in> set post_order" for m
        using \<open>liveness_inv p post_order st\<close> x that by (auto simp: liveness_inv_def)
      have "live_fun live n = {i. live_at p n i}"
        using \<open>liveness_inv p post_order st\<close> x liveness_complete [OF _ n solved assms(3)]
        by (auto simp: liveness_inv_def)
      moreover have "covers p live" using \<open>liveness_inv p post_order st\<close> x by (auto simp: liveness_inv_def)
      ultimately show "at_block live n = Ret {i. live_at p n i}"
        using at_block_total n assms(2) by auto
    qed
  qed (auto split: sum.splits)
  show ?thesis
    unfolding analyze_liveness_def by (rule loop_returns [where I = "liveness_inv p post_order", OF inv step])
qed


definition demo_mut :: "id \<Rightarrow> variable" where
  "demo_mut i = variable_new (LocalMut i) (item_new (UIntE U32))"

text \<open>Block 0 writes variable 1; block 1 reads both variables, and the two form a loop.\<close>

definition demo_cfg :: program where
  "demo_cfg = \<lparr>pg_const_arrays = [], pg_variables = [],
     pg_nodes = [(0, default_block\<lparr>bb_ops := [instruction_new (CopyO (variable_from_u32 5)) (demo_mut 1)]\<rparr>),
                 (1, default_block\<lparr>bb_ops := [instruction_new
                    (ArithmeticO (Add (BinaryOperator (demo_mut 0) (demo_mut 1)))) (demo_mut 0)]\<rparr>)],
     pg_edges = [(0, 0, 1), (1, 1, 0)], pg_root = 0\<rparr>"

theorem liveness_is_path_liveness_witness:
  "\<exists>live. analyze_liveness demo_cfg [1, 0] = Ret live \<and> at_block live 0 = Ret {i. live_at demo_cfg 0 i}
     \<and> live_at demo_cfg 0 0"
proof -
  have read: "reads (ArithmeticO (Add (BinaryOperator (demo_mut 0) (demo_mut 1)))) v = Ret [demo_mut 0, demo_mut 1]"
    "reads (CopyO (variable_from_u32 5)) v = Ret [variable_from_u32 5]" for v
    by (simp_all add: reads_def)
  have ok: "program_ok demo_cfg" "set [1, 0] \<subseteq> set (node_ids demo_cfg)"
    by (simp_all add: program_ok_def demo_cfg_def node_ids_def default_block_def visitable_def read)
  have closed: "s \<in> set [1, 0]" if "n \<in> set [1, 0]" "s \<in> set (successors demo_cfg n)" for n s
    using that by (auto simp: demo_cfg_def successors_def split: if_splits)
  have "live_at demo_cfg 1 0"
    by (rule live_read) (simp add: demo_cfg_def ops_of_def default_block_def inst_reads_def read,
        simp add: demo_mut_def local_variable_id_def)
  then have "live_at demo_cfg 0 0"
    by (rule live_flow [rotated]) (auto simp: demo_cfg_def successors_def ops_of_def default_block_def written_def
        inst_writes_def demo_mut_def local_variable_id_def)
  moreover have "returns (analyze_liveness demo_cfg [1, 0])
      (\<lambda>live. \<forall>n \<in> set [1, 0]. at_block live n = Ret {i. live_at demo_cfg n i})"
    by (rule liveness_is_path_liveness [OF ok]) (rule closed)
  ultimately show ?thesis by (auto simp: returns_eq)
qed

end
