(* ===== verification/Opt_Range.thy ===== *)
theory Opt_Range
  imports Opt_Program
begin

text \<open>
  \<open>cubecl-opt/src/analyses/integer_range.rs\<close>: bounds of unsigned integer variables, propagated through
  arithmetic until nothing changes. The bounds are \<open>u64\<close>; their arithmetic panics on overflow in a build
  with overflow checks.
\<close>

record range =
  r_lower :: "nat option"
  r_upper :: "nat option"

definition range_default :: range where
  "range_default = \<lparr>r_lower = None, r_upper = None\<rparr>"

definition range_constant :: "nat \<Rightarrow> range" where
  "range_constant val = \<lparr>r_lower = Some val, r_upper = Some val\<rparr>"

definition range_uint :: "nat \<Rightarrow> range" where
  "range_uint upper = \<lparr>r_lower = Some 0, r_upper = Some upper\<rparr>"

section \<open>Arithmetic of ranges\<close>

text \<open>\<open>Option::zip\<close> followed by \<open>map\<close>.\<close>

definition zip_with :: "(nat \<Rightarrow> nat \<Rightarrow> nat exec) \<Rightarrow> nat option \<Rightarrow> nat option \<Rightarrow> nat option exec" where
  "zip_with f a b =
     (case (a, b) of (Some x, Some y) \<Rightarrow> bindE (f x y) (\<lambda>r. Ret (Some r)) | _ \<Rightarrow> Ret None)"

definition range_pointwise :: "(nat \<Rightarrow> nat \<Rightarrow> nat exec) \<Rightarrow> range \<Rightarrow> range \<Rightarrow> range exec" where
  "range_pointwise f a b =
     bindE (zip_with f (r_lower a) (r_lower b)) (\<lambda>lower.
     bindE (zip_with f (r_upper a) (r_upper b)) (\<lambda>upper. Ret \<lparr>r_lower = lower, r_upper = upper\<rparr>))"

definition range_add :: "range \<Rightarrow> range \<Rightarrow> range exec" where
  "range_add = range_pointwise add_u64"

definition range_sub :: "range \<Rightarrow> range \<Rightarrow> range exec" where
  "range_sub = range_pointwise sub_u64"

definition range_mul :: "range \<Rightarrow> range \<Rightarrow> range exec" where
  "range_mul = range_pointwise mul_u64"

definition range_div :: "range \<Rightarrow> range \<Rightarrow> range exec" where
  "range_div = range_pointwise (\<lambda>lhs rhs. Ret (if rhs = 0 then lhs else lhs div rhs))"

definition range_rem :: "range \<Rightarrow> range \<Rightarrow> range exec" where
  "range_rem a b =
     (case (r_lower b, r_upper b) of
        (Some _, Some rhs_upper) \<Rightarrow>
          bindE (sub_u64 rhs_upper 1) (\<lambda>upper. Ret \<lparr>r_lower = Some 0, r_upper = Some upper\<rparr>)
      | _ \<Rightarrow> Ret a)"

section \<open>The analysis\<close>

type_synonym var_id = "id \<times> u16"
type_synonym ranges = "(var_id, range) hash_map"

definition is_uint :: "elem \<Rightarrow> bool" where
  "is_uint e = (case e of UIntE _ \<Rightarrow> True | _ \<Rightarrow> False)"

definition var_id_of :: "variable \<Rightarrow> var_id option" where
  "var_id_of v =
     (case v_kind v of
        Versioned i version \<Rightarrow> Some (i, version)
      | LocalConst i \<Rightarrow> Some (i, 0)
      | _ \<Rightarrow> None)"

definition num_elems :: "cube_dim \<Rightarrow> nat exec" where
  "num_elems d =
     bindE (mul_u32 (unat (cd_x d)) (unat (cd_y d))) (\<lambda>xy. mul_u32 xy (unat (cd_z d)))"

definition range_of :: "ranges \<Rightarrow> cube_dim \<Rightarrow> variable \<Rightarrow> range exec" where
  "range_of rs cube_dim v =
     (let known = (\<lambda>k dflt. Ret (case hm_get rs k of Some r \<Rightarrow> r | None \<Rightarrow> dflt));
          unbounded = (if is_uint (variable_elem v) then \<lparr>r_lower = Some 0, r_upper = None\<rparr> else range_default)
      in case v_kind v of
        Versioned i version \<Rightarrow> known (i, version) unbounded
      | LocalConst i \<Rightarrow> known (i, 0) unbounded
      | ConstantScalar (UIntC val _) \<Rightarrow> Ret (range_constant (unat val))
      | BuiltinV builtin \<Rightarrow>
          (case builtin of
             UnitPos \<Rightarrow> bindE (num_elems cube_dim) (\<lambda>n. bindE (sub_u64 n 1) (\<lambda>u. Ret (range_uint u)))
           | UnitPosX \<Rightarrow> bindE (sub_u64 (unat (cd_x cube_dim)) 1) (\<lambda>u. Ret (range_uint u))
           | UnitPosY \<Rightarrow> bindE (sub_u64 (unat (cd_y cube_dim)) 1) (\<lambda>u. Ret (range_uint u))
           | UnitPosZ \<Rightarrow> bindE (sub_u64 (unat (cd_z cube_dim)) 1) (\<lambda>u. Ret (range_uint u))
           | CubeCount \<Rightarrow> bindE (num_elems cube_dim) (\<lambda>n. Ret (range_constant n))
           | CubeCountX \<Rightarrow> Ret (range_constant (unat (cd_x cube_dim)))
           | CubeCountY \<Rightarrow> Ret (range_constant (unat (cd_y cube_dim)))
           | CubeCountZ \<Rightarrow> Ret (range_constant (unat (cd_z cube_dim)))
           | _ \<Rightarrow> Ret range_default)
      | _ \<Rightarrow> Ret range_default)"

definition range_op :: "variable arithmetic \<Rightarrow> ((range \<Rightarrow> range \<Rightarrow> range exec) \<times> variable binary_operator) option" where
  "range_op op =
     (case op of
        Add b \<Rightarrow> Some (range_add, b)
      | Sub b \<Rightarrow> Some (range_sub, b)
      | Mul b \<Rightarrow> Some (range_mul, b)
      | Div b \<Rightarrow> Some (range_div, b)
      | Modulo b \<Rightarrow> Some (range_rem, b)
      | _ \<Rightarrow> None)"

text \<open>\<open>Inr\<close> of the updated map leaves \<open>run_loop\<close> with \<open>true\<close>.\<close>

definition range_inst :: "cube_dim \<Rightarrow> ranges \<Rightarrow> variable instruction \<Rightarrow> (ranges + ranges) exec" where
  "range_inst cube_dim rs inst =
     (case i_operation inst of
        ArithmeticO op \<Rightarrow>
          (case range_op op of
             None \<Rightarrow> Ret (Inl rs)
           | Some (f, b) \<Rightarrow>
               bindE (inst_item inst) (\<lambda>it.
               if \<not> is_uint (it_elem it) then Ret (Inl rs)
               else bindE (inst_out inst) (\<lambda>out.
                 case var_id_of out of
                   None \<Rightarrow> Ret (Inl rs)
                 | Some out_id \<Rightarrow>
                     bindE (range_of rs cube_dim (b_lhs b)) (\<lambda>lhs_range.
                     bindE (range_of rs cube_dim (b_rhs b)) (\<lambda>rhs_range.
                     bindE (f lhs_range rhs_range) (\<lambda>out_range.
                       if hm_get rs out_id \<noteq> Some out_range
                       then Ret (Inr (hm_insert out_id out_range rs))
                       else Ret (Inl rs)))))))
      | _ \<Rightarrow> Ret (Inl rs))"

definition range_run_loop :: "cube_dim \<Rightarrow> program \<Rightarrow> ranges \<Rightarrow> (ranges + ranges) exec" where
  "range_run_loop cube_dim p rs =
     for_each (concat (map (bb_ops \<circ> snd) (pg_nodes p))) (range_inst cube_dim) rs"

definition ranges_init :: "cube_dim \<Rightarrow> program \<Rightarrow> ranges exec" where
  "ranges_init cube_dim p =
     loop (\<lambda>rs. bindE (range_run_loop cube_dim p rs) (\<lambda>x. case x of
         Inr rs \<Rightarrow> Ret (Inl rs)
       | Inl rs \<Rightarrow> Ret (Inr rs))) []"

section \<open>What a range says\<close>

definition in_range :: "nat \<Rightarrow> range \<Rightarrow> bool" where
  "in_range n r =
     ((\<forall>l. r_lower r = Some l \<longrightarrow> l \<le> n) \<and> (\<forall>u. r_upper r = Some u \<longrightarrow> n \<le> u))"

lemma zip_with_Ret:
  "zip_with f a b = Ret c \<Longrightarrow> c = Some z \<Longrightarrow> \<exists>x y. a = Some x \<and> b = Some y \<and> f x y = Ret z"
  by (auto simp: zip_with_def bindE_eq_Ret split: option.splits)

lemma pointwise_sound:
  assumes "range_pointwise f a b = Ret c" "in_range x a" "in_range y b"
    and "\<And>u v w. f u v = Ret w \<Longrightarrow> w = h u v"
    and "\<And>u v u' v'. u \<le> u' \<Longrightarrow> v \<le> v' \<Longrightarrow> h u v \<le> (h u' v' :: nat)"
  shows "in_range (h x y) c"
proof -
  obtain l u where c: "zip_with f (r_lower a) (r_lower b) = Ret l" "zip_with f (r_upper a) (r_upper b) = Ret u"
    "c = \<lparr>r_lower = l, r_upper = u\<rparr>"
    using assms(1) by (auto simp: range_pointwise_def bindE_eq_Ret)
  then show ?thesis
    using assms(2,3,4,5) zip_with_Ret [OF c(1)] zip_with_Ret [OF c(2)]
    unfolding in_range_def by fastforce
qed



section \<open>Where the ranges are too small\<close>

text \<open>Every value of \<open>f\<close> on two values of the ranges, where \<open>f\<close> is defined, is in \<open>c\<close>.\<close>

definition covers :: "(nat \<Rightarrow> nat \<Rightarrow> bool) \<Rightarrow> (nat \<Rightarrow> nat \<Rightarrow> nat) \<Rightarrow> range \<Rightarrow> range \<Rightarrow> range \<Rightarrow> bool" where
  "covers ok f a b c \<longleftrightarrow> (\<forall>x y. in_range x a \<longrightarrow> in_range y b \<longrightarrow> ok x y \<longrightarrow> in_range (f x y) c)"

definition bounds :: "nat \<Rightarrow> nat \<Rightarrow> range" where
  "bounds l u = \<lparr>r_lower = Some l, r_upper = Some u\<rparr>"

lemma in_bounds [simp]: "in_range n (bounds l u) \<longleftrightarrow> l \<le> n \<and> n \<le> u"
  by (simp add: in_range_def bounds_def)

lemma coversD: "covers ok f a b c \<Longrightarrow> in_range x a \<Longrightarrow> in_range y b \<Longrightarrow> ok x y \<Longrightarrow> in_range (f x y) c"
  by (simp add: covers_def)

lemma sub_covers_iff:
  assumes "al \<le> au" "bl \<le> bu" "range_sub (bounds al au) (bounds bl bu) = Ret c"
  shows "covers (\<lambda>x y. y \<le> x) (-) (bounds al au) (bounds bl bu) c \<longleftrightarrow> bl = bu"
proof -
  have c: "c = bounds (al - bl) (au - bu)" "bl \<le> al" "bu \<le> au"
    using assms(3) by (auto simp: range_sub_def range_pointwise_def zip_with_def sub_u64_def bounds_def split: if_splits)
  show ?thesis
  proof
    assume "covers (\<lambda>x y. y \<le> x) (-) (bounds al au) (bounds bl bu) c"
    from coversD [OF this, of au bl] assms(1,2) c have "au - bl \<le> au - bu" by simp
    with assms(2) c(3) show "bl = bu" by linarith
  qed (auto simp: covers_def c intro: diff_le_mono)
qed

lemma div_antitone: "0 < y \<Longrightarrow> y \<le> z \<Longrightarrow> x div z \<le> x div (y :: nat)"
  by (rule div_le_mono2)

lemma div_covers_iff:
  assumes "al \<le> au" "bl \<le> bu" "0 < bu" "range_div (bounds al au) (bounds bl bu) = Ret c"
  shows "covers (\<lambda>x y. y \<noteq> 0) (div) (bounds al au) (bounds bl bu) c \<longleftrightarrow>
    al div max 1 bl = al div bu \<and> au div max 1 bl = au div bu"
proof -
  define bl' where "bl' = max 1 bl"
  have bl': "0 < bl'" "bl' \<le> bu" "bl \<le> bl'" using assms(2,3) by (auto simp: bl'_def)
  have "al div bl' = (if bl = 0 then al else al div bl)" by (auto simp: bl'_def max_def)
  then have c: "c = bounds (al div bl') (au div bu)"
    using assms(3,4) by (simp add: range_div_def range_pointwise_def zip_with_def bounds_def)
  show ?thesis unfolding bl'_def [symmetric]
  proof
    assume cov: "covers (\<lambda>x y. y \<noteq> 0) (div) (bounds al au) (bounds bl bu) c"
    have "al div bl' \<le> al div bu" using coversD [OF cov, of al bu] assms(1-3) c by simp
    moreover have "au div bl' \<le> au div bu" using coversD [OF cov, of au bl'] assms(1) bl' c by simp
    ultimately show "al div bl' = al div bu \<and> au div bl' = au div bu"
      using div_antitone [OF bl'(1,2)] by (simp add: le_antisym)
  next
    assume eq: "al div bl' = al div bu \<and> au div bl' = au div bu"
    have "al div bl' \<le> x div y \<and> x div y \<le> au div bu" if "al \<le> x" "x \<le> au" "bl \<le> y" "y \<le> bu" "y \<noteq> 0" for x y
    proof -
      have y: "0 < y" "bl' \<le> y" using that by (auto simp: bl'_def)
      have "al div bu \<le> al div y" using div_antitone [OF y(1) that(4)] .
      moreover have "al div y \<le> x div y" "x div y \<le> au div y" using that by (simp_all add: div_le_mono)
      moreover have "au div y \<le> au div bl'" using div_antitone [OF bl'(1) y(2)] .
      ultimately show ?thesis using eq by simp
    qed
    then show "covers (\<lambda>x y. y \<noteq> 0) (div) (bounds al au) (bounds bl bu) c" by (simp add: covers_def c)
  qed
qed

lemma rem_covers_iff:
  assumes "al \<le> au" "range_rem (bounds al au) \<lparr>r_lower = Some bl, r_upper = None\<rparr> = Ret c"
  shows "covers (\<lambda>x y. y \<noteq> 0) (mod) (bounds al au) \<lparr>r_lower = Some bl, r_upper = None\<rparr> c \<longleftrightarrow> al = 0 \<or> au < bl"
proof -
  have c: "c = bounds al au" using assms(2) by (simp add: range_rem_def)
  have unb: "in_range y \<lparr>r_lower = Some bl, r_upper = None\<rparr> \<longleftrightarrow> bl \<le> y" for y by (simp add: in_range_def)
  show ?thesis
  proof
    assume cov: "covers (\<lambda>x y. y \<noteq> 0) (mod) (bounds al au) \<lparr>r_lower = Some bl, r_upper = None\<rparr> c"
    show "al = 0 \<or> au < bl"
    proof (rule ccontr)
      assume "\<not> (al = 0 \<or> au < bl)"
      then have "in_range (max al bl) (bounds al au)" "max al bl \<noteq> 0" using assms(1) by auto
      with coversD [OF cov this(1), of "max al bl"] have "al \<le> max al bl mod max al bl" unfolding c unb by simp
      then show False using \<open>\<not> (al = 0 \<or> au < bl)\<close> by simp
    qed
  qed (auto simp: covers_def c unb intro: order_trans [OF mod_less_eq_dividend])
qed



end
