(* ===== verification/Opt_Lowering.thy ===== *)
theory Opt_Lowering
  imports Opt_Program IR_Processing
begin

text \<open>
  The construction of the control-flow graph: \<open>parse_graph\<close>, \<open>parse_scope\<close> and \<open>ret\<close> of
  \<open>cubecl-opt/src/lib.rs\<close>, every parser of \<open>control_flow.rs\<close>, \<open>insert_phi\<close> of \<open>phi_frontiers.rs\<close> and
  \<open>Scope::process\<close> of \<open>cubecl-ir/src/scope.rs\<close>, for the execution mode \<open>Unchecked\<close>, in which the processor
  of checked accesses returns its input.

  The parsers call each other through \<open>parse_scope\<close>, which is an argument of theirs; \<open>parse_scope\<close> ties the
  knot. Until a node is removed petgraph numbers the nodes of a graph in order, and it lists the edges of
  a node from the newest to the oldest. The transformers are arguments too: each may replace an
  instruction, given the state of the allocator.
\<close>

section \<open>The state of the parser\<close>

datatype transform_action =
    IgnoreT
  | ReplaceT "variable instruction list"
  | RemoveT

text \<open>The allocator's next number and the mutable variables of its pool.\<close>

type_synonym allocator = "u32 \<times> variable list"
type_synonym transformer = "allocator \<Rightarrow> variable instruction \<Rightarrow> transform_action \<times> allocator"

record parser = optimizer +
  ps_pool :: "variable list"
  ps_current_block :: "node_index option"
  ps_loop_break :: "node_index list"

section \<open>Operations on the graph\<close>

definition add_node :: "parser \<Rightarrow> node_index \<times> parser" where
  "add_node st =
     (let n = length (pg_nodes (op_program st))
      in (n, st\<lparr>op_program := (op_program st)\<lparr>pg_nodes := pg_nodes (op_program st) @ [(n, default_block)]\<rparr>\<rparr>))"

definition fresh_edge :: "program \<Rightarrow> edge_index" where
  "fresh_edge p = foldr (\<lambda>(e, _) k. max (Suc e) k) (pg_edges p) 0"

definition add_edge :: "node_index \<Rightarrow> node_index \<Rightarrow> parser \<Rightarrow> parser exec" where
  "add_edge a b st =
     (if a \<in> set (node_ids (op_program st)) \<and> b \<in> set (node_ids (op_program st))
      then Ret (st\<lparr>op_program := (op_program st)\<lparr>pg_edges := (fresh_edge (op_program st), a, b) # pg_edges (op_program st)\<rparr>\<rparr>)
      else Panic (Explicit ''node indices out of bounds''))"

definition change_block :: "node_index \<Rightarrow> (basic_block \<Rightarrow> basic_block) \<Rightarrow> parser \<Rightarrow> parser exec" where
  "change_block n f st =
     bindE (block_at (op_program st) n) (\<lambda>b.
       Ret (st\<lparr>op_program := (op_program st)\<lparr>pg_nodes := AList.update n (f b) (pg_nodes (op_program st))\<rparr>\<rparr>))"

definition set_control_flow :: "node_index \<Rightarrow> control_flow \<Rightarrow> parser \<Rightarrow> parser exec" where
  "set_control_flow n cf = change_block n (\<lambda>b. b\<lparr>bb_control_flow := cf\<rparr>)"

definition push_ops :: "node_index \<Rightarrow> variable instruction list \<Rightarrow> parser \<Rightarrow> parser exec" where
  "push_ops n insts = change_block n (\<lambda>b. b\<lparr>bb_ops := bb_ops b @ insts\<rparr>)"

definition push_use :: "node_index \<Rightarrow> block_use \<Rightarrow> parser \<Rightarrow> parser exec" where
  "push_use n u = change_block n (\<lambda>b. b\<lparr>bb_block_use := bb_block_use b @ [u]\<rparr>)"

definition insert_phi :: "node_index \<Rightarrow> id \<Rightarrow> item \<Rightarrow> parser \<Rightarrow> parser exec" where
  "insert_phi n i it st =
     (let var = variable_new (Versioned i 0) it;
          entries = map (\<lambda>pred. \<lparr>pe_block = pred, pe_value = var\<rparr>) (predecessors (op_program st) n)
      in change_block n (\<lambda>b. b\<lparr>bb_phi_nodes := bb_phi_nodes b @ [\<lparr>phi_out = var, phi_entries = entries\<rparr>]\<rparr>) st)"

definition insert_variable :: "id \<Rightarrow> item \<Rightarrow> parser \<Rightarrow> parser" where
  "insert_variable i it st =
     st\<lparr>op_program := (op_program st)\<lparr>pg_variables := hm_insert i it (pg_variables (op_program st))\<rparr>\<rparr>"

text \<open>\<open>Optimizer::ret\<close>: the block a \<open>return\<close> jumps to.\<close>

definition ret_node :: "parser \<Rightarrow> (node_index \<times> parser) exec" where
  "ret_node st =
     bindE (block_at (op_program st) (op_ret st)) (\<lambda>b.
     if Merge \<in> set (bb_block_use b)
     then let (new_ret, st') = add_node st in
          bindE (add_edge new_ret (op_ret st) st') (\<lambda>st'. Ret (new_ret, st'\<lparr>op_ret := new_ret\<rparr>))
     else Ret (op_ret st, st))"

text \<open>When the parsed branch falls through, it continues at \<open>target\<close>; the flag tells that it does not.\<close>

definition join :: "node_index \<Rightarrow> parser \<Rightarrow> (bool \<times> parser) exec" where
  "join target st =
     (case ps_current_block st of
        Some c \<Rightarrow> bindE (add_edge c target st) (\<lambda>st. Ret (False, st))
      | None \<Rightarrow> Ret (True, st))"

section \<open>Parsers of the branches\<close>

type_synonym scope_parser = "variable scope \<Rightarrow> parser \<Rightarrow> (bool \<times> parser) exec"

definition mark_merge :: "node_index option \<Rightarrow> parser \<Rightarrow> parser exec" where
  "mark_merge merge st = (case merge of None \<Rightarrow> Ret st | Some m \<Rightarrow> push_use m Merge st)"

definition parse_if :: "scope_parser \<Rightarrow> variable \<Rightarrow> variable scope \<Rightarrow> parser \<Rightarrow> parser exec" where
  "parse_if ps cond sc st =
     bindE (unwrap (ps_current_block st)) (\<lambda>current.
     let (thn, st) = add_node st; (nxt, st) = add_node st in
     bindE (add_edge current thn st) (\<lambda>st.
     bindE (add_edge current nxt st) (\<lambda>st.
     bindE (ps sc (st\<lparr>ps_current_block := Some thn\<rparr>)) (\<lambda>(is_break, st).
     bindE (join nxt st) (\<lambda>(returned, st).
     let merge = (if is_break then None else Some (if returned then op_ret st else nxt)) in
     bindE (set_control_flow current (IfElseF cond thn nxt merge) st) (\<lambda>st.
     bindE (mark_merge merge st) (\<lambda>st.
     Ret (st\<lparr>ps_current_block := Some nxt\<rparr>))))))))"

definition parse_if_else ::
  "scope_parser \<Rightarrow> variable \<Rightarrow> variable scope \<Rightarrow> variable scope \<Rightarrow> parser \<Rightarrow> parser exec" where
  "parse_if_else ps cond scope_if scope_else st =
     bindE (unwrap (ps_current_block st)) (\<lambda>current.
     let (thn, st) = add_node st; (or_else, st) = add_node st; (nxt, st) = add_node st in
     bindE (add_edge current thn st) (\<lambda>st.
     bindE (add_edge current or_else st) (\<lambda>st.
     bindE (ps scope_if (st\<lparr>ps_current_block := Some thn\<rparr>)) (\<lambda>(break_if, st).
     bindE (join nxt st) (\<lambda>(returned, st).
     let merge = (if returned then op_ret st else nxt) in
     bindE (ps scope_else (st\<lparr>ps_current_block := Some or_else\<rparr>)) (\<lambda>(break_else, st).
     bindE (join nxt st) (\<lambda>(returned, st).
     let merge = (if returned then op_ret st else merge);
         merge = (if break_else \<or> break_if then None else Some merge) in
     bindE (set_control_flow current (IfElseF cond thn or_else merge) st) (\<lambda>st.
     bindE (mark_merge merge st) (\<lambda>st.
     Ret (st\<lparr>ps_current_block := Some nxt\<rparr>))))))))))"

text \<open>The label of a case. \<open>as i32\<close>, \<open>as u32\<close> and the transmutation keep the low 32 bits.\<close>

definition switch_label :: "variable \<Rightarrow> u32 exec" where
  "switch_label v =
     bindE (expect ''Switch value must be constant'' (as_const v)) (\<lambda>c. case c of
         IntC val _ \<Rightarrow> Ret (ucast val)
       | UIntC val _ \<Rightarrow> Ret (ucast val)
       | _ \<Rightarrow> Panic (Explicit ''Switch cases must be integer''))"

definition parse_case ::
  "scope_parser \<Rightarrow> node_index \<Rightarrow> node_index \<Rightarrow> variable \<times> variable scope \<Rightarrow> parser \<Rightarrow>
     ((u32 \<times> node_index \<times> bool \<times> bool) \<times> parser) exec" where
  "parse_case ps current nxt c st =
     (let (case_id, st) = add_node st in
     bindE (add_edge current case_id st) (\<lambda>st.
     bindE (ps (snd c) (st\<lparr>ps_current_block := Some case_id\<rparr>)) (\<lambda>(is_break, st).
     bindE (join nxt st) (\<lambda>(left, st).
     bindE (switch_label (fst c)) (\<lambda>val.
     Ret ((val, case_id, is_break, left \<and> \<not> is_break), st))))))"

fun parse_cases ::
  "scope_parser \<Rightarrow> node_index \<Rightarrow> node_index \<Rightarrow> (variable \<times> variable scope) list \<Rightarrow> parser \<Rightarrow>
     ((u32 \<times> node_index \<times> bool \<times> bool) list \<times> parser) exec" where
  "parse_cases ps current nxt [] st = Ret ([], st)"
| "parse_cases ps current nxt (c # cs) st =
     bindE (parse_case ps current nxt c st) (\<lambda>(r, st).
     bindE (parse_cases ps current nxt cs st) (\<lambda>(rs, st). Ret (r # rs, st)))"

definition parse_switch ::
  "scope_parser \<Rightarrow> variable \<Rightarrow> variable scope \<Rightarrow> (variable \<times> variable scope) list \<Rightarrow> parser \<Rightarrow> parser exec" where
  "parse_switch ps val scope_default cases st =
     bindE (unwrap (ps_current_block st)) (\<lambda>current.
     let (nxt, st) = add_node st in
     bindE (parse_cases ps current nxt cases st) (\<lambda>(branches, st).
     let is_break_branch = (\<exists>b \<in> set branches. fst (snd (snd b)));
         is_ret = (\<exists>b \<in> set branches. snd (snd (snd b)));
         (default, st) = add_node st in
     bindE (add_edge current default st) (\<lambda>st.
     bindE (ps scope_default (st\<lparr>ps_current_block := Some default\<rparr>)) (\<lambda>(is_break_def, st).
     bindE (join nxt st) (\<lambda>(left, st).
     let is_ret = (if left then \<not> is_break_def else is_ret) in
     bindE (if is_break_def \<or> is_break_branch then Ret (None, st)
            else if is_ret then Ret (Some (op_ret st), st)
            else bindE (push_use nxt Merge st) (\<lambda>st. Ret (Some nxt, st))) (\<lambda>(merge, st).
     bindE (set_control_flow current (SwitchF val default (map (\<lambda>b. (fst b, fst (snd b))) branches) merge) st) (\<lambda>st.
     Ret (st\<lparr>ps_current_block := Some nxt\<rparr>))))))))"

definition parse_loop :: "scope_parser \<Rightarrow> variable scope \<Rightarrow> parser \<Rightarrow> parser exec" where
  "parse_loop ps sc st =
     bindE (unwrap (ps_current_block st)) (\<lambda>current.
     let (header, st) = add_node st in
     bindE (add_edge current header st) (\<lambda>st.
     let (body, st) = add_node st; (nxt, st) = add_node st in
     bindE (add_edge header body st) (\<lambda>st.
     bindE (ps sc (st\<lparr>ps_loop_break := ps_loop_break st @ [nxt], ps_current_block := Some body\<rparr>)) (\<lambda>(_, st).
     let (continue_target, st) = add_node st in
     bindE (push_use continue_target ContinueTarget st) (\<lambda>st.
     let st = st\<lparr>ps_loop_break := butlast (ps_loop_break st)\<rparr> in
     bindE (join continue_target st) (\<lambda>(_, st).
     bindE (add_edge continue_target header st) (\<lambda>st.
     bindE (set_control_flow header (LoopF body continue_target nxt) st) (\<lambda>st.
     bindE (push_use nxt Merge st) (\<lambda>st.
     Ret (st\<lparr>ps_current_block := Some nxt\<rparr>))))))))))"

definition loop_test :: "bool \<Rightarrow> variable \<Rightarrow> variable \<Rightarrow> variable operation" where
  "loop_test inclusive i stop =
     ComparisonO ((if inclusive then LowerEqual else Lower) (BinaryOperator i stop))"

definition loop_step :: "variable \<Rightarrow> variable option \<Rightarrow> variable instruction" where
  "loop_step i step =
     instruction_new (ArithmeticO (Add (BinaryOperator i (case step of None \<Rightarrow> variable_from_i32 1 | Some s \<Rightarrow> s)))) i"

definition local_mut_id :: "variable \<Rightarrow> id exec" where
  "local_mut_id v = (case v_kind v of LocalMut i \<Rightarrow> Ret i | _ \<Rightarrow> Panic (Explicit ''unreachable''))"

text \<open>The end of the body is the continue target, unless it is where a branch merges.\<close>

definition loop_back :: "node_index \<Rightarrow> parser \<Rightarrow> (node_index \<times> parser) exec" where
  "loop_back current st =
     bindE (block_at (op_program st) current) (\<lambda>b.
     if Merge \<in> set (bb_block_use b)
     then let (target, st) = add_node st in bindE (add_edge current target st) (\<lambda>st. Ret (target, st))
     else Ret (current, st))"

definition parse_for_loop ::
  "scope_parser \<Rightarrow> variable \<Rightarrow> variable \<Rightarrow> variable \<Rightarrow> variable option \<Rightarrow> bool \<Rightarrow> variable scope \<Rightarrow> parser \<Rightarrow> parser exec" where
  "parse_for_loop ps i start stop step inclusive sc st =
     bindE (local_mut_id i) (\<lambda>i_id.
     let st = insert_variable i_id (v_item i) st in
     bindE (unwrap (ps_current_block st)) (\<lambda>current.
     bindE (push_ops current [instruction_new (CopyO start) i] st) (\<lambda>st.
     let (header, st) = add_node st in
     bindE (add_edge current header st) (\<lambda>st.
     let (body, st) = add_node st; (nxt, st) = add_node st in
     bindE (add_edge header body st) (\<lambda>st.
     bindE (add_edge header nxt st) (\<lambda>st.
     bindE (ps sc (st\<lparr>ps_loop_break := ps_loop_break st @ [nxt], ps_current_block := Some body\<rparr>)) (\<lambda>(_, st).
     let st = st\<lparr>ps_loop_break := butlast (ps_loop_break st)\<rparr> in
     bindE (expect ''For loop has no loopback path'' (ps_current_block st)) (\<lambda>current.
     bindE (loop_back current st) (\<lambda>(continue_target, st).
     bindE (add_edge continue_target header st) (\<lambda>st.
     bindE (push_use continue_target ContinueTarget st) (\<lambda>st.
     bindE (push_use nxt Merge st) (\<lambda>st.
     let st = st\<lparr>ps_current_block := Some nxt\<rparr> in
     bindE (insert_phi header i_id (v_item start) st) (\<lambda>st.
     let (tmp, next_id) = create_local (op_next_local st) (item_new BoolE);
         st = st\<lparr>op_next_local := next_id\<rparr> in
     bindE (push_ops header [instruction_new (loop_test inclusive i stop) tmp] st) (\<lambda>st.
     bindE (set_control_flow header (LoopBreakF tmp body continue_target nxt) st) (\<lambda>st.
     push_ops current [loop_step i step] st)))))))))))))))"

fun parse_control_flow :: "scope_parser \<Rightarrow> variable branch \<Rightarrow> parser \<Rightarrow> parser exec" where
  "parse_control_flow ps (IfB cond sc) st = parse_if ps cond sc st"
| "parse_control_flow ps (IfElseB cond scope_if scope_else) st = parse_if_else ps cond scope_if scope_else st"
| "parse_control_flow ps (SwitchB val scope_default cases) st = parse_switch ps val scope_default cases st"
| "parse_control_flow ps (RangeLoopB i start stop step inclusive sc) st =
     parse_for_loop ps i start stop step inclusive sc st"
| "parse_control_flow ps (LoopB sc) st = parse_loop ps sc st"
| "parse_control_flow ps ReturnB st =
     bindE (unwrap (ps_current_block st)) (\<lambda>current.
     bindE (ret_node (st\<lparr>ps_current_block := None\<rparr>)) (\<lambda>(ret, st).
     add_edge current ret st))"
| "parse_control_flow ps BreakB st =
     bindE (unwrap (ps_current_block st)) (\<lambda>current.
     if ps_loop_break st = [] then Panic (Explicit ''Can't break outside loop'')
     else add_edge current (last (ps_loop_break st)) (st\<lparr>ps_current_block := None\<rparr>))"

section \<open>Parsing a scope\<close>

text \<open>The first transformer that does not ignore the instruction decides.\<close>

fun transform :: "transformer list \<Rightarrow> allocator \<Rightarrow> variable instruction \<Rightarrow> transform_action \<times> allocator" where
  "transform [] a inst = (IgnoreT, a)"
| "transform (t # ts) a inst =
     (case t a inst of
        (IgnoreT, a) \<Rightarrow> transform ts a inst
      | r \<Rightarrow> r)"

definition parse_inst :: "transformer list \<Rightarrow> scope_parser \<Rightarrow> variable instruction \<Rightarrow> parser \<Rightarrow> parser exec" where
  "parse_inst ts ps inst st =
     (let (action, next_id, pool) = transform ts (op_next_local st, ps_pool st) inst;
          st = st\<lparr>op_next_local := next_id, ps_pool := pool\<rparr> in
      case action of
        ReplaceT replacement \<Rightarrow>
          bindE (unwrap (ps_current_block st)) (\<lambda>current. push_ops current replacement st)
      | RemoveT \<Rightarrow> Ret st
      | IgnoreT \<Rightarrow>
          (case i_operation inst of
             BranchO b \<Rightarrow> parse_control_flow ps b st
           | _ \<Rightarrow> bindE (unwrap (ps_current_block st)) (\<lambda>current. push_ops current [inst] st)))"

definition parse_insts :: "transformer list \<Rightarrow> scope_parser \<Rightarrow> variable instruction list \<Rightarrow> parser \<Rightarrow> parser exec" where
  "parse_insts ts ps = foldE (\<lambda>st inst. parse_inst ts ps inst st)"

definition process :: "variable scope \<Rightarrow> parser \<Rightarrow> (scope_processing \<times> parser) exec" where
  "process sc st =
     bindE (optimize \<lparr>sp_variables = sc_locals sc @ sc_matrices sc @ ps_pool st,
                      sp_instructions = sc_instructions sc\<rparr>) (\<lambda>processing.
     Ret (processing, st\<lparr>ps_pool := []\<rparr>))"

definition declare_variable :: "variable \<Rightarrow> parser \<Rightarrow> parser" where
  "declare_variable v st = (case v_kind v of LocalMut i \<Rightarrow> insert_variable i (v_item v) st | _ \<Rightarrow> st)"

definition push_const_array :: "parser \<Rightarrow> variable \<times> variable list \<Rightarrow> parser exec" where
  "push_const_array st c =
     (case v_kind (fst c) of
        ConstantArray i len \<Rightarrow>
          Ret (st\<lparr>op_program := (op_program st)\<lparr>pg_const_arrays := pg_const_arrays (op_program st) @
            [\<lparr>ca_id = i, ca_length = len, ca_item = v_item (fst c), ca_values = snd c\<rparr>]\<rparr>\<rparr>)
      | _ \<Rightarrow> Panic (Explicit ''unreachable''))"

definition break_inst :: "variable instruction" where
  "break_inst = instruction_no_out (BranchO BreakB)"

text \<open>The scopes of a branch; the recursion over scopes ends because they are smaller.\<close>

fun branch_scopes :: "'v branch \<Rightarrow> 'v scope list" where
  "branch_scopes (IfB _ sc) = [sc]"
| "branch_scopes (IfElseB _ sc1 sc2) = [sc1, sc2]"
| "branch_scopes (SwitchB _ sc cases) = sc # map snd cases"
| "branch_scopes (RangeLoopB _ _ _ _ _ sc) = [sc]"
| "branch_scopes (LoopB sc) = [sc]"
| "branch_scopes _ = []"

definition inst_scopes :: "'v instruction \<Rightarrow> 'v scope list" where
  "inst_scopes inst = (case i_operation inst of BranchO b \<Rightarrow> branch_scopes b | _ \<Rightarrow> [])"

lemma bindE_cong [fundef_cong]:
  "m = m' \<Longrightarrow> (\<And>v. m' = Ret v \<Longrightarrow> f v = f' v) \<Longrightarrow> bindE m f = bindE m' f'"
  by (cases m') auto

lemma parse_cases_cong:
  "(\<And>c st. c \<in> set cs \<Longrightarrow> ps (snd c) st = ps' (snd c) st) \<Longrightarrow> parse_cases ps cur nxt cs st = parse_cases ps' cur nxt cs st"
proof (induction cs arbitrary: st)
  case (Cons c cs)
  have "parse_case ps cur nxt c st = parse_case ps' cur nxt c st" for st
    using Cons.prems by (simp add: parse_case_def cong: bindE_cong split: prod.splits)
  with Cons show ?case by (auto cong: bindE_cong split: prod.splits)
qed simp

lemma parse_control_flow_cong:
  assumes "\<And>sc st. sc \<in> set (branch_scopes b) \<Longrightarrow> ps sc st = ps' sc st"
  shows "parse_control_flow ps b st = parse_control_flow ps' b st"
proof (cases b)
  case (SwitchB v sc cs)
  have "parse_cases ps cur nxt cs st = parse_cases ps' cur nxt cs st" for cur nxt st
    using assms by (intro parse_cases_cong) (auto simp: SwitchB)
  with assms show ?thesis by (simp add: SwitchB parse_switch_def)
qed (use assms in \<open>simp_all add: parse_if_def parse_if_else_def parse_loop_def parse_for_loop_def\<close>)

lemma parse_inst_cong:
  assumes "\<And>sc st. sc \<in> set (inst_scopes inst) \<Longrightarrow> ps sc st = ps' sc st"
  shows "parse_inst ts ps inst st = parse_inst ts ps' inst st"
proof (cases "i_operation inst")
  case (BranchO b)
  have "parse_control_flow ps b st = parse_control_flow ps' b st" for st
    using assms by (intro parse_control_flow_cong) (simp add: inst_scopes_def BranchO)
  then show ?thesis by (simp add: parse_inst_def BranchO Let_def split: prod.splits transform_action.splits)
qed (simp_all add: parse_inst_def Let_def split: prod.splits transform_action.splits)

lemma parse_insts_cong [fundef_cong]:
  "insts = insts' \<Longrightarrow> st = st' \<Longrightarrow>
   (\<And>inst sc st. inst \<in> set insts' \<Longrightarrow> sc \<in> set (inst_scopes inst) \<Longrightarrow> ps sc st = ps' sc st) \<Longrightarrow>
   parse_insts ts ps insts st = parse_insts ts ps' insts' st'"
proof (induction insts' arbitrary: insts st st')
  case (Cons inst insts')
  have "parse_inst ts ps inst st' = parse_inst ts ps' inst st'"
    using Cons.prems by (intro parse_inst_cong) auto
  moreover have "foldE (\<lambda>st inst. parse_inst ts ps inst st) insts' st = foldE (\<lambda>st inst. parse_inst ts ps' inst st) insts' st" for st
    using Cons.IH [of insts' st st] Cons.prems(3) by (auto simp: parse_insts_def)
  ultimately show ?case using Cons.prems(1,2) by (simp add: parse_insts_def fun_eq_iff cong: bindE_cong)
qed (simp add: parse_insts_def)

lemma sanitize_operation_BranchO:
  "sanitize_operation v op = Ret (BranchO b') \<Longrightarrow> \<exists>b. op = BranchO b \<and> b' = sanitize_branch b"
  by (cases op) (auto simp: with_out_def bindE_eq_Ret)

lemma sanitized_scopes:
  assumes "sanitize_instruction inst = Ret inst'"
  shows "inst_scopes inst' = inst_scopes inst"
proof (cases "i_operation inst'")
  case (BranchO b')
  with assms obtain b where "i_operation inst = BranchO b" "b' = sanitize_branch b"
    using sanitize_operation_BranchO [of "i_out inst" "i_operation inst" b']
    by (auto simp: sanitize_instruction_def bindE_eq_Ret)
  moreover have "branch_scopes (sanitize_branch b) = branch_scopes b" for b by (cases b) auto
  ultimately show ?thesis by (simp add: inst_scopes_def BranchO)
next
qed (use assms in \<open>cases "i_operation inst"; auto simp: sanitize_instruction_def bindE_eq_Ret inst_scopes_def with_out_def\<close>)+

lemma mapE_Ret: "mapE f xs = Ret ys \<longleftrightarrow> list_all2 (\<lambda>x y. f x = Ret y) xs ys"
  by (induction xs arbitrary: ys) (auto simp: bindE_eq_Ret list_all2_Cons1)

lemma process_insts:
  "process sc st = Ret (p, st') \<Longrightarrow> list_all2 (\<lambda>x y. sanitize_instruction x = Ret y) (sc_instructions sc) (sp_instructions p)"
  by (auto simp: process_def optimize_def sanitize_constant_scalars_def bindE_eq_Ret mapE_Ret)

lemma size_inst_scopes:
  fixes sc' :: "variable scope"
  assumes "sc' \<in> set (inst_scopes inst)" "inst \<in> set (sc_instructions sc)"
  shows "size sc' < size sc"
proof -
  have cases_less: "size sc' \<le> size_list (size_prod (\<lambda>_. 0) size) cs" if "(v, sc') \<in> set cs"
    for cs :: "(variable \<times> variable scope) list" and v
    using that by (induction cs) auto
  have "size sc' < size b" if "sc' \<in> set (branch_scopes b)" for b :: "variable branch"
    using that
  proof (cases b)
    case (SwitchB v sc cs)
    with that have "sc' = sc \<or> (\<exists>v. (v, sc') \<in> set cs)" by auto
    then show ?thesis using cases_less [of _ cs] by (fastforce simp: SwitchB)
  qed auto
  with assms(1) have "size sc' < size inst"
    by (cases inst; cases "i_operation inst") (auto simp: inst_scopes_def split: operation.splits, fastforce)
  moreover have "size inst \<le> size_list size (sc_instructions sc)"
    using assms(2) by (rule size_list_estimation') simp
  then have "size inst < size sc" by (cases sc) auto
  ultimately show ?thesis by simp
qed

text \<open>Processing an instruction keeps the scopes of its branch.\<close>

lemma process_smaller:
  assumes "process sc st = Ret (p, st')" "inst \<in> set (sp_instructions p)" "sc' \<in> set (inst_scopes inst)"
  shows "size sc' < size sc"
proof -
  have "\<forall>y \<in> set ys. \<exists>x \<in> set xs. P x y" if "list_all2 P xs ys" for P :: "'a \<Rightarrow> 'b \<Rightarrow> bool" and xs ys
    using that by (induction rule: list_all2_induct) auto
  from this [OF process_insts [OF assms(1)]] assms(2) obtain inst0
    where "inst0 \<in> set (sc_instructions sc)" "sanitize_instruction inst0 = Ret inst"
    by blast
  with assms(3) show ?thesis by (auto simp: sanitized_scopes intro: size_inst_scopes)
qed

function parse_scope :: "transformer list \<Rightarrow> variable scope \<Rightarrow> parser \<Rightarrow> (bool \<times> parser) exec" where
  "parse_scope ts sc st =
     bindE (process sc st) (\<lambda>(processing, st).
     let st = fold declare_variable (sp_variables processing) st in
     bindE (foldE push_const_array (sc_const_arrays sc) st) (\<lambda>st.
     let is_break = (break_inst \<in> set (sp_instructions processing)) in
     bindE (parse_insts ts (parse_scope ts) (sp_instructions processing) st) (\<lambda>st.
     Ret (is_break, st))))"
  by pat_completeness auto

termination
  by (relation "measure (\<lambda>(ts, sc, st). size sc)") (auto dest: process_smaller)

declare parse_scope.simps [simp del]

definition parse_graph :: "transformer list \<Rightarrow> variable scope \<Rightarrow> parser \<Rightarrow> parser exec" where
  "parse_graph ts sc st =
     (let (entry, st) = add_node st;
          st = st\<lparr>op_program := (op_program st)\<lparr>pg_root := entry\<rparr>, ps_current_block := Some entry\<rparr>;
          (ret, st) = add_node st;
          st = st\<lparr>op_ret := ret\<rparr> in
      bindE (set_control_flow ret ReturnF st) (\<lambda>st.
      bindE (parse_scope ts sc st) (\<lambda>(_, st).
      case ps_current_block st of
        Some current \<Rightarrow> add_edge current (op_ret st) st
      | None \<Rightarrow> Ret st)))"

text \<open>The optimizer before it parses: the default of every field but the allocator and the cube dimensions.\<close>

definition initial_parser :: "u32 \<Rightarrow> variable list \<Rightarrow> cube_dim \<Rightarrow> parser" where
  "initial_parser next_id pool dims =
     \<lparr>op_program = \<lparr>pg_const_arrays = [], pg_variables = [], pg_nodes = [], pg_edges = [], pg_root = 0\<rparr>,
      op_next_local = next_id, op_ret = 0, op_cube_dim = dims,
      ps_pool = pool, ps_current_block = None, ps_loop_break = []\<rparr>"

section \<open>Critical edges\<close>

definition retarget :: "node_index \<Rightarrow> node_index \<Rightarrow> node_index \<Rightarrow> node_index" where
  "retarget from to n = (if n = from then to else n)"

fun update_control_flow :: "node_index \<Rightarrow> node_index \<Rightarrow> control_flow \<Rightarrow> control_flow" where
  "update_control_flow from to (IfElseF cond t e m) = IfElseF cond (retarget from to t) (retarget from to e) m"
| "update_control_flow from to (SwitchF v d bs m) =
     SwitchF v (retarget from to d) (map (\<lambda>(val, b). (val, retarget from to b)) bs) m"
| "update_control_flow from to cf = cf"

definition update_phi :: "node_index \<Rightarrow> node_index \<Rightarrow> phi_instruction \<Rightarrow> phi_instruction" where
  "update_phi from to phi =
     phi\<lparr>phi_entries := map (\<lambda>e. e\<lparr>pe_block := retarget from to (pe_block e)\<rparr>) (phi_entries phi)\<rparr>"

definition remove_edge :: "edge_index \<Rightarrow> parser \<Rightarrow> parser" where
  "remove_edge e st =
     st\<lparr>op_program := (op_program st)\<lparr>pg_edges := filter (\<lambda>(e', _). e' \<noteq> e) (pg_edges (op_program st))\<rparr>\<rparr>"

definition split_edge :: "node_index \<Rightarrow> parser \<Rightarrow> edge_index \<times> node_index \<Rightarrow> parser exec" where
  "split_edge block st edge =
     (let (e, successor) = edge;
          st = remove_edge e st;
          (new_block, st) = add_node st in
      bindE (add_edge block new_block st) (\<lambda>st.
      bindE (add_edge new_block successor st) (\<lambda>st.
      bindE (change_block successor (\<lambda>b. b\<lparr>bb_phi_nodes := map (update_phi block new_block) (bb_phi_nodes b)\<rparr>) st) (\<lambda>st.
      change_block block (\<lambda>b. b\<lparr>bb_control_flow := update_control_flow successor new_block (bb_control_flow b)\<rparr>) st))))"

definition split_block :: "parser \<Rightarrow> node_index \<Rightarrow> parser exec" where
  "split_block st block =
     (let succs = map (\<lambda>(e, _, t). (e, t)) (filter (\<lambda>(_, s, _). s = block) (pg_edges (op_program st)));
          crit = filter (\<lambda>(_, t). length (predecessors (op_program st) t) > 1) succs in
      if length succs > 1 then foldE (split_edge block) crit st else Ret st)"

definition split_critical_edges :: "parser \<Rightarrow> parser exec" where
  "split_critical_edges st = foldE split_block (node_ids (op_program st)) st"

end
