(* ===== verification/Opt_Lowering_Total.thy ===== *)
theory Opt_Lowering_Total
  imports Opt_Lowering
begin

text \<open>
  On which kernels the parser of scopes returns. \<open>scope_flow\<close> is an executable check of a scope: it fails
  for scopes the parser panics on, and tells for the others whether they fall through at their end.
\<close>

section \<open>The check\<close>

definition const_array_ok :: "variable \<times> variable list \<Rightarrow> bool" where
  "const_array_ok c = (case v_kind (fst c) of ConstantArray _ _ \<Rightarrow> True | _ \<Rightarrow> False)"

definition is_Ret :: "'a exec \<Rightarrow> bool" where
  "is_Ret m = (case m of Ret _ \<Rightarrow> True | _ \<Rightarrow> False)"

type_synonym flow_check = "bool \<Rightarrow> variable scope \<Rightarrow> bool option"

text \<open>\<open>l\<close> tells whether the instructions are inside a loop.\<close>

fun branch_flow :: "flow_check \<Rightarrow> bool \<Rightarrow> variable branch \<Rightarrow> bool option" where
  "branch_flow fs l (IfB _ sc) = (if fs l sc = None then None else Some True)"
| "branch_flow fs l (IfElseB _ sc1 sc2) = (if fs l sc1 = None \<or> fs l sc2 = None then None else Some True)"
| "branch_flow fs l (SwitchB _ sc cases) =
     (if fs l sc = None \<or> (\<exists>c \<in> set cases. \<not> is_Ret (switch_label (fst c)) \<or> fs l (snd c) = None) then None else Some True)"
| "branch_flow fs l (RangeLoopB i _ _ _ _ sc) = (if is_Ret (local_mut_id i) \<and> fs True sc = Some True then Some True else None)"
| "branch_flow fs l (LoopB sc) = (if fs True sc = None then None else Some True)"
| "branch_flow fs l ReturnB = Some False"
| "branch_flow fs l BreakB = (if l then Some False else None)"

definition inst_flow :: "flow_check \<Rightarrow> bool \<Rightarrow> variable instruction \<Rightarrow> bool option" where
  "inst_flow fs l inst = (case i_operation inst of BranchO b \<Rightarrow> branch_flow fs l b | _ \<Rightarrow> Some True)"

fun insts_flow :: "flow_check \<Rightarrow> bool \<Rightarrow> variable instruction list \<Rightarrow> bool option" where
  "insts_flow fs l [] = Some True"
| "insts_flow fs l (inst # insts) =
     (case inst_flow fs l inst of
        None \<Rightarrow> None
      | Some True \<Rightarrow> insts_flow fs l insts
      | Some False \<Rightarrow> if insts = [] then Some False else None)"

lemma inst_flow_cong:
  assumes "\<And>l sc. sc \<in> set (inst_scopes inst) \<Longrightarrow> fs l sc = fs' l sc"
  shows "inst_flow fs l inst = inst_flow fs' l inst"
proof (cases "i_operation inst")
  case (BranchO b)
  have "branch_flow fs l b = branch_flow fs' l b"
    using assms by (cases b) (auto simp: inst_scopes_def BranchO)
  then show ?thesis by (simp add: inst_flow_def BranchO)
qed (simp_all add: inst_flow_def)

lemma insts_flow_cong [fundef_cong]:
  "insts = insts' \<Longrightarrow> l = l' \<Longrightarrow> (\<And>inst l sc. inst \<in> set insts' \<Longrightarrow> sc \<in> set (inst_scopes inst) \<Longrightarrow> fs l sc = fs' l sc) \<Longrightarrow>
   insts_flow fs l insts = insts_flow fs' l' insts'"
proof (induction insts' arbitrary: insts)
  case (Cons inst insts')
  have "inst_flow fs l' inst = inst_flow fs' l' inst" using Cons.prems by (intro inst_flow_cong) auto
  moreover have "insts_flow fs l insts' = insts_flow fs' l' insts'" using Cons by auto
  ultimately show ?case using Cons.prems(1,2) by (auto split: option.splits bool.splits)
qed simp

function scope_flow :: flow_check where
  "scope_flow l sc =
     (case mapE sanitize_instruction (sc_instructions sc) of
        Ret insts \<Rightarrow> if list_all const_array_ok (sc_const_arrays sc) then insts_flow scope_flow l insts else None
      | _ \<Rightarrow> None)"
  by pat_completeness auto

termination
proof (relation "measure (\<lambda>(l, sc). size sc)")
  fix l sc insts inst l' sc'
  assume san: "mapE sanitize_instruction (sc_instructions sc) = Ret insts"
    and inst: "inst \<in> set insts" "sc' \<in> set (inst_scopes inst)"
  have "\<forall>y \<in> set ys. \<exists>x \<in> set xs. P x y" if "list_all2 P xs ys" for P :: "'a \<Rightarrow> 'b \<Rightarrow> bool" and xs ys
    using that by (induction rule: list_all2_induct) auto
  from this [OF san [unfolded mapE_Ret]] inst(1) obtain inst0
    where "inst0 \<in> set (sc_instructions sc)" "sanitize_instruction inst0 = Ret inst" by blast
  with inst(2) show "((l', sc'), l, sc) \<in> measure (\<lambda>(l, sc). size sc)"
    by (auto simp: sanitized_scopes intro: size_inst_scopes)
qed simp

declare scope_flow.simps [simp del]

section \<open>States a parser can go on from\<close>

definition ready :: "parser \<Rightarrow> nat \<Rightarrow> node_index list \<Rightarrow> node_index option \<Rightarrow> bool" where
  "ready st L lb cur \<longleftrightarrow> map fst (pg_nodes (op_program st)) = [0..<L] \<and> op_ret st < L \<and> ps_loop_break st = lb \<and> set lb \<subseteq> {..<L} \<and>
     ps_current_block st = cur \<and> set_option cur \<subseteq> {..<L}"

lemma readyD:
  assumes "ready st L lb cur"
  shows "set (node_ids (op_program st)) = {..<L}" "length (pg_nodes (op_program st)) = L" "op_ret st < L" "set lb \<subseteq> {..<L}"
    "ps_loop_break st = lb" "ps_current_block st = cur" "set_option cur \<subseteq> {..<L}"
    "n < L \<Longrightarrow> \<exists>b. map_of (pg_nodes (op_program st)) n = Some b"
proof -
  from assms have ids: "map fst (pg_nodes (op_program st)) = [0..<L]" by (simp add: ready_def)
  from arg_cong [OF this, of length] show "length (pg_nodes (op_program st)) = L" by simp
  have img: "fst ` set (pg_nodes (op_program st)) = {..<L}" using arg_cong [OF ids, of set] by auto
  then show "set (node_ids (op_program st)) = {..<L}" by (simp add: node_ids_def)
  show "n < L \<Longrightarrow> \<exists>b. map_of (pg_nodes (op_program st)) n = Some b"
    using img map_of_eq_None_iff [of "pg_nodes (op_program st)" n] by auto
qed (use assms in \<open>simp_all add: ready_def\<close>)

lemma ready_current: "ready st L lb cur \<Longrightarrow> c < L \<Longrightarrow> ready (st\<lparr>ps_current_block := Some c\<rparr>) L lb (Some c)"
  by (simp add: ready_def)

lemma ready_no_current: "ready st L lb cur \<Longrightarrow> ready (st\<lparr>ps_current_block := None\<rparr>) L lb None"
  by (simp add: ready_def)

lemma ready_push:
  "ready st L lb cur \<Longrightarrow> n < L \<Longrightarrow> c < L \<Longrightarrow>
   ready (st\<lparr>ps_loop_break := ps_loop_break st @ [n], ps_current_block := Some c\<rparr>) L (lb @ [n]) (Some c)"
  by (simp add: ready_def)

lemma ready_pop: "ready st L (lb @ [n]) cur \<Longrightarrow> ready (st\<lparr>ps_loop_break := butlast (ps_loop_break st)\<rparr>) L lb cur"
  by (simp add: ready_def)

lemma add_node_ready:
  assumes "ready st L lb cur"
  shows "\<exists>st'. add_node st = (L, st') \<and> ready st' (Suc L) lb cur"
  using assms readyD(2) [OF assms] by (auto simp: add_node_def Let_def ready_def)

lemma add_edge_ready:
  assumes "ready st L lb cur" "a < L" "b < L"
  shows "\<exists>st'. add_edge a b st = Ret st' \<and> ready st' L lb cur"
  using assms readyD(1) [OF assms(1)] by (auto simp: add_edge_def ready_def)

lemma change_block_ready:
  assumes "ready st L lb cur" "n < L"
  shows "\<exists>st'. change_block n f st = Ret st' \<and> ready st' L lb cur"
proof -
  from readyD(8) [OF assms] obtain b where "map_of (pg_nodes (op_program st)) n = Some b" by blast
  with assms show ?thesis by (auto simp: change_block_def block_at_def ready_def update_keys)
qed

lemmas block_edits_ready =
  change_block_ready [of _ _ _ _ _ "\<lambda>b. b\<lparr>bb_control_flow := cf\<rparr>" for cf, folded set_control_flow_def]
  change_block_ready [of _ _ _ _ _ "\<lambda>b. b\<lparr>bb_ops := bb_ops b @ insts\<rparr>" for insts, folded push_ops_def]
  change_block_ready [of _ _ _ _ _ "\<lambda>b. b\<lparr>bb_block_use := bb_block_use b @ [u]\<rparr>" for u, folded push_use_def]

lemma insert_phi_ready: "ready st L lb cur \<Longrightarrow> n < L \<Longrightarrow> \<exists>st'. insert_phi n i it st = Ret st' \<and> ready st' L lb cur"
  unfolding insert_phi_def Let_def by (rule change_block_ready)

lemma join_ready:
  assumes "ready st L lb cur" "t < L"
  shows "\<exists>st'. join t st = Ret (cur = None, st') \<and> ready st' L lb cur"
proof (cases cur)
  case (Some c)
  with assms have "c < L" by (simp add: ready_def)
  from add_edge_ready [OF assms(1) this assms(2)] Some readyD(6) [OF assms(1)] show ?thesis by (auto simp: join_def)
qed (use assms readyD(6) [OF assms(1)] in \<open>auto simp: join_def\<close>)

lemma mark_merge_ready:
  assumes "ready st L lb cur" "set_option merge \<subseteq> {..<L}"
  shows "\<exists>st'. mark_merge merge st = Ret st' \<and> ready st' L lb cur"
  using assms block_edits_ready(3) [OF assms(1)] by (cases merge) (auto simp: mark_merge_def)

lemma ret_node_ready:
  assumes "ready st L lb cur"
  shows "\<exists>r st' L'. ret_node st = Ret (r, st') \<and> ready st' L' lb cur \<and> r < L' \<and> L \<le> L'"
proof -
  note r = readyD [OF assms]
  obtain b where b: "map_of (pg_nodes (op_program st)) (op_ret st) = Some b" using r(3,8) by blast
  obtain s1 where s1: "add_node st = (L, s1)" "ready s1 (Suc L) lb cur" using add_node_ready [OF assms] by blast
  have "L < Suc L" "op_ret st < Suc L" using r(3) by simp_all
  from add_edge_ready [OF s1(2) this] obtain s2 where s2: "add_edge L (op_ret st) s1 = Ret s2" "ready s2 (Suc L) lb cur" by blast
  show ?thesis
  proof (cases "Merge \<in> set (bb_block_use b)")
    case True
    have "ready (s2\<lparr>op_ret := L\<rparr>) (Suc L) lb cur" using s2(2) by (simp add: ready_def)
    with True b s1 s2 show ?thesis by (auto simp: ret_node_def block_at_def)
  next
    case False
    with b assms r(3) show ?thesis by (auto simp: ret_node_def block_at_def)
  qed
qed

section \<open>Parsers that follow the check\<close>

definition tracks :: "bool option \<Rightarrow> nat \<Rightarrow> node_index list \<Rightarrow> parser exec \<Rightarrow> bool" where
  "tracks fl L lb m \<longleftrightarrow> (fl = None \<and> (\<forall>st'. m \<noteq> Ret st')) \<or>
     (\<exists>st' L' cur. m = Ret st' \<and> ready st' L' lb cur \<and> L \<le> L' \<and> fl = Some (cur \<noteq> None))"

definition scope_tracks :: "flow_check \<Rightarrow> scope_parser \<Rightarrow> variable scope \<Rightarrow> bool" where
  "scope_tracks fs ps sc \<longleftrightarrow> (\<forall>st L lb b. ready st L lb (Some b) \<longrightarrow>
     (fs (lb \<noteq> []) sc = None \<and> (\<forall>r. ps sc st \<noteq> Ret r)) \<or>
     (\<exists>brk st' L' cur. ps sc st = Ret (brk, st') \<and> ready st' L' lb cur \<and> L \<le> L' \<and> fs (lb \<noteq> []) sc = Some (cur \<noteq> None)))"

lemma scope_cases:
  assumes "scope_tracks fs ps sc" "ready st L lb (Some b)"
  obtains (fails) "fs (lb \<noteq> []) sc = None" "\<And>r. ps sc st \<noteq> Ret r"
    | (parses) brk st' L' cur where "ps sc st = Ret (brk, st')" "ready st' L' lb cur" "L \<le> L'" "fs (lb \<noteq> []) sc = Some (cur \<noteq> None)"
  using assms(1) [unfolded scope_tracks_def, THEN spec, THEN spec, THEN spec, THEN spec, THEN mp, OF assms(2)] fails parses
  by (elim disjE exE conjE) auto

lemma tracks_fails: "fl = None \<Longrightarrow> (\<And>st'. m \<noteq> Ret st') \<Longrightarrow> tracks fl L lb m"
  by (simp add: tracks_def)

lemma tracks_next:
  assumes "m = Ret (st\<lparr>ps_current_block := Some n\<rparr>)" "ready st L' lb cur" "n < L'" "L \<le> L'" "fl = Some True"
  shows "tracks fl L lb m"
  using assms ready_current [OF assms(2,3)] unfolding tracks_def by blast

lemma parse_if_tracks:
  assumes ok: "scope_tracks fs ps sc" and r: "ready st L lb (Some b)"
  shows "tracks (branch_flow fs (lb \<noteq> []) (IfB cond sc)) L lb (parse_if ps cond sc st)"
proof -
  have b: "b < L" "ps_current_block st = Some b" using readyD [OF r] by simp_all
  obtain s1 where s1: "add_node st = (L, s1)" "ready s1 (Suc L) lb (Some b)" using add_node_ready [OF r] by blast
  obtain s2 where s2: "add_node s1 = (Suc L, s2)" "ready s2 (Suc (Suc L)) lb (Some b)" using add_node_ready [OF s1(2)] by blast
  obtain s3 where s3: "add_edge b L s2 = Ret s3" "ready s3 (Suc (Suc L)) lb (Some b)" using add_edge_ready [OF s2(2), of b L] b by auto
  obtain s4 where s4: "add_edge b (Suc L) s3 = Ret s4" "ready s4 (Suc (Suc L)) lb (Some b)"
    using add_edge_ready [OF s3(2), of b "Suc L"] b by auto
  note run = parse_if_def b(2) s1(1) s2(1) s3(1) s4(1)
  have "L < Suc (Suc L)" by simp
  from ok ready_current [OF s4(2) this] show ?thesis
  proof (cases rule: scope_cases)
    case fails
    then show ?thesis by (intro tracks_fails) (auto simp: run bindE_eq_Ret)
  next
    case (parses brk s5 L5 cur)
    obtain s6 where s6: "join (Suc L) s5 = Ret (cur = None, s6)" "ready s6 L5 lb cur"
      using join_ready [OF parses(2), of "Suc L"] parses(3) by auto
    define merge where "merge = (if brk then None else Some (if cur = None then op_ret s6 else Suc L))"
    obtain s7 where s7: "set_control_flow b (IfElseF cond L (Suc L) merge) s6 = Ret s7" "ready s7 L5 lb cur"
      using block_edits_ready(1) [OF s6(2), of b] parses(3) b by auto
    have "set_option merge \<subseteq> {..<L5}" using parses(3) readyD(3) [OF s6(2)] by (auto simp: merge_def)
    from mark_merge_ready [OF s7(2) this] obtain s8 where s8: "mark_merge merge s7 = Ret s8" "ready s8 L5 lb cur" by blast
    show ?thesis
      by (rule tracks_next [OF _ s8(2), of _ "Suc L"])
        (use parses s6(1) s7(1) s8(1) in \<open>simp_all add: run merge_def\<close>)
  qed
qed

lemma parse_if_else_tracks:
  assumes ok: "scope_tracks fs ps sc1" "scope_tracks fs ps sc2" and r: "ready st L lb (Some b)"
  shows "tracks (branch_flow fs (lb \<noteq> []) (IfElseB cond sc1 sc2)) L lb (parse_if_else ps cond sc1 sc2 st)"
proof -
  let ?L = "Suc (Suc (Suc L))"
  have b: "b < L" "ps_current_block st = Some b" using readyD [OF r] by simp_all
  obtain s1 where s1: "add_node st = (L, s1)" "ready s1 (Suc L) lb (Some b)" using add_node_ready [OF r] by blast
  obtain s2 where s2: "add_node s1 = (Suc L, s2)" "ready s2 (Suc (Suc L)) lb (Some b)" using add_node_ready [OF s1(2)] by blast
  obtain s3 where s3: "add_node s2 = (Suc (Suc L), s3)" "ready s3 ?L lb (Some b)" using add_node_ready [OF s2(2)] by blast
  obtain s4 where s4: "add_edge b L s3 = Ret s4" "ready s4 ?L lb (Some b)" using add_edge_ready [OF s3(2), of b L] b by auto
  obtain s5 where s5: "add_edge b (Suc L) s4 = Ret s5" "ready s5 ?L lb (Some b)" using add_edge_ready [OF s4(2), of b "Suc L"] b by auto
  note run = parse_if_else_def b(2) s1(1) s2(1) s3(1) s4(1) s5(1)
  have "L < ?L" by simp
  from ok(1) ready_current [OF s5(2) this] show ?thesis
  proof (cases rule: scope_cases)
    case fails
    then show ?thesis by (intro tracks_fails) (auto simp: run bindE_eq_Ret)
  next
    case (parses brk1 s6 L6 cur1)
    obtain s7 where s7: "join (Suc (Suc L)) s6 = Ret (cur1 = None, s7)" "ready s7 L6 lb cur1"
      using join_ready [OF parses(2), of "Suc (Suc L)"] parses(3) by auto
    have "Suc L < L6" using parses(3) by simp
    from ok(2) ready_current [OF s7(2) this] show ?thesis
    proof (cases rule: scope_cases)
      case fails
      then show ?thesis using parses(1) s7(1) by (intro tracks_fails) (auto simp: run bindE_eq_Ret)
    next
      case second: (parses brk2 s8 L8 cur2)
      obtain s9 where s9: "join (Suc (Suc L)) s8 = Ret (cur2 = None, s9)" "ready s9 L8 lb cur2"
        using join_ready [OF second(2), of "Suc (Suc L)"] second(3) parses(3) by auto
      define merge where "merge = (if brk2 \<or> brk1 then None else
        Some (if cur2 = None then op_ret s9 else if cur1 = None then op_ret s7 else Suc (Suc L)))"
      obtain s10 where s10: "set_control_flow b (IfElseF cond L (Suc L) merge) s9 = Ret s10" "ready s10 L8 lb cur2"
        using block_edits_ready(1) [OF s9(2), of b] second(3) parses(3) b by auto
      have "set_option merge \<subseteq> {..<L8}"
        using second(3) parses(3) readyD(3) [OF s9(2)] readyD(3) [OF s7(2)] by (auto simp: merge_def)
      from mark_merge_ready [OF s10(2) this] obtain s11 where s11: "mark_merge merge s10 = Ret s11" "ready s11 L8 lb cur2" by blast
      show ?thesis
      proof (rule tracks_next [OF _ s11(2), of _ "Suc (Suc L)"])
        show "parse_if_else ps cond sc1 sc2 st = Ret (s11\<lparr>ps_current_block := Some (Suc (Suc L))\<rparr>)"
          using s10(1) s11(1) parses(1) second(1) s7(1) s9(1) by (simp add: run merge_def)
      qed (use parses second in simp_all)
    qed
  qed
qed

definition cases_flow :: "flow_check \<Rightarrow> bool \<Rightarrow> (variable \<times> variable scope) list \<Rightarrow> bool" where
  "cases_flow fs l cases \<longleftrightarrow> (\<forall>c \<in> set cases. is_Ret (switch_label (fst c)) \<and> fs l (snd c) \<noteq> None)"

lemma parse_cases_tracks:
  assumes "\<forall>c \<in> set cs. scope_tracks fs ps (snd c)" "ready st L lb cur" "b < L" "n < L"
  shows "(\<not> cases_flow fs (lb \<noteq> []) cs \<and> (\<forall>r. parse_cases ps b n cs st \<noteq> Ret r)) \<or>
    (cases_flow fs (lb \<noteq> []) cs \<and> (\<exists>rs st' L' cur. parse_cases ps b n cs st = Ret (rs, st') \<and> ready st' L' lb cur \<and> L \<le> L'))"
  using assms
proof (induction cs arbitrary: st L cur)
  case Nil
  then show ?case by (auto simp: cases_flow_def)
next
  case (Cons c cs)
  obtain s1 where s1: "add_node st = (L, s1)" "ready s1 (Suc L) lb cur" using add_node_ready [OF Cons.prems(2)] by blast
  obtain s2 where s2: "add_edge b L s1 = Ret s2" "ready s2 (Suc L) lb cur"
    using add_edge_ready [OF s1(2), of b L] Cons.prems(3) by auto
  note run = parse_case_def s1(1) s2(1)
  have ok: "scope_tracks fs ps (snd c)" using Cons.prems(1) by simp
  have "L < Suc L" by simp
  from ok ready_current [OF s2(2) this] show ?case
  proof (cases rule: scope_cases)
    case fails
    then show ?thesis by (auto simp: cases_flow_def run bindE_eq_Ret)
  next
    case (parses brk s3 L3 cur3)
    obtain s4 where s4: "join n s3 = Ret (cur3 = None, s4)" "ready s4 L3 lb cur3"
      using join_ready [OF parses(2), of n] parses(3) Cons.prems(4) by auto
    show ?thesis
    proof (cases "switch_label (fst c)")
      case (Ret val)
      then have one: "parse_case ps b n c st = Ret ((val, L, brk, cur3 = None \<and> \<not> brk), s4)"
        using parses(1) s4(1) by (simp add: run)
      have c: "cases_flow fs (lb \<noteq> []) (c # cs) = cases_flow fs (lb \<noteq> []) cs"
        using Ret parses(4) by (simp add: cases_flow_def is_Ret_def)
      have "\<forall>c \<in> set cs. scope_tracks fs ps (snd c)" "b < L3" "n < L3" using Cons.prems parses(3) by auto
      from Cons.IH [OF this(1) s4(2) this(2,3)] show ?thesis
      proof
        assume "\<not> cases_flow fs (lb \<noteq> []) cs \<and> (\<forall>r. parse_cases ps b n cs s4 \<noteq> Ret r)"
        then show ?thesis by (simp add: c one bindE_eq_Ret)
      next
        assume "cases_flow fs (lb \<noteq> []) cs \<and> (\<exists>rs st' L' cur. parse_cases ps b n cs s4 = Ret (rs, st') \<and> ready st' L' lb cur \<and> L3 \<le> L')"
        then obtain rs st' L' cur where "cases_flow fs (lb \<noteq> []) cs" "parse_cases ps b n cs s4 = Ret (rs, st')" "ready st' L' lb cur" "L3 \<le> L'"
          by blast
        moreover from this(4) have "L \<le> L'" using parses(3) by simp
        ultimately show ?thesis using c one by (simp add: exI [of _ L'] exI [of _ cur])
      qed
    qed (use parses(1) s4(1) in \<open>auto simp: cases_flow_def is_Ret_def run\<close>)
  qed
qed

lemma parse_switch_tracks:
  assumes ok: "scope_tracks fs ps sc" "\<forall>c \<in> set cs. scope_tracks fs ps (snd c)" and r: "ready st L lb (Some b)"
  shows "tracks (branch_flow fs (lb \<noteq> []) (SwitchB v sc cs)) L lb (parse_switch ps v sc cs st)"
proof -
  have b: "b < L" "ps_current_block st = Some b" using readyD [OF r] by simp_all
  obtain s1 where s1: "add_node st = (L, s1)" "ready s1 (Suc L) lb (Some b)" using add_node_ready [OF r] by blast
  note run = parse_switch_def b(2) s1(1)
  have flow: "branch_flow fs (lb \<noteq> []) (SwitchB v sc cs) =
      (if fs (lb \<noteq> []) sc = None \<or> \<not> cases_flow fs (lb \<noteq> []) cs then None else Some True)" by (auto simp: cases_flow_def)
  show ?thesis
  proof (cases "cases_flow fs (lb \<noteq> []) cs")
    case False
    with parse_cases_tracks [OF ok(2) s1(2), of b L] b show ?thesis
      unfolding flow by (intro tracks_fails) (auto simp: run bindE_eq_Ret)
  next
    case True
    with parse_cases_tracks [OF ok(2) s1(2), of b L] b obtain rs s2 L2 cur2 where
      s2: "parse_cases ps b L cs s1 = Ret (rs, s2)" "ready s2 L2 lb cur2" "Suc L \<le> L2" by auto
    obtain s3 where s3: "add_node s2 = (L2, s3)" "ready s3 (Suc L2) lb cur2" using add_node_ready [OF s2(2)] by blast
    obtain s4 where s4: "add_edge b L2 s3 = Ret s4" "ready s4 (Suc L2) lb cur2"
      using add_edge_ready [OF s3(2), of b L2] b s2(3) by auto
    note run = run s2(1) s3(1) s4(1)
    have "L2 < Suc L2" by simp
    from ok(1) ready_current [OF s4(2) this] show ?thesis
    proof (cases rule: scope_cases)
      case fails
      then show ?thesis unfolding flow by (intro tracks_fails) (auto simp: run bindE_eq_Ret)
    next
      case (parses brk s5 L5 cur)
      obtain s6 where s6: "join L s5 = Ret (cur = None, s6)" "ready s6 L5 lb cur"
        using join_ready [OF parses(2), of L] parses(3) s2(3) by auto
      define breaks where "breaks = (brk \<or> (\<exists>b \<in> set rs. fst (snd (snd b))))"
      define rets where "rets = (if cur = None then \<not> brk else \<exists>b \<in> set rs. snd (snd (snd b)))"
      have "L < L5" using parses(3) s2(3) by simp
      from block_edits_ready(3) [OF s6(2) this] obtain u where u: "push_use L Merge s6 = Ret u" "ready u L5 lb cur" by blast
      define m where "m = (if breaks then (None, s6) else if rets then (Some (op_ret s6), s6) else (Some L, u))"
      have m: "(if breaks then Ret (None, s6) else if rets then Ret (Some (op_ret s6), s6)
            else bindE (push_use L Merge s6) (\<lambda>st. Ret (Some L, st))) = Ret (fst m, snd m)" "ready (snd m) L5 lb cur"
        using u s6(2) by (simp_all add: m_def)
      obtain s7 merge where s7: "(if breaks then Ret (None, s6) else if rets then Ret (Some (op_ret s6), s6)
            else bindE (push_use L Merge s6) (\<lambda>st. Ret (Some L, st))) = Ret (merge, s7)" "ready s7 L5 lb cur"
        using m by (rule that)
      obtain s8 where s8: "set_control_flow b (SwitchF v L2 (map (\<lambda>b. (fst b, fst (snd b))) rs) merge) s7 = Ret s8" "ready s8 L5 lb cur"
        using block_edits_ready(1) [OF s7(2), of b] parses(3) s2(3) b by auto
      have eq: "parse_switch ps v sc cs st =
          bindE (if breaks then Ret (None, s6) else if rets then Ret (Some (op_ret s6), s6)
            else bindE (push_use L Merge s6) (\<lambda>st. Ret (Some L, st))) (\<lambda>(merge, st).
          bindE (set_control_flow b (SwitchF v L2 (map (\<lambda>b. (fst b, fst (snd b))) rs) merge) st) (\<lambda>st.
          Ret (st\<lparr>ps_current_block := Some L\<rparr>)))"
        using parses(1) s6(1) by (simp add: run breaks_def rets_def del: if_split)
      show ?thesis unfolding flow
      proof (rule tracks_next [OF _ s8(2), of _ L])
        show "parse_switch ps v sc cs st = Ret (s8\<lparr>ps_current_block := Some L\<rparr>)"
          unfolding eq s7(1) by (simp add: s8(1))
      qed (use parses s2(3) True in auto)
    qed
  qed
qed

lemma loop_blocks_ready:
  assumes r: "ready st L lb (Some b)"
  shows "\<exists>s1 s2 s3 s4 s5. add_node st = (L, s1) \<and> add_edge b L s1 = Ret s2 \<and> add_node s2 = (Suc L, s3) \<and> add_node s3 = (Suc (Suc L), s4) \<and>
    add_edge L (Suc L) s4 = Ret s5 \<and> ready s5 (Suc (Suc (Suc L))) lb (Some b)"
proof -
  have b: "b < L" using readyD [OF r] by simp
  obtain s1 where s1: "add_node st = (L, s1)" "ready s1 (Suc L) lb (Some b)" using add_node_ready [OF r] by blast
  obtain s2 where s2: "add_edge b L s1 = Ret s2" "ready s2 (Suc L) lb (Some b)" using add_edge_ready [OF s1(2), of b L] b by auto
  obtain s3 where s3: "add_node s2 = (Suc L, s3)" "ready s3 (Suc (Suc L)) lb (Some b)" using add_node_ready [OF s2(2)] by blast
  obtain s4 where s4: "add_node s3 = (Suc (Suc L), s4)" "ready s4 (Suc (Suc (Suc L))) lb (Some b)" using add_node_ready [OF s3(2)] by blast
  obtain s5 where "add_edge L (Suc L) s4 = Ret s5" "ready s5 (Suc (Suc (Suc L))) lb (Some b)"
    using add_edge_ready [OF s4(2), of L "Suc L"] by auto
  with s1 s2 s3 s4 show ?thesis by blast
qed

lemma parse_loop_tracks:
  assumes ok: "scope_tracks fs ps sc" and r: "ready st L lb (Some b)"
  shows "tracks (branch_flow fs (lb \<noteq> []) (LoopB sc)) L lb (parse_loop ps sc st)"
proof -
  let ?L = "Suc (Suc (Suc L))"
  have b: "b < L" "ps_current_block st = Some b" using readyD [OF r] by simp_all
  from loop_blocks_ready [OF r] obtain s1 s2 s3 s4 s5 where s: "add_node st = (L, s1)" "add_edge b L s1 = Ret s2"
    "add_node s2 = (Suc L, s3)" "add_node s3 = (Suc (Suc L), s4)" "add_edge L (Suc L) s4 = Ret s5" and s5: "ready s5 ?L lb (Some b)" by blast
  note run = parse_loop_def b(2) s
  have "Suc (Suc L) < ?L" "Suc L < ?L" by simp_all
  from ok ready_push [OF s5 this] show ?thesis
  proof (cases rule: scope_cases)
    case fails
    then show ?thesis by (intro tracks_fails) (auto simp: run bindE_eq_Ret)
  next
    case (parses brk s6 L6 cur)
    obtain s7 where s7: "add_node s6 = (L6, s7)" "ready s7 (Suc L6) (lb @ [Suc (Suc L)]) cur" using add_node_ready [OF parses(2)] by blast
    obtain s8 where s8: "push_use L6 ContinueTarget s7 = Ret s8" "ready s8 (Suc L6) (lb @ [Suc (Suc L)]) cur"
      using block_edits_ready(3) [OF s7(2), of L6] by auto
    obtain s9 where s9: "join L6 (s8\<lparr>ps_loop_break := butlast (ps_loop_break s8)\<rparr>) = Ret (cur = None, s9)" "ready s9 (Suc L6) lb cur"
      using join_ready [OF ready_pop [OF s8(2)], of L6] by auto
    obtain s10 where s10: "add_edge L6 L s9 = Ret s10" "ready s10 (Suc L6) lb cur"
      using add_edge_ready [OF s9(2), of L6 L] parses(3) by auto
    obtain s11 where s11: "set_control_flow L (LoopF (Suc L) L6 (Suc (Suc L))) s10 = Ret s11" "ready s11 (Suc L6) lb cur"
      using block_edits_ready(1) [OF s10(2), of L] parses(3) by auto
    obtain s12 where s12: "push_use (Suc (Suc L)) Merge s11 = Ret s12" "ready s12 (Suc L6) lb cur"
      using block_edits_ready(3) [OF s11(2), of "Suc (Suc L)"] parses(3) by auto
    show ?thesis
      by (rule tracks_next [OF _ s12(2), of _ "Suc (Suc L)"])
        (use parses s7(1) s8(1) s9(1) s10(1) s11(1) s12(1) in \<open>simp_all add: run\<close>)
  qed
qed

lemma loop_back_ready:
  assumes r: "ready st L lb cur" and c: "c < L"
  shows "\<exists>t st' L'. loop_back c st = Ret (t, st') \<and> ready st' L' lb cur \<and> t < L' \<and> L \<le> L'"
proof -
  from readyD(8) [OF r c] obtain b where b: "map_of (pg_nodes (op_program st)) c = Some b" by blast
  obtain s1 where s1: "add_node st = (L, s1)" "ready s1 (Suc L) lb cur" using add_node_ready [OF r] by blast
  obtain s2 where s2: "add_edge c L s1 = Ret s2" "ready s2 (Suc L) lb cur" using add_edge_ready [OF s1(2), of c L] c by auto
  show ?thesis
  proof (cases "Merge \<in> set (bb_block_use b)")
    case True
    with b s1 s2 show ?thesis by (auto simp: loop_back_def block_at_def)
  next
    case False
    with b r c show ?thesis by (auto simp: loop_back_def block_at_def)
  qed
qed

lemma ready_insert_variable [simp]: "ready (insert_variable i it st) L lb cur = ready st L lb cur"
  by (simp add: ready_def insert_variable_def)

lemma ready_next_local [simp]: "ready (st\<lparr>op_next_local := k\<rparr>) L lb cur = ready st L lb cur"
  by (simp add: ready_def)

lemma parse_for_loop_tracks:
  assumes ok: "scope_tracks fs ps sc" and r: "ready st L lb (Some b)"
  shows "tracks (branch_flow fs (lb \<noteq> []) (RangeLoopB i start stop step inclusive sc)) L lb (parse_for_loop ps i start stop step inclusive sc st)"
proof (cases "local_mut_id i")
  case (Ret j)
  let ?L = "Suc (Suc (Suc L))" and ?st = "insert_variable j (v_item i) st"
  have b: "b < L" "ps_current_block ?st = Some b" using readyD [OF r] by (simp_all add: insert_variable_def)
  obtain s0 where s0: "push_ops b [instruction_new (CopyO start) i] ?st = Ret s0" "ready s0 L lb (Some b)"
    using block_edits_ready(2) [of ?st L lb "Some b" b] r b by auto
  from loop_blocks_ready [OF s0(2)] obtain s1 s2 s3 s4 s5 where s: "add_node s0 = (L, s1)" "add_edge b L s1 = Ret s2"
    "add_node s2 = (Suc L, s3)" "add_node s3 = (Suc (Suc L), s4)" "add_edge L (Suc L) s4 = Ret s5" and s5: "ready s5 ?L lb (Some b)" by blast
  obtain s6 where s6: "add_edge L (Suc (Suc L)) s5 = Ret s6" "ready s6 ?L lb (Some b)"
    using add_edge_ready [OF s5, of L "Suc (Suc L)"] by auto
  note run = parse_for_loop_def Ret b(2) s0(1) s s6(1)
  have "Suc (Suc L) < ?L" "Suc L < ?L" by simp_all
  from ok ready_push [OF s6(2) this] show ?thesis
  proof (cases rule: scope_cases)
    case fails
    then show ?thesis by (intro tracks_fails) (auto simp: run bindE_eq_Ret Let_def)
  next
    case (parses brk s7 L7 cur)
    show ?thesis
    proof (cases cur)
      case None
      then show ?thesis using parses readyD(6) [OF parses(2)]
        by (intro tracks_fails) (auto simp: run expect_def Let_def)
    next
      case (Some c)
      let ?s7 = "s7\<lparr>ps_loop_break := butlast (ps_loop_break s7)\<rparr>"
      note r7 = ready_pop [OF parses(2)]
      have c: "c < L7" "ps_current_block ?s7 = Some c" using readyD [OF r7] Some by auto
      from loop_back_ready [OF r7 c(1)] obtain t s8 L8 where s8: "loop_back c ?s7 = Ret (t, s8)" "ready s8 L8 lb cur" "t < L8" "L7 \<le> L8" by blast
      have L: "L < L8" "Suc (Suc L) < L8" "c < L8" using parses(3) s8(4) c(1) by auto
      obtain s9 where s9: "add_edge t L s8 = Ret s9" "ready s9 L8 lb cur" using add_edge_ready [OF s8(2,3), of L] L by auto
      obtain s10 where s10: "push_use t ContinueTarget s9 = Ret s10" "ready s10 L8 lb cur" using block_edits_ready(3) [OF s9(2) s8(3)] by auto
      obtain s11 where s11: "push_use (Suc (Suc L)) Merge s10 = Ret s11" "ready s11 L8 lb cur" using block_edits_ready(3) [OF s10(2) L(2)] by auto
      note r11 = ready_current [OF s11(2) L(2)]
      obtain s12 where s12: "insert_phi L j (v_item start) (s11\<lparr>ps_current_block := Some (Suc (Suc L))\<rparr>) = Ret s12"
        "ready s12 L8 lb (Some (Suc (Suc L)))" using insert_phi_ready [OF r11 L(1)] by blast
      obtain tmp k where tmp: "create_local (op_next_local s12) (item_new BoolE) = (tmp, k)" by force
      obtain s13 where s13: "push_ops L [instruction_new (loop_test inclusive i stop) tmp] (s12\<lparr>op_next_local := k\<rparr>) = Ret s13"
        "ready s13 L8 lb (Some (Suc (Suc L)))" using block_edits_ready(2) [OF ready_next_local [THEN iffD2, OF s12(2)] L(1)] by blast
      obtain s14 where s14: "set_control_flow L (LoopBreakF tmp (Suc L) t (Suc (Suc L))) s13 = Ret s14" "ready s14 L8 lb (Some (Suc (Suc L)))"
        using block_edits_ready(1) [OF s13(2) L(1)] by blast
      obtain s15 where s15: "push_ops c [loop_step i step] s14 = Ret s15" "ready s15 L8 lb (Some (Suc (Suc L)))"
        using block_edits_ready(2) [OF s14(2) L(3)] by blast
      have "parse_for_loop ps i start stop step inclusive sc st = Ret s15"
        using parses(1) c(2) s8(1) s9(1) s10(1) s11(1) s12(1) tmp s13(1) s14(1) s15(1) by (simp add: run expect_def)
      moreover have "L \<le> L8" using L(1) by simp
      ultimately show ?thesis using s15(2) parses(4) Some Ret unfolding tracks_def by (auto simp: is_Ret_def)
    qed
  qed
qed (auto simp: tracks_def parse_for_loop_def is_Ret_def)

lemma control_flow_tracks:
  assumes ok: "\<forall>sc \<in> set (branch_scopes br). scope_tracks fs ps sc" and r: "ready st L lb (Some b)"
  shows "tracks (branch_flow fs (lb \<noteq> []) br) L lb (parse_control_flow ps br st)"
proof -
  have b: "b < L" "ps_current_block st = Some b" "ps_loop_break st = lb" "set lb \<subseteq> {..<L}" using readyD [OF r] by simp_all
  show ?thesis
  proof (cases br)
    case ReturnB
    from ret_node_ready [OF ready_no_current [OF r]] obtain t s1 L1
      where s1: "ret_node (st\<lparr>ps_current_block := None\<rparr>) = Ret (t, s1)" "ready s1 L1 lb None" "t < L1" "L \<le> L1" by blast
    obtain s2 where "add_edge b t s1 = Ret s2" "ready s2 L1 lb None" using add_edge_ready [OF s1(2), of b t] s1(3,4) b by auto
    with s1 b show ?thesis by (auto simp: ReturnB tracks_def)
  next
    case BreakB
    show ?thesis
    proof (cases "lb = []")
      case False
      with b(4) have "last lb < L" using last_in_set by blast
      from add_edge_ready [OF ready_no_current [OF r] b(1) this] False b show ?thesis by (auto simp: BreakB tracks_def)
    qed (use b in \<open>simp add: BreakB tracks_def\<close>)
  next
    case (SwitchB v sc cs)
    with ok have "scope_tracks fs ps sc" "\<forall>c \<in> set cs. scope_tracks fs ps (snd c)" by auto
    from parse_switch_tracks [OF this r] show ?thesis unfolding SwitchB parse_control_flow.simps .
  next
    case (IfElseB cond sc1 sc2)
    with ok have "scope_tracks fs ps sc1" "scope_tracks fs ps sc2" by auto
    from parse_if_else_tracks [OF this r] show ?thesis unfolding IfElseB parse_control_flow.simps .
  next
    case (IfB cond sc)
    with ok have "scope_tracks fs ps sc" by simp
    from parse_if_tracks [OF this r] show ?thesis unfolding IfB parse_control_flow.simps .
  next
    case (RangeLoopB i start stop step inclusive sc)
    with ok have "scope_tracks fs ps sc" by simp
    from parse_for_loop_tracks [OF this r] show ?thesis unfolding RangeLoopB parse_control_flow.simps .
  next
    case (LoopB sc)
    with ok have "scope_tracks fs ps sc" by simp
    from parse_loop_tracks [OF this r] show ?thesis unfolding LoopB parse_control_flow.simps .
  qed
qed

lemma parse_inst_tracks:
  assumes ok: "\<forall>sc \<in> set (inst_scopes inst). scope_tracks fs ps sc" and r: "ready st L lb (Some b)"
  shows "tracks (inst_flow fs (lb \<noteq> []) inst) L lb (parse_inst [] ps inst st)"
proof -
  have b: "b < L" "ps_current_block st = Some b" using readyD [OF r] by simp_all
  show ?thesis
  proof (cases "\<exists>br. i_operation inst = BranchO br")
    case True
    then obtain br where br: "i_operation inst = BranchO br" ..
    with ok have "\<forall>sc \<in> set (branch_scopes br). scope_tracks fs ps sc" by (simp add: inst_scopes_def)
    from control_flow_tracks [OF this r] show ?thesis by (simp add: parse_inst_def inst_flow_def br)
  next
    case False
    obtain s1 where s1: "push_ops b [inst] st = Ret s1" "ready s1 L lb (Some b)" using block_edits_ready(2) [OF r b(1)] by blast
    from False have "parse_inst [] ps inst st = push_ops b [inst] st" "inst_flow fs (lb \<noteq> []) inst = Some True"
      using b(2) by (simp_all add: parse_inst_def inst_flow_def split: operation.splits)
    with s1 show ?thesis by (auto simp: tracks_def)
  qed
qed

lemma no_block_no_inst:
  assumes "ps_current_block st = None"
  shows "parse_inst [] ps inst st \<noteq> Ret st'"
proof (cases "\<exists>br. i_operation inst = BranchO br")
  case True
  then obtain br where br: "i_operation inst = BranchO br" ..
  have "parse_control_flow ps br st \<noteq> Ret st'"
    using assms by (cases br) (auto simp: parse_if_def parse_if_else_def parse_switch_def parse_loop_def parse_for_loop_def
      insert_variable_def bindE_eq_Ret Let_def unwrap_def)
  then show ?thesis by (simp add: parse_inst_def br)
qed (use assms in \<open>simp add: parse_inst_def unwrap_def split: operation.splits\<close>)

lemma parse_insts_tracks:
  assumes "\<forall>inst \<in> set insts. \<forall>sc \<in> set (inst_scopes inst). scope_tracks fs ps sc" "ready st L lb (Some b)"
  shows "tracks (insts_flow fs (lb \<noteq> []) insts) L lb (parse_insts [] ps insts st)"
  using assms
proof (induction insts arbitrary: st L b)
  case Nil
  then show ?case by (auto simp: tracks_def parse_insts_def)
next
  case (Cons inst insts)
  have "tracks (inst_flow fs (lb \<noteq> []) inst) L lb (parse_inst [] ps inst st)"
    using Cons.prems by (intro parse_inst_tracks) auto
  then consider "inst_flow fs (lb \<noteq> []) inst = None" "\<And>st'. parse_inst [] ps inst st \<noteq> Ret st'"
    | s1 L1 cur where "parse_inst [] ps inst st = Ret s1" "ready s1 L1 lb cur" "L \<le> L1" "inst_flow fs (lb \<noteq> []) inst = Some (cur \<noteq> None)"
    unfolding tracks_def by (elim disjE exE conjE) auto
  then show ?case
  proof cases
    case 1
    then show ?thesis by (auto simp: tracks_def parse_insts_def bindE_eq_Ret)
  next
    case 2
    have step: "parse_insts [] ps (inst # insts) st = parse_insts [] ps insts s1" using 2(1) by (simp add: parse_insts_def)
    show ?thesis
    proof (cases cur)
      case (Some c)
      with 2 have "tracks (insts_flow fs (lb \<noteq> []) insts) L1 lb (parse_insts [] ps insts s1)"
        using Cons.prems(1) by (intro Cons.IH) auto
      with 2(3,4) Some show ?thesis unfolding step tracks_def by (auto intro: order_trans)
    next
      case None
      with readyD(6) [OF 2(2)] have stuck: "parse_inst [] ps i s1 \<noteq> Ret s2" for i s2 by (intro no_block_no_inst) simp
      show ?thesis
      proof (cases insts)
        case Nil
        with 2 None show ?thesis unfolding step by (auto simp: tracks_def parse_insts_def)
      next
        case (Cons i rest)
        with 2(4) None stuck show ?thesis unfolding step by (intro tracks_fails) (auto simp: parse_insts_def bindE_eq_Ret)
      qed
    qed
  qed
qed

section \<open>Scopes\<close>

lemma declare_variables_ready: "ready (fold declare_variable vs st) L lb cur = ready st L lb cur"
proof (induction vs arbitrary: st)
  case (Cons v vs)
  have "ready (declare_variable v st) L lb cur = ready st L lb cur" by (simp add: declare_variable_def split: variable_kind.splits)
  with Cons show ?case by simp
qed simp

lemma const_arrays_tracks:
  assumes "ready st L lb cur"
  shows "if list_all const_array_ok cs then \<exists>st'. foldE push_const_array cs st = Ret st' \<and> ready st' L lb cur
    else \<forall>st'. foldE push_const_array cs st \<noteq> Ret st'"
  using assms
proof (induction cs arbitrary: st)
  case (Cons c cs)
  show ?case
  proof (cases "const_array_ok c")
    case True
    then obtain s1 where "push_const_array st c = Ret s1" "ready s1 L lb cur"
      using Cons.prems by (auto simp: const_array_ok_def push_const_array_def ready_def split: variable_kind.splits)
    with True Cons.IH [of s1] show ?thesis by simp
  next
    case False
    then have "\<forall>s. push_const_array st c \<noteq> Ret s"
      by (simp add: const_array_ok_def push_const_array_def split: variable_kind.splits)
    with False show ?thesis by (simp add: bindE_eq_Ret)
  qed
qed simp

lemma process_Ret:
  "process sc st = (case mapE sanitize_instruction (sc_instructions sc) of
     Ret insts \<Rightarrow> Ret (\<lparr>sp_variables = sc_locals sc @ sc_matrices sc @ ps_pool st, sp_instructions = insts\<rparr>, st\<lparr>ps_pool := []\<rparr>)
   | Panic p \<Rightarrow> Panic p | Diverge \<Rightarrow> Diverge)"
  by (simp add: process_def optimize_def sanitize_constant_scalars_def split: exec.splits)

text \<open>The parser of scopes follows the check: it returns where the check succeeds and only there.\<close>

lemma parse_scope_tracks: "scope_tracks scope_flow (parse_scope []) sc"
proof (induction "size sc" arbitrary: sc rule: less_induct)
  case less
  show ?case unfolding scope_tracks_def
  proof (intro allI impI)
    fix st L lb b assume r: "ready st L lb (Some b)"
    let ?goal = "scope_flow (lb \<noteq> []) sc = None \<and> (\<forall>r. parse_scope [] sc st \<noteq> Ret r) \<or>
      (\<exists>brk st' L' cur. parse_scope [] sc st = Ret (brk, st') \<and> ready st' L' lb cur \<and> L \<le> L' \<and> scope_flow (lb \<noteq> []) sc = Some (cur \<noteq> None))"
    show ?goal
    proof (cases "mapE sanitize_instruction (sc_instructions sc)")
      case (Ret insts)
      let ?vars = "sc_locals sc @ sc_matrices sc @ ps_pool st"
      let ?p = "\<lparr>sp_variables = ?vars, sp_instructions = insts\<rparr>" and ?s1 = "fold declare_variable ?vars (st\<lparr>ps_pool := []\<rparr>)"
      have p: "process sc st = Ret (?p, st\<lparr>ps_pool := []\<rparr>)" by (simp add: process_Ret Ret)
      have s1: "ready ?s1 L lb (Some b)" unfolding declare_variables_ready using r by (simp add: ready_def)
      have ok: "\<forall>inst \<in> set insts. \<forall>sc \<in> set (inst_scopes inst). scope_tracks scope_flow (parse_scope []) sc"
        using process_smaller [OF p] less by simp
      note unf = parse_scope.simps [of "[]" sc st] p scope_flow.simps [of "lb \<noteq> []" sc] Ret
      show ?goal
      proof (cases "list_all const_array_ok (sc_const_arrays sc)")
        case True
        with const_arrays_tracks [OF s1, of "sc_const_arrays sc"] obtain s2
          where s2: "foldE push_const_array (sc_const_arrays sc) ?s1 = Ret s2" "ready s2 L lb (Some b)" by auto
        have "parse_scope [] sc st =
            bindE (parse_insts [] (parse_scope []) insts s2) (\<lambda>st. Ret (break_inst \<in> set insts, st))"
          "scope_flow (lb \<noteq> []) sc = insts_flow scope_flow (lb \<noteq> []) insts"
          using True s2(1) by (simp_all add: unf del: fold_append)
        with parse_insts_tracks [OF ok s2(2)] show ?goal unfolding tracks_def
          by (elim disjE exE conjE) (simp_all add: bindE_eq_Ret, blast)
      next
        case False
        with const_arrays_tracks [OF s1, of "sc_const_arrays sc"] show ?goal by (simp add: unf bindE_eq_Ret del: fold_append)
      qed
    qed (simp_all add: parse_scope.simps [of "[]" sc st] scope_flow.simps [of _ sc] process_Ret)
  qed
qed

lemma parse_graph_ready:
  assumes sc: "scope_tracks fs (parse_scope []) sc"
  shows "(\<exists>st. parse_graph [] sc (initial_parser n0 pool dims) = Ret st) \<longleftrightarrow> fs False sc \<noteq> None"
proof -
  let ?st = "initial_parser n0 pool dims"
  define s0 where "s0 = (let (_, st) = add_node ?st; (_, st) = add_node (st\<lparr>op_program := (op_program st)\<lparr>pg_root := 0\<rparr>,
    ps_current_block := Some 0\<rparr>) in st\<lparr>op_ret := 1\<rparr>)"
  have s0: "parse_graph [] sc ?st = bindE (set_control_flow 1 ReturnF s0) (\<lambda>st. bindE (parse_scope [] sc st) (\<lambda>(_, st).
      case ps_current_block st of Some current \<Rightarrow> add_edge current (op_ret st) st | None \<Rightarrow> Ret st))"
    by (simp add: parse_graph_def s0_def add_node_def initial_parser_def)
  have "ready s0 2 [] (Some 0)" by (simp add: ready_def s0_def add_node_def initial_parser_def numeral_2_eq_2)
  from block_edits_ready(1) [OF this, of 1 ReturnF] obtain s1
    where s1: "set_control_flow 1 ReturnF s0 = Ret s1" "ready s1 2 [] (Some 0)" by auto
  from sc s1(2) show ?thesis
  proof (cases rule: scope_cases)
    case fails
    then show ?thesis unfolding s0 s1(1) by (simp add: bindE_eq_Ret)
  next
    case (parses brk s2 L2 cur)
    note r = readyD [OF parses(2)]
    show ?thesis
    proof (cases cur)
      case (Some c)
      with r have "c < L2" "op_ret s2 < L2" by simp_all
      from add_edge_ready [OF parses(2) this] parses(1,4) Some r(6) show ?thesis unfolding s0 s1(1) by auto
    qed (use parses r in \<open>simp add: s0 s1(1) [unfolded One_nat_def]\<close>)
  qed
qed

text \<open>
  C16. The construction of the control-flow graph is total on exactly the kernels the check accepts: with no
  transformer and from a fresh optimizer, \<open>parse_graph\<close> returns a graph if and only if \<open>scope_flow\<close> accepts the
  kernel: breaks are inside loops, nothing follows a \<open>break\<close> or a \<open>return\<close> in its scope, counting loops count a
  mutable local and reach the end of their body, the labels of a switch are integer constants, constant arrays are
  declared as such, and the constants of the instructions can be given their types. The parser has no failure of its
  own, such as a node it does not find or a stack of loops that is empty too early.
\<close>

theorem parse_graph_total:
  "(\<exists>st. parse_graph [] sc (initial_parser n0 pool dims) = Ret st) \<longleftrightarrow> scope_flow False sc \<noteq> None"
  using parse_scope_tracks by (rule parse_graph_ready)

end
