(* ===== verification/Opt_Graph_Semantics.thy ===== *)
theory Opt_Graph_Semantics
  imports Opt_Lowering
begin

text \<open>
  What a kernel computes, before and after its scope has been turned into a graph of basic blocks. A
  \<open>machine\<close> says what single instructions do to the variables, arrays included. \<open>run_scope\<close> runs the
  structured scopes of \<open>cubecl-ir\<close>; \<open>grun\<close> runs a graph the way the code generators read it: the
  instructions of a block, then the block its control flow names, along an edge of the graph; the phi
  instructions of that block take the values of the edge. Both count steps, so that not ending is not returning for any count.
\<close>

section \<open>Machines\<close>

type_synonym 'v env = "variable \<Rightarrow> 'v"

record 'v machine =
  mc_effect :: "variable instruction \<Rightarrow> 'v env \<Rightarrow> 'v env"
  mc_eval :: "variable operation \<Rightarrow> 'v env \<Rightarrow> 'v"
  mc_const :: "constant_scalar_value \<Rightarrow> 'v"
  mc_true :: "'v \<Rightarrow> bool"
  mc_label :: "'v \<Rightarrow> u32"

definition value_of :: "'v machine \<Rightarrow> 'v env \<Rightarrow> variable \<Rightarrow> 'v" where
  "value_of m \<sigma> v = (case as_const v of Some c \<Rightarrow> mc_const m c | None \<Rightarrow> \<sigma> v)"

definition truth :: "'v machine \<Rightarrow> 'v env \<Rightarrow> variable \<Rightarrow> bool" where
  "truth m \<sigma> v = mc_true m (value_of m \<sigma> v)"

definition label_of :: "'v machine \<Rightarrow> 'v env \<Rightarrow> variable \<Rightarrow> u32" where
  "label_of m \<sigma> v = mc_label m (value_of m \<sigma> v)"

text \<open>Environments that differ on the temporaries \<open>T\<close> only.\<close>

definition same_off :: "variable set \<Rightarrow> 'v env \<Rightarrow> 'v env \<Rightarrow> bool" where
  "same_off T \<sigma> \<tau> = (\<forall>v. v \<notin> T \<longrightarrow> \<sigma> v = \<tau> v)"

lemma same_off_refl [simp]: "same_off T \<sigma> \<sigma>"
  by (simp add: same_off_def)

lemma same_off_upd [simp]: "v \<in> T \<Longrightarrow> same_off T \<sigma> (\<tau>(v := x)) = same_off T \<sigma> \<tau>"
  by (auto simp: same_off_def)

lemma value_of_same: "same_off T \<sigma> \<tau> \<Longrightarrow> v \<notin> T \<Longrightarrow> value_of m \<sigma> v = value_of m \<tau> v"
  by (simp add: same_off_def value_of_def split: option.splits)

definition vars_of_inst :: "variable instruction \<Rightarrow> variable set" where
  "vars_of_inst inst = set_option (i_out inst) \<union> set_operation (i_operation inst)"

text \<open>
  What the compiler relies on: an instruction acts on the variables it names, whatever the temporaries
  hold, and a comparison does no more than give its output a value that depends on its operands.
\<close>

locale kernel_machine =
  fixes m :: "'v machine" and T :: "variable set"
  assumes effect_same: "vars_of_inst inst \<inter> T = {} \<Longrightarrow> same_off T \<sigma> \<tau> \<Longrightarrow> same_off T (mc_effect m inst \<sigma>) (mc_effect m inst \<tau>)"
    and comparison_effect: "mc_effect m (instruction_new (ComparisonO c) v) \<sigma> = \<sigma>(v := mc_eval m (ComparisonO c) \<sigma>)"
    and comparison_same: "set_comparison c \<inter> T = {} \<Longrightarrow> same_off T \<sigma> \<tau> \<Longrightarrow> mc_eval m (ComparisonO c) \<sigma> = mc_eval m (ComparisonO c) \<tau>"

section \<open>Graphs\<close>

fun branch_target :: "'v machine \<Rightarrow> program \<Rightarrow> node_index \<Rightarrow> control_flow \<Rightarrow> 'v env \<Rightarrow> node_index option" where
  "branch_target m p n (IfElseF cond t e _) \<sigma> = Some (if truth m \<sigma> cond then t else e)"
| "branch_target m p n (SwitchF v d bs _) \<sigma> =
     Some (case find (\<lambda>b. fst b = label_of m \<sigma> v) bs of Some b \<Rightarrow> snd b | None \<Rightarrow> d)"
| "branch_target m p n (LoopF b _ _) \<sigma> = Some b"
| "branch_target m p n (LoopBreakF cond b _ e) \<sigma> = Some (if truth m \<sigma> cond then b else e)"
| "branch_target m p n ReturnF \<sigma> = None"
| "branch_target m p n NoneF \<sigma> = (case successors p n of [t] \<Rightarrow> Some t | _ \<Rightarrow> None)"

definition phi_value :: "'v machine \<Rightarrow> node_index \<Rightarrow> 'v env \<Rightarrow> phi_instruction \<Rightarrow> 'v option" where
  "phi_value m from \<sigma> phi = map_option (\<lambda>e. value_of m \<sigma> (pe_value e)) (find (\<lambda>e. pe_block e = from) (phi_entries phi))"

definition assign_all :: "(variable \<times> 'v) list \<Rightarrow> 'v env \<Rightarrow> 'v env" where
  "assign_all vs \<sigma> = fold (\<lambda>(v, x) \<sigma>. \<sigma>(v := x)) vs \<sigma>"

definition enter :: "'v machine \<Rightarrow> program \<Rightarrow> node_index \<Rightarrow> node_index \<Rightarrow> 'v env \<Rightarrow> 'v env option" where
  "enter m p from to \<sigma> =
     (case map_of (pg_nodes p) to of
        None \<Rightarrow> None
      | Some b \<Rightarrow>
          if to \<notin> set (successors p from) \<or> (\<exists>phi \<in> set (bb_phi_nodes b). phi_value m from \<sigma> phi = None) then None
          else Some (assign_all (map (\<lambda>phi. (phi_out phi, the (phi_value m from \<sigma> phi))) (bb_phi_nodes b)) \<sigma>))"

fun grun :: "'v machine \<Rightarrow> program \<Rightarrow> nat \<Rightarrow> node_index \<Rightarrow> nat \<Rightarrow> 'v env \<Rightarrow> 'v env option" where
  "grun m p 0 n i \<sigma> = None"
| "grun m p (Suc k) n i \<sigma> =
     (case map_of (pg_nodes p) n of
        None \<Rightarrow> None
      | Some b \<Rightarrow>
          let \<sigma> = fold (mc_effect m) (drop i (bb_ops b)) \<sigma> in
          if bb_control_flow b = ReturnF then Some \<sigma>
          else case branch_target m p n (bb_control_flow b) \<sigma> of
                 None \<Rightarrow> None
               | Some t \<Rightarrow> (case enter m p n t \<sigma> of None \<Rightarrow> None | Some \<sigma> \<Rightarrow> grun m p k t 0 \<sigma>))"

definition graph_ends :: "'v machine \<Rightarrow> program \<Rightarrow> 'v env \<Rightarrow> 'v env \<Rightarrow> bool" where
  "graph_ends m p \<sigma> \<tau> = (\<exists>k. grun m p k (pg_root p) 0 \<sigma> = Some \<tau>)"

lemma grun_more: "grun m p k n i \<sigma> = Some \<tau> \<Longrightarrow> grun m p (j + k) n i \<sigma> = Some \<tau>"
proof (induction k arbitrary: n i \<sigma>)
  case (Suc k)
  then show ?case by (fastforce simp: Let_def split: option.splits if_splits)
qed simp

lemma grun_deterministic:
  assumes "grun m p k n i \<sigma> = Some \<tau>" "grun m p k' n i \<sigma> = Some \<tau>'"
  shows "\<tau> = \<tau>'"
  using grun_more [OF assms(1), of k'] grun_more [OF assms(2), of k] by (simp add: add.commute)

declare grun.simps(2) [simp del]

section \<open>Scopes\<close>

datatype 'v flow = Timeout | Falls "'v env" | Breaks "'v env" | Returns "'v env"

definition scope_insts :: "variable scope \<Rightarrow> variable instruction list" where
  "scope_insts sc = (case mapE sanitize_instruction (sc_instructions sc) of Ret insts \<Rightarrow> insts | _ \<Rightarrow> [])"

definition and_then :: "'v flow \<Rightarrow> ('v env \<Rightarrow> 'v flow) \<Rightarrow> 'v flow" where
  "and_then r f = (case r of Falls \<sigma> \<Rightarrow> f \<sigma> | _ \<Rightarrow> r)"

fun run_loop :: "nat \<Rightarrow> ('v env \<Rightarrow> 'v flow) \<Rightarrow> 'v env \<Rightarrow> 'v flow" where
  "run_loop 0 body \<sigma> = Timeout"
| "run_loop (Suc n) body \<sigma> =
     (case body \<sigma> of
        Falls \<sigma>' \<Rightarrow> run_loop n body \<sigma>'
      | Breaks \<sigma>' \<Rightarrow> Falls \<sigma>'
      | r \<Rightarrow> r)"

type_synonym 'v scope_runner = "variable scope \<Rightarrow> 'v env \<Rightarrow> 'v flow"

text \<open>
  One pass of \<open>for i in start..stop\<close>: the test, the body, the step. The loop goes on while \<open>i < stop\<close>, or
  \<open>i \<le> stop\<close> when it is inclusive, and counts by \<open>step\<close>, or by one. These are written without reference to the
  instructions the parser of loops emits; that those agree is \<open>loop_test_goes_on\<close> and \<open>loop_step_counts\<close>.
\<close>

fun goes_on :: "variable \<Rightarrow> variable \<Rightarrow> bool \<Rightarrow> variable operation" where
  "goes_on i stop False = ComparisonO (Lower (BinaryOperator i stop))"
| "goes_on i stop True = ComparisonO (LowerEqual (BinaryOperator i stop))"

fun counts :: "variable \<Rightarrow> variable option \<Rightarrow> variable instruction" where
  "counts i None = Instruction (Some i) None (ArithmeticO (Add (BinaryOperator i (variable_constant (IntC 1 I32)))))"
| "counts i (Some step) = Instruction (Some i) None (ArithmeticO (Add (BinaryOperator i step)))"

lemma loop_test_goes_on [simp]: "goes_on i stop inclusive = loop_test inclusive i stop"
  by (cases inclusive) (simp_all add: loop_test_def)

lemma loop_step_counts [simp]: "counts i step = loop_step i step"
  by (cases step) (simp_all add: loop_step_def instruction_new_def variable_from_i32_def)

definition run_pass ::
  "'v machine \<Rightarrow> 'v scope_runner \<Rightarrow> variable \<Rightarrow> variable \<Rightarrow> variable option \<Rightarrow> bool \<Rightarrow> variable scope \<Rightarrow> 'v env \<Rightarrow> 'v flow" where
  "run_pass m rs i stop step inclusive sc \<sigma> =
     (if mc_true m (mc_eval m (goes_on i stop inclusive) \<sigma>)
      then and_then (rs sc \<sigma>) (\<lambda>\<sigma>. Falls (mc_effect m (counts i step) \<sigma>))
      else Breaks \<sigma>)"

definition pick_case :: "u32 \<Rightarrow> variable scope \<Rightarrow> (variable \<times> variable scope) list \<Rightarrow> variable scope" where
  "pick_case l dflt cases =
     (case find (\<lambda>c. switch_label (fst c) = Ret l) cases of Some c \<Rightarrow> snd c | None \<Rightarrow> dflt)"

fun run_branch :: "'v machine \<Rightarrow> nat \<Rightarrow> 'v scope_runner \<Rightarrow> variable branch \<Rightarrow> 'v env \<Rightarrow> 'v flow" where
  "run_branch m f rs (IfB cond sc) \<sigma> = (if truth m \<sigma> cond then rs sc \<sigma> else Falls \<sigma>)"
| "run_branch m f rs (IfElseB cond sc1 sc2) \<sigma> = (if truth m \<sigma> cond then rs sc1 \<sigma> else rs sc2 \<sigma>)"
| "run_branch m f rs (SwitchB v dflt cases) \<sigma> = rs (pick_case (label_of m \<sigma> v) dflt cases) \<sigma>"
| "run_branch m f rs (RangeLoopB i start stop step inclusive sc) \<sigma> =
     run_loop f (run_pass m rs i stop step inclusive sc) (mc_effect m (instruction_new (CopyO start) i) \<sigma>)"
| "run_branch m f rs (LoopB sc) \<sigma> = run_loop f (rs sc) \<sigma>"
| "run_branch m f rs ReturnB \<sigma> = Returns \<sigma>"
| "run_branch m f rs BreakB \<sigma> = Breaks \<sigma>"

definition run_inst :: "'v machine \<Rightarrow> nat \<Rightarrow> 'v scope_runner \<Rightarrow> variable instruction \<Rightarrow> 'v env \<Rightarrow> 'v flow" where
  "run_inst m f rs inst \<sigma> =
     (case i_operation inst of BranchO b \<Rightarrow> run_branch m f rs b \<sigma> | _ \<Rightarrow> Falls (mc_effect m inst \<sigma>))"

fun run_insts :: "'v machine \<Rightarrow> nat \<Rightarrow> 'v scope_runner \<Rightarrow> variable instruction list \<Rightarrow> 'v env \<Rightarrow> 'v flow" where
  "run_insts m f rs [] \<sigma> = Falls \<sigma>"
| "run_insts m f rs (inst # insts) \<sigma> = and_then (run_inst m f rs inst \<sigma>) (run_insts m f rs insts)"

primrec run_scope :: "'v machine \<Rightarrow> nat \<Rightarrow> 'v scope_runner" where
  "run_scope m 0 = (\<lambda>sc \<sigma>. Timeout)"
| "run_scope m (Suc f) = (\<lambda>sc \<sigma>. run_insts m f (run_scope m f) (scope_insts sc) \<sigma>)"

definition scope_ends :: "'v machine \<Rightarrow> variable scope \<Rightarrow> 'v env \<Rightarrow> 'v env \<Rightarrow> bool" where
  "scope_ends m sc \<sigma> \<tau> = (\<exists>f. run_scope m f sc \<sigma> = Falls \<tau> \<or> run_scope m f sc \<sigma> = Returns \<tau>)"

end
