(* ===== verification/Opt_Lowered.thy ===== *)
theory Opt_Lowered
  imports Opt_Graph_Semantics
begin

text \<open>
  The shape of a graph that implements a list of instructions, \<open>lowers\<close>, one rule per kind of
  instruction, and the simulation: a graph of that shape runs like the instructions.
\<close>

section \<open>Blocks of a graph\<close>

abbreviation node_of :: "program \<Rightarrow> node_index \<Rightarrow> basic_block option" where
  "node_of G \<equiv> map_of (pg_nodes G)"

text \<open>The node \<open>n\<close> of \<open>N\<close> has \<open>i\<close> instructions and ends with the control flow \<open>cf\<close>.\<close>

definition ends :: "program \<Rightarrow> node_index set \<Rightarrow> node_index \<Rightarrow> nat \<Rightarrow> control_flow \<Rightarrow> bool" where
  "ends G N n i cf = (n \<in> N \<and> (\<exists>b. node_of G n = Some b \<and> length (bb_ops b) = i \<and> bb_control_flow b = cf))"

definition jumps :: "program \<Rightarrow> node_index set \<Rightarrow> node_index \<Rightarrow> nat \<Rightarrow> node_index \<Rightarrow> bool" where
  "jumps G N n i t = (ends G N n i NoneF \<and> successors G n = [t])"

definition op_at :: "program \<Rightarrow> node_index set \<Rightarrow> node_index \<Rightarrow> nat \<Rightarrow> variable instruction \<Rightarrow> bool" where
  "op_at G N n i inst = (n \<in> N \<and> (\<exists>b. node_of G n = Some b \<and> i < length (bb_ops b) \<and> bb_ops b ! i = inst))"

type_synonym block_position = "node_index \<times> nat"

definition joins :: "program \<Rightarrow> node_index set \<Rightarrow> block_position option \<Rightarrow> node_index \<Rightarrow> bool" where
  "joins G N q t = (case q of None \<Rightarrow> True | Some p \<Rightarrow> jumps G N (fst p) (snd p) t)"

definition is_branch :: "variable instruction \<Rightarrow> bool" where
  "is_branch inst = (case i_operation inst of BranchO _ \<Rightarrow> True | _ \<Rightarrow> False)"

section \<open>Lowered instructions\<close>

text \<open>
  \<open>lowers G T R N brk p insts q\<close>: the graph \<open>G\<close> implements \<open>insts\<close> from the position \<open>p\<close> on and
  falls through at \<open>q\<close>, or never when \<open>q\<close> is \<open>None\<close>. It breaks to \<open>brk\<close>, returns to blocks in \<open>R\<close>,
  uses no blocks but \<open>N\<close> and writes temporaries of \<open>T\<close>.
\<close>

inductive lowers ::
  "program \<Rightarrow> variable set \<Rightarrow> node_index set \<Rightarrow> node_index set \<Rightarrow> node_index option \<Rightarrow> block_position \<Rightarrow>
     variable instruction list \<Rightarrow> block_position option \<Rightarrow> bool"
  for G T R N where
  Done: "lowers G T R N brk p [] (Some p)"
| Plain: "op_at G N b i inst \<Longrightarrow> \<not> is_branch inst \<Longrightarrow> lowers G T R N brk (b, Suc i) insts q \<Longrightarrow>
    lowers G T R N brk (b, i) (inst # insts) q"
| Return: "i_operation inst = BranchO ReturnB \<Longrightarrow> jumps G N b i r \<Longrightarrow> r \<in> R \<Longrightarrow>
    lowers G T R N brk (b, i) (inst # insts) None"
| Break: "i_operation inst = BranchO BreakB \<Longrightarrow> jumps G N b i t \<Longrightarrow>
    lowers G T R N (Some t) (b, i) (inst # insts) None"
| If: "i_operation inst = BranchO (IfB cond sc) \<Longrightarrow> ends G N b i (IfElseF cond thn nxt mrg) \<Longrightarrow>
    {thn, nxt} \<subseteq> set (successors G b) \<Longrightarrow>
    lowers G T R N brk (thn, 0) (scope_insts sc) q1 \<Longrightarrow> joins G N q1 nxt \<Longrightarrow>
    lowers G T R N brk (nxt, 0) insts q \<Longrightarrow> lowers G T R N brk (b, i) (inst # insts) q"
| IfElse: "i_operation inst = BranchO (IfElseB cond sc1 sc2) \<Longrightarrow> ends G N b i (IfElseF cond thn els mrg) \<Longrightarrow>
    {thn, els} \<subseteq> set (successors G b) \<Longrightarrow>
    lowers G T R N brk (thn, 0) (scope_insts sc1) q1 \<Longrightarrow> joins G N q1 nxt \<Longrightarrow>
    lowers G T R N brk (els, 0) (scope_insts sc2) q2 \<Longrightarrow> joins G N q2 nxt \<Longrightarrow>
    lowers G T R N brk (nxt, 0) insts q \<Longrightarrow> lowers G T R N brk (b, i) (inst # insts) q"
| Switch: "i_operation inst = BranchO (SwitchB v sc cases) \<Longrightarrow> ends G N b i (SwitchF v d bs mrg) \<Longrightarrow>
    insert d (snd ` set bs) \<subseteq> set (successors G b) \<Longrightarrow>
    lowers G T R N brk (d, 0) (scope_insts sc) q1 \<Longrightarrow> joins G N q1 nxt \<Longrightarrow>
    list_all2 (\<lambda>c t. switch_label (fst c) = Ret (fst t) \<and>
      (\<exists>q2. lowers G T R N brk (snd t, 0) (scope_insts (snd c)) q2 \<and> joins G N q2 nxt)) cases bs \<Longrightarrow>
    lowers G T R N brk (nxt, 0) insts q \<Longrightarrow> lowers G T R N brk (b, i) (inst # insts) q"
| Loop: "i_operation inst = BranchO (LoopB sc) \<Longrightarrow> jumps G N b i h \<Longrightarrow> ends G N h 0 (LoopF body cont nxt) \<Longrightarrow>
    body \<in> set (successors G h) \<Longrightarrow>
    lowers G T R N (Some nxt) (body, 0) (scope_insts sc) q1 \<Longrightarrow> joins G N q1 cont \<Longrightarrow> jumps G N cont 0 h \<Longrightarrow>
    lowers G T R N brk (nxt, 0) insts q \<Longrightarrow> lowers G T R N brk (b, i) (inst # insts) q"
| For: "i_operation inst = BranchO (RangeLoopB v start stop step inclusive sc) \<Longrightarrow>
    op_at G N b i (instruction_new (CopyO start) v) \<Longrightarrow> jumps G N b (Suc i) h \<Longrightarrow>
    op_at G N h 0 (instruction_new (loop_test inclusive v stop) tmp) \<Longrightarrow> tmp \<in> T \<Longrightarrow> as_const tmp = None \<Longrightarrow>
    ends G N h 1 (LoopBreakF tmp body cont nxt) \<Longrightarrow> {body, nxt} \<subseteq> set (successors G h) \<Longrightarrow>
    lowers G T R N (Some nxt) (body, 0) (scope_insts sc) (Some (c, j)) \<Longrightarrow>
    op_at G N c j (loop_step v step) \<Longrightarrow>
    jumps G N c (Suc j) h \<or> jumps G N c (Suc j) cont \<and> jumps G N cont 0 h \<Longrightarrow>
    lowers G T R N brk (nxt, 0) insts q \<Longrightarrow> lowers G T R N brk (b, i) (inst # insts) q"

section \<open>Steps of a graph\<close>

text \<open>Every edge can be taken and changes nothing, and the blocks \<open>R\<close> return.\<close>

definition graph_ok :: "'v machine \<Rightarrow> program \<Rightarrow> node_index set \<Rightarrow> bool" where
  "graph_ok m G R \<longleftrightarrow>
     (\<forall>n t \<sigma>. t \<in> set (successors G n) \<longrightarrow> enter m G n t \<sigma> = Some \<sigma>) \<and>
     (\<forall>r \<in> R. \<exists>k. \<forall>\<sigma>. grun m G k r 0 \<sigma> = Some \<sigma>)"

lemma grun_op:
  assumes "op_at G N b i inst"
  shows "grun m G k b i \<tau> = grun m G k b (Suc i) (mc_effect m inst \<tau>)"
proof -
  from assms obtain bb where "node_of G b = Some bb" "drop i (bb_ops bb) = inst # drop (Suc i) (bb_ops bb)"
    by (auto simp: op_at_def Cons_nth_drop_Suc)
  then show ?thesis by (cases k) (simp_all add: grun.simps(2))
qed

lemma grun_step:
  assumes "ends G N b i cf" "branch_target m G b cf \<tau> = Some t" "cf \<noteq> ReturnF" "t \<in> set (successors G b)"
    and "graph_ok m G R"
  shows "grun m G (Suc k) b i \<tau> = grun m G k t 0 \<tau>"
proof -
  from assms(1) obtain bb where "node_of G b = Some bb" "drop i (bb_ops bb) = []" "bb_control_flow bb = cf"
    by (auto simp: ends_def)
  then show ?thesis using assms by (simp add: graph_ok_def grun.simps(2))
qed

lemma grun_jump:
  assumes "jumps G N b i t" "graph_ok m G R"
  shows "grun m G (Suc k) b i \<tau> = grun m G k t 0 \<tau>"
  using assms by (intro grun_step) (auto simp: jumps_def)

section \<open>Simulation\<close>

text \<open>
  The graph, started at a position with \<open>\<tau>\<close>, follows the outcome of a structured run with \<open>f\<close> steps. When
  the run times out, \<open>f\<close> steps are not enough for the graph either.
\<close>

definition follows ::
  "'v machine \<Rightarrow> program \<Rightarrow> variable set \<Rightarrow> node_index option \<Rightarrow> block_position option \<Rightarrow> nat \<Rightarrow> node_index \<Rightarrow> nat \<Rightarrow> 'v env \<Rightarrow> 'v flow \<Rightarrow> bool" where
  "follows m G T brk q f b i \<tau> r =
     (case r of
        Timeout \<Rightarrow> grun m G f b i \<tau> = None
      | Falls \<sigma>' \<Rightarrow> (\<exists>d p \<tau>'. q = Some p \<and> same_off T \<sigma>' \<tau>' \<and> (\<forall>k. grun m G (d + k) b i \<tau> = grun m G k (fst p) (snd p) \<tau>'))
      | Breaks \<sigma>' \<Rightarrow> (\<exists>d t \<tau>'. brk = Some t \<and> same_off T \<sigma>' \<tau>' \<and> (\<forall>k. grun m G (d + k) b i \<tau> = grun m G k t 0 \<tau>'))
      | Returns \<sigma>' \<Rightarrow> (\<exists>d \<tau>'. same_off T \<sigma>' \<tau>' \<and> grun m G d b i \<tau> = Some \<tau>'))"

lemma grun_None_back:
  assumes "\<And>k. grun m G (d + k) b i \<tau> = grun m G k c j \<tau>'" "grun m G f c j \<tau>' = None"
  shows "grun m G f b i \<tau> = None"
proof (rule ccontr)
  assume "grun m G f b i \<tau> \<noteq> None"
  then obtain x where "grun m G f b i \<tau> = Some x" by auto
  then have "grun m G (d + f) b i \<tau> = Some x" by (rule grun_more)
  with assms show False by simp
qed

text \<open>Steps taken first keep what follows.\<close>

lemma follows_after:
  assumes "\<And>k. grun m G (d + k) b i \<tau> = grun m G k c j \<tau>'" "follows m G T brk q f c j \<tau>' r"
  shows "follows m G T brk q f b i \<tau> r"
proof (cases r)
  case Timeout
  then show ?thesis using assms grun_None_back [OF assms(1)] by (simp add: follows_def)
next
  case (Falls \<sigma>')
  with assms(2) obtain d' p \<tau>'' where "q = Some p" "same_off T \<sigma>' \<tau>''"
    "\<And>k. grun m G (d' + k) c j \<tau>' = grun m G k (fst p) (snd p) \<tau>''" by (simp add: follows_def del: split_paired_Ex) blast
  then show ?thesis using assms(1) Falls by (auto simp: follows_def add.assoc intro!: exI [of _ "d + d'"])
next
  case (Breaks \<sigma>')
  with assms(2) obtain d' t \<tau>'' where "brk = Some t" "same_off T \<sigma>' \<tau>''"
    "\<And>k. grun m G (d' + k) c j \<tau>' = grun m G k t 0 \<tau>''" by (auto simp: follows_def)
  then show ?thesis using assms(1) Breaks by (auto simp: follows_def add.assoc intro!: exI [of _ "d + d'"])
next
  case (Returns \<sigma>')
  with assms(2) obtain d' \<tau>'' where "same_off T \<sigma>' \<tau>''" "grun m G d' c j \<tau>' = Some \<tau>''"
    by (auto simp: follows_def)
  then show ?thesis using assms(1) Returns by (auto simp: follows_def intro!: exI [of _ "d + d'"])
qed

text \<open>One more step of the graph pays for one more step of the run.\<close>

lemma follows_enter:
  assumes step: "\<And>k. grun m G (Suc k) b i \<tau> = grun m G k t 0 \<tau>'"
    and run: "\<And>g. f = Suc g \<Longrightarrow> follows m G T brk q g t 0 \<tau>' (run_insts m g (run_scope m g) (scope_insts sc) \<sigma>)"
  shows "follows m G T brk q f b i \<tau> (run_scope m f sc \<sigma>)"
proof (cases f)
  case (Suc g)
  let ?r = "run_insts m g (run_scope m g) (scope_insts sc) \<sigma>"
  have at: "grun m G (1 + k) b i \<tau> = grun m G k t 0 \<tau>'" for k using step by simp
  have fol: "follows m G T brk q g t 0 \<tau>' ?r" using run Suc by simp
  show ?thesis
  proof (cases "?r = Timeout")
    case True
    then have "grun m G g t 0 \<tau>' = None" using fol by (simp add: follows_def)
    with True show ?thesis by (simp add: Suc follows_def step)
  next
    case False
    with follows_after [OF at fol] show ?thesis by (auto simp: Suc follows_def split: flow.splits)
  qed
qed (simp add: follows_def)

lemma follows_bind:
  assumes first: "follows m G T brk q1 f b i \<tau> r"
    and rest: "\<And>p \<sigma>' \<tau>'. q1 = Some p \<Longrightarrow> same_off T \<sigma>' \<tau>' \<Longrightarrow> follows m G T brk q f (fst p) (snd p) \<tau>' (run \<sigma>')"
  shows "follows m G T brk q f b i \<tau> (and_then r run)"
proof (cases r)
  case (Falls \<sigma>')
  with first obtain d p \<tau>' where p: "q1 = Some p" "same_off T \<sigma>' \<tau>'"
    "\<And>k. grun m G (d + k) b i \<tau> = grun m G k (fst p) (snd p) \<tau>'" by (simp add: follows_def del: split_paired_Ex) blast
  from follows_after [OF p(3) rest [OF p(1,2)]] Falls show ?thesis by (simp add: and_then_def)
qed (use first in \<open>simp_all add: follows_def and_then_def\<close>)

lemma follows_jump:
  assumes "jumps G N b i t" "graph_ok m G R" "follows m G T brk q f t 0 \<tau> r"
  shows "follows m G T brk q f b i \<tau> r"
  using grun_jump [OF assms(1,2)] by (intro follows_after [OF _ assms(3), of 1]) simp

lemma follows_seq:
  assumes "follows m G T brk q1 f b i \<tau> r" and join: "joins G N q1 nxt" and ok: "graph_ok m G R"
    and rest: "\<And>\<sigma>' \<tau>'. same_off T \<sigma>' \<tau>' \<Longrightarrow> follows m G T brk q f nxt 0 \<tau>' (run \<sigma>')"
  shows "follows m G T brk q f b i \<tau> (and_then r run)"
  using assms(1) by (rule follows_bind) (use join in \<open>auto simp: joins_def intro!: follows_jump [OF _ ok rest]\<close>)

section \<open>Names the processing keeps\<close>

lemma sanitize_ref_in:
  assumes "\<forall>v \<in> T. as_const v = None"
  shows "sanitize_constant_scalar_ref_elem v e \<in> T \<longleftrightarrow> v \<in> T"
    "sanitize_constant_scalar_ref_var v r \<in> T \<longleftrightarrow> v \<in> T"
proof -
  have const: "variable_constant c \<notin> T" for c
    using assms by force
  show "sanitize_constant_scalar_ref_elem v e \<in> T \<longleftrightarrow> v \<in> T" for e
  proof (cases "as_const v")
    case None
    then have "sanitize_constant_scalar_ref_elem v e = v"
      by (auto simp: sanitize_constant_scalar_ref_elem_def as_const_def split: variable_kind.splits)
    then show ?thesis by simp
  next
    case (Some c)
    with assms have v: "v \<notin> T" by auto
    with Some have "sanitize_constant_scalar_ref_elem v e \<notin> T"
      using const
      by (auto simp: sanitize_constant_scalar_ref_elem_def as_const_Some constant_from_f64_def constant_from_i64_def
          constant_from_u64_def constant_from_bool_def split: constant_scalar_value.splits)
    with v show ?thesis by simp
  qed
  then show "sanitize_constant_scalar_ref_var v r \<in> T \<longleftrightarrow> v \<in> T"
    by (simp add: sanitize_constant_scalar_ref_var_def)
qed

lemma sanitize_operation_avoids:
  assumes san: "sanitize_operation v op = Ret op'" and T: "\<forall>v \<in> T. as_const v = None"
    and op: "set_operation op \<inter> T = {}"
  shows "set_operation op' \<inter> T = {}"
proof -
  have bulk: "set_copy_memory_bulk_operator x = {cb_out_index x, cb_input x, cb_in_index x, cb_len x, cb_offset_input x, cb_offset_out x}"
    for x :: "variable copy_memory_bulk_operator" by (cases x) auto
  note [simp] = sanitize_ref_in [OF T] bulk
  show ?thesis
  proof (cases op)
    case (ArithmeticO x)
    then show ?thesis using san op
      by (cases x) (auto simp: with_out_def bindE_eq_Ret sanitize_binary_def sanitize_unary_def)
  next
    case (ComparisonO x)
    then show ?thesis using san op
      by (cases x) (auto simp: sanitize_mutual_def Let_def)
  next
    case (BitwiseO x)
    then show ?thesis using san op
      by (cases x) (auto simp: with_out_def bindE_eq_Ret sanitize_binary_def sanitize_unary_def)
  next
    case (OperatorO x)
    then show ?thesis using san op
      by (cases x) (auto simp: with_out_def bindE_eq_Ret sanitize_binary_def sanitize_unary_def sanitize_index_def
          sanitize_index_assign_def sanitize_mutual_def Let_def)
  next
    case (AtomicO x)
    then show ?thesis using san op
      by (cases x) (auto simp: with_out_def bindE_eq_Ret sanitize_rhs_def)
  next
    case (MetadataO x)
    then show ?thesis using san op by (cases x) auto
  next
    case (BranchO x)
    then show ?thesis using san op by (cases x) (auto simp: option.set_map)
  next
    case (CoopMmaO x)
    then show ?thesis using san op by (cases x) (auto simp: with_out_def bindE_eq_Ret)
  qed (use san op in \<open>auto simp: with_out_def bindE_eq_Ret\<close>)
qed

definition avoids :: "variable set \<Rightarrow> variable instruction list \<Rightarrow> bool" where
  "avoids T insts = (\<forall>inst \<in> set insts. vars_of_inst inst \<inter> T = {})"

lemma sanitized_avoids:
  assumes T: "\<forall>v \<in> T. as_const v = None" and san: "sanitize_instruction x = Ret y" and x: "set_instruction x \<inter> T = {}"
  shows "vars_of_inst y \<inter> T = {}"
proof -
  from san obtain op where op: "sanitize_operation (i_out x) (i_operation x) = Ret op" "y = with_operation x op"
    by (auto simp: sanitize_instruction_def bindE_eq_Ret)
  have "set_option (i_out x) \<inter> T = {}" "set_operation (i_operation x) \<inter> T = {}" using x by (cases x; auto)+
  with sanitize_operation_avoids [OF op(1) T] op(2) show ?thesis by (auto simp: vars_of_inst_def)
qed

lemma list_all2_right: "list_all2 P xs ys \<Longrightarrow> y \<in> set ys \<Longrightarrow> \<exists>x \<in> set xs. P x y"
  by (induction rule: list_all2_induct) auto

lemma scope_insts_avoid:
  assumes T: "\<forall>v \<in> T. as_const v = None" and sc: "set_scope sc \<inter> T = {}"
  shows "avoids T (scope_insts sc)"
proof (cases "mapE sanitize_instruction (sc_instructions sc)")
  case (Ret insts)
  have "set_instruction x \<inter> T = {}" if "x \<in> set (sc_instructions sc)" for x
    using sc that by (cases sc) auto
  then have "vars_of_inst y \<inter> T = {}" if "y \<in> set insts" for y
    using list_all2_right [OF Ret [unfolded mapE_Ret] that] sanitized_avoids [OF T] by blast
  then show ?thesis by (simp add: avoids_def scope_insts_def Ret)
qed (simp_all add: avoids_def scope_insts_def)

lemma branch_avoids:
  assumes "\<forall>v \<in> T. as_const v = None" "set_branch b \<inter> T = {}" "sc \<in> set (branch_scopes b)"
  shows "avoids T (scope_insts sc)"
proof (rule scope_insts_avoid [OF assms(1)])
  show "set_scope sc \<inter> T = {}" using assms(2,3) by (cases b) (auto, fastforce+)
qed

section \<open>Loops\<close>

lemma loop_follows:
  assumes pass: "\<And>\<sigma> \<tau>. same_off T \<sigma> \<tau> \<Longrightarrow> \<exists>c j \<tau>1. (\<forall>k. grun m G (Suc k) h 0 \<tau> = grun m G k c j \<tau>1) \<and>
      follows m G T (Some nxt) (Some (h, 0)) g c j \<tau>1 (body \<sigma>)"
    and "same_off T \<sigma> \<tau>" "n \<le> Suc g"
  shows "follows m G T brk (Some (nxt, 0)) n h 0 \<tau> (run_loop n body \<sigma>)"
  using assms(2,3)
proof (induction n arbitrary: \<sigma> \<tau>)
  case 0
  then show ?case by (simp add: follows_def)
next
  case (Suc n)
  obtain c j \<tau>1 where step: "\<And>k. grun m G (Suc k) h 0 \<tau> = grun m G k c j \<tau>1"
    and fol: "follows m G T (Some nxt) (Some (h, 0)) g c j \<tau>1 (body \<sigma>)" using pass [OF Suc.prems(1)] by blast
  show ?case
  proof (cases "body \<sigma>")
    case Timeout
    with fol have "grun m G (Suc g) h 0 \<tau> = None" by (simp add: follows_def step)
    then have "grun m G (Suc n) h 0 \<tau> = None"
      using Suc.prems(2) grun_more [of m G "Suc n" h 0 \<tau> _ "g - n"] by (cases "grun m G (Suc n) h 0 \<tau>") auto
    with Timeout show ?thesis by (simp add: follows_def)
  next
    case (Falls \<sigma>')
    with fol obtain d \<tau>' where d: "same_off T \<sigma>' \<tau>'" "\<And>k. grun m G (d + k) c j \<tau>1 = grun m G k h 0 \<tau>'"
      by (auto simp: follows_def)
    have at: "grun m G (Suc d + k) h 0 \<tau> = grun m G k h 0 \<tau>'" for k using step d(2) by simp
    have IH: "follows m G T brk (Some (nxt, 0)) n h 0 \<tau>' (run_loop n body \<sigma>')"
      using Suc.IH [OF d(1)] Suc.prems(2) by simp
    show ?thesis
    proof (cases "run_loop n body \<sigma>' = Timeout")
      case True
      with IH have "grun m G (Suc d + n) h 0 \<tau> = None" using at [of n] by (simp add: follows_def)
      then have "grun m G (Suc n) h 0 \<tau> = None"
        using grun_more [of m G "Suc n" h 0 \<tau> _ d] by (cases "grun m G (Suc n) h 0 \<tau>") (auto simp: add.commute)
      with True Falls show ?thesis by (simp add: follows_def)
    next
      case False
      with follows_after [OF at IH] Falls show ?thesis by (auto simp: follows_def split: flow.splits)
    qed
  next
    case (Breaks \<sigma>')
    with fol obtain d \<tau>' where "same_off T \<sigma>' \<tau>'" "\<And>k. grun m G (d + k) c j \<tau>1 = grun m G k nxt 0 \<tau>'"
      by (auto simp: follows_def)
    then show ?thesis using Breaks step by (auto simp: follows_def intro!: exI [of _ "Suc d"])
  next
    case (Returns \<sigma>')
    with fol obtain d \<tau>' where "same_off T \<sigma>' \<tau>'" "grun m G d c j \<tau>1 = Some \<tau>'"
      by (auto simp: follows_def)
    then show ?thesis using Returns step by (auto simp: follows_def intro!: exI [of _ "Suc d"])
  qed
qed

section \<open>A lowered graph runs like its instructions\<close>

lemma find_case:
  assumes "list_all2 (\<lambda>c t. switch_label (fst c) = Ret (fst t) \<and> P c t) cases bs"
  shows "case find (\<lambda>b. fst b = l) bs of
      None \<Rightarrow> find (\<lambda>c. switch_label (fst c) = Ret l) cases = None
    | Some b \<Rightarrow> b \<in> set bs \<and> (\<exists>c \<in> set cases. find (\<lambda>c. switch_label (fst c) = Ret l) cases = Some c \<and> P c b)"
  using assms by (induction rule: list_all2_induct) (auto split: option.splits)

lemma avoids_Cons: "avoids T (inst # insts) \<longleftrightarrow> vars_of_inst inst \<inter> T = {} \<and> avoids T insts"
  by (auto simp: avoids_def)

text \<open>One step into a scope, the scope, and what comes after it.\<close>

lemma scope_then:
  assumes "\<And>k. grun m G (Suc k) b i \<tau> = grun m G k t 0 \<tau>'"
    and "\<And>g. follows m G T brk q1 g t 0 \<tau>' (run_insts m g (run_scope m g) (scope_insts sc) \<sigma>)"
    and "joins G N q1 nxt" "graph_ok m G R"
    and "\<And>\<sigma>' \<tau>'. same_off T \<sigma>' \<tau>' \<Longrightarrow> follows m G T brk q f nxt 0 \<tau>' (run \<sigma>')"
  shows "follows m G T brk q f b i \<tau> (and_then (run_scope m f sc \<sigma>) run)"
  by (rule follows_seq [OF follows_enter [OF assms(1,2)] assms(3,4) assms(5)])

lemma find_in_set: "find P xs = Some x \<Longrightarrow> x \<in> set xs"
  by (auto simp: find_Some_iff)

lemma switch_then:
  assumes step: "\<And>k. grun m G (Suc k) b i \<tau> = grun m G k (case find (\<lambda>b. fst b = l) bs of Some b \<Rightarrow> snd b | None \<Rightarrow> d) 0 \<tau>"
    and dflt: "\<And>g. follows m G T brk q1 g d 0 \<tau> (run_insts m g (run_scope m g) (scope_insts sc) \<sigma>)" "joins G N q1 nxt"
    and cases: "list_all2 (\<lambda>c t. switch_label (fst c) = Ret (fst t) \<and> (\<exists>q2. joins G N q2 nxt \<and>
        (\<forall>g. follows m G T brk q2 g (snd t) 0 \<tau> (run_insts m g (run_scope m g) (scope_insts (snd c)) \<sigma>)))) cases bs"
    and ok: "graph_ok m G R"
    and rest: "\<And>\<sigma>' \<tau>'. same_off T \<sigma>' \<tau>' \<Longrightarrow> follows m G T brk q f nxt 0 \<tau>' (run \<sigma>')"
  shows "follows m G T brk q f b i \<tau> (and_then (run_scope m f (pick_case l sc cases) \<sigma>) run)"
proof (cases "find (\<lambda>b. fst b = l) bs")
  case None
  with find_case [OF cases, of l] have "pick_case l sc cases = sc" by (simp add: pick_case_def)
  then show ?thesis using scope_then [OF step [unfolded None option.case] dflt ok rest] by simp
next
  case (Some t)
  with find_case [OF cases, of l] obtain c q2 where "pick_case l sc cases = snd c" "joins G N q2 nxt"
    "\<And>g. follows m G T brk q2 g (snd t) 0 \<tau> (run_insts m g (run_scope m g) (scope_insts (snd c)) \<sigma>)"
    by (auto simp: pick_case_def)
  then show ?thesis using scope_then [OF step [unfolded Some option.case] _ _ ok, of T brk q2 "snd c" \<sigma> N nxt q f run] rest by simp
qed

text \<open>A loop reached in one step, and what comes after it.\<close>

lemma loop_then:
  assumes "jumps G N b i h" "graph_ok m G R"
    and "\<And>g \<sigma> \<tau>. f = Suc g \<Longrightarrow> same_off T \<sigma> \<tau> \<Longrightarrow> \<exists>c j \<tau>1. (\<forall>k. grun m G (Suc k) h 0 \<tau> = grun m G k c j \<tau>1) \<and>
      follows m G T (Some nxt) (Some (h, 0)) g c j \<tau>1 (body \<sigma>)"
    and "same_off T \<sigma> \<tau>"
    and "\<And>\<sigma>' \<tau>'. same_off T \<sigma>' \<tau>' \<Longrightarrow> follows m G T brk q f nxt 0 \<tau>' (run \<sigma>')"
  shows "follows m G T brk q f b i \<tau> (and_then (run_loop f body \<sigma>) run)"
proof -
  have "follows m G T brk (Some (nxt, 0)) f h 0 \<tau> (run_loop f body \<sigma>)"
  proof (cases f)
    case (Suc g)
    show ?thesis using assms(3) [OF Suc] assms(4) Suc by (intro loop_follows [of T m G h nxt g]) auto
  qed (simp add: follows_def)
  from follows_jump [OF assms(1,2) follows_bind [OF this]] assms(5) show ?thesis by fastforce
qed

lemma and_then_Falls [simp]: "and_then r Falls = r"
  by (cases r) (simp_all add: and_then_def)

lemma follows_Falls: "same_off T \<sigma> \<tau> \<Longrightarrow> follows m G T brk (Some (b, i)) f b i \<tau> (Falls \<sigma>)"
  by (auto simp: follows_def intro!: exI [of _ 0])

lemma follows_Breaks: "same_off T \<sigma> \<tau> \<Longrightarrow> follows m G T (Some t) q f t 0 \<tau> (Breaks \<sigma>)"
  by (auto simp: follows_def intro!: exI [of _ 0])

lemma follows_op:
  assumes "op_at G N b i inst" "follows m G T brk q f b (Suc i) (mc_effect m inst \<tau>) r"
  shows "follows m G T brk q f b i \<tau> r"
  using grun_op [OF assms(1)] by (intro follows_after [OF _ assms(2), of 0]) simp

context kernel_machine
begin

text \<open>A pass of a counting loop: the header tests into a temporary, the body ends with the step.\<close>

lemma for_pass:
  assumes test: "op_at G N h 0 (instruction_new (loop_test inclusive v stop) tmp)" "tmp \<in> T" "as_const tmp = None"
      "ends G N h 1 (LoopBreakF tmp body cont nxt)" "{body, nxt} \<subseteq> set (successors G h)"
    and again: "op_at G N c j (loop_step v step)" "jumps G N c (Suc j) h \<or> jumps G N c (Suc j) cont \<and> jumps G N cont 0 h"
    and vars: "v \<notin> T" "stop \<notin> T" "set_option step \<inter> T = {}" "\<forall>v \<in> T. as_const v = None" and ok: "graph_ok m G R"
    and body: "\<And>\<sigma> \<tau>. same_off T \<sigma> \<tau> \<Longrightarrow> follows m G T (Some nxt) (Some (c, j)) g body 0 \<tau> (rs sc \<sigma>)"
    and same: "same_off T \<sigma> \<tau>"
  shows "\<exists>c j \<tau>1. (\<forall>k. grun m G (Suc k) h 0 \<tau> = grun m G k c j \<tau>1) \<and>
      follows m G T (Some nxt) (Some (h, 0)) g c j \<tau>1 (run_pass m rs v stop step inclusive sc \<sigma>)"
proof -
  define x where "x = mc_eval m (loop_test inclusive v stop) \<sigma>"
  let ?\<tau> = "\<tau>(tmp := x)"
  have "mc_eval m (loop_test inclusive v stop) \<tau> = x"
    using comparison_same [OF _ same] vars(1,2) by (simp add: x_def loop_test_def)
  then have "mc_effect m (instruction_new (loop_test inclusive v stop) tmp) \<tau> = ?\<tau>"
    by (simp add: loop_test_def comparison_effect)
  then have "grun m G (Suc k) h 0 \<tau> = grun m G (Suc k) h 1 ?\<tau>" for k using grun_op [OF test(1), of m "Suc k" \<tau>] by simp
  moreover have "truth m ?\<tau> tmp = mc_true m x" by (simp add: truth_def value_of_def test(3))
  then have "grun m G (Suc k) h 1 ?\<tau> = grun m G k (if mc_true m x then body else nxt) 0 ?\<tau>" for k
    using test(5) by (intro grun_step [OF test(4) _ _ _ ok]) auto
  ultimately have step: "grun m G (Suc k) h 0 \<tau> = grun m G k (if mc_true m x then body else nxt) 0 ?\<tau>" for k by simp
  have same': "same_off T \<sigma> ?\<tau>" using same test(2) by simp
  have "variable_from_i32 1 \<notin> T" using vars(4) by (force simp: variable_from_i32_def)
  then have "vars_of_inst (loop_step v step) \<inter> T = {}"
    using vars by (auto simp: vars_of_inst_def loop_step_def split: option.splits)
  note same_step = effect_same [OF this]
  have "follows m G T (Some nxt) (Some (h, 0)) g c j \<tau>' (Falls (mc_effect m (loop_step v step) \<sigma>'))"
    if "same_off T \<sigma>' \<tau>'" for \<sigma>' \<tau>'
    using again(2) follows_jump [OF _ ok] follows_Falls [OF same_step [OF that]]
    by (intro follows_op [OF again(1)]) metis
  with follows_bind [OF body [OF same'], of "Some (h, 0)"]
  have "follows m G T (Some nxt) (Some (h, 0)) g body 0 ?\<tau> (and_then (rs sc \<sigma>) (\<lambda>\<sigma>. Falls (mc_effect m (loop_step v step) \<sigma>)))"
    by fastforce
  with follows_Breaks [OF same', of m G nxt] have "follows m G T (Some nxt) (Some (h, 0)) g (if mc_true m x then body else nxt) 0 ?\<tau>
      (run_pass m rs v stop step inclusive sc \<sigma>)" by (simp add: run_pass_def x_def)
  with step show ?thesis by blast
qed

lemma lowers_follows:
  assumes "lowers G T R N brk p insts q" and ok: "graph_ok m G R" and T: "\<forall>v \<in> T. as_const v = None"
  shows "avoids T insts \<Longrightarrow> same_off T \<sigma> \<tau> \<Longrightarrow>
    follows m G T brk q f (fst p) (snd p) \<tau> (run_insts m f (run_scope m f) insts \<sigma>)"
  using assms(1)
proof (induction arbitrary: \<sigma> \<tau> f)
  case (Done brk p)
  then show ?case by (cases p) (auto intro: follows_Falls)
next
  case (Plain b i inst brk insts q)
  have same: "same_off T (mc_effect m inst \<sigma>) (mc_effect m inst \<tau>)"
    using Plain.prems by (intro effect_same) (auto simp: avoids_Cons)
  have "run_inst m f (run_scope m f) inst \<sigma> = Falls (mc_effect m inst \<sigma>)"
    using Plain.hyps(2) by (auto simp: run_inst_def is_branch_def split: operation.splits)
  moreover have "follows m G T brk q f b i \<tau> (run_insts m f (run_scope m f) insts (mc_effect m inst \<sigma>))"
    using Plain.IH [OF _ same] Plain.prems(1) by (intro follows_op [OF Plain.hyps(1)]) (simp add: avoids_Cons)
  ultimately show ?case by (simp add: and_then_def)
next
  case (Return inst b i r brk insts)
  from ok Return.hyps(3) obtain d where "\<And>\<sigma>. grun m G d r 0 \<sigma> = Some \<sigma>" unfolding graph_ok_def by blast
  with grun_jump [OF Return.hyps(2) ok] have "grun m G (Suc d) b i \<tau> = Some \<tau>" by simp
  with Return show ?case by (auto simp: run_inst_def and_then_def follows_def)
next
  case (Break inst b i t insts)
  from follows_jump [OF Break.hyps(2) ok follows_Breaks [OF Break.prems(2)]] Break.hyps(1) show ?case
    by (simp add: run_inst_def and_then_def)
next
  case (If inst cond sc b i thn nxt mrg brk q1 insts q)
  note vars = If.prems(1) [unfolded avoids_Cons vars_of_inst_def If.hyps(1)]
  have step: "grun m G (Suc k) b i \<tau> = grun m G k (if truth m \<sigma> cond then thn else nxt) 0 \<tau>" for k
    using If.hyps(3) vars value_of_same [OF If.prems(2), of cond]
    by (intro grun_step [OF If.hyps(2) _ _ _ ok]) (auto simp: truth_def)
  have rest: "follows m G T brk q f nxt 0 \<tau>' (run_insts m f (run_scope m f) insts \<sigma>')" if "same_off T \<sigma>' \<tau>'" for \<sigma>' \<tau>'
    using If.IH(2) [OF _ that] vars by simp
  have avoid: "avoids T (scope_insts sc)" using vars branch_avoids [OF T, of "IfB cond sc"] by auto
  show ?case
  proof (cases "truth m \<sigma> cond")
    case True
    from scope_then [OF step [unfolded if_P [OF True]] _ If.hyps(5) ok rest] If.IH(1) [OF avoid If.prems(2)]
    show ?thesis using True If.hyps(1) by (simp add: run_inst_def)
  next
    case False
    then have "grun m G (1 + k) b i \<tau> = grun m G k nxt 0 \<tau>" for k using step by simp
    from follows_after [OF this rest [OF If.prems(2)]] False If.hyps(1) show ?thesis
      by (simp add: run_inst_def and_then_def)
  qed
next
  case (IfElse inst cond sc1 sc2 b i thn els mrg brk q1 nxt q2 insts q)
  note vars = IfElse.prems(1) [unfolded avoids_Cons vars_of_inst_def IfElse.hyps(1)]
  have step: "grun m G (Suc k) b i \<tau> = grun m G k (if truth m \<sigma> cond then thn else els) 0 \<tau>" for k
    using IfElse.hyps(3) vars value_of_same [OF IfElse.prems(2), of cond]
    by (intro grun_step [OF IfElse.hyps(2) _ _ _ ok]) (auto simp: truth_def)
  have rest: "follows m G T brk q f nxt 0 \<tau>' (run_insts m f (run_scope m f) insts \<sigma>')" if "same_off T \<sigma>' \<tau>'" for \<sigma>' \<tau>'
    using IfElse.IH(3) [OF _ that] vars by simp
  have avoid: "avoids T (scope_insts sc1)" "avoids T (scope_insts sc2)"
    using vars branch_avoids [OF T, of "IfElseB cond sc1 sc2"] by auto
  show ?case
  proof (cases "truth m \<sigma> cond")
    case True
    from scope_then [OF step [unfolded if_P [OF True]] _ IfElse.hyps(5) ok rest] IfElse.IH(1) [OF avoid(1) IfElse.prems(2)]
    show ?thesis using True IfElse.hyps(1) by (simp add: run_inst_def)
  next
    case False
    from scope_then [OF step [unfolded if_not_P [OF False]] _ IfElse.hyps(7) ok rest] IfElse.IH(2) [OF avoid(2) IfElse.prems(2)]
    show ?thesis using False IfElse.hyps(1) by (simp add: run_inst_def)
  qed
next
  case (Switch inst v sc cases b i d bs mrg brk q1 nxt insts q)
  note vars = Switch.prems(1) [unfolded avoids_Cons vars_of_inst_def Switch.hyps(1)]
  have label: "label_of m \<tau> v = label_of m \<sigma> v"
    using vars value_of_same [OF Switch.prems(2), of v] by (auto simp: label_of_def)
  have step: "grun m G (Suc k) b i \<tau> =
      grun m G k (case find (\<lambda>b. fst b = label_of m \<sigma> v) bs of Some b \<Rightarrow> snd b | None \<Rightarrow> d) 0 \<tau>" for k
    using Switch.hyps(3) label
    by (intro grun_step [OF Switch.hyps(2) _ _ _ ok]) (force split: option.splits dest: find_in_set)+
  have rest: "follows m G T brk q f nxt 0 \<tau>' (run_insts m f (run_scope m f) insts \<sigma>')" if "same_off T \<sigma>' \<tau>'" for \<sigma>' \<tau>'
    using Switch.IH(3) [OF _ that] vars by simp
  have avoid: "avoids T (scope_insts sc)" "c \<in> set cases \<Longrightarrow> avoids T (scope_insts (snd c))" for c
    using vars branch_avoids [OF T, of "SwitchB v sc cases"] by auto
  have "list_all2 (\<lambda>c t. switch_label (fst c) = Ret (fst t) \<and> (\<exists>q2. joins G N q2 nxt \<and>
      (\<forall>g. follows m G T brk q2 g (snd t) 0 \<tau> (run_insts m g (run_scope m g) (scope_insts (snd c)) \<sigma>)))) cases bs"
    using Switch.IH(2) Switch.prems(2) avoid(2) by (auto elim!: list.rel_mono_strong)
  from switch_then [OF step Switch.IH(1) [OF avoid(1) Switch.prems(2), simplified] Switch.hyps(5) this ok rest] Switch.hyps(1)
  show ?case by (simp add: run_inst_def)
next
  case (Loop inst sc b i h body cont nxt q1 brk insts q)
  note vars = Loop.prems(1) [unfolded avoids_Cons vars_of_inst_def Loop.hyps(1)]
  have avoid: "avoids T (scope_insts sc)" using vars branch_avoids [OF T, of "LoopB sc"] by auto
  have rest: "follows m G T brk q f nxt 0 \<tau>' (run_insts m f (run_scope m f) insts \<sigma>')" if "same_off T \<sigma>' \<tau>'" for \<sigma>' \<tau>'
    using Loop.IH(2) [OF _ that] vars by simp
  have enter: "grun m G (Suc k) h 0 \<tau>' = grun m G k body 0 \<tau>'" for k \<tau>'
    using Loop.hyps(4) by (intro grun_step [OF Loop.hyps(3) _ _ _ ok]) auto
  have pass: "\<exists>c j \<tau>1. (\<forall>k. grun m G (Suc k) h 0 \<tau>' = grun m G k c j \<tau>1) \<and>
      follows m G T (Some nxt) (Some (h, 0)) g c j \<tau>1 (run_scope m f sc \<sigma>')"
    if "f = Suc g" "same_off T \<sigma>' \<tau>'" for g \<sigma>' \<tau>'
  proof -
    have "follows m G T (Some nxt) q1 g body 0 \<tau>' (run_scope m f sc \<sigma>')"
      using Loop.IH(1) [OF avoid that(2)] that(1) by simp
    from follows_seq [OF this Loop.hyps(6) ok, of "Some (h, 0)" Falls]
    have "follows m G T (Some nxt) (Some (h, 0)) g body 0 \<tau>' (run_scope m f sc \<sigma>')"
      by (simp add: follows_jump [OF Loop.hyps(7) ok] follows_Falls)
    with enter show ?thesis by blast
  qed
  from loop_then [OF Loop.hyps(2) ok pass Loop.prems(2) rest] Loop.hyps(1) show ?case by (simp add: run_inst_def)
next
  case (For inst v start stop step inclusive sc b i h tmp body cont nxt c j brk insts q)
  let ?copy = "instruction_new (CopyO start) v"
  note vars = For.prems(1) [unfolded avoids_Cons vars_of_inst_def For.hyps(1)]
  have avoid: "avoids T (scope_insts sc)" using vars branch_avoids [OF T, of "RangeLoopB v start stop step inclusive sc"] by auto
  have rest: "follows m G T brk q f nxt 0 \<tau>' (run_insts m f (run_scope m f) insts \<sigma>')" if "same_off T \<sigma>' \<tau>'" for \<sigma>' \<tau>'
    using For.IH(2) [OF _ that] vars by simp
  have same: "same_off T (mc_effect m ?copy \<sigma>) (mc_effect m ?copy \<tau>)"
    using vars For.prems(2) by (intro effect_same) (auto simp: vars_of_inst_def)
  have pass: "\<exists>c j \<tau>1. (\<forall>k. grun m G (Suc k) h 0 \<tau>' = grun m G k c j \<tau>1) \<and>
      follows m G T (Some nxt) (Some (h, 0)) g c j \<tau>1 (run_pass m (run_scope m f) v stop step inclusive sc \<sigma>')"
    if "f = Suc g" "same_off T \<sigma>' \<tau>'" for g \<sigma>' \<tau>'
  proof (rule for_pass [OF For.hyps(4-8,10,11) _ _ _ T ok _ that(2)])
    show "v \<notin> T" "stop \<notin> T" "set_option step \<inter> T = {}" using vars by auto
    show "follows m G T (Some nxt) (Some (c, j)) g body 0 \<tau> (run_scope m f sc \<sigma>)" if "same_off T \<sigma> \<tau>" for \<sigma> \<tau>
      using For.IH(1) [OF avoid that, of g] \<open>f = Suc g\<close> by simp
  qed
  from follows_op [OF For.hyps(2) loop_then [OF For.hyps(3) ok pass same rest]] For.hyps(1) show ?case
    by (simp add: run_inst_def)
qed

end

end
