(* ===== verification/Opt_Lowering_Sound.thy ===== *)
theory Opt_Lowering_Sound
  imports Opt_Lowered
begin

text \<open>
  The parsers build graphs of the shape \<open>lowers\<close>: a graph is looked at through its blocks and their
  successors, each operation on the graph is an update of that view, and every parser adds to the current
  block and to blocks of its own only.
\<close>

section \<open>Graphs as views\<close>

text \<open>The instructions, phi instructions and control flow of a block, if it exists, and its successors.\<close>

type_synonym block_view =
  "(variable instruction list \<times> phi_instruction list \<times> control_flow) option \<times> node_index list"

definition view :: "program \<Rightarrow> node_index \<Rightarrow> block_view" where
  "view p n = (map_option (\<lambda>b. (bb_ops b, bb_phi_nodes b, bb_control_flow b)) (node_of p n), successors p n)"

fun cf_jumps :: "control_flow \<Rightarrow> node_index set" where
  "cf_jumps (IfElseF _ t e _) = {t, e}"
| "cf_jumps (SwitchF _ d bs _) = insert d (snd ` set bs)"
| "cf_jumps _ = {}"

definition graph :: "program \<Rightarrow> nat \<Rightarrow> (node_index \<Rightarrow> block_view) \<Rightarrow> bool" where
  "graph p L V \<longleftrightarrow> pg_root p = 0 \<and> map fst (pg_nodes p) = [0..<L] \<and> distinct (map fst (pg_edges p)) \<and>
     (\<forall>(e, s, t) \<in> set (pg_edges p). s < L \<and> t < L) \<and>
     (\<forall>(n, b) \<in> set (pg_nodes p). \<forall>phi \<in> set (bb_phi_nodes b). \<forall>e \<in> set (phi_entries phi). pe_block e < L) \<and>
     (\<forall>(n, b) \<in> set (pg_nodes p). cf_jumps (bb_control_flow b) \<subseteq> {..<L}) \<and> view p = V"

text \<open>Nothing but the graph changes.\<close>

definition edits :: "parser \<Rightarrow> parser \<Rightarrow> nat \<Rightarrow> (node_index \<Rightarrow> block_view) \<Rightarrow> bool" where
  "edits st st' L V = (\<exists>p. st' = st\<lparr>op_program := p\<rparr> \<and> graph p L V)"

definition fresh_view :: block_view where
  "fresh_view = (Some ([], [], NoneF), [])"

lemma graph_view: "graph p L V \<Longrightarrow> V = view p"
  by (simp add: graph_def)

lemma graph_edges: "graph p L V \<Longrightarrow> (e, s, t) \<in> set (pg_edges p) \<Longrightarrow> s < L \<and> t < L"
  by (auto simp: graph_def)

lemma graph_simps:
  assumes "graph p L V"
  shows "length (pg_nodes p) = L" "set (node_ids p) = {..<L}" "node_of p n = None \<longleftrightarrow> L \<le> n" "L \<le> n \<Longrightarrow> V n = (None, [])"
    "t \<in> set (snd (V n)) \<Longrightarrow> n < L \<and> t < L"
proof -
  from assms have ids: "map fst (pg_nodes p) = [0..<L]" by (simp add: graph_def)
  from arg_cong [OF this, of length] show "length (pg_nodes p) = L" by simp
  show "set (node_ids p) = {..<L}" by (auto simp: node_ids_def ids)
  have "fst ` set (pg_nodes p) = {..<L}" using arg_cong [OF ids, of set] by auto
  then show none: "node_of p n = None \<longleftrightarrow> L \<le> n" by (auto simp: map_of_eq_None_iff)
  have succ: "t \<in> set (snd (V n)) \<Longrightarrow> n < L \<and> t < L" for n t
    using graph_edges [OF assms] graph_view [OF assms] by (force simp: view_def successors_def)
  then show "t \<in> set (snd (V n)) \<Longrightarrow> n < L \<and> t < L" .
  assume "L \<le> n"
  then have "snd (V n) = []" using succ [of _ n] by (cases "snd (V n)") force+
  moreover have "fst (V n) = None" using assms none \<open>L \<le> n\<close> by (auto simp: graph_def view_def)
  ultimately show "V n = (None, [])" by (simp add: prod_eq_iff)
qed

lemma add_node_graph:
  assumes "graph (op_program st) L V" "add_node st = (n, st')"
  shows "n = L" "edits st st' (Suc L) (V(L := fresh_view))"
proof -
  note g = graph_simps [OF assms(1)]
  show "n = L" using assms(2) g by (auto simp: add_node_def Let_def)
  let ?p = "(op_program st)\<lparr>pg_nodes := pg_nodes (op_program st) @ [(L, default_block)]\<rparr>"
  have "view ?p m = (V(L := fresh_view)) m" for m
    using assms(1) g(3) [of m] g(3) [of L] g(4) [of L]
    by (auto simp: view_def graph_def fresh_view_def default_block_def successors_def map_add_def split: option.splits)
  then have "graph ?p (Suc L) (V(L := fresh_view))"
    using assms(1) by (fastforce simp: graph_def default_block_def)
  then show "edits st st' (Suc L) (V(L := fresh_view))"
    using assms(2) g(1) by (auto simp: add_node_def Let_def edits_def)
qed

definition with_edge :: "node_index \<Rightarrow> node_index \<Rightarrow> (node_index \<Rightarrow> block_view) \<Rightarrow> node_index \<Rightarrow> block_view" where
  "with_edge a b V = V(a := (fst (V a), b # snd (V a)))"

lemma fresh_edge_new: "fresh_edge p \<notin> fst ` set (pg_edges p)"
proof -
  have "e < foldr (\<lambda>(e, _) k. max (Suc e) k) es 0" if "e \<in> fst ` set es" for e and es :: "(edge_index \<times> node_index \<times> node_index) list"
    using that by (induction es) force+
  then show ?thesis by (force simp: fresh_edge_def)
qed

lemma add_edge_graph:
  assumes "graph (op_program st) L V" "add_edge a b st = Ret st'"
  shows "a < L" "b < L" "edits st st' L (with_edge a b V)"
proof -
  note g = graph_simps [OF assms(1)]
  show ab: "a < L" "b < L" using assms(2) g by (auto simp: add_edge_def split: if_splits)
  let ?p = "(op_program st)\<lparr>pg_edges := (fresh_edge (op_program st), a, b) # pg_edges (op_program st)\<rparr>"
  have "view ?p m = with_edge a b V m" for m
    using assms(1) by (auto simp: view_def graph_def successors_def with_edge_def)
  then have "graph ?p L (with_edge a b V)" using assms(1) ab fresh_edge_new [of "op_program st"] by (auto simp: graph_def)
  then show "edits st st' L (with_edge a b V)"
    using assms(2) by (auto simp: add_edge_def edits_def split: if_splits)
qed

definition with_block :: "node_index \<Rightarrow>
    (variable instruction list \<times> phi_instruction list \<times> control_flow \<Rightarrow> variable instruction list \<times> phi_instruction list \<times> control_flow) \<Rightarrow>
    (node_index \<Rightarrow> block_view) \<Rightarrow> node_index \<Rightarrow> block_view" where
  "with_block n f V = V(n := (map_option f (fst (V n)), snd (V n)))"

lemma update_mem: "(k, c) \<in> set (AList.update n v xs) \<Longrightarrow> (k, c) \<in> set xs \<or> c = v"
  by (induction xs) (auto split: if_splits)

lemma change_block_graph:
  assumes "graph (op_program st) L V" "change_block n f st = Ret st'"
    and f: "\<And>b. (bb_ops (f b), bb_phi_nodes (f b), bb_control_flow (f b)) = g (bb_ops b, bb_phi_nodes b, bb_control_flow b)"
    and phis: "\<And>b phi e. \<lbrakk>phi \<in> set (bb_phi_nodes (f b)); e \<in> set (phi_entries phi)\<rbrakk> \<Longrightarrow>
      pe_block e < L \<or> (\<exists>phi' \<in> set (bb_phi_nodes b). \<exists>e' \<in> set (phi_entries phi'). pe_block e = pe_block e')"
    and jumps: "\<And>b. cf_jumps (bb_control_flow (f b)) \<subseteq> cf_jumps (bb_control_flow b) \<union> {..<L}"
  shows "n < L" "edits st st' L (with_block n g V)"
proof -
  from assms(2) obtain b where b: "node_of (op_program st) n = Some b"
    and st': "st' = st\<lparr>op_program := (op_program st)\<lparr>pg_nodes := AList.update n (f b) (pg_nodes (op_program st))\<rparr>\<rparr>"
    by (auto simp: change_block_def block_at_def bindE_eq_Ret unwrap_def split: option.splits)
  show n: "n < L" using graph_simps(3) [OF assms(1), of n] b by simp
  let ?p = "(op_program st)\<lparr>pg_nodes := AList.update n (f b) (pg_nodes (op_program st))\<rparr>"
  have "map fst (AList.update n (f b) (pg_nodes (op_program st))) = [0..<L]"
    using assms(1) n by (simp add: graph_def update_keys)
  moreover have "view ?p m = with_block n g V m" for m
    using assms(1) b f by (auto simp: view_def graph_def successors_def with_block_def)
  moreover have "pe_block e < L" if "(k, c) \<in> set (AList.update n (f b) (pg_nodes (op_program st)))"
      "phi \<in> set (bb_phi_nodes c)" "e \<in> set (phi_entries phi)" for k c phi e
  proof -
    have old: "pe_block e < L" if "(k, c) \<in> set (pg_nodes (op_program st))" "phi \<in> set (bb_phi_nodes c)" "e \<in> set (phi_entries phi)"
      for k c phi e using assms(1) that by (fastforce simp: graph_def)
    have "(k, c) \<in> set (pg_nodes (op_program st)) \<or> c = f b"
      by (rule update_mem [OF that(1)])
    then show ?thesis using old that(2,3) phis [of phi b e] map_of_SomeD [OF b] by metis
  qed
  moreover have "x < L" if "(k, c) \<in> set (AList.update n (f b) (pg_nodes (op_program st)))" "x \<in> cf_jumps (bb_control_flow c)" for k c x
  proof -
    have old: "cf_jumps (bb_control_flow c) \<subseteq> {..<L}" if "(k, c) \<in> set (pg_nodes (op_program st))" for k c
      using assms(1) that by (fastforce simp: graph_def)
    show ?thesis using update_mem [OF that(1)] that(2) old jumps [of b] map_of_SomeD [OF b] by fastforce
  qed
  ultimately have "graph ?p L (with_block n g V)" using assms(1) unfolding graph_def by auto
  then show "edits st st' L (with_block n g V)" using st' by (auto simp: edits_def)
qed

lemma edits_refl: "graph (op_program st) L V \<Longrightarrow> edits st st L V"
  unfolding edits_def by (intro exI [of _ "op_program st"]) simp

lemma edits_simps:
  assumes "edits st st' L V"
  shows "graph (op_program st') L V" "op_next_local st' = op_next_local st" "op_ret st' = op_ret st"
    "ps_current_block st' = ps_current_block st" "ps_loop_break st' = ps_loop_break st" "ps_pool st' = ps_pool st"
  using assms by (auto simp: edits_def)

lemma set_control_flow_graph:
  assumes "graph (op_program st) L V" "set_control_flow n cf st = Ret st'" "cf_jumps cf \<subseteq> {..<L}"
  shows "n < L" "edits st st' L (with_block n (\<lambda>(ops, phis, _). (ops, phis, cf)) V)"
  using change_block_graph [OF assms(1) assms(2) [unfolded set_control_flow_def], of "\<lambda>(ops, phis, _). (ops, phis, cf)"]
    assms(3) by auto

lemma push_ops_graph:
  assumes "graph (op_program st) L V" "push_ops n insts st = Ret st'"
  shows "n < L" "edits st st' L (with_block n (\<lambda>(ops, phis, cf). (ops @ insts, phis, cf)) V)"
  using change_block_graph [OF assms(1) assms(2) [unfolded push_ops_def], of "\<lambda>(ops, phis, cf). (ops @ insts, phis, cf)"]
  by auto

lemma push_use_graph:
  assumes "graph (op_program st) L V" "push_use n u st = Ret st'"
  shows "n < L" "edits st st' L V"
proof -
  have "with_block n (\<lambda>x. x) V = V" by (simp add: with_block_def option.map_ident)
  with change_block_graph [OF assms(1) assms(2) [unfolded push_use_def], of "\<lambda>x. x"]
  show "n < L" "edits st st' L V" by auto
qed

text \<open>A phi instruction that, entered from \<open>n\<close>, keeps its variable.\<close>

definition keeps_var :: "node_index \<Rightarrow> phi_instruction \<Rightarrow> bool" where
  "keeps_var n phi = (as_const (phi_out phi) = None \<and>
     (\<exists>e. find (\<lambda>e. pe_block e = n) (phi_entries phi) = Some e \<and> pe_value e = phi_out phi))"

lemma insert_phi_graph:
  assumes "graph (op_program st) L V" "insert_phi n i it st = Ret st'"
  shows "\<exists>phi. n < L \<and> edits st st' L (with_block n (\<lambda>(ops, phis, cf). (ops, phis @ [phi], cf)) V) \<and>
    (\<forall>s. n \<in> set (snd (V s)) \<longrightarrow> keeps_var s phi)"
proof -
  let ?var = "variable_new (Versioned i 0) it"
  let ?entries = "map (\<lambda>pred. \<lparr>pe_block = pred, pe_value = ?var\<rparr>) (predecessors (op_program st) n)"
  let ?phi = "\<lparr>phi_out = ?var, phi_entries = ?entries\<rparr>"
  have find: "find (\<lambda>e. pe_block e = s) (map (\<lambda>pred. \<lparr>pe_block = pred, pe_value = ?var\<rparr>) ps) = Some \<lparr>pe_block = s, pe_value = ?var\<rparr>"
    if "s \<in> set ps" for s ps using that by (induction ps) auto
  have "keeps_var s ?phi" if "n \<in> set (snd (V s))" for s
  proof -
    have "s \<in> set (predecessors (op_program st) n)"
      using that graph_view [OF assms(1)] by (force simp: view_def successors_def predecessors_def)
    from find [OF this] show ?thesis by (simp add: keeps_var_def as_const_def)
  qed
  moreover have "change_block n (\<lambda>b. b\<lparr>bb_phi_nodes := bb_phi_nodes b @ [?phi]\<rparr>) st = Ret st'"
    using assms(2) by (simp add: insert_phi_def Let_def)
  note change = change_block_graph [OF assms(1) this, of "\<lambda>(ops, phis, cf). (ops, phis @ [?phi], cf)"]
  have "pred < L" if "pred \<in> set (predecessors (op_program st) n)" for pred
    using graph_edges [OF assms(1)] that by (force simp: predecessors_def)
  then have entries: "e \<in> set ?entries \<Longrightarrow> pe_block e < L" for e by auto
  have phis: "pe_block e < L \<or> (\<exists>phi' \<in> set (bb_phi_nodes b). \<exists>e' \<in> set (phi_entries phi'). pe_block e = pe_block e')"
    if "phi \<in> set (bb_phi_nodes (b\<lparr>bb_phi_nodes := bb_phi_nodes b @ [?phi]\<rparr>))" "e \<in> set (phi_entries phi)" for b phi e
  proof (cases "phi = ?phi")
    case True
    with that(2) entries show ?thesis by simp
  next
    case False
    with that show ?thesis by auto
  qed
  have "n < L" "edits st st' L (with_block n (\<lambda>(ops, phis, cf). (ops, phis @ [?phi], cf)) V)"
    by (rule change [OF _ phis]; simp)+
  ultimately show ?thesis by blast
qed

section \<open>Extending a graph\<close>

lemma ends_view:
  "ends G N n i cf \<longleftrightarrow> n \<in> N \<and> (\<exists>ops phis. fst (view G n) = Some (ops, phis, cf) \<and> length ops = i)"
  by (auto simp: ends_def view_def)

lemma jumps_view:
  "jumps G N n i t \<longleftrightarrow> n \<in> N \<and> (\<exists>ops phis. view G n = (Some (ops, phis, NoneF), [t]) \<and> length ops = i)"
  by (auto simp: jumps_def ends_def view_def)

lemma op_at_view:
  "op_at G N n i inst \<longleftrightarrow> n \<in> N \<and> (\<exists>ops phis cf. fst (view G n) = Some (ops, phis, cf) \<and> i < length ops \<and> ops ! i = inst)"
  by (auto simp: op_at_def view_def)

lemma successors_view: "successors G n = snd (view G n)"
  by (simp add: view_def)

text \<open>The block \<open>n\<close> is still being filled.\<close>

definition open_at :: "(node_index \<Rightarrow> block_view) \<Rightarrow> node_index \<Rightarrow> bool" where
  "open_at V n = (\<exists>ops. V n = (Some (ops, [], NoneF), []))"

definition ops_of_view :: "(node_index \<Rightarrow> block_view) \<Rightarrow> node_index \<Rightarrow> variable instruction list" where
  "ops_of_view V n = (case fst (V n) of None \<Rightarrow> [] | Some (ops, _) \<Rightarrow> ops)"

text \<open>Blocks of \<open>N\<close> stay as they are, up to those of \<open>C\<close>, which are open and gain instructions.\<close>

definition extends :: "node_index set \<Rightarrow> node_index set \<Rightarrow> (node_index \<Rightarrow> block_view) \<Rightarrow> (node_index \<Rightarrow> block_view) \<Rightarrow> bool" where
  "extends N C V V' \<longleftrightarrow>
     (\<forall>n \<in> N. n \<notin> C \<longrightarrow> V' n = V n) \<and>
     (\<forall>n \<in> N. n \<in> C \<longrightarrow> open_at V n \<and> (\<exists>added cf ss. V' n = (Some (ops_of_view V n @ added, [], cf), ss)))"

lemma jumps_mono:
  "extends N C (view G) (view G') \<Longrightarrow> N \<subseteq> N' \<Longrightarrow> jumps G N n i t \<Longrightarrow> jumps G' N' n i t"
  by (cases "n \<in> C") (fastforce simp: jumps_view extends_def open_at_def)+

lemma joins_mono:
  "extends N C (view G) (view G') \<Longrightarrow> N \<subseteq> N' \<Longrightarrow> joins G N q t \<Longrightarrow> joins G' N' q t"
  by (auto simp: joins_def jumps_mono split: option.splits)

lemma ends_mono:
  "extends N C (view G) (view G') \<Longrightarrow> N \<subseteq> N' \<Longrightarrow> ends G N n i cf \<Longrightarrow> cf \<noteq> NoneF \<Longrightarrow>
   ends G' N' n i cf \<and> successors G' n = successors G n"
  by (cases "n \<in> C") (fastforce simp: ends_view extends_def open_at_def successors_view)+

lemma op_at_mono:
  "extends N C (view G) (view G') \<Longrightarrow> N \<subseteq> N' \<Longrightarrow> op_at G N n i inst \<Longrightarrow> op_at G' N' n i inst"
  by (cases "n \<in> C") (fastforce simp: op_at_view extends_def open_at_def ops_of_view_def nth_append)+

lemma lowers_mono:
  assumes "lowers G T R N brk p insts q" and ext: "extends N C (view G) (view G')" "N \<subseteq> N'" and R: "R \<subseteq> R'"
  shows "lowers G' T R' N' brk p insts q"
  using assms(1)
proof induction
  note ends = ends_mono [OF ext] and join = joins_mono [OF ext] and jump = jumps_mono [OF ext] and op = op_at_mono [OF ext]
  {
    case (If inst cond sc b i thn nxt mrg brk q1 insts q)
    with ends [OF If.hyps(2)] show ?case by (intro lowers.If [OF If.hyps(1) _ _ If.IH(1) join [OF If.hyps(5)] If.IH(2)]) auto
  next
    case (IfElse inst cond sc1 sc2 b i thn els mrg brk q1 nxt q2 insts q)
    with ends [OF IfElse.hyps(2)] show ?case
      by (intro lowers.IfElse [OF IfElse.hyps(1) _ _ IfElse.IH(1) join [OF IfElse.hyps(5)] IfElse.IH(2) join [OF IfElse.hyps(7)]
            IfElse.IH(3)]) auto
  next
    case (Switch inst v sc cases b i d bs mrg brk q1 nxt insts q)
    have "list_all2 (\<lambda>c t. switch_label (fst c) = Ret (fst t) \<and>
        (\<exists>q2. lowers G' T R' N' brk (snd t, 0) (scope_insts (snd c)) q2 \<and> joins G' N' q2 nxt)) cases bs"
      using Switch.IH(2) by (rule list.rel_mono_strong) (auto intro: join)
    with Switch ends [OF Switch.hyps(2)] show ?case
      by (intro lowers.Switch [OF Switch.hyps(1) _ _ Switch.IH(1) join [OF Switch.hyps(5)] _ Switch.IH(3)]) auto
  next
    case (Loop inst sc b i h body cont nxt q1 brk insts q)
    with ends [OF Loop.hyps(3)] show ?case
      by (intro lowers.Loop [OF Loop.hyps(1) jump [OF Loop.hyps(2)] _ _ Loop.IH(1) join [OF Loop.hyps(6)] jump [OF Loop.hyps(7)]
            Loop.IH(2)]) auto
  next
    case (For inst v start stop step inclusive sc b i h tmp body cont nxt c j brk insts q)
    with ends [OF For.hyps(7)] jump show ?case
      by (intro lowers.For [OF For.hyps(1) op [OF For.hyps(2)] jump [OF For.hyps(3)] op [OF For.hyps(4)] For.hyps(5,6) _ _
            For.IH(1) op [OF For.hyps(10)] _ For.IH(2)]) auto
  next
    case (Return inst b i r brk insts)
    with jump R show ?case by (intro lowers.Return) auto
  }
qed (auto intro: lowers.intros op_at_mono [OF ext] jumps_mono [OF ext])

section \<open>Well-formed parser states\<close>

definition clear :: "(node_index \<Rightarrow> block_view) \<Rightarrow> node_index \<Rightarrow> bool" where
  "clear V t = (\<exists>ops cf. fst (V t) = Some (ops, [], cf))"

text \<open>Taking an edge changes no variable.\<close>

definition plain :: "(node_index \<Rightarrow> block_view) \<Rightarrow> bool" where
  "plain V = (\<forall>n t. t \<in> set (snd (V n)) \<longrightarrow>
     (\<exists>ops phis cf. fst (V t) = Some (ops, phis, cf) \<and> (\<forall>phi \<in> set phis. keeps_var n phi)))"

text \<open>Empty blocks that lead to the return.\<close>

definition ret_set :: "(node_index \<Rightarrow> block_view) \<Rightarrow> node_index set \<Rightarrow> bool" where
  "ret_set V R = (\<forall>r \<in> R. (\<exists>ss. V r = (Some ([], [], ReturnF), ss)) \<or>
     (\<exists>r' \<in> R. r' < r \<and> V r = (Some ([], [], NoneF), [r'])))"

definition wellg :: "parser \<Rightarrow> nat \<Rightarrow> (node_index \<Rightarrow> block_view) \<Rightarrow> node_index set \<Rightarrow> bool" where
  "wellg st L V R \<longleftrightarrow> graph (op_program st) L V \<and> plain V \<and> ret_set V R \<and> op_ret st \<in> R \<and>
     (\<forall>t \<in> set (ps_loop_break st). clear V t)"

definition well :: "parser \<Rightarrow> nat \<Rightarrow> (node_index \<Rightarrow> block_view) \<Rightarrow> node_index set \<Rightarrow> bool" where
  "well st L V R \<longleftrightarrow> wellg st L V R \<and> (\<forall>c. ps_current_block st = Some c \<longrightarrow> open_at V c \<and> c \<notin> R)"

lemma clear_simps [simp]:
  "clear (with_edge a b V) t = clear V t"
  "clear (with_block n (\<lambda>(ops, phis, _). (ops, phis, cf)) V) t = clear V t"
  "clear (with_block n (\<lambda>(ops, phis, cf). (ops @ insts, phis, cf)) V) t = clear V t"
  "clear (V(n := fresh_view)) t = (t = n \<or> clear V t)"
  by (auto simp: clear_def with_edge_def with_block_def fresh_view_def split: option.splits)

lemma ret_set_cong: "(\<And>r. r \<in> R \<Longrightarrow> V' r = V r) \<Longrightarrow> ret_set V R \<Longrightarrow> ret_set V' R"
  by (auto simp: ret_set_def)

lemma ret_set_bound: "graph p L V \<Longrightarrow> ret_set V R \<Longrightarrow> r \<in> R \<Longrightarrow> r < L"
  using graph_simps(4) [of p L V r] by (fastforce simp: ret_set_def)

lemma open_bound: "graph p L V \<Longrightarrow> open_at V n \<Longrightarrow> n < L"
  using graph_simps(4) [of p L V n] by (fastforce simp: open_at_def)

lemma clear_bound: "graph p L V \<Longrightarrow> clear V n \<Longrightarrow> n < L"
  using graph_simps(4) [of p L V n] by (fastforce simp: clear_def)

lemma plain_edge:
  assumes "plain V" "clear V b"
  shows "plain (with_edge a b V)"
  unfolding plain_def
proof (intro allI impI)
  fix s t assume "t \<in> set (snd (with_edge a b V s))"
  then have "t \<in> set (snd (V s)) \<or> t = b" by (auto simp: with_edge_def split: if_splits)
  then have "\<exists>ops phis cf. fst (V t) = Some (ops, phis, cf) \<and> (\<forall>phi \<in> set phis. keeps_var s phi)"
    using assms by (auto simp: plain_def clear_def)
  moreover have "fst (with_edge a b V t) = fst (V t)" by (simp add: with_edge_def)
  ultimately show "\<exists>ops phis cf. fst (with_edge a b V t) = Some (ops, phis, cf) \<and> (\<forall>phi \<in> set phis. keeps_var s phi)"
    by simp
qed

lemma plain_block:
  assumes "plain V" "\<And>ops phis cf. fst (snd (f (ops, phis, cf))) = phis"
  shows "plain (with_block n f V)"
  unfolding plain_def
proof (intro allI impI)
  fix s t assume "t \<in> set (snd (with_block n f V s))"
  then have "t \<in> set (snd (V s))" by (simp add: with_block_def split: if_splits)
  with assms(1) obtain ops phis cf where t: "fst (V t) = Some (ops, phis, cf)" "\<forall>phi \<in> set phis. keeps_var s phi"
    unfolding plain_def by blast
  obtain ops' cf' where "f (ops, phis, cf) = (ops', phis, cf')"
    using assms(2) [of ops phis cf] by (cases "f (ops, phis, cf)") auto
  with t show "\<exists>ops phis cf. fst (with_block n f V t) = Some (ops, phis, cf) \<and> (\<forall>phi \<in> set phis. keeps_var s phi)"
    by (auto simp: with_block_def)
qed

lemma plain_fresh:
  assumes "plain V" "graph p L V"
  shows "plain (V(L := fresh_view))"
  unfolding plain_def
proof (intro allI impI)
  fix s t assume "t \<in> set (snd ((V(L := fresh_view)) s))"
  then have "t \<in> set (snd (V s))" "s \<noteq> L" by (auto simp: fresh_view_def split: if_splits)
  with graph_simps(5) [OF assms(2), of t s] assms(1)
  show "\<exists>ops phis cf. fst ((V(L := fresh_view)) t) = Some (ops, phis, cf) \<and> (\<forall>phi \<in> set phis. keeps_var s phi)"
    by (auto simp: plain_def)
qed

lemma wellg_edits:
  assumes "wellg st L V R" "edits st st' L' V'" "plain V'" "ret_set V' R" "\<And>t. clear V t \<Longrightarrow> clear V' t"
  shows "wellg st' L' V' R"
  using assms(1,3,4,5) edits_simps [OF assms(2)] by (simp add: wellg_def)

lemma wellgD:
  assumes "wellg st L V R"
  shows "graph (op_program st) L V" "plain V" "ret_set V R" "op_ret st \<in> R" "\<And>t. t \<in> set (ps_loop_break st) \<Longrightarrow> clear V t"
    "\<And>r. r \<in> R \<Longrightarrow> r < L"
  using assms ret_set_bound [of "op_program st" L V R] unfolding wellg_def by blast+

lemma wellg_node:
  assumes "wellg st L V R" "add_node st = (n, st')"
  shows "n = L" "edits st st' (Suc L) (V(L := fresh_view))" "wellg st' (Suc L) (V(L := fresh_view)) R"
proof -
  note w = wellgD [OF assms(1)]
  show "n = L" and e: "edits st st' (Suc L) (V(L := fresh_view))" by (rule add_node_graph [OF w(1) assms(2)])+
  have "L \<notin> R" using w(6) by blast
  then have "ret_set (V(L := fresh_view)) R" by (intro ret_set_cong [OF _ w(3)]) auto
  then show "wellg st' (Suc L) (V(L := fresh_view)) R"
    by (rule wellg_edits [OF assms(1) e plain_fresh [OF w(2,1)]]) simp
qed

lemma wellg_edge:
  assumes "wellg st L V R" "add_edge a b st = Ret st'" "a \<notin> R" "clear V b"
  shows "edits st st' L (with_edge a b V)" "wellg st' L (with_edge a b V) R"
proof -
  note w = wellgD [OF assms(1)]
  show e: "edits st st' L (with_edge a b V)" by (rule add_edge_graph [OF w(1) assms(2)])
  have "ret_set (with_edge a b V) R"
    using assms(3) by (intro ret_set_cong [OF _ w(3)]) (auto simp: with_edge_def)
  then show "wellg st' L (with_edge a b V) R"
    by (rule wellg_edits [OF assms(1) e plain_edge [OF w(2) assms(4)]]) simp
qed

lemma wellg_edit:
  assumes "wellg st L V R" "edits st st' L (with_block n f V)" "n \<notin> R" "\<And>ops phis cf. fst (snd (f (ops, phis, cf))) = phis"
  shows "wellg st' L (with_block n f V) R"
proof -
  note w = wellgD [OF assms(1)]
  have "ret_set (with_block n f V) R"
    using assms(3) by (intro ret_set_cong [OF _ w(3)]) (auto simp: with_block_def)
  moreover have "clear (with_block n f V) t" if "clear V t" for t
  proof -
    from that obtain ops cf where t: "fst (V t) = Some (ops, [], cf)" by (auto simp: clear_def)
    obtain ops' cf' where "f (ops, [], cf) = (ops', [], cf')"
      using assms(4) [of ops "[]" cf] by (cases "f (ops, [], cf)") auto
    with t show ?thesis by (auto simp: clear_def with_block_def)
  qed
  ultimately show ?thesis by (intro wellg_edits [OF assms(1,2) plain_block [OF w(2) assms(4)]])
qed

lemma wellg_cf:
  assumes "wellg st L V R" "set_control_flow n cf st = Ret st'" "n \<notin> R" "cf_jumps cf \<subseteq> {..<L}"
  shows "edits st st' L (with_block n (\<lambda>(ops, phis, _). (ops, phis, cf)) V)"
    "wellg st' L (with_block n (\<lambda>(ops, phis, _). (ops, phis, cf)) V) R"
proof -
  show e: "edits st st' L (with_block n (\<lambda>(ops, phis, _). (ops, phis, cf)) V)"
    using assms(1) by (intro set_control_flow_graph [OF _ assms(2,4)]) (simp add: wellg_def)
  show "wellg st' L (with_block n (\<lambda>(ops, phis, _). (ops, phis, cf)) V) R"
    by (rule wellg_edit [OF assms(1) e assms(3)]) simp
qed

lemma wellg_ops:
  assumes "wellg st L V R" "push_ops n insts st = Ret st'" "n \<notin> R"
  shows "edits st st' L (with_block n (\<lambda>(ops, phis, cf). (ops @ insts, phis, cf)) V)"
    "wellg st' L (with_block n (\<lambda>(ops, phis, cf). (ops @ insts, phis, cf)) V) R"
proof -
  show e: "edits st st' L (with_block n (\<lambda>(ops, phis, cf). (ops @ insts, phis, cf)) V)"
    using assms(1) by (intro push_ops_graph [OF _ assms(2)]) (simp add: wellg_def)
  show "wellg st' L (with_block n (\<lambda>(ops, phis, cf). (ops @ insts, phis, cf)) V) R"
    by (rule wellg_edit [OF assms(1) e assms(3)]) simp
qed

lemma wellg_use:
  assumes "wellg st L V R" "push_use n u st = Ret st'"
  shows "edits st st' L V" "wellg st' L V R"
proof -
  show e: "edits st st' L V" using assms(1) by (intro push_use_graph [OF _ assms(2)]) (simp add: wellg_def)
  with assms(1) edits_simps [OF e] show "wellg st' L V R" by (simp add: wellg_def)
qed

lemma wellg_current [simp]:
  "wellg (st\<lparr>ps_current_block := c\<rparr>) L V R = wellg st L V R"
  "wellg (st\<lparr>op_next_local := k\<rparr>) L V R = wellg st L V R"
  "wellg (st\<lparr>ps_pool := vs\<rparr>) L V R = wellg st L V R"
  by (simp_all add: wellg_def)

section \<open>What a parser does\<close>

definition brk_of :: "parser \<Rightarrow> node_index option" where
  "brk_of st = (if ps_loop_break st = [] then None else Some (last (ps_loop_break st)))"

definition pos_of :: "parser \<Rightarrow> (node_index \<Rightarrow> block_view) \<Rightarrow> block_position option" where
  "pos_of st V = map_option (\<lambda>c. (c, length (ops_of_view V c))) (ps_current_block st)"

text \<open>The states before and after a parser that starts at the block \<open>b\<close>.\<close>

definition grows ::
  "parser \<Rightarrow> nat \<Rightarrow> (node_index \<Rightarrow> block_view) \<Rightarrow> node_index set \<Rightarrow> node_index \<Rightarrow>
   parser \<Rightarrow> nat \<Rightarrow> (node_index \<Rightarrow> block_view) \<Rightarrow> node_index set \<Rightarrow> bool" where
  "grows st L V R b st' L' V' R' \<longleftrightarrow>
     well st' L' V' R' \<and> L \<le> L' \<and> R \<subseteq> R' \<and> (\<forall>r \<in> R'. r < L \<longrightarrow> r \<in> R) \<and> extends {..<L} {b} V V' \<and>
     ps_loop_break st' = ps_loop_break st \<and> (\<forall>c. ps_current_block st' = Some c \<longrightarrow> c = b \<or> L \<le> c) \<and>
     (\<exists>d \<le> L' - L. op_next_local st' = op_next_local st + of_nat d)"

lemma extends_trans:
  assumes "extends {..<L} {b} V V1" "extends {..<L1} {b1} V1 V2" "L \<le> L1" "b1 = b \<or> L \<le> b1"
  shows "extends {..<L} {b} V V2"
proof -
  have same: "V1 n = V n" if "n < L" "n \<noteq> b" for n using assms(1) that by (auto simp: extends_def)
  have same': "V2 n = V1 n" if "n < L1" "n \<noteq> b1" for n using assms(2) that by (auto simp: extends_def)
  have "open_at V b \<and> (\<exists>added cf ss. V2 b = (Some (ops_of_view V b @ added, [], cf), ss))" if b: "b < L"
  proof -
    from assms(1) b obtain added cf ss where V1: "open_at V b" "V1 b = (Some (ops_of_view V b @ added, [], cf), ss)"
      by (auto simp: extends_def)
    show ?thesis
    proof (cases "b1 = b")
      case True
      with assms(2,3) b obtain added2 cf2 ss2 where "V2 b = (Some (ops_of_view V1 b @ added2, [], cf2), ss2)"
        by (auto simp: extends_def)
      moreover have "ops_of_view V1 b = ops_of_view V b @ added" using V1(2) by (simp add: ops_of_view_def)
      ultimately show ?thesis using V1(1) by simp
    next
      case False
      with same' [of b] b assms(3) V1 show ?thesis by auto
    qed
  qed
  moreover have "V2 n = V n" if "n < L" "n \<noteq> b" for n
    using same [OF that] same' [of n] that assms(3,4) by fastforce
  ultimately show ?thesis by (simp add: extends_def)
qed

lemma grows_trans:
  assumes "grows st L V R b st1 L1 V1 R1" "grows st1 L1 V1 R1 b1 st2 L2 V2 R2" "ps_current_block st1 = Some b1"
  shows "grows st L V R b st2 L2 V2 R2"
proof -
  from assms(1) have g1: "L \<le> L1" "R \<subseteq> R1" "\<forall>r \<in> R1. r < L \<longrightarrow> r \<in> R" "extends {..<L} {b} V V1"
    "ps_loop_break st1 = ps_loop_break st" "b1 = b \<or> L \<le> b1" using assms(3) by (auto simp: grows_def)
  from assms(1,2) obtain d1 d2 where d: "d1 \<le> L1 - L" "op_next_local st1 = op_next_local st + of_nat d1"
    "d2 \<le> L2 - L1" "op_next_local st2 = op_next_local st1 + of_nat d2" by (auto simp: grows_def)
  from assms(2) have g2: "well st2 L2 V2 R2" "L1 \<le> L2" "R1 \<subseteq> R2" "\<forall>r \<in> R2. r < L1 \<longrightarrow> r \<in> R1" "extends {..<L1} {b1} V1 V2"
    "ps_loop_break st2 = ps_loop_break st1" "\<forall>c. ps_current_block st2 = Some c \<longrightarrow> c = b1 \<or> L1 \<le> c"
    by (auto simp: grows_def)
  have "extends {..<L} {b} V V2" by (rule extends_trans [OF g1(4) g2(5) g1(1,6)])
  moreover have "\<exists>d \<le> L2 - L. op_next_local st2 = op_next_local st + of_nat d"
    using d g1(1) g2(2) by (intro exI [of _ "d1 + d2"]) simp
  moreover have "r \<in> R" if "r \<in> R2" "r < L" for r using g1(1,3) g2(4) that by auto
  moreover have "c = b \<or> L \<le> c" if "ps_current_block st2 = Some c" for c using g1(1,6) g2(7) that by fastforce
  ultimately show ?thesis
    unfolding grows_def using g1(1,2,5) g2(1,2,3,6) by auto
qed

text \<open>The temporaries a parser that leaves \<open>L\<close> blocks may have created, when numbers were handed out from \<open>n0\<close>.\<close>

definition temps :: "u32 \<Rightarrow> nat \<Rightarrow> variable set" where
  "temps n0 L = {variable_new (LocalConst (n0 + of_nat j)) (item_new BoolE) | j. j < L}"

definition count_from :: "u32 \<Rightarrow> parser \<Rightarrow> nat \<Rightarrow> bool" where
  "count_from n0 st L = (\<exists>d \<le> L. op_next_local st = n0 + of_nat d)"

lemma grows_count: "grows st L V R b st' L' V' R' \<Longrightarrow> count_from n0 st L \<Longrightarrow> count_from n0 st' L'"
proof -
  assume "grows st L V R b st' L' V' R'" "count_from n0 st L"
  then obtain d d' where "L \<le> L'" "d \<le> L" "d' \<le> L' - L" "op_next_local st' = n0 + of_nat (d + d')"
    by (auto simp: grows_def count_from_def add.assoc)
  then show ?thesis unfolding count_from_def by (intro exI [of _ "d + d'"]) auto
qed

text \<open>The instruction before whatever follows it.\<close>

definition implements ::
  "variable set \<Rightarrow> parser \<Rightarrow> nat \<Rightarrow> (node_index \<Rightarrow> block_view) \<Rightarrow> node_index \<Rightarrow> variable instruction \<Rightarrow>
   parser \<Rightarrow> nat \<Rightarrow> (node_index \<Rightarrow> block_view) \<Rightarrow> node_index set \<Rightarrow> bool" where
  "implements T st L V b inst st' L' V' R' \<longleftrightarrow>
     (\<forall>G R N rest q. extends {..<L'} (set_option (ps_current_block st')) V' (view G) \<longrightarrow> R' \<subseteq> R \<longrightarrow>
        insert b {L..<L'} \<subseteq> N \<longrightarrow>
        (case pos_of st' V' of None \<Rightarrow> q = None | Some p \<Rightarrow> lowers G T R N (brk_of st) p rest q) \<longrightarrow>
        lowers G T R N (brk_of st) (b, length (ops_of_view V b)) (inst # rest) q)"

definition inst_ok :: "u32 \<Rightarrow> (parser \<Rightarrow> parser exec) \<Rightarrow> variable instruction \<Rightarrow> bool" where
  "inst_ok n0 parse inst \<longleftrightarrow>
     (\<forall>st L V R b st'. well st L V R \<longrightarrow> ps_current_block st = Some b \<longrightarrow> count_from n0 st L \<longrightarrow> parse st = Ret st' \<longrightarrow>
        (\<exists>L' V' R'. grows st L V R b st' L' V' R' \<and>
           (\<forall>T. temps n0 L' \<subseteq> T \<longrightarrow> implements T st L V b inst st' L' V' R')))"

definition scope_ok :: "u32 \<Rightarrow> scope_parser \<Rightarrow> variable scope \<Rightarrow> bool" where
  "scope_ok n0 ps sc \<longleftrightarrow>
     (\<forall>st L V R b brk st'. well st L V R \<longrightarrow> ps_current_block st = Some b \<longrightarrow> count_from n0 st L \<longrightarrow> ps sc st = Ret (brk, st') \<longrightarrow>
        (\<exists>L' V' R'. grows st L V R b st' L' V' R' \<and>
           (\<forall>T. temps n0 L' \<subseteq> T \<longrightarrow>
              lowers (op_program st') T R' (insert b {L..<L'}) (brk_of st) (b, length (ops_of_view V b)) (scope_insts sc) (pos_of st' V'))))"

section \<open>Instructions without scopes\<close>

lemma open_at_ops: "open_at V b \<Longrightarrow> V b = (Some (ops_of_view V b, [], NoneF), [])"
  by (auto simp: open_at_def ops_of_view_def)

lemma growsI:
  assumes "wellg st' L' V' R'" "\<And>c. ps_current_block st' = Some c \<Longrightarrow> open_at V' c \<and> c \<notin> R' \<and> (c = b \<or> L \<le> c)"
    and "L \<le> L'" "R \<subseteq> R'" "\<And>r. r \<in> R' \<Longrightarrow> r < L \<Longrightarrow> r \<in> R"
    and "open_at V b" "\<And>n. n < L \<Longrightarrow> n \<noteq> b \<Longrightarrow> V' n = V n" "V' b = (Some (ops_of_view V b @ added, [], cf), ss)"
    and "ps_loop_break st' = ps_loop_break st" "op_next_local st' = op_next_local st + of_nat d" "d \<le> L' - L"
  shows "grows st L V R b st' L' V' R'"
  unfolding grows_def well_def extends_def
  using assms by (intro conjI) auto

lemma ret_clear: "ret_set V R \<Longrightarrow> r \<in> R \<Longrightarrow> clear V r"
  by (fastforce simp: ret_set_def clear_def)

lemma plain_op_ok:
  assumes "\<not> is_branch inst"
  shows "inst_ok n0 (\<lambda>st. bindE (unwrap (ps_current_block st)) (\<lambda>current. push_ops current [inst] st)) inst"
  unfolding inst_ok_def
proof (intro allI impI)
  fix st L V R b st'
  assume well: "well st L V R" and cur: "ps_current_block st = Some b"
    and "bindE (unwrap (ps_current_block st)) (\<lambda>current. push_ops current [inst] st) = Ret st'"
  then have push: "push_ops b [inst] st = Ret st'" by simp
  from well cur have wg: "wellg st L V R" and opn: "open_at V b" and R: "b \<notin> R" by (auto simp: well_def)
  let ?V = "with_block b (\<lambda>(ops, phis, cf). (ops @ [inst], phis, cf)) V"
  note w = wellg_ops [OF wg push R] note e = edits_simps [OF w(1)]
  have Vb: "?V b = (Some (ops_of_view V b @ [inst], [], NoneF), [])"
    using open_at_ops [OF opn] by (simp add: with_block_def)
  have "grows st L V R b st' L ?V R"
    by (rule growsI [OF w(2) _ _ _ _ opn _ Vb, where d = 0])
      (use e cur R Vb in \<open>auto simp: with_block_def open_at_def\<close>)
  moreover have "implements T st L V b inst st' L ?V R" for T
    unfolding implements_def
  proof (intro allI impI)
    fix G R' N rest q
    assume ext: "extends {..<L} (set_option (ps_current_block st')) ?V (view G)" and N: "insert b {L..<L} \<subseteq> N"
      and rest: "case pos_of st' ?V of None \<Rightarrow> q = None | Some p \<Rightarrow> lowers G T R' N (brk_of st) p rest q"
    have "b < L" using open_bound [OF _ opn] wg by (auto simp: wellg_def)
    with ext cur e Vb obtain added cf ss where "view G b = (Some ((ops_of_view V b @ [inst]) @ added, [], cf), ss)"
      by (auto simp: extends_def ops_of_view_def)
    then have "op_at G N b (length (ops_of_view V b)) inst" using N by (auto simp: op_at_view)
    moreover have "ops_of_view ?V b = ops_of_view V b @ [inst]" using Vb by (simp add: ops_of_view_def)
    ultimately show "lowers G T R' N (brk_of st) (b, length (ops_of_view V b)) (inst # rest) q"
      using rest assms cur e by (intro lowers.Plain) (auto simp: pos_of_def)
  qed
  ultimately show "\<exists>L' V' R'. grows st L V R b st' L' V' R' \<and>
      (\<forall>T. temps n0 L' \<subseteq> T \<longrightarrow> implements T st L V b inst st' L' V' R')" by blast
qed

lemma ret_node_ok:
  assumes "wellg st L V R" "ret_node st = Ret (r, st')"
  shows "\<exists>L' V' R'. wellg st' L' V' R' \<and> r \<in> R' \<and> L \<le> L' \<and> R \<subseteq> R' \<and> (\<forall>r \<in> R'. r < L \<longrightarrow> r \<in> R) \<and>
    (\<forall>n < L. V' n = V n) \<and> op_next_local st' = op_next_local st \<and> ps_loop_break st' = ps_loop_break st \<and>
    ps_current_block st' = ps_current_block st"
proof (cases "r = op_ret st \<and> st' = st")
  case True
  with assms(1) show ?thesis by (intro exI [of _ L] exI [of _ V] exI [of _ R]) (auto simp: wellg_def)
next
  case False
  with assms(2) obtain st1 st2 where add: "add_node st = (r, st1)" "add_edge r (op_ret st) st1 = Ret st2"
    and st': "st' = st2\<lparr>op_ret := r\<rparr>"
    by (auto simp: ret_node_def bindE_eq_Ret split: prod.splits if_splits)
  note w0 = wellgD [OF assms(1)]
  note w1 = wellg_node [OF assms(1) add(1)]
  have "clear (V(L := fresh_view)) (op_ret st)" using ret_clear [OF w0(3,4)] by simp
  moreover have r: "r \<notin> R" using w0(6) w1(1) by blast
  ultimately have w2: "edits st1 st2 (Suc L) (with_edge r (op_ret st) (V(L := fresh_view)))"
    "wellg st2 (Suc L) (with_edge r (op_ret st) (V(L := fresh_view))) R"
    using wellg_edge [OF w1(3) add(2)] by auto
  let ?V = "with_edge r (op_ret st) (V(L := fresh_view))"
  have "ret_set ?V (insert r R)"
    using wellgD(3) [OF w2(2)] w0(4,6) w1(1) unfolding ret_set_def
    by (auto simp: with_edge_def fresh_view_def)
  with w2(2) have "wellg st' (Suc L) ?V (insert r R)" by (auto simp: wellg_def st')
  then show ?thesis
    using w1(1) edits_simps [OF w1(2)] edits_simps [OF w2(1)]
    by (intro exI [of _ "Suc L"] exI [of _ ?V] exI [of _ "insert r R"]) (auto simp: st' with_edge_def)
qed

text \<open>Leaving the current block for \<open>t\<close>.\<close>

lemma leave_grows:
  assumes "wellg st' L' V' R'" "open_at V b" "V' b = (Some (ops_of_view V b, [], NoneF), [t])" "ps_current_block st' = None"
    and "L \<le> L'" "R \<subseteq> R'" "\<And>r. r \<in> R' \<Longrightarrow> r < L \<Longrightarrow> r \<in> R" "\<And>n. n < L \<Longrightarrow> n \<noteq> b \<Longrightarrow> V' n = V n"
    and "ps_loop_break st' = ps_loop_break st" "op_next_local st' = op_next_local st"
  shows "grows st L V R b st' L' V' R'"
  by (rule growsI [OF assms(1) _ assms(5,6,7) assms(2) assms(8), where d = 0]) (use assms in auto)

lemma leave_jumps:
  assumes "V' b = (Some (ops_of_view V b, [], NoneF), [t])" "extends {..<L'} {} V' (view G)" "b < L'" "b \<in> N"
  shows "jumps G N b (length (ops_of_view V b)) t"
  using assms by (auto simp: extends_def jumps_view)

lemma return_ok:
  assumes "i_operation inst = BranchO ReturnB"
  shows "inst_ok n0 (parse_control_flow ps ReturnB) inst"
  unfolding inst_ok_def
proof (intro allI impI)
  fix st L V R b st'
  assume well: "well st L V R" and cur: "ps_current_block st = Some b" and "parse_control_flow ps ReturnB st = Ret st'"
  then obtain r st1 where ret: "ret_node (st\<lparr>ps_current_block := None\<rparr>) = Ret (r, st1)" "add_edge b r st1 = Ret st'"
    by (auto simp: bindE_eq_Ret)
  from well cur have wg: "wellg (st\<lparr>ps_current_block := None\<rparr>) L V R" and opn: "open_at V b" and R: "b \<notin> R"
    by (auto simp: well_def)
  from ret_node_ok [OF wg ret(1)] obtain L' V' R' where r: "wellg st1 L' V' R'" "r \<in> R'" "L \<le> L'" "R \<subseteq> R'"
    "\<forall>r \<in> R'. r < L \<longrightarrow> r \<in> R" "\<forall>n < L. V' n = V n" "op_next_local st1 = op_next_local st"
    "ps_loop_break st1 = ps_loop_break st" "ps_current_block st1 = None" by auto
  have b: "b < L" using open_bound [OF _ opn] wg by (auto simp: wellg_def)
  have bR: "b \<notin> R'" using r(5) R b by auto
  note e = wellg_edge [OF r(1) ret(2) bR ret_clear [OF wellgD(3) [OF r(1)] r(2)]]
  note f = edits_simps [OF e(1)]
  let ?V = "with_edge b r V'"
  have Vb: "?V b = (Some (ops_of_view V b, [], NoneF), [r])" using r(6) b open_at_ops [OF opn] by (simp add: with_edge_def)
  have "grows st L V R b st' L' ?V R'"
    by (rule leave_grows [OF e(2) opn Vb]) (use r f in \<open>auto simp: with_edge_def\<close>)
  moreover have "implements T st L V b inst st' L' ?V R'" for T
    unfolding implements_def using assms leave_jumps [of ?V b V, OF Vb] r(2,3) b f r(9)
    by (auto simp: pos_of_def intro!: lowers.Return)
  ultimately show "\<exists>L' V' R'. grows st L V R b st' L' V' R' \<and>
      (\<forall>T. temps n0 L' \<subseteq> T \<longrightarrow> implements T st L V b inst st' L' V' R')" by blast
qed

lemma break_ok:
  assumes "i_operation inst = BranchO BreakB"
  shows "inst_ok n0 (parse_control_flow ps BreakB) inst"
  unfolding inst_ok_def
proof (intro allI impI)
  fix st L V R b st'
  assume well: "well st L V R" and cur: "ps_current_block st = Some b" and "parse_control_flow ps BreakB st = Ret st'"
  then have lb: "ps_loop_break st \<noteq> []" and edge: "add_edge b (last (ps_loop_break st)) (st\<lparr>ps_current_block := None\<rparr>) = Ret st'"
    by (auto simp: bindE_eq_Ret split: if_splits)
  let ?t = "last (ps_loop_break st)"
  from well cur have wg: "wellg (st\<lparr>ps_current_block := None\<rparr>) L V R" and opn: "open_at V b" and R: "b \<notin> R"
    by (auto simp: well_def)
  have "clear V ?t" using wellgD(5) [OF wg] lb by simp
  note e = wellg_edge [OF wg edge R this] note f = edits_simps [OF e(1)]
  have b: "b < L" using open_bound [OF _ opn] wg by (auto simp: wellg_def)
  have Vb: "with_edge b ?t V b = (Some (ops_of_view V b, [], NoneF), [?t])"
    using open_at_ops [OF opn] by (simp add: with_edge_def)
  have "grows st L V R b st' L (with_edge b ?t V) R"
    by (rule leave_grows [OF e(2) opn Vb]) (use f in \<open>auto simp: with_edge_def\<close>)
  moreover have "implements T st L V b inst st' L (with_edge b ?t V) R" for T
    unfolding implements_def using assms leave_jumps [of "with_edge b ?t V" b V, OF Vb] b f lb
    by (auto simp: pos_of_def brk_of_def intro!: lowers.Break)
  ultimately show "\<exists>L' V' R'. grows st L V R b st' L' V' R' \<and>
      (\<forall>T. temps n0 L' \<subseteq> T \<longrightarrow> implements T st L V b inst st' L' V' R')" by blast
qed

section \<open>Scopes of a branch\<close>

text \<open>The scope \<open>sc\<close> has been parsed into the fresh block \<open>t\<close> and blocks of its own.\<close>

definition parsed_in ::
  "u32 \<Rightarrow> variable scope \<Rightarrow> node_index option \<Rightarrow> node_index \<Rightarrow> nat \<Rightarrow> (node_index \<Rightarrow> block_view) \<Rightarrow> node_index set \<Rightarrow>
   parser \<Rightarrow> nat \<Rightarrow> (node_index \<Rightarrow> block_view) \<Rightarrow> node_index set \<Rightarrow> bool" where
  "parsed_in n0 sc brk t L V R st' L' V' R' \<longleftrightarrow>
     wellg st' L' V' R' \<and> L \<le> L' \<and> R \<subseteq> R' \<and> (\<forall>r \<in> R'. r < L \<longrightarrow> r \<in> R) \<and> (\<forall>n < L. n \<noteq> t \<longrightarrow> V' n = V n) \<and>
     (\<forall>c. ps_current_block st' = Some c \<longrightarrow> open_at V' c \<and> c \<notin> R' \<and> c \<in> insert t {L..<L'}) \<and>
     (\<forall>T. temps n0 L' \<subseteq> T \<longrightarrow>
        lowers (op_program st') T R' (insert t {L..<L'}) brk (t, 0) (scope_insts sc) (pos_of st' V'))"

lemma enter_scope:
  assumes "scope_ok n0 ps sc" "wellg st L V R" "ps_current_block st = Some t" "V t = fresh_view" "t \<notin> R" "count_from n0 st L"
    and "ps sc st = Ret (is_break, st')"
  shows "\<exists>L' V' R'. parsed_in n0 sc (brk_of st) t L V R st' L' V' R' \<and> ps_loop_break st' = ps_loop_break st \<and>
    (\<exists>d \<le> L' - L. op_next_local st' = op_next_local st + of_nat d)"
proof -
  have "well st L V R" using assms by (simp add: well_def open_at_def fresh_view_def)
  with assms(1,3,6,7) obtain L' V' R' where g: "grows st L V R t st' L' V' R'"
    and low: "\<And>T. temps n0 L' \<subseteq> T \<Longrightarrow>
      lowers (op_program st') T R' (insert t {L..<L'}) (brk_of st) (t, length (ops_of_view V t)) (scope_insts sc) (pos_of st' V')"
    unfolding scope_ok_def by blast
  have "ops_of_view V t = []" using assms(4) by (simp add: ops_of_view_def fresh_view_def)
  moreover have "c < L'" if "ps_current_block st' = Some c" for c
    using g that open_bound [of "op_program st'" L' V' c] by (auto simp: grows_def well_def wellg_def)
  ultimately show ?thesis using g low unfolding parsed_in_def grows_def well_def extends_def
    by (intro exI [of _ L'] exI [of _ V'] exI [of _ R']) auto
qed

text \<open>After \<open>join\<close>, the block where the scope ends leads to \<open>nxt\<close>.\<close>

definition joined :: "parser \<Rightarrow> node_index \<Rightarrow> (node_index \<Rightarrow> block_view) \<Rightarrow> node_index \<Rightarrow> block_view" where
  "joined st nxt V = (case ps_current_block st of None \<Rightarrow> V | Some c \<Rightarrow> with_edge c nxt V)"

lemma join_ok:
  assumes "wellg st L V R" "\<And>c. ps_current_block st = Some c \<Longrightarrow> c \<notin> R" "clear V nxt" "join nxt st = Ret (left, st')"
  shows "edits st st' L (joined st nxt V)" "wellg st' L (joined st nxt V) R"
proof -
  have "edits st st' L (joined st nxt V) \<and> wellg st' L (joined st nxt V) R"
  proof (cases "ps_current_block st")
    case None
    with assms edits_refl [OF wellgD(1) [OF assms(1)]] show ?thesis by (auto simp: join_def joined_def)
  next
    case (Some c)
    with assms(4) have "add_edge c nxt st = Ret st'" by (auto simp: join_def bindE_eq_Ret)
    from wellg_edge [OF assms(1) this assms(2) [OF Some] assms(3)] Some show ?thesis by (simp add: joined_def)
  qed
  then show "edits st st' L (joined st nxt V)" "wellg st' L (joined st nxt V) R" by simp_all
qed

lemma joined_other: "ps_current_block st \<noteq> Some n \<Longrightarrow> joined st nxt V n = V n"
  by (auto simp: joined_def with_edge_def split: option.splits)

lemma joined_current:
  "ps_current_block st = Some c \<Longrightarrow> open_at V c \<Longrightarrow> joined st nxt V c = (Some (ops_of_view V c, [], NoneF), [nxt])"
  using open_at_ops [of V c] by (simp add: joined_def with_edge_def)

text \<open>A later graph that keeps the blocks of the scope implements it.\<close>

lemma part_lowers:
  assumes p: "parsed_in n0 sc brk t L V R st' L' V' R'" and T: "temps n0 L' \<subseteq> T"
    and G: "\<And>n. n \<in> insert t {L..<L'} \<Longrightarrow> view G n = joined st' nxt V' n" and "R' \<subseteq> RR" "insert t {L..<L'} \<subseteq> N"
  shows "\<exists>q. lowers G T RR N brk (t, 0) (scope_insts sc) q \<and> joins G N q nxt"
proof -
  have cur: "open_at V' c" "c \<in> insert t {L..<L'}" if "ps_current_block st' = Some c" for c
    using p that by (auto simp: parsed_in_def)
  have view: "view (op_program st') = V'" using p by (auto simp: parsed_in_def wellg_def graph_def)
  have "extends (insert t {L..<L'}) (set_option (ps_current_block st')) (view (op_program st')) (view G)"
    unfolding extends_def view
  proof (intro conjI ballI impI)
    fix n assume n: "n \<in> insert t {L..<L'}"
    show "view G n = V' n" if "n \<notin> set_option (ps_current_block st')"
      using G [OF n] joined_other [of st' n] that by auto
    assume "n \<in> set_option (ps_current_block st')"
    then have c: "ps_current_block st' = Some n" by simp
    show "open_at V' n" by (rule cur(1) [OF c])
    show "\<exists>added cf ss. view G n = (Some (ops_of_view V' n @ added, [], cf), ss)"
      using G [OF n] joined_current [OF c cur(1) [OF c]] by auto
  qed
  moreover have "lowers (op_program st') T R' (insert t {L..<L'}) brk (t, 0) (scope_insts sc) (pos_of st' V')"
    using p T by (auto simp: parsed_in_def)
  ultimately have "lowers G T RR N brk (t, 0) (scope_insts sc) (pos_of st' V')"
    using lowers_mono assms(4,5) by blast
  moreover have "joins G N (pos_of st' V') nxt"
    using G cur joined_current assms(5)
    by (cases "ps_current_block st'") (auto simp: joins_def pos_of_def jumps_view)
  ultimately show ?thesis by blast
qed

lemma mark_merge_ok:
  assumes "wellg st L V R" "mark_merge merge st = Ret st'"
  shows "edits st st' L V" "wellg st' L V R"
proof -
  have "edits st st' L V \<and> wellg st' L V R"
    using assms wellg_use [OF assms(1), of _ Merge st'] edits_refl [OF wellgD(1) [OF assms(1)]]
    by (cases merge) (auto simp: mark_merge_def)
  then show "edits st st' L V" "wellg st' L V R" by simp_all
qed

section \<open>Parsers of branches\<close>

lemma edits_trans: "edits st s1 L1 V1 \<Longrightarrow> edits s1 s2 L2 V2 \<Longrightarrow> edits st s2 L2 V2"
  by (auto simp: edits_def)

lemma enter_join:
  assumes ok: "scope_ok n0 ps sc" and wg: "wellg s L V R" "s0 = s\<lparr>ps_current_block := Some t\<rparr>" and t: "V t = fresh_view" "t \<notin> R"
    and count: "count_from n0 s L" and run: "ps sc s0 = Ret (is_break, s1)"
    and nxt: "clear V nxt" "nxt \<noteq> t" and join: "join nxt s1 = Ret (left, s2)"
  shows "\<exists>L' V' R' d. parsed_in n0 sc (brk_of s) t L V R s1 L' V' R' \<and> wellg s2 L' (joined s1 nxt V') R' \<and>
    L \<le> L' \<and> R \<subseteq> R' \<and> (\<forall>r \<in> R'. r < L \<longrightarrow> r \<in> R) \<and> (\<forall>m < L. m \<noteq> t \<longrightarrow> joined s1 nxt V' m = V m) \<and>
    ps_loop_break s2 = ps_loop_break s \<and> op_next_local s2 = op_next_local s + of_nat d \<and> d \<le> L' - L"
proof -
  have s0: "wellg s0 L V R" "ps_current_block s0 = Some t" "count_from n0 s0 L" "brk_of s0 = brk_of s"
    "ps_loop_break s0 = ps_loop_break s" "op_next_local s0 = op_next_local s"
    using wg count by (simp_all add: count_from_def brk_of_def)
  from enter_scope [OF ok s0(1,2) t s0(3) run] obtain L' V' R' d where
    p: "parsed_in n0 sc (brk_of s) t L V R s1 L' V' R'" and lb: "ps_loop_break s1 = ps_loop_break s"
    and d: "d \<le> L' - L" "op_next_local s1 = op_next_local s + of_nat d"
    by (auto simp: s0(4-6))
  from p have w1: "wellg s1 L' V' R'" and L': "L \<le> L'" and R': "R \<subseteq> R'" "\<And>r. r \<in> R' \<Longrightarrow> r < L \<Longrightarrow> r \<in> R"
    and V': "\<And>m. m < L \<Longrightarrow> m \<noteq> t \<Longrightarrow> V' m = V m"
    and cur: "\<And>c. ps_current_block s1 = Some c \<Longrightarrow> c \<notin> R' \<and> c \<in> insert t {L..<L'}"
    by (auto simp: parsed_in_def)
  have "nxt < L" using clear_bound [OF wellgD(1) [OF wg(1)] nxt(1)] .
  then have "clear V' nxt" using V' nxt by (simp add: clear_def)
  note j = join_ok [OF w1 _ this join]
  have "joined s1 nxt V' m = V m" if "m < L" "m \<noteq> t" for m
    using joined_other [of s1 m nxt V'] cur [of m] V' that by auto
  moreover have "edits s1 s2 L' (joined s1 nxt V')" "wellg s2 L' (joined s1 nxt V') R'" using j cur by auto
  ultimately show ?thesis
    using p L' R' lb d edits_simps [of s1 s2 L' "joined s1 nxt V'"]
    by (intro exI [of _ L'] exI [of _ V'] exI [of _ R'] exI [of _ d]) auto
qed

text \<open>A branch that ends by going on at the fresh block \<open>n\<close>.\<close>

lemma grows_next:
  assumes "wellg s L' V' R'" "st' = s\<lparr>ps_current_block := Some n\<rparr>" "V' n = fresh_view" "L \<le> n" "n \<notin> R'"
    and "L \<le> L'" "R \<subseteq> R'" "\<And>r. r \<in> R' \<Longrightarrow> r < L \<Longrightarrow> r \<in> R"
    and "open_at V b" "\<And>m. m < L \<Longrightarrow> m \<noteq> b \<Longrightarrow> V' m = V m" "V' b = (Some (ops_of_view V b @ added, [], cf), ss)"
    and "ps_loop_break s = ps_loop_break st" "op_next_local s = op_next_local st + of_nat d" "d \<le> L' - L"
  shows "grows st L V R b st' L' V' R'"
proof -
  have "wellg st' L' V' R'" using assms(1,2) by simp
  then show ?thesis
    by (rule growsI [OF _ _ assms(6,7,8,9,10,11)])
      (use assms(2-5,12-14) in \<open>auto simp: open_at_def fresh_view_def\<close>)
qed

lemma implements_next:
  assumes st': "st' = s\<lparr>ps_current_block := Some n\<rparr>" and n: "V' n = fresh_view"
    and "\<And>G RR N rest q. (\<And>m. m < L' \<Longrightarrow> m \<noteq> n \<Longrightarrow> view G m = V' m) \<Longrightarrow> R' \<subseteq> RR \<Longrightarrow> insert b {L..<L'} \<subseteq> N \<Longrightarrow>
      lowers G T RR N (brk_of st) (n, 0) rest q \<Longrightarrow> lowers G T RR N (brk_of st) (b, length (ops_of_view V b)) (inst # rest) q"
  shows "implements T st L V b inst st' L' V' R'"
  unfolding implements_def
proof (intro allI impI)
  fix G RR N rest q
  assume ext: "extends {..<L'} (set_option (ps_current_block st')) V' (view G)" and RR: "R' \<subseteq> RR" and N: "insert b {L..<L'} \<subseteq> N"
    and rest: "case pos_of st' V' of None \<Rightarrow> q = None | Some p \<Rightarrow> lowers G T RR N (brk_of st) p rest q"
  have "view G m = V' m" if "m < L'" "m \<noteq> n" for m using ext that by (auto simp: extends_def st')
  moreover have "lowers G T RR N (brk_of st) (n, 0) rest q"
    using rest n by (simp add: pos_of_def st' ops_of_view_def fresh_view_def)
  ultimately show "lowers G T RR N (brk_of st) (b, length (ops_of_view V b)) (inst # rest) q" by (rule assms(3) [OF _ RR N])
qed

lemma count_more: "count_from n0 st L \<Longrightarrow> op_next_local s = op_next_local st \<Longrightarrow> L \<le> L' \<Longrightarrow> count_from n0 s L'"
  by (auto simp: count_from_def intro: le_trans)

lemma parse_if_ok:
  assumes inst: "i_operation inst = BranchO (IfB cond sc)" and ok: "scope_ok n0 ps sc"
  shows "inst_ok n0 (parse_if ps cond sc) inst"
  unfolding inst_ok_def
proof (intro allI impI)
  fix st L V R b st'
  assume well: "well st L V R" and cur: "ps_current_block st = Some b" and count: "count_from n0 st L"
    and run: "parse_if ps cond sc st = Ret st'"
  from well cur have wg: "wellg st L V R" and opn: "open_at V b" and bR: "b \<notin> R" by (auto simp: well_def)
  note w = wellgD [OF wg]
  have b: "b < L" by (rule open_bound [OF w(1) opn])
  obtain t s1 where a1: "add_node st = (t, s1)" by force
  obtain n s2 where a2: "add_node s1 = (n, s2)" by force
  from run obtain s3 s4 brk s5 left s6 s7 s8 mrg where
    a3: "add_edge b t s2 = Ret s3" and a4: "add_edge b n s3 = Ret s4"
    and a5: "ps sc (s4\<lparr>ps_current_block := Some t\<rparr>) = Ret (brk, s5)" and a6: "join n s5 = Ret (left, s6)"
    and a7: "set_control_flow b (IfElseF cond t n mrg) s6 = Ret s7" and a8: "mark_merge mrg s7 = Ret s8"
    and st': "st' = s8\<lparr>ps_current_block := Some n\<rparr>"
    by (auto simp: parse_if_def cur a1 a2 bindE_eq_Ret Let_def)
  note g1 = wellg_node [OF wg a1] note g2 = wellg_node [OF g1(3) a2]
  have t: "t = L" and n: "n = Suc L" using g1 g2 by simp_all
  define V4 where "V4 = with_edge b n (with_edge b t (V(L := fresh_view, Suc L := fresh_view)))"
  have g3: "edits s2 s3 (Suc (Suc L)) (with_edge b t (V(L := fresh_view, Suc L := fresh_view)))"
    "wellg s3 (Suc (Suc L)) (with_edge b t (V(L := fresh_view, Suc L := fresh_view))) R"
    using wellg_edge [OF g2(3) a3 bR] by (simp_all add: t)
  have g4: "edits s3 s4 (Suc (Suc L)) V4" "wellg s4 (Suc (Suc L)) V4 R"
    using wellg_edge [OF g3(2) a4 bR] by (simp_all add: n V4_def)
  note e4 = edits_simps [OF edits_trans [OF g1(2) edits_trans [OF g2(2) edits_trans [OF g3(1) g4(1)]]]]
  have tR: "t \<notin> R" using w(6) t by blast
  have V4: "V4 t = fresh_view" "V4 n = fresh_view" "V4 b = (Some (ops_of_view V b, [], NoneF), [n, t])" "\<And>m. m < L \<Longrightarrow> m \<noteq> b \<Longrightarrow> V4 m = V m"
    using b t n open_at_ops [OF opn] by (auto simp: with_edge_def V4_def)
  have n4: "clear V4 n" "n \<noteq> t" using V4(2) t n by (simp_all add: clear_def fresh_view_def)
  have count4: "count_from n0 s4 (Suc (Suc L))" by (rule count_more [OF count e4(2)]) simp
  from enter_join [OF ok g4(2) refl V4(1) tR count4 a5 n4 a6]
  obtain L5 V5 R5 d where p: "parsed_in n0 sc (brk_of s4) t (Suc (Suc L)) V4 R s5 L5 V5 R5"
    and w6: "wellg s6 L5 (joined s5 n V5) R5" "Suc (Suc L) \<le> L5" "R \<subseteq> R5" "\<And>r. r \<in> R5 \<Longrightarrow> r < Suc (Suc L) \<Longrightarrow> r \<in> R"
    and V6: "\<And>m. m < Suc (Suc L) \<Longrightarrow> m \<noteq> t \<Longrightarrow> joined s5 n V5 m = V4 m"
    and s6: "ps_loop_break s6 = ps_loop_break s4" "op_next_local s6 = op_next_local s4 + of_nat d" "d \<le> L5 - Suc (Suc L)"
    by blast
  define V7 where "V7 = with_block b (\<lambda>(ops, phis, _). (ops, phis, IfElseF cond t n mrg)) (joined s5 n V5)"
  have "b \<notin> R5" "cf_jumps (IfElseF cond t n mrg) \<subseteq> {..<L5}" using w6(2,4) bR b t n by auto
  note g7 = wellg_cf [OF w6(1) a7 this, folded V7_def] note g8 = mark_merge_ok [OF g7(2) a8]
  note e8 = edits_simps [OF edits_trans [OF g7(1) g8(1)]]
  have V7: "V7 b = (Some (ops_of_view V b, [], IfElseF cond t n mrg), [n, t])" "V7 n = fresh_view"
    "\<And>m. m < L \<Longrightarrow> m \<noteq> b \<Longrightarrow> V7 m = V m" "\<And>m. m \<in> insert t {Suc (Suc L)..<L5} \<Longrightarrow> V7 m = joined s5 n V5 m"
    using V6 V4 b t n by (auto simp: V7_def with_block_def)
  have nR: "n \<notin> R5" using w6(4) [of n] w(6) [of n] n by auto
  have "grows st L V R b st' L5 V7 R5"
    by (rule grows_next [OF g8(2) st' V7(2) _ nR _ w6(3) _ opn V7(3), where added = "[]" and d = d])
      (use V7(1) w6 s6 e8 e4 n in auto)
  moreover have "implements T st L V b inst st' L5 V7 R5" if T: "temps n0 L5 \<subseteq> T" for T
  proof (rule implements_next [where V' = V7, OF st' V7(2)])
    fix G RR N rest q
    assume G: "\<And>m. m < L5 \<Longrightarrow> m \<noteq> n \<Longrightarrow> view G m = V7 m" and RR: "R5 \<subseteq> RR" and N: "insert b {L..<L5} \<subseteq> N"
      and rest: "lowers G T RR N (brk_of st) (n, 0) rest q"
    have "\<exists>q1. lowers G T RR N (brk_of s4) (t, 0) (scope_insts sc) q1 \<and> joins G N q1 n"
      by (rule part_lowers [OF p T _ RR]) (use G V7(4) w6(2) N t n in auto)
    moreover have "brk_of s4 = brk_of st" by (simp add: brk_of_def e4)
    moreover have "view G b = (Some (ops_of_view V b, [], IfElseF cond t n mrg), [n, t])"
      using G [of b] V7(1) b w6(2) n by simp
    ultimately show "lowers G T RR N (brk_of st) (b, length (ops_of_view V b)) (inst # rest) q"
      using N rest by (auto simp: ends_view successors_view intro!: lowers.If [OF inst])
  qed
  ultimately show "\<exists>L' V' R'. grows st L V R b st' L' V' R' \<and>
      (\<forall>T. temps n0 L' \<subseteq> T \<longrightarrow> implements T st L V b inst st' L' V' R')" by blast
qed

lemma count_add:
  assumes "count_from n0 st L" "op_next_local s = op_next_local st + of_nat d" "d \<le> L' - L" "L \<le> L'"
  shows "count_from n0 s L'"
proof -
  from assms(1) obtain k where k: "k \<le> L" "op_next_local st = n0 + of_nat k" by (auto simp: count_from_def)
  have "op_next_local s = n0 + of_nat (k + d)" "k + d \<le> L'" using assms k by simp_all
  then show ?thesis unfolding count_from_def by blast
qed

lemma parse_if_else_ok:
  assumes inst: "i_operation inst = BranchO (IfElseB cond sc1 sc2)" and ok: "scope_ok n0 ps sc1" "scope_ok n0 ps sc2"
  shows "inst_ok n0 (parse_if_else ps cond sc1 sc2) inst"
  unfolding inst_ok_def
proof (intro allI impI)
  fix st L V R b st'
  assume well: "well st L V R" and cur: "ps_current_block st = Some b" and count: "count_from n0 st L"
    and run: "parse_if_else ps cond sc1 sc2 st = Ret st'"
  from well cur have wg: "wellg st L V R" and opn: "open_at V b" and bR: "b \<notin> R" by (auto simp: well_def)
  note w = wellgD [OF wg]
  have b: "b < L" by (rule open_bound [OF w(1) opn])
  obtain t s1 where a1: "add_node st = (t, s1)" by force
  obtain e s2 where a2: "add_node s1 = (e, s2)" by force
  obtain n s3 where a3: "add_node s2 = (n, s3)" by force
  from run obtain s4 s5 brk1 s6 left1 s7 brk2 s8 left2 s9 s10 s11 mrg where
    a4: "add_edge b t s3 = Ret s4" and a5: "add_edge b e s4 = Ret s5"
    and a6: "ps sc1 (s5\<lparr>ps_current_block := Some t\<rparr>) = Ret (brk1, s6)" and a7: "join n s6 = Ret (left1, s7)"
    and a8: "ps sc2 (s7\<lparr>ps_current_block := Some e\<rparr>) = Ret (brk2, s8)" and a9: "join n s8 = Ret (left2, s9)"
    and a10: "set_control_flow b (IfElseF cond t e mrg) s9 = Ret s10" and a11: "mark_merge mrg s10 = Ret s11"
    and st': "st' = s11\<lparr>ps_current_block := Some n\<rparr>"
    by (auto simp: parse_if_else_def cur a1 a2 a3 bindE_eq_Ret Let_def)
  note g1 = wellg_node [OF wg a1] note g2 = wellg_node [OF g1(3) a2] note g3 = wellg_node [OF g2(3) a3]
  let ?L = "Suc (Suc (Suc L))"
  have t: "t = L" and e: "e = Suc L" and n: "n = Suc (Suc L)" using g1 g2 g3 by simp_all
  define V3 where "V3 = V(L := fresh_view, Suc L := fresh_view, Suc (Suc L) := fresh_view)"
  define V5 where "V5 = with_edge b e (with_edge b t V3)"
  have g4: "edits s3 s4 ?L (with_edge b t V3)" "wellg s4 ?L (with_edge b t V3) R"
    using wellg_edge [OF g3(3) a4 bR] by (simp_all add: t V3_def)
  have g5: "edits s4 s5 ?L V5" "wellg s5 ?L V5 R"
    using wellg_edge [OF g4(2) a5 bR] by (simp_all add: e V5_def V3_def)
  note f5 = edits_simps [OF edits_trans [OF g1(2) edits_trans [OF g2(2) edits_trans [OF g3(2) edits_trans [OF g4(1) g5(1)]]]]]
  have fR: "t \<notin> R" "e \<notin> R" "n \<notin> R" using w(6) t e n by force+
  have V5: "V5 t = fresh_view" "V5 e = fresh_view" "V5 n = fresh_view" "V5 b = (Some (ops_of_view V b, [], NoneF), [e, t])"
    "\<And>m. m < L \<Longrightarrow> m \<noteq> b \<Longrightarrow> V5 m = V m"
    using b t e n open_at_ops [OF opn] by (auto simp: with_edge_def V5_def V3_def)
  have n5: "clear V5 n" "n \<noteq> t" using V5(3) t n by (simp_all add: clear_def fresh_view_def)
  have count5: "count_from n0 s5 ?L" by (rule count_more [OF count f5(2)]) simp
  from enter_join [OF ok(1) g5(2) refl V5(1) fR(1) count5 a6 n5 a7]
  obtain L6 V6 R6 d1 where p1: "parsed_in n0 sc1 (brk_of s5) t ?L V5 R s6 L6 V6 R6"
    and w7: "wellg s7 L6 (joined s6 n V6) R6" "?L \<le> L6" "R \<subseteq> R6" "\<And>r. r \<in> R6 \<Longrightarrow> r < ?L \<Longrightarrow> r \<in> R"
    and V7: "\<And>m. m < ?L \<Longrightarrow> m \<noteq> t \<Longrightarrow> joined s6 n V6 m = V5 m"
    and s7: "ps_loop_break s7 = ps_loop_break s5" "op_next_local s7 = op_next_local s5 + of_nat d1" "d1 \<le> L6 - ?L"
    by blast
  have e7: "joined s6 n V6 e = fresh_view" "e \<notin> R6" using V7 [of e] V5(2) w7(4) [of e] fR(2) t e by auto
  have n7: "clear (joined s6 n V6) n" "n \<noteq> e" using V7 [of n] V5(3) t n e by (simp_all add: clear_def fresh_view_def)
  have count7: "count_from n0 s7 L6" by (rule count_add [OF count5 s7(2,3) w7(2)])
  from enter_join [OF ok(2) w7(1) refl e7 count7 a8 n7 a9]
  obtain L8 V8 R8 d2 where p2: "parsed_in n0 sc2 (brk_of s7) e L6 (joined s6 n V6) R6 s8 L8 V8 R8"
    and w9: "wellg s9 L8 (joined s8 n V8) R8" "L6 \<le> L8" "R6 \<subseteq> R8" "\<And>r. r \<in> R8 \<Longrightarrow> r < L6 \<Longrightarrow> r \<in> R6"
    and V9: "\<And>m. m < L6 \<Longrightarrow> m \<noteq> e \<Longrightarrow> joined s8 n V8 m = joined s6 n V6 m"
    and s9: "ps_loop_break s9 = ps_loop_break s7" "op_next_local s9 = op_next_local s7 + of_nat d2" "d2 \<le> L8 - L6"
    by blast
  define V10 where "V10 = with_block b (\<lambda>(ops, phis, _). (ops, phis, IfElseF cond t e mrg)) (joined s8 n V8)"
  have old: "r \<in> R" if "r \<in> R8" "r < ?L" for r using w9(4) w7(2,4) that by auto
  have "b \<notin> R8" "n \<notin> R8" using old [of b] old [of n] bR fR b n by auto
  have "cf_jumps (IfElseF cond t e mrg) \<subseteq> {..<L8}" using w7(2) w9(2) t e by auto
  note g10 = wellg_cf [OF w9(1) a10 \<open>b \<notin> R8\<close> this, folded V10_def] note g11 = mark_merge_ok [OF g10(2) a11]
  note f11 = edits_simps [OF edits_trans [OF g10(1) g11(1)]]
  have V10: "V10 b = (Some (ops_of_view V b, [], IfElseF cond t e mrg), [e, t])" "V10 n = fresh_view"
    "\<And>m. m < L \<Longrightarrow> m \<noteq> b \<Longrightarrow> V10 m = V m"
    "\<And>m. m \<in> insert t {?L..<L6} \<Longrightarrow> V10 m = joined s6 n V6 m" "\<And>m. m \<in> insert e {L6..<L8} \<Longrightarrow> V10 m = joined s8 n V8 m"
    using V9 V7 V5 b t e n w7(2) by (auto simp: V10_def with_block_def)
  have next': "op_next_local s11 = op_next_local st + of_nat (d1 + d2)" "d1 + d2 \<le> L8 - L"
    using f11 f5 s7 s9 w7(2) w9(2) by (simp_all add: add.assoc)
  have "grows st L V R b st' L8 V10 R8"
    by (rule grows_next [OF g11(2) st' V10(2) _ \<open>n \<notin> R8\<close> _ _ _ opn V10(3), where added = "[]" and d = "d1 + d2"])
      (use V10(1) w7 w9 s7 s9 f11 f5 n old next' in auto)
  moreover have "implements T st L V b inst st' L8 V10 R8" if T: "temps n0 L8 \<subseteq> T" for T
  proof (rule implements_next [where V' = V10, OF st' V10(2)])
    fix G RR N rest q
    assume G: "\<And>m. m < L8 \<Longrightarrow> m \<noteq> n \<Longrightarrow> view G m = V10 m" and RR: "R8 \<subseteq> RR" and N: "insert b {L..<L8} \<subseteq> N"
      and rest: "lowers G T RR N (brk_of st) (n, 0) rest q"
    have T6: "temps n0 L6 \<subseteq> T" using T w9(2) by (auto simp: temps_def intro: less_le_trans)
    have brk: "brk_of s5 = brk_of st" "brk_of s7 = brk_of st" by (simp_all add: brk_of_def f5 s7)
    have "\<exists>q1. lowers G T RR N (brk_of s5) (t, 0) (scope_insts sc1) q1 \<and> joins G N q1 n"
      by (rule part_lowers [OF p1 T6]) (use G V10(4) w7(2) w9(2,3) RR N t n in auto)
    moreover have "\<exists>q2. lowers G T RR N (brk_of s7) (e, 0) (scope_insts sc2) q2 \<and> joins G N q2 n"
      by (rule part_lowers [OF p2 T]) (use G V10(5) w7(2) w9(2) RR N e n in auto)
    moreover have "view G b = (Some (ops_of_view V b, [], IfElseF cond t e mrg), [e, t])"
      using G [of b] V10(1) b w7(2) w9(2) n by simp
    ultimately show "lowers G T RR N (brk_of st) (b, length (ops_of_view V b)) (inst # rest) q"
      using N rest brk by (auto simp: ends_view successors_view intro!: lowers.IfElse [OF inst])
  qed
  ultimately show "\<exists>L' V' R'. grows st L V R b st' L' V' R' \<and>
      (\<forall>T. temps n0 L' \<subseteq> T \<longrightarrow> implements T st L V b inst st' L' V' R')" by blast
qed

end
