(* ===== verification/Opt_Lowering_Loops.thy ===== *)
theory Opt_Lowering_Loops
  imports Opt_Lowering_Sound
begin

text \<open>
  The parsers of switches and loops, and the parser of scopes: what they build has the shape \<open>lowers\<close>.
\<close>

section \<open>Switches\<close>

text \<open>The part of \<open>grows\<close> that does not name the current block.\<close>

definition grown ::
  "parser \<Rightarrow> nat \<Rightarrow> node_index set \<Rightarrow> parser \<Rightarrow> nat \<Rightarrow> (node_index \<Rightarrow> block_view) \<Rightarrow> node_index set \<Rightarrow> bool" where
  "grown s L R s' L' V' R' \<longleftrightarrow> wellg s' L' V' R' \<and> L \<le> L' \<and> R \<subseteq> R' \<and> (\<forall>r \<in> R'. r < L \<longrightarrow> r \<in> R) \<and>
     ps_loop_break s' = ps_loop_break s \<and> (\<exists>d \<le> L' - L. op_next_local s' = op_next_local s + of_nat d)"

lemma grownD:
  assumes "grown s L R s' L' V' R'"
  shows "wellg s' L' V' R'" "L \<le> L'" "R \<subseteq> R'" "\<And>r. r \<in> R' \<Longrightarrow> r < L \<Longrightarrow> r \<in> R" "ps_loop_break s' = ps_loop_break s"
    "brk_of s' = brk_of s" "count_from n0 s L \<Longrightarrow> count_from n0 s' L'"
proof -
  show "wellg s' L' V' R'" "L \<le> L'" "R \<subseteq> R'" "\<And>r. r \<in> R' \<Longrightarrow> r < L \<Longrightarrow> r \<in> R" and lb: "ps_loop_break s' = ps_loop_break s"
    using assms by (simp_all add: grown_def)
  show "brk_of s' = brk_of s" by (simp add: brk_of_def lb)
  show "count_from n0 s L \<Longrightarrow> count_from n0 s' L'" using assms by (auto simp: grown_def intro: count_add)
qed

lemma grown_trans:
  assumes "grown s L R s1 L1 V1 R1" "grown s1 L1 R1 s2 L2 V2 R2"
  shows "grown s L R s2 L2 V2 R2"
proof -
  from assms obtain d1 d2 where d: "d1 \<le> L1 - L" "op_next_local s1 = op_next_local s + of_nat d1"
    "d2 \<le> L2 - L1" "op_next_local s2 = op_next_local s1 + of_nat d2" by (auto simp: grown_def)
  note g1 = grownD [OF assms(1)] and g2 = grownD [OF assms(2)]
  have "\<exists>d \<le> L2 - L. op_next_local s2 = op_next_local s + of_nat d"
    using d g1(2) g2(2) by (intro exI [of _ "d1 + d2"]) simp
  moreover have "r \<in> R" if "r \<in> R2" "r < L" for r using g1(2,4) g2(2,4) that by auto
  ultimately show ?thesis using g1 g2 by (auto simp: grown_def)
qed

lemma grown_earlier:
  assumes "grown s L R s' L' V' R'" "L0 \<le> L"
  shows "grown s L0 R s' L' V' R'"
proof -
  from assms(1) obtain d where "d \<le> L' - L" "op_next_local s' = op_next_local s + of_nat d" by (auto simp: grown_def)
  with assms(2) have "\<exists>d \<le> L' - L0. op_next_local s' = op_next_local s + of_nat d" by (intro exI [of _ d]) simp
  with assms show ?thesis by (simp add: grown_def)
qed

lemma grown_edits:
  assumes "edits s s' L' V'" "wellg s' L' V' R" "L \<le> L'" "R0 \<subseteq> R" "\<And>r. r \<in> R \<Longrightarrow> r < L \<Longrightarrow> r \<in> R0"
  shows "grown s L R0 s' L' V' R"
  using assms edits_simps [OF assms(1)] by (auto simp: grown_def intro!: exI [of _ 0])

text \<open>A scope parsed into the fresh block \<open>t\<close>, which then goes on at \<open>nxt\<close>.\<close>

lemma enter_join_grown:
  assumes "scope_ok n0 ps sc" "wellg s L V R" "V t = fresh_view" "t \<notin> R" "count_from n0 s L"
    and "ps sc (s\<lparr>ps_current_block := Some t\<rparr>) = Ret (is_break, s1)" "clear V nxt" "nxt \<noteq> t" "join nxt s1 = Ret (left, s2)"
  shows "\<exists>L' V' R'. parsed_in n0 sc (brk_of s) t L V R s1 L' V' R' \<and> grown s L R s2 L' (joined s1 nxt V') R' \<and>
    (\<forall>m < L. m \<noteq> t \<longrightarrow> joined s1 nxt V' m = V m)"
  using enter_join [OF assms(1,2) refl assms(3-9)] unfolding grown_def by blast

text \<open>One case of a switch, parsed into the fresh block \<open>L\<close>.\<close>

lemma parse_case_ok:
  assumes ok: "scope_ok n0 ps (snd c)" and wg: "wellg s L V R" and bR: "b \<notin> R" "b < L" and n: "n < L" "V n = fresh_view"
    and count: "count_from n0 s L" and run: "parse_case ps b n c s = Ret (r, s')"
  shows "\<exists>L' V' R' s1. fst (snd r) = L \<and> switch_label (fst c) = Ret (fst r) \<and>
    parsed_in n0 (snd c) (brk_of s) L (Suc L) (with_edge b L (V(L := fresh_view))) R s1 L' V' R' \<and>
    grown s (Suc L) R s' L' (joined s1 n V') R' \<and>
    (\<forall>m < L. joined s1 n V' m = with_edge b L V m)"
proof -
  obtain t s0 where a1: "add_node s = (t, s0)" by force
  note g1 = wellg_node [OF wg a1]
  from run obtain s2 brk s3 left val where a2: "add_edge b t s0 = Ret s2"
    and a3: "ps (snd c) (s2\<lparr>ps_current_block := Some t\<rparr>) = Ret (brk, s3)" and a4: "join n s3 = Ret (left, s')"
    and a5: "switch_label (fst c) = Ret val" "r = (val, t, brk, left \<and> \<not> brk)"
    by (auto simp: parse_case_def a1 bindE_eq_Ret Let_def)
  let ?V = "with_edge b L (V(L := fresh_view))"
  have g2: "edits s0 s2 (Suc L) ?V" "wellg s2 (Suc L) ?V R"
    using wellg_edge [OF g1(3) a2 bR(1)] by (simp_all add: g1(1))
  note e2 = edits_trans [OF g1(2) g2(1)] note f2 = edits_simps [OF e2]
  have V: "?V t = fresh_view" "t \<notin> R" "clear ?V n" "n \<noteq> t"
    using bR(2) n g1(1) wellgD(6) [OF wg] by (auto simp: with_edge_def clear_def fresh_view_def)
  have count2: "count_from n0 s2 (Suc L)" by (rule count_more [OF count f2(2)]) simp
  from enter_join_grown [OF ok g2(2) V(1,2) count2 a3 V(3,4) a4] obtain L' V' R' where
    p: "parsed_in n0 (snd c) (brk_of s2) t (Suc L) ?V R s3 L' V' R'" "grown s2 (Suc L) R s' L' (joined s3 n V') R'"
    "\<forall>m < Suc L. m \<noteq> t \<longrightarrow> joined s3 n V' m = ?V m" by blast
  have "grown s (Suc L) R s2 (Suc L) ?V R" by (rule grown_edits [OF e2 g2(2)]) auto
  from grown_trans [OF this p(2)] have "grown s (Suc L) R s' L' (joined s3 n V') R'" .
  moreover have "parsed_in n0 (snd c) (brk_of s) L (Suc L) ?V R s3 L' V' R'"
    using p(1) grownD(6) [OF \<open>grown s (Suc L) R s2 (Suc L) ?V R\<close>] by (simp add: g1(1))
  moreover have "joined s3 n V' m = with_edge b L V m" if "m < L" for m
    using p(3) that bR(2) g1(1) by (auto simp: with_edge_def)
  ultimately show ?thesis using a5 g1(1) by (intro exI [of _ L'] exI [of _ V'] exI [of _ R'] exI [of _ s3]) auto
qed

definition cases_lowered ::
  "program \<Rightarrow> variable set \<Rightarrow> node_index set \<Rightarrow> node_index set \<Rightarrow> node_index option \<Rightarrow> node_index \<Rightarrow>
   (variable \<times> variable scope) list \<Rightarrow> (u32 \<times> node_index \<times> bool \<times> bool) list \<Rightarrow> bool" where
  "cases_lowered G T R N brk n =
     list_all2 (\<lambda>c r. switch_label (fst c) = Ret (fst r) \<and>
       (\<exists>q. lowers G T R N brk (fst (snd r), 0) (scope_insts (snd c)) q \<and> joins G N q n))"

text \<open>The cases that start at block \<open>L\<close>, in any later graph that keeps their blocks.\<close>

definition cases_in ::
  "u32 \<Rightarrow> node_index option \<Rightarrow> node_index \<Rightarrow> (variable \<times> variable scope) list \<Rightarrow> (u32 \<times> node_index \<times> bool \<times> bool) list \<Rightarrow>
   nat \<Rightarrow> nat \<Rightarrow> (node_index \<Rightarrow> block_view) \<Rightarrow> node_index set \<Rightarrow> bool" where
  "cases_in n0 brk n cs rs L L' V' R' \<longleftrightarrow>
     (\<forall>T G RR N. temps n0 L' \<subseteq> T \<longrightarrow> (\<forall>m \<in> {L..<L'}. view G m = V' m) \<longrightarrow> R' \<subseteq> RR \<longrightarrow> {L..<L'} \<subseteq> N \<longrightarrow>
        cases_lowered G T RR N brk n cs rs)"

lemma temps_mono: "temps n0 L' \<subseteq> T \<Longrightarrow> L \<le> L' \<Longrightarrow> temps n0 L \<subseteq> T"
  by (auto simp: temps_def intro: less_le_trans)

lemma cases_in_Cons:
  assumes p: "parsed_in n0 (snd c) brk L (Suc L) V R s L1 V1 R1" and rest: "cases_in n0 brk n cs rs L1 L' V' R'"
    and r: "fst (snd r) = L" "switch_label (fst c) = Ret (fst r)" and L: "Suc L \<le> L1" "L1 \<le> L'" "R1 \<subseteq> R'"
    and V': "\<And>m. L \<le> m \<Longrightarrow> m < L1 \<Longrightarrow> V' m = joined s n V1 m"
  shows "cases_in n0 brk n (c # cs) (r # rs) L L' V' R'"
  unfolding cases_in_def
proof (intro allI impI)
  fix T G RR N
  assume T: "temps n0 L' \<subseteq> T" and G: "\<forall>m \<in> {L..<L'}. view G m = V' m" and RR: "R' \<subseteq> RR" and N: "{L..<L'} \<subseteq> N"
  have "\<exists>q. lowers G T RR N brk (L, 0) (scope_insts (snd c)) q \<and> joins G N q n"
  proof (rule part_lowers [OF p temps_mono [OF T L(2)]])
    show "view G m = joined s n V1 m" if "m \<in> insert L {Suc L..<L1}" for m using G V' L that by auto
    show "R1 \<subseteq> RR" "insert L {Suc L..<L1} \<subseteq> N" using RR N L by auto
  qed
  moreover have "cases_lowered G T RR N brk n cs rs"
  proof -
    have "\<forall>m \<in> {L1..<L'}. view G m = V' m" "{L1..<L'} \<subseteq> N" using G N L(1) by auto
    with rest T RR show ?thesis unfolding cases_in_def by blast
  qed
  ultimately show "cases_lowered G T RR N brk n (c # cs) (r # rs)" using r by (simp add: cases_lowered_def)
qed

lemma parse_cases_ok:
  assumes "\<forall>c \<in> set cs. scope_ok n0 ps (snd c)" "wellg s L V R" "b \<notin> R" "b < L" "n < L" "n \<noteq> b" "V n = fresh_view"
    and "V b = (Some (ops, [], NoneF), ss)" "count_from n0 s L" "parse_cases ps b n cs s = Ret (rs, s')"
  shows "\<exists>L' V' R' ss'. grown s L R s' L' V' R' \<and> (\<forall>m < L. m \<noteq> b \<longrightarrow> V' m = V m) \<and> V' b = (Some (ops, [], NoneF), ss') \<and>
    set ss \<union> (\<lambda>r. fst (snd r)) ` set rs \<subseteq> set ss' \<and> cases_in n0 (brk_of s) n cs rs L L' V' R'"
  using assms
proof (induction cs arbitrary: s L V R ss rs)
  case Nil
  then have "grown s L R s' L V R" by (auto simp: grown_def)
  with Nil show ?case
    by (intro exI [of _ L] exI [of _ V] exI [of _ R] exI [of _ ss]) (auto simp: cases_lowered_def cases_in_def)
next
  case (Cons c cs)
  from Cons.prems(10) obtain r s1 rs' where run: "parse_case ps b n c s = Ret (r, s1)"
    "parse_cases ps b n cs s1 = Ret (rs', s')" and rs: "rs = r # rs'" by (auto simp: bindE_eq_Ret)
  have "scope_ok n0 ps (snd c)" using Cons.prems(1) by simp
  from parse_case_ok [OF this Cons.prems(2,3,4,5,7,9) run(1)] obtain L1 V1 R1 s0 where
    r: "fst (snd r) = L" "switch_label (fst c) = Ret (fst r)"
    and p: "parsed_in n0 (snd c) (brk_of s) L (Suc L) (with_edge b L (V(L := fresh_view))) R s0 L1 V1 R1"
    and g1: "grown s (Suc L) R s1 L1 (joined s0 n V1) R1"
    and V1: "\<forall>m < L. joined s0 n V1 m = with_edge b L V m" by blast
  let ?V1 = "joined s0 n V1"
  have g: "grown s L R s1 L1 ?V1 R1" by (rule grown_earlier [OF g1]) simp
  have V1': "?V1 n = fresh_view" "?V1 b = (Some (ops, [], NoneF), L # ss)" "\<And>m. m < L \<Longrightarrow> m \<noteq> b \<Longrightarrow> ?V1 m = V m"
    using V1 Cons.prems(4-8) by (auto simp: with_edge_def)
  have ok1: "\<forall>c \<in> set cs. scope_ok n0 ps (snd c)" using Cons.prems(1) by simp
  have b1: "b \<notin> R1" "b < L1" "n < L1" using grownD(2,4) [OF g] Cons.prems(3-5) by auto
  from Cons.IH [OF ok1 grownD(1) [OF g] b1 Cons.prems(6) V1'(1,2) grownD(7) [OF g Cons.prems(9)] run(2)] obtain L' V' R' ss' where
    g': "grown s1 L1 R1 s' L' V' R'" and V': "\<forall>m < L1. m \<noteq> b \<longrightarrow> V' m = ?V1 m" "V' b = (Some (ops, [], NoneF), ss')"
    and ss': "set (L # ss) \<union> (\<lambda>r. fst (snd r)) ` set rs' \<subseteq> set ss'" and low: "cases_in n0 (brk_of s1) n cs rs' L1 L' V' R'"
    by blast
  have "cases_in n0 (brk_of s) n (c # cs) rs L L' V' R'"
    unfolding rs by (rule cases_in_Cons [OF p low [unfolded grownD(6) [OF g]] r])
      (use grownD(2,3) [OF g'] grownD(2) [OF g1] V'(1) Cons.prems(4) in auto)
  moreover have "V' m = V m" if "m < L" "m \<noteq> b" for m using V'(1) V1'(3) grownD(2) [OF g] that by simp
  moreover have "set ss \<union> (\<lambda>r. fst (snd r)) ` set rs \<subseteq> set ss'" using ss' rs r(1) by auto
  ultimately show ?case using grown_trans [OF g g'] V'(2)
    by (intro exI [of _ L'] exI [of _ V'] exI [of _ R'] exI [of _ ss']) simp
qed

lemma grows_at_next:
  assumes g: "grown st L R s L' V' R'" and "st' = s\<lparr>ps_current_block := Some n\<rparr>" "V' n = fresh_view" "L \<le> n" "n \<notin> R'"
    and "open_at V b" "\<And>m. m < L \<Longrightarrow> m \<noteq> b \<Longrightarrow> V' m = V m" "V' b = (Some (ops_of_view V b @ added, [], cf), ss)"
  shows "grows st L V R b st' L' V' R'"
proof -
  from g obtain d where d: "d \<le> L' - L" "op_next_local s = op_next_local st + of_nat d" by (auto simp: grown_def)
  note g' = grownD [OF g]
  show ?thesis by (rule grows_next [OF g'(1) assms(2-5) g'(2,3,4) assms(6-8) g'(5) d(2,1)])
qed

lemma switch_merge_ok:
  assumes "wellg st L V R" "(if x then Ret (None, st) else if y then Ret (Some (op_ret st), st)
      else bindE (push_use nxt Merge st) (\<lambda>st. Ret (Some nxt, st))) = Ret (merge, st')"
  shows "edits st st' L V" "wellg st' L V R"
proof -
  have "edits st st' L V \<and> wellg st' L V R"
    using assms wellg_use [OF assms(1), of nxt Merge st'] edits_refl [OF wellgD(1) [OF assms(1)]]
    by (auto simp: bindE_eq_Ret split: if_splits)
  then show "edits st st' L V" "wellg st' L V R" by simp_all
qed

lemma switch_lowers:
  assumes inst: "i_operation inst = BranchO (SwitchB v sc cs)"
    and view: "view G b = (Some (ops, [], SwitchF v t (map (\<lambda>b. (fst b, fst (snd b))) rs) mrg), t # ss)" "b \<in> N"
      "(\<lambda>r. fst (snd r)) ` set rs \<subseteq> set ss"
    and dflt: "\<exists>q1. lowers G T R N brk (t, 0) (scope_insts sc) q1 \<and> joins G N q1 n"
    and cases: "cases_lowered G T R N brk n cs rs" and rest: "lowers G T R N brk (n, 0) rest q"
  shows "lowers G T R N brk (b, length ops) (inst # rest) q"
proof -
  let ?bs = "map (\<lambda>b. (fst b, fst (snd b))) rs"
  from dflt obtain q1 where q1: "lowers G T R N brk (t, 0) (scope_insts sc) q1" "joins G N q1 n" by blast
  have "ends G N b (length ops) (SwitchF v t ?bs mrg)" "insert t (snd ` set ?bs) \<subseteq> set (successors G b)"
    using view by (auto simp: ends_view successors_view)
  moreover have "list_all2 (\<lambda>c t. switch_label (fst c) = Ret (fst t) \<and>
      (\<exists>q2. lowers G T R N brk (snd t, 0) (scope_insts (snd c)) q2 \<and> joins G N q2 n)) cs ?bs"
    using cases by (simp add: cases_lowered_def list.rel_map)
  ultimately show ?thesis by (rule lowers.Switch [OF inst _ _ q1 _ rest])
qed

lemma parse_switch_ok:
  assumes inst: "i_operation inst = BranchO (SwitchB v sc cs)" and ok: "scope_ok n0 ps sc" "\<forall>c \<in> set cs. scope_ok n0 ps (snd c)"
  shows "inst_ok n0 (parse_switch ps v sc cs) inst"
  unfolding inst_ok_def
proof (intro allI impI)
  fix st L V R b st'
  assume well: "well st L V R" and cur: "ps_current_block st = Some b" and count: "count_from n0 st L"
    and run: "parse_switch ps v sc cs st = Ret st'"
  from well cur have wg: "wellg st L V R" and opn: "open_at V b" and bR: "b \<notin> R" by (auto simp: well_def)
  note w = wellgD [OF wg]
  have b: "b < L" by (rule open_bound [OF w(1) opn])
  obtain n s1 where a1: "add_node st = (n, s1)" by force
  from run obtain rs s2 where a2: "parse_cases ps b n cs s1 = Ret (rs, s2)"
    by (auto simp: parse_switch_def cur a1 bindE_eq_Ret Let_def)
  obtain t s3 where a3: "add_node s2 = (t, s3)" by force
  from run obtain s4 brk s5 left s6 mrg s7 s8 x y where
    a4: "add_edge b t s3 = Ret s4" and a5: "ps sc (s4\<lparr>ps_current_block := Some t\<rparr>) = Ret (brk, s5)" and a6: "join n s5 = Ret (left, s6)"
    and a7: "(if x then Ret (None, s6) else if y then Ret (Some (op_ret s6), s6)
      else bindE (push_use n Merge s6) (\<lambda>st. Ret (Some n, st))) = Ret (mrg, s7)"
    and a8: "set_control_flow b (SwitchF v t (map (\<lambda>b. (fst b, fst (snd b))) rs) mrg) s7 = Ret s8"
    and st': "st' = s8\<lparr>ps_current_block := Some n\<rparr>"
    by (auto simp: parse_switch_def cur a1 a2 a3 bindE_eq_Ret Let_def simp del: if_split)
  let ?bs = "map (\<lambda>b. (fst b, fst (snd b))) rs"
  note g1 = wellg_node [OF wg a1]
  have n: "n = L" and nb: "n \<noteq> b" using g1(1) b by simp_all
  define V1 where "V1 = V(L := fresh_view)"
  have V1: "V1 n = fresh_view" "V1 b = (Some (ops_of_view V b, [], NoneF), [])" "\<And>m. m < L \<Longrightarrow> V1 m = V m"
    using n b open_at_ops [OF opn] by (auto simp: V1_def)
  have "grown st L R s1 (Suc L) V1 R" by (rule grown_edits [OF g1(2,3) [folded V1_def]]) auto
  note h1 = this grownD [OF this]
  have "b < Suc L" "n < Suc L" using b n by simp_all
  from parse_cases_ok [OF ok(2) h1(2) bR this nb V1(1,2) h1(8) [OF count] a2] obtain L2 V2 R2 ss where
    h2: "grown s1 (Suc L) R s2 L2 V2 R2" and V2: "\<forall>m < Suc L. m \<noteq> b \<longrightarrow> V2 m = V1 m" "V2 b = (Some (ops_of_view V b, [], NoneF), ss)"
    and "set [] \<union> (\<lambda>r. fst (snd r)) ` set rs \<subseteq> set ss" and low: "cases_in n0 (brk_of s1) n cs rs (Suc L) L2 V2 R2" by blast
  then have ss: "(\<lambda>r. fst (snd r)) ` set rs \<subseteq> set ss" by simp
  note h12 = grown_trans [OF h1(1) h2]
  note d2 = grownD [OF h12]
  have L2: "Suc L \<le> L2" by (rule grownD(2) [OF h2])
  note g3 = wellg_node [OF d2(1) a3]
  have t: "t = L2" using g3(1) .
  have bR2: "b \<notin> R2" "n \<notin> R2" using grownD(4) [OF h2] bR b n w(6) by force+
  define V4 where "V4 = with_edge b t (V2(L2 := fresh_view))"
  have g4: "edits s3 s4 (Suc L2) V4" "wellg s4 (Suc L2) V4 R2"
    using wellg_edge [OF g3(3) a4 bR2(1)] by (simp_all add: t V4_def)
  have h4: "grown s2 L2 R2 s4 (Suc L2) V4 R2" by (rule grown_edits [OF edits_trans [OF g3(2) g4(1)] g4(2)]) auto
  note h14 = grown_trans [OF h12 h4]
  note d4 = grownD [OF h14]
  have V4: "V4 t = fresh_view" "V4 n = fresh_view" "V4 b = (Some (ops_of_view V b, [], NoneF), t # ss)"
    "\<And>m. m < L2 \<Longrightarrow> m \<noteq> b \<Longrightarrow> V4 m = V2 m"
    using b n nb t V2 V1 L2 by (auto simp: V4_def with_edge_def)
  have t4: "t \<notin> R2" "clear V4 n" "n \<noteq> t" using V4(2) wellgD(6) [OF d2(1), of t] t n L2 by (auto simp: clear_def fresh_view_def)
  from enter_join_grown [OF ok(1) d4(1) V4(1) t4(1) d4(7) [OF count] a5 t4(2,3) a6] obtain L6 V6 R6 where
    p: "parsed_in n0 sc (brk_of s4) t (Suc L2) V4 R2 s5 L6 V6 R6" and h6: "grown s4 (Suc L2) R2 s6 L6 (joined s5 n V6) R6"
    and V6: "\<forall>m < Suc L2. m \<noteq> t \<longrightarrow> joined s5 n V6 m = V4 m" by blast
  note d6 = grownD [OF h6]
  note g7 = switch_merge_ok [OF d6(1) a7]
  define V8 where "V8 = with_block b (\<lambda>(ops, phis, _). (ops, phis, SwitchF v t ?bs mrg)) (joined s5 n V6)"
  have R6: "b \<notin> R6" "n \<notin> R6" using d6(4) bR2 b n L2 by force+
  have "cf_jumps (SwitchF v t ?bs mrg) \<subseteq> {..<L6}"
  proof -
    have "fst (snd r) < L2" if "r \<in> set rs" for r
      using graph_simps(5) [OF wellgD(1) [OF d2(1)], of "fst (snd r)" b] ss V2(2) that by auto
    then show ?thesis using t d6(2) by fastforce
  qed
  note g8 = wellg_cf [OF g7(2) a8 R6(1) this, folded V8_def]
  have h8: "grown s6 L6 R6 s8 L6 V8 R6" by (rule grown_edits [OF edits_trans [OF g7(1) g8(1)] g8(2)]) auto
  note h = grown_trans [OF grown_trans [OF h14 h6] h8]
  have V8: "V8 b = (Some (ops_of_view V b, [], SwitchF v t ?bs mrg), t # ss)" "V8 n = fresh_view"
    "\<And>m. m < L2 \<Longrightarrow> m \<noteq> b \<Longrightarrow> V8 m = V2 m" "\<And>m. m \<in> insert t {Suc L2..<L6} \<Longrightarrow> V8 m = joined s5 n V6 m"
    using V6 V4 b n t nb L2 by (auto simp: V8_def with_block_def)
  have "grows st L V R b st' L6 V8 R6"
    by (rule grows_at_next [OF h st' V8(2) _ R6(2) opn, where added = "[]"]) (use V8 V2(1) V1(3) L2 n in auto)
  moreover have "implements T st L V b inst st' L6 V8 R6" if T: "temps n0 L6 \<subseteq> T" for T
  proof (rule implements_next [where V' = V8, OF st' V8(2)])
    fix G RR N rest q
    assume G: "\<And>m. m < L6 \<Longrightarrow> m \<noteq> n \<Longrightarrow> view G m = V8 m" and RR: "R6 \<subseteq> RR" and N: "insert b {L..<L6} \<subseteq> N"
      and rest: "lowers G T RR N (brk_of st) (n, 0) rest q"
    have "\<exists>q1. lowers G T RR N (brk_of s4) (t, 0) (scope_insts sc) q1 \<and> joins G N q1 n"
      by (rule part_lowers [OF p T _ RR]) (use G V8(4) d6(2) L2 N t n in auto)
    moreover have "cases_lowered G T RR N (brk_of s1) n cs rs"
    proof -
      have "\<forall>m \<in> {Suc L..<L2}. view G m = V2 m" "{Suc L..<L2} \<subseteq> N" "R2 \<subseteq> RR"
        using G V8(3) d6(2,3) N b n RR by auto
      with low temps_mono [OF T, of L2] d6(2) show ?thesis unfolding cases_in_def by simp
    qed
    moreover have "view G b = (Some (ops_of_view V b, [], SwitchF v t ?bs mrg), t # ss)"
      using G [of b] V8(1) b L2 d6(2) nb by simp
    moreover have "brk_of s4 = brk_of st" "brk_of s1 = brk_of st" using d4(6) h1(7) by simp_all
    ultimately show "lowers G T RR N (brk_of st) (b, length (ops_of_view V b)) (inst # rest) q"
      using N rest ss by (intro switch_lowers [OF inst]) simp_all
  qed
  ultimately show "\<exists>L' V' R'. grows st L V R b st' L' V' R' \<and>
      (\<forall>T. temps n0 L' \<subseteq> T \<longrightarrow> implements T st L V b inst st' L' V' R')" by blast
qed

section \<open>Loops\<close>

text \<open>The body of a loop is parsed with the block after the loop as the target of its breaks.\<close>

lemma enter_loop:
  assumes "scope_ok n0 ps sc" "wellg s L V R" "V t = fresh_view" "t \<notin> R" "count_from n0 s L" "clear V n"
    and "ps sc (s\<lparr>ps_loop_break := ps_loop_break s @ [n], ps_current_block := Some t\<rparr>) = Ret (is_break, s1)"
  shows "\<exists>L' V' R'. parsed_in n0 sc (Some n) t L V R s1 L' V' R' \<and>
    grown (s\<lparr>ps_loop_break := ps_loop_break s @ [n]\<rparr>) L R s1 L' V' R' \<and> (\<forall>m < L. m \<noteq> t \<longrightarrow> V' m = V m)"
proof -
  let ?s = "s\<lparr>ps_loop_break := ps_loop_break s @ [n], ps_current_block := Some t\<rparr>"
  have s0: "wellg ?s L V R" "ps_current_block ?s = Some t" "count_from n0 ?s L" "brk_of ?s = Some n"
    using assms(2,5,6) by (auto simp: wellg_def count_from_def brk_of_def)
  from enter_scope [OF assms(1) s0(1,2) assms(3,4) s0(3) assms(7)] obtain L' V' R' d where
    "parsed_in n0 sc (Some n) t L V R s1 L' V' R'" "ps_loop_break s1 = ps_loop_break s @ [n]"
    "d \<le> L' - L" "op_next_local s1 = op_next_local s + of_nat d" unfolding s0(4) by auto
  then show ?thesis
    by (intro exI [of _ L'] exI [of _ V'] exI [of _ R']) (auto simp: parsed_in_def grown_def)
qed

lemma grown_pop:
  assumes "grown (s\<lparr>ps_loop_break := ps_loop_break s @ [n]\<rparr>) L R s1 L' V' R'"
  shows "grown s L R (s1\<lparr>ps_loop_break := butlast (ps_loop_break s1)\<rparr>) L' V' R'"
  using assms by (auto simp: grown_def wellg_def)

lemma joined_cong: "ps_current_block s = ps_current_block s' \<Longrightarrow> V m = V' m \<Longrightarrow> joined s nxt V m = joined s' nxt V' m"
  by (auto simp: joined_def with_edge_def split: option.splits)

text \<open>The header, the first block of the body and the block after the loop.\<close>

lemma loop_blocks:
  assumes wg: "wellg st L V R" and b: "V b = (Some (ops, [], NoneF), [])" "b \<notin> R"
    and run: "add_node st = (h, s1)" "add_edge b h s1 = Ret s2" "add_node s2 = (t, s3)" "add_node s3 = (n, s4)"
      "add_edge h t s4 = Ret s5"
  shows "h = L \<and> t = Suc L \<and> n = Suc (Suc L) \<and> b < L \<and> h \<notin> R \<and> t \<notin> R \<and> n \<notin> R" (is ?ids)
    "\<exists>V'. edits st s5 (Suc (Suc (Suc L))) V' \<and> wellg s5 (Suc (Suc (Suc L))) V' R \<and>
      V' b = (Some (ops, [], NoneF), [h]) \<and> V' h = (Some ([], [], NoneF), [t]) \<and> V' t = fresh_view \<and> V' n = fresh_view \<and>
      (\<forall>m < L. m \<noteq> b \<longrightarrow> V' m = V m)"
proof -
  note w = wellgD [OF wg]
  have bL: "b < L" using graph_simps(4) [OF w(1), of b] b(1) by (cases "b < L") auto
  note g1 = wellg_node [OF wg run(1)]
  have g2: "edits s1 s2 (Suc L) (with_edge b h (V(L := fresh_view)))" "wellg s2 (Suc L) (with_edge b h (V(L := fresh_view))) R"
    using wellg_edge [OF g1(3) run(2) b(2)] by (simp_all add: g1(1))
  note g3 = wellg_node [OF g2(2) run(3)] note g4 = wellg_node [OF g3(3) run(4)]
  show ids: ?ids using g1(1) g3(1) g4(1) bL w(6) by force
  define V5 where "V5 = with_edge h t ((with_edge b h (V(L := fresh_view)))(Suc L := fresh_view, Suc (Suc L) := fresh_view))"
  have "clear ((with_edge b h (V(L := fresh_view)))(Suc L := fresh_view, Suc (Suc L) := fresh_view)) t" using ids by simp
  then have g5: "edits s4 s5 (Suc (Suc (Suc L))) V5" "wellg s5 (Suc (Suc (Suc L))) V5 R"
    using wellg_edge [OF g4(3) run(5)] ids unfolding V5_def by blast+
  have "V5 b = (Some (ops, [], NoneF), [h])" "V5 h = (Some ([], [], NoneF), [t])" "V5 t = fresh_view" "V5 n = fresh_view"
    "\<forall>m < L. m \<noteq> b \<longrightarrow> V5 m = V m"
    using ids b(1) by (auto simp: V5_def with_edge_def fresh_view_def)
  with g5 edits_trans [OF g1(2) edits_trans [OF g2(1) edits_trans [OF g3(2) edits_trans [OF g4(2) g5(1)]]]]
  show "\<exists>V'. edits st s5 (Suc (Suc (Suc L))) V' \<and> wellg s5 (Suc (Suc (Suc L))) V' R \<and>
      V' b = (Some (ops, [], NoneF), [h]) \<and> V' h = (Some ([], [], NoneF), [t]) \<and> V' t = fresh_view \<and> V' n = fresh_view \<and>
      (\<forall>m < L. m \<noteq> b \<longrightarrow> V' m = V m)" by blast
qed

lemma parse_loop_ok:
  assumes inst: "i_operation inst = BranchO (LoopB sc)" and ok: "scope_ok n0 ps sc"
  shows "inst_ok n0 (parse_loop ps sc) inst"
  unfolding inst_ok_def
proof (intro allI impI)
  fix st L V R b st'
  assume well: "well st L V R" and cur: "ps_current_block st = Some b" and count: "count_from n0 st L"
    and run: "parse_loop ps sc st = Ret st'"
  from well cur have wg: "wellg st L V R" and opn: "open_at V b" and bR: "b \<notin> R" by (auto simp: well_def)
  note w = wellgD [OF wg]
  have b: "b < L" by (rule open_bound [OF w(1) opn])
  obtain h s1 where a1: "add_node st = (h, s1)" by force
  from run obtain s2 where a2: "add_edge b h s1 = Ret s2"
    by (auto simp: parse_loop_def cur a1 bindE_eq_Ret Let_def)
  obtain t s3 where a3: "add_node s2 = (t, s3)" by force
  obtain n s4 where a4: "add_node s3 = (n, s4)" by force
  from run obtain s5 brk s6 where a5: "add_edge h t s4 = Ret s5"
    and a6: "ps sc (s5\<lparr>ps_loop_break := ps_loop_break s5 @ [n], ps_current_block := Some t\<rparr>) = Ret (brk, s6)"
    by (auto simp: parse_loop_def cur a1 a2 a3 a4 bindE_eq_Ret Let_def)
  obtain c s7 where a7: "add_node s6 = (c, s7)" by force
  from run obtain s8 left s9 s10 s11 s12 where a8: "push_use c ContinueTarget s7 = Ret s8"
    and a9: "join c (s8\<lparr>ps_loop_break := butlast (ps_loop_break s8)\<rparr>) = Ret (left, s9)"
    and a10: "add_edge c h s9 = Ret s10" and a11: "set_control_flow h (LoopF t c n) s10 = Ret s11"
    and a12: "push_use n Merge s11 = Ret s12" and st': "st' = s12\<lparr>ps_current_block := Some n\<rparr>"
    by (auto simp: parse_loop_def cur a1 a2 a3 a4 a5 a6 a7 bindE_eq_Ret Let_def)
  note blocks = loop_blocks [OF wg open_at_ops [OF opn] bR a1 a2 a3 a4 a5]
  let ?L = "Suc (Suc (Suc L))"
  have h: "h = L" "h \<notin> R" and t: "t = Suc L" "t \<notin> R" and n: "n = Suc (Suc L)" "n \<notin> R" using blocks(1) by blast+
  from blocks(2) obtain V5 where e5: "edits st s5 ?L V5" and w5: "wellg s5 ?L V5 R" and
    V5: "V5 b = (Some (ops_of_view V b, [], NoneF), [h])" "V5 h = (Some ([], [], NoneF), [t])" "V5 t = fresh_view" "V5 n = fresh_view"
      "\<forall>m < L. m \<noteq> b \<longrightarrow> V5 m = V m" by blast
  have h5: "grown st L R s5 ?L V5 R" by (rule grown_edits [OF e5 w5]) auto
  have "clear V5 n" using V5(4) by (simp add: clear_def fresh_view_def)
  from enter_loop [OF ok w5 V5(3) t(2) grownD(7) [OF h5 count] this a6] obtain L6 V6 R6 where
    p: "parsed_in n0 sc (Some n) t ?L V5 R s6 L6 V6 R6" and h6: "grown (s5\<lparr>ps_loop_break := ps_loop_break s5 @ [n]\<rparr>) ?L R s6 L6 V6 R6"
    and V6: "\<forall>m < ?L. m \<noteq> t \<longrightarrow> V6 m = V5 m" by blast
  note d6 = grownD [OF h6]
  note g7 = wellg_node [OF d6(1) a7] note g8 = wellg_use [OF g7(3) a8] note e8 = edits_trans [OF g7(2) g8(1)]
  have c: "c = L6" using g7(1) .
  define V8 where "V8 = V6(L6 := fresh_view)"
  let ?s8 = "s8\<lparr>ps_loop_break := butlast (ps_loop_break s8)\<rparr>"
  have h8: "grown s5 ?L R ?s8 (Suc L6) V8 R6"
    by (rule grown_pop [OF grown_trans [OF h6 grown_edits [OF e8 [folded V8_def] g8(2) [folded V8_def]]]]) auto
  note d8 = grownD [OF h8]
  have cur8: "ps_current_block ?s8 = ps_current_block s6" using edits_simps(4) [OF e8] by simp
  have cur6: "m \<notin> R6 \<and> m \<in> insert t {?L..<L6}" if "ps_current_block s6 = Some m" for m
    using p that by (auto simp: parsed_in_def)
  have c8: "clear V8 c" by (simp add: V8_def c clear_def fresh_view_def)
  define V9 where "V9 = joined ?s8 c V8"
  have g9: "edits ?s8 s9 (Suc L6) V9" "wellg s9 (Suc L6) V9 R6"
    using join_ok [OF d8(1) _ c8 a9] cur6 cur8 by (auto simp: V9_def)
  have V9: "V9 m = joined s6 c V6 m" if "m \<noteq> c" for m
    unfolding V9_def using cur8 that by (intro joined_cong) (auto simp: V8_def c)
  have L6: "?L \<le> L6" using d6(2) .
  have V9': "V9 m = V5 m" if "m < ?L" "m \<noteq> t" for m
    using V9 [of m] V6 that cur6 [of m] L6 c joined_other [of s6 m c V6] by auto
  have "V9 c = fresh_view"
    using cur6 [of c] cur8 L6 c t joined_other [of ?s8 c c V8] by (auto simp: V8_def V9_def)
  then have V9'': "V9 b = V5 b" "V9 h = V5 h" "V9 n = V5 n" "V9 c = fresh_view" "\<forall>m < L. m \<noteq> b \<longrightarrow> V9 m = V m"
    using V9' V5(5) blocks(1) by simp_all
  have R6: "c \<notin> R6" "h \<notin> R6" "n \<notin> R6" using d6(4) h n c L6 wellgD(6) [OF d6(1)] by force+
  have "clear V9 h" using V9''(2) V5(2) by (simp add: clear_def)
  note g10 = wellg_edge [OF g9(2) a10 R6(1) this] note g11 = wellg_cf [OF g10(2) a11 R6(2), simplified] note g12 = wellg_use [OF g11(2) a12]
  define V12 where "V12 = with_block h (\<lambda>(ops, phis, _). (ops, phis, LoopF t c n)) (with_edge c h V9)"
  have "grown ?s8 (Suc L6) R6 s12 (Suc L6) V12 R6"
    unfolding V12_def by (rule grown_edits [OF edits_trans [OF g9(1) edits_trans [OF g10(1) edits_trans [OF g11(1) g12(1)]]] g12(2)]) auto
  note g = grown_trans [OF h5 grown_trans [OF h8 this]]
  have V12: "V12 b = (Some (ops_of_view V b, [], NoneF), [h])" "V12 h = (Some ([], [], LoopF t c n), [t])" "V12 n = fresh_view"
    "V12 c = (Some ([], [], NoneF), [h])" "\<And>m. m < L \<Longrightarrow> m \<noteq> b \<Longrightarrow> V12 m = V m" "\<And>m. m \<in> insert t {?L..<L6} \<Longrightarrow> V12 m = joined s6 c V6 m"
    using blocks(1) V9 V9'' V5 c L6 by (auto simp: V12_def with_block_def with_edge_def fresh_view_def)
  have "grows st L V R b st' (Suc L6) V12 R6"
    by (rule grows_at_next [OF g st' V12(3) _ R6(3) opn V12(5), where added = "[]"]) (use V12(1) n in auto)
  moreover have "implements T st L V b inst st' (Suc L6) V12 R6" if T: "temps n0 (Suc L6) \<subseteq> T" for T
  proof (rule implements_next [where V' = V12, OF st' V12(3)])
    fix G RR N rest q
    assume G: "\<And>m. m < Suc L6 \<Longrightarrow> m \<noteq> n \<Longrightarrow> view G m = V12 m" and RR: "R6 \<subseteq> RR" and N: "insert b {L..<Suc L6} \<subseteq> N"
      and rest: "lowers G T RR N (brk_of st) (n, 0) rest q"
    have "\<exists>q1. lowers G T RR N (Some n) (t, 0) (scope_insts sc) q1 \<and> joins G N q1 c"
      by (rule part_lowers [OF p temps_mono [OF T] _ RR]) (use G V12(6) L6 N t n in auto)
    then obtain q1 where "lowers G T RR N (Some n) (t, 0) (scope_insts sc) q1" "joins G N q1 c" by blast
    moreover have "view G b = V12 b" "view G h = V12 h" "view G c = V12 c" using G [of b] G [of h] G [of c] blocks(1) L6 c by auto
    moreover have "b \<in> N" "h \<in> N" "c \<in> N" using N blocks(1) L6 c by auto
    ultimately show "lowers G T RR N (brk_of st) (b, length (ops_of_view V b)) (inst # rest) q"
      using rest V12(1,2,4) by (intro lowers.Loop [OF inst, of G N b _ h t c n]) (auto simp: ends_view jumps_view successors_view)
  qed
  ultimately show "\<exists>L' V' R'. grows st L V R b st' L' V' R' \<and>
      (\<forall>T. temps n0 L' \<subseteq> T \<longrightarrow> implements T st L V b inst st' L' V' R')" by blast
qed

section \<open>Counting loops\<close>

lemma insert_variable_simps [simp]:
  "wellg (insert_variable i it st) L V R = wellg st L V R"
  "op_next_local (insert_variable i it st) = op_next_local st"
  "ps_current_block (insert_variable i it st) = ps_current_block st"
  "ps_loop_break (insert_variable i it st) = ps_loop_break st"
proof -
  have "view (op_program (insert_variable i it st)) = view (op_program st)"
    by (rule ext) (simp add: view_def insert_variable_def successors_def)
  then show "wellg (insert_variable i it st) L V R = wellg st L V R"
    by (auto simp: wellg_def graph_def insert_variable_def)
qed (simp_all add: insert_variable_def)

lemma grown_current [simp]: "grown s L R (s'\<lparr>ps_current_block := c\<rparr>) L' V' R' = grown s L R s' L' V' R'"
  by (simp add: grown_def)

lemma grown_insert_variable [simp]: "grown (insert_variable i it s) L R s' L' V' R' = grown s L R s' L' V' R'"
  by (simp add: grown_def)

lemma grown_bump:
  assumes "grown s (Suc L) R s' L' V' R'"
  shows "grown s L R (s'\<lparr>op_next_local := op_next_local s' + 1\<rparr>) L' V' R'"
proof -
  from assms obtain d where "d \<le> L' - Suc L" "op_next_local s' = op_next_local s + of_nat d" by (auto simp: grown_def)
  with grownD(2) [OF assms] have "\<exists>d \<le> L' - L. op_next_local s' + 1 = op_next_local s + of_nat d"
    by (intro exI [of _ "Suc d"]) auto
  with assms show ?thesis by (simp add: grown_def)
qed

text \<open>The local a counting loop creates is a temporary of the parser.\<close>

lemma grown_temps:
  assumes "count_from n0 s L" "grown s (Suc L) R s' L' V' R'"
  shows "variable_new (LocalConst (op_next_local s')) (item_new BoolE) \<in> temps n0 L'"
proof -
  from assms(2) obtain d where d: "d \<le> L' - Suc L" "op_next_local s' = op_next_local s + of_nat d" by (auto simp: grown_def)
  from assms(1) obtain k where k: "k \<le> L" "op_next_local s = n0 + of_nat k" by (auto simp: count_from_def)
  have "op_next_local s' = n0 + of_nat (k + d)" "k + d < L'" using d k grownD(2) [OF assms(2)] by auto
  then show ?thesis by (auto simp: temps_def simp del: of_nat_add)
qed

lemma wellg_phi:
  assumes "wellg st L V R" "insert_phi n i it st = Ret st'" "n \<notin> R" "n \<notin> set (ps_loop_break st)"
  shows "\<exists>phi. edits st st' L (with_block n (\<lambda>(ops, phis, cf). (ops, phis @ [phi], cf)) V) \<and>
    wellg st' L (with_block n (\<lambda>(ops, phis, cf). (ops, phis @ [phi], cf)) V) R"
proof -
  note w = wellgD [OF assms(1)]
  from insert_phi_graph [OF w(1) assms(2)] obtain phi where
    e: "edits st st' L (with_block n (\<lambda>(ops, phis, cf). (ops, phis @ [phi], cf)) V)"
    and keeps: "\<And>s. n \<in> set (snd (V s)) \<Longrightarrow> keeps_var s phi" by blast
  let ?V = "with_block n (\<lambda>(ops, phis, cf). (ops, phis @ [phi], cf)) V"
  have "plain ?V"
    unfolding plain_def
  proof (intro allI impI)
    fix s t assume "t \<in> set (snd (?V s))"
    then have t: "t \<in> set (snd (V s))" by (simp add: with_block_def split: if_splits)
    with w(2) obtain ops phis cf where "fst (V t) = Some (ops, phis, cf)" "\<forall>phi \<in> set phis. keeps_var s phi"
      unfolding plain_def by blast
    with t keeps [of s] show "\<exists>ops phis cf. fst (?V t) = Some (ops, phis, cf) \<and> (\<forall>phi \<in> set phis. keeps_var s phi)"
      by (auto simp: with_block_def)
  qed
  moreover have "ret_set ?V R" using assms(3) by (intro ret_set_cong [OF _ w(3)]) (auto simp: with_block_def)
  moreover have "clear ?V t" if "t \<in> set (ps_loop_break st)" for t
    using w(5) [OF that] assms(4) that by (auto simp: clear_def with_block_def)
  ultimately have "wellg st' L ?V R" using edits_simps [OF e] w(4) by (auto simp: wellg_def)
  with e show ?thesis by blast
qed

text \<open>The end \<open>e\<close> of the body goes back to the header, through the continue target \<open>c\<close> if that is another block.\<close>

lemma loop_back_ok:
  assumes wg: "wellg s L V R" and e: "V e = (Some (ops, [], NoneF), [])" "e \<notin> R" and h: "clear V h"
    and run: "loop_back e s = Ret (c, s1)" "add_edge c h s1 = Ret s2"
  shows "\<exists>L' V' x. edits s s2 L' V' \<and> wellg s2 L' V' R \<and> L \<le> L' \<and> c \<in> insert e {L..<L'} \<and> (\<forall>m < L. m \<noteq> e \<longrightarrow> V' m = V m) \<and>
    V' e = (Some (ops, [], NoneF), [x]) \<and> (x = h \<or> x = c \<and> c \<noteq> e \<and> V' c = (Some ([], [], NoneF), [h]))"
proof (cases "c = e \<and> s1 = s")
  case True
  have "edits s s2 L (with_edge e h V)" "wellg s2 L (with_edge e h V) R"
    using wellg_edge [OF wg _ e(2) h] run(2) True by auto
  then show ?thesis using e(1) True
    by (intro exI [of _ L] exI [of _ "with_edge e h V"] exI [of _ h]) (auto simp: with_edge_def)
next
  case False
  with run(1) obtain s0 where add: "add_node s = (c, s0)" "add_edge e c s0 = Ret s1"
    by (auto simp: loop_back_def bindE_eq_Ret split: prod.splits if_splits)
  note w = wellgD [OF wg]
  have eL: "e < L" using graph_simps(4) [OF w(1), of e] e(1) by (cases "e < L") auto
  note g0 = wellg_node [OF wg add(1)]
  have c: "c = L" "c \<notin> R" using g0(1) w(6) by blast+
  have "clear (V(L := fresh_view)) c" using c by simp
  note g1 = wellg_edge [OF g0(3) add(2) e(2) this]
  have "clear (with_edge e c (V(L := fresh_view))) h" using h by simp
  note g2 = wellg_edge [OF g1(2) run(2) c(2) this]
  show ?thesis using edits_trans [OF g0(2) edits_trans [OF g1(1) g2(1)]] g2(2) e(1) eL c
    by (intro exI [of _ "Suc L"] exI [of _ "with_edge c h (with_edge e c (V(L := fresh_view)))"] exI [of _ c])
      (auto simp: with_edge_def fresh_view_def)
qed

text \<open>A later graph in which the block where the scope ends has grown.\<close>

lemma part_extended:
  assumes p: "parsed_in n0 sc brk t L V R s L' V' R'" and cur: "ps_current_block s = Some e" and T: "temps n0 L' \<subseteq> T"
    and G: "\<And>m. m \<in> insert t {L..<L'} \<Longrightarrow> m \<noteq> e \<Longrightarrow> view G m = V' m"
      "view G e = (Some (ops_of_view V' e @ added, [], cf), ss)"
    and sub: "R' \<subseteq> RR" "insert t {L..<L'} \<subseteq> N"
  shows "lowers G T RR N brk (t, 0) (scope_insts sc) (Some (e, length (ops_of_view V' e)))"
proof -
  have e: "open_at V' e" "view (op_program s) = V'" using p cur by (auto simp: parsed_in_def wellg_def graph_def)
  have "extends (insert t {L..<L'}) {e} (view (op_program s)) (view G)"
    unfolding e(2) extends_def using G e(1) by auto
  moreover have "lowers (op_program s) T R' (insert t {L..<L'}) brk (t, 0) (scope_insts sc) (Some (e, length (ops_of_view V' e)))"
    using p T cur by (auto simp: parsed_in_def pos_of_def)
  ultimately show ?thesis using lowers_mono sub by blast
qed

lemma grows_current:
  assumes "grown st L R st' L' V' R'" "ps_current_block st' = Some n" "V' n = fresh_view" "L \<le> n" "n \<notin> R'"
    and "open_at V b" "\<And>m. m < L \<Longrightarrow> m \<noteq> b \<Longrightarrow> V' m = V m" "V' b = (Some (ops_of_view V b @ added, [], cf), ss)"
  shows "grows st L V R b st' L' V' R'"
  using assms(2) by (intro grows_at_next [OF assms(1) _ assms(3-8)]) simp

text \<open>The header gets its phi instruction, its test and its control flow, and the body its step.\<close>

lemma for_header:
  assumes g: "grown st (Suc L0) R0 s L V R" and h: "V h = (Some ([], [], NoneF), ss)" "h \<notin> R" "h \<notin> set (ps_loop_break s)"
    and e: "V e = (Some (ops, [], NoneF), [x])" "e \<notin> R" "e \<noteq> h"
    and run: "insert_phi h i it s = Ret s1" "push_ops h [test] (s1\<lparr>op_next_local := op_next_local s1 + 1\<rparr>) = Ret s2"
      "set_control_flow h cf s2 = Ret s3" "push_ops e [inst] s3 = Ret s4" and cf: "cf_jumps cf = {}"
  shows "\<exists>V' phis. grown st L0 R0 s4 L V' R \<and> ps_current_block s4 = ps_current_block s \<and> op_next_local s1 = op_next_local s \<and>
    V' h = (Some ([test], phis, cf), ss) \<and> V' e = (Some (ops @ [inst], [], NoneF), [x]) \<and> (\<forall>m. m \<noteq> h \<longrightarrow> m \<noteq> e \<longrightarrow> V' m = V m)"
proof -
  from wellg_phi [OF grownD(1) [OF g] run(1) h(2,3)] obtain phi where
    g1: "edits s s1 L (with_block h (\<lambda>(ops, phis, cf). (ops, phis @ [phi], cf)) V)"
      "wellg s1 L (with_block h (\<lambda>(ops, phis, cf). (ops, phis @ [phi], cf)) V) R" by blast
  define V1 where "V1 = with_block h (\<lambda>(ops, phis, cf). (ops, phis @ [phi], cf)) V"
  let ?s1 = "s1\<lparr>op_next_local := op_next_local s1 + 1\<rparr>"
  have "grown s L R s1 L V1 R" unfolding V1_def by (rule grown_edits [OF g1]) auto
  note h1 = grown_bump [OF grown_trans [OF g this]]
  note g2 = wellg_ops [OF grownD(1) [OF h1] run(2) h(2)] note g3 = wellg_cf [OF g2(2) run(3) h(2), unfolded cf, OF empty_subsetI] note g4 = wellg_ops [OF g3(2) run(4) e(2)]
  note e4 = edits_trans [OF g2(1) edits_trans [OF g3(1) g4(1)]]
  define V4 where "V4 = with_block e (\<lambda>(ops, phis, cf). (ops @ [inst], phis, cf))
    (with_block h (\<lambda>(ops, phis, _). (ops, phis, cf)) (with_block h (\<lambda>(ops, phis, cf). (ops @ [test], phis, cf)) V1))"
  have "grown ?s1 L R s4 L V4 R" unfolding V4_def by (rule grown_edits [OF e4 g4(2)]) auto
  from grown_trans [OF h1 this] have "grown st L0 R0 s4 L V4 R" .
  moreover have "V4 h = (Some ([test], [phi], cf), ss)" "V4 e = (Some (ops @ [inst], [], NoneF), [x])"
    "\<forall>m. m \<noteq> h \<longrightarrow> m \<noteq> e \<longrightarrow> V4 m = V m"
    using h(1) e(1,3) by (auto simp: V4_def V1_def with_block_def)
  moreover have "ps_current_block s4 = ps_current_block s" "op_next_local s1 = op_next_local s"
    using edits_simps [OF e4] edits_simps [OF g1(1)] by simp_all
  ultimately show ?thesis by blast
qed

lemma parse_for_loop_ok:
  assumes inst: "i_operation inst = BranchO (RangeLoopB i start stop step inclusive sc)" and ok: "scope_ok n0 ps sc"
  shows "inst_ok n0 (parse_for_loop ps i start stop step inclusive sc) inst"
  unfolding inst_ok_def
proof (intro allI impI)
  fix st L V R b st'
  assume well: "well st L V R" and cur: "ps_current_block st = Some b" and count: "count_from n0 st L"
    and run: "parse_for_loop ps i start stop step inclusive sc st = Ret st'"
  from well cur have wg: "wellg st L V R" and opn: "open_at V b" and bR: "b \<notin> R" by (auto simp: well_def)
  let ?copy = "instruction_new (CopyO start) i"
  from run obtain j s0 where i: "local_mut_id i = Ret j" and a0: "push_ops b [?copy] (insert_variable j (v_item i) st) = Ret s0"
    by (auto simp: parse_for_loop_def cur bindE_eq_Ret Let_def)
  obtain h s1 where a1: "add_node s0 = (h, s1)" by force
  from run obtain s2 where a2: "add_edge b h s1 = Ret s2"
    by (auto simp: parse_for_loop_def cur i a0 a1 bindE_eq_Ret Let_def)
  obtain t s3 where a3: "add_node s2 = (t, s3)" by force
  obtain n s4 where a4: "add_node s3 = (n, s4)" by force
  from run obtain s5 s6 brk s7 e c s8 s9 s10 s11 s12 where a5: "add_edge h t s4 = Ret s5" "add_edge h n s5 = Ret s6"
    and a7: "ps sc (s6\<lparr>ps_loop_break := ps_loop_break s6 @ [n], ps_current_block := Some t\<rparr>) = Ret (brk, s7)"
    and e: "ps_current_block s7 = Some e" and a8: "loop_back e (s7\<lparr>ps_loop_break := butlast (ps_loop_break s7)\<rparr>) = Ret (c, s8)"
    and a9: "add_edge c h s8 = Ret s9" and a10: "push_use c ContinueTarget s9 = Ret s10" and a11: "push_use n Merge s10 = Ret s11"
    and a12: "insert_phi h j (v_item start) (s11\<lparr>ps_current_block := Some n\<rparr>) = Ret s12"
    by (auto simp: parse_for_loop_def cur i a0 a1 a2 a3 a4 create_local_def bindE_eq_Ret Let_def expect_def split: option.splits)
  define tmp where "tmp = variable_new (LocalConst (op_next_local s12)) (item_new BoolE)"
  let ?test = "instruction_new (loop_test inclusive i stop) tmp"
  from run obtain s13 s14 where
    a13: "push_ops h [?test] (s12\<lparr>op_next_local := op_next_local s12 + 1\<rparr>) = Ret s13"
      "set_control_flow h (LoopBreakF tmp t c n) s13 = Ret s14" "push_ops e [loop_step i step] s14 = Ret st'"
    by (auto simp: parse_for_loop_def cur i a0 a1 a2 a3 a4 a5 a7 e a8 a9 a10 a11 a12 create_local_def tmp_def bindE_eq_Ret Let_def expect_def)
  have "wellg (insert_variable j (v_item i) st) L V R" using wg by simp
  note g0 = wellg_ops [OF this a0 bR]
  define V0 where "V0 = with_block b (\<lambda>(ops, phis, cf). (ops @ [?copy], phis, cf)) V"
  have V0: "V0 b = (Some (ops_of_view V b @ [?copy], [], NoneF), [])" "\<And>m. m \<noteq> b \<Longrightarrow> V0 m = V m"
    using open_at_ops [OF opn] by (simp_all add: V0_def with_block_def)
  note blocks = loop_blocks [OF g0(2) [folded V0_def] V0(1) bR a1 a2 a3 a4 a5(1)]
  let ?L = "Suc (Suc (Suc L))"
  have h: "h = L" "h \<notin> R" and t: "t = Suc L" "t \<notin> R" and n: "n = Suc (Suc L)" "n \<notin> R" and b: "b < L" using blocks(1) by blast+
  from blocks(2) obtain V5 where e5: "edits s0 s5 ?L V5" and w5: "wellg s5 ?L V5 R" and
    V5: "V5 b = (Some (ops_of_view V b @ [?copy], [], NoneF), [h])" "V5 h = (Some ([], [], NoneF), [t])" "V5 t = fresh_view" "V5 n = fresh_view"
      "\<forall>m < L. m \<noteq> b \<longrightarrow> V5 m = V0 m" by blast
  have c5: "clear V5 n" using V5(4) by (simp add: clear_def fresh_view_def)
  note g6 = wellg_edge [OF w5 a5(2) h(2) c5]
  define V6 where "V6 = with_edge h n V5"
  have "grown (insert_variable j (v_item i) st) (Suc L) R s6 ?L V6 R"
    unfolding V6_def by (rule grown_edits [OF edits_trans [OF g0(1) edits_trans [OF e5 g6(1)]] g6(2)]) auto
  then have h6: "grown st (Suc L) R s6 ?L V6 R" by simp
  have V6: "V6 h = (Some ([], [], NoneF), [n, t])" "V6 t = fresh_view" "V6 n = fresh_view" "\<And>m. m < L \<Longrightarrow> V6 m = V5 m"
    using V5 h t n by (auto simp: V6_def with_edge_def)
  have c6: "clear V6 n" using c5 by (simp add: V6_def)
  have count6: "count_from n0 s6 ?L" using grownD(7) [OF grown_earlier [OF h6] count] by simp
  from enter_loop [OF ok grownD(1) [OF h6] V6(2) t(2) count6 c6 a7] obtain L7 V7 R7 where
    p: "parsed_in n0 sc (Some n) t ?L V6 R s7 L7 V7 R7" and h7: "grown (s6\<lparr>ps_loop_break := ps_loop_break s6 @ [n]\<rparr>) ?L R s7 L7 V7 R7"
    and V7: "\<forall>m < ?L. m \<noteq> t \<longrightarrow> V7 m = V6 m" by blast
  let ?s7 = "s7\<lparr>ps_loop_break := butlast (ps_loop_break s7)\<rparr>"
  note k7 = grown_trans [OF h6 grown_pop [OF h7]] note d7 = grownD [OF k7]
  have L7: "?L \<le> L7" using grownD(2) [OF h7] .
  have eN: "open_at V7 e" "e \<notin> R7" "e \<in> insert t {?L..<L7}" using p e by (auto simp: parsed_in_def)
  have eh: "e \<noteq> h" "e \<noteq> n" "e \<noteq> b" "L \<le> e" "e < L7" using eN(3) h t n b L7 by auto
  have R7: "h \<notin> R7" "n \<notin> R7" using grownD(4) [OF h7] h n by auto
  have "clear V7 h" using V7 V6(1) h t by (simp add: clear_def)
  from loop_back_ok [OF d7(1) open_at_ops [OF eN(1)] eN(2) this a8 a9] obtain L9 V9 x where
    e9: "edits ?s7 s9 L9 V9" and w9: "wellg s9 L9 V9 R7" and L9: "L7 \<le> L9" and c: "c \<in> insert e {L7..<L9}"
    and V9: "\<forall>m < L7. m \<noteq> e \<longrightarrow> V9 m = V7 m" "V9 e = (Some (ops_of_view V7 e, [], NoneF), [x])"
      "x = h \<or> x = c \<and> c \<noteq> e \<and> V9 c = (Some ([], [], NoneF), [h])" by blast
  note g10 = wellg_use [OF w9 a10] note g11 = wellg_use [OF g10(2) a11]
  have "grown ?s7 L7 R7 (s11\<lparr>ps_current_block := Some n\<rparr>) L9 V9 R7"
    unfolding grown_current by (rule grown_edits [OF edits_trans [OF e9 edits_trans [OF g10(1) g11(1)]] g11(2) L9]) auto
  note k11 = grown_trans [OF k7 this]
  have "V9 h = (Some ([], [], NoneF), [n, t])" using V9(1) V7 V6(1) h t eh L7 by simp
  moreover have "h \<notin> set (ps_loop_break (s11\<lparr>ps_current_block := Some n\<rparr>))"
    using grownD(5) [OF k11] wellgD(5) [OF wg, THEN clear_bound [OF wellgD(1) [OF wg]]] h by auto
  ultimately obtain V' phis where k: "grown st L R st' L9 V' R7" and cur': "ps_current_block st' = Some n"
    and next12: "op_next_local s12 = op_next_local s11"
    and V': "V' h = (Some ([?test], phis, LoopBreakF tmp t c n), [n, t])" "V' e = (Some (ops_of_view V7 e @ [loop_step i step], [], NoneF), [x])"
      "\<forall>m. m \<noteq> h \<longrightarrow> m \<noteq> e \<longrightarrow> V' m = V9 m"
    using for_header [OF k11 _ R7(1) _ V9(2) eN(2) eh(1) a12 a13 cf_jumps.simps(4)] by auto
  have V'': "V' b = (Some (ops_of_view V b @ [?copy], [], NoneF), [h])" "V' n = fresh_view" "\<And>m. m < L \<Longrightarrow> m \<noteq> b \<Longrightarrow> V' m = V m"
    "\<And>m. m \<in> insert t {?L..<L7} \<Longrightarrow> m \<noteq> e \<Longrightarrow> V' m = V7 m"
    using V'(3) V9(1) V7 V6 V5 V0 h t n b eh L7 by auto
  have "grows st L V R b st' L9 V' R7"
    by (rule grows_current [OF k cur' V''(2) _ R7(2) opn V''(3) V''(1)]) (use n in auto)
  moreover have "implements T st L V b inst st' L9 V' R7" if T: "temps n0 L9 \<subseteq> T" for T
  proof (rule implements_next [where V' = V' and s = st' and n = n])
    show "st' = st'\<lparr>ps_current_block := Some n\<rparr>" using cur' by simp
    show "V' n = fresh_view" by (rule V''(2))
    fix G RR N rest q
    assume G: "\<And>m. m < L9 \<Longrightarrow> m \<noteq> n \<Longrightarrow> view G m = V' m" and RR: "R7 \<subseteq> RR" and N: "insert b {L..<L9} \<subseteq> N"
      and rest: "lowers G T RR N (brk_of st) (n, 0) rest q"
    have view: "view G b = V' b" "view G h = V' h" "view G e = V' e" using G b h n eh L7 L9 by auto
    have low: "lowers G T RR N (Some n) (t, 0) (scope_insts sc) (Some (e, length (ops_of_view V7 e)))"
      by (rule part_extended [OF p e temps_mono [OF T L9] _ _ RR]) (use G V'' view(3) V'(2) L7 L9 N t n in auto)
    have tmp: "tmp \<in> T" using grown_temps [OF count k11] T next12 unfolding tmp_def by auto
    have N': "b \<in> N" "h \<in> N" "e \<in> N" using N b h eh L7 L9 by auto
    have "jumps G N e (Suc (length (ops_of_view V7 e))) x" using N'(3) view(3) V'(2) by (simp add: jumps_view)
    moreover have "jumps G N c 0 h" if "x = c" "c \<noteq> e" "V9 c = (Some ([], [], NoneF), [h])"
    proof -
      have "c \<in> N" "view G c = V9 c" using c that(2) N G [of c] V'(3) h n L7 by auto
      with that(3) show ?thesis by (simp add: jumps_view)
    qed
    ultimately have "jumps G N e (Suc (length (ops_of_view V7 e))) h \<or>
        jumps G N e (Suc (length (ops_of_view V7 e))) c \<and> jumps G N c 0 h" using V9(3) by blast
    moreover have "as_const tmp = None" by (simp add: tmp_def as_const_def)
    ultimately show "lowers G T RR N (brk_of st) (b, length (ops_of_view V b)) (inst # rest) q"
      using rest V'(1,2) V''(1) view low tmp N'
      by (intro lowers.For [OF inst, of G N b _ h tmp T t c n RR e "length (ops_of_view V7 e)"])
        (auto simp: ends_view jumps_view successors_view op_at_view)
  qed
  ultimately show "\<exists>L' V' R'. grows st L V R b st' L' V' R' \<and>
      (\<forall>T. temps n0 L' \<subseteq> T \<longrightarrow> implements T st L V b inst st' L' V' R')" by blast
qed

end
