(* ===== verification/Opt_Lowering_Correct.thy ===== *)
theory Opt_Lowering_Correct
  imports Opt_Lowering_Loops Opt_Strength
begin

text \<open>
  The correctness of the construction of the control-flow graph: the graph that \<open>parse_graph\<close> builds ends
  in the same states as the scope it is built from.
\<close>

section \<open>Instructions\<close>

lemma control_flow_ok:
  assumes inst: "i_operation inst = BranchO b" and ok: "\<And>sc. sc \<in> set (branch_scopes b) \<Longrightarrow> scope_ok n0 ps sc"
  shows "inst_ok n0 (parse_control_flow ps b) inst"
proof (cases b)
  case (IfB cond sc)
  with parse_if_ok [of inst cond sc n0 ps] assms show ?thesis by (simp add: inst_ok_def)
next
  case (IfElseB cond sc1 sc2)
  with parse_if_else_ok [of inst cond sc1 sc2 n0 ps] assms show ?thesis by (simp add: inst_ok_def)
next
  case (SwitchB v sc cs)
  with parse_switch_ok [of inst v sc cs n0 ps] assms show ?thesis by (simp add: inst_ok_def)
next
  case (RangeLoopB i start stop step inclusive sc)
  with parse_for_loop_ok [of inst i start stop step inclusive sc n0 ps] assms show ?thesis by (simp add: inst_ok_def)
next
  case (LoopB sc)
  with parse_loop_ok [of inst sc n0 ps] assms show ?thesis by (simp add: inst_ok_def)
qed (use inst return_ok break_ok in auto)

lemma parse_inst_plain:
  "parse_inst [] ps inst st =
     (case i_operation inst of
        BranchO b \<Rightarrow> parse_control_flow ps b st
      | _ \<Rightarrow> bindE (unwrap (ps_current_block st)) (\<lambda>current. push_ops current [inst] st))"
  by (simp add: parse_inst_def)

lemma parse_inst_ok:
  assumes "\<And>sc. sc \<in> set (inst_scopes inst) \<Longrightarrow> scope_ok n0 ps sc"
  shows "inst_ok n0 (parse_inst [] ps inst) inst"
proof (cases "is_branch inst")
  case True
  then obtain b where b: "i_operation inst = BranchO b" by (auto simp: is_branch_def split: operation.splits)
  from control_flow_ok [OF this] assms have "inst_ok n0 (parse_control_flow ps b) inst" by (simp add: inst_scopes_def b)
  then show ?thesis by (simp add: inst_ok_def parse_inst_plain b)
next
  case False
  then have "parse_inst [] ps inst = (\<lambda>st. bindE (unwrap (ps_current_block st)) (\<lambda>current. push_ops current [inst] st))"
    by (auto simp: fun_eq_iff parse_inst_plain is_branch_def split: operation.splits)
  with plain_op_ok [OF False] show ?thesis by simp
qed

text \<open>After a \<open>return\<close> or a \<open>break\<close> there is no block to add to.\<close>

lemma parse_inst_no_block:
  assumes "ps_current_block st = None"
  shows "parse_inst [] ps inst st \<noteq> Ret st'"
proof (cases "i_operation inst")
  case (BranchO b)
  have "parse_control_flow ps b st \<noteq> Ret st'"
    using assms by (cases b) (auto simp: parse_if_def parse_if_else_def parse_switch_def parse_loop_def parse_for_loop_def
        bindE_eq_Ret Let_def unwrap_def)
  then show ?thesis by (simp add: parse_inst_plain BranchO)
qed (use assms in \<open>simp_all add: parse_inst_plain unwrap_def\<close>)

lemma extends_refl: "extends N {} V V"
  by (simp add: extends_def)

lemma grows_refl:
  assumes "well st L V R" "ps_current_block st = Some b"
  shows "grows st L V R b st L V R"
  by (rule growsI [where d = 0 and added = "[]"]) (use assms open_at_ops [of V b] in \<open>auto simp: well_def\<close>)

lemma implementsD:
  "implements T st L V b inst st' L' V' R' \<Longrightarrow> extends {..<L'} (set_option (ps_current_block st')) V' (view G) \<Longrightarrow> R' \<subseteq> R \<Longrightarrow>
   insert b {L..<L'} \<subseteq> N \<Longrightarrow> (case pos_of st' V' of None \<Rightarrow> q = None | Some p \<Rightarrow> lowers G T R N (brk_of st) p rest q) \<Longrightarrow>
   lowers G T R N (brk_of st) (b, length (ops_of_view V b)) (inst # rest) q"
  unfolding implements_def by blast

lemma parse_insts_ok:
  assumes "\<forall>inst \<in> set insts. \<forall>sc \<in> set (inst_scopes inst). scope_ok n0 ps sc"
    and "well st L V R" "ps_current_block st = Some b" "count_from n0 st L" "parse_insts [] ps insts st = Ret st'"
  shows "\<exists>L' V' R'. grows st L V R b st' L' V' R' \<and>
    (\<forall>T. temps n0 L' \<subseteq> T \<longrightarrow>
       lowers (op_program st') T R' (insert b {L..<L'}) (brk_of st) (b, length (ops_of_view V b)) insts (pos_of st' V'))"
  using assms
proof (induction insts arbitrary: st L V R b)
  case Nil
  then have st': "st' = st" by (simp add: parse_insts_def)
  show ?case using grows_refl [OF Nil.prems(2,3)] Nil.prems(3) unfolding st'
    by (intro exI [of _ L] exI [of _ V] exI [of _ R]) (auto simp: pos_of_def intro: lowers.Done)
next
  case (Cons inst insts)
  from Cons.prems(5) obtain st1 where run: "parse_inst [] ps inst st = Ret st1" "parse_insts [] ps insts st1 = Ret st'"
    by (auto simp: parse_insts_def bindE_eq_Ret)
  have "inst_ok n0 (parse_inst [] ps inst) inst" using Cons.prems(1) by (intro parse_inst_ok) auto
  with Cons.prems(2-4) run(1) obtain L1 V1 R1 where g1: "grows st L V R b st1 L1 V1 R1"
    and imp: "\<And>T. temps n0 L1 \<subseteq> T \<Longrightarrow> implements T st L V b inst st1 L1 V1 R1" unfolding inst_ok_def by blast
  show ?case
  proof (cases "ps_current_block st1")
    case None
    then have rest: "insts = []" "st' = st1"
      using run(2) parse_inst_no_block [OF None] by (cases insts; auto simp: parse_insts_def bindE_eq_Ret)+
    have view: "view (op_program st1) = V1" using g1 by (auto simp: grows_def well_def wellg_def graph_def)
    have "lowers (op_program st1) T R1 (insert b {L..<L1}) (brk_of st) (b, length (ops_of_view V b)) [inst] None"
      if "temps n0 L1 \<subseteq> T" for T
      by (rule implementsD [OF imp [OF that]]) (simp_all add: None view extends_refl pos_of_def)
    with g1 None rest show ?thesis by (intro exI [of _ L1] exI [of _ V1] exI [of _ R1]) (simp add: pos_of_def)
  next
    case (Some b1)
    have w1: "well st1 L1 V1 R1" "count_from n0 st1 L1" "brk_of st1 = brk_of st" "b1 = b \<or> L \<le> b1" "L \<le> L1"
      using g1 grows_count [OF g1 Cons.prems(4)] Some by (auto simp: grows_def brk_of_def)
    have ok: "\<forall>inst \<in> set insts. \<forall>sc \<in> set (inst_scopes inst). scope_ok n0 ps sc" using Cons.prems(1) by simp
    from Cons.IH [OF ok w1(1) Some w1(2) run(2)] obtain L' V' R' where g2: "grows st1 L1 V1 R1 b1 st' L' V' R'"
      and low: "\<And>T. temps n0 L' \<subseteq> T \<Longrightarrow>
        lowers (op_program st') T R' (insert b1 {L1..<L'}) (brk_of st) (b1, length (ops_of_view V1 b1)) insts (pos_of st' V')"
      unfolding w1(3) by blast
    have b1: "b1 < L1" using w1(1) Some open_bound [of "op_program st1" L1 V1 b1] by (auto simp: well_def wellg_def)
    have g': "L1 \<le> L'" "R1 \<subseteq> R'" "extends {..<L1} {b1} V1 (view (op_program st'))"
      using g2 by (auto simp: grows_def well_def wellg_def graph_def)
    have "lowers (op_program st') T R' (insert b {L..<L'}) (brk_of st) (b, length (ops_of_view V b)) (inst # insts) (pos_of st' V')"
      if T: "temps n0 L' \<subseteq> T" for T
    proof -
      have "insert b1 {L1..<L'} \<subseteq> insert b {L..<L'}" using w1(4,5) b1 g'(1) by auto
      from lowers_mono [OF low [OF T] extends_refl this order_refl]
      have "lowers (op_program st') T R' (insert b {L..<L'}) (brk_of st) (b1, length (ops_of_view V1 b1)) insts (pos_of st' V')" .
      moreover have "insert b {L..<L1} \<subseteq> insert b {L..<L'}" using g'(1) by auto
      ultimately show ?thesis
        by (intro implementsD [OF imp [OF temps_mono [OF T g'(1)]] _ g'(2)]) (simp_all add: g'(3) Some pos_of_def)
    qed
    with grows_trans [OF g1 g2 Some] show ?thesis by blast
  qed
qed

section \<open>Scopes\<close>

text \<open>Declarations change no block.\<close>

definition same_blocks :: "parser \<Rightarrow> parser \<Rightarrow> bool" where
  "same_blocks st st' \<longleftrightarrow> pg_root (op_program st') = pg_root (op_program st) \<and> pg_nodes (op_program st') = pg_nodes (op_program st) \<and> pg_edges (op_program st') = pg_edges (op_program st) \<and>
     op_ret st' = op_ret st \<and> op_next_local st' = op_next_local st \<and> ps_current_block st' = ps_current_block st \<and>
     ps_loop_break st' = ps_loop_break st"

lemma same_blocks_declare: "same_blocks st (fold declare_variable vs st)"
proof -
  have "same_blocks st s \<Longrightarrow> same_blocks st (fold declare_variable vs s)" for s
    by (induction vs arbitrary: s) (auto simp: same_blocks_def declare_variable_def insert_variable_def split: variable_kind.splits)
  then show ?thesis by (simp add: same_blocks_def)
qed

lemma same_blocks_const_arrays: "foldE push_const_array cs st = Ret st' \<Longrightarrow> same_blocks st st'"
proof (induction cs arbitrary: st)
  case (Cons c cs)
  then obtain s where s: "push_const_array st c = Ret s" "same_blocks s st'" by (auto simp: bindE_eq_Ret)
  from s(1) have "same_blocks st s" by (auto simp: same_blocks_def push_const_array_def split: variable_kind.splits)
  with s(2) show ?case by (simp add: same_blocks_def)
qed (simp add: same_blocks_def)

lemma same_blocks_well:
  assumes "same_blocks st st'"
  shows "well st' L V R = well st L V R"
proof -
  from assms have "view (op_program st') = view (op_program st)"
    by (intro ext) (simp add: view_def successors_def same_blocks_def)
  with assms show ?thesis by (auto simp: well_def wellg_def graph_def same_blocks_def)
qed

lemma same_blocks_grows: "same_blocks st st' \<Longrightarrow> grows st' L V R b s L' V' R' = grows st L V R b s L' V' R'"
  by (simp add: grows_def same_blocks_def)

lemma process_scope_insts: "process sc st = Ret (p, st') \<Longrightarrow> sp_instructions p = scope_insts sc \<and> same_blocks st st'"
  using process_insts [of sc st p st'] by (auto simp: scope_insts_def mapE_Ret [symmetric] process_def bindE_eq_Ret same_blocks_def)

theorem parse_scope_ok: "scope_ok n0 (parse_scope []) sc"
proof (induction "size sc" arbitrary: sc rule: less_induct)
  case less
  show ?case unfolding scope_ok_def
  proof (intro allI impI)
    fix st L V R b brk st'
    assume well: "well st L V R" and cur: "ps_current_block st = Some b" and count: "count_from n0 st L"
      and run: "parse_scope [] sc st = Ret (brk, st')"
    from run obtain p s1 s2 where a1: "process sc st = Ret (p, s1)"
      and a2: "foldE push_const_array (sc_const_arrays sc) (fold declare_variable (sp_variables p) s1) = Ret s2"
      and a3: "parse_insts [] (parse_scope []) (sp_instructions p) s2 = Ret st'"
      by (subst (asm) parse_scope.simps) (auto simp: bindE_eq_Ret Let_def)
    note p = process_scope_insts [OF a1]
    have same_blocks: "same_blocks st s2"
      using p same_blocks_declare [of s1 "sp_variables p"] same_blocks_const_arrays [OF a2] by (simp add: same_blocks_def)
    have ok: "\<forall>inst \<in> set (sp_instructions p). \<forall>sc' \<in> set (inst_scopes inst). scope_ok n0 (parse_scope []) sc'"
      using less process_smaller [OF a1] by blast
    have "well s2 L V R" "ps_current_block s2 = Some b" "count_from n0 s2 L" "brk_of s2 = brk_of st"
      using well cur count same_blocks same_blocks_well [OF same_blocks] by (simp_all add: same_blocks_def count_from_def brk_of_def)
    from parse_insts_ok [OF ok this(1-3) a3] this(4) p same_blocks_grows [OF same_blocks]
    show "\<exists>L' V' R'. grows st L V R b st' L' V' R' \<and>
        (\<forall>T. temps n0 L' \<subseteq> T \<longrightarrow>
           lowers (op_program st') T R' (insert b {L..<L'}) (brk_of st) (b, length (ops_of_view V b)) (scope_insts sc) (pos_of st' V'))"
      by simp
  qed
qed

section \<open>Graphs of a parser can be run\<close>

lemma assign_all_same: "(\<forall>(v, x) \<in> set vs. x = \<sigma> v) \<Longrightarrow> assign_all vs \<sigma> = \<sigma>"
proof (induction vs)
  case (Cons p vs)
  then show ?case by (cases p) (auto simp: assign_all_def)
qed (simp add: assign_all_def)

lemma plain_enter:
  assumes "graph p L V" "plain V" "t \<in> set (successors p n)"
  shows "enter m p n t \<sigma> = Some \<sigma>"
proof -
  have view: "view p = V" using assms(1) by (simp add: graph_def)
  then have "t \<in> set (snd (V n))" using assms(3) by (auto simp: view_def)
  then obtain ops phis cf where "fst (view p t) = Some (ops, phis, cf)" and keeps: "\<forall>phi \<in> set phis. keeps_var n phi"
    using assms(2) view unfolding plain_def by blast
  then obtain bb where bb: "node_of p t = Some bb" "bb_phi_nodes bb = phis" by (auto simp: view_def)
  have "phi_value m n \<sigma> phi = Some (\<sigma> (phi_out phi))" if "phi \<in> set phis" for phi
    using keeps that by (auto simp: keeps_var_def phi_value_def value_of_def)
  then show ?thesis using assms(3) by (auto simp: enter_def bb intro: assign_all_same)
qed

lemma graph_okI:
  assumes g: "graph p L V" and V: "plain V" "ret_set V R"
  shows "graph_ok m p R"
proof -
  have view: "view p = V" using g by (simp add: graph_def)
  have "\<exists>k. \<forall>\<sigma>. grun m p k r 0 \<sigma> = Some \<sigma>" if "r \<in> R" for r
    using that
  proof (induction r rule: less_induct)
    case (less r)
    from V(2) less.prems consider ss where "V r = (Some ([], [], ReturnF), ss)"
      | r' where "r' \<in> R" "r' < r" "V r = (Some ([], [], NoneF), [r'])" unfolding ret_set_def by blast
    then show ?case
    proof cases
      case 1
      then obtain bb where "node_of p r = Some bb" "bb_ops bb = []" "bb_control_flow bb = ReturnF"
        unfolding view [symmetric] by (auto simp: view_def)
      then have "\<forall>\<sigma>. grun m p (Suc 0) r 0 \<sigma> = Some \<sigma>" by (simp add: grun.simps(2))
      then show ?thesis ..
    next
      case 2
      then obtain bb where bb: "node_of p r = Some bb" "bb_ops bb = []" "bb_control_flow bb = NoneF" "successors p r = [r']"
        unfolding view [symmetric] by (auto simp: view_def)
      from less.IH [OF 2(2,1)] obtain k where "\<forall>\<sigma>. grun m p k r' 0 \<sigma> = Some \<sigma>" by blast
      moreover have "enter m p r r' \<sigma> = Some \<sigma>" for \<sigma> by (rule plain_enter [OF g V(1)]) (simp add: bb)
      ultimately have "\<forall>\<sigma>. grun m p (Suc k) r 0 \<sigma> = Some \<sigma>" by (simp add: grun.simps(2) bb)
      then show ?thesis ..
    qed
  qed
  with plain_enter [OF g V(1)] show ?thesis unfolding graph_ok_def by blast
qed

section \<open>The graph of a kernel\<close>

text \<open>The entry, the return block, and the instructions of the kernel between them.\<close>

lemma parse_graph_lowers:
  assumes run: "parse_graph [] sc (initial_parser n0 pool dims) = Ret st" and L: "L = length (pg_nodes (op_program st))"
  shows "\<exists>R q V. graph_ok m (op_program st) R \<and> graph (op_program st) L V \<and> pg_root (op_program st) = 0 \<and>
    lowers (op_program st) (temps n0 L) R UNIV None (0, 0) (scope_insts sc) q \<and>
    (\<forall>p. q = Some p \<longrightarrow> (\<exists>r \<in> R. jumps (op_program st) UNIV (fst p) (snd p) r))"
proof -
  let ?s = "initial_parser n0 pool dims"
  have g: "graph (op_program ?s) 0 (\<lambda>_. (None, []))"
    by (auto simp: graph_def initial_parser_def view_def successors_def fun_eq_iff)
  obtain a s1 where a1: "add_node ?s = (a, s1)" by force
  note g1 = add_node_graph [OF g a1]
  let ?s1 = "s1\<lparr>op_program := (op_program s1)\<lparr>pg_root := a\<rparr>, ps_current_block := Some a\<rparr>"
  have s1: "?s1 = s1\<lparr>ps_current_block := Some a\<rparr>" using edits_simps(1) [OF g1(2)] g1(1) by (simp add: graph_def)
  obtain r s2 where a2: "add_node (s1\<lparr>ps_current_block := Some a\<rparr>) = (r, s2)" by force
  have "graph (op_program (s1\<lparr>ps_current_block := Some a\<rparr>)) 1 ((\<lambda>_. (None, []))(0 := fresh_view))"
    using edits_simps(1) [OF g1(2)] by simp
  note g2 = add_node_graph [OF this a2]
  from run obtain s4 s5 brk where a4: "set_control_flow r ReturnF (s2\<lparr>op_ret := r\<rparr>) = Ret s4" and a5: "parse_scope [] sc s4 = Ret (brk, s5)"
    and a6: "(case ps_current_block s5 of Some c \<Rightarrow> add_edge c (op_ret s5) s5 | None \<Rightarrow> Ret s5) = Ret st"
    by (auto simp: parse_graph_def a1 s1 a2 bindE_eq_Ret Let_def)
  have "graph (op_program (s2\<lparr>op_ret := r\<rparr>)) 2 ((\<lambda>_. (None, []))(0 := fresh_view, 1 := fresh_view))"
    using edits_simps(1) [OF g2(2)] by (simp add: numeral_2_eq_2)
  note g4 = set_control_flow_graph [OF this a4, unfolded cf_jumps.simps, OF empty_subsetI]
  define V4 where "V4 = with_block r (\<lambda>(ops, phis, _). (ops, phis, ReturnF)) ((\<lambda>_. (None, []))(0 := fresh_view, 1 := fresh_view))"
  note f1 = edits_simps [OF g1(2)] note f2 = edits_simps [OF g2(2)] note f4 = edits_simps [OF g4(2) [folded V4_def]]
  have r: "r = 1" "a = 0" using g2(1) g1(1) by simp_all
  have V4: "V4 0 = fresh_view" "V4 1 = (Some ([], [], ReturnF), [])" "\<And>n. snd (V4 n) = []"
    by (auto simp: V4_def with_block_def fresh_view_def r)
  have s4: "op_ret s4 = 1" "ps_loop_break s4 = []" "ps_current_block s4 = Some 0" "op_next_local s4 = n0"
    using f1 f2 f4 r by (simp_all add: initial_parser_def)
  have "plain V4" "ret_set V4 {1}" "open_at V4 0" using V4 by (auto simp: plain_def ret_set_def open_at_def fresh_view_def)
  then have well: "well s4 2 V4 {1}" using f4(1) s4 by (simp add: well_def wellg_def)
  have "count_from n0 s4 2" using s4(4) by (auto simp: count_from_def)
  with well s4(3) a5 parse_scope_ok [of n0 sc] obtain L' V' R where g5: "grows s4 2 V4 {1} 0 s5 L' V' R"
    and low: "lowers (op_program s5) (temps n0 L') R (insert 0 {2..<L'}) (brk_of s4) (0, length (ops_of_view V4 0)) (scope_insts sc) (pos_of s5 V')"
    unfolding scope_ok_def by blast
  have low: "lowers (op_program s5) (temps n0 L') R (insert 0 {2..<L'}) None (0, 0) (scope_insts sc) (pos_of s5 V')"
    using low V4(1) s4(2) by (simp add: brk_of_def ops_of_view_def fresh_view_def)
  have wg: "wellg s5 L' V' R" and cur: "\<And>c. ps_current_block s5 = Some c \<Longrightarrow> open_at V' c \<and> c \<notin> R" and "2 \<le> L'"
    using g5 by (auto simp: grows_def well_def)
  have view: "view (op_program s5) = V'" using wellgD(1) [OF wg] by (simp add: graph_def)
  show ?thesis
  proof (cases "ps_current_block s5")
    case None
    with a6 have st: "st = s5" by simp
    note w = wellgD [OF wg, folded st]
    have "L = L'" using graph_simps(1) [OF w(1)] L by simp
    moreover have "lowers (op_program st) (temps n0 L') R UNIV None (0, 0) (scope_insts sc) None"
      using lowers_mono [OF low extends_refl subset_UNIV order_refl] None by (simp add: st pos_of_def)
    ultimately show ?thesis using graph_okI [OF w(1-3)] w(1) by (intro exI [of _ R] exI [of _ None] exI [of _ V']) (simp add: graph_def)
  next
    case (Some c)
    with a6 have edge: "add_edge c (op_ret s5) s5 = Ret st" by simp
    let ?V = "with_edge c (op_ret s5) V'"
    note c = cur [OF Some] note w5 = wellgD [OF wg]
    note w = wellgD [OF wellg_edge(2) [OF wg edge _ ret_clear [OF w5(3,4)]]] c
    have wc: "graph (op_program st) L' ?V" "plain ?V" "ret_set ?V R" using w c by blast+
    have Vc: "?V c = (Some (ops_of_view V' c, [], NoneF), [op_ret s5])" using open_at_ops [of V' c] c by (simp add: with_edge_def)
    have view': "view (op_program st) = ?V" using wc(1) by (simp add: graph_def)
    have "extends (insert 0 {2..<L'}) {c} (view (op_program s5)) (view (op_program st))"
      unfolding view view' extends_def using c Vc by (auto simp: with_edge_def)
    from lowers_mono [OF low this subset_UNIV order_refl]
    have "lowers (op_program st) (temps n0 L') R UNIV None (0, 0) (scope_insts sc) (Some (c, length (ops_of_view V' c)))"
      using Some by (simp add: pos_of_def)
    moreover have "jumps (op_program st) UNIV c (length (ops_of_view V' c)) (op_ret s5)" using Vc view' by (simp add: jumps_view)
    moreover have "L = L'" using graph_simps(1) [OF wc(1)] L by simp
    ultimately show ?thesis using graph_okI [OF wc] wc(1) w5(4)
      by (intro exI [of _ R] exI [of _ "Some (c, length (ops_of_view V' c))"] exI [of _ ?V]) (auto simp: graph_def)
  qed
qed

definition agrees :: "variable set \<Rightarrow> ('v env \<Rightarrow> bool) \<Rightarrow> ('v env \<Rightarrow> bool) \<Rightarrow> bool" where
  "agrees T P Q \<longleftrightarrow> (\<forall>\<sigma>. P \<sigma> \<longrightarrow> (\<exists>\<tau>. Q \<tau> \<and> same_off T \<sigma> \<tau>)) \<and> (\<forall>\<tau>. Q \<tau> \<longrightarrow> (\<exists>\<sigma>. P \<sigma> \<and> same_off T \<sigma> \<tau>))"

context kernel_machine
begin

lemma lowered_graph_agrees:
  assumes low: "lowers G T R UNIV None (0, 0) (scope_insts sc) q" and ok: "graph_ok m G R" and root: "pg_root G = 0"
    and q: "\<And>p. q = Some p \<Longrightarrow> \<exists>r \<in> R. jumps G UNIV (fst p) (snd p) r"
    and T: "\<forall>v \<in> T. as_const v = None" "set_scope sc \<inter> T = {}"
  shows "agrees T (scope_ends m sc \<sigma>) (graph_ends m G \<sigma>)"
proof -
  have fol: "follows m G T None q f 0 0 \<sigma> (run_scope m (Suc f) sc \<sigma>)" for f
    using lowers_follows [OF low ok T(1) scope_insts_avoid [OF T] same_off_refl] by simp
  have ends: "\<exists>\<tau>'. graph_ends m G \<sigma> \<tau>' \<and> same_off T \<tau> \<tau>'"
    if run: "run_scope m (Suc f) sc \<sigma> = Falls \<tau> \<or> run_scope m (Suc f) sc \<sigma> = Returns \<tau>" for f \<tau>
    using run
  proof
    assume "run_scope m (Suc f) sc \<sigma> = Falls \<tau>"
    with fol [of f] obtain d p \<tau>' where p: "q = Some p" "same_off T \<tau> \<tau>'"
      "\<And>k. grun m G (d + k) 0 0 \<sigma> = grun m G k (fst p) (snd p) \<tau>'" by (simp add: follows_def del: split_paired_Ex run_scope.simps) blast
    from q [OF p(1)] obtain r where r: "r \<in> R" "jumps G UNIV (fst p) (snd p) r" by blast
    from ok r(1) obtain k where "grun m G k r 0 \<tau>' = Some \<tau>'" unfolding graph_ok_def by blast
    then have "grun m G (d + Suc k) 0 0 \<sigma> = Some \<tau>'" using p(3) [of "Suc k"] grun_jump [OF r(2) ok] by (simp del: add_Suc_right)
    then show ?thesis using p(2) root unfolding graph_ends_def by metis
  next
    assume "run_scope m (Suc f) sc \<sigma> = Returns \<tau>"
    with fol [of f] show ?thesis using root by (auto simp: follows_def graph_ends_def simp del: run_scope.simps)
  qed
  have some: "\<exists>f'. f = Suc f'" if "run_scope m f sc \<sigma> = Falls \<tau> \<or> run_scope m f sc \<sigma> = Returns \<tau>" for f \<tau>
    using that by (cases f) auto
  have "\<exists>\<tau>'. graph_ends m G \<sigma> \<tau>' \<and> same_off T \<tau> \<tau>'" if "scope_ends m sc \<sigma> \<tau>" for \<tau>
    using that some ends unfolding scope_ends_def by blast
  moreover have "\<exists>\<tau>. scope_ends m sc \<sigma> \<tau> \<and> same_off T \<tau> \<tau>'" if "graph_ends m G \<sigma> \<tau>'" for \<tau>'
  proof -
    from that root obtain k where k: "grun m G k 0 0 \<sigma> = Some \<tau>'" by (auto simp: graph_ends_def)
    from fol [of k] k obtain \<tau> where run: "run_scope m (Suc k) sc \<sigma> = Falls \<tau> \<or> run_scope m (Suc k) sc \<sigma> = Returns \<tau>"
      by (cases "run_scope m (Suc k) sc \<sigma>") (auto simp: follows_def simp del: run_scope.simps)
    from ends [OF run] obtain \<tau>'' where t: "graph_ends m G \<sigma> \<tau>''" "same_off T \<tau> \<tau>''" by blast
    then have "\<tau>'' = \<tau>'" using that grun_deterministic unfolding graph_ends_def by metis
    with t run show ?thesis unfolding scope_ends_def by blast
  qed
  ultimately show ?thesis unfolding agrees_def by blast
qed

end

section \<open>Integer kernels\<close>

text \<open>
  A machine for kernels over \<open>u32\<close>: the reference semantics of the integer operations, comparisons as 0
  and 1, and 0 for an operation that has no value there.
\<close>

fun eval_comparison :: "(variable \<Rightarrow> u32) \<Rightarrow> variable comparison \<Rightarrow> bool" where
  "eval_comparison env (Lower op) = (denote env (b_lhs op) < denote env (b_rhs op))"
| "eval_comparison env (LowerEqual op) = (denote env (b_lhs op) \<le> denote env (b_rhs op))"
| "eval_comparison env (Equal op) = (denote env (b_lhs op) = denote env (b_rhs op))"
| "eval_comparison env (NotEqual op) = (denote env (b_lhs op) \<noteq> denote env (b_rhs op))"
| "eval_comparison env (GreaterEqual op) = (denote env (b_lhs op) \<ge> denote env (b_rhs op))"
| "eval_comparison env (Greater op) = (denote env (b_lhs op) > denote env (b_rhs op))"

fun u32_value :: "variable operation \<Rightarrow> u32 env \<Rightarrow> u32" where
  "u32_value (ComparisonO c) \<sigma> = of_bool (eval_comparison \<sigma> c)"
| "u32_value op \<sigma> = (case eval_operation False \<sigma> op of Some x \<Rightarrow> x | None \<Rightarrow> 0)"

fun u32_const :: "constant_scalar_value \<Rightarrow> u32" where
  "u32_const (IntC val _) = ucast val"
| "u32_const (UIntC val _) = ucast val"
| "u32_const (BoolC b) = of_bool b"
| "u32_const (FloatC _ _) = 0"

definition u32_machine :: "u32 machine" where
  "u32_machine = \<lparr>mc_effect = (\<lambda>inst \<sigma>. case i_out inst of None \<Rightarrow> \<sigma> | Some v \<Rightarrow> \<sigma>(v := u32_value (i_operation inst) \<sigma>)),
     mc_eval = u32_value, mc_const = u32_const, mc_true = (\<lambda>x. x \<noteq> 0), mc_label = id\<rparr>"

lemma u32_value_same:
  assumes "set_operation op \<inter> T = {}" "same_off T \<sigma> \<tau>"
  shows "u32_value op \<sigma> = u32_value op \<tau>"
proof -
  have denote: "denote \<sigma> v = denote \<tau> v" if "v \<in> set_operation op" for v
    using assms that by (auto simp: denote_def same_off_def split: option.splits constant_scalar_value.splits)
  show ?thesis
  proof (cases op)
    case (ComparisonO c)
    with denote show ?thesis by (cases c) auto
  qed (use eval_operation_cong [of op \<sigma> \<tau> False] denote in auto)
qed

interpretation u32_kernel: kernel_machine u32_machine T for T
proof
  fix inst and \<sigma> \<tau> :: "u32 env"
  assume "vars_of_inst inst \<inter> T = {}" and same: "same_off T \<sigma> \<tau>"
  then have "u32_value (i_operation inst) \<sigma> = u32_value (i_operation inst) \<tau>"
    by (intro u32_value_same) (auto simp: vars_of_inst_def)
  with same show "same_off T (mc_effect u32_machine inst \<sigma>) (mc_effect u32_machine inst \<tau>)"
    by (auto simp: u32_machine_def same_off_def split: option.splits)
next
  fix c and \<sigma> \<tau> :: "u32 env"
  assume "set_comparison c \<inter> T = {}" "same_off T \<sigma> \<tau>"
  then show "mc_eval u32_machine (ComparisonO c) \<sigma> = mc_eval u32_machine (ComparisonO c) \<tau>"
    using u32_value_same [of "ComparisonO c" T \<sigma> \<tau>] by (simp add: u32_machine_def)
qed (simp add: u32_machine_def instruction_new_def)

section \<open>Correctness\<close>

text \<open>
  C15. Compiling a kernel to its control-flow graph keeps what it computes: when \<open>parse_graph\<close> returns, the
  graph ends exactly when the scope does, and in a state that differs only in the booleans the counting
  loops compare into, provided the kernel does not use those itself.
\<close>

theorem parse_graph_correct:
  assumes run: "parse_graph [] sc (initial_parser n0 pool dims) = Ret st"
    and T: "T = temps n0 (length (pg_nodes (op_program st)))" "set_scope sc \<inter> T = {}"
    and m: "kernel_machine m T"
  shows "agrees T (scope_ends m sc \<sigma>) (graph_ends m (op_program st) \<sigma>)"
proof -
  from parse_graph_lowers [OF run refl, of m] obtain R q where
    "graph_ok m (op_program st) R" "pg_root (op_program st) = 0"
    "lowers (op_program st) T R UNIV None (0, 0) (scope_insts sc) q"
    "\<And>p. q = Some p \<Longrightarrow> \<exists>r \<in> R. jumps (op_program st) UNIV (fst p) (snd p) r" unfolding T(1) [symmetric] by blast
  moreover have "\<forall>v \<in> T. as_const v = None" unfolding T(1) by (auto simp: temps_def as_const_def)
  ultimately show ?thesis using kernel_machine.lowered_graph_agrees [OF m] T(2) by blast
qed

section \<open>A kernel\<close>

text \<open>\<open>for i in 0..9 { s += i; if s > limit { break } }\<close>.\<close>

definition demo_u32 :: "variable_kind \<Rightarrow> variable" where
  "demo_u32 k = variable_new k (item_new (UIntE U32))"

definition demo_block :: "variable instruction list \<Rightarrow> variable scope" where
  "demo_block insts = Scope 0 insts [] [] [] [] [] [] [] []"

definition demo_kernel :: "u32 \<Rightarrow> variable scope" where
  "demo_kernel limit =
     (let i = demo_u32 (LocalMut 0); s = demo_u32 (LocalMut 1); c = variable_new (LocalConst 2) (item_new BoolE) in
      demo_block [instruction_no_out (BranchO (RangeLoopB i (variable_from_u32 0) (variable_from_u32 9) None False
        (demo_block
          [instruction_new (ArithmeticO (Add (BinaryOperator s i))) s,
           instruction_new (ComparisonO (Greater (BinaryOperator s (variable_from_u32 limit)))) c,
           instruction_no_out (BranchO (IfB c (demo_block [instruction_no_out (BranchO BreakB)])))])))])"

definition demo_parsed :: "u32 \<Rightarrow> parser exec" where
  "demo_parsed limit = parse_graph [] (demo_kernel limit) (initial_parser 3 [] \<lparr>cd_x = 1, cd_y = 1, cd_z = 1\<rparr>)"

lemma demo_parsed_nodes: "(case demo_parsed 5 of Ret st \<Rightarrow> length (pg_nodes (op_program st)) | _ \<Rightarrow> 0) = 7"
  by code_simp

lemma demo_kernel_run:
  "(case run_scope u32_machine 20 (demo_kernel 5) (\<lambda>_. 0) of Falls \<tau> \<Rightarrow> \<tau> (demo_u32 (LocalMut 1)) | _ \<Rightarrow> 0) = 6"
  by code_simp

lemma demo_avoids: "set_scope (demo_kernel limit) \<inter> temps 3 7 = {}"
proof -
  have "set_scope (demo_kernel limit) \<subseteq>
    {demo_u32 (LocalMut 0), demo_u32 (LocalMut 1), variable_new (LocalConst 2) (item_new BoolE), variable_from_u32 0,
      variable_from_u32 9, variable_from_u32 limit}"
    by (auto simp: demo_kernel_def demo_block_def Let_def instruction_new_def instruction_no_out_def)
  moreover have "3 + of_nat j \<noteq> (2 :: u32)" if "j < 7" for j
  proof -
    have "j \<in> {0, 1, 2, 3, 4, 5, 6}" using that by auto
    then show ?thesis by auto
  qed
  ultimately show ?thesis by (fastforce simp: temps_def demo_u32_def variable_new_def variable_from_u32_def variable_constant_def item_new_def)
qed

text \<open>The graph of the demo kernel sums up to the first value over the limit.\<close>

theorem parse_graph_correct_witness:
  "\<exists>st \<tau>. demo_parsed 5 = Ret st \<and> graph_ends u32_machine (op_program st) (\<lambda>_. 0) \<tau> \<and> \<tau> (demo_u32 (LocalMut 1)) = 6"
proof -
  obtain st where st: "demo_parsed 5 = Ret st" and len: "length (pg_nodes (op_program st)) = 7"
    using demo_parsed_nodes by (cases "demo_parsed 5") auto
  have "agrees (temps 3 7) (scope_ends u32_machine (demo_kernel 5) (\<lambda>_. 0)) (graph_ends u32_machine (op_program st) (\<lambda>_. 0))"
    using parse_graph_correct [OF st [unfolded demo_parsed_def] _ _ u32_kernel.kernel_machine_axioms, of "temps 3 7"] demo_avoids len
    by simp
  moreover obtain \<tau> where run: "run_scope u32_machine 20 (demo_kernel 5) (\<lambda>_. 0) = Falls \<tau>" and "\<tau> (demo_u32 (LocalMut 1)) = 6"
    using demo_kernel_run by (cases "run_scope u32_machine 20 (demo_kernel 5) (\<lambda>_. 0)") (auto simp del: run_scope.simps)
  ultimately obtain \<tau>' where "graph_ends u32_machine (op_program st) (\<lambda>_. 0) \<tau>'" "same_off (temps 3 7) \<tau> \<tau>'"
    unfolding agrees_def scope_ends_def by blast
  moreover have "demo_u32 (LocalMut 1) \<notin> temps 3 7" by (auto simp: temps_def demo_u32_def variable_new_def)
  ultimately show ?thesis using st \<open>\<tau> (demo_u32 (LocalMut 1)) = 6\<close> unfolding same_off_def by auto
qed

end
