(* ===== verification/Opt_Critical_Edges.thy ===== *)
theory Opt_Critical_Edges
  imports Opt_Lowering_Correct
begin

text \<open>
  \<open>split_critical_edges\<close>: it returns, leaves no critical edge and keeps what the graph computes, as long
  as every critical edge leaves a block whose control flow \<open>update_control_flow\<close> knows; the exit of a
  counting loop with a \<open>break\<close> is one it does not know.
\<close>

section \<open>One edge\<close>

text \<open>What splitting the edge from \<open>a\<close> to \<open>b\<close> with the new block \<open>x\<close> does to the block \<open>n\<close>.\<close>

definition split_update :: "node_index \<Rightarrow> node_index \<Rightarrow> node_index \<Rightarrow> node_index \<Rightarrow> basic_block \<Rightarrow> basic_block" where
  "split_update a b x n blk =
     blk\<lparr>bb_phi_nodes := (if n = b then map (update_phi a x) (bb_phi_nodes blk) else bb_phi_nodes blk),
         bb_control_flow := (if n = a then update_control_flow b x (bb_control_flow blk) else bb_control_flow blk)\<rparr>"

definition split_graph :: "program \<Rightarrow> edge_index \<Rightarrow> node_index \<Rightarrow> node_index \<Rightarrow> node_index \<Rightarrow> program \<Rightarrow> bool" where
  "split_graph G e a b x G' \<longleftrightarrow>
     pg_root G' = pg_root G \<and> map fst (pg_nodes G') = map fst (pg_nodes G) @ [x] \<and>
     (\<exists>e1 e2. pg_edges G' = (e2, x, b) # (e1, a, x) # filter (\<lambda>(e', _). e' \<noteq> e) (pg_edges G) \<and>
        e1 \<notin> fst ` {p \<in> set (pg_edges G). fst p \<noteq> e} \<and> e2 \<notin> insert e1 (fst ` {p \<in> set (pg_edges G). fst p \<noteq> e})) \<and>
     (\<forall>n. node_of G' n = (if n = x then Some default_block else map_option (split_update a b x n) (node_of G n)))"

lemma graph_node: "graph p L V \<Longrightarrow> n < L \<Longrightarrow> \<exists>b. node_of p n = Some b"
  using graph_simps(3) [of p L V n] by auto

lemma split_edge_returns:
  assumes g: "graph (op_program st) L V" and e: "(e, a, b) \<in> set (pg_edges (op_program st))"
  shows "\<exists>p. split_edge a st (e, b) = Ret (st\<lparr>op_program := p\<rparr>) \<and> split_graph (op_program st) e a b L p"
proof -
  let ?G = "op_program st" and ?es = "filter (\<lambda>(e', _). e' \<noteq> e) (pg_edges (op_program st))"
  have ab: "a < L" "b < L" using graph_edges [OF g e] by simp_all
  note gs = graph_simps [OF g]
  obtain A where A: "node_of ?G a = Some A" using graph_node [OF g ab(1)] by blast
  obtain B where B: "node_of ?G b = Some B" using graph_node [OF g ab(2)] by blast
  have ids: "map fst (pg_nodes ?G) = [0..<L]" using g by (simp add: graph_def)
  have idsL: "fst ` set (pg_nodes ?G) = {..<L}" using arg_cong [OF ids, of set] by auto
  define p1 where "p1 = ?G\<lparr>pg_nodes := pg_nodes ?G @ [(L, default_block)], pg_edges := ?es\<rparr>"
  define e1 where "e1 = fresh_edge p1"
  define p2 where "p2 = p1\<lparr>pg_edges := (e1, a, L) # ?es\<rparr>"
  define e2 where "e2 = fresh_edge p2"
  define p3 where "p3 = p2\<lparr>pg_edges := (e2, L, b) # (e1, a, L) # ?es\<rparr>"
  have nodes: "pg_nodes p1 = pg_nodes ?G @ [(L, default_block)]" "pg_nodes p2 = pg_nodes p1" "pg_nodes p3 = pg_nodes p1"
    by (simp_all add: p1_def p2_def p3_def)
  have ids3: "set (node_ids p1) = {..<Suc L}" "set (node_ids p2) = {..<Suc L}"
    using idsL by (auto simp: node_ids_def nodes)
  have add1: "add_node (remove_edge e st) = (L, st\<lparr>op_program := p1\<rparr>)"
    using gs(1) by (simp add: add_node_def remove_edge_def p1_def Let_def)
  have add2: "add_edge a L (st\<lparr>op_program := p1\<rparr>) = Ret (st\<lparr>op_program := p2\<rparr>)"
    using ab ids3 by (simp add: add_edge_def p2_def e1_def) (simp add: p1_def)
  have add3: "add_edge L b (st\<lparr>op_program := p2\<rparr>) = Ret (st\<lparr>op_program := p3\<rparr>)"
    using ab ids3 by (simp add: add_edge_def p3_def e2_def) (simp add: p2_def)
  have at: "map_of (pg_nodes p3) = (node_of ?G)(L \<mapsto> default_block)"
    using gs(3) [of L] by (auto simp: nodes fun_eq_iff map_add_def split: option.splits)
  define B' where "B' = B\<lparr>bb_phi_nodes := map (update_phi a L) (bb_phi_nodes B)\<rparr>"
  define A' where "A' = (if a = b then B' else A)"
  define p4 where "p4 = p3\<lparr>pg_nodes := AList.update b B' (pg_nodes p3)\<rparr>"
  define p5 where "p5 = p4\<lparr>pg_nodes := AList.update a (A'\<lparr>bb_control_flow := update_control_flow b L (bb_control_flow A')\<rparr>) (pg_nodes p4)\<rparr>"
  have "map_of (pg_nodes p3) b = Some B" "map_of (pg_nodes p4) a = Some A'"
    using A B ab by (simp_all add: p4_def update_conv' at A'_def)
  then have run: "split_edge a st (e, b) = Ret (st\<lparr>op_program := p5\<rparr>)"
    by (simp add: split_edge_def add1 add2 add3 change_block_def block_at_def p4_def p5_def B'_def)
  have keys: "map fst (AList.update n v xs) = map fst xs" if "n \<in> fst ` set xs" for n v and xs :: "(node_index \<times> basic_block) list"
    using that by (simp add: update_keys)
  have "map fst (pg_nodes p4) = map fst (pg_nodes p1)" using ab idsL by (simp add: p4_def nodes keys)
  moreover have "a \<in> fst ` set (pg_nodes p4)" using arg_cong [OF calculation, of set] ab idsL by (simp add: nodes)
  ultimately have "map fst (pg_nodes p5) = map fst (pg_nodes ?G) @ [L]" by (simp add: p5_def keys nodes)
  moreover have "node_of p5 n = (if n = L then Some default_block else map_option (split_update a b L n) (node_of ?G n))" for n
    using A B ab
    by (cases "node_of ?G n") (auto simp: p5_def p4_def update_conv' at A'_def B'_def split_update_def)
  moreover have "e1 \<notin> fst ` {p \<in> set (pg_edges ?G). fst p \<noteq> e}"
    using fresh_edge_new [of p1] by (simp add: e1_def p1_def case_prod_beta)
  moreover have "e2 \<notin> insert e1 (fst ` {p \<in> set (pg_edges ?G). fst p \<noteq> e})"
    using fresh_edge_new [of p2] by (simp add: e2_def p2_def case_prod_beta)
  moreover have "pg_edges p5 = (e2, L, b) # (e1, a, L) # ?es" "pg_root p5 = pg_root ?G"
    by (simp_all add: p5_def p4_def p3_def p2_def p1_def)
  ultimately show ?thesis using run unfolding split_graph_def by blast
qed

lemma graphI:
  assumes "pg_root p = 0" "map fst (pg_nodes p) = [0..<L]" "distinct (map fst (pg_edges p))"
    and "\<And>e s t. (e, s, t) \<in> set (pg_edges p) \<Longrightarrow> s < L \<and> t < L"
    and "\<And>n b phi e. (n, b) \<in> set (pg_nodes p) \<Longrightarrow> phi \<in> set (bb_phi_nodes b) \<Longrightarrow> e \<in> set (phi_entries phi) \<Longrightarrow> pe_block e < L"
    and "\<And>n b. (n, b) \<in> set (pg_nodes p) \<Longrightarrow> cf_jumps (bb_control_flow b) \<subseteq> {..<L}"
  shows "graph p L (view p)"
  using assms unfolding graph_def by fast

text \<open>Splitting keeps graphs well formed.\<close>

lemma split_graph_graph:
  assumes g: "graph G L V" and e: "(e, a, b) \<in> set (pg_edges G)" and s: "split_graph G e a b L G'"
  shows "graph G' (Suc L) (view G')"
proof -
  have ab: "a < L" "b < L" using graph_edges [OF g e] by simp_all
  from s obtain e1 e2 where es: "pg_edges G' = (e2, L, b) # (e1, a, L) # filter (\<lambda>(e', _). e' \<noteq> e) (pg_edges G)"
    and new: "e1 \<notin> fst ` {p \<in> set (pg_edges G). fst p \<noteq> e}" "e2 \<notin> insert e1 (fst ` {p \<in> set (pg_edges G). fst p \<noteq> e})"
    and nodes: "\<And>n. node_of G' n = (if n = L then Some default_block else map_option (split_update a b L n) (node_of G n))"
    and ids: "map fst (pg_nodes G') = map fst (pg_nodes G) @ [L]" "pg_root G' = pg_root G" unfolding split_graph_def by blast
  from g have gG: "map fst (pg_nodes G) = [0..<L]" "distinct (map fst (pg_edges G))" "pg_root G = 0"
    and phis: "\<And>n blk phi en. (n, blk) \<in> set (pg_nodes G) \<Longrightarrow> phi \<in> set (bb_phi_nodes blk) \<Longrightarrow> en \<in> set (phi_entries phi) \<Longrightarrow> pe_block en < L"
    unfolding graph_def by fast+
  have ids': "map fst (pg_nodes G') = [0..<Suc L]" using ids(1) gG(1) by simp
  have "distinct (map fst (pg_edges G'))"
    using new gG(2) by (auto simp: es distinct_map_filter)
  moreover have "s < Suc L \<and> t < Suc L" if "(k, s, t) \<in> set (pg_edges G')" for k s t
    using that ab graph_edges [OF g, of k s t] by (auto simp: es)
  moreover have "pe_block en < Suc L" if "(n, blk) \<in> set (pg_nodes G')" "phi \<in> set (bb_phi_nodes blk)" "en \<in> set (phi_entries phi)"
    for n blk phi en
  proof -
    have "distinct (map fst (pg_nodes G'))" unfolding ids' by simp
    then have at: "node_of G' n = Some blk" using that(1) by simp
    show ?thesis
    proof (cases "n = L")
      case True
      with nodes at that(2) show ?thesis by (auto simp: default_block_def)
    next
      case False
      with nodes at obtain old where old: "node_of G n = Some old" "blk = split_update a b L n old" by auto
      note mem = map_of_SomeD [OF old(1)]
      have "pe_block en = L \<or> (\<exists>phi' \<in> set (bb_phi_nodes old). \<exists>en' \<in> set (phi_entries phi'). pe_block en = pe_block en')"
        using that(2,3) unfolding old(2) by (auto simp: split_update_def update_phi_def retarget_def split: if_splits) blast+
      with phis [OF mem] show ?thesis by fastforce
    qed
  qed
  moreover have "cf_jumps (bb_control_flow blk) \<subseteq> {..<Suc L}" if "(n, blk) \<in> set (pg_nodes G')" for n blk
  proof -
    have "distinct (map fst (pg_nodes G'))" unfolding ids' by simp
    then have at: "node_of G' n = Some blk" using that by simp
    show ?thesis
    proof (cases "n = L")
      case True
      with nodes at show ?thesis by (auto simp: default_block_def)
    next
      case False
      with nodes at obtain old where old: "node_of G n = Some old" "blk = split_update a b L n old" by auto
      have "cf_jumps (bb_control_flow old) \<subseteq> {..<L}" using g map_of_SomeD [OF old(1)] unfolding graph_def by fast
      moreover have "cf_jumps (update_control_flow b L cf) \<subseteq> insert L (cf_jumps cf)" for cf
        by (cases cf) (auto simp: retarget_def split: if_splits)
      then have "cf_jumps (bb_control_flow blk) \<subseteq> insert L (cf_jumps (bb_control_flow old))"
        unfolding old(2) by (auto simp: split_update_def)
      ultimately show ?thesis by (auto simp: less_Suc_eq)
    qed
  qed
  ultimately show ?thesis using ids' ids(2) gG(3) by (intro graphI) simp_all
qed

text \<open>The edges of the split graph.\<close>

lemma split_edges:
  assumes g: "graph G L V" and e: "(e, a, b) \<in> set (pg_edges G)" and s: "split_graph G e a b L G'"
  shows "\<exists>e1 e2. pg_edges G' = (e2, L, b) # (e1, a, L) # remove1 (e, a, b) (pg_edges G)" "a < L" "b < L"
proof -
  have dist: "distinct (map fst (pg_edges G))" using g by (simp add: graph_def)
  then have "x = (e, a, b)" if "x \<in> set (pg_edges G)" "fst x = e" for x
    using e that by (metis eq_key_imp_eq_value prod.collapse)
  then have "filter (\<lambda>(e', _). e' \<noteq> e) (pg_edges G) = filter (\<lambda>x. (e, a, b) \<noteq> x) (pg_edges G)"
    by (intro filter_cong) auto
  also have "\<dots> = remove1 (e, a, b) (pg_edges G)"
    using dist by (simp add: distinct_remove1_removeAll distinct_map removeAll_filter_not_eq)
  finally show "\<exists>e1 e2. pg_edges G' = (e2, L, b) # (e1, a, L) # remove1 (e, a, b) (pg_edges G)"
    using s unfolding split_graph_def by auto
  show "a < L" "b < L" using graph_edges [OF g e] by simp_all
qed

lemma split_successors:
  assumes g: "graph G L V" and e: "(e, a, b) \<in> set (pg_edges G)" and s: "split_graph G e a b L G'"
  shows "successors G' L = [b]" "n \<noteq> a \<Longrightarrow> n \<noteq> L \<Longrightarrow> successors G' n = successors G n"
    "length (successors G' a) = length (successors G a)" "L \<in> set (successors G' a)"
    "t \<noteq> b \<Longrightarrow> t \<noteq> L \<Longrightarrow> t \<in> set (successors G' a) \<longleftrightarrow> t \<in> set (successors G a)"
proof -
  from split_edges [OF assms] obtain e1 e2 where es: "pg_edges G' = (e2, L, b) # (e1, a, L) # remove1 (e, a, b) (pg_edges G)"
    and ab: "a < L" "b < L" by blast
  have none: "filter (\<lambda>(_, s, _). s = L) (pg_edges G) = []"
    using graph_edges [OF g] by (fastforce simp: filter_empty_conv)
  show "successors G' L = [b]" using ab none by (simp add: successors_def es filter_remove1)
  show "n \<noteq> a \<Longrightarrow> n \<noteq> L \<Longrightarrow> successors G' n = successors G n"
    by (auto simp: successors_def es filter_remove1 remove1_idem)
  have out: "(e, a, b) \<in> set (filter (\<lambda>(_, s, _). s = a) (pg_edges G))" using e by simp
  then have "0 < length (filter (\<lambda>(_, s, _). s = a) (pg_edges G))" by (rule length_pos_if_in_set)
  then show "length (successors G' a) = length (successors G a)"
    using ab out by (simp add: successors_def es filter_remove1 length_remove1)
  show "L \<in> set (successors G' a)" using ab by (simp add: successors_def es)
  have "t \<in> (snd \<circ> snd) ` set (remove1 (e, a, b) xs) \<longleftrightarrow> t \<in> (snd \<circ> snd) ` set xs" if "t \<noteq> b" for xs
    using that by (induction xs) auto
  then show "t \<noteq> b \<Longrightarrow> t \<noteq> L \<Longrightarrow> t \<in> set (successors G' a) \<longleftrightarrow> t \<in> set (successors G a)"
    using ab by (auto simp: successors_def es filter_remove1 simp del: set_filter)
qed

lemma split_predecessors:
  assumes g: "graph G L V" and e: "(e, a, b) \<in> set (pg_edges G)" and s: "split_graph G e a b L G'"
  shows "length (predecessors G' L) = 1" "n \<noteq> L \<Longrightarrow> length (predecessors G' n) = length (predecessors G n)"
proof -
  from split_edges [OF assms] obtain e1 e2 where es: "pg_edges G' = (e2, L, b) # (e1, a, L) # remove1 (e, a, b) (pg_edges G)"
    and ab: "a < L" "b < L" by blast
  have none: "filter (\<lambda>(_, _, t). t = L) (pg_edges G) = []"
    using graph_edges [OF g] by (fastforce simp: filter_empty_conv)
  show "length (predecessors G' L) = 1" using ab none by (simp add: predecessors_def es filter_remove1)
  have into: "(e, a, b) \<in> set (filter (\<lambda>(_, _, t). t = b) (pg_edges G))" using e by simp
  then have "0 < length (filter (\<lambda>(_, _, t). t = b) (pg_edges G))" by (rule length_pos_if_in_set)
  then show "n \<noteq> L \<Longrightarrow> length (predecessors G' n) = length (predecessors G n)"
    using into by (cases "n = b") (auto simp: predecessors_def es filter_remove1 length_remove1 remove1_idem)
qed

section \<open>The split graph runs like the graph\<close>

definition splits_cf :: "control_flow \<Rightarrow> bool" where
  "splits_cf cf = (case cf of IfElseF _ _ _ _ \<Rightarrow> True | SwitchF _ _ _ _ \<Rightarrow> True | _ \<Rightarrow> False)"

lemma find_retargeted:
  "find (\<lambda>b. fst b = l) (map (\<lambda>(val, t). (val, retarget from to t)) bs) = map_option (\<lambda>(val, t). (val, retarget from to t)) (find (\<lambda>b. fst b = l) bs)"
  by (induction bs) auto

lemma branch_target_retargeted:
  "splits_cf cf \<Longrightarrow> branch_target m G' n (update_control_flow from to cf) \<sigma> = map_option (retarget from to) (branch_target m G n cf \<sigma>)"
  by (cases cf) (auto simp: splits_cf_def find_retargeted split: option.splits prod.splits)

lemma branch_target_same: "successors G' n = successors G n \<Longrightarrow> branch_target m G' n cf \<sigma> = branch_target m G n cf \<sigma>"
  by (cases cf) simp_all

lemma update_phi_value:
  assumes "\<forall>e \<in> set (phi_entries phi). pe_block e \<noteq> x"
  shows "phi_value m x \<sigma> (update_phi a x phi) = phi_value m a \<sigma> phi"
    "n \<noteq> a \<Longrightarrow> n \<noteq> x \<Longrightarrow> phi_value m n \<sigma> (update_phi a x phi) = phi_value m n \<sigma> phi"
proof -
  have "find (\<lambda>e. pe_block e = x) (map (\<lambda>e. e\<lparr>pe_block := retarget a x (pe_block e)\<rparr>) es) =
      map_option (\<lambda>e. e\<lparr>pe_block := x\<rparr>) (find (\<lambda>e. pe_block e = a) es)" if "\<forall>e \<in> set es. pe_block e \<noteq> x" for es :: "phi_entry list"
    using that by (induction es) (auto simp: retarget_def)
  from this [OF assms] show "phi_value m x \<sigma> (update_phi a x phi) = phi_value m a \<sigma> phi"
    by (simp add: phi_value_def update_phi_def option.map_comp comp_def)
  assume n: "n \<noteq> a" "n \<noteq> x"
  then have "find (\<lambda>e. pe_block e = n) (map (\<lambda>e. e\<lparr>pe_block := retarget a x (pe_block e)\<rparr>) es) = find (\<lambda>e. pe_block e = n) es"
    for es :: "phi_entry list"
    by (induction es) (auto simp: retarget_def)
  then show "phi_value m n \<sigma> (update_phi a x phi) = phi_value m n \<sigma> phi" by (simp add: phi_value_def update_phi_def)
qed

lemma phi_out_update [simp]: "phi_out (update_phi a x phi) = phi_out phi"
  by (simp add: update_phi_def)

lemma enter_cong:
  assumes "node_of G' t' = Some B'" "node_of G t = Some B" "t' \<in> set (successors G' n') \<longleftrightarrow> t \<in> set (successors G n)"
    and "list_all2 (\<lambda>p' p. phi_out p' = phi_out p \<and> phi_value m n' \<sigma> p' = phi_value m n \<sigma> p) (bb_phi_nodes B') (bb_phi_nodes B)"
  shows "enter m G' n' t' \<sigma> = enter m G n t \<sigma>"
proof -
  have "(\<exists>p \<in> set (bb_phi_nodes B'). phi_value m n' \<sigma> p = None) \<longleftrightarrow> (\<exists>p \<in> set (bb_phi_nodes B). phi_value m n \<sigma> p = None)"
    using assms(4) by (induction rule: list_all2_induct) auto
  moreover have "map (\<lambda>phi. (phi_out phi, the (phi_value m n' \<sigma> phi))) (bb_phi_nodes B') =
      map (\<lambda>phi. (phi_out phi, the (phi_value m n \<sigma> phi))) (bb_phi_nodes B)"
    using assms(4) by (induction rule: list_all2_induct) auto
  ultimately show ?thesis using assms(1-3) by (simp add: enter_def)
qed

lemma split_enter:
  assumes g: "graph G L V" and e: "(e, a, b) \<in> set (pg_edges G)" and s: "split_graph G e a b L G'" and n: "n \<noteq> L"
  shows "enter m G' L b \<sigma> = enter m G a b \<sigma>" "enter m G' a L \<sigma> = Some \<sigma>"
    "n \<noteq> a \<or> t \<noteq> b \<Longrightarrow> t \<noteq> L \<Longrightarrow> enter m G' n t \<sigma> = enter m G n t \<sigma>"
proof -
  note succ = split_successors [OF g e s]
  have ab: "a < L" "b < L" using split_edges [OF g e s] by blast+
  have nodes: "node_of G' k = (if k = L then Some default_block else map_option (split_update a b L k) (node_of G k))" for k
    using s by (auto simp: split_graph_def)
  have phis: "pe_block en \<noteq> L" if "node_of G k = Some blk" "phi \<in> set (bb_phi_nodes blk)" "en \<in> set (phi_entries phi)" for k blk phi en
    using g map_of_SomeD [OF that(1)] that(2,3) unfolding graph_def by fast
  obtain B where B: "node_of G b = Some B" using graph_node [OF g ab(2)] by blast
  have mem: "b \<in> set (successors G a)" using e by (force simp: successors_def)
  show "enter m G' L b \<sigma> = enter m G a b \<sigma>"
    by (rule enter_cong [where B' = "split_update a b L b B" and B = B])
      (use B ab mem succ(1) phis [OF B] in \<open>auto simp: nodes split_update_def list.rel_map update_phi_value intro!: list.rel_refl_strong\<close>)
  show "enter m G' a L \<sigma> = Some \<sigma>" using succ(4) by (simp add: enter_def nodes default_block_def assign_all_def)
  assume t: "n \<noteq> a \<or> t \<noteq> b" "t \<noteq> L"
  show "enter m G' n t \<sigma> = enter m G n t \<sigma>"
  proof (cases "node_of G t")
    case None
    with t(2) show ?thesis by (simp add: enter_def nodes)
  next
    case (Some blk)
    have edge: "t \<in> set (successors G' n) \<longleftrightarrow> t \<in> set (successors G n)"
      using succ(2) [OF _ n] succ(5) [of t] t by (cases "n = a") auto
    show ?thesis
      by (rule enter_cong [where B' = "split_update a b L t blk" and B = blk])
        (use Some t n phis [OF Some] edge in
          \<open>auto simp: nodes split_update_def list.rel_map update_phi_value intro!: list.rel_refl_strong\<close>)
  qed
qed

text \<open>The graphs return from a block with the same environments.\<close>

definition returns_from :: "'v machine \<Rightarrow> program \<Rightarrow> node_index \<Rightarrow> nat \<Rightarrow> 'v env \<Rightarrow> 'v env \<Rightarrow> bool" where
  "returns_from m G n i \<sigma> \<tau> = (\<exists>k. grun m G k n i \<sigma> = Some \<tau>)"

lemma returns_from_step:
  "returns_from m G n i \<sigma> \<tau> \<longleftrightarrow> (\<exists>b. node_of G n = Some b \<and>
     (let \<sigma>' = fold (mc_effect m) (drop i (bb_ops b)) \<sigma> in
      if bb_control_flow b = ReturnF then \<tau> = \<sigma>'
      else (\<exists>t \<sigma>''. branch_target m G n (bb_control_flow b) \<sigma>' = Some t \<and> enter m G n t \<sigma>' = Some \<sigma>'' \<and> returns_from m G t 0 \<sigma>'' \<tau>)))"
  (is "?l = ?r")
proof
  assume ?l
  then obtain k where k: "grun m G k n i \<sigma> = Some \<tau>" by (auto simp: returns_from_def)
  then obtain k' where "k = Suc k'" by (cases k) auto
  with k show ?r by (auto simp: grun.simps(2) Let_def returns_from_def split: option.splits if_splits)
next
  assume r: ?r
  then obtain b where b: "node_of G n = Some b" by blast
  let ?\<sigma> = "fold (mc_effect m) (drop i (bb_ops b)) \<sigma>"
  show ?l
  proof (cases "bb_control_flow b = ReturnF")
    case True
    with r b have "grun m G (Suc 0) n i \<sigma> = Some \<tau>" by (simp add: grun.simps(2))
    then show ?thesis unfolding returns_from_def ..
  next
    case False
    with r b obtain t \<sigma>'' k where "branch_target m G n (bb_control_flow b) ?\<sigma> = Some t" "enter m G n t ?\<sigma> = Some \<sigma>''"
      "grun m G k t 0 \<sigma>'' = Some \<tau>" by (auto simp: Let_def returns_from_def)
    with b False have "grun m G (Suc k) n i \<sigma> = Some \<tau>" by (simp add: grun.simps(2))
    then show ?thesis unfolding returns_from_def ..
  qed
qed

lemma returns_from_induct [consumes 1, case_names Return Step]:
  assumes "returns_from m G n i \<sigma> \<tau>"
    and "\<And>n i \<sigma> b. node_of G n = Some b \<Longrightarrow> bb_control_flow b = ReturnF \<Longrightarrow> P n i \<sigma> (fold (mc_effect m) (drop i (bb_ops b)) \<sigma>)"
    and "\<And>n i \<sigma> b \<sigma>' t \<sigma>'' \<tau>. node_of G n = Some b \<Longrightarrow> \<sigma>' = fold (mc_effect m) (drop i (bb_ops b)) \<sigma> \<Longrightarrow> bb_control_flow b \<noteq> ReturnF \<Longrightarrow>
      branch_target m G n (bb_control_flow b) \<sigma>' = Some t \<Longrightarrow> enter m G n t \<sigma>' = Some \<sigma>'' \<Longrightarrow> returns_from m G t 0 \<sigma>'' \<tau> \<Longrightarrow>
      P t 0 \<sigma>'' \<tau> \<Longrightarrow> P n i \<sigma> \<tau>"
  shows "P n i \<sigma> \<tau>"
proof -
  from assms(1) obtain k where "grun m G k n i \<sigma> = Some \<tau>" by (auto simp: returns_from_def)
  then show ?thesis
  proof (induction k arbitrary: n i \<sigma>)
    case (Suc k)
    from Suc.prems obtain b where b: "node_of G n = Some b" by (auto simp: grun.simps(2) split: option.splits)
    let ?\<sigma> = "fold (mc_effect m) (drop i (bb_ops b)) \<sigma>"
    show ?case
    proof (cases "bb_control_flow b = ReturnF")
      case True
      with Suc.prems b have "\<tau> = ?\<sigma>" by (simp add: grun.simps(2))
      with assms(2) [OF b True, of i \<sigma>] show ?thesis by simp
    next
      case False
      with Suc.prems b obtain t \<sigma>'' where "branch_target m G n (bb_control_flow b) ?\<sigma> = Some t" "enter m G n t ?\<sigma> = Some \<sigma>''"
        "grun m G k t 0 \<sigma>'' = Some \<tau>" by (auto simp: grun.simps(2) Let_def split: option.splits)
      with assms(3) [OF b refl False] Suc.IH show ?thesis unfolding returns_from_def by blast
    qed
  qed simp
qed

section \<open>One split keeps the runs\<close>

lemma split_returns:
  assumes g: "graph G L V" and e: "(e, a, b) \<in> set (pg_edges G)" and s: "split_graph G e a b L G'"
    and A: "node_of G a = Some A" "splits_cf (bb_control_flow A)" and n: "n \<noteq> L"
  shows "returns_from m G' n i \<sigma> \<tau> \<longleftrightarrow> returns_from m G n i \<sigma> \<tau>"
proof -
  note succ = split_successors [OF g e s] note enter = split_enter [OF g e s]
  have ab: "a < L" "b < L" using split_edges [OF g e s] by blast+
  have nodes: "node_of G' k = (if k = L then Some default_block else map_option (split_update a b L k) (node_of G k))" for k
    using s by (auto simp: split_graph_def)
  have ops: "bb_ops (split_update a b L k blk) = bb_ops blk" for k blk by (simp add: split_update_def)
  have ret: "bb_control_flow (split_update a b L k blk) = ReturnF \<longleftrightarrow> bb_control_flow blk = ReturnF" for k blk
    by (cases "bb_control_flow blk") (auto simp: split_update_def)
  have target: "branch_target m G' k (bb_control_flow (split_update a b L k blk)) \<sigma> =
      (if k = a then map_option (retarget b L) (branch_target m G k (bb_control_flow blk) \<sigma>) else branch_target m G k (bb_control_flow blk) \<sigma>)"
    if "k \<noteq> L" "node_of G k = Some blk" for k blk \<sigma>
    using that A branch_target_retargeted [OF A(2)] branch_target_same [OF succ(2) [OF _ that(1)]]
    by (auto simp: split_update_def)
  have new: "returns_from m G' L 0 \<sigma> \<tau> \<longleftrightarrow> (\<exists>\<sigma>'. enter m G a b \<sigma> = Some \<sigma>' \<and> returns_from m G' b 0 \<sigma>' \<tau>)" for \<sigma> \<tau>
    by (subst returns_from_step) (simp add: nodes default_block_def succ(1) enter(1) [OF less_imp_neq [OF ab(1)]])
  show ?thesis
  proof
    assume "returns_from m G n i \<sigma> \<tau>"
    then have "n \<noteq> L \<longrightarrow> returns_from m G' n i \<sigma> \<tau>"
    proof (induction rule: returns_from_induct)
      case (Return n i \<sigma> b)
      then show ?case by (subst returns_from_step) (auto simp: nodes ops ret Let_def)
    next
      case (Step n i \<sigma> blk \<sigma>' t \<sigma>'' \<tau>)
      show ?case
      proof
        assume n: "n \<noteq> L"
        have t: "t \<noteq> L"
          using Step.hyps(5) graph_simps(3) [OF g, of t] by (auto simp: enter_def split: option.splits)
        show "returns_from m G' n i \<sigma> \<tau>"
        proof (cases "n = a \<and> t = b")
          case True
          then have "returns_from m G' L 0 \<sigma>' \<tau>" using new Step t by auto
          moreover have "branch_target m G' n (bb_control_flow (split_update a b L n blk)) \<sigma>' = Some L"
            using target [OF n Step.hyps(1)] Step.hyps(4) True by (simp add: retarget_def)
          ultimately show ?thesis using Step.hyps(1,2,3) True enter(2) [OF n, of m \<sigma>'] n
            by (subst returns_from_step) (auto simp: nodes ops ret Let_def)
        next
          case False
          then have "branch_target m G' n (bb_control_flow (split_update a b L n blk)) \<sigma>' = Some t"
            using target [OF n Step.hyps(1)] Step.hyps(4) by (auto simp: retarget_def)
          then show ?thesis using Step False enter(3) [OF n, of t m \<sigma>'] n t
            by (subst returns_from_step) (auto simp: nodes ops ret Let_def)
        qed
      qed
    qed
    with n show "returns_from m G' n i \<sigma> \<tau>" by blast
  next
    assume "returns_from m G' n i \<sigma> \<tau>"
    then have "(n \<noteq> L \<longrightarrow> returns_from m G n i \<sigma> \<tau>) \<and>
      (n = L \<longrightarrow> (\<exists>\<sigma>'. enter m G a b \<sigma> = Some \<sigma>' \<and> returns_from m G b 0 \<sigma>' \<tau>))"
    proof (induction rule: returns_from_induct)
      case (Return n i \<sigma> blk')
      show ?case
      proof (cases "n = L")
        case True
        with Return nodes show ?thesis by (auto simp: default_block_def)
      next
        case False
        with Return nodes obtain blk where "node_of G n = Some blk" "blk' = split_update a b L n blk" by auto
        with Return False show ?thesis by (auto simp: returns_from_step [of m G n] ops ret Let_def)
      qed
    next
      case (Step n i \<sigma> blk' \<sigma>' t \<sigma>'' \<tau>)
      show ?case
      proof (cases "n = L")
        case True
        with Step.hyps(1) nodes have blk': "blk' = default_block" by simp
        then have "\<sigma>' = \<sigma>" "t = b" using Step.hyps(2,4) True succ(1) by (auto simp: default_block_def)
        with Step True enter(1) [OF less_imp_neq [OF ab(1)], of m \<sigma>] ab show ?thesis by auto
      next
        case False
        with Step.hyps(1) nodes obtain blk where blk: "node_of G n = Some blk" "blk' = split_update a b L n blk" by auto
        note tgt = target [OF False blk(1), of \<sigma>'] note step = returns_from_step [of m G n i \<sigma> \<tau>]
        have jumps: "cf_jumps (bb_control_flow blk) \<subseteq> {..<L}" using g map_of_SomeD [OF blk(1)] unfolding graph_def by fast
        have \<sigma>': "\<sigma>' = fold (mc_effect m) (drop i (bb_ops blk)) \<sigma>" "bb_control_flow blk \<noteq> ReturnF"
          using Step.hyps(2,3) by (simp_all add: blk(2) ops ret)
        obtain t0 where t0: "branch_target m G n (bb_control_flow blk) \<sigma>' = Some t0" "t = (if n = a then retarget b L t0 else t0)"
          using Step.hyps(4) tgt by (auto simp: blk(2) split: if_splits)
        show ?thesis
        proof (cases "n = a \<and> t0 = b")
          case True
          with t0 have t: "t = L" by (simp add: retarget_def)
          then have "\<sigma>'' = \<sigma>'" using Step.hyps(5) True enter(2) [OF False, of m \<sigma>'] by simp
          with Step.IH t obtain \<rho> where "enter m G a b \<sigma>' = Some \<rho>" "returns_from m G b 0 \<rho> \<tau>" by auto
          with True t0(1) \<sigma>' blk(1) have "returns_from m G n i \<sigma> \<tau>" unfolding step by (auto simp: Let_def)
          with False show ?thesis by simp
        next
          case other: False
          then have t: "t = t0" using t0(2) by (auto simp: retarget_def)
          have "t \<noteq> L"
          proof (cases "n = a")
            case True
            with A blk(1) have "splits_cf (bb_control_flow blk)" by simp
            then have "t0 \<in> cf_jumps (bb_control_flow blk)" using t0(1)
              by (cases "bb_control_flow blk") (auto simp: splits_cf_def split: option.splits if_splits dest: find_in_set)
            with jumps t show ?thesis by auto
          next
            case False
            have "t \<in> set (successors G' n)" using Step.hyps(5) by (auto simp: enter_def split: option.splits if_splits)
            with succ(2) [OF False \<open>n \<noteq> L\<close>] show ?thesis
              using graph_simps(5) [OF g, of t n] graph_view [OF g] by (auto simp: view_def)
          qed
          moreover have "enter m G n t \<sigma>' = Some \<sigma>''" using Step.hyps(5) enter(3) [OF False, of t m \<sigma>'] other t calculation by auto
          ultimately show ?thesis using Step.IH t0(1) t \<sigma>' blk(1) False by (auto simp: step Let_def)
        qed
      qed
    qed
    with n show "returns_from m G n i \<sigma> \<tau>" by blast
  qed
qed

section \<open>Blocks\<close>

definition critical_block :: "program \<Rightarrow> node_index \<Rightarrow> bool" where
  "critical_block G n \<longleftrightarrow> 1 < length (successors G n) \<and> (\<exists>t \<in> set (successors G n). 1 < length (predecessors G t))"

definition flow_splits :: "program \<Rightarrow> node_index \<Rightarrow> bool" where
  "flow_splits G n = (case node_of G n of None \<Rightarrow> False | Some b \<Rightarrow> splits_cf (bb_control_flow b))"

text \<open>Every critical edge leaves a block whose control flow can be retargeted.\<close>

definition splittable :: "program \<Rightarrow> bool" where
  "splittable G \<longleftrightarrow> (\<forall>n \<in> set (node_ids G). critical_block G n \<longrightarrow> flow_splits G n)"

text \<open>Edges of the block \<open>a\<close> have been split.\<close>

definition block_split :: "'v machine \<Rightarrow> program \<Rightarrow> nat \<Rightarrow> node_index \<Rightarrow> program \<Rightarrow> nat \<Rightarrow> bool" where
  "block_split m G L a G' L' \<longleftrightarrow> graph G' L' (view G') \<and> L \<le> L' \<and>
     (\<forall>n < L. n \<noteq> a \<longrightarrow> successors G' n = successors G n) \<and> length (successors G' a) = length (successors G a) \<and>
     (\<forall>n < L. length (predecessors G' n) = length (predecessors G n)) \<and>
     (\<forall>n. L \<le> n \<longrightarrow> n < L' \<longrightarrow> length (successors G' n) = 1 \<and> length (predecessors G' n) = 1) \<and>
     (\<forall>n < L. flow_splits G' n = flow_splits G n) \<and>
     (flow_splits G a \<longrightarrow> (\<forall>n < L. \<forall>i \<sigma> \<tau>. returns_from m G' n i \<sigma> \<tau> = returns_from m G n i \<sigma> \<tau>))"

lemma block_split_refl: "graph G L V \<Longrightarrow> block_split m G L a G L"
  using graph_view [of G L V] by (simp add: block_split_def)

lemma block_split_trans:
  assumes "block_split m G L a G1 L1" "block_split m G1 L1 a G2 L2" "a < L"
  shows "block_split m G L a G2 L2"
proof -
  have "length (successors G2 n) = 1 \<and> length (predecessors G2 n) = 1" if "L \<le> n" "n < L2" for n
    using assms that by (cases "n < L1") (auto simp: block_split_def)
  with assms show ?thesis unfolding block_split_def by (intro conjI) auto
qed

lemma splits_cf_update: "splits_cf (update_control_flow from to cf) = splits_cf cf"
  by (cases cf) (simp_all add: splits_cf_def)

lemma block_split_one:
  assumes g: "graph G L V" and e: "(e, a, b) \<in> set (pg_edges G)" and s: "split_graph G e a b L G'"
  shows "block_split m G L a G' (Suc L)"
proof -
  note succ = split_successors [OF g e s] and pred = split_predecessors [OF g e s]
  have a: "a < L" using split_edges [OF g e s] by blast
  have nodes: "node_of G' k = (if k = L then Some default_block else map_option (split_update a b L k) (node_of G k))" for k
    using s by (auto simp: split_graph_def)
  have "flow_splits G' n = flow_splits G n" if "n < L" for n
    using that by (cases "node_of G n") (auto simp: flow_splits_def nodes split_update_def splits_cf_update)
  moreover have "returns_from m G' n i \<sigma> \<tau> = returns_from m G n i \<sigma> \<tau>" if "flow_splits G a" "n < L" for n i \<sigma> \<tau>
  proof -
    obtain A where A: "node_of G a = Some A" using graph_node [OF g a] by blast
    with that(1) have "splits_cf (bb_control_flow A)" by (simp add: flow_splits_def)
    from split_returns [OF g e s A this, of n m i \<sigma> \<tau>] that(2) show ?thesis by simp
  qed
  ultimately show ?thesis
    unfolding block_split_def using succ pred split_graph_graph [OF g e s] by (auto simp: less_Suc_eq)
qed

lemma split_edge_fold:
  assumes "graph (op_program st) L V" "a < L" "distinct (map fst cs)"
    and "\<forall>(e, b) \<in> set cs. (e, a, b) \<in> set (pg_edges (op_program st))"
  shows "\<exists>p L'. foldE (split_edge a) cs st = Ret (st\<lparr>op_program := p\<rparr>) \<and> block_split m (op_program st) L a p L' \<and>
    (\<forall>e t. (e, a, t) \<in> set (pg_edges p) \<longrightarrow> L \<le> t \<or> (e, t) \<notin> set cs \<and> (e, a, t) \<in> set (pg_edges (op_program st)))"
  using assms
proof (induction cs arbitrary: st L V)
  case Nil
  then show ?case by (intro exI [of _ "op_program st"] exI [of _ L]) (auto intro: block_split_refl)
next
  case (Cons c cs)
  obtain e b where c: "c = (e, b)" by force
  let ?G = "op_program st"
  have e: "(e, a, b) \<in> set (pg_edges ?G)" using Cons.prems(4) c by auto
  from split_edge_returns [OF Cons.prems(1) e] obtain p1 where run: "split_edge a st (e, b) = Ret (st\<lparr>op_program := p1\<rparr>)"
    and s: "split_graph ?G e a b L p1" by blast
  from split_edges [OF Cons.prems(1) e s] obtain e1 e2 where
    es: "pg_edges p1 = (e2, L, b) # (e1, a, L) # remove1 (e, a, b) (pg_edges ?G)" by blast
  have "distinct (pg_edges ?G)" using Cons.prems(1) by (auto simp: graph_def distinct_map)
  then have mem: "x \<in> set (remove1 (e, a, b) (pg_edges ?G)) \<longleftrightarrow> x \<in> set (pg_edges ?G) \<and> x \<noteq> (e, a, b)" for x by auto
  note g1 = split_graph_graph [OF Cons.prems(1) e s] and b1 = block_split_one [OF Cons.prems(1) e s, of m]
  have "graph (op_program (st\<lparr>op_program := p1\<rparr>)) (Suc L) (view p1)" "a < Suc L" "distinct (map fst cs)" using g1 Cons.prems c by auto
  moreover have "\<forall>(e, b) \<in> set cs. (e, a, b) \<in> set (pg_edges (op_program (st\<lparr>op_program := p1\<rparr>)))"
    using Cons.prems(3,4) c by (auto simp: es mem image_iff)
  ultimately obtain p L' where fold: "foldE (split_edge a) cs (st\<lparr>op_program := p1\<rparr>) = Ret (st\<lparr>op_program := p\<rparr>)"
    and b2: "block_split m p1 (Suc L) a p L'"
    and out: "\<forall>e t. (e, a, t) \<in> set (pg_edges p) \<longrightarrow> Suc L \<le> t \<or> (e, t) \<notin> set cs \<and> (e, a, t) \<in> set (pg_edges p1)"
    using Cons.IH [of "st\<lparr>op_program := p1\<rparr>" "Suc L" "view p1"] by auto
  have "L \<le> t \<or> (e', t) \<notin> set (c # cs) \<and> (e', a, t) \<in> set (pg_edges ?G)" if "(e', a, t) \<in> set (pg_edges p)" for e' t
    using out that Cons.prems(2) c by (fastforce simp: es mem)
  with fold run c block_split_trans [OF b1 b2 Cons.prems(2)] show ?case
    by (intro exI [of _ p] exI [of _ L']) auto
qed

lemma split_block_returns:
  assumes g: "graph (op_program st) L V" and a: "a < L"
  shows "\<exists>p L'. split_block st a = Ret (st\<lparr>op_program := p\<rparr>) \<and> block_split m (op_program st) L a p L' \<and> \<not> critical_block p a \<and>
    (critical_block (op_program st) a \<or> p = op_program st)"
proof -
  let ?G = "op_program st"
  define succs where "succs = map (\<lambda>(e, _, t). (e, t)) (filter (\<lambda>(_, s, _). s = a) (pg_edges ?G))"
  define crit where "crit = filter (\<lambda>(_, t). 1 < length (predecessors ?G t)) succs"
  have succ: "successors ?G a = map snd succs" by (simp add: successors_def succs_def case_prod_beta comp_def)
  have run: "split_block st a = (if 1 < length succs then foldE (split_edge a) crit st else Ret st)"
    by (simp add: split_block_def succs_def crit_def Let_def)
  show ?thesis
  proof (cases "1 < length succs \<and> crit \<noteq> []")
    case False
    have "split_block st a = Ret (st\<lparr>op_program := ?G\<rparr>)" using False run by auto
    moreover have "\<not> critical_block ?G a" using False by (auto simp: critical_block_def succ crit_def filter_empty_conv)
    ultimately show ?thesis using block_split_refl [OF g] by blast
  next
    case True
    have "map fst succs = map fst (filter (\<lambda>(_, s, _). s = a) (pg_edges ?G))" by (simp add: succs_def case_prod_beta comp_def)
    then have "distinct (map fst succs)" using g by (auto simp: graph_def intro: distinct_map_filter)
    then have dist: "distinct (map fst crit)" by (simp add: crit_def distinct_map_filter)
    have "\<forall>(e, b) \<in> set crit. (e, a, b) \<in> set (pg_edges ?G)" by (auto simp: crit_def succs_def)
    from split_edge_fold [OF g a dist this, of m] obtain p L' where fold: "foldE (split_edge a) crit st = Ret (st\<lparr>op_program := p\<rparr>)"
      and b: "block_split m ?G L a p L'"
      and out: "\<And>e t. (e, a, t) \<in> set (pg_edges p) \<Longrightarrow> L \<le> t \<or> (e, t) \<notin> set crit \<and> (e, a, t) \<in> set (pg_edges ?G)" by blast
    have "length (predecessors p t) \<le> 1" if t: "t \<in> set (successors p a)" for t
    proof -
      from t obtain e where e: "(e, a, t) \<in> set (pg_edges p)" by (auto simp: successors_def)
      have tL: "t < L'" using b graph_edges [of p L' _ e a t] e by (auto simp: block_split_def)
      show ?thesis
      proof (cases "L \<le> t")
        case True
        with b tL show ?thesis by (simp add: block_split_def)
      next
        case False
        with out [OF e] have "(e, t) \<notin> set crit" "(e, t) \<in> set succs" by (force simp: succs_def)+
        then have "length (predecessors ?G t) \<le> 1" by (auto simp: crit_def)
        with b False show ?thesis by (simp add: block_split_def)
      qed
    qed
    then have "\<not> critical_block p a" by (auto simp: critical_block_def not_less)
    moreover have "critical_block ?G a" using True by (force simp: critical_block_def succ crit_def filter_empty_conv)
    ultimately show ?thesis using b fold run True by auto
  qed
qed

section \<open>All blocks\<close>

definition graph_split :: "'v machine \<Rightarrow> program \<Rightarrow> nat \<Rightarrow> program \<Rightarrow> nat \<Rightarrow> bool" where
  "graph_split m G L G' L' \<longleftrightarrow> graph G' L' (view G') \<and> L \<le> L' \<and>
     (\<forall>n < L. \<not> critical_block G n \<longrightarrow> \<not> critical_block G' n) \<and> (\<forall>n. L \<le> n \<longrightarrow> n < L' \<longrightarrow> \<not> critical_block G' n) \<and>
     (splittable G \<longrightarrow> splittable G' \<and> (\<forall>n < L. \<forall>i \<sigma> \<tau>. returns_from m G' n i \<sigma> \<tau> = returns_from m G n i \<sigma> \<tau>))"

lemma graph_split_trans:
  assumes "graph_split m G L G1 L1" "graph_split m G1 L1 G2 L2"
  shows "graph_split m G L G2 L2"
proof -
  have "\<not> critical_block G2 n" if "L \<le> n" "n < L2" for n
    using assms that by (cases "n < L1") (auto simp: graph_split_def)
  with assms show ?thesis unfolding graph_split_def by (intro conjI) auto
qed

lemma block_split_graph:
  assumes g: "graph G L V" and a: "a < L" and b: "block_split m G L a G' L'" and fin: "\<not> critical_block G' a"
    and same: "critical_block G a \<or> G' = G"
  shows "graph_split m G L G' L'"
proof -
  have g': "graph G' L' (view G')" using b by (simp add: block_split_def)
  have other: "critical_block G' n \<longleftrightarrow> critical_block G n" if "n < L" "n \<noteq> a" for n
  proof -
    have "successors G' n = successors G n" using b that by (simp add: block_split_def)
    moreover have "length (predecessors G' t) = length (predecessors G t)" if "t \<in> set (successors G n)" for t
      using b graph_simps(5) [OF g, of t n] that graph_view [OF g] by (simp add: block_split_def view_def)
    ultimately show ?thesis by (simp add: critical_block_def)
  qed
  have new: "\<not> critical_block G' n" if "L \<le> n" "n < L'" for n
    using b that by (simp add: block_split_def critical_block_def)
  have ids: "set (node_ids G) = {..<L}" "set (node_ids G') = {..<L'}" using graph_simps(2) [OF g] graph_simps(2) [OF g'] by simp_all
  have "splittable G' \<and> (\<forall>n < L. \<forall>i \<sigma> \<tau>. returns_from m G' n i \<sigma> \<tau> = returns_from m G n i \<sigma> \<tau>)" if G: "splittable G"
  proof
    have "flow_splits G' n" if "n < L'" "critical_block G' n" for n
    proof -
      have n: "n < L" "n \<noteq> a" using that new [of n] fin not_less by blast+
      with G ids other that have "flow_splits G n" by (auto simp: splittable_def)
      with b n show ?thesis by (simp add: block_split_def)
    qed
    then show "splittable G'" by (simp add: splittable_def ids)
    show "\<forall>n < L. \<forall>i \<sigma> \<tau>. returns_from m G' n i \<sigma> \<tau> = returns_from m G n i \<sigma> \<tau>"
    proof (cases "critical_block G a")
      case True
      with G a ids have "flow_splits G a" by (auto simp: splittable_def)
      with b show ?thesis by (simp add: block_split_def)
    qed (use same in simp)
  qed
  moreover have "\<not> critical_block G' n" if "n < L" "\<not> critical_block G n" for n using other fin that by (cases "n = a") auto
  moreover have "L \<le> L'" using b by (simp add: block_split_def)
  ultimately show ?thesis using new g' unfolding graph_split_def by blast
qed

lemma split_blocks_return:
  assumes "graph (op_program st) L V" "set ns \<subseteq> {..<L}"
  shows "\<exists>p L'. foldE split_block ns st = Ret (st\<lparr>op_program := p\<rparr>) \<and> graph_split m (op_program st) L p L' \<and>
    (\<forall>n \<in> set ns. \<not> critical_block p n)"
  using assms
proof (induction ns arbitrary: st L V)
  case Nil
  then have "graph_split m (op_program st) L (op_program st) L" using graph_view [OF Nil(1)] by (simp add: graph_split_def)
  then show ?case by (intro exI [of _ "op_program st"] exI [of _ L]) simp
next
  case (Cons a ns)
  have a: "a < L" using Cons.prems(2) by simp
  from split_block_returns [OF Cons.prems(1) a, of m] obtain p1 L1 where run: "split_block st a = Ret (st\<lparr>op_program := p1\<rparr>)"
    and b: "block_split m (op_program st) L a p1 L1" "\<not> critical_block p1 a" "critical_block (op_program st) a \<or> p1 = op_program st" by blast
  note s1 = block_split_graph [OF Cons.prems(1) a b]
  have "graph (op_program (st\<lparr>op_program := p1\<rparr>)) L1 (view p1)" "set ns \<subseteq> {..<L1}"
    using s1 Cons.prems(2) by (auto simp: graph_split_def)
  from Cons.IH [OF this] obtain p L' where fold: "foldE split_block ns (st\<lparr>op_program := p1\<rparr>) = Ret (st\<lparr>op_program := p\<rparr>)"
    and s2: "graph_split m p1 L1 p L'" "\<forall>n \<in> set ns. \<not> critical_block p n" by auto
  have "\<not> critical_block p a" using s2(1) s1 b(2) a by (auto simp: graph_split_def)
  with fold run s2 graph_split_trans [OF s1 s2(1)] show ?case by (intro exI [of _ p] exI [of _ L']) simp
qed

lemma split_critical_edges_returns:
  assumes g: "graph (op_program st) L V"
  shows "\<exists>p. split_critical_edges st = Ret (st\<lparr>op_program := p\<rparr>) \<and> (\<forall>n. \<not> critical_block p n) \<and>
    (splittable (op_program st) \<longrightarrow> (\<forall>\<sigma> \<tau>. graph_ends m p \<sigma> \<tau> = graph_ends m (op_program st) \<sigma> \<tau>))"
proof -
  note gs = graph_simps [OF g]
  have "set (node_ids (op_program st)) \<subseteq> {..<L}" using gs(2) by simp
  from split_blocks_return [OF g this, of m] obtain p L' where
    run: "split_critical_edges st = Ret (st\<lparr>op_program := p\<rparr>)" and s: "graph_split m (op_program st) L p L'"
    and "\<forall>n \<in> set (node_ids (op_program st)). \<not> critical_block p n" unfolding split_critical_edges_def by blast
  then have no: "\<forall>n < L. \<not> critical_block p n" by (simp add: gs(2))
  have p: "graph p L' (view p)" using s by (simp add: graph_split_def)
  have "\<not> critical_block p n" for n
  proof (cases "n < L'")
    case True
    with s no show ?thesis by (cases "n < L") (auto simp: graph_split_def)
  next
    case False
    then have "successors p n = []" using graph_simps(4) [OF p, of n] by (simp add: view_def)
    then show ?thesis by (simp add: critical_block_def)
  qed
  moreover have "graph_ends m p \<sigma> \<tau> = graph_ends m (op_program st) \<sigma> \<tau>" if sp: "splittable (op_program st)" for \<sigma> \<tau>
  proof (cases "0 < L")
    case True
    have "pg_root p = 0" "pg_root (op_program st) = 0" using p g by (simp_all add: graph_def)
    with s sp True show ?thesis by (simp add: graph_ends_def graph_split_def returns_from_def)
  next
    case False
    then have "pg_nodes (op_program st) = []" using gs(1) by simp
    then have "split_critical_edges st = Ret st" by (simp add: split_critical_edges_def node_ids_def)
    with run have "st = st\<lparr>op_program := p\<rparr>" by simp
    from arg_cong [OF this, of op_program] have "op_program st = p" by simp
    then show ?thesis by simp
  qed
  ultimately show ?thesis using run by blast
qed

section \<open>From a kernel to a graph without critical edges\<close>

text \<open>
  C17. Splitting the critical edges of the graph of a kernel always returns and leaves no critical edge. If the
  edges that were critical leave conditions and switches only, the result still computes what the scope of
  the kernel does.
\<close>

theorem split_critical_edges_correct:
  assumes run: "parse_graph [] sc (initial_parser n0 pool dims) = Ret st"
    and T: "T = temps n0 (length (pg_nodes (op_program st)))" "set_scope sc \<inter> T = {}"
    and m: "kernel_machine m T"
  shows "\<exists>st'. split_critical_edges st = Ret st' \<and> (\<forall>n. \<not> critical_block (op_program st') n) \<and>
    (splittable (op_program st) \<longrightarrow> agrees T (scope_ends m sc \<sigma>) (graph_ends m (op_program st') \<sigma>))"
proof -
  from parse_graph_lowers [OF run refl, of m] obtain R q V where low: "graph_ok m (op_program st) R" "pg_root (op_program st) = 0"
    "lowers (op_program st) T R UNIV None (0, 0) (scope_insts sc) q"
    "\<And>p. q = Some p \<Longrightarrow> \<exists>r \<in> R. jumps (op_program st) UNIV (fst p) (snd p) r"
    and g: "graph (op_program st) (length (pg_nodes (op_program st))) V" unfolding T(1) [symmetric] by blast
  have "\<forall>v \<in> T. as_const v = None" unfolding T(1) by (auto simp: temps_def as_const_def)
  with kernel_machine.lowered_graph_agrees [OF m] low T(2)
  have agree: "agrees T (scope_ends m sc \<sigma>) (graph_ends m (op_program st) \<sigma>)" by blast
  from split_critical_edges_returns [OF g, of m] obtain p where p: "split_critical_edges st = Ret (st\<lparr>op_program := p\<rparr>)"
    "\<forall>n. \<not> critical_block p n" "splittable (op_program st) \<Longrightarrow> \<forall>\<sigma> \<tau>. graph_ends m p \<sigma> \<tau> = graph_ends m (op_program st) \<sigma> \<tau>" by blast
  have "agrees T (scope_ends m sc \<sigma>) (graph_ends m p \<sigma>)" if "splittable (op_program st)"
    using agree p(3) [OF that] by (simp add: agrees_def)
  with p(1,2) show ?thesis by (intro exI [of _ "st\<lparr>op_program := p\<rparr>"]) simp
qed

text \<open>\<open>if c { s = 7 }\<close>: the edge that skips the branch is critical.\<close>

definition demo_if :: "variable scope" where
  "demo_if =
     (let s = demo_u32 (LocalMut 1); c = variable_new (LocalConst 2) (item_new BoolE) in
      demo_block [instruction_no_out (BranchO (IfB c (demo_block [instruction_new (CopyO (variable_from_u32 7)) s])))])"

definition demo_if_parsed :: "parser exec" where
  "demo_if_parsed = parse_graph [] demo_if (initial_parser 3 [] \<lparr>cd_x = 1, cd_y = 1, cd_z = 1\<rparr>)"

lemma demo_if_facts:
  "(case demo_if_parsed of Ret st \<Rightarrow> length (pg_nodes (op_program st)) = 4 \<and> critical_block (op_program st) 0 \<and> splittable (op_program st)
    | _ \<Rightarrow> False)"
  by code_simp

lemma demo_if_run:
  "(case run_scope u32_machine 20 demo_if (\<lambda>_. 1) of Falls \<tau> \<Rightarrow> \<tau> (demo_u32 (LocalMut 1)) | _ \<Rightarrow> 0) = 7"
  by code_simp

lemma demo_if_avoids: "set_scope demo_if \<inter> temps 3 4 = {}"
proof -
  have "set_scope demo_if \<subseteq> {demo_u32 (LocalMut 1), variable_new (LocalConst 2) (item_new BoolE), variable_from_u32 7}"
    by (auto simp: demo_if_def demo_block_def Let_def instruction_new_def instruction_no_out_def)
  moreover have "3 + of_nat j \<noteq> (2 :: u32)" if "j < 4" for j
  proof -
    have "j \<in> {0, 1, 2, 3}" using that by auto
    then show ?thesis by auto
  qed
  ultimately show ?thesis
    by (fastforce simp: temps_def demo_u32_def variable_new_def variable_from_u32_def variable_constant_def item_new_def)
qed

text \<open>The graph of the demo kernel has a critical edge; split, it sets the variable.\<close>

theorem split_critical_edges_correct_witness:
  "\<exists>st st' \<tau>. demo_if_parsed = Ret st \<and> critical_block (op_program st) 0 \<and> split_critical_edges st = Ret st' \<and>
    \<not> critical_block (op_program st') 0 \<and> graph_ends u32_machine (op_program st') (\<lambda>_. 1) \<tau> \<and> \<tau> (demo_u32 (LocalMut 1)) = 7"
proof -
  obtain st where st: "demo_if_parsed = Ret st" and len: "length (pg_nodes (op_program st)) = 4"
    and crit: "critical_block (op_program st) 0" "splittable (op_program st)"
    using demo_if_facts by (auto split: exec.split_asm)
  from split_critical_edges_correct [OF st [unfolded demo_if_parsed_def] _ _ u32_kernel.kernel_machine_axioms, of "temps 3 4" "\<lambda>_. 1"]
  obtain st' where st': "split_critical_edges st = Ret st'" "\<not> critical_block (op_program st') 0"
    and agree: "agrees (temps 3 4) (scope_ends u32_machine demo_if (\<lambda>_. 1)) (graph_ends u32_machine (op_program st') (\<lambda>_. 1))"
    using len crit(2) demo_if_avoids by auto
  obtain \<tau> where run: "run_scope u32_machine 20 demo_if (\<lambda>_. 1) = Falls \<tau>" and s: "\<tau> (demo_u32 (LocalMut 1)) = 7"
    using demo_if_run by (cases "run_scope u32_machine 20 demo_if (\<lambda>_. 1)") (auto simp del: run_scope.simps)
  with agree obtain \<tau>' where "graph_ends u32_machine (op_program st') (\<lambda>_. 1) \<tau>'" "same_off (temps 3 4) \<tau> \<tau>'"
    unfolding agrees_def scope_ends_def by blast
  moreover have "demo_u32 (LocalMut 1) \<notin> temps 3 4" by (auto simp: temps_def demo_u32_def variable_new_def)
  ultimately show ?thesis using st st' crit(1) s unfolding same_off_def by auto
qed

section \<open>Two flaws\<close>

text \<open>
  The exit of a counting loop that also has a \<open>break\<close> is a critical edge. \<open>update_control_flow\<close> does not know
  \<open>LoopBreak\<close>, so after the split the header still names the old block, to which it has no edge any more.
\<close>

definition exit_of :: "program \<Rightarrow> node_index \<Rightarrow> node_index option" where
  "exit_of G n = (case node_of G n of
      Some b \<Rightarrow> (case bb_control_flow b of LoopBreakF _ _ _ nxt \<Rightarrow> Some nxt | _ \<Rightarrow> None)
    | None \<Rightarrow> None)"

theorem split_loses_loop_exit:
  "(case bindE (demo_parsed 5) (\<lambda>st. bindE (split_critical_edges st) (\<lambda>st'. Ret (op_program st, op_program st'))) of
      Ret (G, G') \<Rightarrow> exit_of G 2 = Some 4 \<and> 4 \<in> set (successors G 2) \<and> exit_of G' 2 = Some 4 \<and> 4 \<notin> set (successors G' 2)
    | _ \<Rightarrow> False)"
  by code_simp

text \<open>
  \<open>parse_scope\<close> compares with a \<open>break\<close> that has no source location, so a scope whose \<open>break\<close> has one is not
  reported as ending with a break.
\<close>

theorem located_break_missed:
  assumes "parse_scope ts (demo_block [Instruction None (Some loc) (BranchO BreakB)]) st = Ret (is_break, st')"
  shows "\<not> is_break"
  using assms
  by (subst (asm) parse_scope.simps)
    (auto simp: bindE_eq_Ret Let_def process_def optimize_def sanitize_constant_scalars_def demo_block_def
      sanitize_instruction_def with_operation_def break_inst_def instruction_no_out_def)

end
