(* ===== verification/Fast_Math.thy ===== *)
theory Fast_Math
  imports Machine_Words
begin

text \<open>
  \<open>cubecl-std/src/fast_math.rs\<close>: division by a divisor known at launch. The host computes a multiplier
  and a shift (\<open>FastDivmodArgs::new\<close>), the kernel divides with one high multiplication, one addition
  and one shift. Host arithmetic is checked, kernel arithmetic wraps; a shift by the width of the word
  or more and a division by zero have no defined result in a kernel, and are \<^const>\<open>None\<close>.
\<close>

section \<open>The host side\<close>

datatype fast_divmod =
    Fast (fd_divisor: u32) (fd_multiplier: u32) (fd_shift_right: u32)
  | PowerOfTwo (fd_shift: u32) (fd_mask: u32)
  | Fallback (fb_divisor: u32)

definition find_log2 :: "u32 \<Rightarrow> nat" where
  "find_log2 x = (case find (\<lambda>i. x \<le> push_bit i 1) [0..<32] of Some i \<Rightarrow> i | None \<Rightarrow> 32)"

text \<open>\<open>u64_supported\<close> is the runtime's answer to \<open>u64::is_supported\<close>.\<close>

definition fast_divmod_new :: "bool \<Rightarrow> u32 \<Rightarrow> fast_divmod exec" where
  "fast_divmod_new u64_supported divisor =
     bindE (assertE (divisor \<noteq> 0)) (\<lambda>_.
     if is_power_of_two divisor
     then bindE (sub_w32 divisor 1) (\<lambda>msk. Ret (PowerOfTwo (of_nat (trailing_zeros divisor)) msk))
     else if \<not> u64_supported then Ret (Fallback divisor)
     else
       let div_64 = unat divisor; shift = find_log2 divisor in
       bindE (sub_u64 (2 ^ shift) div_64) (\<lambda>d.
       bindE (mul_u64 (2 ^ 32) d) (\<lambda>p.
       bindE (div_u64 p div_64) (\<lambda>q.
       bindE (add_u64 q 1) (\<lambda>multiplier.
       Ret (Fast divisor (of_nat multiplier) (of_nat shift)))))))"

section \<open>The kernel side\<close>

definition mul_hi_u32 :: "u32 \<Rightarrow> u32 \<Rightarrow> u32" where
  "mul_hi_u32 a b = of_nat (unat a * unat b div 2 ^ 32)"

definition shr_u32 :: "u32 \<Rightarrow> u32 \<Rightarrow> u32 option" where
  "shr_u32 a s = (if unat s < 32 then Some (drop_bit (unat s) a) else None)"

definition div_u32 :: "u32 \<Rightarrow> u32 \<Rightarrow> u32 option" where
  "div_u32 a b = (if b = 0 then None else Some (a div b))"

fun fast_div :: "fast_divmod \<Rightarrow> u32 \<Rightarrow> u32 option" where
  "fast_div (Fast divisor multiplier shift_right) dividend =
     (let t = mul_hi_u32 dividend multiplier in shr_u32 (t + dividend) shift_right)"
| "fast_div (PowerOfTwo shift msk) dividend = shr_u32 dividend shift"
| "fast_div (Fallback divisor) dividend = div_u32 dividend divisor"

definition fast_modulo :: "fast_divmod \<Rightarrow> u32 \<Rightarrow> u32 option" where
  "fast_modulo self dividend =
     (case fast_div self dividend of
        None \<Rightarrow> None
      | Some q \<Rightarrow>
          (case self of
             Fast divisor _ _ \<Rightarrow> Some (dividend - q * divisor)
           | PowerOfTwo _ msk \<Rightarrow> Some (dividend AND msk)
           | Fallback divisor \<Rightarrow> if divisor = 0 then None else Some (dividend mod divisor)))"

definition fast_div_mod :: "fast_divmod \<Rightarrow> u32 \<Rightarrow> (u32 \<times> u32) option" where
  "fast_div_mod self dividend =
     (case fast_div self dividend of
        None \<Rightarrow> None
      | Some q \<Rightarrow>
          Some (q, case self of
             Fast divisor _ _ \<Rightarrow> dividend - q * divisor
           | Fallback divisor \<Rightarrow> dividend - q * divisor
           | PowerOfTwo _ msk \<Rightarrow> dividend AND msk))"

section \<open>The multiplier\<close>

lemma find_log2_bounds:
  assumes "1 < unat x"
  shows "0 < find_log2 x" "find_log2 x \<le> 32" "unat x \<le> 2 ^ find_log2 x" "2 ^ (find_log2 x - 1) < unat x"
proof -
  have pow: "x \<le> push_bit i 1 \<longleftrightarrow> unat x \<le> 2 ^ i" if "i < 32" for i
    using that by (simp add: word_le_nat_alt push_bit_eq_mult)
  have "0 < find_log2 x \<and> find_log2 x \<le> 32 \<and> unat x \<le> 2 ^ find_log2 x \<and> 2 ^ (find_log2 x - 1) < unat x"
  proof (cases "find (\<lambda>i. x \<le> push_bit i 1) [0..<32]")
    case None
    then have "\<not> unat x \<le> 2 ^ i" if "i < 32" for i
      using that pow [of i] by (auto simp: find_None_iff)
    from this [of 31] have "\<not> unat x \<le> 2 ^ 31" by simp
    then show ?thesis using None less_imp_le [OF unat_u32_less, of x] by (simp add: find_log2_def)
  next
    case (Some i)
    then obtain j where j: "j < 32" "[0..<32] ! j = i" "x \<le> push_bit i 1" "\<forall>k < j. \<not> x \<le> push_bit ([0..<32] ! k) 1"
      by (auto simp: find_Some_iff)
    then have i: "i < 32" "unat x \<le> 2 ^ i" "\<forall>k < i. \<not> unat x \<le> 2 ^ k"
      using pow by auto
    have "0 < i" using i(2) assms by (cases i) auto
    then have "2 ^ (i - 1) < unat x" using i(3) by (simp add: not_le)
    then show ?thesis using Some i \<open>0 < i\<close> by (simp add: find_log2_def)
  qed
  then show "0 < find_log2 x" "find_log2 x \<le> 32" "unat x \<le> 2 ^ find_log2 x" "2 ^ (find_log2 x - 1) < unat x"
    by simp_all
qed

text \<open>Multiplication by the rounded-up reciprocal, on natural numbers.\<close>

lemma div_by_reciprocal:
  fixes n d s :: nat
  assumes d: "0 < d" "d \<le> 2 ^ s" and n: "n < 2 ^ b"
  shows "n * (2 ^ (b + s) div d + 1) div 2 ^ (b + s) = n div d"
proof -
  define P where "P = (2 :: nat) ^ (b + s)"
  define m where "m = P div d + 1"
  define e where "e = d - P mod d"
  have "d * m = d * (P div d) + d" "d * (P div d) + P mod d = P" "P mod d < d"
    using d(1) by (simp_all add: m_def)
  then have "d * m = P + e" unfolding e_def by linarith
  moreover have "e \<le> d" by (simp add: e_def)
  ultimately have md: "d * m = P + e" "e \<le> 2 ^ s" using d by auto
  define q r where "q = n div d" and "r = n mod d"
  have nqr: "n = q * d + r" "r < d" using d by (simp_all add: q_def r_def)
  have "n * e < P"
  proof -
    have "n * e \<le> n * 2 ^ s" using md by simp
    also have "\<dots> < 2 ^ b * 2 ^ s" using n by simp
    finally show ?thesis by (simp add: P_def power_add)
  qed
  have eq: "d * (n * m) = q * d * P + (r * P + n * e)"
    using md(1) by (metis (no_types, lifting) nqr(1) add.assoc distrib_left distrib_right mult.assoc mult.commute)
  have "q * P \<le> n * m"
  proof -
    have "d * (q * P) \<le> q * d * P + (r * P + n * e)" by (simp add: ac_simps)
    then have "d * (q * P) \<le> d * (n * m)" by (simp only: eq)
    then show ?thesis using d by simp
  qed
  moreover have "n * m < (q + 1) * P"
  proof -
    have "r * P + n * e < (r + 1) * P" using \<open>n * e < P\<close> by simp
    also have "\<dots> \<le> d * P" using nqr(2) by (intro mult_right_mono) auto
    finally have "d * (n * m) < q * d * P + d * P" using eq by simp
    then have "d * (n * m) < d * ((q + 1) * P)" by (simp add: algebra_simps)
    then show ?thesis using d by simp
  qed
  ultimately have "n * m div P = q"
    by (intro div_nat_eqI) (simp_all add: mult.commute)
  then show ?thesis by (simp add: P_def m_def q_def)
qed

text \<open>What the host computes for a divisor that is not a power of two.\<close>

lemma not_power_of_two_gt1:
  assumes "d \<noteq> 0" "\<not> is_power_of_two d"
  shows "1 < unat d"
proof -
  have "is_power_of_two 1" by (simp add: is_power_of_two_def upt_rec)
  then have "d \<noteq> 1" using assms by auto
  then have "unat d \<noteq> unat (1 :: u32)" by (simp only: word_unat_eq_iff simp_thms)
  moreover have "unat d \<noteq> 0" using assms(1) by (simp add: unat_eq_0)
  ultimately show ?thesis by simp
qed

lemma fast_divmod_new_fast:
  assumes "d \<noteq> 0" "\<not> is_power_of_two d"
  shows "fast_divmod_new True d =
    Ret (Fast d (of_nat (2 ^ (32 + find_log2 d) div unat d + 1 - 2 ^ 32)) (of_nat (find_log2 d)))"
    and "2 ^ 32 \<le> 2 ^ (32 + find_log2 d) div unat d"
    and "2 ^ (32 + find_log2 d) div unat d + 1 - 2 ^ 32 < 2 ^ 32"
proof -
  let ?d = "unat d" and ?s = "find_log2 d"
  note gt1 = not_power_of_two_gt1 [OF assms]
  note b = find_log2_bounds [OF gt1]
  have s2: "(2 :: nat) ^ ?s < 2 * ?d"
    using b(1,4) power_Suc [of "2 :: nat" "?s - 1"] by simp
  have split: "2 ^ (32 + ?s) = 2 ^ 32 * (2 ^ ?s - ?d) + 2 ^ 32 * ?d"
    using b(3) by (simp add: power_add algebra_simps flip: distrib_left)
  have quot: "2 ^ (32 + ?s) div ?d = 2 ^ 32 * (2 ^ ?s - ?d) div ?d + 2 ^ 32"
    using gt1 by (subst split) simp
  then show "2 ^ 32 \<le> 2 ^ (32 + find_log2 d) div unat d" by simp
  have le: "2 ^ 32 * (2 ^ ?s - ?d) div ?d + 1 < 2 ^ 32"
  proof -
    have small: "(4294967296 :: nat) * (?d - 1) < 4294967295 * ?d"
      using gt1 unat_u32_less [of d] by linarith
    have "2 ^ 32 * (2 ^ ?s - ?d) \<le> 2 ^ 32 * (?d - 1)" using s2 by simp
    also have "\<dots> < (2 ^ 32 - 1) * ?d"
      using small by simp
    finally have "2 ^ 32 * (2 ^ ?s - ?d) div ?d < 2 ^ 32 - 1"
      by (rule less_mult_imp_div_less)
    then show ?thesis by simp
  qed
  then show "2 ^ (32 + find_log2 d) div unat d + 1 - 2 ^ 32 < 2 ^ 32" using quot by simp
  have "2 ^ 32 * (2 ^ ?s - ?d) < u64_bound"
  proof -
    have "2 ^ ?s - ?d < 4294967296" using s2 unat_u32_less [of d] by linarith
    then show ?thesis by simp
  qed
  then show "fast_divmod_new True d =
    Ret (Fast d (of_nat (2 ^ (32 + find_log2 d) div unat d + 1 - 2 ^ 32)) (of_nat (find_log2 d)))"
    using assms b gt1 le quot
    by (simp add: fast_divmod_new_def assertE_def sub_u64_def mul_u64_def div_u64_def add_u64_def Let_def)
qed

section \<open>Division in the kernel\<close>

lemma mul_hi_less: "unat (mul_hi_u32 a b) = unat a * unat b div 2 ^ 32"
proof -
  have "unat a * unat b < 2 ^ 32 * 2 ^ 32"
    using unat_u32_less [of a] unat_u32_less [of b] by (intro mult_strict_mono) simp_all
  then have "unat a * unat b div 2 ^ 32 < 2 ^ 32" by (intro less_mult_imp_div_less)
  then show ?thesis by (simp add: mul_hi_u32_def no_wrap)
qed

lemma fast_div_fast:
  assumes d: "d \<noteq> 0" "\<not> is_power_of_two d" "unat d \<le> 2 ^ 31" and n: "unat n \<le> 2 ^ 31"
    and fd: "fast_divmod_new True d = Ret fd"
  shows "fast_div fd n = Some (n div d)"
proof -
  let ?d = "unat d" and ?s = "find_log2 d" and ?n = "unat n"
  note gt1 = not_power_of_two_gt1 [OF d(1,2)]
  note b = find_log2_bounds [OF gt1]
  have s: "?s \<le> 31"
  proof (rule ccontr)
    assume "\<not> ?s \<le> 31"
    then have "?s = 32" using b(2) by simp
    then show False using b(4) d(3) by simp
  qed
  define M where "M = 2 ^ (32 + ?s) div ?d + 1 - 2 ^ 32"
  note m = fast_divmod_new_fast [OF d(1,2), folded M_def]
  have M: "unat (of_nat M :: u32) = M" using m(3) by (simp add: no_wrap)
  have sh: "unat (of_nat ?s :: u32) = ?s" using s by (simp add: no_wrap)
  define t where "t = ?n * M div 2 ^ 32"
  have "t \<le> ?n"
  proof -
    have "?n * M \<le> ?n * 2 ^ 32" using m(3) by simp
    then have "?n * M div 2 ^ 32 \<le> ?n * 2 ^ 32 div 2 ^ 32" by (rule div_le_mono)
    then show ?thesis by (simp add: t_def)
  qed
  moreover have "t + ?n < 2 ^ 32"
  proof (cases "?n = 0")
    case False
    then have "?n * M < ?n * 2 ^ 32" using m(3) by simp
    then have "t < ?n" unfolding t_def by (intro less_mult_imp_div_less)
    then show ?thesis using n by simp
  qed (simp add: t_def)
  ultimately have sum: "unat (mul_hi_u32 n (of_nat M) + n) = t + ?n"
    using mul_hi_less [of n "of_nat M"] by (subst unat_add_small) (simp_all add: M t_def)
  have "(t + ?n) div 2 ^ ?s = (?n * M + ?n * 2 ^ 32) div 2 ^ 32 div 2 ^ ?s"
    by (simp add: t_def add.commute)
  also have "\<dots> = ?n * (2 ^ (32 + ?s) div ?d + 1) div 2 ^ (32 + ?s)"
    using m(2) by (simp add: M_def div_mult2_eq power_add flip: distrib_left)
  also have "\<dots> = ?n div ?d"
    using gt1 b(3) unat_u32_less [of n] by (intro div_by_reciprocal) simp_all
  finally have "unat (drop_bit ?s (mul_hi_u32 n (of_nat M) + n)) = ?n div ?d"
    by (subst unat_drop_bit_eq) (simp add: drop_bit_eq_div sum)
  then have "drop_bit ?s (mul_hi_u32 n (of_nat M) + n) = n div d"
    by (simp add: word_unat_eq_iff unat_div)
  then show ?thesis using m(1) fd s by (simp add: shr_u32_def sh)
qed

lemma fast_div_correct:
  assumes "d \<noteq> 0" "fast_divmod_new u64_supported d = Ret fd"
    and "is_power_of_two d \<or> \<not> u64_supported \<or> unat d \<le> 2 ^ 31 \<and> unat n \<le> 2 ^ 31"
  shows "fast_div fd n = Some (n div d)"
proof (cases "is_power_of_two d")
  case True
  then have "fd = PowerOfTwo (of_nat (trailing_zeros d)) (d - 1)"
    using assms(1,2) by (auto simp: fast_divmod_new_def assertE_def sub_w32_def split: if_splits)
  then show ?thesis
    using True power_of_two_word(1) [OF True]
    by (simp add: shr_u32_def unat_trailing_zeros shift_right_div)
next
  case False
  then show ?thesis
    using assms fast_div_fast [OF assms(1) False]
    by (cases u64_supported) (auto simp: fast_divmod_new_def assertE_def div_u32_def)
qed

lemma fast_divmod_new_returns:
  assumes "d \<noteq> 0"
  shows "returns (fast_divmod_new u64_supported d) (\<lambda>fd.
    case fd of Fast d' _ _ \<Rightarrow> d' = d | Fallback d' \<Rightarrow> d' = d | PowerOfTwo _ msk \<Rightarrow> is_power_of_two d \<and> msk = d - 1)"
proof -
  have "1 \<le> d" using assms by (simp add: word_le_nat_alt unat_gt_0 Suc_le_eq)
  then show ?thesis
    using assms fast_divmod_new_fast(1) [of d]
    by (cases u64_supported; cases "is_power_of_two d")
       (simp_all add: fast_divmod_new_def assertE_def sub_w32_def)
qed

lemma fast_div_mod_correct:
  assumes "d \<noteq> 0"
    and "is_power_of_two d \<or> \<not> u64_supported \<or> unat d \<le> 2 ^ 31 \<and> unat n \<le> 2 ^ 31"
  shows "returns (fast_divmod_new u64_supported d) (\<lambda>fd. fast_div_mod fd n = Some (n div d, n mod d))"
proof -
  obtain fd where fd: "fast_divmod_new u64_supported d = Ret fd"
    "case fd of Fast d' _ _ \<Rightarrow> d' = d | Fallback d' \<Rightarrow> d' = d | PowerOfTwo _ msk \<Rightarrow> is_power_of_two d \<and> msk = d - 1"
    using fast_divmod_new_returns [OF assms(1)] by (auto simp: returns_eq)
  have "n - n div d * d = n mod d" by (simp add: minus_div_mult_eq_mod)
  then show ?thesis
    using fd fast_div_correct [OF assms(1) fd(1) assms(2)] by (cases fd) (simp_all add: fast_div_mod_def mask_mod)
qed

text \<open>
  C25. Fast division is exact: for every divisor the host's setup returns, and quotient and remainder
  computed in the kernel are those of unsigned division, for every dividend when the divisor is a
  power of two or 64-bit integers are not supported, and otherwise for divisors and dividends up to
  \<open>2\<^sup>3\<^sup>1\<close>.
\<close>

theorem fast_divmod_exact:
  assumes "d \<noteq> 0"
    and "is_power_of_two d \<or> \<not> u64_supported \<or> unat d \<le> 2 ^ 31 \<and> unat n \<le> 2 ^ 31"
  shows "returns (fast_divmod_new u64_supported d) (\<lambda>fd.
    fast_div fd n = Some (n div d) \<and> fast_modulo fd n = Some (n mod d)
    \<and> fast_div_mod fd n = Some (n div d, n mod d))"
proof (rule returns_mono [OF fast_div_mod_correct [OF assms]])
  fix fd assume "fast_divmod_new u64_supported d = Ret fd" "fast_div_mod fd n = Some (n div d, n mod d)"
  then show "fast_div fd n = Some (n div d) \<and> fast_modulo fd n = Some (n mod d)
    \<and> fast_div_mod fd n = Some (n div d, n mod d)"
    using fast_divmod_new_returns [OF assms(1), of u64_supported] assms(1)
    by (cases fd) (auto simp: fast_modulo_def fast_div_mod_def split: option.splits)
qed

theorem fast_divmod_exact_witness:
  "returns (fast_divmod_new True 7) (\<lambda>fd.
    fast_div fd 1000 = Some (1000 div 7) \<and> fast_modulo fd 1000 = Some (1000 mod 7)
    \<and> fast_div_mod fd 1000 = Some (1000 div 7, 1000 mod 7))"
  by (rule fast_divmod_exact) simp_all

lemma demo_divisors:
  "\<not> is_power_of_two 3" "\<not> is_power_of_two 0x80000001" "find_log2 3 = 2" "find_log2 0x80000001 = 32"
  by (simp_all add: is_power_of_two_def find_log2_def upt_rec word_le_nat_alt)

text \<open>
  Above these bounds it is not: the sum in the kernel is a 32-bit sum, so dividing \<open>u32::MAX\<close> by 3
  gives 357913941 instead of 1431655765, and for a divisor above \<open>2\<^sup>3\<^sup>1\<close> that is not a power of two the
  kernel shifts by 32, which has no defined result.
\<close>

theorem fast_divmod_wraps:
  "returns (fast_divmod_new True 3) (\<lambda>fd. fast_div fd 0xFFFFFFFF = Some 357913941)
   \<and> (0xFFFFFFFF :: u32) div 3 = 1431655765
   \<and> returns (fast_divmod_new True 0x80000001) (\<lambda>fd. fast_div fd 5 = None)"
  by (simp add: fast_divmod_new_def demo_divisors Let_def mul_hi_u32_def shr_u32_def)

end
