(* ===== verification/Tensor_Layout.thy ===== *)
theory Tensor_Layout
  imports Fast_Math
begin

text \<open>
  How kernels find the elements of a tensor in memory: \<open>cubecl-std/src/tensor/contiguous.rs\<close>
  (\<open>compact_strides\<close>, \<open>is_contiguous\<close>, the offset computations of a kernel and the pitched layout) and
  the choice of line sizes in \<open>cubecl-core/src/lib.rs\<close>. A kernel sees a tensor through its shape, its
  strides and its line size, all \<open>u32\<close>; the host computes with \<open>usize\<close>.
\<close>

section \<open>Strides on the host\<close>

definition compact_strides :: "nat list \<Rightarrow> nat list exec" where
  "compact_strides shape =
     (let rank = length shape; strides = replicate rank 1 in
      bindE (sub_u64 rank 1) (\<lambda>n.
      foldE (\<lambda>strides i. bindE (mul_u64 (strides ! (i + 1)) (shape ! (i + 1))) (\<lambda>s. Ret (strides[i := s])))
        (rev [0..<n]) strides))"

definition is_contiguous :: "nat list \<Rightarrow> nat list \<Rightarrow> bool exec" where
  "is_contiguous shape strides =
     (if shape = [] then Ret True
      else bindE (compact_strides shape) (\<lambda>expected.
        Ret (list_all (\<lambda>(e, s). e = s) (zip expected strides))))"

section \<open>Line sizes\<close>

datatype line_size_error = AxisOutOfBounds | StrideMismatch | NoValidLineSize

definition max_of :: "nat list \<Rightarrow> nat option" where
  "max_of xs = (if xs = [] then None else Some (Max (set xs)))"

definition min_of :: "nat list \<Rightarrow> nat option" where
  "min_of xs = (if xs = [] then None else Some (Min (set xs)))"

definition nth_opt :: "'a list \<Rightarrow> nat \<Rightarrow> 'a option" where
  "nth_opt xs i = (if i < length xs then Some (xs ! i) else None)"

definition try_tensor_line_size_parallel ::
  "nat list \<Rightarrow> nat list \<Rightarrow> nat list \<Rightarrow> nat \<Rightarrow> (line_size_error + nat) exec" where
  "try_tensor_line_size_parallel supported_line_sizes shape strides axis =
     (case nth_opt strides axis of
        None \<Rightarrow> Ret (Inl AxisOutOfBounds)
      | Some stride \<Rightarrow>
          if stride \<noteq> 1 then Ret (Inl StrideMismatch)
          else (case nth_opt shape axis of
             None \<Rightarrow> Ret (Inl AxisOutOfBounds)
           | Some axis_shape \<Rightarrow>
               let next_stride = (case min_of (filter (\<lambda>s. 1 < s) strides) of None \<Rightarrow> 0 | Some s \<Rightarrow> s) in
               if 0 \<in> set supported_line_sizes then Panic DivisionByZero
               else (case max_of (filter (\<lambda>ls. axis_shape mod ls = 0 \<and> next_stride mod ls = 0) supported_line_sizes) of
                  None \<Rightarrow> Ret (Inl NoValidLineSize)
                | Some ls \<Rightarrow> Ret (Inr ls))))"

definition or_one :: "(line_size_error + nat) exec \<Rightarrow> nat exec" where
  "or_one m = bindE m (\<lambda>r. case r of Inl _ \<Rightarrow> Ret 1 | Inr ls \<Rightarrow> Ret ls)"

definition tensor_line_size_parallel :: "nat list \<Rightarrow> nat list \<Rightarrow> nat list \<Rightarrow> nat \<Rightarrow> nat exec" where
  "tensor_line_size_parallel supported_line_sizes shape strides axis =
     or_one (try_tensor_line_size_parallel supported_line_sizes shape strides axis)"

definition try_tensor_line_size_perpendicular ::
  "nat list \<Rightarrow> nat list \<Rightarrow> nat list \<Rightarrow> nat \<Rightarrow> (line_size_error + nat) exec" where
  "try_tensor_line_size_perpendicular supported_line_sizes shape strides axis =
     (case nth_opt strides axis of
        None \<Rightarrow> Ret (Inl AxisOutOfBounds)
      | Some axis_stride \<Rightarrow>
          bindE (productE (map snd (filter (\<lambda>(stride, _). stride < axis_stride) (zip strides shape)))) (\<lambda>prod.
          if axis_stride \<noteq> prod then Ret (Inl StrideMismatch)
          else if 0 \<in> set supported_line_sizes then Panic DivisionByZero
          else (case max_of (filter (\<lambda>ls. axis_stride mod ls = 0) supported_line_sizes) of
             None \<Rightarrow> Ret (Inl NoValidLineSize)
           | Some ls \<Rightarrow> Ret (Inr ls))))"

definition tensor_line_size_perpendicular :: "nat list \<Rightarrow> nat list \<Rightarrow> nat list \<Rightarrow> nat \<Rightarrow> nat exec" where
  "tensor_line_size_perpendicular supported_line_sizes shape strides axis =
     or_one (try_tensor_line_size_perpendicular supported_line_sizes shape strides axis)"

section \<open>Offsets in a kernel\<close>

record tensor =
  t_shape :: "u32 list"
  t_stride :: "u32 list"
  t_line_size :: u32

definition rank :: "tensor \<Rightarrow> nat" where
  "rank t = length (t_shape t)"

definition index_offset_with_layout :: "tensor \<Rightarrow> tensor \<Rightarrow> u32 \<Rightarrow> nat \<Rightarrow> nat \<Rightarrow> u32" where
  "index_offset_with_layout t layout offset_layout dim_start dim_end =
     (let offset_ref = offset_layout * t_line_size t;
          offset = foldl (\<lambda>offset i.
            let ogwl = offset_ref div (t_stride layout ! i)
            in offset + ogwl mod (t_shape t ! i) * (t_stride t ! i)) 0 [dim_start..<dim_end]
      in offset div t_line_size t)"

definition contiguous_step :: "tensor \<Rightarrow> u32 \<times> u32 \<Rightarrow> nat \<Rightarrow> u32 \<times> u32" where
  "contiguous_step t = (\<lambda>(offset, remainder) i.
     let dim = rank t - i - 1;
         shape = t_shape t ! dim;
         ogwl = remainder mod shape
     in (offset + ogwl * (t_stride t ! dim), remainder div shape))"

definition index_offset_contiguous :: "tensor \<Rightarrow> u32 \<Rightarrow> u32" where
  "index_offset_contiguous t offset_layout =
     (let offset_ref = offset_layout * t_line_size t;
          (offset, remainder) = foldl (contiguous_step t) (0, offset_ref) [0..<rank t]
      in offset div t_line_size t)"

definition fastdivmod_step ::
  "fast_divmod list \<Rightarrow> u32 list \<Rightarrow> (u32 \<times> u32 \<times> nat) option \<Rightarrow> (u32 \<times> u32 \<times> nat) option" where
  "fastdivmod_step shape stride state =
     (case state of
        None \<Rightarrow> None
      | Some (offset, remainder, dm) \<Rightarrow>
          (case fast_div_mod (shape ! dm) remainder of
             None \<Rightarrow> None
           | Some (rem, ogwl) \<Rightarrow> Some (offset + ogwl * (stride ! dm), rem, dm - 1)))"

definition index_offset_contiguous_fastdivmod ::
  "tensor \<Rightarrow> u32 \<Rightarrow> fast_divmod list \<Rightarrow> u32 list \<Rightarrow> u32 option" where
  "index_offset_contiguous_fastdivmod t offset_layout shape stride =
     (let offset_ref = offset_layout * t_line_size t;
          result = foldl (\<lambda>state _. fastdivmod_step shape stride state)
            (Some (0, offset_ref, length shape - 1)) [0..<length shape]
      in map_option (\<lambda>(offset, _, _). offset div t_line_size t) result)"

datatype strided_layout = Pitched fast_divmod | NoLayout

definition strided_index :: "strided_layout \<Rightarrow> tensor \<Rightarrow> u32 \<Rightarrow> u32 option" where
  "strided_index self t index =
     (case self of
        Pitched dm \<Rightarrow>
          let offset_abs = index * t_line_size t in
          (case fast_div_mod dm offset_abs of
             None \<Rightarrow> None
           | Some (y, x) \<Rightarrow> Some ((y * (t_stride t ! (rank t - 2)) + x) div t_line_size t))
      | NoLayout \<Rightarrow> Some index)"

section \<open>Row-major coordinates\<close>

text \<open>The reference: the strides of a row-major tensor and the coordinates of its \<open>n\<close>-th element.\<close>

fun row_major :: "nat list \<Rightarrow> nat list" where
  "row_major [] = []"
| "row_major (d # ds) = prod_list ds # row_major ds"

fun coords :: "nat list \<Rightarrow> nat \<Rightarrow> nat list" where
  "coords [] n = []"
| "coords (d # ds) n = n div prod_list ds mod d # coords ds n"

definition offset_at :: "nat list \<Rightarrow> nat list \<Rightarrow> nat" where
  "offset_at xs strides = sum_list (map (\<lambda>(x, s). x * s) (zip xs strides))"

lemma offset_at_simps [simp]:
  "offset_at [] ss = 0" "offset_at (x # xs) (s # ss) = x * s + offset_at xs ss"
  by (simp_all add: offset_at_def)

lemma length_row_major [simp]: "length (row_major ds) = length ds"
  by (induction ds) auto

lemma length_coords [simp]: "length (coords ds n) = length ds"
  by (induction ds) auto

lemma row_major_nth: "i < length ds \<Longrightarrow> row_major ds ! i = prod_list (drop (Suc i) ds)"
  by (induction ds arbitrary: i) (auto simp: nth_Cons' drop_Cons' neq0_conv)

lemma coords_nth: "i < length ds \<Longrightarrow> coords ds n ! i = n div prod_list (drop (Suc i) ds) mod ds ! i"
  by (induction ds arbitrary: i) (auto simp: nth_Cons' drop_Cons' neq0_conv)

text \<open>The coordinates address the element: they are in range and determine it.\<close>

lemma coords_sound:
  assumes "\<And>d. d \<in> set ds \<Longrightarrow> 0 < d"
  shows "list_all2 (<) (coords ds n) ds" "offset_at (coords ds n) (row_major ds) = n mod prod_list ds"
  using assms
proof (induction ds)
  case (Cons d ds)
  { case 1 then show ?case using Cons.IH(1) by simp }
  { case 2
    then have "offset_at (coords ds n) (row_major ds) = n mod prod_list ds" using Cons.IH(2) by simp
    then show ?case using mod_mult2_eq [of n "prod_list ds" d] by (simp add: mult.commute) }
qed auto

lemma coords_unique:
  assumes "list_all2 (<) xs ds"
  shows "offset_at xs (row_major ds) < prod_list ds" "coords ds (offset_at xs (row_major ds)) = xs"
  using assms
proof (induction xs ds rule: list_all2_induct)
  case (Cons x xs d ds)
  have pos: "0 < prod_list ds" using Cons.IH(1) by simp
  have cong: "coords ds (m * prod_list ds + n) = coords ds n" for m n
  proof (induction ds arbitrary: m)
    case (Cons d ds)
    have "(m * (d * prod_list ds) + n) div prod_list ds mod d = n div prod_list ds mod d"
    proof (cases "prod_list ds = 0")
      case False
      have "(m * (d * prod_list ds) + n) div prod_list ds = m * d + n div prod_list ds"
        using False div_mult_self1 [of "prod_list ds" n "m * d"] by (simp add: ac_simps)
      then show ?thesis by simp
    qed simp
    then show ?case using Cons.IH [of "m * d"] by (simp add: ac_simps)
  qed simp
  { case 1 
    have "x * prod_list ds + offset_at xs (row_major ds) < Suc x * prod_list ds" using Cons.IH(1) by simp
    also have "\<dots> \<le> d * prod_list ds" using Cons.hyps by (intro mult_right_mono) auto
    finally show ?case by simp }
  { case 2 
    show ?case using Cons.hyps Cons.IH pos cong by simp }
qed auto

section \<open>The loops of the kernel\<close>

abbreviation nats :: "u32 list \<Rightarrow> nat list" where
  "nats ws \<equiv> map unat ws"

text \<open>A tensor with as many strides as dimensions, none of them empty.\<close>

definition tensor_ok :: "tensor \<Rightarrow> bool" where
  "tensor_ok t \<longleftrightarrow> length (t_stride t) = rank t \<and> 0 \<notin> set (t_shape t) \<and> t_line_size t \<noteq> 0"

lemma offset_at_drop:
  assumes "k < length xs" "length ss = length xs"
  shows "offset_at (drop k xs) (drop k ss) = xs ! k * ss ! k + offset_at (drop (Suc k) xs) (drop (Suc k) ss)"
proof -
  have "drop k xs = xs ! k # drop (Suc k) xs" "drop k ss = ss ! k # drop (Suc k) ss"
    using assms by (simp_all add: Cons_nth_drop_Suc)
  then show ?thesis by simp
qed

lemma offset_at_drop_le:
  assumes "k \<le> length xs" "length ss = length xs"
  shows "offset_at (drop k xs) (drop k ss) \<le> offset_at xs ss"
  using assms
proof (induction k)
  case (Suc k)
  then show ?case using offset_at_drop [of k xs ss] by simp
qed simp

lemma offset_at_take:
  assumes "k < length xs" "length ss = length xs"
  shows "offset_at (take (Suc k) xs) (take (Suc k) ss) = offset_at (take k xs) (take k ss) + xs ! k * ss ! k"
  using assms by (simp add: offset_at_def take_Suc_conv_app_nth)

lemma offset_at_take_le:
  assumes "k \<le> length xs" "length ss = length xs"
  shows "offset_at (take k xs) (take k ss) \<le> offset_at xs ss"
proof -
  have "xs = take k xs @ drop k xs" "ss = take k ss @ drop k ss" by simp_all
  then have "offset_at xs ss = offset_at (take k xs) (take k ss) + offset_at (drop k xs) (drop k ss)"
    using assms unfolding offset_at_def
    by (metis (no_types, lifting) length_take map_append sum_list.append zip_append)
  then show ?thesis by simp
qed

text \<open>One step adds the next coordinate, from the last dimension on.\<close>

lemma contiguous_loop:
  fixes t :: tensor and n :: u32
  defines "ds \<equiv> nats (t_shape t)" and "ss \<equiv> nats (t_stride t)"
  defines "c \<equiv> coords ds (unat n)"
  assumes ok: "tensor_ok t" and fits: "offset_at c ss < 2 ^ 32" and k: "k \<le> rank t"
  shows "case foldl (contiguous_step t) (0, n) [0..<k]
    of (offset, remainder) \<Rightarrow> unat offset = offset_at (drop (rank t - k) c) (drop (rank t - k) ss)
       \<and> unat remainder = unat n div prod_list (drop (rank t - k) ds)"
  using k
proof (induction k)
  case 0
  then show ?case by (simp add: c_def ds_def ss_def rank_def)
next
  case (Suc k)
  define j where "j = rank t - k - 1"
  have j: "j < rank t" "rank t - k = Suc j" "rank t - Suc k = j" using Suc.prems by (simp_all add: j_def)
  have len: "length c = rank t" "length ss = rank t" "length ds = rank t"
    using ok by (simp_all add: c_def ds_def ss_def rank_def tensor_ok_def)
  obtain off r where o: "foldl (contiguous_step t) (0, n) [0..<k] = (off, r)"
    by fastforce
  have off: "unat off = offset_at (drop (Suc j) c) (drop (Suc j) ss)"
    and r: "unat r = unat n div prod_list (drop (Suc j) ds)"
    using Suc o j(2) by simp_all
  have digit: "unat (r mod (t_shape t ! j)) = c ! j"
    using j(1) len by (simp add: c_def coords_nth r unat_mod ds_def)
  have nxt: "unat off + c ! j * ss ! j = offset_at (drop j c) (drop j ss)"
    using offset_at_drop [of j c ss] j(1) len off by simp
  have "offset_at (drop j c) (drop j ss) < 2 ^ 32"
    using offset_at_drop_le [of j c ss] j(1) len fits by simp
  then have small: "unat off + c ! j * ss ! j < 2 ^ 32" using nxt by simp
  then have mul: "unat (r mod (t_shape t ! j) * (t_stride t ! j)) = c ! j * ss ! j"
    using digit j(1) len by (subst unat_mul_small) (simp_all add: ss_def)
  have "unat (off + r mod (t_shape t ! j) * (t_stride t ! j)) = offset_at (drop j c) (drop j ss)"
    using small mul nxt by (subst unat_add_small) simp_all
  moreover have "drop j ds = ds ! j # drop (Suc j) ds" using j(1) len by (simp add: Cons_nth_drop_Suc)
  then have "unat n div prod_list (drop j ds) = unat n div prod_list (drop (Suc j) ds) div ds ! j"
    by (simp only: prod_list.Cons mult.commute [of "ds ! j"] div_mult2_eq)
  then have "unat (r div (t_shape t ! j)) = unat n div prod_list (drop j ds)"
    using j(1) len r by (simp add: unat_div ds_def)
  ultimately show ?case using o j by (simp add: Let_def contiguous_step_def)
qed

lemma index_offset_contiguous_coords:
  fixes t :: tensor
  assumes ok: "tensor_ok t" and n: "unat i * unat (t_line_size t) < 2 ^ 32"
    and fits: "offset_at (coords (nats (t_shape t)) (unat i * unat (t_line_size t))) (nats (t_stride t)) < 2 ^ 32"
  shows "unat (index_offset_contiguous t i) =
    offset_at (coords (nats (t_shape t)) (unat i * unat (t_line_size t))) (nats (t_stride t)) div unat (t_line_size t)"
proof -
  have ref: "unat (i * t_line_size t) = unat i * unat (t_line_size t)" using n by (simp add: no_wrap)
  from contiguous_loop [OF ok, of "i * t_line_size t" "rank t"] show ?thesis
    using fits by (auto simp: index_offset_contiguous_def ref unat_div split: prod.splits)
qed

text \<open>With the strides of a row-major layout, the other loop reaches the same coordinates.\<close>

lemma index_offset_with_layout_coords:
  fixes t layout :: tensor
  defines "ds \<equiv> nats (t_shape t)" and "ss \<equiv> nats (t_stride t)"
  assumes ok: "tensor_ok t" and n: "unat i * unat (t_line_size t) < 2 ^ 32"
    and layout: "nats (t_stride layout) = row_major ds"
    and fits: "offset_at (coords ds (unat i * unat (t_line_size t))) ss < 2 ^ 32"
  shows "unat (index_offset_with_layout t layout i 0 (rank t)) =
    offset_at (coords ds (unat i * unat (t_line_size t))) ss div unat (t_line_size t)"
proof -
  let ?n = "unat i * unat (t_line_size t)" and ?c = "coords ds (unat i * unat (t_line_size t))"
  have ref: "unat (i * t_line_size t) = ?n" using n by (simp add: no_wrap)
  have len: "length ?c = rank t" "length ss = rank t" "length ds = rank t" "length (t_stride layout) = rank t"
    using ok arg_cong [OF layout, of length] by (simp_all add: ds_def ss_def rank_def tensor_ok_def)
  have "unat (foldl (\<lambda>offset j. let ogwl = i * t_line_size t div (t_stride layout ! j)
            in offset + ogwl mod (t_shape t ! j) * (t_stride t ! j)) 0 [0..<k]) = offset_at (take k ?c) (take k ss)"
    if "k \<le> rank t" for k
    using that
  proof (induction k)
    case (Suc k)
    let ?x = "i * t_line_size t div (t_stride layout ! k) mod (t_shape t ! k)"
    have "unat (t_stride layout ! k) = row_major ds ! k"
      using arg_cong [OF layout, of "\<lambda>xs. xs ! k"] Suc.prems len by simp
    then have x: "unat ?x = ?c ! k"
      using Suc.prems len by (simp add: unat_mod unat_div ref coords_nth row_major_nth ds_def)
    have eq: "offset_at (take k ?c) (take k ss) + ?c ! k * ss ! k = offset_at (take (Suc k) ?c) (take (Suc k) ss)"
      using offset_at_take [of k ?c ss] Suc.prems len by simp
    have small: "offset_at (take k ?c) (take k ss) + ?c ! k * ss ! k < 2 ^ 32"
      using eq offset_at_take_le [of "Suc k" ?c ss] Suc.prems len fits by simp
    have mul: "unat (?x * (t_stride t ! k)) = ?c ! k * ss ! k"
      using small x Suc.prems len by (subst unat_mul_small) (simp_all add: ss_def)
    show ?case using Suc small mul eq by (simp add: Let_def) (subst unat_add_small; simp)
  qed simp
  from this [of "rank t"] show ?thesis
    using len by (simp add: index_offset_with_layout_def unat_div Let_def)
qed

text \<open>The dividers a launch passes for the dimensions of a tensor.\<close>

definition dividers :: "bool \<Rightarrow> u32 list \<Rightarrow> fast_divmod list exec" where
  "dividers u64_supported shape = mapE (fast_divmod_new u64_supported) shape"

lemma fastdivmod_loop:
  fixes t :: tensor and n :: u32
  assumes n: "unat n \<le> 2 ^ 31" and k: "k \<le> rank t" and len: "length fds = rank t"
    and exact: "\<And>j m. j < rank t \<Longrightarrow> unat m \<le> 2 ^ 31 \<Longrightarrow>
      fast_div_mod (fds ! j) m = Some (m div t_shape t ! j, m mod t_shape t ! j)"
  shows "foldl (\<lambda>state _. fastdivmod_step fds (t_stride t) state) (Some (0, n, rank t - 1)) [0..<k] =
      (case foldl (contiguous_step t) (0, n) [0..<k] of (off, r) \<Rightarrow> Some (off, r, rank t - k - 1))
    \<and> unat (snd (foldl (contiguous_step t) (0, n) [0..<k])) \<le> 2 ^ 31"
  using k
proof (induction k)
  case (Suc k)
  obtain off r where o: "foldl (contiguous_step t) (0, n) [0..<k] = (off, r)" by fastforce
  have r: "unat r \<le> 2 ^ 31" using Suc o by simp
  then have "unat (r div t_shape t ! (rank t - k - 1)) \<le> 2 ^ 31"
    by (simp add: unat_div) (meson div_le_dividend le_trans)
  then show ?case
    using Suc o exact [OF _ r, of "rank t - k - 1"]
    by (simp add: contiguous_step_def fastdivmod_step_def Let_def)
qed (use n in simp)

section \<open>Properties\<close>

text \<open>
  C26. The offset a kernel computes for the \<open>i\<close>-th line of a tensor is that of the element with the
  \<open>i\<close>-th row-major coordinates, for any shape and strides: \<open>index_offset_contiguous\<close>, which peels the
  coordinates off from the last dimension, and \<open>index_offset_with_layout\<close> with a row-major layout,
  which divides by the layout's strides. The products must fit 32 bits.
\<close>

theorem kernel_offsets_are_strided:
  fixes t layout :: tensor
  assumes "tensor_ok t" "nats (t_stride layout) = row_major (nats (t_shape t))"
    and "unat i * unat (t_line_size t) < 2 ^ 32"
    and "offset_at (coords (nats (t_shape t)) (unat i * unat (t_line_size t))) (nats (t_stride t)) < 2 ^ 32"
  shows "unat (index_offset_contiguous t i) =
      offset_at (coords (nats (t_shape t)) (unat i * unat (t_line_size t))) (nats (t_stride t)) div unat (t_line_size t)
    \<and> index_offset_with_layout t layout i 0 (rank t) = index_offset_contiguous t i"
  using index_offset_contiguous_coords [OF assms(1,3,4)] index_offset_with_layout_coords [OF assms(1,3,2,4)]
  by (simp add: word_unat_eq_iff)

definition demo_tensor :: tensor where
  "demo_tensor = \<lparr>t_shape = [2, 3, 4], t_stride = [4, 8, 1], t_line_size = 2\<rparr>"

theorem kernel_offsets_are_strided_witness:
  "unat (index_offset_contiguous demo_tensor 8) =
      offset_at (coords [2, 3, 4] 16) [4, 8, 1] div 2
    \<and> index_offset_with_layout demo_tensor \<lparr>t_shape = [2, 3, 4], t_stride = [12, 4, 1], t_line_size = 2\<rparr> 8 0 (rank demo_tensor)
       = index_offset_contiguous demo_tensor 8"
  using kernel_offsets_are_strided [of demo_tensor "\<lparr>t_shape = [2, 3, 4], t_stride = [12, 4, 1], t_line_size = 2\<rparr>" 8]
  by (simp add: demo_tensor_def tensor_ok_def rank_def)

text \<open>
  C27. The kernel that divides with precomputed multipliers computes the same offsets: for every shape
  with dimensions between 1 and \<open>2\<^sup>3\<^sup>1\<close>, the host's dividers are set up without a panic, and for every line
  whose first element is at most the \<open>2\<^sup>3\<^sup>1\<close>-th they give the offset of the plain division.
\<close>

theorem fastdivmod_offsets_agree:
  fixes t :: tensor
  assumes "t_shape t \<noteq> []" "\<And>d. d \<in> set (t_shape t) \<Longrightarrow> d \<noteq> 0 \<and> unat d \<le> 2 ^ 31"
    and "unat (i * t_line_size t) \<le> 2 ^ 31"
  shows "returns (dividers u64_supported (t_shape t)) (\<lambda>fds.
    index_offset_contiguous_fastdivmod t i fds (t_stride t) = Some (index_offset_contiguous t i))"
proof -
  have new: "returns (fast_divmod_new u64_supported d)
      (\<lambda>fd. \<forall>m. unat m \<le> 2 ^ 31 \<longrightarrow> fast_div_mod fd m = Some (m div d, m mod d))" if "d \<in> set (t_shape t)" for d
  proof -
    have ok: "returns (fast_divmod_new u64_supported d) (\<lambda>fd. fast_div_mod fd m = Some (m div d, m mod d))"
      if "unat m \<le> 2 ^ 31" for m
      using assms(2) [OF \<open>d \<in> set (t_shape t)\<close>] that by (intro fast_div_mod_correct) auto
    obtain fd where "fast_divmod_new u64_supported d = Ret fd" using ok [of 0] by (auto simp: returns_eq)
    then show ?thesis using ok by simp
  qed
  show ?thesis unfolding dividers_def
  proof (rule returns_mono [OF mapE_returns [OF new]])
    fix fds assume "list_all2 (\<lambda>d fd. \<forall>m. unat m \<le> 2 ^ 31 \<longrightarrow> fast_div_mod fd m = Some (m div d, m mod d)) (t_shape t) fds"
    then have "length fds = rank t"
      "\<And>j m. j < rank t \<Longrightarrow> unat m \<le> 2 ^ 31 \<Longrightarrow> fast_div_mod (fds ! j) m = Some (m div t_shape t ! j, m mod t_shape t ! j)"
      by (auto simp: list_all2_conv_all_nth rank_def)
    from fastdivmod_loop [OF assms(3) order_refl this]
    show "index_offset_contiguous_fastdivmod t i fds (t_stride t) = Some (index_offset_contiguous t i)"
      using \<open>length fds = rank t\<close>
      by (simp add: index_offset_contiguous_fastdivmod_def index_offset_contiguous_def Let_def split: prod.splits)
  qed
qed

theorem fastdivmod_offsets_agree_witness:
  "returns (dividers True (t_shape demo_tensor)) (\<lambda>fds.
    index_offset_contiguous_fastdivmod demo_tensor 8 fds (t_stride demo_tensor) = Some (index_offset_contiguous demo_tensor 8))"
  by (rule fastdivmod_offsets_agree) (auto simp: demo_tensor_def)

lemma compact_strides_row_major:
  assumes ne: "shape \<noteq> []" and nz: "0 \<notin> set shape" and fits: "prod_list shape < u64_bound"
  shows "compact_strides shape = Ret (row_major shape)"
proof -
  let ?n = "length shape - 1" and ?r = "row_major shape"
  define I where "I = (\<lambda>k (strides :: nat list). strides = replicate (?n - k) 1 @ drop (?n - k) ?r)"
  let ?f = "\<lambda>strides i. bindE (mul_u64 (strides ! (i + 1)) (shape ! (i + 1))) (\<lambda>s. Ret (strides[i := s]))"
  have "returns (foldE ?f (rev [0..<?n]) (replicate (length shape) 1)) (I (length (rev [0..<?n])))"
  proof (rule foldE_returns)
    have "drop ?n ?r = [1]"
      using ne Cons_nth_drop_Suc [of ?n ?r, symmetric] by (simp add: row_major_nth)
    then show "I 0 (replicate (length shape) 1)"
      using ne by (simp add: I_def replicate_app_Cons_same flip: replicate_Suc)
  next
    fix k strides assume k: "k < length (rev [0..<?n])" and inv: "I k strides"
    define i where "i = ?n - Suc k"
    have i: "i < ?n" "rev [0..<?n] ! k = i" "?n - k = Suc i" "?n - Suc k = i"
      using k by (simp_all add: i_def rev_nth)
    have st: "strides = replicate (Suc i) 1 @ drop (Suc i) ?r" using inv i by (simp add: I_def)
    have next_stride: "strides ! Suc i = ?r ! Suc i"
      using i ne by (simp add: st nth_append)
    have drops: "drop (Suc i) shape = shape ! Suc i # drop (Suc (Suc i)) shape"
      using i by (simp add: Cons_nth_drop_Suc)
    then have mult: "strides ! Suc i * shape ! Suc i = ?r ! i"
      using i by (simp add: next_stride row_major_nth mult.commute)
    have small: "?r ! i < u64_bound"
      using prod_list_drop_le(1) [OF nz, of "Suc i"] fits i by (simp add: row_major_nth)
    have "strides[i := ?r ! i] = replicate i 1 @ drop i ?r"
      using i Cons_nth_drop_Suc [of i ?r] 
      by (simp add: st list_update_append replicate_append_same [symmetric] del: replicate_append_same)
    then show "returns (?f strides (rev [0..<?n] ! k)) (I (Suc k))"
      using mult small i by (simp add: I_def)
  qed
  then show ?thesis
    using ne by (auto simp: compact_strides_def returns_eq I_def sub_u64_def Let_def Suc_le_eq)
qed

text \<open>
  C28. \<open>compact_strides\<close> returns the strides of a row-major tensor, \<open>is_contiguous\<close> recognises exactly
  these, and a kernel finds the \<open>i\<close>-th line of such a tensor at index \<open>i\<close>. \<open>compact_strides\<close> of an empty
  shape panics, because it subtracts one from the rank.
\<close>

theorem contiguous_strides_round_trip:
  fixes t :: tensor
  assumes "shape \<noteq> []" "0 \<notin> set shape" "prod_list shape < 2 ^ 64" "length strides = length shape"
    and "tensor_ok t" "nats (t_shape t) = shape" "nats (t_stride t) = row_major shape"
    and "unat i * unat (t_line_size t) < prod_list shape" "prod_list shape < 2 ^ 32"
  shows "compact_strides shape = Ret (row_major shape)
    \<and> is_contiguous shape strides = Ret (strides = row_major shape)
    \<and> index_offset_contiguous t i = i
    \<and> compact_strides [] = Panic ArithmeticOverflow"
proof (intro conjI)
  show c: "compact_strides shape = Ret (row_major shape)"
    using assms(1-3) by (rule compact_strides_row_major)
  then show "is_contiguous shape strides = Ret (strides = row_major shape)"
    using assms(1,4) by (auto simp: is_contiguous_def list_all_length intro: nth_equalityI)
  let ?n = "unat i * unat (t_line_size t)"
  have "\<And>d. d \<in> set shape \<Longrightarrow> 0 < d" using assms(2) by (metis gr0I)
  then have at: "offset_at (coords shape ?n) (row_major shape) = ?n"
    using coords_sound(2) [of shape ?n] assms(8) by simp
  have "?n < 2 ^ 32" using assms(8,9) by simp
  then have "unat (index_offset_contiguous t i) = ?n div unat (t_line_size t)"
    using index_offset_contiguous_coords [OF assms(5), of i, unfolded assms(6,7)] at by simp
  also have "\<dots> = unat i" using assms(5) by (simp add: tensor_ok_def unat_eq_0)
  finally have "unat (index_offset_contiguous t i) = unat i" .
  then show "index_offset_contiguous t i = i" by (simp add: word_unat_eq_iff)
qed (simp add: compact_strides_def sub_u64_def)

theorem contiguous_strides_round_trip_witness:
  "compact_strides [2, 3, 4] = Ret (row_major [2, 3, 4])
    \<and> is_contiguous [2, 3, 4] [12, 4, 1] = Ret ([12, 4, 1] = row_major [2, 3, 4])
    \<and> index_offset_contiguous \<lparr>t_shape = [2, 3, 4], t_stride = [12, 4, 1], t_line_size = 4\<rparr> 5 = 5
    \<and> compact_strides [] = Panic ArithmeticOverflow"
  by (rule contiguous_strides_round_trip) (simp_all add: tensor_ok_def rank_def)

section \<open>Line sizes\<close>

lemma max_of_Some:
  assumes "max_of xs = Some m"
  shows "m \<in> set xs" "\<And>x. x \<in> set xs \<Longrightarrow> x \<le> m"
  using assms by (auto simp: max_of_def split: if_splits)

lemma min_of_Some:
  assumes "min_of xs = Some m"
  shows "m \<in> set xs" "\<And>x. x \<in> set xs \<Longrightarrow> m \<le> x"
  using assms by (auto simp: min_of_def split: if_splits)

lemma try_parallel_Inr:
  assumes "try_tensor_line_size_parallel supported shape strides axis = Ret (Inr ls)"
  shows "axis < length strides" "axis < length shape" "strides ! axis = 1" "ls \<in> set supported" "ls \<noteq> 0"
    "ls dvd shape ! axis" "ls dvd (case min_of (filter (\<lambda>s. 1 < s) strides) of None \<Rightarrow> 0 | Some s \<Rightarrow> s)"
    "\<And>l. l \<in> set supported \<Longrightarrow> l dvd shape ! axis
      \<Longrightarrow> l dvd (case min_of (filter (\<lambda>s. 1 < s) strides) of None \<Rightarrow> 0 | Some s \<Rightarrow> s) \<Longrightarrow> l \<le> ls"
proof -
  define nxt where "nxt = (case min_of (filter (\<lambda>s. 1 < s) strides) of None \<Rightarrow> 0 | Some s \<Rightarrow> s)"
  let ?fits = "filter (\<lambda>ls. shape ! axis mod ls = 0 \<and> nxt mod ls = 0) supported"
  note tr = assms [unfolded try_tensor_line_size_parallel_def Let_def, folded nxt_def]
  have ax1: "axis < length strides" by (rule ccontr) (use tr in \<open>simp add: nth_opt_def\<close>)
  have ax3: "strides ! axis = 1" by (rule ccontr) (use tr ax1 in \<open>simp add: nth_opt_def\<close>)
  have ax2: "axis < length shape" by (rule ccontr) (use tr ax1 ax3 in \<open>simp add: nth_opt_def\<close>)
  have nz: "0 \<notin> set supported" by (rule ccontr) (use tr ax1 ax2 ax3 in \<open>simp add: nth_opt_def\<close>)
  note ax = ax1 ax2 ax3
  from nz have "(case max_of ?fits of None \<Rightarrow> Ret (Inl NoValidLineSize) | Some ls \<Rightarrow> Ret (Inr ls)) = Ret (Inr ls)"
    using tr ax by (simp add: nth_opt_def)
  then have max: "max_of ?fits = Some ls" by (cases "max_of ?fits") simp_all
  show "axis < length strides" "axis < length shape" "strides ! axis = 1" by (fact ax)+
  from max_of_Some(1) [OF max] nz
  show "ls \<in> set supported" "ls \<noteq> 0" "ls dvd shape ! axis"
    "ls dvd (case min_of (filter (\<lambda>s. 1 < s) strides) of None \<Rightarrow> 0 | Some s \<Rightarrow> s)"
    unfolding nxt_def [symmetric] by (auto simp: mod_eq_0_iff_dvd intro!: gr0I)
  show "l \<le> ls" if "l \<in> set supported" "l dvd shape ! axis"
    "l dvd (case min_of (filter (\<lambda>s. 1 < s) strides) of None \<Rightarrow> 0 | Some s \<Rightarrow> s)" for l
    using max_of_Some(2) [OF max] that unfolding nxt_def [symmetric] by (simp add: mod_eq_0_iff_dvd)
qed

lemma offset_at_update:
  assumes "axis < length xs" "length strides = length xs"
  shows "offset_at (xs[axis := x]) strides + xs ! axis * strides ! axis = offset_at xs strides + x * strides ! axis"
  using assms
proof (induction xs arbitrary: axis strides)
  case (Cons y xs)
  then obtain s ss where ss: "strides = s # ss" "length ss = length xs" by (cases strides) auto
  show ?case
  proof (cases axis)
    case (Suc k)
    then show ?thesis using Cons.IH [of k ss] Cons.prems ss by simp
  qed (simp add: ss)
qed simp

lemma dvd_offset_at:
  assumes "length strides = length xs" "\<And>i. i < length xs \<Longrightarrow> m dvd xs ! i * strides ! i"
  shows "m dvd offset_at xs strides"
  using assms
proof (induction xs arbitrary: strides)
  case (Cons x xs)
  then obtain s ss where ss: "strides = s # ss" "length ss = length xs" by (cases strides) auto
  have "m dvd x * s" using Cons.prems(2) [of 0] by (simp add: ss)
  moreover have "m dvd offset_at xs ss" using Cons.prems(2) [of "Suc i" for i] ss by (intro Cons.IH) auto
  ultimately show ?case by (simp add: ss)
qed simp

text \<open>
  C29. A line size chosen for an axis is supported, divides the axis, is the largest the check admits,
  and is usable: a line that starts at a multiple of the line size along the axis is aligned and holds
  consecutive elements of the axis. This needs that the smallest stride above one divides the others
  and that no second axis longer than one has stride one.
\<close>

theorem parallel_line_size_usable:
  assumes "try_tensor_line_size_parallel supported shape strides axis = Ret (Inr ls)"
    and "length strides = length shape"
    and "\<And>m s. min_of (filter (\<lambda>s. 1 < s) strides) = Some m \<Longrightarrow> s \<in> set strides \<Longrightarrow> 1 < s \<Longrightarrow> m dvd s"
    and "\<And>i. i < length strides \<Longrightarrow> i \<noteq> axis \<Longrightarrow> strides ! i = 1 \<Longrightarrow> shape ! i = 1"
    and "list_all2 (<) xs shape" "ls dvd xs ! axis" "j < ls"
  shows "ls \<in> set supported \<and> ls dvd shape ! axis \<and> xs ! axis + j < shape ! axis
    \<and> ls dvd offset_at xs strides
    \<and> offset_at (xs[axis := xs ! axis + j]) strides = offset_at xs strides + j"
proof -
  note r = try_parallel_Inr [OF assms(1)]
  have len: "length xs = length shape" using assms(5) by (rule list_all2_lengthD)
  have "ls dvd xs ! i * strides ! i" if "i < length xs" for i
  proof (cases "i = axis \<or> strides ! i \<le> 1")
    case True
    have "xs ! i < shape ! i" using assms(5) that by (simp add: list_all2_conv_all_nth)
    then show ?thesis
      using True assms(4) [of i] assms(6) that len assms(2) by (cases "strides ! i = 0"; cases "i = axis") auto
  next
    case False
    then have "strides ! i \<in> set (filter (\<lambda>s. 1 < s) strides)" using that len assms(2) by auto
    then have "min_of (filter (\<lambda>s. 1 < s) strides) \<noteq> None" by (auto simp only: min_of_def list.set split: if_splits)
    then obtain m where m: "min_of (filter (\<lambda>s. 1 < s) strides) = Some m" by blast
    then have "m dvd strides ! i" using assms(2,3) False that len by auto
    then show ?thesis using r(7) m by (auto intro: dvd_trans)
  qed
  then have aligned: "ls dvd offset_at xs strides" using len assms(2) by (intro dvd_offset_at) auto
  have "xs ! axis + j < shape ! axis"
  proof -
    obtain a b where ab: "xs ! axis = ls * a" "shape ! axis = ls * b" using assms(6) r(6) by (auto simp: dvd_def)
    have "xs ! axis < shape ! axis" using assms(5) r(2) len by (simp add: list_all2_conv_all_nth)
    then have "a < b" using ab by simp
    then have "ls * a + ls \<le> ls * b" by (metis Suc_leI mult_Suc_right add.commute mult_le_mono2)
    then show ?thesis using ab assms(7) by simp
  qed
  moreover have "offset_at (xs[axis := xs ! axis + j]) strides = offset_at xs strides + j"
    using offset_at_update [of axis xs strides "xs ! axis + j"] r(1,3) assms(2) len by simp
  ultimately show ?thesis using aligned r(4,6) by simp
qed

theorem parallel_line_size_usable_witness:
  "(4 :: nat) \<in> set [1, 2, 4, 8] \<and> (4 :: nat) dvd [6, 4] ! 1 \<and> [5, 0] ! 1 + 3 < [6, 4 :: nat] ! 1
    \<and> 4 dvd offset_at [5, 0] [8, 1]
    \<and> offset_at ([5, 0 :: nat][1 := [5, 0] ! 1 + 3]) [8, 1] = offset_at [5, 0] [8, 1] + 3
    \<and> try_tensor_line_size_parallel [1, 2, 4, 8] [6, 4] [8, 1] 1 = Ret (Inr 4)"
proof -
  have t: "try_tensor_line_size_parallel [1, 2, 4, 8] [6, 4] [8, 1] 1 = Ret (Inr 4)"
    by (simp add: try_tensor_line_size_parallel_def nth_opt_def max_of_def min_of_def)
  have m: "min_of (filter (\<lambda>s. 1 < s) [8, 1]) = Some 8" by (simp add: min_of_def)
  show ?thesis
    using parallel_line_size_usable [OF t, of "[5, 0]" 3] t m by (auto simp: less_Suc_eq nth_Cons')
qed

text \<open>
  Without these conditions the check admits line sizes that are not usable: for the shape
  \<open>[2, 1, 4]\<close> with strides \<open>[6, 4, 1]\<close> it looks at the smallest stride above one only and returns 4,
  but the element \<open>[1, 0, 0]\<close> lies at offset 6.
\<close>

theorem parallel_line_size_misaligned:
  "try_tensor_line_size_parallel [1, 2, 4] [2, 1, 4] [6, 4, 1] 2 = Ret (Inr 4)
   \<and> list_all2 (<) [1, 0, 0] [2, 1, 4 :: nat] \<and> \<not> 4 dvd offset_at [1, 0, 0] [6, 4, 1]"
  by (simp add: try_tensor_line_size_parallel_def nth_opt_def max_of_def min_of_def)

end
