(* ===== verification/Matmul_Order.thy ===== *)
theory Matmul_Order
  imports Machine_Words
begin

text \<open>
  The order in which the cubes of a matrix multiplication walk over the tiles of the output:
  \<open>cubecl-matmul/src/components/batch/partitioned_matmul/hypercube/global_order.rs\<close> and
  \<open>absolute_index_to_m_n_batch\<close> of \<open>cube_count_plan.rs\<close>. The host chooses the order with checked
  arithmetic; the map from a cube's position to its tile runs in the kernel on wrapping 32-bit words.
\<close>

section \<open>Choosing the order\<close>

text \<open>\<open>u32::div_ceil\<close> of the standard library.\<close>

definition div_ceil_u32 :: "nat \<Rightarrow> nat \<Rightarrow> nat exec" where
  "div_ceil_u32 a b = (if b = 0 then Panic DivisionByZero else Ret ((a + b - 1) div b))"

definition rem_u32 :: "nat \<Rightarrow> nat \<Rightarrow> nat exec" where
  "rem_u32 a b = (if b = 0 then Panic DivisionByZero else Ret (a mod b))"

datatype global_order = RowMajorO | ColMajorO | SwizzleRowMajor nat | SwizzleColMajor nat

definition canonicalize :: "global_order \<Rightarrow> global_order" where
  "canonicalize self =
     (case self of
        SwizzleColMajor w \<Rightarrow> if w = 1 then ColMajorO else self
      | SwizzleRowMajor w \<Rightarrow> if w = 1 then RowMajorO else self
      | _ \<Rightarrow> self)"

datatype global_order_selection =
    DefaultOrder
  | FixedOrder global_order
  | SwizzleRow nat nat
  | SwizzleCol nat nat

record cube_span =
  cs_m :: nat
  cs_n :: nat
  cs_batch :: nat

definition into_order :: "global_order_selection \<Rightarrow> cube_span \<Rightarrow> global_order exec" where
  "into_order self sp =
     bindE (case self of
        DefaultOrder \<Rightarrow> Ret RowMajorO
      | FixedOrder order \<Rightarrow> Ret order
      | SwizzleRow m w \<Rightarrow>
          bindE (div_ceil_u32 m (cs_m sp)) (\<lambda>m_cubes.
          bindE (rem_u32 m_cubes w) (\<lambda>r.
          Ret (if r \<noteq> 0 then RowMajorO else SwizzleRowMajor w)))
      | SwizzleCol n w \<Rightarrow>
          bindE (div_ceil_u32 n (cs_n sp)) (\<lambda>n_cubes.
          bindE (rem_u32 n_cubes w) (\<lambda>r.
          Ret (if r \<noteq> 0 then RowMajorO else SwizzleRowMajor w))))
     (\<lambda>order. Ret (canonicalize order))"

section \<open>From a position to a tile\<close>

definition swizzle :: "u32 \<Rightarrow> u32 \<Rightarrow> u32 \<Rightarrow> u32 \<times> u32" where
  "swizzle index num_steps step_length =
     (let num_elements_per_strip = num_steps * step_length;
          strip_index = index div num_elements_per_strip;
          pos_in_strip = index mod num_elements_per_strip;
          strip_offset = step_length * strip_index;
          abs_step_index = pos_in_strip div step_length;
          abs_pos_in_step = pos_in_strip mod step_length;
          strip_direction = strip_index mod 2;
          step_direction = abs_step_index mod 2;
          step_index = strip_direction * (num_steps - abs_step_index - 1) + (1 - strip_direction) * abs_step_index;
          pos_in_step =
            (if step_length AND (step_length - 1) = 0
             then abs_pos_in_step XOR (step_direction * (step_length - 1))
             else step_direction * (step_length - abs_pos_in_step - 1) + (1 - step_direction) * abs_pos_in_step)
      in (step_index, pos_in_step + strip_offset))"

definition matrix_pos_to_m_n :: "global_order \<Rightarrow> u32 \<Rightarrow> u32 \<Rightarrow> u32 \<Rightarrow> u32 \<times> u32" where
  "matrix_pos_to_m_n order m_cubes n_cubes matrix_pos =
     (case order of
        RowMajorO \<Rightarrow> (matrix_pos div n_cubes, matrix_pos mod n_cubes)
      | ColMajorO \<Rightarrow> (matrix_pos mod m_cubes, matrix_pos div m_cubes)
      | SwizzleRowMajor w \<Rightarrow> (let (x, y) = swizzle matrix_pos n_cubes (of_nat w) in (y, x))
      | SwizzleColMajor w \<Rightarrow> swizzle matrix_pos m_cubes (of_nat w))"

definition absolute_index_to_m_n_batch ::
  "u32 \<Rightarrow> u32 \<Rightarrow> u32 \<Rightarrow> global_order \<Rightarrow> u32 \<times> u32 \<times> u32" where
  "absolute_index_to_m_n_batch absolute_index m_cubes n_cubes order =
     (let batch_stride = m_cubes * n_cubes;
          batch_pos = absolute_index div batch_stride;
          matrix_pos = absolute_index mod batch_stride;
          (m_pos, n_pos) = matrix_pos_to_m_n order m_cubes n_cubes matrix_pos
      in (m_pos, n_pos, batch_pos))"

section \<open>Mixed-radix digits\<close>

lemma digits2: "r < N \<Longrightarrow> (t * N + r) div N = t" "r < N \<Longrightarrow> (t * N + r) mod N = r" for r t N :: nat
  by simp_all

lemma digits3:
  fixes S W :: nat
  assumes "p < W" "s < S"
  shows "(t * (S * W) + (s * W + p)) div (S * W) = t" "(t * (S * W) + (s * W + p)) mod (S * W) div W = s"
    "(t * (S * W) + (s * W + p)) mod (S * W) mod W = p"
proof -
  have "s * W + p < S * W"
  proof -
    have "s * W + p < Suc s * W" using assms(1) by simp
    also have "\<dots> \<le> S * W" using assms(2) by (intro mult_right_mono) auto
    finally show ?thesis .
  qed
  then show "(t * (S * W) + (s * W + p)) div (S * W) = t" "(t * (S * W) + (s * W + p)) mod (S * W) div W = s"
    "(t * (S * W) + (s * W + p)) mod (S * W) mod W = p"
    using assms(1) by (simp_all only: digits2)
qed

lemma digits3_eq:
  fixes i S W :: nat
  assumes "0 < S" "0 < W"
  shows "i = i div (S * W) * (S * W) + (i mod (S * W) div W * W + i mod (S * W) mod W)"
    "i mod (S * W) div W < S" "i mod (S * W) mod W < W"
proof -
  show "i = i div (S * W) * (S * W) + (i mod (S * W) div W * W + i mod (S * W) mod W)"
    by (simp only: div_mult_mod_eq)
  have "i mod (S * W) < S * W" using assms by simp
  then show "i mod (S * W) div W < S" by (simp add: less_mult_imp_div_less)
qed (use assms in simp)

lemma unat_digit:
  fixes q r :: u32
  assumes "unat q < Q" "unat r < N" "Q * N < 2 ^ 32"
  shows "unat (q * of_nat N + r) = unat q * N + unat r" "unat q * N + unat r < Q * N"
proof -
  have "unat q * N + unat r < Suc (unat q) * N" using assms(2) by simp
  also have "\<dots> \<le> Q * N" using assms(1) by (intro mult_right_mono) auto
  finally show lt: "unat q * N + unat r < Q * N" .
  have "N \<le> Q * N" using assms(1) by (cases Q) auto
  then have "N < 2 ^ 32" using assms(3) by linarith
  then have N: "unat (of_nat N :: u32) = N" by (intro unat_of_nat_small) simp
  then have "unat (q * of_nat N) = unat q * N" using lt assms(3) by (subst unat_mul_small) simp_all
  then show "unat (q * of_nat N + r) = unat q * N + unat r" using lt assms(3) by (subst unat_add_small) simp_all
qed

section \<open>The zigzag on natural numbers\<close>

text \<open>Backwards through \<open>n\<close> positions when \<open>odd d\<close>.\<close>

definition turn :: "nat \<Rightarrow> nat \<Rightarrow> nat \<Rightarrow> nat" where
  "turn d n i = (if odd d then n - i - 1 else i)"

lemma turn_less [simp]: "i < n \<Longrightarrow> turn d n i < n"
  by (auto simp: turn_def)

lemma turn_turn [simp]: "i < n \<Longrightarrow> turn d n (turn d n i) = i"
  by (auto simp: turn_def)

definition zigzag :: "nat \<Rightarrow> nat \<Rightarrow> nat \<Rightarrow> nat \<times> nat" where
  "zigzag S W i =
     (let t = i div (S * W); s = i mod (S * W) div W; p = i mod (S * W) mod W
      in (turn t S s, turn s W p + W * t))"

definition zigzag_index :: "nat \<Rightarrow> nat \<Rightarrow> nat \<times> nat \<Rightarrow> nat" where
  "zigzag_index S W = (\<lambda>(x, y).
     let t = y div W; s = turn t S x; p = turn s W (y mod W)
     in t * (S * W) + (s * W + p))"

lemma zigzag_index_zigzag:
  assumes "0 < S" "0 < W"
  shows "zigzag_index S W (zigzag S W i) = i"
proof -
  note d = digits3_eq [OF assms, of i]
  show ?thesis using d(2,3) d(1) [symmetric] assms
    by (simp add: zigzag_def zigzag_index_def Let_def)
qed

lemma zigzag_zigzag_index:
  assumes "0 < W" "x < S"
  shows "zigzag S W (zigzag_index S W (x, y)) = (x, y)"
  using assms digits3 [of "turn (turn (y div W) S x) W (y mod W)" W "turn (y div W) S x" S "y div W"]
  by (simp add: zigzag_def zigzag_index_def Let_def)

lemma zigzag_bound:
  assumes "0 < S" "0 < W" "i < S * (W * k)"
  shows "fst (zigzag S W i) < S" "snd (zigzag S W i) < W * k"
proof -
  note d = digits3_eq [OF assms(1,2), of i]
  have t: "i div (S * W) < k" using assms(3) by (simp add: less_mult_imp_div_less ac_simps)
  show "fst (zigzag S W i) < S" using d(2) by (simp add: zigzag_def Let_def)
  have "turn (i mod (S * W) div W) W (i mod (S * W) mod W) + W * (i div (S * W)) < W * Suc (i div (S * W))"
    using turn_less [OF d(3)] by simp
  also have "\<dots> \<le> W * k" using t by (intro mult_left_mono) auto
  finally show "snd (zigzag S W i) < W * k" by (simp add: zigzag_def Let_def)
qed

lemma zigzag_index_bound:
  assumes "0 < W" "x < S" "y < W * k"
  shows "zigzag_index S W (x, y) < S * (W * k)"
proof -
  let ?t = "y div W"
  have t: "?t < k" using assms by (simp add: less_mult_imp_div_less mult.commute)
  define s where "s = turn ?t S x"
  define p where "p = turn s W (y mod W)"
  have sp: "s < S" "p < W" using assms by (simp_all add: s_def p_def)
  have "?t * (S * W) + (s * W + p) < ?t * (S * W) + S * W"
  proof -
    have "s * W + p < Suc s * W" using sp by simp
    also have "\<dots> \<le> S * W" using sp by (intro mult_right_mono) auto
    finally show ?thesis by simp
  qed
  also have "\<dots> = Suc ?t * (S * W)" by simp
  also have "\<dots> \<le> k * (S * W)" using t by (intro mult_right_mono) auto
  finally show ?thesis by (simp add: zigzag_index_def Let_def s_def p_def ac_simps)
qed

lemma zigzag_bij:
  assumes "0 < S" "0 < W"
  shows "bij_betw (zigzag S W) {..< S * (W * k)} ({..< S} \<times> {..< W * k})"
proof (rule bij_betw_byWitness [where f' = "zigzag_index S W"])
  show "\<forall>i \<in> {..< S * (W * k)}. zigzag_index S W (zigzag S W i) = i"
    using zigzag_index_zigzag [OF assms] by blast
  show "\<forall>xy \<in> {..< S} \<times> {..< W * k}. zigzag S W (zigzag_index S W xy) = xy"
    using zigzag_zigzag_index [OF assms(2)] by blast
  show "zigzag S W ` {..< S * (W * k)} \<subseteq> {..< S} \<times> {..< W * k}"
    by (simp add: image_subset_iff mem_Times_iff zigzag_bound [OF assms])
  show "zigzag_index S W ` ({..< S} \<times> {..< W * k}) \<subseteq> {..< S * (W * k)}"
    using zigzag_index_bound [OF assms(2)] by blast
qed

section \<open>The zigzag on words\<close>

lemma and_pred_power_of_two:
  assumes "(w :: nat) AND (w - 1) = 0" "0 < w"
  shows "\<exists>k. w = 2 ^ k"
  using assms
proof (induction w rule: less_induct)
  case (less w)
  show ?case
  proof (cases "even w")
    case True
    then obtain v where v: "w = 2 * v" "0 < v" "v < w" using less.prems(2) by (auto elim!: evenE)
    then have "w - 1 = 2 * (v - 1) + 1" by simp
    then have "v AND (v - 1) = 0"
      using less.prems(1) v and_nat_rec [of w "w - 1"] by simp
    then obtain k where "v = 2 ^ k" using less.IH v by blast
    then have "w = 2 ^ Suc k" using v by simp
    then show ?thesis by blast
  next
    case False
    then obtain v where "w = 2 * v + 1" by (auto elim: oddE)
    then have "w = 1" using less.prems(1) and_nat_rec [of w "w - 1"] by simp
    then show ?thesis by (metis power_0)
  qed
qed

lemma xor_mask:
  assumes "(p :: nat) < 2 ^ k"
  shows "p XOR (2 ^ k - 1) = 2 ^ k - 1 - p"
proof -
  have m: "(2 :: nat) ^ k - 1 = mask k" by (simp add: mask_eq_exp_minus_1)
  have p: "p AND mask k = p" using assms by (simp add: take_bit_nat_eq_self flip: take_bit_eq_mask)
  have "p AND (p XOR mask k) = 0" "p OR (p XOR mask k) = mask k"
    using p by (auto simp: bit_eq_iff bit_simps)
  then have "p + (p XOR mask k) = mask k"
    by (metis disjunctive_add_eq_or)
  then show ?thesis unfolding m by simp
qed

lemma xor_reverse:
  assumes w: "w AND (w - 1) = 0" and p: "unat p < unat (w :: u32)"
  shows "p XOR (w - 1) = w - p - 1"
proof -
  have pos: "0 < unat w" using p by simp
  have w1: "unat (w - 1) = unat w - 1" using pos by (simp add: unat_sub_small)
  have "unat w AND (unat w - 1) = 0"
    using arg_cong [OF w, of unat] w1 by (simp add: unsigned_and_eq)
  then obtain k where k: "unat w = 2 ^ k" using and_pred_power_of_two pos by blast
  have "unat (p XOR (w - 1)) = unat w - 1 - unat p"
    using p xor_mask [of "unat p" k] by (simp add: unsigned_xor_eq w1 k)
  also have "\<dots> = unat (w - p - 1)"
    using p by (simp add: unat_sub_small)
  finally show ?thesis by (simp add: word_unat_eq_iff)
qed

lemma mod_two_cases: "(x :: u32) mod 2 = 0 \<and> even (unat x) \<or> x mod 2 = 1 \<and> odd (unat x)"
proof -
  have "unat (x mod 2) = unat x mod 2" by (simp add: unat_mod)
  then show ?thesis
    by (metis even_iff_mod_2_eq_zero odd_iff_mod_2_eq_one unat_0 unat_1 word_unat_eq_iff)
qed

lemma choose_direction:
  fixes d a b :: u32
  shows "d mod 2 * a + (1 - d mod 2) * b = (if odd (unat d) then a else b)"
  using mod_two_cases [of d] by (elim disjE conjE) (simp_all only: simp_thms if_True if_False, simp_all)

lemma unat_turn:
  fixes d n i :: u32
  assumes "unat i < unat n"
  shows "unat (if odd (unat d) then n - i - 1 else i) = turn (unat d) (unat n) (unat i)"
  using assms by (simp add: turn_def unat_sub_small)

lemma swizzle_zigzag:
  fixes i steps w :: u32
  assumes "0 < unat steps" "0 < unat w" "unat i < unat steps * (unat w * k)" "unat steps * (unat w * k) < 2 ^ 32"
  shows "unat (fst (swizzle i steps w)) = fst (zigzag (unat steps) (unat w) (unat i))"
    "unat (snd (swizzle i steps w)) = snd (zigzag (unat steps) (unat w) (unat i))"
proof -
  let ?S = "unat steps" and ?W = "unat w" and ?i = "unat i"
  note d = digits3_eq [OF assms(1,2), of ?i]
  have "0 < k" using assms(3) by (cases k) auto
  then have "?S * ?W \<le> ?S * (?W * k)" by simp
  then have "?S * ?W < 2 ^ LENGTH(32)" using le_less_trans [OF _ assms(4)] by simp
  then have strip: "unat (steps * w) = ?S * ?W" by (rule unat_mul_small)
  define t s p where "t = i div (steps * w)" and "s = i mod (steps * w) div w" and "p = i mod (steps * w) mod w"
  have nat: "unat t = ?i div (?S * ?W)" "unat s = ?i mod (?S * ?W) div ?W" "unat p = ?i mod (?S * ?W) mod ?W"
    by (simp_all add: t_def s_def p_def unat_div unat_mod strip)
  then have sp: "unat s < ?S" "unat p < ?W" using d by simp_all
  have step: "s mod 2 * (w - 1) = (if odd (unat s) then w - 1 else 0)"
    using choose_direction [of s "w - 1" 0] by simp
  have pos: "(if w AND (w - 1) = 0 then p XOR (s mod 2 * (w - 1))
      else s mod 2 * (w - p - 1) + (1 - s mod 2) * p) = (if odd (unat s) then w - p - 1 else p)"
    using sp(2) by (simp add: step xor_reverse choose_direction)
  have eq: "swizzle i steps w =
    (if odd (unat t) then steps - s - 1 else s, (if odd (unat s) then w - p - 1 else p) + w * t)"
    unfolding swizzle_def Let_def t_def [symmetric] s_def [symmetric] p_def [symmetric]
    unfolding pos by (simp only: choose_direction)
  show "unat (fst (swizzle i steps w)) = fst (zigzag ?S ?W ?i)"
    using unat_turn [OF sp(1), of t] by (simp add: eq zigzag_def Let_def nat)
  have "snd (zigzag ?S ?W ?i) < ?W * k" using zigzag_bound [OF assms(1-3)] by simp
  also have "\<dots> < 2 ^ 32" using assms(1,4) by (metis le_less_trans mult_le_mono1 nat_mult_1 One_nat_def Suc_leI)
  finally have small: "turn (unat s) ?W (unat p) + ?W * unat t < 2 ^ 32"
    by (simp add: zigzag_def Let_def nat)
  then have "unat (w * t) = ?W * unat t" by (simp add: unat_mul_small)
  then have "unat ((if odd (unat s) then w - p - 1 else p) + w * t) = turn (unat s) ?W (unat p) + ?W * unat t"
    using small unat_turn [OF sp(2), of s] by (subst unat_add_small) simp_all
  then show "unat (snd (swizzle i steps w)) = snd (zigzag ?S ?W ?i)"
    by (simp add: eq zigzag_def Let_def nat)
qed

section \<open>Orders that visit every tile once\<close>

abbreviation words_below :: "nat \<Rightarrow> u32 set" where
  "words_below n \<equiv> {w. unat w < n}"

text \<open>
  The contract of an order: for the sizes it supports, the positions of a matrix are mapped one to one
  onto its tiles. What a grid of cubes needs is the same for a stack of matrices.
\<close>

locale tile_order =
  fixes supports :: "u32 \<Rightarrow> u32 \<Rightarrow> bool"
    and tile :: "u32 \<Rightarrow> u32 \<Rightarrow> u32 \<Rightarrow> u32 \<times> u32"
  assumes tile_bij: "supports m n \<Longrightarrow>
    bij_betw (tile m n) (words_below (unat m * unat n)) (words_below (unat m) \<times> words_below (unat n))"
begin

lemma batched_bij:
  assumes ok: "supports m n" and fits: "unat m * unat n * k < 2 ^ 32"
  shows "bij_betw (\<lambda>i. (tile m n (i mod (m * n)), i div (m * n)))
    (words_below (unat m * unat n * k)) ((words_below (unat m) \<times> words_below (unat n)) \<times> words_below k)"
proof (cases "unat m * unat n * k = 0")
  case False
  define N where "N = unat m * unat n"
  have N: "0 < N" "0 < k" "N * k < 2 ^ 32" using False fits by (simp_all add: N_def)
  have "N < 2 ^ LENGTH(32)" by (rule le_less_trans [of _ "N * k"]) (use N in simp_all)
  then have mn: "unat (m * n) = N" unfolding N_def by (rule unat_mul_small)
  let ?f = "\<lambda>i. (tile m n (i mod (m * n)), i div (m * n))"
  have below: "unat (i mod (m * n)) < N" for i using N by (simp add: unat_mod mn)
  note bij = tile_bij [OF ok, folded N_def]
  have "inj_on ?f (words_below (N * k))"
  proof (rule inj_onI)
    fix i j assume "?f i = ?f j"
    then have eq: "tile m n (i mod (m * n)) = tile m n (j mod (m * n))" "i div (m * n) = j div (m * n)" by simp_all
    have "i mod (m * n) = j mod (m * n)"
      using inj_onD [OF bij_betw_imp_inj_on [OF bij] eq(1)] below by simp
    with eq(2) show "i = j" by (metis div_mult_mod_eq)
  qed
  moreover have "?f ` words_below (N * k) = (words_below (unat m) \<times> words_below (unat n)) \<times> words_below k"
  proof (intro equalityI subsetI)
    fix y assume "y \<in> ?f ` words_below (N * k)"
    then obtain i where i: "unat i < N * k" "y = ?f i" by auto
    have "tile m n (i mod (m * n)) \<in> words_below (unat m) \<times> words_below (unat n)"
      using bij_betw_apply [OF bij] below by simp
    moreover have "unat (i div (m * n)) < k" using i by (simp add: unat_div mn less_mult_imp_div_less mult.commute)
    ultimately show "y \<in> (words_below (unat m) \<times> words_below (unat n)) \<times> words_below k" using i by simp
  next
    fix y assume "y \<in> (words_below (unat m) \<times> words_below (unat n)) \<times> words_below k"
    then obtain x c where y: "y = (x, c)" "x \<in> words_below (unat m) \<times> words_below (unat n)" "unat c < k" by auto
    then obtain r where r: "unat r < N" "tile m n r = x"
      using bij_betw_imp_surj_on [OF bij] by (metis (no_types, lifting) imageE mem_Collect_eq)
    define i :: u32 where "i = of_nat (unat c * N + unat r)"
    have lt: "unat c * N + unat r < N * k"
    proof -
      have "unat c * N + unat r < Suc (unat c) * N" using r by simp
      also have "\<dots> \<le> k * N" using y(3) by (intro mult_right_mono) auto
      finally show ?thesis by (simp add: mult.commute)
    qed
    then have ui: "unat i = unat c * N + unat r" using N(3) unfolding i_def by (intro unat_of_nat_small) simp
    have "i mod (m * n) = r" "i div (m * n) = c"
      using r by (simp_all add: word_unat_eq_iff unat_mod unat_div ui mn digits2)
    then show "y \<in> ?f ` words_below (N * k)" using y r lt ui by (intro image_eqI [of _ _ i]) auto
  qed
  ultimately show ?thesis by (simp add: bij_betw_def N_def)
qed (auto simp: bij_betw_def)

end

text \<open>The sizes each order supports: the swizzled ones need their step to divide the other dimension.\<close>

definition order_supports :: "global_order \<Rightarrow> u32 \<Rightarrow> u32 \<Rightarrow> bool" where
  "order_supports order m n \<longleftrightarrow> unat m * unat n < 2 ^ 32 \<and>
     (case order of
        SwizzleRowMajor w \<Rightarrow> 0 < w \<and> w < 2 ^ 32 \<and> w dvd unat m
      | SwizzleColMajor w \<Rightarrow> 0 < w \<and> w < 2 ^ 32 \<and> w dvd unat n
      | _ \<Rightarrow> True)"

lemma word_bij_of_nat_bij:
  fixes f :: "u32 \<Rightarrow> u32 \<times> u32"
  assumes g: "bij_betw g {..< N} ({..< a} \<times> {..< b})" and N: "N \<le> 2 ^ 32"
    and fg: "\<And>i. unat i < N \<Longrightarrow> map_prod unat unat (f i) = g (unat i)"
  shows "bij_betw f (words_below N) (words_below a \<times> words_below b)"
proof -
  have "inj_on f (words_below N)"
  proof (rule inj_onI)
    fix i j assume ij: "i \<in> words_below N" "j \<in> words_below N" "f i = f j"
    then have "g (unat i) = g (unat j)" using fg [of i] fg [of j] by simp
    then have "unat i = unat j" using inj_onD [OF bij_betw_imp_inj_on [OF g]] ij by simp
    then show "i = j" by (simp add: word_unat_eq_iff)
  qed
  moreover have "f ` words_below N = words_below a \<times> words_below b"
  proof (intro equalityI subsetI)
    fix y assume "y \<in> f ` words_below N"
    then obtain i where i: "unat i < N" "y = f i" by auto
    then have "map_prod unat unat y \<in> {..< a} \<times> {..< b}" 
      using fg [OF i(1)] bij_betw_apply [OF g, of "unat i"] by simp
    then show "y \<in> words_below a \<times> words_below b" by (cases y) simp
  next
    fix y assume "y \<in> words_below a \<times> words_below b"
    then have "map_prod unat unat y \<in> {..< a} \<times> {..< b}" by (cases y) simp
    then have "map_prod unat unat y \<in> g ` {..< N}" by (simp only: bij_betw_imp_surj_on [OF g])
    then obtain i where i: "i < N" "g i = map_prod unat unat y" by (elim imageE) simp
    then have "unat (of_nat i :: u32) = i" using N by (intro unat_of_nat_small) simp
    then have "map_prod unat unat (f (of_nat i)) = map_prod unat unat y" using fg [of "of_nat i"] i by simp
    then have "f (of_nat i) = y" by (cases "f (of_nat i)"; cases y) (simp add: word_unat_eq_iff)
    then show "y \<in> f ` words_below N" using i \<open>unat (of_nat i :: u32) = i\<close> by (intro image_eqI [of _ _ "of_nat i"]) auto
  qed
  ultimately show ?thesis by (simp add: bij_betw_def)
qed

lemma row_major_bij: "bij_betw (\<lambda>i. (i div n, i mod n)) {..< m * n} ({..< m} \<times> {..< n})" for m n :: nat
proof (rule bij_betw_byWitness [where f' = "\<lambda>(a, b). a * n + b"])
  show "(\<lambda>i. (i div n, i mod n)) ` {..< m * n} \<subseteq> {..< m} \<times> {..< n}"
    by (auto simp: less_mult_imp_div_less intro!: mod_less_divisor gr0I)
  have "a * n + b < m * n" if "a < m" "b < n" for a b
  proof -
    have "a * n + b < Suc a * n" using that by simp
    also have "\<dots> \<le> m * n" using that by (intro mult_right_mono) auto
    finally show ?thesis .
  qed
  then show "(\<lambda>(a, b). a * n + b) ` ({..< m} \<times> {..< n}) \<subseteq> {..< m * n}" by auto
qed auto

lemma bij_swap: "bij_betw f A (B \<times> C) \<Longrightarrow> bij_betw (\<lambda>i. prod.swap (f i)) A (C \<times> B)"
  by (rule bij_betw_trans [unfolded comp_def]) (auto simp: bij_betw_def inj_on_def image_iff)

lemma swizzle_bij:
  assumes "unat steps * unat other < 2 ^ 32" "0 < w" "w < 2 ^ 32" "w dvd unat other"
  shows "bij_betw (\<lambda>i. swizzle i steps (of_nat w)) (words_below (unat steps * unat other))
    (words_below (unat steps) \<times> words_below (unat other))"
proof (cases "unat steps = 0")
  case False
  obtain k where k: "unat other = w * k" using assms(4) by (auto simp: dvd_def)
  have w: "unat (of_nat w :: u32) = w" using assms(3) by (intro unat_of_nat_small) simp
  have "map_prod unat unat (swizzle i steps (of_nat w)) = zigzag (unat steps) w (unat i)"
    if "unat i < unat steps * (w * k)" for i
    using swizzle_zigzag [of steps "of_nat w" i k] that assms False w k
    by (cases "swizzle i steps (of_nat w)"; cases "zigzag (unat steps) w (unat i)") simp
  then show ?thesis
    using zigzag_bij [of "unat steps" w k] False assms k by (intro word_bij_of_nat_bij) simp_all
qed (simp add: bij_betw_def)

lemma matrix_pos_bij:
  assumes "order_supports order m n"
  shows "bij_betw (matrix_pos_to_m_n order m n) (words_below (unat m * unat n)) (words_below (unat m) \<times> words_below (unat n))"
proof (cases order)
  case RowMajorO
  have "map_prod unat unat (matrix_pos_to_m_n order m n i) = (unat i div unat n, unat i mod unat n)" for i
    by (simp add: matrix_pos_to_m_n_def RowMajorO unat_div unat_mod)
  then show ?thesis
    using assms row_major_bij by (intro word_bij_of_nat_bij) (auto simp: order_supports_def)
next
  case ColMajorO
  have "map_prod unat unat (matrix_pos_to_m_n order m n i) = prod.swap (unat i div unat m, unat i mod unat m)" for i
    by (simp add: matrix_pos_to_m_n_def ColMajorO unat_div unat_mod)
  then show ?thesis
    using assms bij_swap [OF row_major_bij [of "unat m" "unat n"]]
    by (intro word_bij_of_nat_bij [where g = "\<lambda>i. prod.swap (i div unat m, i mod unat m)"])
       (auto simp: order_supports_def mult.commute)
next
  case (SwizzleRowMajor w)
  have "matrix_pos_to_m_n order m n = (\<lambda>i. prod.swap (swizzle i n (of_nat w)))"
    by (rule ext) (simp add: matrix_pos_to_m_n_def SwizzleRowMajor prod.swap_def case_prod_beta)
  then show ?thesis
    using assms bij_swap [OF swizzle_bij [of n m w]] SwizzleRowMajor by (simp add: order_supports_def mult.commute)
next
  case (SwizzleColMajor w)
  have "matrix_pos_to_m_n order m n = (\<lambda>i. swizzle i m (of_nat w))"
    by (rule ext) (simp add: matrix_pos_to_m_n_def SwizzleColMajor)
  then show ?thesis
    using assms swizzle_bij [of m n w] SwizzleColMajor by (simp add: order_supports_def)
qed

interpretation global_order: tile_order "order_supports order" "matrix_pos_to_m_n order" for order
  by unfold_locales (rule matrix_pos_bij)

text \<open>What every cube of a grid relies on.\<close>

lemma absolute_index_bij:
  assumes "order_supports order m n" "unat m * unat n * k < 2 ^ 32"
  shows "bij_betw (\<lambda>i. absolute_index_to_m_n_batch i m n order) (words_below (unat m * unat n * k))
    (words_below (unat m) \<times> words_below (unat n) \<times> words_below k)"
proof -
  have "bij_betw (\<lambda>((a, b), c). (a, b, c)) ((A \<times> B) \<times> C) (A \<times> B \<times> C)" for A B C :: "u32 set"
    by (auto simp: bij_betw_def inj_on_def image_iff)
  from bij_betw_trans [OF global_order.batched_bij [OF assms] this] show ?thesis
    by (simp add: absolute_index_to_m_n_batch_def comp_def Let_def case_prod_beta)
qed

end
