(* ===== verification/Matmul_Hypercube.thy ===== *)
theory Matmul_Hypercube
  imports Matmul_Order
begin

text \<open>
  The grid of cubes a matrix multiplication is launched with:
  \<open>cubecl-matmul/src/components/batch/partitioned_matmul/hypercube\<close> (\<open>sm_allocation.rs\<close>,
  \<open>cube_count_plan.rs\<close>, \<open>base.rs\<close>), the guard of \<open>batch/entry_point.rs\<close> and the problem's dimensions
  (\<open>problem.rs\<close>). The host chooses a plan with checked arithmetic; each cube then finds its tile from
  its position in the grid.
\<close>

section \<open>The problem\<close>

datatype problem_layout = RowMajorL | ColMajorL

record matmul_problem =
  mp_m :: nat
  mp_n :: nat
  mp_k :: nat
  mp_lhs_batches :: "nat list"
  mp_rhs_batches :: "nat list"
  mp_lhs_layout :: problem_layout
  mp_rhs_layout :: problem_layout

definition output_batch_dims :: "matmul_problem \<Rightarrow> nat list" where
  "output_batch_dims p = map (\<lambda>(l, r). max l r) (zip (rev (mp_lhs_batches p)) (rev (mp_rhs_batches p)))"

definition num_batches :: "matmul_problem \<Rightarrow> nat exec" where
  "num_batches p = productE (output_batch_dims p)"

datatype matmul_ident = Lhs | Rhs | Out

definition problem_shape :: "matmul_problem \<Rightarrow> matmul_ident \<Rightarrow> nat list" where
  "problem_shape p ident =
     (case ident of
        Lhs \<Rightarrow> mp_lhs_batches p @ [mp_m p, mp_k p]
      | Rhs \<Rightarrow> mp_rhs_batches p @ [mp_k p, mp_n p]
      | Out \<Rightarrow> output_batch_dims p @ [mp_m p, mp_n p])"

text \<open>\<open>as u32\<close>.\<close>

definition to_u32 :: "nat \<Rightarrow> nat" where
  "to_u32 n = n mod 2 ^ 32"

section \<open>Allocation of cubes to multiprocessors\<close>

datatype sm_allocation = Exact | Full | Ratio nat nat

definition divisors_body :: "nat \<Rightarrow> nat \<times> nat list \<Rightarrow> ((nat \<times> nat list) + nat list) exec" where
  "divisors_body n = (\<lambda>(i, divs).
     bindE (mul_u32 i i) (\<lambda>sq.
     if sq \<le> n
     then let divs = (if n mod i = 0 then (if i \<noteq> n div i then divs @ [i, n div i] else divs @ [i]) else divs)
          in bindE (add_u32 i 1) (\<lambda>i. Ret (Inl (i, divs)))
     else Ret (Inr divs)))"

definition divisors_desc :: "nat \<Rightarrow> nat list exec" where
  "divisors_desc n = bindE (loop (divisors_body n) (1, [])) (\<lambda>divs. Ret (rev (sort divs)))"

definition allocate_body ::
  "nat \<Rightarrow> nat \<Rightarrow> nat \<times> nat \<Rightarrow> nat \<Rightarrow> ((nat \<times> nat) + (nat \<times> nat)) exec" where
  "allocate_body total_cubes max_slack best sms_used =
     bindE (div_ceil_u32 total_cubes sms_used) (\<lambda>cubes_per_sm.
     bindE (mul_u32 cubes_per_sm sms_used) (\<lambda>total_allocated.
     let slack = total_allocated - total_cubes in
     if slack \<le> max_slack then Ret (Inr (sms_used, cubes_per_sm)) else Ret (Inl best)))"

definition allocate_ratio :: "nat \<Rightarrow> nat \<Rightarrow> nat \<Rightarrow> nat \<Rightarrow> (nat \<times> nat) exec" where
  "allocate_ratio max_extra_numerator max_extra_denominator num_sms total_cubes =
     bindE (div_ceil_u32 (min (num_sms * max_extra_numerator) (2 ^ 32 - 1)) max_extra_denominator) (\<lambda>max_slack.
     bindE (div_ceil_u32 total_cubes num_sms) (\<lambda>fallback_cubes_per_sm.
     bindE (divisors_desc num_sms) (\<lambda>divs.
     bindE (for_each divs (allocate_body total_cubes max_slack) (num_sms, fallback_cubes_per_sm)) (\<lambda>r.
     case r of Inl best \<Rightarrow> Ret best | Inr best \<Rightarrow> Ret best))))"

definition allocate :: "sm_allocation \<Rightarrow> nat \<Rightarrow> nat \<Rightarrow> (nat \<times> nat) exec" where
  "allocate self num_sms total_cubes =
     (case self of
        Exact \<Rightarrow> allocate_ratio 0 1 num_sms total_cubes
      | Full \<Rightarrow> allocate_ratio (2 ^ 32 - 1) 1 num_sms total_cubes
      | Ratio n d \<Rightarrow> allocate_ratio n d num_sms total_cubes)"

section \<open>Plans\<close>

datatype cube_count_plan_selection =
    FromProblemS
  | SmS bool nat sm_allocation
  | FlattenedS
  | SpreadS

datatype cube_count_plan =
    FromProblem (cp_m: nat) (cp_n: nat) (cp_batch: nat)
  | Sm (cp_cubes_first: bool) (cp_num_sms_used: nat) (cp_cubes_per_sm: nat) (cp_m: nat) (cp_n: nat) (cp_batch: nat)
      (cp_num_sms: nat) (cp_sm_usage: sm_allocation)
  | Flattened (cp_m: nat) (cp_n: nat) (cp_batch: nat)
  | Spread (cp_m: nat) (cp_n: nat) (cp_batch: nat) (cp_x: nat) (cp_y: nat) (cp_z: nat)

datatype cube_count_plan_config =
    FromProblemC
  | SmC bool nat sm_allocation bool
  | FlattenedC
  | SpreadC bool

record hypercube_selection =
  hs_cube_span :: cube_span
  hs_global_order :: global_order
  hs_plan_selection :: cube_count_plan_selection

record hypercube_config =
  hc_cube_span :: cube_span
  hc_global_order :: global_order
  hc_plan_config :: cube_count_plan_config

definition mul3_u32 :: "nat \<Rightarrow> nat \<Rightarrow> nat \<Rightarrow> nat exec" where
  "mul3_u32 a b c = bindE (mul_u32 a b) (\<lambda>ab. mul_u32 ab c)"

definition can_yield_extra_cubes :: "cube_count_plan \<Rightarrow> bool exec" where
  "can_yield_extra_cubes plan =
     (case plan of
        FromProblem _ _ _ \<Rightarrow> Ret False
      | Flattened _ _ _ \<Rightarrow> Ret False
      | Sm _ sms cubes m n b _ _ \<Rightarrow>
          bindE (mul_u32 sms cubes) (\<lambda>a. bindE (mul3_u32 m n b) (\<lambda>t. Ret (a \<noteq> t)))
      | Spread m n b x y z \<Rightarrow> bindE (mul3_u32 m n b) (\<lambda>t. bindE (mul3_u32 x y z) (\<lambda>v. Ret (t \<noteq> v))))"

definition config_can_yield_extra_cubes :: "cube_count_plan_config \<Rightarrow> bool" where
  "config_can_yield_extra_cubes c =
     (case c of FromProblemC \<Rightarrow> False | FlattenedC \<Rightarrow> False | SmC _ _ _ e \<Rightarrow> e | SpreadC e \<Rightarrow> e)"

definition from_cube_count_plan :: "cube_count_plan \<Rightarrow> cube_count_plan_config exec" where
  "from_cube_count_plan plan =
     (case plan of
        FromProblem _ _ _ \<Rightarrow> Ret FromProblemC
      | Sm cubes_first _ _ _ _ _ num_sms sm_usage \<Rightarrow>
          bindE (can_yield_extra_cubes plan) (\<lambda>e. Ret (SmC cubes_first num_sms sm_usage e))
      | Flattened _ _ _ \<Rightarrow> Ret FlattenedC
      | Spread _ _ _ _ _ _ \<Rightarrow> bindE (can_yield_extra_cubes plan) (\<lambda>e. Ret (SpreadC e)))"

text \<open>The best grid so far: its dimensions and volume. Scores are ordered by the volume, then the
  larger \<open>z\<close>, then the larger \<open>y\<close>.\<close>

type_synonym spread_best = "(nat \<times> nat \<times> nat \<times> nat) option"

definition better :: "nat \<Rightarrow> nat \<Rightarrow> nat \<Rightarrow> spread_best \<Rightarrow> bool" where
  "better volume z y best =
     (case best of
        None \<Rightarrow> True
      | Some (_, by, bz, bvolume) \<Rightarrow>
          volume < bvolume \<or> volume = bvolume \<and> (bz < z \<or> z = bz \<and> by < y))"

function spread_y :: "nat \<Rightarrow> nat \<Rightarrow> nat \<Rightarrow> nat \<Rightarrow> spread_best \<Rightarrow> spread_best exec" where
  "spread_y xy_cubes max_x z y best =
     (if 1 \<le> y then
        bindE (div_ceil_u32 xy_cubes y) (\<lambda>x.
        bindE (if x \<le> max_x
               then bindE (mul3_u32 x y z) (\<lambda>volume.
                    Ret (if better volume z y best then Some (x, y, z, volume) else best))
               else Ret best) (\<lambda>best.
        if y = 1 then Ret best else spread_y xy_cubes max_x z (y div 2) best))
      else Ret best)"
  by pat_completeness auto
termination by (relation "measure (\<lambda>(_, _, _, y, _). y)") auto

function spread_z :: "nat \<Rightarrow> nat \<Rightarrow> nat \<Rightarrow> nat \<Rightarrow> spread_best \<Rightarrow> spread_best exec" where
  "spread_z total_cubes max_x max_y z best =
     (if 1 \<le> z then
        bindE (div_ceil_u32 total_cubes z) (\<lambda>xy_cubes.
        bindE (spread_y xy_cubes max_x z max_y best) (\<lambda>best.
        if z = 1 then Ret best else spread_z total_cubes max_x max_y (z div 2) best))
      else Ret best)"
  by pat_completeness auto
termination by (relation "measure (\<lambda>(_, _, _, z, _). z)") auto

declare spread_y.simps [simp del] spread_z.simps [simp del]

definition spread_cube_count_plan :: "nat \<Rightarrow> nat \<Rightarrow> nat \<Rightarrow> nat \<Rightarrow> nat \<Rightarrow> nat \<Rightarrow> cube_count_plan exec" where
  "spread_cube_count_plan m_cubes n_cubes batch_cubes max_x max_y max_z =
     bindE (mul3_u32 m_cubes n_cubes batch_cubes) (\<lambda>total_cubes.
     bindE (spread_z total_cubes max_x max_y max_z None) (\<lambda>best.
     case best of
       Some (x, y, z, _) \<Rightarrow> Ret (Spread m_cubes n_cubes batch_cubes x y z)
     | None \<Rightarrow> Panic (Explicit ''No valid cube spread plan'')))"

datatype cube_count = Static nat nat nat | Dynamic

definition static_max :: "cube_count \<Rightarrow> (nat \<times> nat \<times> nat) exec" where
  "static_max c =
     (case c of
        Static x y z \<Rightarrow> Ret (x, y, z)
      | Dynamic \<Rightarrow> Panic (Explicit ''Dynamic cube count not supported for cube count plan''))"

definition cubes_of :: "cube_span \<Rightarrow> matmul_problem \<Rightarrow> (nat \<times> nat \<times> nat) exec" where
  "cubes_of sp problem =
     bindE (div_ceil_u32 (to_u32 (mp_m problem)) (cs_m sp)) (\<lambda>m_cubes.
     bindE (div_ceil_u32 (to_u32 (mp_n problem)) (cs_n sp)) (\<lambda>n_cubes.
     bindE (num_batches problem) (\<lambda>batches.
     bindE (div_ceil_u32 (to_u32 batches) (cs_batch sp)) (\<lambda>batch_cubes.
     Ret (m_cubes, n_cubes, batch_cubes)))))"

definition from_selection :: "hypercube_selection \<Rightarrow> matmul_problem \<Rightarrow> cube_count \<Rightarrow> cube_count_plan exec" where
  "from_selection selection problem max_cube_count =
     bindE (static_max max_cube_count) (\<lambda>(max_x, max_y, max_z).
     bindE (cubes_of (hs_cube_span selection) problem) (\<lambda>(m_cubes, n_cubes, batch_cubes).
     bindE (case hs_plan_selection selection of
         FromProblemS \<Rightarrow>
           Ret (if m_cubes > max_x \<or> n_cubes > max_y \<or> batch_cubes > max_z then None
                else Some (FromProblem m_cubes n_cubes batch_cubes))
       | SmS cubes_first num_sms sm_usage \<Rightarrow>
           bindE (mul3_u32 m_cubes n_cubes batch_cubes) (\<lambda>total.
           bindE (allocate sm_usage num_sms total) (\<lambda>(num_sms_used, cubes_per_sm).
           Ret (if cubes_per_sm \<ge> (if cubes_first then max_x else max_y)
                 \<or> num_sms_used \<ge> (if cubes_first then max_y else max_x) then None
                else Some (Sm cubes_first num_sms_used cubes_per_sm m_cubes n_cubes batch_cubes num_sms sm_usage))))
       | FlattenedS \<Rightarrow>
           bindE (mul3_u32 m_cubes n_cubes batch_cubes) (\<lambda>total.
           Ret (if total \<ge> max_x then None else Some (Flattened m_cubes n_cubes batch_cubes)))
       | SpreadS \<Rightarrow> Ret None) (\<lambda>plan.
     case plan of
       Some plan \<Rightarrow> Ret plan
     | None \<Rightarrow> spread_cube_count_plan m_cubes n_cubes batch_cubes max_x max_y max_z)))"

definition from_config :: "hypercube_config \<Rightarrow> matmul_problem \<Rightarrow> cube_count \<Rightarrow> cube_count_plan exec" where
  "from_config config problem max_cube_count =
     bindE (static_max max_cube_count) (\<lambda>(max_x, max_y, max_z).
     bindE (cubes_of (hc_cube_span config) problem) (\<lambda>(m_cubes, n_cubes, batch_cubes).
     case hc_plan_config config of
       FromProblemC \<Rightarrow> Ret (FromProblem m_cubes n_cubes batch_cubes)
     | SmC cubes_first num_sms sm_usage _ \<Rightarrow>
         bindE (mul3_u32 m_cubes n_cubes batch_cubes) (\<lambda>total.
         bindE (allocate sm_usage num_sms total) (\<lambda>(num_sms_used, cubes_per_sm).
         Ret (Sm cubes_first num_sms_used cubes_per_sm m_cubes n_cubes batch_cubes num_sms sm_usage)))
     | FlattenedC \<Rightarrow> Ret (Flattened m_cubes n_cubes batch_cubes)
     | SpreadC _ \<Rightarrow> spread_cube_count_plan m_cubes n_cubes batch_cubes max_x max_y max_z))"

definition to_hypercube_config :: "hypercube_selection \<Rightarrow> matmul_problem \<Rightarrow> cube_count \<Rightarrow> hypercube_config exec" where
  "to_hypercube_config self problem max_cube_count =
     bindE (from_selection self problem max_cube_count) (\<lambda>plan.
     bindE (from_cube_count_plan plan) (\<lambda>plan_config.
     Ret \<lparr>hc_cube_span = hs_cube_span self, hc_global_order = hs_global_order self, hc_plan_config = plan_config\<rparr>))"

text \<open>\<open>Some\<close> of the message is an error.\<close>

definition validate :: "hypercube_config \<Rightarrow> matmul_problem \<Rightarrow> string option exec" where
  "validate self problem =
     bindE (div_ceil_u32 (to_u32 (mp_m problem)) (cs_m (hc_cube_span self))) (\<lambda>m_cubes.
     bindE (div_ceil_u32 (to_u32 (mp_n problem)) (cs_n (hc_cube_span self))) (\<lambda>n_cubes.
     case hc_global_order self of
       RowMajorO \<Rightarrow> Ret None
     | ColMajorO \<Rightarrow> Ret None
     | SwizzleRowMajor w \<Rightarrow> bindE (rem_u32 m_cubes w) (\<lambda>r. Ret (if r \<noteq> 0 then Some ''InvalidConfig'' else None))
     | SwizzleColMajor w \<Rightarrow> bindE (rem_u32 n_cubes w) (\<lambda>r. Ret (if r \<noteq> 0 then Some ''InvalidConfig'' else None))))"

definition resolve :: "cube_count_plan \<Rightarrow> cube_count exec" where
  "resolve plan =
     (case plan of
        FromProblem m n b \<Rightarrow> Ret (Static m n b)
      | Sm cubes_first sms cubes _ _ _ _ _ \<Rightarrow> Ret (if cubes_first then Static cubes sms 1 else Static sms cubes 1)
      | Flattened m n b \<Rightarrow> bindE (mul3_u32 m n b) (\<lambda>t. Ret (Static t 1 1))
      | Spread _ _ _ x y z \<Rightarrow> Ret (Static x y z))"

section \<open>The kernel\<close>

datatype cube_count_input =
    FromProblemI
  | SmFirst u32 u32 u32
  | CubeFirst u32 u32 u32
  | FlattenedI u32 u32
  | SpreadI u32 u32 u32

definition as_args :: "cube_count_plan \<Rightarrow> cube_count_input" where
  "as_args plan =
     (case plan of
        FromProblem _ _ _ \<Rightarrow> FromProblemI
      | Sm cubes_first _ _ m n b _ _ \<Rightarrow>
          if cubes_first then CubeFirst (of_nat m) (of_nat n) (of_nat b) else SmFirst (of_nat m) (of_nat n) (of_nat b)
      | Flattened m n _ \<Rightarrow> FlattenedI (of_nat m) (of_nat n)
      | Spread m n b _ _ _ \<Rightarrow> SpreadI (of_nat m) (of_nat n) (of_nat b))"

text \<open>Where a cube is in its grid: \<open>CUBE_POS_X\<close>, \<open>CUBE_POS_Y\<close>, \<open>CUBE_POS_Z\<close> and the grid's size.\<close>

record topology =
  cube_pos_x :: u32
  cube_pos_y :: u32
  cube_pos_z :: u32
  cube_count_x :: u32
  cube_count_y :: u32

definition cube_pos :: "topology \<Rightarrow> u32" where
  "cube_pos t = cube_pos_z t * cube_count_y t * cube_count_x t + cube_pos_y t * cube_count_x t + cube_pos_x t"

definition num_valid_cubes :: "cube_count_input \<Rightarrow> u32 exec" where
  "num_valid_cubes self =
     (case self of
        FromProblemI \<Rightarrow> Panic (Explicit ''Shouldn't need to be called because the cube count should always be exact'')
      | FlattenedI _ _ \<Rightarrow> Panic (Explicit ''Shouldn't need to be called because the cube count should always be exact'')
      | SmFirst m n b \<Rightarrow> Ret (m * n * b)
      | CubeFirst m n b \<Rightarrow> Ret (m * n * b)
      | SpreadI m n b \<Rightarrow> Ret (m * n * b))"

definition cube_pos_to_tensor_pos :: "cube_count_input \<Rightarrow> topology \<Rightarrow> global_order \<Rightarrow> u32 \<times> u32 \<times> u32" where
  "cube_pos_to_tensor_pos self t order =
     (case self of
        FromProblemI \<Rightarrow> (cube_pos_x t, cube_pos_y t, cube_pos_z t)
      | SmFirst m n _ \<Rightarrow> absolute_index_to_m_n_batch (cube_pos t) m n order
      | CubeFirst m n _ \<Rightarrow> absolute_index_to_m_n_batch (cube_pos_y t * cube_count_x t + cube_pos_x t) m n order
      | FlattenedI m n \<Rightarrow> absolute_index_to_m_n_batch (cube_pos_x t) m n order
      | SpreadI m n _ \<Rightarrow> absolute_index_to_m_n_batch (cube_pos t) m n order)"

text \<open>The guard at the start of the kernel: \<open>None\<close> terminates the cube.\<close>

definition matmul_entry ::
  "hypercube_config \<Rightarrow> cube_count_input \<Rightarrow> topology \<Rightarrow> (u32 \<times> u32 \<times> u32) option exec" where
  "matmul_entry config args t =
     bindE (if config_can_yield_extra_cubes (hc_plan_config config)
            then bindE (num_valid_cubes args) (\<lambda>n. Ret (n \<le> cube_pos t))
            else Ret False) (\<lambda>terminated.
     Ret (if terminated then None else Some (cube_pos_to_tensor_pos args t (hc_global_order config))))"

section \<open>Enough cubes\<close>

lemma div_ceil_wp [simp, wp_simps]:
  "returns (div_ceil_u32 a b) Q \<longleftrightarrow> b \<noteq> 0 \<and> Q ((a + b - 1) div b)"
  "on_return (div_ceil_u32 a b) Q \<longleftrightarrow> (b \<noteq> 0 \<longrightarrow> Q ((a + b - 1) div b))"
  by (auto simp: div_ceil_u32_def)

lemma mul3_wp [simp, wp_simps]:
  "on_return (mul3_u32 a b c) Q \<longleftrightarrow> (a * b < 2 ^ 32 \<and> a * b * c < 2 ^ 32 \<longrightarrow> Q (a * b * c))"
  by (auto simp: mul3_u32_def)

lemma div_ceil_enough: "b \<noteq> 0 \<Longrightarrow> a \<le> (a + b - 1) div b * b" for a b :: nat
proof -
  assume "b \<noteq> 0"
  have "a + b - 1 < ((a + b - 1) div b) * b + b"
    using \<open>b \<noteq> 0\<close> mod_less_divisor [of b "a + b - 1"] div_mult_mod_eq [of "a + b - 1" b] by linarith
  then show ?thesis using \<open>b \<noteq> 0\<close> by simp
qed

lemma div_ceil_enough': "0 < b \<Longrightarrow> a \<le> b * ((a + b - Suc 0) div b)" "0 < b \<Longrightarrow> a \<le> (a + b - Suc 0) div b * b"
  for a b :: nat
  using div_ceil_enough [of b a] by (simp_all add: mult.commute)

lemma for_each_on_return:
  assumes "I s"
    and "\<And>s i. i \<in> set is \<Longrightarrow> I s \<Longrightarrow> on_return (body s i) (\<lambda>x. case x of Inl s' \<Rightarrow> I s' | Inr r \<Rightarrow> Q r)"
  shows "on_return (for_each is body s) (\<lambda>x. case x of Inl s' \<Rightarrow> I s' | Inr r \<Rightarrow> Q r)"
  using assms
proof (induction "is" arbitrary: s)
  case (Cons i "is")
  have "on_return (body s i) (\<lambda>x. case x of Inl s' \<Rightarrow> I s' | Inr r \<Rightarrow> Q r)" using Cons.prems by simp
  moreover have "on_return (for_each is body s') (\<lambda>x. case x of Inl s' \<Rightarrow> I s' | Inr r \<Rightarrow> Q r)" if "I s'" for s'
    using Cons that by simp
  note calculation = calculation this
  show ?case
  proof (cases "body s i")
    case (Ret x)
    with calculation show ?thesis by (cases x) auto
  qed auto
qed simp

lemma allocate_enough: "on_return (allocate a num_sms tc) (\<lambda>(s, c). tc \<le> s * c)"
proof -
  let ?Q = "\<lambda>(s, c). tc \<le> s * c"
  have "on_return (for_each divs (allocate_body tc max_slack) (num_sms, (tc + num_sms - 1) div num_sms))
    (\<lambda>r. on_return (case r of Inl best \<Rightarrow> Ret best | Inr best \<Rightarrow> Ret best) ?Q)" if "num_sms \<noteq> 0" for divs max_slack
  proof (rule on_return_mono)
    show "on_return (for_each divs (allocate_body tc max_slack) (num_sms, (tc + num_sms - 1) div num_sms))
      (\<lambda>x. case x of Inl best \<Rightarrow> ?Q best | Inr best \<Rightarrow> ?Q best)"
      using that by (intro for_each_on_return) (auto simp: allocate_body_def Let_def div_ceil_enough')
  qed (auto split: sum.splits)
  then have "on_return (allocate_ratio n d num_sms tc) ?Q" for n d
    unfolding allocate_ratio_def on_return_bindE div_ceil_wp
    by (auto intro: on_return_mono [OF on_return_True])
  then show ?thesis by (cases a) (simp_all add: allocate_def)
qed

section \<open>Spreading\<close>

text \<open>What the search keeps of the best grid so far.\<close>

definition best_ok :: "nat \<Rightarrow> nat \<Rightarrow> nat \<Rightarrow> nat \<Rightarrow> spread_best \<Rightarrow> bool" where
  "best_ok tc max_x max_y max_z best =
     (case best of
        None \<Rightarrow> True
      | Some (x, y, z, v) \<Rightarrow> x \<le> max_x \<and> y \<le> max_y \<and> z \<le> max_z \<and> tc \<le> x * y * z \<and> v = x * y * z \<and> v < 2 ^ 32)"

lemma spread_y_ok:
  assumes "best_ok tc max_x max_y max_z best" "y \<le> max_y" "z \<le> max_z" "tc \<le> xy * z"
  shows "on_return (spread_y xy max_x z y best) (best_ok tc max_x max_y max_z)"
  using assms
proof (induction xy max_x z y best rule: spread_y.induct)
  case (1 xy max_x z y best)
  let ?x = "(xy + y - 1) div y"
  have "tc \<le> ?x * y * z" if "1 \<le> y"
  proof -
    have "xy \<le> ?x * y" using that div_ceil_enough [of y xy] by simp
    then have "xy * z \<le> ?x * y * z" by (rule mult_right_mono) simp
    with "1.prems"(4) show ?thesis by (rule order_trans)
  qed
  then have "best_ok tc max_x max_y max_z (Some (?x, y, z, ?x * y * z))"
    if "1 \<le> y" "?x \<le> max_x" "?x * y * z < 2 ^ 32"
    using that "1.prems" by (simp add: best_ok_def)
  then show ?case
    using "1.prems" "1.IH" by (subst spread_y.simps) auto
qed

lemma spread_z_ok:
  assumes "best_ok tc max_x max_y max_z best" "z \<le> max_z"
  shows "on_return (spread_z tc max_x max_y z best) (best_ok tc max_x max_y max_z)"
  using assms
proof (induction tc max_x max_y z best rule: spread_z.induct)
  case (1 tc max_x max_y z best)
  have "on_return (spread_y ((tc + z - 1) div z) max_x z max_y best) (best_ok tc max_x max_y max_z)" if "1 \<le> z"
    using "1.prems" that div_ceil_enough [of z tc] by (intro spread_y_ok) simp_all
  moreover have "on_return (spread_z tc max_x max_y (z div 2) b) (best_ok tc max_x max_y max_z)"
    if "1 \<le> z" "z \<noteq> 1" "best_ok tc max_x max_y max_z b" for b
    using "1.IH" [OF that(1,2)] "1.prems"(2) that(3) by simp
  ultimately have "on_return (spread_y ((tc + z - 1) div z) max_x z max_y best)
      (\<lambda>b. on_return (if z = 1 then Ret b else spread_z tc max_x max_y (z div 2) b) (best_ok tc max_x max_y max_z))"
    if "1 \<le> z"
    using that by (auto elim!: on_return_mono)
  then show ?case
    using "1.prems"(1) by (subst spread_z.simps) simp
qed

section \<open>The plans a selection can give\<close>

lemma mul3_Ret: "mul3_u32 a b c = Ret t \<longleftrightarrow> a * b < 2 ^ 32 \<and> a * b * c < 2 ^ 32 \<and> t = a * b * c"
  by (auto simp: mul3_u32_def mul_u32_def bindE_eq_Ret)

lemma spread_plan_Ret:
  assumes "spread_cube_count_plan m n b max_x max_y max_z = Ret plan"
  obtains x y z where "plan = Spread m n b x y z" "x \<le> max_x" "y \<le> max_y" "z \<le> max_z"
    "m * n * b \<le> x * y * z" "x * y * z < 2 ^ 32" "m * n * b < 2 ^ 32" "m * n < 2 ^ 32"
proof -
  have none: "best_ok tc max_x max_y max_z None" for tc by (simp add: best_ok_def)
  from assms obtain tc best where tc: "mul3_u32 m n b = Ret tc"
    and best: "spread_z tc max_x max_y max_z None = Ret best"
    and plan: "(case best of Some (x, y, z, _) \<Rightarrow> Ret (Spread m n b x y z)
       | None \<Rightarrow> Panic (Explicit ''No valid cube spread plan'')) = Ret plan"
    by (auto simp: spread_cube_count_plan_def bindE_eq_Ret)
  have "on_return (spread_z tc max_x max_y max_z None) (best_ok tc max_x max_y max_z)"
    using none by (rule spread_z_ok) simp
  with best have "best_ok tc max_x max_y max_z best" by simp
  with plan tc that show ?thesis
    by (cases best) (auto simp: best_ok_def mul3_Ret)
qed

text \<open>The plan, its grid and what the kernel is told about it.\<close>

inductive plan_for :: "nat \<times> nat \<times> nat \<Rightarrow> nat \<times> nat \<times> nat \<Rightarrow> cube_count_plan \<Rightarrow> bool"
where
  problem: "m \<le> max_x \<Longrightarrow> n \<le> max_y \<Longrightarrow> b \<le> max_z \<Longrightarrow>
    plan_for (m, n, b) (max_x, max_y, max_z) (FromProblem m n b)"
| sm: "m * n < 2 ^ 32 \<Longrightarrow> m * n * b < 2 ^ 32 \<Longrightarrow> m * n * b \<le> s * c \<Longrightarrow>
    c < (if cf then max_x else max_y) \<Longrightarrow> s < (if cf then max_y else max_x) \<Longrightarrow>
    allocate u k (m * n * b) = Ret (s, c) \<Longrightarrow>
    plan_for (m, n, b) (max_x, max_y, max_z) (Sm cf s c m n b k u)"
| flattened: "m * n < 2 ^ 32 \<Longrightarrow> m * n * b < 2 ^ 32 \<Longrightarrow> m * n * b < max_x \<Longrightarrow>
    plan_for (m, n, b) (max_x, max_y, max_z) (Flattened m n b)"
| spread: "m * n < 2 ^ 32 \<Longrightarrow> m * n * b < 2 ^ 32 \<Longrightarrow> x \<le> max_x \<Longrightarrow> y \<le> max_y \<Longrightarrow> z \<le> max_z \<Longrightarrow>
    m * n * b \<le> x * y * z \<Longrightarrow> x * y * z < 2 ^ 32 \<Longrightarrow>
    spread_cube_count_plan m n b max_x max_y max_z = Ret (Spread m n b x y z) \<Longrightarrow>
    plan_for (m, n, b) (max_x, max_y, max_z) (Spread m n b x y z)"

lemma from_selection_plan:
  assumes "from_selection sel problem (Static max_x max_y max_z) = Ret plan"
  obtains m n b where "cubes_of (hs_cube_span sel) problem = Ret (m, n, b)"
    "plan_for (m, n, b) (max_x, max_y, max_z) plan"
proof -
  from assms obtain m n b where cubes: "cubes_of (hs_cube_span sel) problem = Ret (m, n, b)"
    by (auto simp: from_selection_def static_max_def bindE_eq_Ret)
  have spread: "plan_for (m, n, b) (max_x, max_y, max_z) p"
    if "spread_cube_count_plan m n b max_x max_y max_z = Ret p" for p
    using that by (rule spread_plan_Ret) (use that in \<open>auto intro: plan_for.spread\<close>)
  have "plan_for (m, n, b) (max_x, max_y, max_z) plan"
  proof (cases "hs_plan_selection sel")
    case FromProblemS
    then show ?thesis using assms cubes spread
      by (auto simp: from_selection_def static_max_def intro: plan_for.problem split: if_splits)
  next
    case (SmS cf k u)
    then obtain s c where sc: "allocate u k (m * n * b) = Ret (s, c)" "m * n < 2 ^ 32" "m * n * b < 2 ^ 32"
      and plan: "(case (if c \<ge> (if cf then max_x else max_y) \<or> s \<ge> (if cf then max_y else max_x) then None
                else Some (Sm cf s c m n b k u)) of Some plan \<Rightarrow> Ret plan
         | None \<Rightarrow> spread_cube_count_plan m n b max_x max_y max_z) = Ret plan"
      using assms cubes
      by (auto simp: from_selection_def static_max_def bindE_eq_Ret mul3_Ret simp del: if_split)
    have "m * n * b \<le> s * c" using allocate_enough [of u k "m * n * b"] sc by simp
    then show ?thesis using plan sc spread
      by (cases "c \<ge> (if cf then max_x else max_y) \<or> s \<ge> (if cf then max_y else max_x)")
         (auto simp: not_le intro: plan_for.sm)
  next
    case FlattenedS
    then show ?thesis using assms cubes spread
      by (auto simp: from_selection_def static_max_def bindE_eq_Ret mul3_Ret not_le intro: plan_for.flattened split: if_splits)
  next
    case SpreadS
    then show ?thesis using assms cubes spread by (auto simp: from_selection_def static_max_def)
  qed
  with cubes that show ?thesis by blast
qed

end
