(* ===== verification/Matmul_Plans.thy ===== *)
theory Matmul_Plans
  imports Matmul_Hypercube
begin

text \<open>
  How good the plans are: the allocation of cubes to multiprocessors takes the most multiprocessors
  whose waste is allowed, and spreading finds the smallest grid among the ones it looks at.
\<close>

section \<open>Divisors\<close>

text \<open>What the loop of \<open>divisors_desc\<close> has found when it looks at \<open>i\<close>.\<close>

definition small_divisors :: "nat \<Rightarrow> nat \<Rightarrow> nat set" where
  "small_divisors n i = {d. d dvd n \<and> (d < i \<or> n div d < i)}"

lemma small_divisors_step:
  assumes "0 < n" "0 < i" "i * i \<le> n"
  shows "small_divisors n (Suc i) = small_divisors n i \<union> (if i dvd n then {i, n div i} else {})"
proof -
  have "d = n div i \<and> i dvd n" if "d dvd n" "n div d = i" for d
  proof -
    have "n = i * d" using that by auto
    then show ?thesis using assms(2) by simp
  qed
  moreover have "n div i dvd n \<and> n div (n div i) = i" if "i dvd n"
  proof -
    obtain k where "n = i * k" using \<open>i dvd n\<close> by (auto simp: dvd_def)
    then show ?thesis using assms by simp
  qed
  ultimately show ?thesis
    by (auto simp: small_divisors_def less_Suc_eq)
qed

lemma small_divisors_all:
  assumes "0 < n" "n < i * i"
  shows "small_divisors n i = {d. d dvd n}"
proof -
  have "n div d < i" if "d dvd n" "\<not> d < i" for d
  proof (rule ccontr)
    assume "\<not> n div d < i"
    then have "i * i \<le> d * (n div d)" using that by (intro mult_mono) auto
    then show False using assms that by simp
  qed
  then show ?thesis by (auto simp: small_divisors_def)
qed

lemma divisors_desc_returns:
  assumes "0 < n" "n < 65535 ^ 2"
  shows "returns (divisors_desc n) (\<lambda>divs. set divs = {d. d dvd n} \<and> sorted_wrt (\<ge>) divs)"
proof -
  have "returns (loop (divisors_body n) (1, [])) (\<lambda>divs. set divs = {d. d dvd n})"
  proof (rule loop_returns [where I = "\<lambda>(i, divs). 0 < i \<and> i \<le> 65535 \<and> set divs = small_divisors n i"
      and m = "\<lambda>(i, _). 65536 - i"])
    fix s assume "case s of (i, divs) \<Rightarrow> 0 < i \<and> i \<le> 65535 \<and> set divs = small_divisors n i"
    then obtain i divs where s: "s = (i, divs)" "0 < i" "i \<le> 65535" "set divs = small_divisors n i" by auto
    have sq: "i * i < 2 ^ 32" using mult_mono [OF s(3) s(3)] by simp
    have next_i: "i < 65535" if "i * i \<le> n"
    proof (rule ccontr)
      assume "\<not> i < 65535"
      then have "65535 * 65535 \<le> i * i" by (intro mult_mono) auto
      then show False using that assms(2) by (simp add: power2_eq_square)
    qed
    show "returns (divisors_body n s) (\<lambda>x. case x of
        Inl s' \<Rightarrow> (case s' of (i, divs) \<Rightarrow> 0 < i \<and> i \<le> 65535 \<and> set divs = small_divisors n i) \<and>
          (case s' of (i, _) \<Rightarrow> 65536 - i) < (case s of (i, _) \<Rightarrow> 65536 - i)
      | Inr r \<Rightarrow> set r = {d. d dvd n})"
    proof (cases "i * i \<le> n")
      case True
      then show ?thesis
        using s sq next_i small_divisors_step [OF assms(1) s(2) True]
        by (auto simp: divisors_body_def Let_def mod_eq_0_iff_dvd)
    next
      case False
      then show ?thesis using s sq small_divisors_all [OF assms(1), of i] by (simp add: divisors_body_def)
    qed
  qed (use assms(1) in \<open>auto simp: small_divisors_def dvd_imp_le intro: dvd_pos_nat\<close>)
  then show ?thesis
    by (auto simp: divisors_desc_def returns_eq sorted_wrt_rev)
qed

section \<open>Allocation\<close>

text \<open>The cubes started beyond the \<open>tc\<close> wanted ones when \<open>s\<close> multiprocessors are used.\<close>

definition slack_of :: "nat \<Rightarrow> nat \<Rightarrow> nat" where
  "slack_of tc s = (tc + s - 1) div s * s - tc"

lemma allocate_search:
  assumes "\<forall>d \<in> set divs. 0 < d \<and> tc + d \<le> 2 ^ 32" "sorted_wrt (\<ge>) divs" "\<exists>d \<in> set divs. slack_of tc d \<le> max_slack"
  shows "\<exists>s \<in> set divs. slack_of tc s \<le> max_slack \<and> (\<forall>d \<in> set divs. slack_of tc d \<le> max_slack \<longrightarrow> d \<le> s) \<and>
    for_each divs (allocate_body tc max_slack) best = Ret (Inr (s, (tc + s - 1) div s))"
  using assms
proof (induction divs)
  case (Cons d divs)
  have "0 < d" "tc + d \<le> 2 ^ 32" using Cons.prems(1) by auto
  then have small: "(tc + d - 1) div d * d < 2 ^ 32"
    using div_times_less_eq_dividend [of "tc + d - 1" d] by linarith
  have body: "allocate_body tc max_slack best d =
      (if slack_of tc d \<le> max_slack then Ret (Inr (d, (tc + d - 1) div d)) else Ret (Inl best))"
    using Cons.prems(1) small by (simp add: allocate_body_def div_ceil_u32_def mul_u32_def slack_of_def Let_def)
  show ?case
  proof (cases "slack_of tc d \<le> max_slack")
    case True
    then show ?thesis using Cons.prems(2) body by (intro bexI [of _ d]) auto
  next
    case False
    then obtain s where "s \<in> set divs" "slack_of tc s \<le> max_slack"
      "\<forall>d \<in> set divs. slack_of tc d \<le> max_slack \<longrightarrow> d \<le> s"
      "for_each divs (allocate_body tc max_slack) best = Ret (Inr (s, (tc + s - 1) div s))"
      using Cons by auto
    then show ?thesis using False body by (intro bexI [of _ s]) auto
  qed
qed simp

lemma allocate_ratio_best:
  fixes num :: nat
  assumes "0 < num_sms" "num_sms < 65535 ^ 2" "tc + num_sms \<le> 2 ^ 32" "0 < den"
  defines "max_slack \<equiv> (min (num_sms * num) (2 ^ 32 - 1) + den - 1) div den"
  shows "\<exists>s. s dvd num_sms \<and> slack_of tc s \<le> max_slack \<and>
    (\<forall>d. d dvd num_sms \<longrightarrow> slack_of tc d \<le> max_slack \<longrightarrow> d \<le> s) \<and>
    allocate_ratio num den num_sms tc = Ret (s, (tc + s - 1) div s)"
proof -
  obtain divs where divs: "divisors_desc num_sms = Ret divs" "set divs = {d. d dvd num_sms}" "sorted_wrt (\<ge>) divs"
    using divisors_desc_returns [OF assms(1,2)] by (auto simp: returns_eq)
  have "0 < d \<and> tc + d \<le> 2 ^ 32" if "d \<in> set divs" for d
    using that divs(2) assms(1,3) dvd_imp_le [of d num_sms] by (auto intro: dvd_pos_nat)
  moreover have "1 \<in> set divs" "slack_of tc 1 \<le> max_slack" by (simp_all add: divs slack_of_def)
  ultimately obtain s where s: "s \<in> set divs" "slack_of tc s \<le> max_slack"
    "\<forall>d \<in> set divs. slack_of tc d \<le> max_slack \<longrightarrow> d \<le> s"
    "for_each divs (allocate_body tc max_slack) (num_sms, (tc + num_sms - 1) div num_sms) = Ret (Inr (s, (tc + s - 1) div s))"
    using allocate_search [OF _ divs(3)] by blast
  then have "allocate_ratio num den num_sms tc = Ret (s, (tc + s - 1) div s)"
    using assms(1,4) divs(1)
    by (simp add: allocate_ratio_def div_ceil_u32_def max_slack_def del: One_nat_def)
  with s(1-3) show ?thesis unfolding divs(2) by blast
qed

lemma div_ceil_mult: "0 < s \<Longrightarrow> (s * k + s - 1) div s = k" for s k :: nat
  using digits2(1) [of "s - 1" s k] by (simp add: mult.commute)

lemma slack_of_zero: "0 < s \<Longrightarrow> slack_of tc s = 0 \<longleftrightarrow> s dvd tc"
proof
  assume s: "0 < s" "slack_of tc s = 0"
  then have "tc = (tc + s - 1) div s * s" using div_ceil_enough [of s tc] by (simp add: slack_of_def)
  then show "s dvd tc" by (metis dvd_triv_right)
next
  assume "0 < s" "s dvd tc"
  then obtain k where "tc = s * k" by (auto simp: dvd_def)
  then show "slack_of tc s = 0" using \<open>0 < s\<close> by (simp add: slack_of_def div_ceil_mult del: One_nat_def)
qed

lemma slack_of_less: "0 < s \<Longrightarrow> slack_of tc s < s"
  unfolding slack_of_def using div_times_less_eq_dividend [of "tc + s - 1" s] by linarith

lemma allocate_exact:
  assumes "0 < num_sms" "num_sms < 65535 ^ 2" "tc + num_sms \<le> 2 ^ 32"
  shows "allocate Exact num_sms tc = Ret (gcd num_sms tc, tc div gcd num_sms tc)"
proof -
  obtain s where s: "s dvd num_sms" "slack_of tc s = 0" "\<forall>d. d dvd num_sms \<longrightarrow> slack_of tc d = 0 \<longrightarrow> d \<le> s"
    "allocate_ratio 0 1 num_sms tc = Ret (s, (tc + s - 1) div s)"
    using allocate_ratio_best [OF assms, of 1 0] by auto
  have pos: "0 < s" using s(1) assms(1) by (auto intro: dvd_pos_nat)
  then have tc: "s dvd tc" using s(2) by (simp add: slack_of_zero)
  have "gcd num_sms tc \<le> s" using s(3) assms(1) by (simp add: slack_of_zero)
  moreover have "s dvd gcd num_sms tc" using s(1) tc by simp
  ultimately have eq: "s = gcd num_sms tc" using assms(1) by (simp add: dvd_imp_le le_antisym)
  obtain k where "tc = s * k" using tc by (auto simp: dvd_def)
  then have "(tc + s - 1) div s = tc div s" using pos by (simp add: div_ceil_mult del: One_nat_def)
  with s(4) eq show ?thesis by (simp add: allocate_def)
qed

lemma allocate_full:
  assumes "0 < num_sms" "num_sms < 65535 ^ 2" "tc + num_sms \<le> 2 ^ 32"
  shows "allocate Full num_sms tc = Ret (num_sms, (tc + num_sms - 1) div num_sms)"
proof -
  have "min (num_sms * (2 ^ 32 - 1)) (2 ^ 32 - 1) = (2 ^ 32 - 1 :: nat)" using assms(1) by (simp add: min_def)
  then obtain s where s: "s dvd num_sms" "\<forall>d. d dvd num_sms \<longrightarrow> slack_of tc d \<le> 2 ^ 32 - 1 \<longrightarrow> d \<le> s"
    "allocate_ratio (2 ^ 32 - 1) 1 num_sms tc = Ret (s, (tc + s - 1) div s)"
    using allocate_ratio_best [OF assms, of 1 "2 ^ 32 - 1"] by auto
  have "slack_of tc num_sms \<le> 2 ^ 32 - 1" using slack_of_less [OF assms(1), of tc] assms(3) by linarith
  then have "num_sms \<le> s" using s(2) by simp
  then have "s = num_sms" using s(1) assms(1) by (simp add: dvd_imp_le le_antisym)
  with s(3) show ?thesis by (simp add: allocate_def)
qed

text \<open>
  C31. Allocating cubes to multiprocessors always returns when the numbers are of a realistic size. \<open>Exact\<close>
  uses the greatest common divisor of the number of multiprocessors and of cubes, so no cube is wasted; \<open>Full\<close>
  uses every multiprocessor; a ratio uses the largest divisor of the number of multiprocessors whose waste is
  within the allowed fraction, rounded up. The example in the documentation of \<open>SmAllocation\<close> says otherwise of \<open>Exact\<close>:
  for 120 cubes and 16 multiprocessors it promises 4 multiprocessors with 30 cubes each, but the greatest common
  divisor is 8, and the code returns 8 multiprocessors with 15 cubes each (\<open>exact_example_differs\<close>).
\<close>

theorem allocate_best:
  assumes "0 < num_sms" "num_sms < 65535 ^ 2" "tc + num_sms \<le> 2 ^ 32" "0 < den"
  shows "allocate Exact num_sms tc = Ret (gcd num_sms tc, tc div gcd num_sms tc) \<and>
    allocate Full num_sms tc = Ret (num_sms, (tc + num_sms - 1) div num_sms) \<and>
    (\<exists>s. s dvd num_sms \<and> slack_of tc s \<le> (min (num_sms * num) (2 ^ 32 - 1) + den - 1) div den \<and>
      (\<forall>d. d dvd num_sms \<longrightarrow> slack_of tc d \<le> (min (num_sms * num) (2 ^ 32 - 1) + den - 1) div den \<longrightarrow> d \<le> s) \<and>
      allocate (Ratio num den) num_sms tc = Ret (s, (tc + s - 1) div s))"
  using allocate_exact [OF assms(1-3)] allocate_full [OF assms(1-3)] allocate_ratio_best [OF assms]
  by (simp add: allocate_def)

theorem allocate_best_witness:
  "allocate Exact 12 30 = Ret (6, 5) \<and> allocate Full 12 30 = Ret (12, 3)"
  using allocate_best [of 12 30 1 0] by (simp add: gcd_nat.simps)

text \<open>The documented example, which the code does not follow.\<close>

theorem exact_example_differs:
  "allocate Exact 16 120 = Ret (8, 15) \<and> allocate Exact 16 120 \<noteq> Ret (4, 30) \<and> allocate Full 16 120 = Ret (16, 8)"
  using allocate_exact [of 16 120] allocate_full [of 16 120] by (simp add: gcd_nat.simps)

section \<open>Spreading\<close>

text \<open>The heights and depths the search looks at, and the grids they give.\<close>

fun halvings :: "nat \<Rightarrow> nat list" where
  "halvings n = (if n = 0 then [] else n # halvings (n div 2))"

declare halvings.simps [simp del]

definition grids_y :: "nat \<Rightarrow> nat \<Rightarrow> nat \<Rightarrow> nat \<Rightarrow> (nat \<times> nat \<times> nat) set" where
  "grids_y xy max_x z y = {(x, y', z) |x y'. y' \<in> set (halvings y) \<and> x = (xy + y' - 1) div y' \<and> x \<le> max_x}"

definition grids :: "nat \<Rightarrow> nat \<Rightarrow> nat \<Rightarrow> nat \<Rightarrow> (nat \<times> nat \<times> nat) set" where
  "grids tc max_x max_y z = (\<Union>z' \<in> set (halvings z). grids_y ((tc + z' - 1) div z') max_x z' max_y)"

abbreviation volume :: "nat \<times> nat \<times> nat \<Rightarrow> nat" where
  "volume \<equiv> (\<lambda>(x, y, z). x * y * z)"

text \<open>The best of a set of grids.\<close>

definition best_in :: "(nat \<times> nat \<times> nat) set \<Rightarrow> spread_best \<Rightarrow> bool" where
  "best_in G best = (case best of
     None \<Rightarrow> G = {}
   | Some (x, y, z, v) \<Rightarrow> (x, y, z) \<in> G \<and> v = x * y * z \<and> (\<forall>g \<in> G. v \<le> volume g))"

lemma best_in_insert:
  assumes "best_in G best"
  shows "best_in (insert (x, y, z) G) (if better (x * y * z) z y best then Some (x, y, z, x * y * z) else best)"
  using assms by (auto simp: best_in_def better_def split: option.splits)

lemma grids_y_step:
  "0 < y \<Longrightarrow> grids_y xy max_x z y =
     (if (xy + y - 1) div y \<le> max_x then insert ((xy + y - 1) div y, y, z) (grids_y xy max_x z (y div 2))
      else grids_y xy max_x z (y div 2))"
  by (subst grids_y_def, subst halvings.simps) (auto simp: grids_y_def)

lemma grids_step:
  "0 < z \<Longrightarrow> grids tc max_x max_y z = grids_y ((tc + z - 1) div z) max_x z max_y \<union> grids tc max_x max_y (z div 2)"
  by (subst grids_def, subst halvings.simps) (simp add: grids_def)

lemma halvings_bounds: "y \<in> set (halvings n) \<Longrightarrow> 0 < y \<and> y \<le> n"
proof (induction n rule: halvings.induct)
  case (1 n)
  then show ?case by (subst (asm) (2) halvings.simps) (auto split: if_splits)
qed

lemma halvings_step: "0 < n \<Longrightarrow> set (halvings n) = insert n (set (halvings (n div 2)))"
  by (subst halvings.simps) simp

definition pick :: "nat \<Rightarrow> nat \<Rightarrow> nat \<Rightarrow> nat \<Rightarrow> spread_best \<Rightarrow> spread_best" where
  "pick max_x x y z best =
     (if x \<le> max_x \<and> better (x * y * z) z y best then Some (x, y, z, x * y * z) else best)"

lemma best_in_pick:
  "best_in G best \<Longrightarrow> best_in (G \<union> (if x \<le> max_x then {(x, y, z)} else {})) (pick max_x x y z best)"
  using best_in_insert [of G best x y z] by (auto simp: pick_def split: if_splits)

lemma spread_y_step:
  assumes "0 < y" "0 < z" "(xy + y - 1) div y * y * z < 2 ^ 32"
  shows "spread_y xy max_x z y best =
    (if y = 1 then Ret (pick max_x ((xy + y - 1) div y) y z best)
     else spread_y xy max_x z (y div 2) (pick max_x ((xy + y - 1) div y) y z best))"
proof -
  define x where "x = (xy + y - 1) div y"
  have "x * y \<le> x * y * z" using assms(2) by simp
  then have "x * y < 2 ^ 32" using assms(3) unfolding x_def by linarith
  then have "mul3_u32 x y z = Ret (x * y * z)" using assms(3) by (simp only: mul3_Ret x_def)
  moreover have "div_ceil_u32 xy y = Ret x" using assms(1) by (simp add: div_ceil_u32_def x_def)
  ultimately have "spread_y xy max_x z y best = (if y = 1 then Ret (pick max_x x y z best)
      else spread_y xy max_x z (y div 2) (pick max_x x y z best))"
    using assms(1) by (subst spread_y.simps) (auto simp: pick_def)
  then show ?thesis by (simp only: x_def)
qed

lemma spread_y_best:
  assumes "best_in G best" "0 < z" "\<forall>y' \<in> set (halvings y). (xy + y' - 1) div y' * y' * z < 2 ^ 32"
  shows "returns (spread_y xy max_x z y best) (best_in (G \<union> grids_y xy max_x z y))"
  using assms(1,3)
proof (induction y arbitrary: G best rule: less_induct)
  case (less y)
  show ?case
  proof (cases "y = 0")
    case True
    then show ?thesis using less.prems(1) by (simp add: spread_y.simps grids_y_def halvings.simps)
  next
    case False
    define x best' G' where "x = (xy + y - 1) div y" and "best' = pick max_x x y z best"
      and "G' = G \<union> (if x \<le> max_x then {(x, y, z)} else {})"
    have "x * y * z < 2 ^ 32" using less.prems(2) False halvings_step [of y] by (simp add: x_def)
    then have step: "spread_y xy max_x z y best = (if y = 1 then Ret best' else spread_y xy max_x z (y div 2) best')"
      using False assms(2) spread_y_step [of y z xy max_x best] by (simp add: x_def best'_def)
    have best: "best_in G' best'" using less.prems(1) by (simp only: G'_def best'_def best_in_pick)
    have G: "G \<union> grids_y xy max_x z y = G' \<union> grids_y xy max_x z (y div 2)"
      using False grids_y_step [of y xy max_x z] by (auto simp: G'_def x_def)
    show ?thesis
    proof (cases "y = 1")
      case True
      then have "grids_y xy max_x z (y div 2) = {}" by (simp add: grids_y_def halvings.simps)
      then have "G \<union> grids_y xy max_x z y = G'" using G by simp
      then show ?thesis using best step True by simp
    next
      case y: False
      have "returns (spread_y xy max_x z (y div 2) best') (best_in (G' \<union> grids_y xy max_x z (y div 2)))"
        using less.prems(2) False best halvings_step [of y] by (intro less.IH) simp_all
      then show ?thesis using y by (simp only: G step if_False)
    qed
  qed
qed

lemma spread_volume:
  fixes tc y z :: nat
  assumes "0 < y" "0 < z" "y * z < 2 ^ 32" "tc \<le> 2 ^ 31"
  defines "xy \<equiv> (tc + z - 1) div z"
  defines "x \<equiv> (xy + y - 1) div y"
  shows "x * y * z < 2 ^ 32"
proof (cases "x \<le> 1")
  case True
  then have "x * (y * z) \<le> y * z" by (cases x) auto
  moreover have "x * y * z = x * (y * z)" by (rule mult.assoc)
  ultimately show ?thesis using assms(3) by linarith
next
  case False
  then obtain w where w: "x = Suc w" "0 < w" by (cases x) auto
  have "x * y \<le> xy + y - 1" unfolding x_def by (rule div_times_less_eq_dividend)
  then have "w * y \<le> xy - 1" using w assms(1) by simp
  then have "w * y * z \<le> (xy - 1) * z" by (rule mult_right_mono) simp
  moreover have "xy * z \<le> tc + z - 1" unfolding xy_def by (rule div_times_less_eq_dividend)
  ultimately have "w * y * z \<le> tc - 1" using assms(2) by (simp add: diff_mult_distrib)
  moreover have "x * y * z \<le> 2 * (w * y * z)" using w by (cases w) auto
  moreover have "2 * (tc - 1) < 2 ^ 32" using assms(4) by simp
  ultimately show ?thesis by linarith
qed

lemma spread_z_best:
  assumes "best_in G best" "tc \<le> 2 ^ 31" "max_y * z < 2 ^ 32"
  shows "returns (spread_z tc max_x max_y z best) (best_in (G \<union> grids tc max_x max_y z))"
  using assms(1,3)
proof (induction z arbitrary: G best rule: less_induct)
  case (less z)
  show ?case
  proof (cases "z = 0")
    case True
    then show ?thesis using less.prems(1) by (simp add: spread_z.simps grids_def halvings.simps)
  next
    case False
    let ?xy = "(tc + z - 1) div z"
    have "(?xy + y - 1) div y * y * z < 2 ^ 32" if "y \<in> set (halvings max_y)" for y
    proof (rule spread_volume)
      have "y * z \<le> max_y * z" using halvings_bounds [OF that] by (intro mult_right_mono) auto
      then show "y * z < 2 ^ 32" using less.prems(2) by linarith
    qed (use halvings_bounds [OF that] False assms(2) in auto)
    then have y: "returns (spread_y ?xy max_x z max_y best) (best_in (G \<union> grids_y ?xy max_x z max_y))"
      using less.prems(1) False by (intro spread_y_best) auto
    have G: "G \<union> grids tc max_x max_y z = (G \<union> grids_y ?xy max_x z max_y) \<union> grids tc max_x max_y (z div 2)"
      using False grids_step [of z tc max_x max_y] by auto
    have step: "spread_z tc max_x max_y z best = bindE (spread_y ?xy max_x z max_y best)
        (\<lambda>best. if z = 1 then Ret best else spread_z tc max_x max_y (z div 2) best)"
      using False by (subst spread_z.simps) (simp add: div_ceil_u32_def)
    have rest: "returns (if z = 1 then Ret b else spread_z tc max_x max_y (z div 2) b) (best_in (G \<union> grids tc max_x max_y z))"
      if b: "best_in (G \<union> grids_y ?xy max_x z max_y) b" for b
    proof (cases "z = 1")
      case True
      then have "grids tc max_x max_y (z div 2) = {}" by (simp add: grids_def halvings.simps)
      then have "G \<union> grids tc max_x max_y z = G \<union> grids_y ?xy max_x z max_y" using G by simp
      with b show ?thesis by (simp add: True)
    next
      case z: False
      have "max_y * (z div 2) \<le> max_y * z" by (intro mult_left_mono) auto
      then have "max_y * (z div 2) < 2 ^ 32" using less.prems(2) by linarith
      then have "returns (spread_z tc max_x max_y (z div 2) b)
          (best_in ((G \<union> grids_y ?xy max_x z max_y) \<union> grids tc max_x max_y (z div 2)))"
        using b False by (intro less.IH) simp_all
      then show ?thesis using z by (simp only: G if_False)
    qed
    show ?thesis unfolding step returns_bindE by (rule returns_mono [OF y]) (rule rest)
  qed
qed

lemma div_ceil_le_of:
  fixes a b c :: nat
  assumes "0 < b" "a \<le> c * b"
  shows "(a + b - 1) div b \<le> c"
proof -
  have "a + b - 1 < Suc c * b" using assms unfolding mult_Suc by linarith
  then show ?thesis using less_mult_imp_div_less [of "a + b - 1" "Suc c" b] by simp
qed

lemma grids_nonempty:
  assumes "0 < max_y" "0 < max_z" "tc \<le> max_x * max_y * max_z"
  shows "grids tc max_x max_y max_z \<noteq> {}"
proof -
  let ?xy = "(tc + max_z - 1) div max_z"
  have "?xy \<le> max_x * max_y" using assms by (intro div_ceil_le_of) simp_all
  then have "(?xy + max_y - 1) div max_y \<le> max_x" by (rule div_ceil_le_of [OF assms(1)])
  then have "grids_y ?xy max_x max_z max_y \<noteq> {}"
    using assms(1) grids_y_step [of max_y ?xy max_x max_z] by simp
  then show ?thesis using assms(2) grids_step [of max_z tc max_x max_y] by simp
qed

lemma grids_limits:
  assumes "(x, y, z) \<in> grids tc max_x max_y max_z"
  shows "x \<le> max_x \<and> y \<le> max_y \<and> z \<le> max_z \<and> tc \<le> x * y * z"
proof -
  from assms have z: "z \<in> set (halvings max_z)" and y: "y \<in> set (halvings max_y)" and "x \<le> max_x"
    and x: "x = ((tc + z - 1) div z + y - 1) div y"
    by (auto simp: grids_def grids_y_def)
  note b = halvings_bounds [OF z] halvings_bounds [OF y]
  have "tc \<le> (tc + z - 1) div z * z" using b by (intro div_ceil_enough) simp
  also have "(tc + z - 1) div z \<le> x * y" unfolding x using b by (intro div_ceil_enough) simp
  finally show ?thesis using b \<open>x \<le> max_x\<close> by (simp add: mult_right_mono)
qed

text \<open>
  C32. Spreading \<open>m * n * b\<close> cubes over a grid: when the cubes fit the device's limits, and the depth times
  the height of the device's grid fits 32 bits, the search succeeds. Its grid respects the limits, has a cube for
  every tile, and no grid it looked at is smaller. The sizes are those of a device with the usual limit of 65535
  for the height and the depth, and of at most two to the 31 cubes.
\<close>

theorem spread_finds_smallest:
  assumes "0 < max_y" "0 < max_z" "m * n * b \<le> max_x * max_y * max_z" "max_y * max_z < 2 ^ 32"
    "m * n < 2 ^ 32" "m * n * b \<le> 2 ^ 31"
  shows "\<exists>x y z. spread_cube_count_plan m n b max_x max_y max_z = Ret (Spread m n b x y z) \<and>
    x \<le> max_x \<and> y \<le> max_y \<and> z \<le> max_z \<and> m * n * b \<le> x * y * z \<and> x * y * z < 2 ^ 32 \<and>
    (\<forall>g \<in> grids (m * n * b) max_x max_y max_z. x * y * z \<le> volume g)"
proof -
  let ?tc = "m * n * b"
  have tc: "mul3_u32 m n b = Ret ?tc" using assms(5,6) by (simp only: mul3_Ret) simp
  have "best_in {} None" by (simp add: best_in_def)
  from spread_z_best [OF this assms(6,4), of max_x] obtain best
    where best: "spread_z ?tc max_x max_y max_z None = Ret best" "best_in (grids ?tc max_x max_y max_z) best"
    by (auto simp: returns_eq)
  with grids_nonempty [OF assms(1-3)] obtain x y z v where b: "best = Some (x, y, z, v)"
    by (cases best) (auto simp: best_in_def)
  then have plan: "spread_cube_count_plan m n b max_x max_y max_z = Ret (Spread m n b x y z)"
    using tc best by (simp add: spread_cube_count_plan_def)
  from best b have g: "(x, y, z) \<in> grids ?tc max_x max_y max_z" "\<forall>g \<in> grids ?tc max_x max_y max_z. x * y * z \<le> volume g"
    by (auto simp: best_in_def)
  have "x * y * z < 2 ^ 32" using plan by (rule spread_plan_Ret) simp
  with plan g grids_limits [OF g(1)] show ?thesis by blast
qed

theorem spread_finds_smallest_witness:
  "\<exists>x y z. spread_cube_count_plan 7 5 3 1000 100 64 = Ret (Spread 7 5 3 x y z) \<and> 105 \<le> x * y * z \<and> x \<le> 1000"
  using spread_finds_smallest [of 100 64 7 5 3 1000] by fastforce

text \<open>
  On a device that reports the largest 32-bit number as the limit of all three dimensions, spreading a
  single cube fails: the volume of the first grid looked at overflows.
\<close>

theorem spread_overflows:
  "spread_cube_count_plan 1 1 1 (2 ^ 32 - 1) (2 ^ 32 - 1) (2 ^ 32 - 1) = Panic ArithmeticOverflow"
  by (simp add: spread_cube_count_plan_def mul3_u32_def mul_u32_def spread_z.simps [of _ _ _ 4294967295]
      spread_y.simps [of _ _ _ 4294967295] div_ceil_u32_def)

end
