(* ===== verification/Matmul_Launch.thy ===== *)
theory Matmul_Launch
  imports Matmul_Plans
begin

text \<open>
  Launching a matrix multiplication: the host selects a plan, recomputes it from the kernel's
  configuration, resolves it to a grid, and every cube of the grid maps its position to a tile of the
  output. The theorems show that the grid respects the device's limits and that the tiles are covered
  exactly once.
\<close>

section \<open>Positions in a grid\<close>

text \<open>The cubes a launch of \<open>X\<close> by \<open>Y\<close> by \<open>Z\<close> starts.\<close>

definition grid :: "nat \<Rightarrow> nat \<Rightarrow> nat \<Rightarrow> topology set" where
  "grid X Y Z = {t. unat (cube_pos_x t) < X \<and> unat (cube_pos_y t) < Y \<and> unat (cube_pos_z t) < Z \<and>
     cube_count_x t = of_nat X \<and> cube_count_y t = of_nat Y}"

lemma cube_pos_grid:
  assumes "t \<in> grid X Y Z" "X * Y * Z < 2 ^ 32"
  shows "unat (cube_pos t) = (unat (cube_pos_z t) * Y + unat (cube_pos_y t)) * X + unat (cube_pos_x t)"
    "unat (cube_pos t) < X * Y * Z"
proof -
  have t: "unat (cube_pos_x t) < X" "unat (cube_pos_y t) < Y" "unat (cube_pos_z t) < Z"
    "cube_count_x t = of_nat X" "cube_count_y t = of_nat Y" using assms(1) by (auto simp: grid_def)
  have fits: "Z * Y * X < 2 ^ 32" using assms(2) by (simp add: ac_simps)
  have "Z * Y \<le> Z * Y * X" using t(1) by (cases X) auto
  then have zy: "Z * Y < 2 ^ 32" using fits by linarith
  note yz = unat_digit [OF t(3) t(2) zy]
  have "cube_pos t = (cube_pos_z t * of_nat Y + cube_pos_y t) * of_nat X + cube_pos_x t"
    by (simp add: cube_pos_def t algebra_simps)
  with unat_digit [of "cube_pos_z t * of_nat Y + cube_pos_y t" "Z * Y" "cube_pos_x t" X] yz t(1) fits
  show "unat (cube_pos t) = (unat (cube_pos_z t) * Y + unat (cube_pos_y t)) * X + unat (cube_pos_x t)"
    "unat (cube_pos t) < X * Y * Z" by (simp_all add: ac_simps)
qed

text \<open>The cube at a position.\<close>

definition cube_at :: "nat \<Rightarrow> nat \<Rightarrow> u32 \<Rightarrow> topology" where
  "cube_at X Y i = \<lparr>cube_pos_x = of_nat (unat i mod X), cube_pos_y = of_nat (unat i div X mod Y),
     cube_pos_z = of_nat (unat i div X div Y), cube_count_x = of_nat X, cube_count_y = of_nat Y\<rparr>"

lemma cube_at_grid:
  assumes "unat i < X * Y * Z"
  shows "cube_at X Y i \<in> grid X Y Z"
    "unat (cube_pos_x (cube_at X Y i)) = unat i mod X" "unat (cube_pos_y (cube_at X Y i)) = unat i div X mod Y"
    "unat (cube_pos_z (cube_at X Y i)) = unat i div X div Y"
proof -
  have pos: "0 < X" "0 < Y" using assms by (auto intro: gr0I)
  have "unat i div X < Y * Z" "unat i div X div Y < Z"
    using assms by (simp_all add: less_mult_imp_div_less ac_simps flip: div_mult2_eq)
  moreover have "unat i mod X \<le> unat i" "unat i div X mod Y \<le> unat i" "unat i div X div Y \<le> unat i"
    by (auto intro: order_trans [OF mod_less_eq_dividend] order_trans [OF div_le_dividend])
  then have "unat i mod X < 2 ^ LENGTH(32)" "unat i div X mod Y < 2 ^ LENGTH(32)" "unat i div X div Y < 2 ^ LENGTH(32)"
    using unsigned_less [of i, where ?'a = nat] by linarith+
  ultimately show "unat (cube_pos_x (cube_at X Y i)) = unat i mod X" "unat (cube_pos_y (cube_at X Y i)) = unat i div X mod Y"
    "unat (cube_pos_z (cube_at X Y i)) = unat i div X div Y" "cube_at X Y i \<in> grid X Y Z"
    using pos by (simp_all add: cube_at_def grid_def unat_of_nat_small)
qed

lemma cube_pos_bij:
  assumes "X * Y * Z < 2 ^ 32"
  shows "bij_betw cube_pos (grid X Y Z) (words_below (X * Y * Z))"
proof (rule bij_betw_byWitness [where f' = "cube_at X Y"])
  show "\<forall>t \<in> grid X Y Z. cube_at X Y (cube_pos t) = t"
    using cube_pos_grid [OF _ assms] by (auto simp: cube_at_def grid_def)
  show "\<forall>i \<in> words_below (X * Y * Z). cube_pos (cube_at X Y i) = i"
  proof
    fix i assume "i \<in> words_below (X * Y * Z)"
    then have i: "unat i < X * Y * Z" by simp
    note c = cube_at_grid [OF i]
    show "cube_pos (cube_at X Y i) = i"
      using cube_pos_grid(1) [OF c(1) assms] c by (simp add: word_unat_eq_iff)
  qed
  show "cube_pos ` grid X Y Z \<subseteq> words_below (X * Y * Z)" using cube_pos_grid(2) [OF _ assms] by auto
  show "cube_at X Y ` words_below (X * Y * Z) \<subseteq> grid X Y Z" using cube_at_grid(1) by auto
qed

section \<open>Covering the output\<close>

text \<open>The tiles of the output: \<open>m\<close> by \<open>n\<close> in each of \<open>b\<close> batches.\<close>

abbreviation tiles :: "nat \<Rightarrow> nat \<Rightarrow> nat \<Rightarrow> (u32 \<times> u32 \<times> u32) set" where
  "tiles m n b \<equiv> words_below m \<times> words_below n \<times> words_below b"

text \<open>No cube fails, a cube that is not terminated works on a tile of the output, and every tile is the work
  of exactly one cube.\<close>

definition covers :: "nat \<Rightarrow> nat \<Rightarrow> nat \<Rightarrow> topology set \<Rightarrow> (topology \<Rightarrow> (u32 \<times> u32 \<times> u32) option exec) \<Rightarrow> bool" where
  "covers m n b cubes entry \<longleftrightarrow>
     (\<forall>t \<in> cubes. returns (entry t) (\<lambda>r. case r of None \<Rightarrow> True | Some tile \<Rightarrow> tile \<in> tiles m n b)) \<and>
     (\<forall>tile \<in> tiles m n b. \<exists>!t. t \<in> cubes \<and> entry t = Ret (Some tile))"

lemma coversI:
  assumes bij: "bij_betw f {t \<in> cubes. live t} (tiles m n b)"
    and entry: "\<And>t. t \<in> cubes \<Longrightarrow> entry t = Ret (if live t then Some (f t) else None)"
  shows "covers m n b cubes entry"
  unfolding covers_def
proof (intro conjI ballI)
  fix t assume "t \<in> cubes"
  then show "returns (entry t) (\<lambda>r. case r of None \<Rightarrow> True | Some tile \<Rightarrow> tile \<in> tiles m n b)"
    using bij_betw_apply [OF bij, of t] by (simp add: entry)
next
  fix tile assume "tile \<in> tiles m n b"
  then have "tile \<in> f ` {t \<in> cubes. live t}" by (simp only: bij_betw_imp_surj_on [OF bij])
  then obtain t where t: "t \<in> cubes" "live t" "tile = f t" by blast
  show "\<exists>!t. t \<in> cubes \<and> entry t = Ret (Some tile)"
  proof (rule ex1I)
    show "t \<in> cubes \<and> entry t = Ret (Some tile)" using t entry [OF t(1)] by simp
    fix t' assume t': "t' \<in> cubes \<and> entry t' = Ret (Some tile)"
    then have "live t'" "f t' = f t" using entry [of t'] t(3) by (simp_all split: if_splits)
    with inj_onD [OF bij_betw_imp_inj_on [OF bij], of t' t] t t' show "t' = t" by simp
  qed
qed

lemma flat_covers:
  assumes fits: "X * Y * Z < 2 ^ 32" "m * n * b \<le> X * Y * Z" "m < 2 ^ 32" "n < 2 ^ 32"
    and order: "order_supports order (of_nat m) (of_nat n)"
    and entry: "\<And>t. t \<in> grid X Y Z \<Longrightarrow> entry t = Ret (if unat (cube_pos t) < m * n * b
      then Some (absolute_index_to_m_n_batch (cube_pos t) (of_nat m) (of_nat n) order) else None)"
  shows "covers m n b (grid X Y Z) entry"
proof (rule coversI [OF _ entry])
  have un: "unat (of_nat m :: u32) = m" "unat (of_nat n :: u32) = n" using fits by (simp_all add: unat_of_nat_small)
  have "bij_betw cube_pos {t \<in> grid X Y Z. unat (cube_pos t) < m * n * b} (words_below (m * n * b))"
  proof (rule bij_betw_subset [OF cube_pos_bij [OF fits(1)]])
    show "cube_pos ` {t \<in> grid X Y Z. unat (cube_pos t) < m * n * b} = words_below (m * n * b)"
    proof (intro equalityI subsetI)
      fix i assume "i \<in> words_below (m * n * b)"
      then have i: "unat i < m * n * b" "i \<in> words_below (X * Y * Z)" using fits(2) by simp_all
      then obtain t where "t \<in> grid X Y Z" "i = cube_pos t"
        using bij_betw_imp_surj_on [OF cube_pos_bij [OF fits(1)]] by blast
      with i show "i \<in> cube_pos ` {t \<in> grid X Y Z. unat (cube_pos t) < m * n * b}" by blast
    qed auto
  qed auto
  moreover have "m * n * b < 2 ^ 32" using fits by linarith
  then have "bij_betw (\<lambda>i. absolute_index_to_m_n_batch i (of_nat m) (of_nat n) order) (words_below (m * n * b)) (tiles m n b)"
    using absolute_index_bij [OF order, of b] by (simp add: un)
  ultimately show "bij_betw (\<lambda>t. absolute_index_to_m_n_batch (cube_pos t) (of_nat m) (of_nat n) order)
      {t \<in> grid X Y Z. unat (cube_pos t) < m * n * b} (tiles m n b)"
    by (rule bij_betw_trans [unfolded comp_def])
qed

lemma problem_covers:
  assumes "\<And>t. t \<in> grid m n b \<Longrightarrow> entry t = Ret (Some (cube_pos_x t, cube_pos_y t, cube_pos_z t))"
  shows "covers m n b (grid m n b) entry"
proof (rule coversI [where live = "\<lambda>_. True"])
  have "bij_betw (\<lambda>t. (cube_pos_x t, cube_pos_y t, cube_pos_z t)) (grid m n b) (tiles m n b)"
    by (rule bij_betw_byWitness [where f' = "\<lambda>(x, y, z). \<lparr>cube_pos_x = x, cube_pos_y = y, cube_pos_z = z,
          cube_count_x = of_nat m, cube_count_y = of_nat n\<rparr>"]) (auto simp: grid_def)
  then show "bij_betw (\<lambda>t. (cube_pos_x t, cube_pos_y t, cube_pos_z t)) {t \<in> grid m n b. True} (tiles m n b)" by simp
qed (simp add: assms)

section \<open>The launch\<close>

lemma div_ceil_le: "(a + b - 1) div b \<le> a" if "b \<noteq> 0" for a b :: nat
proof (cases "a = 0")
  case False
  have "(a + b - 1) div b \<le> (a * b) div b"
    using that False by (intro div_le_mono) (cases a; cases b; simp)
  then show ?thesis using that by simp
qed (use that in simp)

lemma cubes_of_Ret:
  assumes "cubes_of sp problem = Ret (m, n, b)"
  shows "m < 2 ^ 32" "n < 2 ^ 32" "b < 2 ^ 32"
    "div_ceil_u32 (to_u32 (mp_m problem)) (cs_m sp) = Ret m" "div_ceil_u32 (to_u32 (mp_n problem)) (cs_n sp) = Ret n"
proof -
  have small: "c < 2 ^ 32" if "div_ceil_u32 (to_u32 a) s = Ret c" for a s c
  proof -
    have "c \<le> to_u32 a" using that div_ceil_le [of s "to_u32 a"] by (auto simp: div_ceil_u32_def split: if_splits)
    also have "to_u32 a < 2 ^ 32" by (simp add: to_u32_def)
    finally show ?thesis .
  qed
  from assms obtain k where c: "div_ceil_u32 (to_u32 (mp_m problem)) (cs_m sp) = Ret m"
    "div_ceil_u32 (to_u32 (mp_n problem)) (cs_n sp) = Ret n" "div_ceil_u32 (to_u32 k) (cs_batch sp) = Ret b"
    by (auto simp: cubes_of_def bindE_eq_Ret)
  then show "m < 2 ^ 32" "n < 2 ^ 32" "b < 2 ^ 32" 
    "div_ceil_u32 (to_u32 (mp_m problem)) (cs_m sp) = Ret m" "div_ceil_u32 (to_u32 (mp_n problem)) (cs_n sp) = Ret n"
    using small by blast+
qed

lemma validate_order:
  assumes "validate config problem = Ret None" "cubes_of (hc_cube_span config) problem = Ret (m, n, b)"
    "\<And>w. hc_global_order config \<in> {SwizzleRowMajor w, SwizzleColMajor w} \<Longrightarrow> w < 2 ^ 32" "m * n < 2 ^ 32"
  shows "order_supports (hc_global_order config) (of_nat m) (of_nat n)"
proof -
  note c = cubes_of_Ret [OF assms(2)]
  have un: "unat (of_nat m :: u32) = m" "unat (of_nat n :: u32) = n" using c by (simp_all add: unat_of_nat_small)
  show ?thesis
    using assms c by (auto simp: validate_def order_supports_def un rem_u32_def mod_eq_0_iff_dvd
      split: global_order.splits if_splits)
qed

text \<open>The plan recomputed from the configuration is the plan of the selection, and the configuration says
  whether it has extra cubes.\<close>

lemma config_plan:
  assumes "to_hypercube_config sel problem (Static max_x max_y max_z) = Ret config"
  obtains plan m n b where "from_selection sel problem (Static max_x max_y max_z) = Ret plan"
    "from_config config problem (Static max_x max_y max_z) = Ret plan"
    "cubes_of (hs_cube_span sel) problem = Ret (m, n, b)" "plan_for (m, n, b) (max_x, max_y, max_z) plan"
    "can_yield_extra_cubes plan = Ret (config_can_yield_extra_cubes (hc_plan_config config))"
    "hc_cube_span config = hs_cube_span sel" "hc_global_order config = hs_global_order sel"
proof -
  from assms obtain plan pc where plan: "from_selection sel problem (Static max_x max_y max_z) = Ret plan"
    and pc: "from_cube_count_plan plan = Ret pc"
    and config: "config = \<lparr>hc_cube_span = hs_cube_span sel, hc_global_order = hs_global_order sel, hc_plan_config = pc\<rparr>"
    by (auto simp: to_hypercube_config_def bindE_eq_Ret)
  obtain m n b where cubes: "cubes_of (hs_cube_span sel) problem = Ret (m, n, b)"
    and for_plan: "plan_for (m, n, b) (max_x, max_y, max_z) plan"
    using from_selection_plan [OF plan] .
  have "from_config config problem (Static max_x max_y max_z) = Ret plan \<and>
      can_yield_extra_cubes plan = Ret (config_can_yield_extra_cubes pc)"
    using for_plan
  proof cases
    case sm
    then show ?thesis using pc cubes
      by (auto simp: from_config_def static_max_def config from_cube_count_plan_def bindE_eq_Ret mul3_Ret
          config_can_yield_extra_cubes_def)
  next
    case spread
    then show ?thesis using pc cubes
      by (auto simp: from_config_def static_max_def config from_cube_count_plan_def bindE_eq_Ret
          config_can_yield_extra_cubes_def)
  qed (use pc cubes in \<open>auto simp: from_config_def static_max_def config from_cube_count_plan_def
         can_yield_extra_cubes_def config_can_yield_extra_cubes_def\<close>)
  with plan cubes for_plan config that show ?thesis by simp
qed

text \<open>On a grid with at least one cube per tile, the guard of the kernel stops exactly the cubes past the last tile.\<close>

lemma entry_guard:
  assumes t: "t \<in> grid X Y Z" and fits: "X * Y * Z < 2 ^ 32" "m * n * b < 2 ^ 32" "m * n < 2 ^ 32"
    "m < 2 ^ 32" "n < 2 ^ 32" "b < 2 ^ 32"
    and valid: "num_valid_cubes args = Ret (of_nat m * of_nat n * of_nat b)"
    and extra: "config_can_yield_extra_cubes (hc_plan_config config) \<longleftrightarrow> X * Y * Z \<noteq> m * n * b"
  shows "matmul_entry config args t = Ret (if unat (cube_pos t) < m * n * b
    then Some (cube_pos_to_tensor_pos args t (hc_global_order config)) else None)"
proof -
  have "unat (of_nat m * of_nat n * of_nat b :: u32) = m * n * b"
    using fits by (simp add: unat_of_nat_small flip: of_nat_mult)
  then have "of_nat m * of_nat n * of_nat b \<le> cube_pos t \<longleftrightarrow> \<not> unat (cube_pos t) < m * n * b"
    by (simp add: word_le_nat_alt not_less)
  moreover have "unat (cube_pos t) < X * Y * Z" using cube_pos_grid [OF t fits(1)] by simp
  ultimately show ?thesis using extra valid by (simp add: matmul_entry_def)
qed

lemma plan_covers:
  assumes plan: "plan_for (m, n, b) (max_x, max_y, max_z) plan"
    and extra: "can_yield_extra_cubes plan = Ret (config_can_yield_extra_cubes (hc_plan_config config))"
    and order: "m * n < 2 ^ 32 \<Longrightarrow> order_supports (hc_global_order config) (of_nat m) (of_nat n)"
    and small: "m < 2 ^ 32" "n < 2 ^ 32" "b < 2 ^ 32" and limits: "0 < max_x" "0 < max_y" "0 < max_z"
  shows "\<exists>X Y Z. resolve plan = Ret (Static X Y Z) \<and> X \<le> max_x \<and> Y \<le> max_y \<and> Z \<le> max_z \<and>
    covers m n b (grid X Y Z) (matmul_entry config (as_args plan))"
  using plan
proof cases
  case problem
  have "covers m n b (grid m n b) (matmul_entry config (as_args plan))"
    using extra problem
    by (intro problem_covers) (simp add: matmul_entry_def as_args_def can_yield_extra_cubes_def cube_pos_to_tensor_pos_def)
  then show ?thesis using problem by (simp add: resolve_def)
next
  case (sm s c cf u k)
  define X Y where "X = (if cf then c else s)" and "Y = (if cf then s else c)"
  have XY: "X * Y * 1 = s * c" by (simp add: X_def Y_def mult.commute)
  have sc: "s * c < 2 ^ 32" "config_can_yield_extra_cubes (hc_plan_config config) \<longleftrightarrow> s * c \<noteq> m * n * b"
    using extra sm by (auto simp: can_yield_extra_cubes_def bindE_eq_Ret mul3_Ret mul_u32_def split: if_splits)
  have "matmul_entry config (as_args plan) t = Ret (if unat (cube_pos t) < m * n * b
      then Some (absolute_index_to_m_n_batch (cube_pos t) (of_nat m) (of_nat n) (hc_global_order config)) else None)"
    if t: "t \<in> grid X Y 1" for t
  proof -
    have "cube_pos_z t = 0" using t by (simp add: grid_def unat_eq_0)
    then have "cube_pos_to_tensor_pos (as_args plan) t (hc_global_order config) =
        absolute_index_to_m_n_batch (cube_pos t) (of_nat m) (of_nat n) (hc_global_order config)"
      using sm by (simp add: as_args_def cube_pos_to_tensor_pos_def cube_pos_def)
    moreover have "num_valid_cubes (as_args plan) = Ret (of_nat m * of_nat n * of_nat b)"
      using sm by (simp add: as_args_def num_valid_cubes_def)
    ultimately show ?thesis using entry_guard [OF t, of m n b] sc sm small XY by simp
  qed
  then have "covers m n b (grid X Y 1) (matmul_entry config (as_args plan))"
    using sc sm small order XY by (intro flat_covers) simp_all
  then show ?thesis using sm limits by (auto simp: resolve_def X_def Y_def split: if_splits)
next
  case flattened
  let ?N = "m * n * b"
  have "matmul_entry config (as_args plan) t = Ret (if unat (cube_pos t) < ?N
      then Some (absolute_index_to_m_n_batch (cube_pos t) (of_nat m) (of_nat n) (hc_global_order config)) else None)"
    if t: "t \<in> grid ?N 1 1" for t
  proof -
    have "cube_pos_y t = 0" "cube_pos_z t = 0" using t by (simp_all add: grid_def unat_eq_0)
    then have "cube_pos t = cube_pos_x t" by (simp add: cube_pos_def)
    moreover have "unat (cube_pos_x t) < ?N" using t by (simp add: grid_def)
    ultimately show ?thesis using extra flattened
      by (simp add: matmul_entry_def as_args_def can_yield_extra_cubes_def cube_pos_to_tensor_pos_def)
  qed
  then have "covers m n b (grid ?N 1 1) (matmul_entry config (as_args plan))"
    using flattened small order by (intro flat_covers) simp_all
  then show ?thesis using flattened limits by (auto simp: resolve_def mul3_Ret bindE_eq_Ret)
next
  case (spread x y z)
  have e: "config_can_yield_extra_cubes (hc_plan_config config) \<longleftrightarrow> x * y * z \<noteq> m * n * b"
    using extra spread by (auto simp: can_yield_extra_cubes_def bindE_eq_Ret mul3_Ret)
  have "matmul_entry config (as_args plan) t = Ret (if unat (cube_pos t) < m * n * b
      then Some (absolute_index_to_m_n_batch (cube_pos t) (of_nat m) (of_nat n) (hc_global_order config)) else None)"
    if t: "t \<in> grid x y z" for t
    using entry_guard [OF t, of m n b "as_args plan" config] e spread small
    by (simp add: as_args_def num_valid_cubes_def cube_pos_to_tensor_pos_def)
  then have "covers m n b (grid x y z) (matmul_entry config (as_args plan))"
    using spread small order by (intro flat_covers) simp_all
  then show ?thesis using spread by (simp add: resolve_def)
qed

lemma launch_covers:
  assumes "to_hypercube_config sel problem (Static max_x max_y max_z) = Ret config"
    and "validate config problem = Ret None"
    and "0 < max_x" "0 < max_y" "0 < max_z"
    and "\<And>w. hs_global_order sel \<in> {SwizzleRowMajor w, SwizzleColMajor w} \<Longrightarrow> w < 2 ^ 32"
  obtains plan m n b X Y Z where "from_config config problem (Static max_x max_y max_z) = Ret plan"
    "cubes_of (hs_cube_span sel) problem = Ret (m, n, b)"
    "resolve plan = Ret (Static X Y Z)" "X \<le> max_x" "Y \<le> max_y" "Z \<le> max_z"
    "covers m n b (grid X Y Z) (matmul_entry config (as_args plan))"
proof (rule config_plan [OF assms(1)])
  fix plan m n b
  assume plan: "from_config config problem (Static max_x max_y max_z) = Ret plan"
    and cubes: "cubes_of (hs_cube_span sel) problem = Ret (m, n, b)"
    and for_plan: "plan_for (m, n, b) (max_x, max_y, max_z) plan"
    and extra: "can_yield_extra_cubes plan = Ret (config_can_yield_extra_cubes (hc_plan_config config))"
    and config: "hc_cube_span config = hs_cube_span sel" "hc_global_order config = hs_global_order sel"
  have "order_supports (hc_global_order config) (of_nat m) (of_nat n)" if "m * n < 2 ^ 32"
    using assms(2) cubes assms(6) that config by (intro validate_order) simp_all
  from plan_covers [OF for_plan extra this cubes_of_Ret(1-3) [OF cubes] assms(3-5)] plan cubes that
  show ?thesis by blast
qed

section \<open>An example\<close>

text \<open>A 96 by 64 product in four batches, in tiles of 32 by 32 by two batches, on eight multiprocessors: twelve tiles on
  sixteen cubes.\<close>

abbreviation example_problem :: matmul_problem where
  "example_problem \<equiv> \<lparr>mp_m = 96, mp_n = 64, mp_k = 16, mp_lhs_batches = [4], mp_rhs_batches = [4],
     mp_lhs_layout = RowMajorL, mp_rhs_layout = ColMajorL\<rparr>"

abbreviation example_span :: cube_span where
  "example_span \<equiv> \<lparr>cs_m = 32, cs_n = 32, cs_batch = 2\<rparr>"

abbreviation example_selection :: hypercube_selection where
  "example_selection \<equiv> \<lparr>hs_cube_span = example_span, hs_global_order = SwizzleRowMajor 3, hs_plan_selection = SmS False 8 Full\<rparr>"

abbreviation example_config :: hypercube_config where
  "example_config \<equiv> \<lparr>hc_cube_span = example_span, hc_global_order = SwizzleRowMajor 3, hc_plan_config = SmC False 8 Full True\<rparr>"

abbreviation example_plan :: cube_count_plan where
  "example_plan \<equiv> Sm False 8 2 3 2 2 8 Full"

lemma example_batches: "num_batches example_problem = Ret 4"
  by (simp add: num_batches_def productE_def output_batch_dims_def mul_u64_def)

lemma example_cubes: "cubes_of example_span example_problem = Ret (3, 2, 2)"
  by (simp add: cubes_of_def div_ceil_u32_def to_u32_def example_batches)

lemma example_launch:
  "from_config example_config example_problem (Static 100 100 100) = Ret example_plan"
  "to_hypercube_config example_selection example_problem (Static 100 100 100) = Ret example_config"
  "validate example_config example_problem = Ret None" "resolve example_plan = Ret (Static 8 2 1)"
proof -
  have alloc: "allocate Full 8 12 = Ret (8, 2)" using allocate_full [of 8 12] by simp
  show "from_config example_config example_problem (Static 100 100 100) = Ret example_plan"
    by (simp add: from_config_def static_max_def example_cubes mul3_u32_def mul_u32_def alloc)
  show "to_hypercube_config example_selection example_problem (Static 100 100 100) = Ret example_config"
    by (simp add: to_hypercube_config_def from_selection_def static_max_def example_cubes mul3_u32_def mul_u32_def alloc
        from_cube_count_plan_def can_yield_extra_cubes_def)
  show "validate example_config example_problem = Ret None"
    by (simp add: validate_def div_ceil_u32_def to_u32_def rem_u32_def)
qed (simp add: resolve_def)

section \<open>Every tile has one cube\<close>

text \<open>
  C30. Whatever strategy is selected, the host launches a grid within the device's limits in which every tile of the
  output is computed by exactly one cube: the plan recomputed from the kernel's configuration resolves to a grid, no
  cube of it fails, a cube the guard lets through works on a tile inside the output, and every tile is given to one
  cube. The hypotheses say that the configuration was built and validated without an error.
\<close>

theorem every_tile_has_one_cube:
  assumes "to_hypercube_config sel problem (Static max_x max_y max_z) = Ret config"
    and "validate config problem = Ret None"
    and "0 < max_x" "0 < max_y" "0 < max_z"
    and "\<And>w. hs_global_order sel \<in> {SwizzleRowMajor w, SwizzleColMajor w} \<Longrightarrow> w < 2 ^ 32"
  shows "\<exists>plan m n b X Y Z. from_config config problem (Static max_x max_y max_z) = Ret plan \<and>
    cubes_of (hs_cube_span sel) problem = Ret (m, n, b) \<and>
    resolve plan = Ret (Static X Y Z) \<and> X \<le> max_x \<and> Y \<le> max_y \<and> Z \<le> max_z \<and>
    covers m n b (grid X Y Z) (matmul_entry config (as_args plan))"
  by (rule launch_covers [OF assms]) (assumption, (intro exI conjI; assumption))

theorem every_tile_has_one_cube_witness:
  "covers 3 2 2 (grid 8 2 1) (matmul_entry example_config (as_args example_plan))"
  using every_tile_has_one_cube [OF example_launch(2,3)] example_launch(1,4) example_cubes by simp

end
