(* ===== verification/Matmul_Tiling.thy ===== *)
theory Matmul_Tiling
  imports Machine_Words
begin

text \<open>
  The tiling scheme of a matrix multiplication: \<open>cubecl-matmul/src/components/size.rs\<close>,
  \<open>tiling_scheme.rs\<close> and the kinds of problems of \<open>problem.rs\<close>. A cube computes a global partition, which is
  made of stages, which are made of partitions, which are made of tiles, which are made of elements. The counts
  are computed on the host, with overflow checks.
\<close>

section \<open>Sizes\<close>

datatype matmul_dim = DimM | DimN | DimK

text \<open>The macro \<open>define_3d_size_base\<close> gives four structures of this form. Their fields are bytes, except those of
  the problem size.\<close>

record size3 =
  sz_m :: nat
  sz_n :: nat
  sz_k :: nat

abbreviation u8_bound :: nat where "u8_bound \<equiv> 256"

definition size_new :: "nat \<Rightarrow> nat \<Rightarrow> nat \<Rightarrow> nat \<Rightarrow> size3 exec" where
  "size_new bound m n k =
     (let try_from = (\<lambda>x. unwrap (if x < bound then Some x else None)) in
      bindE (try_from m) (\<lambda>m. bindE (try_from n) (\<lambda>n. bindE (try_from k) (\<lambda>k.
      Ret \<lparr>sz_m = m, sz_n = n, sz_k = k\<rparr>))))"

definition size_get :: "size3 \<Rightarrow> matmul_dim \<Rightarrow> nat" where
  "size_get self d = (case d of DimM \<Rightarrow> sz_m self | DimN \<Rightarrow> sz_n self | DimK \<Rightarrow> sz_k self)"

definition size_mn :: "size3 \<Rightarrow> nat exec" where
  "size_mn self = mul_u32 (size_get self DimM) (size_get self DimN)"

definition size_mk :: "size3 \<Rightarrow> nat exec" where
  "size_mk self = mul_u32 (size_get self DimM) (size_get self DimK)"

definition size_nk :: "size3 \<Rightarrow> nat exec" where
  "size_nk self = mul_u32 (size_get self DimN) (size_get self DimK)"

definition size_mnk :: "size3 \<Rightarrow> nat exec" where
  "size_mnk self = bindE (mul_u32 (size_get self DimM) (size_get self DimN)) (\<lambda>mn. mul_u32 mn (size_get self DimK))"

record global_partition_size =
  gp_m :: nat
  gp_n :: nat
  gp_batches :: nat

section \<open>Kinds of problems\<close>

datatype matmul_kind =
  General | MatVec | VecMat | ScalarVec | VecScalar | InnerProduct | OuterProduct | ScalarProduct

datatype dim_kind = ScalarD | VectorD

definition dim_kind_of :: "nat \<Rightarrow> dim_kind" where
  "dim_kind_of x = (if x = 1 then ScalarD else VectorD)"

definition matmul_kind_of :: "size3 \<Rightarrow> matmul_kind" where
  "matmul_kind_of s =
     (case (dim_kind_of (size_get s DimM), dim_kind_of (size_get s DimN), dim_kind_of (size_get s DimK)) of
        (ScalarD, ScalarD, ScalarD) \<Rightarrow> ScalarProduct
      | (ScalarD, ScalarD, VectorD) \<Rightarrow> InnerProduct
      | (ScalarD, VectorD, ScalarD) \<Rightarrow> ScalarVec
      | (ScalarD, VectorD, VectorD) \<Rightarrow> VecMat
      | (VectorD, ScalarD, ScalarD) \<Rightarrow> VecScalar
      | (VectorD, ScalarD, VectorD) \<Rightarrow> MatVec
      | (VectorD, VectorD, ScalarD) \<Rightarrow> OuterProduct
      | (VectorD, VectorD, VectorD) \<Rightarrow> General)"

section \<open>The scheme and its builder\<close>

record tiling_scheme =
  ts_tile_size :: size3
  ts_partition_size :: size3
  ts_stage_size :: size3
  ts_global_partition_size :: global_partition_size

record tiling_scheme_builder =
  tb_tile_size :: "size3 option"
  tb_partition_size :: "size3 option"
  tb_stage_size :: "size3 option"
  tb_global_partition_size :: "global_partition_size option"

definition tiling_builder :: tiling_scheme_builder where
  "tiling_builder = \<lparr>tb_tile_size = None, tb_partition_size = None, tb_stage_size = None, tb_global_partition_size = None\<rparr>"

definition with_tile_size :: "tiling_scheme_builder \<Rightarrow> size3 \<Rightarrow> tiling_scheme_builder" where
  "with_tile_size self s = self\<lparr>tb_tile_size := Some s\<rparr>"

definition with_partition_size :: "tiling_scheme_builder \<Rightarrow> size3 \<Rightarrow> tiling_scheme_builder" where
  "with_partition_size self s = self\<lparr>tb_partition_size := Some s\<rparr>"

definition with_stage_size :: "tiling_scheme_builder \<Rightarrow> size3 \<Rightarrow> tiling_scheme_builder exec" where
  "with_stage_size self s =
     bindE (if sz_k s = 1 then Ret () else Panic (Explicit ''Stage size k > 1 is not supported''))
       (\<lambda>_. Ret (self\<lparr>tb_stage_size := Some s\<rparr>))"

definition with_global_partition_size ::
  "tiling_scheme_builder \<Rightarrow> global_partition_size \<Rightarrow> tiling_scheme_builder" where
  "with_global_partition_size self s = self\<lparr>tb_global_partition_size := Some s\<rparr>"

text \<open>\<open>Inl\<close> is the error of the builder.\<close>

definition tiling_build :: "tiling_scheme_builder \<Rightarrow> string + tiling_scheme" where
  "tiling_build self =
     (case tb_tile_size self of None \<Rightarrow> Inl ''Missing tile_size'' | Some tile \<Rightarrow>
      case tb_partition_size self of None \<Rightarrow> Inl ''Missing tiles_per_partition'' | Some part \<Rightarrow>
      case tb_stage_size self of None \<Rightarrow> Inl ''Missing partitions_per_stage'' | Some stage \<Rightarrow>
      Inr \<lparr>ts_tile_size = tile, ts_partition_size = part, ts_stage_size = stage,
           ts_global_partition_size =
             (case tb_global_partition_size self of
                None \<Rightarrow> \<lparr>gp_m = 1, gp_n = 1, gp_batches = 1\<rparr>
              | Some g \<Rightarrow> g)\<rparr>)"

section \<open>Counts between levels\<close>

datatype tiling_level = GlobalPartition | Stage | StagePartition | Tile | Element

text \<open>The operator \<open>?\<close>, and the product of two optional counts.\<close>

definition tryE :: "'a option exec \<Rightarrow> ('a \<Rightarrow> 'b option exec) \<Rightarrow> 'b option exec" where
  "tryE m f = bindE m (\<lambda>r. case r of None \<Rightarrow> Ret None | Some x \<Rightarrow> f x)"

definition timesE :: "nat option exec \<Rightarrow> nat option exec \<Rightarrow> nat option exec" where
  "timesE a b = tryE a (\<lambda>x. tryE b (\<lambda>y. bindE (mul_u32 x y) (\<lambda>p. Ret (Some p))))"

primrec level_depth :: "tiling_level \<Rightarrow> nat" where
  "level_depth GlobalPartition = 0"
| "level_depth Stage = 1"
| "level_depth StagePartition = 2"
| "level_depth Tile = 3"
| "level_depth Element = 4"

function try_count_1d :: "tiling_scheme \<Rightarrow> tiling_level \<Rightarrow> tiling_level \<Rightarrow> matmul_dim \<Rightarrow> nat option exec" where
  "try_count_1d self child parent d =
     (if child = parent then Ret (Some 1)
      else case (child, parent) of
        (Stage, GlobalPartition) \<Rightarrow>
          (case d of
             DimM \<Rightarrow> Ret (Some (gp_m (ts_global_partition_size self)))
           | DimN \<Rightarrow> Ret (Some (gp_n (ts_global_partition_size self)))
           | DimK \<Rightarrow> Ret None)
      | (StagePartition, Stage) \<Rightarrow> Ret (Some (size_get (ts_stage_size self) d))
      | (Tile, StagePartition) \<Rightarrow> Ret (Some (size_get (ts_partition_size self) d))
      | (Element, Tile) \<Rightarrow> Ret (Some (size_get (ts_tile_size self) d))
      | (StagePartition, GlobalPartition) \<Rightarrow>
          timesE (try_count_1d self StagePartition Stage d) (try_count_1d self Stage GlobalPartition d)
      | (Tile, GlobalPartition) \<Rightarrow>
          timesE (try_count_1d self Tile Stage d) (try_count_1d self Stage GlobalPartition d)
      | (Element, GlobalPartition) \<Rightarrow>
          timesE (try_count_1d self Element Stage d) (try_count_1d self Stage GlobalPartition d)
      | (Tile, Stage) \<Rightarrow>
          timesE (try_count_1d self StagePartition Stage d) (try_count_1d self Tile StagePartition d)
      | (Element, Stage) \<Rightarrow>
          timesE (try_count_1d self Tile Stage d) (try_count_1d self Element Tile d)
      | (Element, StagePartition) \<Rightarrow>
          timesE (try_count_1d self Tile StagePartition d) (try_count_1d self Element Tile d)
      | _ \<Rightarrow> Ret None)"
  by pat_completeness auto
termination by (relation "measure (\<lambda>(_, child, parent, _). level_depth child - level_depth parent)") auto

declare try_count_1d.simps [simp del]

definition try_count_2d ::
  "tiling_scheme \<Rightarrow> tiling_level \<Rightarrow> tiling_level \<Rightarrow> matmul_dim \<Rightarrow> matmul_dim \<Rightarrow> nat option exec" where
  "try_count_2d self child parent dim1 dim2 =
     timesE (try_count_1d self child parent dim1) (try_count_1d self child parent dim2)"

definition or_invalid :: "nat option exec \<Rightarrow> nat exec" where
  "or_invalid m = bindE m (\<lambda>r. case r of Some n \<Rightarrow> Ret n | None \<Rightarrow> Panic (Explicit ''Invalid hierarchy''))"

definition count_1d :: "tiling_scheme \<Rightarrow> tiling_level \<Rightarrow> tiling_level \<Rightarrow> matmul_dim \<Rightarrow> nat exec" where
  "count_1d self child parent d = or_invalid (try_count_1d self child parent d)"

datatype stage_ident = LhsS | RhsS | AccS

definition count_1d_ident_row :: "tiling_scheme \<Rightarrow> tiling_level \<Rightarrow> tiling_level \<Rightarrow> stage_ident \<Rightarrow> nat exec" where
  "count_1d_ident_row self child parent ident =
     (case ident of
        LhsS \<Rightarrow> count_1d self child parent DimM
      | RhsS \<Rightarrow> count_1d self child parent DimK
      | AccS \<Rightarrow> count_1d self child parent DimM)"

definition count_1d_ident_col :: "tiling_scheme \<Rightarrow> tiling_level \<Rightarrow> tiling_level \<Rightarrow> stage_ident \<Rightarrow> nat exec" where
  "count_1d_ident_col self child parent ident =
     (case ident of
        LhsS \<Rightarrow> count_1d self child parent DimK
      | RhsS \<Rightarrow> count_1d self child parent DimN
      | AccS \<Rightarrow> count_1d self child parent DimN)"

definition count_2d :: "tiling_scheme \<Rightarrow> tiling_level \<Rightarrow> tiling_level \<Rightarrow> matmul_dim \<Rightarrow> matmul_dim \<Rightarrow> nat exec" where
  "count_2d self child parent dim1 dim2 = or_invalid (try_count_2d self child parent dim1 dim2)"

definition count_2d_ident :: "tiling_scheme \<Rightarrow> tiling_level \<Rightarrow> tiling_level \<Rightarrow> stage_ident \<Rightarrow> nat exec" where
  "count_2d_ident self child parent ident =
     (case ident of
        LhsS \<Rightarrow> count_2d self child parent DimM DimK
      | RhsS \<Rightarrow> count_2d self child parent DimK DimN
      | AccS \<Rightarrow> count_2d self child parent DimM DimN)"

text \<open>The methods the macros generate that the batch level calls.\<close>

definition elements_in_stage_m :: "tiling_scheme \<Rightarrow> nat exec" where
  "elements_in_stage_m self = count_1d self Element Stage DimM"

definition elements_in_stage_n :: "tiling_scheme \<Rightarrow> nat exec" where
  "elements_in_stage_n self = count_1d self Element Stage DimN"

definition elements_in_global_partition_m :: "tiling_scheme \<Rightarrow> nat exec" where
  "elements_in_global_partition_m self = count_1d self Element GlobalPartition DimM"

definition elements_in_global_partition_n :: "tiling_scheme \<Rightarrow> nat exec" where
  "elements_in_global_partition_n self = count_1d self Element GlobalPartition DimN"

section \<open>Counts are products\<close>

text \<open>How many children of the next lower level a level has.\<close>

definition branching :: "tiling_scheme \<Rightarrow> matmul_dim \<Rightarrow> nat \<Rightarrow> nat" where
  "branching s d i =
     (if i = 0 then (case d of DimM \<Rightarrow> gp_m (ts_global_partition_size s) | _ \<Rightarrow> gp_n (ts_global_partition_size s))
      else if i = 1 then size_get (ts_stage_size s) d
      else if i = 2 then size_get (ts_partition_size s) d
      else size_get (ts_tile_size s) d)"

text \<open>The product of the sizes between two levels.\<close>

definition level_product :: "tiling_scheme \<Rightarrow> matmul_dim \<Rightarrow> tiling_level \<Rightarrow> tiling_level \<Rightarrow> nat" where
  "level_product s d child parent = prod_list (map (branching s d) [level_depth parent ..< level_depth child])"

text \<open>The fields of a scheme are machine integers of their widths.\<close>

definition scheme_wf :: "tiling_scheme \<Rightarrow> bool" where
  "scheme_wf s \<longleftrightarrow>
     (\<forall>d. size_get (ts_tile_size s) d < u8_bound \<and> size_get (ts_partition_size s) d < u8_bound \<and>
          size_get (ts_stage_size s) d < u8_bound) \<and>
     gp_m (ts_global_partition_size s) < 2 ^ 32 \<and> gp_n (ts_global_partition_size s) < 2 ^ 32 \<and>
     gp_batches (ts_global_partition_size s) < 2 ^ 32"

lemma byte_products:
  fixes a b c :: nat
  assumes "a < 256" "b < 256" "c < 256"
  shows "a * b < 2 ^ 32" "a * b * c < 2 ^ 32"
proof -
  have ab: "a * b \<le> 255 * 255" using assms by (intro mult_mono) auto
  then show "a * b < 2 ^ 32" by simp
  have "a * b * c \<le> (255 * 255) * 255" using assms(3) by (intro mult_mono [OF ab]) auto
  then show "a * b * c < 2 ^ 32" by simp
qed

lemma timesE_Ret [simp]:
  "timesE (Ret (Some x)) (Ret (Some y)) = (if x * y < 2 ^ 32 then Ret (Some (x * y)) else Panic ArithmeticOverflow)"
  "timesE (Ret None) b = Ret None" "timesE (Ret (Some x)) (Ret None) = Ret None"
  by (simp_all add: timesE_def tryE_def mul_u32_def)

lemma stage_counts:
  assumes "scheme_wf s"
  shows "try_count_1d s StagePartition Stage d = Ret (Some (size_get (ts_stage_size s) d))"
    "try_count_1d s Tile StagePartition d = Ret (Some (size_get (ts_partition_size s) d))"
    "try_count_1d s Element Tile d = Ret (Some (size_get (ts_tile_size s) d))"
    "try_count_1d s Tile Stage d = Ret (Some (size_get (ts_stage_size s) d * size_get (ts_partition_size s) d))"
    "try_count_1d s Element StagePartition d = Ret (Some (size_get (ts_partition_size s) d * size_get (ts_tile_size s) d))"
    "try_count_1d s Element Stage d =
       Ret (Some (size_get (ts_stage_size s) d * size_get (ts_partition_size s) d * size_get (ts_tile_size s) d))"
proof -
  have b: "size_get (ts_tile_size s) d < 256" "size_get (ts_partition_size s) d < 256" "size_get (ts_stage_size s) d < 256"
    using assms by (auto simp: scheme_wf_def)
  show 1: "try_count_1d s StagePartition Stage d = Ret (Some (size_get (ts_stage_size s) d))"
    and 2: "try_count_1d s Tile StagePartition d = Ret (Some (size_get (ts_partition_size s) d))"
    and 3: "try_count_1d s Element Tile d = Ret (Some (size_get (ts_tile_size s) d))"
    by (simp_all add: try_count_1d.simps [of s _ _ d])
  show 4: "try_count_1d s Tile Stage d = Ret (Some (size_get (ts_stage_size s) d * size_get (ts_partition_size s) d))"
    using byte_products(1) [OF b(3,2,2)] by (simp add: try_count_1d.simps [of s Tile Stage] 1 2)
  show "try_count_1d s Element StagePartition d = Ret (Some (size_get (ts_partition_size s) d * size_get (ts_tile_size s) d))"
    using byte_products(1) [OF b(2,1,1)] by (simp add: try_count_1d.simps [of s Element StagePartition] 2 3)
  show "try_count_1d s Element Stage d =
      Ret (Some (size_get (ts_stage_size s) d * size_get (ts_partition_size s) d * size_get (ts_tile_size s) d))"
    using byte_products(2) [OF b(3,2,1)] by (simp add: try_count_1d.simps [of s Element Stage] 4 3)
qed

lemma level_product_mult:
  assumes "level_depth c \<le> level_depth b" "level_depth b \<le> level_depth a"
  shows "level_product s d a c = level_product s d a b * level_product s d b c"
proof -
  have "[level_depth c..<level_depth a] = [level_depth c..<level_depth b] @ [level_depth b..<level_depth a]"
    using assms upt_add_eq_append [of "level_depth c" "level_depth b" "level_depth a - level_depth b"] by simp
  then show ?thesis by (simp add: level_product_def mult.commute)
qed

lemma level_product_same [simp]: "level_product s d l l = 1"
  by (simp add: level_product_def)

lemma level_products [simp]:
  "level_product s d Stage GlobalPartition = branching s d 0"
  "level_product s d StagePartition Stage = size_get (ts_stage_size s) d"
  "level_product s d Tile StagePartition = size_get (ts_partition_size s) d"
  "level_product s d Element Tile = size_get (ts_tile_size s) d"
  by (simp_all add: level_product_def branching_def eval_nat_numeral)

lemma level_products2 [simp]:
  "level_product s d StagePartition GlobalPartition = size_get (ts_stage_size s) d * branching s d 0"
  "level_product s d Tile GlobalPartition = size_get (ts_stage_size s) d * size_get (ts_partition_size s) d * branching s d 0"
  "level_product s d Element GlobalPartition =
     size_get (ts_stage_size s) d * size_get (ts_partition_size s) d * size_get (ts_tile_size s) d * branching s d 0"
  "level_product s d Tile Stage = size_get (ts_stage_size s) d * size_get (ts_partition_size s) d"
  "level_product s d Element Stage = size_get (ts_stage_size s) d * size_get (ts_partition_size s) d * size_get (ts_tile_size s) d"
  "level_product s d Element StagePartition = size_get (ts_partition_size s) d * size_get (ts_tile_size s) d"
  by (simp_all add: level_product_mult [of GlobalPartition Stage] level_product_mult [of Stage StagePartition]
      level_product_mult [of StagePartition Tile])

lemma stage_count_in_partition:
  "try_count_1d s Stage GlobalPartition d = (if d = DimK then Ret None else Ret (Some (branching s d 0)))"
  by (cases d) (simp_all add: try_count_1d.simps [of s Stage GlobalPartition] branching_def)

lemma global_counts:
  assumes "scheme_wf s" "child \<in> {StagePartition, Tile, Element}"
  shows "try_count_1d s child GlobalPartition d = timesE (Ret (Some (level_product s d child Stage)))
    (if d = DimK then Ret None else Ret (Some (branching s d 0)))"
  using assms(2)
  by (auto simp: try_count_1d.simps [of s _ GlobalPartition] stage_counts [OF assms(1)] stage_count_in_partition)

lemma no_count: "level_depth child < level_depth parent \<Longrightarrow> try_count_1d s child parent d = Ret None"
  by (cases child; cases parent) (simp_all add: try_count_1d.simps [of s])

lemma count_same: "try_count_1d s l l d = Ret (Some 1)"
  by (simp add: try_count_1d.simps [of s])

text \<open>
  C33. The count of the tilings of one level in another is the product of the sizes between the two levels, whichever
  way the code multiplies them: it is \<open>None\<close> exactly for a level that cannot contain the other, or for the reduction
  dimension of a global partition, and it fails exactly when the product does not fit 32 bits.
\<close>

theorem try_count_1d_product:
  assumes "scheme_wf s"
  shows "try_count_1d s child parent d =
    (if level_depth child < level_depth parent \<or> parent = GlobalPartition \<and> child \<noteq> GlobalPartition \<and> d = DimK
     then Ret None
     else if level_product s d child parent < 2 ^ 32 then Ret (Some (level_product s d child parent))
     else Panic ArithmeticOverflow)"
proof -
  have b: "size_get (ts_tile_size s) d < 256" "size_get (ts_partition_size s) d < 256" "size_get (ts_stage_size s) d < 256"
    using assms by (auto simp: scheme_wf_def)
  note small = byte_products [OF b(3,2,1)] byte_products(1) [OF b(2,1,1)]
  show ?thesis
  proof (cases "level_depth child \<le> level_depth parent")
    case True
    then show ?thesis
      by (cases child; cases parent) (simp_all add: no_count count_same)
  next
    case deeper: False
    show ?thesis
    proof (cases "parent = GlobalPartition")
      case True
      moreover have "branching s d 0 < 2 ^ 32" using assms by (cases d) (auto simp: scheme_wf_def branching_def)
      ultimately show ?thesis using deeper global_counts [OF assms, of child d]
        by (cases child) (simp_all add: stage_count_in_partition)
    next
      case False
      then show ?thesis using deeper small b
        by (cases child; cases parent) (simp_all add: stage_counts [OF assms])
    qed
  qed
qed

theorem try_count_1d_product_witness:
  "try_count_1d \<lparr>ts_tile_size = \<lparr>sz_m = 16, sz_n = 16, sz_k = 16\<rparr>, ts_partition_size = \<lparr>sz_m = 4, sz_n = 2, sz_k = 2\<rparr>,
     ts_stage_size = \<lparr>sz_m = 3, sz_n = 5, sz_k = 1\<rparr>, ts_global_partition_size = \<lparr>gp_m = 2, gp_n = 1, gp_batches = 1\<rparr>\<rparr>
     Element GlobalPartition DimM = Ret (Some 384)"
  (is "try_count_1d ?s _ _ _ = _")
proof -
  have "scheme_wf ?s" by (simp add: scheme_wf_def size_get_def split: matmul_dim.split)
  from try_count_1d_product [OF this, of Element GlobalPartition DimM]
  show ?thesis by (simp add: branching_def size_get_def)
qed

end
