(* ===== verification/Matmul_Partition.thy ===== *)
theory Matmul_Partition
  imports Matmul_Launch Matmul_Tiling
begin

text \<open>
  What a cube of a matrix multiplication does: the builder of a hypercube selection of \<open>hypercube/base.rs\<close>,
  \<open>batch/partitioned_matmul/matmul.rs\<close> and \<open>partition/matmul.rs\<close>. A cube runs one global matrix multiplication per
  stage of its global partition; a run is the list of these calls with the offsets they are given.
\<close>

section \<open>Problems\<close>

definition problem_size :: "matmul_problem \<Rightarrow> size3 exec" where
  "problem_size problem = size_new (2 ^ 32) (to_u32 (mp_m problem)) (to_u32 (mp_n problem)) (to_u32 (mp_k problem))"

definition problem_kind :: "matmul_problem \<Rightarrow> matmul_kind exec" where
  "problem_kind problem =
     bindE (size_new (2 ^ 32) (to_u32 (mp_m problem)) (to_u32 (mp_n problem)) (to_u32 (mp_k problem)))
       (\<lambda>s. Ret (matmul_kind_of s))"

section \<open>Building a selection\<close>

record hypercube_selection_builder =
  hb_tiling_scheme :: tiling_scheme
  hb_global_order :: global_order_selection
  hb_cube_count_plan :: "cube_count_plan_selection option"

definition selection_builder :: "tiling_scheme \<Rightarrow> hypercube_selection_builder" where
  "selection_builder ts = \<lparr>hb_tiling_scheme = ts, hb_global_order = DefaultOrder, hb_cube_count_plan = None\<rparr>"

definition with_global_order ::
  "hypercube_selection_builder \<Rightarrow> global_order_selection \<Rightarrow> hypercube_selection_builder" where
  "with_global_order self order = self\<lparr>hb_global_order := order\<rparr>"

definition with_cube_count_plan ::
  "hypercube_selection_builder \<Rightarrow> cube_count_plan_selection \<Rightarrow> hypercube_selection_builder" where
  "with_cube_count_plan self plan = self\<lparr>hb_cube_count_plan := Some plan\<rparr>"

definition selection_build :: "hypercube_selection_builder \<Rightarrow> hypercube_selection exec" where
  "selection_build self =
     bindE (elements_in_global_partition_m (hb_tiling_scheme self)) (\<lambda>m.
     bindE (elements_in_global_partition_n (hb_tiling_scheme self)) (\<lambda>n.
     let sp = \<lparr>cs_m = m, cs_n = n, cs_batch = gp_batches (ts_global_partition_size (hb_tiling_scheme self))\<rparr> in
     bindE (into_order (hb_global_order self) sp) (\<lambda>order.
     Ret \<lparr>hs_cube_span = sp, hs_global_order = order,
          hs_plan_selection = (case hb_cube_count_plan self of None \<Rightarrow> FromProblemS | Some plan \<Rightarrow> plan)\<rparr>)))"

section \<open>Ranges of a cube\<close>

record partition_range_dim =
  pr_start :: u32
  pr_step :: nat
  pr_num_steps :: nat

record partition_ranges =
  pr_row :: partition_range_dim
  pr_col :: partition_range_dim
  pr_batch :: partition_range_dim

text \<open>The stage and partition sizes are known when the kernel is compiled; the start is computed in the kernel.\<close>

definition partition_range_dim_new :: "u32 \<Rightarrow> nat \<Rightarrow> nat \<Rightarrow> partition_range_dim exec" where
  "partition_range_dim_new cube_index stage_dim global_partition_dim =
     bindE (div_ceil_u32 global_partition_dim stage_dim) (\<lambda>num_steps.
     Ret \<lparr>pr_start = cube_index * of_nat global_partition_dim, pr_step = stage_dim, pr_num_steps = num_steps\<rparr>)"

section \<open>One global matrix multiplication\<close>

record tensor_view =
  tv_shape :: "u32 list"
  tv_stride :: "u32 list"

text \<open>The arguments of the loaders and of the writer.\<close>

record global_call =
  gc_lhs :: "u32 \<times> u32 \<times> u32 \<times> u32"
  gc_rhs :: "u32 \<times> u32 \<times> u32 \<times> u32"
  gc_writer :: "u32 \<times> u32 \<times> u32 \<times> u32"
  gc_k_range :: "u32 \<times> u32"

definition batch_step :: "tensor_view \<Rightarrow> tensor_view \<Rightarrow> u32 \<Rightarrow> nat \<Rightarrow> u32 \<Rightarrow> u32" where
  "batch_step input out batch_out axis batch =
     batch + batch_out div (tv_stride out ! axis) mod (tv_shape input ! axis) * (tv_stride input ! axis)"

definition execute_global_matmul ::
  "tensor_view \<Rightarrow> tensor_view \<Rightarrow> tensor_view \<Rightarrow> u32 \<Rightarrow> u32 \<Rightarrow> u32 \<Rightarrow> u32 \<times> u32 \<Rightarrow> global_call" where
  "execute_global_matmul lhs rhs out m_offset n_offset nth_batch k_range =
     (let rank = length (tv_shape out);
          batch_out = nth_batch * (tv_stride out ! (rank - 2)) * (tv_shape out ! (rank - 2));
          batch_lhs = fold (batch_step lhs out batch_out) [0..<rank - 2] 0;
          batch_rhs = fold (batch_step rhs out batch_out) [0..<rank - 2] 0
      in \<lparr>gc_lhs = (m_offset, fst k_range, nth_batch, batch_lhs), gc_rhs = (fst k_range, n_offset, nth_batch, batch_rhs),
          gc_writer = (m_offset, n_offset, nth_batch, batch_out), gc_k_range = k_range\<rparr>)"

section \<open>All of them\<close>

definition row_major_execute ::
  "tensor_view \<Rightarrow> tensor_view \<Rightarrow> tensor_view \<Rightarrow> partition_ranges \<Rightarrow> u32 \<times> u32 \<Rightarrow> global_call list" where
  "row_major_execute lhs rhs out ranges k_range =
     concat (map (\<lambda>b.
       let batch_iter = pr_start (pr_batch ranges) + of_nat b * of_nat (pr_step (pr_batch ranges)) in
       concat (map (\<lambda>r.
         let row_offset = pr_start (pr_row ranges) + of_nat r * of_nat (pr_step (pr_row ranges)) in
         map (\<lambda>c.
           let col_offset = pr_start (pr_col ranges) + of_nat c * of_nat (pr_step (pr_col ranges)) in
           execute_global_matmul lhs rhs out row_offset col_offset batch_iter k_range)
         [0..<pr_num_steps (pr_col ranges)])
       [0..<pr_num_steps (pr_row ranges)]))
     [0..<pr_num_steps (pr_batch ranges)])"

definition col_major_execute ::
  "tensor_view \<Rightarrow> tensor_view \<Rightarrow> tensor_view \<Rightarrow> partition_ranges \<Rightarrow> u32 \<times> u32 \<Rightarrow> global_call list" where
  "col_major_execute lhs rhs out ranges k_range =
     concat (map (\<lambda>b.
       let batch_iter = pr_start (pr_batch ranges) + of_nat b * of_nat (pr_step (pr_batch ranges)) in
       concat (map (\<lambda>c.
         let col_offset = pr_start (pr_col ranges) + of_nat c * of_nat (pr_step (pr_col ranges)) in
         map (\<lambda>r.
           let row_offset = pr_start (pr_row ranges) + of_nat r * of_nat (pr_step (pr_row ranges)) in
           execute_global_matmul lhs rhs out row_offset col_offset batch_iter k_range)
         [0..<pr_num_steps (pr_row ranges)])
       [0..<pr_num_steps (pr_col ranges)]))
     [0..<pr_num_steps (pr_batch ranges)])"

datatype global_partition_matmul = RowMajorGlobalPartition | ColMajorGlobalPartition

definition partition_execute :: "global_partition_matmul \<Rightarrow> tensor_view \<Rightarrow> tensor_view \<Rightarrow> tensor_view \<Rightarrow>
  partition_ranges \<Rightarrow> u32 \<times> u32 \<Rightarrow> global_call list" where
  "partition_execute gpmm =
     (case gpmm of RowMajorGlobalPartition \<Rightarrow> row_major_execute | ColMajorGlobalPartition \<Rightarrow> col_major_execute)"

definition cube_ranges :: "tiling_scheme \<Rightarrow> u32 \<times> u32 \<times> u32 \<Rightarrow> partition_ranges exec" where
  "cube_ranges ts = (\<lambda>(m_index, n_index, batch_index).
     bindE (elements_in_stage_m ts) (\<lambda>stage_m. bindE (elements_in_global_partition_m ts) (\<lambda>part_m.
     bindE (partition_range_dim_new m_index stage_m part_m) (\<lambda>row.
     bindE (elements_in_stage_n ts) (\<lambda>stage_n. bindE (elements_in_global_partition_n ts) (\<lambda>part_n.
     bindE (partition_range_dim_new n_index stage_n part_n) (\<lambda>col.
     bindE (partition_range_dim_new batch_index 1 (gp_batches (ts_global_partition_size ts))) (\<lambda>batch.
     Ret \<lparr>pr_row = row, pr_col = col, pr_batch = batch\<rparr>))))))))"

text \<open>The body of a cube that the guard did not stop. The tile comes from the cube's position.\<close>

definition batch_execute :: "global_partition_matmul \<Rightarrow> tiling_scheme \<Rightarrow> tensor_view \<Rightarrow> tensor_view \<Rightarrow> tensor_view \<Rightarrow>
  u32 \<times> u32 \<times> u32 \<Rightarrow> global_call list exec" where
  "batch_execute gpmm ts lhs rhs out tile =
     (let problem_k = tv_shape lhs ! (length (tv_shape lhs) - 1); k_range = (0, problem_k) in
      bindE (cube_ranges ts tile) (\<lambda>ranges. Ret (partition_execute gpmm lhs rhs out ranges k_range)))"

definition matmul_kernel :: "global_partition_matmul \<Rightarrow> tiling_scheme \<Rightarrow> hypercube_config \<Rightarrow> tensor_view \<Rightarrow> tensor_view \<Rightarrow>
  tensor_view \<Rightarrow> cube_count_input \<Rightarrow> topology \<Rightarrow> global_call list exec" where
  "matmul_kernel gpmm ts config lhs rhs out args t =
     bindE (matmul_entry config args t) (\<lambda>r.
     case r of None \<Rightarrow> Ret [] | Some tile \<Rightarrow> batch_execute gpmm ts lhs rhs out tile)"

section \<open>One dimension\<close>

text \<open>The stages of a cube: \<open>G\<close> steps of \<open>W\<close> elements.\<close>

lemma stage_contains:
  fixes q r G W i :: nat
  assumes "0 < W"
  shows "q * (G * W) + r * W \<le> i \<and> i < q * (G * W) + r * W + W \<longleftrightarrow> i div W = q * G + r"
proof -
  have "q * (G * W) + r * W = (q * G + r) * W" by (simp add: algebra_simps)
  moreover have "k * W \<le> i \<and> i < k * W + W \<longleftrightarrow> i div W = k" for k
  proof
    assume "k * W \<le> i \<and> i < k * W + W"
    then show "i div W = k" by (intro div_nat_eqI) (simp_all add: mult.commute)
  next
    assume "i div W = k"
    then show "k * W \<le> i \<and> i < k * W + W"
      using div_times_less_eq_dividend [of i W] dividend_less_div_times [OF assms, of i] by auto
  qed
  ultimately show ?thesis by simp
qed

lemma stage_unique:
  fixes q G k :: nat
  assumes "0 < G"
  shows "(\<exists>r < G. k = q * G + r) \<longleftrightarrow> q = k div G"
  using assms by (metis add.commute digits2(1) div_mult_mod_eq mod_less_divisor)

definition stage_offset :: "partition_range_dim \<Rightarrow> nat \<Rightarrow> u32" where
  "stage_offset rd r = pr_start rd + of_nat r * of_nat (pr_step rd)"

definition range_of_cube :: "u32 \<Rightarrow> nat \<Rightarrow> nat \<Rightarrow> partition_range_dim" where
  "range_of_cube a G W = \<lparr>pr_start = a * of_nat (G * W), pr_step = W, pr_num_steps = G\<rparr>"

lemma partition_range_dim_new_eq:
  "0 < W \<Longrightarrow> partition_range_dim_new a W (G * W) = Ret (range_of_cube a G W)"
  using div_ceil_mult [of W G]
  by (simp add: partition_range_dim_new_def div_ceil_u32_def range_of_cube_def mult.commute)

lemma unat_stage_offset:
  assumes "unat a < Q" "r < G" "Q * (G * W) \<le> 2 ^ 32" "0 < W"
  shows "unat (stage_offset (range_of_cube a G W) r) = unat a * (G * W) + r * W"
proof -
  have "unat a * (G * W) + r * W < Suc (unat a) * (G * W)" using assms(2,4) by simp
  also have "\<dots> \<le> Q * (G * W)" using assms(1) by (intro mult_right_mono) auto
  finally have lt: "unat a * (G * W) + r * W < 2 ^ LENGTH(32)" using assms(3) by simp
  have "stage_offset (range_of_cube a G W) r = of_nat (unat a * (G * W) + r * W)"
    by (simp add: stage_offset_def range_of_cube_def)
  then show ?thesis using unat_of_nat_small [OF lt] by simp
qed

text \<open>The step of a cube that has an element, and which cube has one.\<close>

lemma offset_contains:
  assumes "unat a < Q" "r < G" "Q * (G * W) \<le> 2 ^ 32" "0 < W"
  shows "unat (stage_offset (range_of_cube a G W) r) \<le> i \<and> i < unat (stage_offset (range_of_cube a G W) r) + W \<longleftrightarrow>
    i div W = unat a * G + r"
  using stage_contains [OF assms(4), of "unat a" G r i] by (simp add: unat_stage_offset [OF assms])

lemma offset_inj:
  assumes "unat a < Q" "Q * (G * W) \<le> 2 ^ 32" "0 < W" "r < G" "r' < G"
    "stage_offset (range_of_cube a G W) r = stage_offset (range_of_cube a G W) r'"
  shows "r = r'"
proof -
  have "unat a * (G * W) + r * W = unat a * (G * W) + r' * W"
    using unat_stage_offset [OF assms(1,4,2,3)] unat_stage_offset [OF assms(1,5,2,3)] assms(6) by (simp only:)
  then show ?thesis using assms(3) by simp
qed

section \<open>The calls of a cube\<close>

lemma distinct_concat_map:
  assumes "distinct xs" "\<And>x. x \<in> set xs \<Longrightarrow> distinct (f x)"
    "\<And>x y c. x \<in> set xs \<Longrightarrow> y \<in> set xs \<Longrightarrow> c \<in> set (f x) \<Longrightarrow> c \<in> set (f y) \<Longrightarrow> x = y"
  shows "distinct (concat (map f xs))"
  using assms
proof (induction xs)
  case (Cons x xs)
  have "set (f x) \<inter> set (f y) = {}" if "y \<in> set xs" for y
    using Cons.prems(1) Cons.prems(3) [of x y] that by auto
  then show ?case using Cons by auto
qed simp

lemma execute_inj:
  "execute_global_matmul lhs rhs out m n b k = execute_global_matmul lhs rhs out m' n' b' k \<Longrightarrow> m = m' \<and> n = n' \<and> b = b'"
  by (simp add: execute_global_matmul_def Let_def)

text \<open>Three nested loops.\<close>

abbreviation loops3 :: "nat \<Rightarrow> nat \<Rightarrow> nat \<Rightarrow> (nat \<Rightarrow> nat \<Rightarrow> nat \<Rightarrow> 'a) \<Rightarrow> 'a list" where
  "loops3 l m n f \<equiv> concat (map (\<lambda>i. concat (map (\<lambda>j. map (f i j) [0..<n]) [0..<m])) [0..<l])"

lemma in_loops3: "x \<in> set (loops3 l m n f) \<longleftrightarrow> (\<exists>i < l. \<exists>j < m. \<exists>k < n. x = f i j k)"
  by (auto simp: atLeast0LessThan lessThan_def)

lemma distinct_loops3:
  assumes "\<And>i j k i' j' k'. i < l \<Longrightarrow> j < m \<Longrightarrow> k < n \<Longrightarrow> i' < l \<Longrightarrow> j' < m \<Longrightarrow> k' < n \<Longrightarrow>
    f i j k = f i' j' k' \<Longrightarrow> i = i' \<and> j = j' \<and> k = k'"
  shows "distinct (loops3 l m n f)"
proof (rule distinct_concat_map)
  fix i assume i: "i \<in> set [0..<l]"
  show "distinct (concat (map (\<lambda>j. map (f i j) [0..<n]) [0..<m]))"
  proof (rule distinct_concat_map)
    fix j assume "j \<in> set [0..<m]"
    then show "distinct (map (f i j) [0..<n])" using assms i by (auto simp: distinct_map inj_on_def)
  qed (use assms i in auto)
qed (use assms in auto)

lemma partition_execute_loops:
  "partition_execute RowMajorGlobalPartition lhs rhs out ranges k =
    loops3 (pr_num_steps (pr_batch ranges)) (pr_num_steps (pr_row ranges)) (pr_num_steps (pr_col ranges))
      (\<lambda>b r c. execute_global_matmul lhs rhs out (stage_offset (pr_row ranges) r) (stage_offset (pr_col ranges) c)
         (stage_offset (pr_batch ranges) b) k)"
  "partition_execute ColMajorGlobalPartition lhs rhs out ranges k =
    loops3 (pr_num_steps (pr_batch ranges)) (pr_num_steps (pr_col ranges)) (pr_num_steps (pr_row ranges))
      (\<lambda>b c r. execute_global_matmul lhs rhs out (stage_offset (pr_row ranges) r) (stage_offset (pr_col ranges) c)
         (stage_offset (pr_batch ranges) b) k)"
  by (simp_all add: partition_execute_def row_major_execute_def col_major_execute_def Let_def stage_offset_def)

lemma in_partition_execute:
  "call \<in> set (partition_execute gpmm lhs rhs out ranges k) \<longleftrightarrow>
    (\<exists>b < pr_num_steps (pr_batch ranges). \<exists>r < pr_num_steps (pr_row ranges). \<exists>c < pr_num_steps (pr_col ranges).
      call = execute_global_matmul lhs rhs out (stage_offset (pr_row ranges) r) (stage_offset (pr_col ranges) c)
        (stage_offset (pr_batch ranges) b) k)"
  by (cases gpmm) (simp_all only: partition_execute_loops in_loops3, blast+)

lemma partition_execute_distinct:
  assumes "\<And>rd. rd \<in> {pr_row ranges, pr_col ranges, pr_batch ranges} \<Longrightarrow> inj_on (stage_offset rd) {..< pr_num_steps rd}"
  shows "distinct (partition_execute gpmm lhs rhs out ranges k)"
proof -
  have "i = j" if "rd \<in> {pr_row ranges, pr_col ranges, pr_batch ranges}" "stage_offset rd i = stage_offset rd j"
    "i < pr_num_steps rd" "j < pr_num_steps rd" for rd i j
    using inj_onD [OF assms [OF that(1)] that(2)] that(3,4) by simp
  then show ?thesis
    by (cases gpmm) (simp_all only: partition_execute_loops, (rule distinct_loops3, drule execute_inj, blast)+)
qed

section \<open>Every element once\<close>

text \<open>The stage a call writes has an element of the output.\<close>

definition computes :: "nat \<Rightarrow> nat \<Rightarrow> global_call \<Rightarrow> nat \<times> nat \<times> nat \<Rightarrow> bool" where
  "computes stage_m stage_n call = (\<lambda>(i, j, b). case gc_writer call of (m_offset, n_offset, nth_batch, _) \<Rightarrow>
     unat m_offset \<le> i \<and> i < unat m_offset + stage_m \<and> unat n_offset \<le> j \<and> j < unat n_offset + stage_n \<and>
     unat nth_batch = b)"

lemma scheme_counts:
  assumes "scheme_wf ts"
  shows "elements_in_stage_m ts = Ret (level_product ts DimM Element Stage)"
    "elements_in_stage_n ts = Ret (level_product ts DimN Element Stage)"
    "elements_in_global_partition_m ts = Ret pm \<Longrightarrow> pm = gp_m (ts_global_partition_size ts) * level_product ts DimM Element Stage"
    "elements_in_global_partition_n ts = Ret pn \<Longrightarrow> pn = gp_n (ts_global_partition_size ts) * level_product ts DimN Element Stage"
  using global_counts [OF assms, of Element DimM] global_counts [OF assms, of Element DimN]
  by (auto simp: elements_in_stage_m_def elements_in_stage_n_def elements_in_global_partition_m_def
      elements_in_global_partition_n_def count_1d_def or_invalid_def stage_counts [OF assms] branching_def split: if_splits)

text \<open>The one call for an element.\<close>

definition call_for :: "tensor_view \<Rightarrow> tensor_view \<Rightarrow> tensor_view \<Rightarrow> nat \<Rightarrow> nat \<Rightarrow> nat \<times> nat \<times> nat \<Rightarrow> u32 \<times> u32 \<Rightarrow> global_call" where
  "call_for lhs rhs out stage_m stage_n = (\<lambda>(i, j, b). execute_global_matmul lhs rhs out
     (of_nat (i div stage_m * stage_m)) (of_nat (j div stage_n * stage_n)) (of_nat b))"

lemma offset_word:
  assumes "unat a < Q" "r < G" "Q * (G * W) \<le> 2 ^ 32" "0 < W" "i div W = unat a * G + r"
  shows "stage_offset (range_of_cube a G W) r = of_nat (i div W * W)"
proof -
  have "unat (stage_offset (range_of_cube a G W) r) = i div W * W"
    by (simp add: unat_stage_offset [OF assms(1-4)] assms(5) algebra_simps)
  from arg_cong [OF this, of "of_nat :: nat \<Rightarrow> u32"] show ?thesis by simp
qed

lemma one_dim:
  assumes "unat a < Q" "Q * (G * W) \<le> 2 ^ 32" "0 < W" "0 < G"
  shows "(\<exists>r < G. x = stage_offset (range_of_cube a G W) r \<and> unat x \<le> i \<and> i < unat x + W) \<longleftrightarrow>
    unat a = i div (G * W) \<and> x = of_nat (i div W * W)"
proof -
  have "i div (G * W) = i div W div G" by (metis div_mult2_eq mult.commute)
  moreover have "(\<exists>r < G. x = stage_offset (range_of_cube a G W) r \<and> unat x \<le> i \<and> i < unat x + W) \<longleftrightarrow>
      (\<exists>r < G. i div W = unat a * G + r \<and> x = stage_offset (range_of_cube a G W) r)"
    using offset_contains [OF assms(1) _ assms(2,3)] by blast
  moreover have "\<dots> \<longleftrightarrow> (\<exists>r < G. i div W = unat a * G + r) \<and> x = of_nat (i div W * W)"
    using offset_word [OF assms(1) _ assms(2,3)] by auto
  ultimately show ?thesis using stage_unique [OF assms(4), of "i div W" "unat a"] by simp
qed

lemma cube_calls:
  assumes wf: "scheme_wf ts" "elements_in_global_partition_m ts = Ret pm" "elements_in_global_partition_n ts = Ret pn"
    and pos: "0 < pm" "0 < pn" "0 < gp_batches (ts_global_partition_size ts)"
    and tile: "unat a < m" "unat b < n" "unat c < k"
    and fits: "m * pm \<le> 2 ^ 32" "n * pn \<le> 2 ^ 32" "k * gp_batches (ts_global_partition_size ts) \<le> 2 ^ 32"
  defines "wm \<equiv> level_product ts DimM Element Stage" and "wn \<equiv> level_product ts DimN Element Stage"
  shows "\<exists>calls kr. batch_execute gpmm ts lhs rhs out (a, b, c) = Ret calls \<and> distinct calls \<and>
    kr = (0, tv_shape lhs ! (length (tv_shape lhs) - 1)) \<and>
    (\<forall>i j l call. call \<in> set calls \<and> computes wm wn call (i, j, l) \<longleftrightarrow>
      unat a = i div pm \<and> unat b = j div pn \<and> unat c = l div gp_batches (ts_global_partition_size ts) \<and>
      call = call_for lhs rhs out wm wn (i, j, l) kr)"
proof -
  define gm gn gb where "gm = gp_m (ts_global_partition_size ts)" and "gn = gp_n (ts_global_partition_size ts)"
    and "gb = gp_batches (ts_global_partition_size ts)"
  have p: "pm = gm * wm" "pn = gn * wn" using scheme_counts [OF wf(1)] wf by (simp_all add: wm_def wn_def gm_def gn_def)
  then have pos': "0 < wm" "0 < gm" "0 < wn" "0 < gn" "0 < gb" using pos by (simp_all add: gb_def)
  have stages: "elements_in_stage_m ts = Ret wm" "elements_in_stage_n ts = Ret wn"
    unfolding wm_def wn_def by (rule scheme_counts [OF wf(1)])+
  let ?row = "range_of_cube a gm wm" and ?col = "range_of_cube b gn wn" and ?bat = "range_of_cube c gb 1"
  let ?ranges = "\<lparr>pr_row = ?row, pr_col = ?col, pr_batch = ?bat\<rparr>"
  let ?kr = "(0, tv_shape lhs ! (length (tv_shape lhs) - 1))"
  let ?calls = "partition_execute gpmm lhs rhs out ?ranges ?kr"
  have "cube_ranges ts (a, b, c) = Ret ?ranges"
    using partition_range_dim_new_eq [OF pos'(1), of a gm] partition_range_dim_new_eq [OF pos'(3), of b gn]
      partition_range_dim_new_eq [of 1 c gb] wf(2,3) stages p
    by (simp add: cube_ranges_def flip: gb_def)
  then have ex: "batch_execute gpmm ts lhs rhs out (a, b, c) = Ret ?calls" by (simp add: batch_execute_def)
  have dims: "m * (gm * wm) \<le> 2 ^ 32" "n * (gn * wn) \<le> 2 ^ 32" "k * (gb * 1) \<le> 2 ^ 32" using fits p by (simp_all add: gb_def)
  have inj: "inj_on (stage_offset (range_of_cube a' G W)) {..< G}" if "unat a' < Q" "Q * (G * W) \<le> 2 ^ 32" "0 < W" for a' Q G W
    using offset_inj [OF that] by (auto simp: inj_on_def)
  have "distinct ?calls"
    using inj [OF tile(1) dims(1) pos'(1)] inj [OF tile(2) dims(2) pos'(3)] inj [OF tile(3) dims(3)]
    by (intro partition_execute_distinct) (auto simp: range_of_cube_def)
  moreover have "call \<in> set ?calls \<and> computes wm wn call (i, j, l) \<longleftrightarrow>
      unat a = i div pm \<and> unat b = j div pn \<and> unat c = l div gb \<and> call = call_for lhs rhs out wm wn (i, j, l) ?kr"
    for i j l call
  proof -
    have "call \<in> set ?calls \<and> computes wm wn call (i, j, l) \<longleftrightarrow> (\<exists>x y z.
        (\<exists>r < gm. x = stage_offset ?row r \<and> unat x \<le> i \<and> i < unat x + wm) \<and>
        (\<exists>r < gn. y = stage_offset ?col r \<and> unat y \<le> j \<and> j < unat y + wn) \<and>
        (\<exists>r < gb. z = stage_offset ?bat r \<and> unat z \<le> l \<and> l < unat z + 1) \<and>
        call = execute_global_matmul lhs rhs out x y z ?kr)"
      by (auto simp: in_partition_execute computes_def execute_global_matmul_def Let_def range_of_cube_def)
    also have "\<dots> \<longleftrightarrow> unat a = i div pm \<and> unat b = j div pn \<and> unat c = l div gb \<and>
        call = call_for lhs rhs out wm wn (i, j, l) ?kr"
      unfolding one_dim [OF tile(1) dims(1) pos'(1,2)] one_dim [OF tile(2) dims(2) pos'(3,4)]
        one_dim [OF tile(3) dims(3) zero_less_one pos'(5)]
      by (auto simp: call_for_def p)
    finally show ?thesis .
  qed
  ultimately show ?thesis using ex unfolding gb_def by blast
qed

lemma cubes_of_spans:
  assumes "cubes_of sp problem = Ret (m, n, b)" "num_batches problem = Ret nb"
    "mp_m problem + cs_m sp \<le> 2 ^ 32" "mp_n problem + cs_n sp \<le> 2 ^ 32" "nb + cs_batch sp \<le> 2 ^ 32"
  shows "0 < cs_m sp \<and> m * cs_m sp \<le> 2 ^ 32 \<and> mp_m problem \<le> m * cs_m sp"
    "0 < cs_n sp \<and> n * cs_n sp \<le> 2 ^ 32 \<and> mp_n problem \<le> n * cs_n sp"
    "0 < cs_batch sp \<and> b * cs_batch sp \<le> 2 ^ 32 \<and> nb \<le> b * cs_batch sp"
proof -
  have dim: "0 < s \<and> c * s \<le> 2 ^ 32 \<and> x \<le> c * s" if "div_ceil_u32 (to_u32 x) s = Ret c" "x + s \<le> 2 ^ 32" for x s c
  proof -
    have s: "s \<noteq> 0" using that(1) by (auto simp: div_ceil_u32_def split: if_splits)
    then have c: "c = (x + s - 1) div s" using that by (simp add: div_ceil_u32_def to_u32_def)
    have "c * s \<le> x + s - 1" unfolding c by (rule div_times_less_eq_dividend)
    moreover have "x \<le> c * s" unfolding c using s by (rule div_ceil_enough)
    ultimately show ?thesis using s that(2) by linarith
  qed
  have c: "div_ceil_u32 (to_u32 (mp_m problem)) (cs_m sp) = Ret m" "div_ceil_u32 (to_u32 (mp_n problem)) (cs_n sp) = Ret n"
    "div_ceil_u32 (to_u32 nb) (cs_batch sp) = Ret b"
    using assms(1,2) by (auto simp: cubes_of_def bindE_eq_Ret)
  show "0 < cs_m sp \<and> m * cs_m sp \<le> 2 ^ 32 \<and> mp_m problem \<le> m * cs_m sp" by (rule dim [OF c(1) assms(3)])
  show "0 < cs_n sp \<and> n * cs_n sp \<le> 2 ^ 32 \<and> mp_n problem \<le> n * cs_n sp" by (rule dim [OF c(2) assms(4)])
  show "0 < cs_batch sp \<and> b * cs_batch sp \<le> 2 ^ 32 \<and> nb \<le> b * cs_batch sp" by (rule dim [OF c(3) assms(5)])
qed

lemma selection_build_span:
  assumes "selection_build builder = Ret sel"
  shows "elements_in_global_partition_m (hb_tiling_scheme builder) = Ret (cs_m (hs_cube_span sel))"
    "elements_in_global_partition_n (hb_tiling_scheme builder) = Ret (cs_n (hs_cube_span sel))"
    "cs_batch (hs_cube_span sel) = gp_batches (ts_global_partition_size (hb_tiling_scheme builder))"
  using assms by (auto simp: selection_build_def bindE_eq_Ret Let_def)

text \<open>A grid that covers the tiles covers the elements when the calls of a tile are those of its elements.\<close>

lemma covers_elements:
  assumes covers: "covers m n k cubes entry"
    and body: "\<And>a b c. (a, b, c) \<in> tiles m n k \<Longrightarrow> \<exists>calls. body (a, b, c) = Ret calls \<and> distinct calls \<and>
      (\<forall>i j l call. call \<in> set calls \<and> has call (i, j, l) \<longleftrightarrow>
        unat a = i div pm \<and> unat b = j div pn \<and> unat c = l div pb \<and> call = the_call (i, j, l))"
    and run_eq: "\<And>t. run t = bindE (entry t) (\<lambda>r. case r of None \<Rightarrow> Ret [] | Some tile \<Rightarrow> body tile)"
    and fits: "m \<le> 2 ^ 32" "n \<le> 2 ^ 32" "k \<le> 2 ^ 32"
  shows "(\<forall>t \<in> cubes. returns (run t) distinct) \<and>
    (\<forall>i < m * pm. \<forall>j < n * pn. \<forall>l < k * pb.
      \<exists>!(t, call). t \<in> cubes \<and> returns (run t) (\<lambda>calls. call \<in> set calls) \<and> has call (i, j, l))"
proof (intro conjI ballI allI impI)
  fix t assume "t \<in> cubes"
  then obtain r where r: "entry t = Ret r" "case r of None \<Rightarrow> True | Some tile \<Rightarrow> tile \<in> tiles m n k"
    using covers by (auto simp: covers_def returns_eq)
  show "returns (run t) distinct"
  proof (cases r)
    case (Some tile)
    then show ?thesis using r body [of "fst tile" "fst (snd tile)" "snd (snd tile)"] by (auto simp: run_eq)
  qed (simp add: run_eq r)
next
  fix i j l assume ijl: "i < m * pm" "j < n * pn" "l < k * pb"
  let ?tile = "(of_nat (i div pm), of_nat (j div pn), of_nat (l div pb)) :: u32 \<times> u32 \<times> u32"
  have d: "i div pm < m" "j div pn < n" "l div pb < k" using ijl by (simp_all add: less_mult_imp_div_less)
  then have u: "unat (of_nat (i div pm) :: u32) = i div pm" "unat (of_nat (j div pn) :: u32) = j div pn"
    "unat (of_nat (l div pb) :: u32) = l div pb" using fits by (auto intro!: unat_of_nat_small)
  then have tile: "?tile \<in> tiles m n k" using d by simp
  then have "\<exists>!t. t \<in> cubes \<and> entry t = Ret (Some ?tile)" using covers unfolding covers_def by blast
  then obtain t where t: "t \<in> cubes" "entry t = Ret (Some ?tile)"
    and t_unique: "\<And>t'. t' \<in> cubes \<Longrightarrow> entry t' = Ret (Some ?tile) \<Longrightarrow> t' = t"
    by blast
  from body [OF tile] u obtain calls where "body ?tile = Ret calls"
    "the_call (i, j, l) \<in> set calls \<and> has (the_call (i, j, l)) (i, j, l)" by metis
  then have here: "returns (run t) (\<lambda>calls. the_call (i, j, l) \<in> set calls) \<and> has (the_call (i, j, l)) (i, j, l)"
    by (simp add: run_eq t)
  have "t' = t \<and> call = the_call (i, j, l)"
    if t': "t' \<in> cubes" "returns (run t') (\<lambda>calls. call \<in> set calls)" "has call (i, j, l)" for t' call
  proof -
    obtain r where r: "entry t' = Ret r" "case r of None \<Rightarrow> True | Some tile \<Rightarrow> tile \<in> tiles m n k"
      using covers t'(1) by (auto simp: covers_def returns_eq)
    with t'(2) obtain a b c where abc: "r = Some (a, b, c)" "(a, b, c) \<in> tiles m n k"
      by (cases r) (auto simp: run_eq)
    then obtain calls where calls: "body (a, b, c) = Ret calls" "\<forall>i j l call. call \<in> set calls \<and> has call (i, j, l) \<longleftrightarrow>
        unat a = i div pm \<and> unat b = j div pn \<and> unat c = l div pb \<and> call = the_call (i, j, l)"
      using body [OF abc(2)] by blast
    then have "call \<in> set calls" using t'(2) r abc by (simp add: run_eq)
    with calls(2) t'(3) have "unat a = i div pm \<and> unat b = j div pn \<and> unat c = l div pb \<and> call = the_call (i, j, l)"
      by blast
    then have "(a, b, c) = ?tile" "call = the_call (i, j, l)" using u by (auto simp: word_unat_eq_iff)
    then show ?thesis using t_unique t'(1) r abc by simp
  qed
  with t here show "\<exists>!(t, call). t \<in> cubes \<and> returns (run t) (\<lambda>calls. call \<in> set calls) \<and> has call (i, j, l)"
    by (intro ex1I [of _ "(t, the_call (i, j, l))"]) auto
qed

text \<open>
  C34. Every element of the output of a matrix multiplication is computed exactly once. The selection is built from a
  tiling scheme and turned into a configuration, the host launches the grid of the plan, and every cube runs the stages
  of its partition, row by row or column by column: no cube fails or runs a stage twice, and for every row, column and
  batch of the output there is exactly one cube and one call of the global multiplication whose stage contains it. The
  sizes must leave room for one more cube below two to the 32, as offsets are 32-bit numbers.
\<close>

theorem every_element_computed_once:
  assumes "scheme_wf (hb_tiling_scheme builder)" "selection_build builder = Ret sel"
    and "to_hypercube_config sel problem (Static max_x max_y max_z) = Ret config"
    and "validate config problem = Ret None" "num_batches problem = Ret nb"
    and "0 < max_x" "0 < max_y" "0 < max_z"
    and "\<And>w. hs_global_order sel \<in> {SwizzleRowMajor w, SwizzleColMajor w} \<Longrightarrow> w < 2 ^ 32"
    and "mp_m problem + cs_m (hs_cube_span sel) \<le> 2 ^ 32" "mp_n problem + cs_n (hs_cube_span sel) \<le> 2 ^ 32"
      "nb + cs_batch (hs_cube_span sel) \<le> 2 ^ 32"
  defines "ts \<equiv> hb_tiling_scheme builder"
  shows "\<exists>plan X Y Z stage_m stage_n.
    from_config config problem (Static max_x max_y max_z) = Ret plan \<and> resolve plan = Ret (Static X Y Z) \<and>
    elements_in_stage_m ts = Ret stage_m \<and> elements_in_stage_n ts = Ret stage_n \<and>
    (\<forall>t \<in> grid X Y Z. returns (matmul_kernel gpmm ts config lhs rhs out (as_args plan) t) distinct) \<and>
    (\<forall>i < mp_m problem. \<forall>j < mp_n problem. \<forall>l < nb.
      \<exists>!(t, call). t \<in> grid X Y Z \<and>
        returns (matmul_kernel gpmm ts config lhs rhs out (as_args plan) t) (\<lambda>calls. call \<in> set calls) \<and>
        computes stage_m stage_n call (i, j, l))"
proof (rule launch_covers [OF assms(3,4,6-9)])
  fix plan m n k X Y Z
  assume plan: "from_config config problem (Static max_x max_y max_z) = Ret plan"
    and cubes: "cubes_of (hs_cube_span sel) problem = Ret (m, n, k)"
    and grid: "resolve plan = Ret (Static X Y Z)"
    and covers: "covers m n k (grid X Y Z) (matmul_entry config (as_args plan))"
  let ?wm = "level_product ts DimM Element Stage" and ?wn = "level_product ts DimN Element Stage"
  let ?kr = "(0, tv_shape lhs ! (length (tv_shape lhs) - 1))"
  note sp = selection_build_span [OF assms(2)] and fits = cubes_of_spans [OF cubes assms(5,10-12)]
  have all: "(\<forall>t \<in> grid X Y Z. returns (matmul_kernel gpmm ts config lhs rhs out (as_args plan) t) distinct) \<and>
    (\<forall>i < m * cs_m (hs_cube_span sel). \<forall>j < n * cs_n (hs_cube_span sel). \<forall>l < k * cs_batch (hs_cube_span sel).
      \<exists>!(t, call). t \<in> grid X Y Z \<and>
        returns (matmul_kernel gpmm ts config lhs rhs out (as_args plan) t) (\<lambda>calls. call \<in> set calls) \<and>
        computes ?wm ?wn call (i, j, l))"
  proof (rule covers_elements [OF covers])
    fix a b c assume "(a, b, c) \<in> tiles m n k"
    then show "\<exists>calls. batch_execute gpmm ts lhs rhs out (a, b, c) = Ret calls \<and> distinct calls \<and>
      (\<forall>i j l call. call \<in> set calls \<and> computes ?wm ?wn call (i, j, l) \<longleftrightarrow>
        unat a = i div cs_m (hs_cube_span sel) \<and> unat b = j div cs_n (hs_cube_span sel) \<and>
        unat c = l div cs_batch (hs_cube_span sel) \<and> call = call_for lhs rhs out ?wm ?wn (i, j, l) ?kr)"
      using cube_calls [OF assms(1) sp(1,2), of a m b n c k gpmm lhs rhs out] fits unfolding sp(3) ts_def by auto
  qed (use cubes_of_Ret [OF cubes] in \<open>simp_all add: matmul_kernel_def\<close>)
  have dims: "i < m * cs_m (hs_cube_span sel)" "j < n * cs_n (hs_cube_span sel)" "l < k * cs_batch (hs_cube_span sel)"
    if "i < mp_m problem" "j < mp_n problem" "l < nb" for i j l using that fits by linarith+
  show ?thesis
  proof (intro exI conjI)
    show "elements_in_stage_m ts = Ret ?wm" "elements_in_stage_n ts = Ret ?wn"
      unfolding ts_def by (rule scheme_counts [OF assms(1)])+
    show "\<forall>i < mp_m problem. \<forall>j < mp_n problem. \<forall>l < nb.
      \<exists>!(t, call). t \<in> grid X Y Z \<and>
        returns (matmul_kernel gpmm ts config lhs rhs out (as_args plan) t) (\<lambda>calls. call \<in> set calls) \<and>
        computes ?wm ?wn call (i, j, l)"
      using all dims by blast
  qed (fact plan grid conjunct1 [OF all])+
qed

text \<open>The example of the launch, with stages of 32 by 32 elements.\<close>

abbreviation example_scheme :: tiling_scheme where
  "example_scheme \<equiv> \<lparr>ts_tile_size = \<lparr>sz_m = 16, sz_n = 16, sz_k = 16\<rparr>, ts_partition_size = \<lparr>sz_m = 2, sz_n = 1, sz_k = 1\<rparr>,
     ts_stage_size = \<lparr>sz_m = 1, sz_n = 2, sz_k = 1\<rparr>, ts_global_partition_size = \<lparr>gp_m = 1, gp_n = 1, gp_batches = 2\<rparr>\<rparr>"

lemma example_builder:
  "scheme_wf example_scheme" "elements_in_stage_m example_scheme = Ret 32" "elements_in_stage_n example_scheme = Ret 32"
  "selection_build \<lparr>hb_tiling_scheme = example_scheme, hb_global_order = FixedOrder (SwizzleRowMajor 3),
     hb_cube_count_plan = Some (SmS False 8 Full)\<rparr> = Ret example_selection"
proof -
  show wf: "scheme_wf example_scheme" by (simp add: scheme_wf_def size_get_def split: matmul_dim.split)
  note c = scheme_counts(1,2) [OF wf] global_counts [OF wf, of Element]
  show "elements_in_stage_m example_scheme = Ret 32" "elements_in_stage_n example_scheme = Ret 32"
    using c(1,2) by (simp_all add: size_get_def)
  show "selection_build \<lparr>hb_tiling_scheme = example_scheme, hb_global_order = FixedOrder (SwizzleRowMajor 3),
     hb_cube_count_plan = Some (SmS False 8 Full)\<rparr> = Ret example_selection"
    by (simp add: selection_build_def elements_in_global_partition_m_def elements_in_global_partition_n_def count_1d_def
        or_invalid_def c(3) branching_def size_get_def into_order_def canonicalize_def del: One_nat_def)
qed

theorem every_element_computed_once_witness:
  "\<exists>!(t, call). t \<in> grid 8 2 1 \<and>
     returns (matmul_kernel RowMajorGlobalPartition example_scheme example_config
       \<lparr>tv_shape = [4, 96, 16], tv_stride = [1536, 16, 1]\<rparr> \<lparr>tv_shape = [4, 16, 64], tv_stride = [1024, 64, 1]\<rparr>
       \<lparr>tv_shape = [4, 96, 64], tv_stride = [6144, 64, 1]\<rparr> (as_args example_plan) t) (\<lambda>calls. call \<in> set calls) \<and>
     computes 32 32 call (95, 40, 3)"
proof -
  let ?b = "\<lparr>hb_tiling_scheme = example_scheme, hb_global_order = FixedOrder (SwizzleRowMajor 3),
     hb_cube_count_plan = Some (SmS False 8 Full)\<rparr>"
  have wf: "scheme_wf (hb_tiling_scheme ?b)" using example_builder(1) by simp
  show ?thesis
    using every_element_computed_once [OF wf example_builder(4) example_launch(2,3) example_batches,
        of RowMajorGlobalPartition "\<lparr>tv_shape = [4, 96, 16], tv_stride = [1536, 16, 1]\<rparr>"
          "\<lparr>tv_shape = [4, 16, 64], tv_stride = [1024, 64, 1]\<rparr>" "\<lparr>tv_shape = [4, 96, 64], tv_stride = [6144, 64, 1]\<rparr>"]
      example_launch(1,4) example_builder(2,3)
    by (simp del: One_nat_def)
qed

section \<open>Batches of the operands\<close>

text \<open>The coordinate of a batch on an axis, when the batches are numbered in row-major order.\<close>

definition batch_coord :: "nat list \<Rightarrow> nat \<Rightarrow> nat \<Rightarrow> nat" where
  "batch_coord dims nth_batch axis = nth_batch div prod_list (drop (Suc axis) dims) mod dims ! axis"

text \<open>An output whose batches are stored one after the other in row-major order.\<close>

definition batches_row_major :: "nat list \<Rightarrow> nat \<Rightarrow> tensor_view \<Rightarrow> bool" where
  "batches_row_major dims msize out \<longleftrightarrow>
     length (tv_shape out) = length dims + 2 \<and>
     unat (tv_stride out ! length dims) * unat (tv_shape out ! length dims) = msize \<and>
     (\<forall>axis < length dims. tv_stride out ! axis = of_nat (msize * prod_list (drop (Suc axis) dims)))"

text \<open>An operand has the dimensions of the output, or one where it is broadcast.\<close>

definition broadcasts :: "nat list \<Rightarrow> tensor_view \<Rightarrow> bool" where
  "broadcasts dims input \<longleftrightarrow> (\<forall>axis < length dims. tv_shape input ! axis \<in> {1, of_nat (dims ! axis)})"

lemma fold_plus_sum: "fold (\<lambda>a acc. acc + f a) [0..<n] (0 :: u32) = (\<Sum>a < n. f a)"
  by (induction n) simp_all

lemma nth_le_prod_list:
  fixes ds :: "nat list"
  assumes "0 \<notin> set ds" "k < length ds"
  shows "ds ! k \<le> prod_list ds"
proof -
  have "0 \<notin> set (drop (Suc k) ds)" using assms(1) by (auto dest: in_set_dropD)
  then have "0 < prod_list (drop (Suc k) ds)" by (rule prod_list_drop_le)
  then have "ds ! k \<le> ds ! k * prod_list (drop (Suc k) ds)" by simp
  also have "\<dots> = prod_list (drop k ds)" using assms(2) by (simp flip: Cons_nth_drop_Suc)
  also have "\<dots> \<le> prod_list ds" by (rule prod_list_drop_le [OF assms(1)])
  finally show ?thesis .
qed

lemma batch_axis:
  assumes out: "batches_row_major dims msize out" and dims: "0 \<notin> set dims" "0 < msize" "msize * prod_list dims < 2 ^ 32"
    and nb: "nb < prod_list dims" and axis: "axis < length dims" and input: "broadcasts dims input"
  shows "of_nat (nb * msize) div (tv_stride out ! axis) mod (tv_shape input ! axis) =
    (if tv_shape input ! axis = 1 then 0 else of_nat (batch_coord dims nb axis))"
proof -
  let ?P = "prod_list (drop (Suc axis) dims)"
  have "nb * msize < msize * prod_list dims" using nb dims(2) by simp
  then have "nb * msize < 2 ^ 32" using dims(3) by linarith
  then have num: "unat (of_nat (nb * msize) :: u32) = nb * msize" by (intro unat_of_nat_small) simp
  have "msize * ?P \<le> msize * prod_list dims" using prod_list_drop_le(1) [OF dims(1)] by (intro mult_left_mono) auto
  then have "msize * ?P < 2 ^ 32" using dims(3) by linarith
  then have stride: "unat (of_nat (msize * ?P) :: u32) = msize * ?P" by (intro unat_of_nat_small) simp
  have "dims ! axis \<le> msize * prod_list dims"
    using nth_le_prod_list [OF dims(1) axis] dims(2) by (auto intro: order_trans)
  then have shape: "unat (of_nat (dims ! axis) :: u32) = dims ! axis" using dims(3) by (intro unat_of_nat_small) simp
  have div: "unat (of_nat (nb * msize) div of_nat (msize * ?P) :: u32) = nb div ?P"
    using dims(2) by (simp add: unat_div num stride div_mult2_eq del: of_nat_mult)
  have "of_nat (nb * msize) div (tv_stride out ! axis) mod of_nat (dims ! axis) = (of_nat (batch_coord dims nb axis) :: u32)"
  proof -
    have "unat (of_nat (nb * msize) div of_nat (msize * ?P) mod of_nat (dims ! axis) :: u32) = batch_coord dims nb axis"
      by (simp add: unat_mod div shape batch_coord_def del: of_nat_mult)
    from arg_cong [OF this, of "of_nat :: nat \<Rightarrow> u32"] show ?thesis
      using out axis by (simp add: batches_row_major_def del: of_nat_mult)
  qed
  moreover have "tv_shape input ! axis \<in> {1, of_nat (dims ! axis)}" using input axis by (simp add: broadcasts_def)
  moreover have "x mod (1 :: u32) = 0" for x by (simp add: word_unat_eq_iff unat_mod)
  ultimately show ?thesis by auto
qed

text \<open>
  C35. Given the number of a batch of a row-major output, a cube reads the matching batch of each operand: the offset is
  that of the batch's coordinates, where an axis of size one of the operand contributes nothing.
\<close>

theorem batch_offsets_broadcast:
  fixes m_offset n_offset :: u32 and k_range :: "u32 \<times> u32"
  assumes "batches_row_major dims msize out" "0 \<notin> set dims" "0 < msize" "msize * prod_list dims < 2 ^ 32"
    and "nb < prod_list dims" "broadcasts dims lhs" "broadcasts dims rhs"
  defines "call \<equiv> execute_global_matmul lhs rhs out m_offset n_offset (of_nat nb) k_range"
  shows "gc_lhs call = (m_offset, fst k_range, of_nat nb,
      \<Sum>axis < length dims. (if tv_shape lhs ! axis = 1 then 0 else of_nat (batch_coord dims nb axis)) * tv_stride lhs ! axis) \<and>
    gc_rhs call = (fst k_range, n_offset, of_nat nb,
      \<Sum>axis < length dims. (if tv_shape rhs ! axis = 1 then 0 else of_nat (batch_coord dims nb axis)) * tv_stride rhs ! axis) \<and>
    gc_writer call = (m_offset, n_offset, of_nat nb, of_nat (nb * msize))"
proof -
  have rank: "length (tv_shape out) = length dims + 2"
    and mat: "unat (tv_stride out ! length dims) * unat (tv_shape out ! length dims) = msize"
    using assms(1) by (simp_all add: batches_row_major_def)
  have "tv_stride out ! length dims * tv_shape out ! length dims = (of_nat msize :: u32)" unfolding mat [symmetric] by simp
  then have batch_out: "of_nat nb * tv_stride out ! length dims * tv_shape out ! length dims = (of_nat (nb * msize) :: u32)"
    by (simp add: mult.assoc)
  have "fold (batch_step input out (of_nat (nb * msize))) [0..<length dims] 0 =
      (\<Sum>axis < length dims. (if tv_shape input ! axis = 1 then 0 else of_nat (batch_coord dims nb axis)) * tv_stride input ! axis)"
    if "broadcasts dims input" for input
  proof -
    have "fold (batch_step input out (of_nat (nb * msize))) [0..<length dims] 0 =
        (\<Sum>axis < length dims. of_nat (nb * msize) div tv_stride out ! axis mod tv_shape input ! axis * tv_stride input ! axis)"
      unfolding batch_step_def by (rule fold_plus_sum)
    also have "\<dots> = (\<Sum>axis < length dims. (if tv_shape input ! axis = 1 then 0 else of_nat (batch_coord dims nb axis)) * tv_stride input ! axis)"
      using batch_axis [OF assms(1-5) _ that] by (intro sum.cong) (simp_all del: of_nat_mult)
    finally show ?thesis .
  qed
  then show ?thesis
    unfolding call_def execute_global_matmul_def
    using assms(6,7) by (simp add: Let_def rank batch_out del: of_nat_mult)
qed

theorem batch_offsets_broadcast_witness:
  "gc_lhs (execute_global_matmul \<lparr>tv_shape = [2, 1, 8, 4], tv_stride = [32, 32, 4, 1]\<rparr>
     \<lparr>tv_shape = [1, 3, 4, 6], tv_stride = [72, 24, 6, 1]\<rparr> \<lparr>tv_shape = [2, 3, 8, 6], tv_stride = [144, 48, 6, 1]\<rparr> 0 0 (of_nat 5) (0, 4)) =
   (0, 0, 5, 32)"
  using batch_offsets_broadcast [of "[2, 3]" 48 "\<lparr>tv_shape = [2, 3, 8, 6], tv_stride = [144, 48, 6, 1]\<rparr>" 5
      "\<lparr>tv_shape = [2, 1, 8, 4], tv_stride = [32, 32, 4, 1]\<rparr>" "\<lparr>tv_shape = [1, 3, 4, 6], tv_stride = [72, 24, 6, 1]\<rparr>" 0 0 "(0, 4)"]
  by (simp add: batches_row_major_def broadcasts_def batch_coord_def All_less_Suc lessThan_nat_numeral
      lessThan_Suc)

end
