(* ===== verification/Matmul_Stage.thy ===== *)
theory Matmul_Stage
  imports Matmul_Hypercube Matmul_Tiling
begin

text \<open>
  Stage memory of a matrix multiplication: \<open>stage/memory/layout.rs\<close>, \<open>stage_memory.rs\<close>, \<open>config.rs\<close>, the tiles of
  \<open>tile/tile_data.rs\<close> and the tiling order of \<open>global/load/loader/tma_loader.rs\<close>. Positions are computed in the kernel,
  on words; counts and sizes are known when the kernel is compiled, and computed with overflow checks. Memory is counted
  in lines. A slice is the pair of its first line and the line after its last.
\<close>

section \<open>Configuration\<close>

record stage_memory_config =
  sm_num_main_flow_planes :: nat
  sm_tiling_scheme :: tiling_scheme
  sm_stage_line_size :: "stage_ident \<Rightarrow> nat"
  sm_matrix_layout :: "stage_ident \<Rightarrow> problem_layout"
  sm_num_stages :: "stage_ident \<Rightarrow> nat"

definition quot_u32 :: "nat \<Rightarrow> nat \<Rightarrow> nat exec" where
  "quot_u32 a b = (if b = 0 then Panic DivisionByZero else Ret (a div b))"

definition tiles_in_stage_row :: "tiling_scheme \<Rightarrow> stage_ident \<Rightarrow> nat exec" where
  "tiles_in_stage_row self = count_1d_ident_row self Tile Stage"

definition tiles_in_stage_col :: "tiling_scheme \<Rightarrow> stage_ident \<Rightarrow> nat exec" where
  "tiles_in_stage_col self = count_1d_ident_col self Tile Stage"

definition elements_in_tile_row :: "tiling_scheme \<Rightarrow> stage_ident \<Rightarrow> nat exec" where
  "elements_in_tile_row self = count_1d_ident_row self Element Tile"

definition elements_in_tile_col :: "tiling_scheme \<Rightarrow> stage_ident \<Rightarrow> nat exec" where
  "elements_in_tile_col self = count_1d_ident_col self Element Tile"

definition elements_in_stage_row :: "tiling_scheme \<Rightarrow> stage_ident \<Rightarrow> nat exec" where
  "elements_in_stage_row self = count_1d_ident_row self Element Stage"

definition elements_in_stage_col :: "tiling_scheme \<Rightarrow> stage_ident \<Rightarrow> nat exec" where
  "elements_in_stage_col self = count_1d_ident_col self Element Stage"

definition elements_in_stage :: "tiling_scheme \<Rightarrow> stage_ident \<Rightarrow> nat exec" where
  "elements_in_stage self = count_2d_ident self Element Stage"

definition into_stage :: "matmul_ident \<Rightarrow> stage_ident" where
  "into_stage ident = (case ident of Lhs \<Rightarrow> LhsS | Rhs \<Rightarrow> RhsS | Out \<Rightarrow> AccS)"

section \<open>Tiling orders\<close>

datatype tiling_order_enum = RowMajorTiling | ColMajorTiling | OrderedTiling | TmaTiling

definition row_major_to_row_col :: "u32 \<Rightarrow> nat \<Rightarrow> u32 \<times> u32" where
  "row_major_to_row_col index tile_count_cols = (index div of_nat tile_count_cols, index mod of_nat tile_count_cols)"

definition row_major_to_nth_tile :: "u32 \<Rightarrow> u32 \<Rightarrow> nat \<Rightarrow> u32" where
  "row_major_to_nth_tile row col tile_count_cols = row * of_nat tile_count_cols + col"

definition col_major_to_row_col :: "u32 \<Rightarrow> nat \<Rightarrow> u32 \<times> u32" where
  "col_major_to_row_col index num_rows = (index mod of_nat num_rows, index div of_nat num_rows)"

definition col_major_to_nth_tile :: "u32 \<Rightarrow> u32 \<Rightarrow> nat \<Rightarrow> u32" where
  "col_major_to_nth_tile row col tile_count_rows = col * of_nat tile_count_rows + row"

definition ordered_to_row_col ::
  "u32 \<Rightarrow> nat \<Rightarrow> nat \<Rightarrow> stage_ident \<Rightarrow> stage_memory_config \<Rightarrow> (u32 \<times> u32) exec" where
  "ordered_to_row_col index tile_count_rows tile_count_cols ident config =
     (if LhsS \<noteq> ident then Panic (Explicit ''Ordered tiling order should be used only on Lhs'')
      else
        bindE (quot_u32 tile_count_rows (sm_num_main_flow_planes config)) (\<lambda>group_rows.
        bindE (mul_u32 group_rows tile_count_cols) (\<lambda>tiles_per_group.
        let group = index div of_nat tiles_per_group;
            pos_within_group = index mod of_nat tiles_per_group;
            local_row = pos_within_group mod of_nat group_rows;
            row = group * of_nat group_rows + local_row;
            col = pos_within_group div of_nat group_rows
        in Ret (row, col))))"

definition ordered_to_nth_tile ::
  "u32 \<Rightarrow> u32 \<Rightarrow> nat \<Rightarrow> nat \<Rightarrow> stage_ident \<Rightarrow> stage_memory_config \<Rightarrow> u32 exec" where
  "ordered_to_nth_tile row col tile_count_rows tile_count_cols ident config =
     (if LhsS \<noteq> ident then Panic (Explicit ''Ordered tiling order should be used only on Lhs'')
      else
        bindE (quot_u32 tile_count_rows (sm_num_main_flow_planes config)) (\<lambda>group_rows.
        bindE (mul_u32 group_rows tile_count_cols) (\<lambda>tiles_per_group.
        let group = row div of_nat group_rows;
            local_row = row mod of_nat group_rows;
            pos_within_group = col * of_nat group_rows + local_row
        in Ret (group * of_nat tiles_per_group + pos_within_group))))"

definition to_row_col ::
  "tiling_order_enum \<Rightarrow> u32 \<Rightarrow> nat \<Rightarrow> nat \<Rightarrow> stage_ident \<Rightarrow> stage_memory_config \<Rightarrow> (u32 \<times> u32) exec" where
  "to_row_col order index rows cols ident config =
     (case order of
        RowMajorTiling \<Rightarrow> Ret (row_major_to_row_col index cols)
      | ColMajorTiling \<Rightarrow> Ret (col_major_to_row_col index rows)
      | OrderedTiling \<Rightarrow> ordered_to_row_col index rows cols ident config
      | TmaTiling \<Rightarrow>
          (case sm_matrix_layout config ident of
             RowMajorL \<Rightarrow> Ret (col_major_to_row_col index rows)
           | ColMajorL \<Rightarrow> Ret (row_major_to_row_col index cols)))"

definition to_nth_tile ::
  "tiling_order_enum \<Rightarrow> u32 \<Rightarrow> u32 \<Rightarrow> nat \<Rightarrow> nat \<Rightarrow> stage_ident \<Rightarrow> stage_memory_config \<Rightarrow> u32 exec" where
  "to_nth_tile order row col rows cols ident config =
     (case order of
        RowMajorTiling \<Rightarrow> Ret (row_major_to_nth_tile row col cols)
      | ColMajorTiling \<Rightarrow> Ret (col_major_to_nth_tile row col rows)
      | OrderedTiling \<Rightarrow> ordered_to_nth_tile row col rows cols ident config
      | TmaTiling \<Rightarrow>
          (case sm_matrix_layout config ident of
             RowMajorL \<Rightarrow> Ret (col_major_to_nth_tile row col rows)
           | ColMajorL \<Rightarrow> Ret (row_major_to_nth_tile row col cols)))"

section \<open>Tiles\<close>

record tile =
  tile_slice :: "u32 \<times> u32"
  tile_stride :: u32
  tile_layout :: problem_layout

definition tile_new_contiguous :: "u32 \<times> u32 \<Rightarrow> stage_ident \<Rightarrow> stage_memory_config \<Rightarrow> tile exec" where
  "tile_new_contiguous sl ident config =
     (let layout = sm_matrix_layout config ident; sz = ts_tile_size (sm_tiling_scheme config) in
      bindE (case ident of
          LhsS \<Rightarrow> Ret (case layout of RowMajorL \<Rightarrow> size_get sz DimK | ColMajorL \<Rightarrow> size_get sz DimM)
        | RhsS \<Rightarrow> Ret (case layout of RowMajorL \<Rightarrow> size_get sz DimN | ColMajorL \<Rightarrow> size_get sz DimK)
        | AccS \<Rightarrow> Panic (Explicit ''unreachable'')) (\<lambda>elements.
      bindE (quot_u32 elements (sm_stage_line_size config ident)) (\<lambda>stride.
      Ret \<lparr>tile_slice = sl, tile_stride = of_nat stride, tile_layout = layout\<rparr>)))"

text \<open>The index in the stage of a line of a tile, given its row or column in the strided and in the contiguous
  direction.\<close>

definition tile_line_index :: "tile \<Rightarrow> u32 \<Rightarrow> u32 \<Rightarrow> u32" where
  "tile_line_index self coor_strided coor_contiguous =
     fst (tile_slice self) + (coor_strided * tile_stride self + coor_contiguous)"

definition to_x_y :: "tiling_order_enum \<Rightarrow> u32 \<Rightarrow> stage_ident \<Rightarrow> stage_memory_config \<Rightarrow> (u32 \<times> u32) exec" where
  "to_x_y order index ident config =
     bindE (tiles_in_stage_row (sm_tiling_scheme config) ident) (\<lambda>num_x.
     bindE (tiles_in_stage_col (sm_tiling_scheme config) ident) (\<lambda>num_y.
     to_row_col order index num_x num_y ident config))"

definition buffer_offsets :: "nat \<Rightarrow> stage_ident \<Rightarrow> stage_memory_config \<Rightarrow> (nat \<times> nat \<times> nat \<times> nat) exec" where
  "buffer_offsets buffer_index ident config =
     (let ts = sm_tiling_scheme config in
      case ident of
        LhsS \<Rightarrow>
          bindE (tiles_in_stage_row ts ident) (\<lambda>rows. bindE (tiles_in_stage_col ts ident) (\<lambda>cols.
          bindE (mul_u32 cols buffer_index) (\<lambda>y_tile_offset.
          bindE (mul_u32 cols (sm_num_stages config LhsS)) (\<lambda>total_tile_count_y.
          Ret (0, y_tile_offset, rows, total_tile_count_y)))))
      | RhsS \<Rightarrow>
          bindE (tiles_in_stage_row ts ident) (\<lambda>rows. bindE (tiles_in_stage_col ts ident) (\<lambda>cols.
          bindE (mul_u32 rows buffer_index) (\<lambda>x_tile_offset.
          bindE (mul_u32 rows (sm_num_stages config RhsS)) (\<lambda>total_tile_count_x.
          Ret (x_tile_offset, 0, total_tile_count_x, cols)))))
      | AccS \<Rightarrow> Panic (Explicit ''unreachable''))"

text \<open>The sizes of a tile in lines, and the length of the slice.\<close>

definition contiguous_sizes :: "nat \<Rightarrow> nat \<Rightarrow> stage_ident \<Rightarrow> stage_memory_config \<Rightarrow> (nat \<times> nat \<times> nat) exec" where
  "contiguous_sizes total_tile_count_row total_tile_count_col ident config =
     (let ts = sm_tiling_scheme config in
      bindE (elements_in_tile_row ts ident) (\<lambda>elements_row. bindE (elements_in_tile_col ts ident) (\<lambda>elements_col.
      case sm_matrix_layout config ident of
        RowMajorL \<Rightarrow>
          bindE (quot_u32 elements_col (sm_stage_line_size config ident)) (\<lambda>tile_size_y.
          let tile_size_x = elements_row in
          bindE (mul_u32 tile_size_y total_tile_count_col) (\<lambda>stride_x.
          bindE (sub_u32 tile_size_x 1) (\<lambda>rows. bindE (mul_u32 rows stride_x) (\<lambda>skipped.
          bindE (add_u32 skipped tile_size_y) (\<lambda>len. Ret (tile_size_x, tile_size_y, len))))))
      | ColMajorL \<Rightarrow>
          bindE (quot_u32 elements_row (sm_stage_line_size config ident)) (\<lambda>tile_size_x.
          let tile_size_y = elements_col in
          bindE (mul_u32 tile_size_x total_tile_count_row) (\<lambda>stride_y.
          bindE (sub_u32 tile_size_y 1) (\<lambda>cols. bindE (mul_u32 cols stride_y) (\<lambda>skipped.
          bindE (add_u32 skipped tile_size_x) (\<lambda>len. Ret (tile_size_x, tile_size_y, len)))))))))"

definition contiguous_get_tile ::
  "tiling_order_enum \<Rightarrow> u32 \<Rightarrow> u32 \<Rightarrow> nat \<Rightarrow> stage_ident \<Rightarrow> stage_memory_config \<Rightarrow> tile exec" where
  "contiguous_get_tile order row col buffer_index ident config =
     bindE (buffer_offsets buffer_index ident config)
       (\<lambda>(row_buffer_offset, col_buffer_offset, total_tile_count_row, total_tile_count_col).
     bindE (contiguous_sizes total_tile_count_row total_tile_count_col ident config)
       (\<lambda>(tile_size_x, tile_size_y, tile_slice_length).
     bindE (to_nth_tile order (row + of_nat row_buffer_offset) (col + of_nat col_buffer_offset)
              total_tile_count_row total_tile_count_col ident config) (\<lambda>index.
     let start = of_nat tile_size_x * of_nat tile_size_y * index in
     tile_new_contiguous (start, start + of_nat tile_slice_length) ident config)))"

definition strided_nth_slice :: "u32 \<Rightarrow> stage_ident \<Rightarrow> stage_memory_config \<Rightarrow> (u32 \<times> u32) exec" where
  "strided_nth_slice index ident config =
     bindE (case sm_matrix_layout config ident of
         RowMajorL \<Rightarrow> elements_in_stage_col (sm_tiling_scheme config) ident
       | ColMajorL \<Rightarrow> elements_in_stage_row (sm_tiling_scheme config) ident) (\<lambda>elements.
     bindE (quot_u32 elements (sm_stage_line_size config ident)) (\<lambda>slice_length.
     let start = of_nat slice_length * index in Ret (start, start + of_nat slice_length)))"

definition strided_get_tile :: "u32 \<Rightarrow> u32 \<Rightarrow> stage_ident \<Rightarrow> stage_memory_config \<Rightarrow> tile exec" where
  "strided_get_tile x y ident config =
     (if sm_num_stages config ident > 1 then Panic (Explicit ''not implemented'')
      else
        let ts = sm_tiling_scheme config; line_size = sm_stage_line_size config ident;
            layout = sm_matrix_layout config ident in
        bindE (tiles_in_stage_row ts ident) (\<lambda>tile_count_x. bindE (tiles_in_stage_col ts ident) (\<lambda>tile_count_y.
        bindE (elements_in_tile_row ts ident) (\<lambda>elements_row. bindE (elements_in_tile_col ts ident) (\<lambda>elements_col.
        case layout of
          RowMajorL \<Rightarrow>
            bindE (quot_u32 elements_col line_size) (\<lambda>tile_size_y.
            let tile_size_x = elements_row in
            bindE (mul_u32 tile_count_y tile_size_y) (\<lambda>stride.
            bindE (sub_u32 tile_size_x 1) (\<lambda>rows. bindE (mul_u32 rows stride) (\<lambda>skipped.
            bindE (add_u32 skipped tile_size_y) (\<lambda>len.
            let start = x * of_nat tile_size_x * of_nat stride + y * of_nat tile_size_y in
            Ret \<lparr>tile_slice = (start, start + of_nat len), tile_stride = of_nat stride, tile_layout = layout\<rparr>)))))
        | ColMajorL \<Rightarrow>
            bindE (quot_u32 elements_row line_size) (\<lambda>tile_size_x.
            let tile_size_y = elements_col in
            bindE (mul_u32 tile_count_x tile_size_x) (\<lambda>stride.
            bindE (sub_u32 tile_size_y 1) (\<lambda>cols. bindE (mul_u32 cols stride) (\<lambda>skipped.
            bindE (add_u32 skipped tile_size_x) (\<lambda>len.
            let start = x * of_nat tile_size_x + y * of_nat tile_size_y * of_nat stride in
            Ret \<lparr>tile_slice = (start, start + of_nat len), tile_stride = of_nat stride, tile_layout = layout\<rparr>)))))
        )))))"

section \<open>Clearing\<close>

text \<open>The lines of shared memory of \<open>StageMemory::new\<close>.\<close>

definition smem_length :: "nat \<Rightarrow> stage_ident \<Rightarrow> stage_memory_config \<Rightarrow> nat exec" where
  "smem_length num_stages ident config =
     bindE (elements_in_stage (sm_tiling_scheme config) ident) (\<lambda>elements.
     bindE (mul_u32 num_stages elements) (\<lambda>total_elements. quot_u32 total_elements (sm_stage_line_size config ident)))"

text \<open>The lines a unit zeroes. The number of loading units and the position of the unit among them come from the
  roles of the planes.\<close>

definition clear_all :: "nat \<Rightarrow> u32 \<Rightarrow> nat \<Rightarrow> matmul_ident \<Rightarrow> stage_memory_config \<Rightarrow> u32 list exec" where
  "clear_all unit_count unit_base_position num_stages ident config =
     bindE (smem_length num_stages (into_stage ident) config) (\<lambda>smem_length.
     bindE (div_ceil_u32 smem_length unit_count) (\<lambda>num_writes_per_unit.
     Ret (filter (\<lambda>position. smem_length mod unit_count = 0 \<or> position < of_nat smem_length)
       (map (\<lambda>i. unit_base_position + of_nat i * of_nat unit_count) [0..<num_writes_per_unit]))))"

datatype stage_buffer = BufferA | BufferB

definition buffer_to_index :: "stage_buffer \<Rightarrow> nat" where
  "buffer_to_index self = (case self of BufferA \<Rightarrow> 0 | BufferB \<Rightarrow> 1)"

definition clear_position ::
  "stage_buffer \<Rightarrow> matmul_ident \<Rightarrow> stage_memory_config \<Rightarrow> nat \<Rightarrow> u32 \<Rightarrow> u32 exec" where
  "clear_position buf ident config buffer_length unit_position =
     (case (ident, sm_matrix_layout config (into_stage ident)) of
        (Lhs, ColMajorL) \<Rightarrow> Ret (of_nat (buffer_to_index buf) * of_nat buffer_length + unit_position)
      | (Rhs, RowMajorL) \<Rightarrow> Ret (of_nat (buffer_to_index buf) * of_nat buffer_length + unit_position)
      | (Lhs, RowMajorL) \<Rightarrow>
          bindE (elements_in_tile_col (sm_tiling_scheme config) (into_stage ident)) (\<lambda>elements.
          bindE (quot_u32 elements (sm_stage_line_size config (into_stage ident))) (\<lambda>buffer_width.
          Ret (of_nat (buffer_to_index buf) * of_nat buffer_width + unit_position
            + (unit_position div of_nat buffer_width) * of_nat buffer_width)))
      | (Rhs, ColMajorL) \<Rightarrow>
          bindE (elements_in_tile_row (sm_tiling_scheme config) (into_stage ident)) (\<lambda>elements.
          bindE (quot_u32 elements (sm_stage_line_size config (into_stage ident))) (\<lambda>buffer_height.
          Ret (of_nat (buffer_to_index buf) * of_nat buffer_height + unit_position
            + (unit_position div of_nat buffer_height) * of_nat buffer_height)))
      | (Out, _) \<Rightarrow> Panic (Explicit ''unreachable''))"

definition clear_stage ::
  "nat \<Rightarrow> u32 \<Rightarrow> nat \<Rightarrow> stage_buffer \<Rightarrow> matmul_ident \<Rightarrow> stage_memory_config \<Rightarrow> u32 list exec" where
  "clear_stage unit_count unit_base_position num_stages buf ident config =
     bindE (smem_length num_stages (into_stage ident) config) (\<lambda>smem_length.
     let buffer_length = smem_length div 2 in
     bindE (div_ceil_u32 buffer_length unit_count) (\<lambda>num_writes_per_unit.
     bindE (mapE (\<lambda>i. clear_position buf ident config buffer_length
                        (unit_base_position + of_nat i * of_nat unit_count))
              [0..<num_writes_per_unit]) (\<lambda>positions.
     Ret (filter (\<lambda>position. buffer_length mod unit_count = 0 \<or> position < of_nat smem_length) positions))))"

section \<open>Numbering of tiles\<close>

text \<open>The contract of a tiling order: for the counts it supports, numbers and coordinates of tiles are inverse.\<close>

locale tile_numbering =
  fixes supports :: "nat \<Rightarrow> nat \<Rightarrow> bool"
    and row_col :: "u32 \<Rightarrow> nat \<Rightarrow> nat \<Rightarrow> (u32 \<times> u32) exec"
    and number :: "u32 \<Rightarrow> u32 \<Rightarrow> nat \<Rightarrow> nat \<Rightarrow> u32 exec"
  assumes row_col: "supports R C \<Longrightarrow> unat i < R * C \<Longrightarrow>
      returns (row_col i R C) (\<lambda>(r, c). unat r < R \<and> unat c < C \<and> number r c R C = Ret i)"
    and number: "supports R C \<Longrightarrow> unat r < R \<Longrightarrow> unat c < C \<Longrightarrow>
      returns (number r c R C) (\<lambda>i. unat i < R * C \<and> row_col i R C = Ret (r, c))"
begin

definition number_nat :: "nat \<Rightarrow> nat \<Rightarrow> nat \<Rightarrow> nat \<Rightarrow> nat" where
  "number_nat R C r c = (case number (of_nat r) (of_nat c) R C of Ret i \<Rightarrow> unat i | _ \<Rightarrow> 0)"

lemma number_nat:
  assumes "supports R C" "R \<le> 2 ^ 32" "C \<le> 2 ^ 32" "r < R" "c < C"
  obtains i where "number (of_nat r) (of_nat c) R C = Ret i" "unat i = number_nat R C r c" "number_nat R C r c < R * C"
proof -
  have u: "unat (of_nat r :: u32) = r" "unat (of_nat c :: u32) = c" using assms by (simp_all add: unat_of_nat_small)
  from number [OF assms(1), of "of_nat r" "of_nat c"] assms u obtain i
    where "number (of_nat r) (of_nat c) R C = Ret i" "unat i < R * C" by (auto simp: returns_eq)
  then show ?thesis using that by (simp add: number_nat_def)
qed

lemma number_nat_inj:
  assumes "supports R C" "R \<le> 2 ^ 32" "C \<le> 2 ^ 32" "r < R" "c < C" "r' < R" "c' < C"
    "number_nat R C r c = number_nat R C r' c'"
  shows "r = r' \<and> c = c'"
proof -
  have u: "unat (of_nat r :: u32) = r" "unat (of_nat c :: u32) = c" "unat (of_nat r' :: u32) = r'" "unat (of_nat c' :: u32) = c'"
    using assms by (simp_all add: unat_of_nat_small)
  obtain i where i: "number (of_nat r) (of_nat c) R C = Ret i" "unat i = number_nat R C r c"
    using number_nat [OF assms(1-5)] .
  obtain j where j: "number (of_nat r') (of_nat c') R C = Ret j" "unat j = number_nat R C r' c'"
    using number_nat [OF assms(1-3,6,7)] .
  have "i = j" using i j assms(8) by (simp add: word_unat_eq_iff)
  moreover have "row_col i R C = Ret (of_nat r, of_nat c)" using number [OF assms(1), of "of_nat r" "of_nat c"] assms u i by simp
  moreover have "row_col j R C = Ret (of_nat r', of_nat c')" using number [OF assms(1), of "of_nat r'" "of_nat c'"] assms u j by simp
  ultimately have "(of_nat r :: u32) = of_nat r'" "(of_nat c :: u32) = of_nat c'" by simp_all
  then show ?thesis using u by metis
qed

end

definition order_fits :: "tiling_order_enum \<Rightarrow> stage_ident \<Rightarrow> stage_memory_config \<Rightarrow> nat \<Rightarrow> nat \<Rightarrow> bool" where
  "order_fits order ident config R C \<longleftrightarrow> R * C < 2 ^ 32 \<and> R < 2 ^ 32 \<and> C < 2 ^ 32 \<and>
     (order = OrderedTiling \<longrightarrow> ident = LhsS \<and> 0 < sm_num_main_flow_planes config \<and> sm_num_main_flow_planes config dvd R)"

lemma row_major_numbering:
  assumes "R * C < 2 ^ 32" "C < 2 ^ 32"
  shows "unat i < R * C \<Longrightarrow> (case row_major_to_row_col i C of (r, c) \<Rightarrow> unat r < R \<and> unat c < C \<and> row_major_to_nth_tile r c C = i)"
    and "unat r < R \<Longrightarrow> unat c < C \<Longrightarrow>
      unat (row_major_to_nth_tile r c C) < R * C \<and> row_major_to_row_col (row_major_to_nth_tile r c C) C = (r, c)"
proof -
  have C: "unat (of_nat C :: u32) = C" using assms(2) by (intro unat_of_nat_small) simp
  show "case row_major_to_row_col i C of (r, c) \<Rightarrow> unat r < R \<and> unat c < C \<and> row_major_to_nth_tile r c C = i"
    if "unat i < R * C"
    using that by (auto simp: row_major_to_row_col_def row_major_to_nth_tile_def unat_div unat_mod C less_mult_imp_div_less
        div_mult_mod_eq intro!: mod_less_divisor gr0I)
  show "unat (row_major_to_nth_tile r c C) < R * C \<and> row_major_to_row_col (row_major_to_nth_tile r c C) C = (r, c)"
    if "unat r < R" "unat c < C"
    using unat_digit [OF that assms(1)] that
    by (simp add: row_major_to_row_col_def row_major_to_nth_tile_def word_unat_eq_iff unat_div unat_mod C)
qed

lemma col_major_numbering:
  assumes "R * C < 2 ^ 32" "R < 2 ^ 32"
  shows "unat i < R * C \<Longrightarrow> (case col_major_to_row_col i R of (r, c) \<Rightarrow> unat r < R \<and> unat c < C \<and> col_major_to_nth_tile r c R = i)"
    and "unat r < R \<Longrightarrow> unat c < C \<Longrightarrow>
      unat (col_major_to_nth_tile r c R) < R * C \<and> col_major_to_row_col (col_major_to_nth_tile r c R) R = (r, c)"
  using row_major_numbering [of C R i] row_major_numbering(2) [of C R c r] assms
  by (auto simp: col_major_to_row_col_def col_major_to_nth_tile_def row_major_to_row_col_def row_major_to_nth_tile_def
      mult.commute [of R C])

text \<open>Groups of \<open>g\<close> rows, one for each of \<open>P\<close> planes.\<close>

lemma ordered_numbering:
  fixes P g C :: nat and i r c :: u32
  assumes fits: "P * g * C < 2 ^ 32" "P * g < 2 ^ 32" "0 < g" "C < 2 ^ 32"
  defines "G \<equiv> of_nat g :: u32" and "N \<equiv> of_nat (g * C) :: u32"
  shows "unat i < P * g * C \<Longrightarrow> unat (i div N * G + i mod N mod G) < P * g \<and> unat (i mod N div G) < C \<and>
      (i div N * G + i mod N mod G) div G * N + (i mod N div G * G + (i div N * G + i mod N mod G) mod G) = i"
    and "unat r < P * g \<Longrightarrow> unat c < C \<Longrightarrow> unat (r div G * N + (c * G + r mod G)) < P * g * C \<and>
      (r div G * N + (c * G + r mod G)) div N * G + (r div G * N + (c * G + r mod G)) mod N mod G = r \<and>
      (r div G * N + (c * G + r mod G)) mod N div G = c"
proof -
  have gC: "g * C \<le> P * g * C" "g \<le> P * g" "C * g \<le> P * g * C" if "0 < P" using that by (cases P; simp)+
  have small: "unat G = g" "unat N = g * C" "C * g < 2 ^ 32" if "0 < P"
  proof -
    have lt: "g < 2 ^ 32" "g * C < 2 ^ 32" "C * g < 2 ^ 32" using gC [OF that] fits by linarith+
    then show "unat G = g" "unat N = g * C" "C * g < 2 ^ 32"
      unfolding G_def N_def by (simp_all add: unat_of_nat_small del: of_nat_mult)
  qed
  { assume i: "unat i < P * g * C"
    then have P: "0 < P" and C: "0 < C" by (auto intro: gr0I)
    note s = small [OF P]
    have grp: "unat (i div N) < P" using i by (simp add: unat_div s less_mult_imp_div_less mult.assoc)
    have loc: "unat (i mod N mod G) < g" using fits(3) by (simp add: unat_mod s)
    have "unat (i mod N) < C * g" using C fits(3) by (simp add: unat_mod s mult.commute)
    then have col: "unat (i mod N div G) < C" by (simp add: unat_div s less_mult_imp_div_less)
    have row: "unat (i div N * G + i mod N mod G) = unat (i div N) * g + unat (i mod N mod G)"
      "unat (i div N) * g + unat (i mod N mod G) < P * g"
      using unat_digit [OF grp loc fits(2)] by (simp_all add: G_def)
    then have "(i div N * G + i mod N mod G) div G = i div N" "(i div N * G + i mod N mod G) mod G = i mod N mod G"
      using loc by (simp_all add: word_unat_eq_iff unat_div unat_mod s)
    then show "unat (i div N * G + i mod N mod G) < P * g \<and> unat (i mod N div G) < C \<and>
        (i div N * G + i mod N mod G) div G * N + (i mod N div G * G + (i div N * G + i mod N mod G) mod G) = i"
      using row col by (simp add: div_mult_mod_eq) }
  { assume rc: "unat r < P * g" "unat c < C"
    then have P: "0 < P" by (auto intro: gr0I)
    note s = small [OF P]
    have grp: "unat (r div G) < P" using rc by (simp add: unat_div s less_mult_imp_div_less)
    have loc: "unat (r mod G) < g" using fits(3) by (simp add: unat_mod s)
    have pos: "unat (c * G + r mod G) = unat c * g + unat (r mod G)" "unat (c * G + r mod G) < g * C"
      using unat_digit [OF rc(2) loc s(3)] by (simp_all add: G_def mult.commute)
    have "P * (g * C) < 2 ^ 32" using fits(1) by (simp add: mult.assoc)
    from unat_digit [OF grp pos(2) this]
    have all: "unat (r div G * N + (c * G + r mod G)) = unat (r div G) * (g * C) + unat (c * G + r mod G)"
      "unat (r div G * N + (c * G + r mod G)) < P * g * C" by (simp_all add: N_def mult.assoc)
    then have "(r div G * N + (c * G + r mod G)) div N = r div G" "(r div G * N + (c * G + r mod G)) mod N = c * G + r mod G"
      using pos by (simp_all add: word_unat_eq_iff unat_div unat_mod s digits2)
    moreover have "(c * G + r mod G) mod G = r mod G" "(c * G + r mod G) div G = c"
      using pos loc by (simp_all add: word_unat_eq_iff unat_div unat_mod s)
    ultimately show "unat (r div G * N + (c * G + r mod G)) < P * g * C \<and>
        (r div G * N + (c * G + r mod G)) div N * G + (r div G * N + (c * G + r mod G)) mod N mod G = r \<and>
        (r div G * N + (c * G + r mod G)) mod N div G = c"
      using all(2) by (simp add: div_mult_mod_eq) }
qed

lemma order_numbering:
  assumes "order_fits order ident config R C"
  shows "unat i < R * C \<Longrightarrow> returns (to_row_col order i R C ident config)
      (\<lambda>(r, c). unat r < R \<and> unat c < C \<and> to_nth_tile order r c R C ident config = Ret i)"
    and "unat r < R \<Longrightarrow> unat c < C \<Longrightarrow> returns (to_nth_tile order r c R C ident config)
      (\<lambda>i. unat i < R * C \<and> to_row_col order i R C ident config = Ret (r, c))"
proof -
  have f: "R * C < 2 ^ 32" "R < 2 ^ 32" "C < 2 ^ 32" using assms by (simp_all add: order_fits_def)
  note rm = row_major_numbering [OF f(1,3)] and cm = col_major_numbering [OF f(1,2)]
  have ord: "\<exists>g. 0 < g \<and> ident = LhsS \<and> R = sm_num_main_flow_planes config * g \<and>
      quot_u32 R (sm_num_main_flow_planes config) = Ret g \<and> mul_u32 g C = Ret (g * C)" if "order = OrderedTiling" "0 < R"
  proof -
    obtain g where g: "R = sm_num_main_flow_planes config * g" "0 < sm_num_main_flow_planes config" "ident = LhsS"
      using assms \<open>order = OrderedTiling\<close> by (auto simp: order_fits_def dvd_def)
    have "g * C \<le> R * C" unfolding g(1) using g(2) by simp
    then have "g * C < 2 ^ 32" using f(1) by linarith
    then show ?thesis using g that(2) by (intro exI [of _ g]) (auto simp: quot_u32_def mul_u32_def)
  qed
  show "returns (to_row_col order i R C ident config)
      (\<lambda>(r, c). unat r < R \<and> unat c < C \<and> to_nth_tile order r c R C ident config = Ret i)" if i: "unat i < R * C"
  proof (cases "order = OrderedTiling")
    case True
    obtain g where g: "0 < g" "ident = LhsS" "R = sm_num_main_flow_planes config * g"
      "quot_u32 R (sm_num_main_flow_planes config) = Ret g" "mul_u32 g C = Ret (g * C)"
      using ord [OF True] i by (metis gr0I less_zeroE mult_is_0)
    show ?thesis
      using ordered_numbering(1) [of "sm_num_main_flow_planes config" g C i] f g i True
      by (simp add: to_row_col_def to_nth_tile_def ordered_to_row_col_def ordered_to_nth_tile_def Let_def del: of_nat_mult)
  qed (use rm(1) [OF i] cm(1) [OF i] in \<open>auto simp: to_row_col_def to_nth_tile_def split: tiling_order_enum.split problem_layout.split\<close>)
  show "returns (to_nth_tile order r c R C ident config)
      (\<lambda>i. unat i < R * C \<and> to_row_col order i R C ident config = Ret (r, c))" if rc: "unat r < R" "unat c < C"
  proof (cases "order = OrderedTiling")
    case True
    obtain g where g: "0 < g" "ident = LhsS" "R = sm_num_main_flow_planes config * g"
      "quot_u32 R (sm_num_main_flow_planes config) = Ret g" "mul_u32 g C = Ret (g * C)"
      using ord [OF True] rc by (metis gr0I less_zeroE)
    show ?thesis
      using ordered_numbering(2) [of "sm_num_main_flow_planes config" g C r c] f g rc True
      by (simp add: to_row_col_def to_nth_tile_def ordered_to_row_col_def ordered_to_nth_tile_def Let_def del: of_nat_mult)
  qed (use rm(2) [OF rc] cm(2) [OF rc] in \<open>auto simp: to_row_col_def to_nth_tile_def split: tiling_order_enum.split problem_layout.split\<close>)
qed

interpretation stage_order: tile_numbering "order_fits order ident config"
  "\<lambda>i R C. to_row_col order i R C ident config" "\<lambda>r c R C. to_nth_tile order r c R C ident config" for order ident config
  by unfold_locales (rule order_numbering; assumption)+

end
