(* ===== verification/Matmul_Stage_Memory.thy ===== *)
theory Matmul_Stage_Memory
  imports Matmul_Stage
begin

text \<open>
  What stage memory guarantees: the tiles of a stage share its lines out among themselves, in the contiguous and in the
  strided layout, and clearing reaches every line.
\<close>

section \<open>Sizes of a stage\<close>

definition row_dim :: "stage_ident \<Rightarrow> matmul_dim" where
  "row_dim ident = (case ident of LhsS \<Rightarrow> DimM | RhsS \<Rightarrow> DimK | AccS \<Rightarrow> DimM)"

definition col_dim :: "stage_ident \<Rightarrow> matmul_dim" where
  "col_dim ident = (case ident of LhsS \<Rightarrow> DimK | RhsS \<Rightarrow> DimN | AccS \<Rightarrow> DimN)"

definition tiles_along :: "tiling_scheme \<Rightarrow> matmul_dim \<Rightarrow> nat" where
  "tiles_along ts d = size_get (ts_stage_size ts) d * size_get (ts_partition_size ts) d"

abbreviation stage_rows :: "stage_memory_config \<Rightarrow> stage_ident \<Rightarrow> nat" where
  "stage_rows config ident \<equiv> tiles_along (sm_tiling_scheme config) (row_dim ident)"

abbreviation stage_cols :: "stage_memory_config \<Rightarrow> stage_ident \<Rightarrow> nat" where
  "stage_cols config ident \<equiv> tiles_along (sm_tiling_scheme config) (col_dim ident)"

abbreviation tile_elements_row :: "stage_memory_config \<Rightarrow> stage_ident \<Rightarrow> nat" where
  "tile_elements_row config ident \<equiv> size_get (ts_tile_size (sm_tiling_scheme config)) (row_dim ident)"

abbreviation tile_elements_col :: "stage_memory_config \<Rightarrow> stage_ident \<Rightarrow> nat" where
  "tile_elements_col config ident \<equiv> size_get (ts_tile_size (sm_tiling_scheme config)) (col_dim ident)"

text \<open>A tile has \<open>tile_height\<close> rows or columns of \<open>tile_width\<close> lines, by the layout.\<close>

definition tile_height :: "stage_memory_config \<Rightarrow> stage_ident \<Rightarrow> nat" where
  "tile_height config ident =
     (case sm_matrix_layout config ident of RowMajorL \<Rightarrow> tile_elements_row config ident | ColMajorL \<Rightarrow> tile_elements_col config ident)"

definition tile_width :: "stage_memory_config \<Rightarrow> stage_ident \<Rightarrow> nat" where
  "tile_width config ident =
     (case sm_matrix_layout config ident of RowMajorL \<Rightarrow> tile_elements_col config ident | ColMajorL \<Rightarrow> tile_elements_row config ident)
       div sm_stage_line_size config ident"

text \<open>The stage is not empty, a line is part of a row or column of a tile, and the elements of all stages are counted
  in 32 bits.\<close>

definition stage_ok :: "stage_memory_config \<Rightarrow> stage_ident \<Rightarrow> nat \<Rightarrow> bool" where
  "stage_ok config ident stages \<longleftrightarrow>
     scheme_wf (sm_tiling_scheme config) \<and> ident \<noteq> AccS \<and> 0 < stages \<and>
     0 < stage_rows config ident \<and> 0 < stage_cols config ident \<and>
     0 < tile_elements_row config ident \<and> 0 < tile_elements_col config ident \<and>
     0 < sm_stage_line_size config ident \<and>
     sm_stage_line_size config ident dvd
       (case sm_matrix_layout config ident of RowMajorL \<Rightarrow> tile_elements_col config ident | ColMajorL \<Rightarrow> tile_elements_row config ident) \<and>
     stages * (stage_rows config ident * tile_elements_row config ident * (stage_cols config ident * tile_elements_col config ident)) < 2 ^ 32"

lemma stage_counts_ident:
  assumes "scheme_wf (sm_tiling_scheme config)"
  shows "tiles_in_stage_row (sm_tiling_scheme config) ident = Ret (stage_rows config ident)"
    "tiles_in_stage_col (sm_tiling_scheme config) ident = Ret (stage_cols config ident)"
    "elements_in_tile_row (sm_tiling_scheme config) ident = Ret (tile_elements_row config ident)"
    "elements_in_tile_col (sm_tiling_scheme config) ident = Ret (tile_elements_col config ident)"
    "elements_in_stage_row (sm_tiling_scheme config) ident = Ret (stage_rows config ident * tile_elements_row config ident)"
    "elements_in_stage_col (sm_tiling_scheme config) ident = Ret (stage_cols config ident * tile_elements_col config ident)"
  using stage_counts [OF assms]
  by (cases ident; simp add: tiles_in_stage_row_def tiles_in_stage_col_def elements_in_tile_row_def elements_in_tile_col_def
      elements_in_stage_row_def elements_in_stage_col_def count_1d_ident_row_def count_1d_ident_col_def count_1d_def
      or_invalid_def row_dim_def col_dim_def tiles_along_def)+

lemma elements_in_stage_ident:
  assumes "scheme_wf (sm_tiling_scheme config)"
    "stage_rows config ident * tile_elements_row config ident * (stage_cols config ident * tile_elements_col config ident) < 2 ^ 32"
  shows "elements_in_stage (sm_tiling_scheme config) ident =
    Ret (stage_rows config ident * tile_elements_row config ident * (stage_cols config ident * tile_elements_col config ident))"
  using stage_counts [OF assms(1)] assms(2)
  by (cases ident) (simp_all add: elements_in_stage_def count_2d_ident_def count_2d_def try_count_2d_def or_invalid_def
      row_dim_def col_dim_def tiles_along_def ac_simps)

text \<open>The number of lines: those of a tile times the number of tiles.\<close>

definition stage_lines :: "stage_memory_config \<Rightarrow> stage_ident \<Rightarrow> nat \<Rightarrow> nat" where
  "stage_lines config ident stages =
     stages * stage_rows config ident * stage_cols config ident * (tile_height config ident * tile_width config ident)"

lemma stage_lines_elements:
  assumes "stage_ok config ident stages"
  shows "stage_lines config ident stages * sm_stage_line_size config ident =
    stages * (stage_rows config ident * tile_elements_row config ident * (stage_cols config ident * tile_elements_col config ident))"
  using assms
  by (cases "sm_matrix_layout config ident")
     (auto simp: stage_ok_def stage_lines_def tile_height_def tile_width_def dvd_div_mult_self ac_simps elim!: dvdE)

lemma smem_length_eq:
  assumes "stage_ok config ident stages"
  shows "smem_length stages ident config = Ret (stage_lines config ident stages)" "stage_lines config ident stages < 2 ^ 32"
proof -
  let ?e = "stage_rows config ident * tile_elements_row config ident * (stage_cols config ident * tile_elements_col config ident)"
  let ?l = "sm_stage_line_size config ident"
  have ok: "scheme_wf (sm_tiling_scheme config)" "0 < stages" "0 < ?l" "stages * ?e < 2 ^ 32"
    using assms by (simp_all add: stage_ok_def)
  have "?e \<le> stages * ?e" using ok(2) by (cases stages) auto
  then have e: "elements_in_stage (sm_tiling_scheme config) ident = Ret ?e"
    using ok(4) by (intro elements_in_stage_ident [OF ok(1)]) linarith
  have "stages * ?e div ?l = stage_lines config ident stages"
    using stage_lines_elements [OF assms] ok(3) by (metis nonzero_mult_div_cancel_right not_gr0)
  then show "smem_length stages ident config = Ret (stage_lines config ident stages)"
    using e ok by (simp add: smem_length_def quot_u32_def mul_u32_def)
  have "stage_lines config ident stages \<le> stage_lines config ident stages * ?l" using ok(3) by simp
  then show "stage_lines config ident stages < 2 ^ 32" using stage_lines_elements [OF assms] ok(4) by linarith
qed

section \<open>Sharing out the lines\<close>

lemma digit_less: "q < Q \<Longrightarrow> r < N \<Longrightarrow> q * N + r < Q * N" for q r Q N :: nat
proof -
  assume "q < Q" "r < N"
  then have "q * N + r < Suc q * N" by simp
  also have "\<dots> \<le> Q * N" using \<open>q < Q\<close> by (intro mult_right_mono) auto
  finally show ?thesis .
qed

lemma digit_inj: "q * N + r = q' * N + r' \<Longrightarrow> r < N \<Longrightarrow> r' < N \<Longrightarrow> q = q' \<and> r = r'" for q r q' r' N :: nat
  by (metis digits2)

text \<open>Every line of the stage is one line of one tile of one buffer.\<close>

definition shared_out :: "(nat \<Rightarrow> u32 \<Rightarrow> u32 \<Rightarrow> tile exec) \<Rightarrow> nat \<Rightarrow> nat \<Rightarrow> nat \<Rightarrow> nat \<Rightarrow> nat \<Rightarrow> nat \<Rightarrow> bool" where
  "shared_out get_tile stages rows cols height width lines \<longleftrightarrow>
     (\<exists>f. (\<forall>b < stages. \<forall>r < rows. \<forall>c < cols. returns (get_tile b (of_nat r) (of_nat c)) (\<lambda>tile.
            \<forall>i < height. \<forall>j < width. unat (tile_line_index tile (of_nat i) (of_nat j)) = f (b, r, c, i, j))) \<and>
          bij_betw f ({..< stages} \<times> {..< rows} \<times> {..< cols} \<times> {..< height} \<times> {..< width}) {..< lines})"

lemma shared_outI:
  assumes "\<And>b r c. b < stages \<Longrightarrow> r < rows \<Longrightarrow> c < cols \<Longrightarrow> returns (get_tile b (of_nat r) (of_nat c)) (\<lambda>tile.
      \<forall>i < height. \<forall>j < width. unat (tile_line_index tile (of_nat i) (of_nat j)) = f (b, r, c, i, j))"
    and "\<And>b r c i j. b < stages \<Longrightarrow> r < rows \<Longrightarrow> c < cols \<Longrightarrow> i < height \<Longrightarrow> j < width \<Longrightarrow> f (b, r, c, i, j) < lines"
    and "inj_on f ({..< stages} \<times> {..< rows} \<times> {..< cols} \<times> {..< height} \<times> {..< width})"
    and "lines = stages * rows * cols * (height * width)"
  shows "shared_out get_tile stages rows cols height width lines"
proof -
  let ?A = "{..< stages} \<times> {..< rows} \<times> {..< cols} \<times> {..< height} \<times> {..< width}"
  have "card (f ` ?A) = lines" using assms(4) by (simp add: card_image [OF assms(3)] card_cartesian_product)
  moreover have "f ` ?A \<subseteq> {..< lines}" using assms(2) by auto
  ultimately have "f ` ?A = {..< lines}" by (intro card_subset_eq) auto
  then have "bij_betw f ?A {..< lines}" using assms(3) by (simp add: bij_betw_def)
  then show ?thesis using assms(1) unfolding shared_out_def by blast
qed

section \<open>The strided layout\<close>

text \<open>A tile of \<open>h\<close> rows of \<open>w\<close> lines at column \<open>y\<close> of \<open>Y\<close> and row \<open>x\<close>.\<close>

lemma grid_index:
  fixes x i y j h w X Y :: nat
  assumes "x < X" "i < h" "y < Y" "j < w"
  shows "(x * h + i) * (Y * w) + (y * w + j) < X * h * (Y * w)"
    and "x' < X \<Longrightarrow> i' < h \<Longrightarrow> y' < Y \<Longrightarrow> j' < w \<Longrightarrow>
      (x * h + i) * (Y * w) + (y * w + j) = (x' * h + i') * (Y * w) + (y' * w + j') \<Longrightarrow> x = x' \<and> i = i' \<and> y = y' \<and> j = j'"
proof -
  show "(x * h + i) * (Y * w) + (y * w + j) < X * h * (Y * w)" using assms by (intro digit_less)
  assume "x' < X" "i' < h" "y' < Y" "j' < w" "(x * h + i) * (Y * w) + (y * w + j) = (x' * h + i') * (Y * w) + (y' * w + j')"
  then have "x * h + i = x' * h + i' \<and> y * w + j = y' * w + j'" using assms by (intro digit_inj) (auto intro: digit_less)
  then show "x = x' \<and> i = i' \<and> y = y' \<and> j = j'"
    using digit_inj [of x h i x' i'] digit_inj [of y w j y' j'] assms \<open>i' < h\<close> \<open>j' < w\<close> by blast
qed

lemma strided_slice:
  fixes h w X Y :: nat
  assumes "0 < h" "0 < X" "0 < Y" "X * h * (Y * w) < 2 ^ 32"
  shows "mul_u32 Y w = Ret (Y * w)" "sub_u32 h 1 = Ret (h - 1)" "mul_u32 (h - 1) (Y * w) = Ret ((h - 1) * (Y * w))"
    "add_u32 ((h - 1) * (Y * w)) w = Ret ((h - 1) * (Y * w) + w)"
proof -
  have "Y * w \<le> X * h * (Y * w)" "w \<le> Y * w" using assms(1-3) by simp_all
  moreover have "h * (Y * w) \<le> X * (h * (Y * w))" using assms(2) by simp
  moreover have "(h - 1) * (Y * w) + Y * w = h * (Y * w)" using assms(1) by (cases h) auto
  ultimately have "Y * w < 2 ^ 32" "(h - 1) * (Y * w) < 2 ^ 32" "(h - 1) * (Y * w) + w < 2 ^ 32"
    using assms(4) unfolding mult.assoc [of X] by linarith+
  then show "mul_u32 Y w = Ret (Y * w)" "sub_u32 h 1 = Ret (h - 1)" "mul_u32 (h - 1) (Y * w) = Ret ((h - 1) * (Y * w))"
    "add_u32 ((h - 1) * (Y * w)) w = Ret ((h - 1) * (Y * w) + w)"
    using assms(1) by (simp_all add: mul_u32_def sub_u32_def add_u32_def)
qed

lemma stage_ok_layout:
  assumes "stage_ok config ident stages"
  shows "scheme_wf (sm_tiling_scheme config)" "ident \<noteq> AccS" "0 < stages" "0 < stage_rows config ident" "0 < stage_cols config ident"
    "0 < tile_height config ident" "0 < sm_stage_line_size config ident"
    "stages * stage_rows config ident * stage_cols config ident * (tile_height config ident * tile_width config ident) < 2 ^ 32"
  using assms smem_length_eq(2) [OF assms]
  by (auto simp: stage_ok_def tile_height_def stage_lines_def split: problem_layout.splits)

lemma grid_inj:
  "inj_on (\<lambda>(b::nat, x, y, i, j). (x * h + i) * (Y * w) + (y * w + j))
    ({..< 1} \<times> {..< X} \<times> {..< Y} \<times> {..< h} \<times> {..< w})" for h w X Y :: nat
proof (rule inj_onI)
  let ?A = "{..< 1} \<times> {..< X} \<times> {..< Y} \<times> {..< h} \<times> {..< w}"
  let ?f = "\<lambda>(b::nat, x, y, i, j). (x * h + i) * (Y * w) + (y * w + j)"
  fix p q assume pq: "p \<in> ?A" "q \<in> ?A" "?f p = ?f q"
  obtain b x y i j where p: "p = (b, x, y, i, j)" by (cases p) auto
  obtain b' x' y' i' j' where q: "q = (b', x', y', i', j')" by (cases q) auto
  have a: "x < X" "i < h" "y < Y" "j < w" "x' < X" "i' < h" "y' < Y" "j' < w" and b: "b = b'" using pq by (auto simp: p q)
  have "(x * h + i) * (Y * w) + (y * w + j) = (x' * h + i') * (Y * w) + (y' * w + j')" using pq(3) by (simp add: p q)
  from grid_index(2) [OF a this] b show "p = q" by (simp add: p q)
qed

lemma strided_shared_out:
  fixes X Y h w :: nat
  assumes fits: "X * h * (Y * w) < 2 ^ 32"
    and get: "\<And>x y. get_tile x y = Ret \<lparr>tile_slice = (x * of_nat h * of_nat (Y * w) + y * of_nat w, last_line x y),
      tile_stride = of_nat (Y * w), tile_layout = l\<rparr>"
  shows "shared_out (\<lambda>_. get_tile) 1 X Y h w (X * Y * (h * w))"
proof (rule shared_outI [OF _ _ grid_inj])
  fix b x y :: nat assume xy: "x < X" "y < Y"
  have "unat (tile_line_index \<lparr>tile_slice = (of_nat x * of_nat h * of_nat (Y * w) + of_nat y * of_nat w, last_line (of_nat x) (of_nat y)),
      tile_stride = of_nat (Y * w), tile_layout = l\<rparr> (of_nat i) (of_nat j)) = (x * h + i) * (Y * w) + (y * w + j)"
    if "i < h" "j < w" for i j
  proof -
    have lt: "(x * h + i) * (Y * w) + (y * w + j) < 2 ^ LENGTH(32)"
      using less_trans [OF grid_index(1) [OF xy(1) that(1) xy(2) that(2)] fits] by simp
    have "tile_line_index \<lparr>tile_slice = (of_nat x * of_nat h * of_nat (Y * w) + of_nat y * of_nat w, last_line (of_nat x) (of_nat y)),
        tile_stride = of_nat (Y * w), tile_layout = l\<rparr> (of_nat i) (of_nat j) = of_nat ((x * h + i) * (Y * w) + (y * w + j))"
      by (simp add: tile_line_index_def algebra_simps)
    then show ?thesis using unat_of_nat_small [OF lt] by simp
  qed
  then show "returns (get_tile (of_nat x) (of_nat y)) (\<lambda>tile. \<forall>i < h. \<forall>j < w.
      unat (tile_line_index tile (of_nat i) (of_nat j)) = (case (b, x, y, i, j) of (b, x, y, i, j) \<Rightarrow> (x * h + i) * (Y * w) + (y * w + j)))"
    by (simp add: get del: of_nat_mult)
next
  fix b x y i j :: nat assume "x < X" "y < Y" "i < h" "j < w"
  from grid_index(1) [OF this(1,3,2,4)] show "(case (b, x, y, i, j) of (b, x, y, i, j) \<Rightarrow> (x * h + i) * (Y * w) + (y * w + j)) < X * Y * (h * w)"
    by (simp add: ac_simps)
qed simp

lemma shared_out_swap:
  assumes "shared_out (\<lambda>b x y. get_tile b y x) stages C R h w lines"
  shows "shared_out get_tile stages R C h w lines"
proof -
  from assms obtain f where f: "\<And>b r c. b < stages \<Longrightarrow> r < C \<Longrightarrow> c < R \<Longrightarrow> returns (get_tile b (of_nat c) (of_nat r)) (\<lambda>tile.
      \<forall>i < h. \<forall>j < w. unat (tile_line_index tile (of_nat i) (of_nat j)) = f (b, r, c, i, j))"
    and bij: "bij_betw f ({..< stages} \<times> {..< C} \<times> {..< R} \<times> {..< h} \<times> {..< w}) {..< lines}"
    unfolding shared_out_def by blast
  have "bij_betw (\<lambda>(b, r, c, i, j). (b, c, r, i, j)) ({..< stages} \<times> {..< R} \<times> {..< C} \<times> {..< h} \<times> {..< w})
      ({..< stages} \<times> {..< C} \<times> {..< R} \<times> {..< h} \<times> {..< w})"
    by (rule bij_betw_byWitness [where f' = "\<lambda>(b, r, c, i, j). (b, c, r, i, j)"]) auto
  from bij_betw_trans [OF this bij] have bij': "bij_betw (\<lambda>(b, r, c, i, j). f (b, c, r, i, j))
      ({..< stages} \<times> {..< R} \<times> {..< C} \<times> {..< h} \<times> {..< w}) {..< lines}"
    by (simp add: comp_def case_prod_beta')
  show ?thesis
    unfolding shared_out_def
    by (rule exI [of _ "\<lambda>(b, r, c, i, j). f (b, c, r, i, j)"]) (use f bij' in simp)
qed

text \<open>
  C37. In the strided layout, the tiles of a stage share its lines out: reading any tile succeeds, and every line of the
  stage's shared memory is the line of exactly one tile at exactly one place in it.
\<close>

theorem strided_tiles_share_stage:
  assumes "stage_ok config ident 1" "sm_num_stages config ident = 1"
  shows "\<exists>lines. smem_length 1 ident config = Ret lines \<and>
    shared_out (\<lambda>_ x y. strided_get_tile x y ident config) 1 (stage_rows config ident) (stage_cols config ident)
      (tile_height config ident) (tile_width config ident) lines"
proof (intro exI conjI)
  show "smem_length 1 ident config = Ret (stage_lines config ident 1)" by (rule smem_length_eq [OF assms(1)])
  define X Y h w where "X = stage_rows config ident" and "Y = stage_cols config ident"
    and "h = tile_height config ident" and "w = tile_width config ident"
  note ok = stage_ok_layout [OF assms(1), folded X_def Y_def h_def w_def]
  note counts = stage_counts_ident [OF ok(1), of ident, folded X_def Y_def]
  have "shared_out (\<lambda>_ x y. strided_get_tile x y ident config) 1 X Y h w (X * Y * (h * w))"
  proof (cases "sm_matrix_layout config ident")
    case RowMajorL
    have fits: "X * h * (Y * w) < 2 ^ 32" using ok(8) by (simp add: ac_simps)
    have hw: "tile_elements_row config ident = h" "tile_elements_col config ident div sm_stage_line_size config ident = w"
      by (simp_all add: h_def w_def tile_height_def tile_width_def RowMajorL)
    show ?thesis
      using assms(2) ok(7) strided_slice [OF ok(6,4,5) fits]
      by (intro strided_shared_out [OF fits])
         (simp add: strided_get_tile_def counts RowMajorL quot_u32_def hw Let_def del: of_nat_mult)
  next
    case ColMajorL
    have fits: "Y * h * (X * w) < 2 ^ 32" using ok(8) by (simp add: ac_simps)
    have hw: "tile_elements_col config ident = h" "tile_elements_row config ident div sm_stage_line_size config ident = w"
      by (simp_all add: h_def w_def tile_height_def tile_width_def ColMajorL)
    have "shared_out (\<lambda>_ x y. strided_get_tile y x ident config) 1 Y X h w (Y * X * (h * w))"
      using assms(2) ok(7) strided_slice [OF ok(6,5,4) fits]
      by (intro strided_shared_out [OF fits])
         (simp add: strided_get_tile_def counts ColMajorL quot_u32_def hw Let_def add.commute del: of_nat_mult)
    from shared_out_swap [OF this] show ?thesis by (simp add: mult.commute)
  qed
  then show "shared_out (\<lambda>_ x y. strided_get_tile x y ident config) 1 (stage_rows config ident) (stage_cols config ident)
      (tile_height config ident) (tile_width config ident) (stage_lines config ident 1)"
    by (simp add: stage_lines_def X_def Y_def h_def w_def)
qed

section \<open>The contiguous layout\<close>

text \<open>The counts and offsets with the buffers of all stages side by side.\<close>

definition total_rows :: "stage_memory_config \<Rightarrow> stage_ident \<Rightarrow> nat" where
  "total_rows config ident = (if ident = RhsS then stage_rows config ident * sm_num_stages config ident else stage_rows config ident)"

definition total_cols :: "stage_memory_config \<Rightarrow> stage_ident \<Rightarrow> nat" where
  "total_cols config ident = (if ident = LhsS then stage_cols config ident * sm_num_stages config ident else stage_cols config ident)"

definition row_in_all :: "stage_memory_config \<Rightarrow> stage_ident \<Rightarrow> nat \<Rightarrow> nat \<Rightarrow> nat" where
  "row_in_all config ident b r = r + (if ident = RhsS then stage_rows config ident * b else 0)"

definition col_in_all :: "stage_memory_config \<Rightarrow> stage_ident \<Rightarrow> nat \<Rightarrow> nat \<Rightarrow> nat" where
  "col_in_all config ident b c = c + (if ident = LhsS then stage_cols config ident * b else 0)"

lemma in_all:
  assumes "ident \<noteq> AccS" "b < sm_num_stages config ident" "r < stage_rows config ident" "c < stage_cols config ident"
  shows "row_in_all config ident b r < total_rows config ident" "col_in_all config ident b c < total_cols config ident"
    "b' < sm_num_stages config ident \<Longrightarrow> r' < stage_rows config ident \<Longrightarrow> c' < stage_cols config ident \<Longrightarrow>
      row_in_all config ident b r = row_in_all config ident b' r' \<Longrightarrow> col_in_all config ident b c = col_in_all config ident b' c' \<Longrightarrow>
      b = b' \<and> r = r' \<and> c = c'"
proof -
  let ?S = "sm_num_stages config ident" and ?X = "stage_rows config ident" and ?Y = "stage_cols config ident"
  note dx = digit_less [OF assms(2,3)] and dy = digit_less [OF assms(2,4)]
  show "row_in_all config ident b r < total_rows config ident" "col_in_all config ident b c < total_cols config ident"
    using dx dy assms by (auto simp: row_in_all_def total_rows_def col_in_all_def total_cols_def ac_simps)
  show "b = b' \<and> r = r' \<and> c = c'" if "b' < ?S" "r' < ?X" "c' < ?Y"
    "row_in_all config ident b r = row_in_all config ident b' r'" "col_in_all config ident b c = col_in_all config ident b' c'"
  proof (cases ident)
    case LhsS
    then have "b * ?Y + c = b' * ?Y + c'" "r = r'" using that by (simp_all add: row_in_all_def col_in_all_def ac_simps)
    then show ?thesis using digit_inj [of b ?Y c b' c'] that assms by simp
  next
    case RhsS
    then have "b * ?X + r = b' * ?X + r'" "c = c'" using that by (simp_all add: row_in_all_def col_in_all_def ac_simps)
    then show ?thesis using digit_inj [of b ?X r b' r'] that assms by simp
  qed (use assms in simp)
qed

lemma mul_u32_commute: "mul_u32 a b = mul_u32 b a"
  by (simp add: mul_u32_def mult.commute)

lemma buffer_offsets_eq:
  assumes "scheme_wf (sm_tiling_scheme config)" "ident \<noteq> AccS" "b < sm_num_stages config ident"
    "total_rows config ident < 2 ^ 32" "total_cols config ident < 2 ^ 32"
  shows "buffer_offsets b ident config = Ret (row_in_all config ident b 0, col_in_all config ident b 0,
    total_rows config ident, total_cols config ident)"
proof -
  have "stage_cols config ident * b < 2 ^ 32" if "ident = LhsS"
  proof -
    have "stage_cols config ident * b \<le> stage_cols config ident * sm_num_stages config ident"
      using assms(3) by (intro mult_left_mono) auto
    moreover have "stage_cols config ident * sm_num_stages config ident < 2 ^ 32" using assms(5) that by (simp add: total_cols_def)
    ultimately show ?thesis by linarith
  qed
  moreover have "stage_rows config ident * b < 2 ^ 32" if "ident = RhsS"
  proof -
    have "stage_rows config ident * b \<le> stage_rows config ident * sm_num_stages config ident"
      using assms(3) by (intro mult_left_mono) auto
    moreover have "stage_rows config ident * sm_num_stages config ident < 2 ^ 32" using assms(4) that by (simp add: total_rows_def)
    ultimately show ?thesis by linarith
  qed
  ultimately show ?thesis using assms stage_counts_ident [OF assms(1), of ident]
    by (cases ident) (auto simp: buffer_offsets_def Let_def mul_u32_def row_in_all_def col_in_all_def total_rows_def total_cols_def)
qed

lemma contiguous_sizes_eq:
  assumes "stage_ok config ident stages" "0 < total_rows config ident" "0 < total_cols config ident"
    "total_rows config ident * total_cols config ident * (tile_height config ident * tile_width config ident) < 2 ^ 32"
  shows "\<exists>len. contiguous_sizes (total_rows config ident) (total_cols config ident) ident config =
    Ret (case sm_matrix_layout config ident of
        RowMajorL \<Rightarrow> (tile_height config ident, tile_width config ident, len)
      | ColMajorL \<Rightarrow> (tile_width config ident, tile_height config ident, len))"
proof (cases "sm_matrix_layout config ident")
  case RowMajorL
  note ok = stage_ok_layout [OF assms(1)]
  have fits: "total_rows config ident * tile_height config ident * (total_cols config ident * tile_width config ident) < 2 ^ 32"
    using assms(4) by (simp add: ac_simps)
  have hw: "tile_elements_row config ident = tile_height config ident"
    "tile_elements_col config ident div sm_stage_line_size config ident = tile_width config ident"
    by (simp_all add: tile_height_def tile_width_def RowMajorL)
  show ?thesis
    using strided_slice [OF ok(6) assms(2,3) fits] ok(7)
    by (simp add: contiguous_sizes_def stage_counts_ident [OF ok(1)] RowMajorL quot_u32_def hw Let_def
        mul_u32_commute [of "tile_width config ident"] mul_u32_commute [of _ "total_cols config ident * tile_width config ident"])
next
  case ColMajorL
  note ok = stage_ok_layout [OF assms(1)]
  have fits: "total_cols config ident * tile_height config ident * (total_rows config ident * tile_width config ident) < 2 ^ 32"
    using assms(4) by (simp add: ac_simps)
  have hw: "tile_elements_col config ident = tile_height config ident"
    "tile_elements_row config ident div sm_stage_line_size config ident = tile_width config ident"
    by (simp_all add: tile_height_def tile_width_def ColMajorL)
  show ?thesis
    using strided_slice [OF ok(6) assms(3,2) fits] ok(7)
    by (simp add: contiguous_sizes_def stage_counts_ident [OF ok(1)] ColMajorL quot_u32_def hw Let_def
        mul_u32_commute [of "tile_width config ident"] mul_u32_commute [of _ "total_rows config ident * tile_width config ident"])
qed

lemma tile_new_contiguous_eq:
  assumes "stage_ok config ident stages"
  shows "tile_new_contiguous sl ident config =
    Ret \<lparr>tile_slice = sl, tile_stride = of_nat (tile_width config ident), tile_layout = sm_matrix_layout config ident\<rparr>"
  using stage_ok_layout(2,7) [OF assms]
  by (cases ident; cases "sm_matrix_layout config ident")
     (simp_all add: tile_new_contiguous_def tile_width_def quot_u32_def row_dim_def col_dim_def)

lemma tile_digits:
  fixes n i j h w N :: nat
  assumes "n < N" "i < h" "j < w"
  shows "n * (h * w) + (i * w + j) < N * (h * w)"
    and "n' < N \<Longrightarrow> i' < h \<Longrightarrow> j' < w \<Longrightarrow> n * (h * w) + (i * w + j) = n' * (h * w) + (i' * w + j') \<Longrightarrow>
      n = n' \<and> i = i' \<and> j = j'"
proof -
  show "n * (h * w) + (i * w + j) < N * (h * w)" using assms by (intro digit_less)
  assume a: "n' < N" "i' < h" "j' < w" "n * (h * w) + (i * w + j) = n' * (h * w) + (i' * w + j')"
  then have "n = n' \<and> i * w + j = i' * w + j'" using assms by (intro digit_inj) (auto intro: digit_less)
  then show "n = n' \<and> i = i' \<and> j = j'" using digit_inj [of i w j i' j'] a assms by blast
qed

lemma contiguous_tile_lines:
  assumes ok: "stage_ok config ident stages" "b < sm_num_stages config ident"
    and pos: "0 < total_rows config ident" "0 < total_cols config ident"
    and small: "total_rows config ident < 2 ^ 32" "total_cols config ident < 2 ^ 32"
      "total_rows config ident * total_cols config ident * (tile_height config ident * tile_width config ident) < 2 ^ 32"
    and number: "to_nth_tile order (of_nat (row_in_all config ident b r)) (of_nat (col_in_all config ident b c))
      (total_rows config ident) (total_cols config ident) ident config = Ret k" "unat k < total_rows config ident * total_cols config ident"
  shows "returns (contiguous_get_tile order (of_nat r) (of_nat c) b ident config) (\<lambda>tile.
    \<forall>i < tile_height config ident. \<forall>j < tile_width config ident. unat (tile_line_index tile (of_nat i) (of_nat j)) =
      unat k * (tile_height config ident * tile_width config ident) + (i * tile_width config ident + j))"
proof -
  define h w where "h = tile_height config ident" and "w = tile_width config ident"
  note o = stage_ok_layout [OF ok(1)]
  obtain len where sizes: "contiguous_sizes (total_rows config ident) (total_cols config ident) ident config =
    Ret (case sm_matrix_layout config ident of RowMajorL \<Rightarrow> (h, w, len) | ColMajorL \<Rightarrow> (w, h, len))"
    using contiguous_sizes_eq [OF ok(1) pos small(3)] unfolding h_def w_def by blast
  have off: "of_nat r + of_nat (row_in_all config ident b 0) = (of_nat (row_in_all config ident b r) :: u32)"
    "of_nat c + of_nat (col_in_all config ident b 0) = (of_nat (col_in_all config ident b c) :: u32)"
    by (simp_all add: row_in_all_def col_in_all_def)
  have start: "(case sm_matrix_layout config ident of RowMajorL \<Rightarrow> of_nat h * of_nat w | ColMajorL \<Rightarrow> of_nat w * of_nat h) =
      (of_nat (h * w) :: u32)" by (simp add: mult.commute split: problem_layout.split)
  have "\<exists>e. contiguous_get_tile order (of_nat r) (of_nat c) b ident config = Ret \<lparr>tile_slice = (of_nat (h * w) * k, e),
      tile_stride = of_nat w, tile_layout = sm_matrix_layout config ident\<rparr>"
    using buffer_offsets_eq [OF o(1,2) ok(2) small(1,2)] sizes number(1) start
    by (cases "sm_matrix_layout config ident")
       (simp_all add: contiguous_get_tile_def off tile_new_contiguous_eq [OF ok(1)] Let_def w_def)
  moreover have "unat (of_nat (h * w) * k + (of_nat i * of_nat w + of_nat j)) = unat k * (h * w) + (i * w + j)"
    if "i < h" "j < w" for i j
  proof -
    have lt: "unat k * (h * w) + (i * w + j) < 2 ^ LENGTH(32)"
      using less_trans [OF tile_digits(1) [OF number(2) that]] small(3) by (simp add: h_def w_def)
    have "of_nat (h * w) * k + (of_nat i * of_nat w + of_nat j) = of_nat (unat k * (h * w) + (i * w + j))"
      by (simp add: mult.commute)
    then show ?thesis using unat_of_nat_small [OF lt] by (simp only:)
  qed
  ultimately show ?thesis
    unfolding h_def [symmetric] w_def [symmetric] by (auto simp: tile_line_index_def simp del: of_nat_mult)
qed

text \<open>
  C36. In the contiguous layout, the tiles of all buffers of a stage share its lines out, in every tiling order: reading
  any tile succeeds, and every line of the stage's shared memory is the line of exactly one tile of exactly one buffer,
  at exactly one place in it.
\<close>

theorem contiguous_tiles_share_stage:
  assumes ok: "stage_ok config ident (sm_num_stages config ident)" and order: "order_fits order ident config (total_rows config ident) (total_cols config ident)"
  shows "\<exists>lines. smem_length (sm_num_stages config ident) ident config = Ret lines \<and>
    shared_out (\<lambda>b r c. contiguous_get_tile order r c b ident config) (sm_num_stages config ident)
      (stage_rows config ident) (stage_cols config ident) (tile_height config ident) (tile_width config ident) lines"
proof (intro exI conjI)
  define S X Y R C h w where "S = sm_num_stages config ident" and "X = stage_rows config ident" and "Y = stage_cols config ident"
    and "R = total_rows config ident" and "C = total_cols config ident"
    and "h = tile_height config ident" and "w = tile_width config ident"
  note o = stage_ok_layout [OF ok, folded S_def X_def Y_def h_def w_def]
  have RC: "R * C = S * X * Y" using o(2) by (cases ident) (simp_all add: R_def C_def S_def X_def Y_def total_rows_def total_cols_def ac_simps)
  have fits: "R * C * (h * w) < 2 ^ 32" using o(8) by (simp add: RC)
  have small: "R < 2 ^ 32" "C < 2 ^ 32" using order by (simp_all add: order_fits_def R_def C_def)
  have pos: "0 < R" "0 < C" using RC o(3-5) by (metis gr0I mult_is_0 not_gr0)+
  define n where "n b r c = stage_order.number_nat order ident config R C (row_in_all config ident b r) (col_in_all config ident b c)" for b r c
  note in_all = in_all [OF o(2), where config = config, folded S_def X_def Y_def R_def C_def]
  note number = stage_order.number_nat [OF order, folded R_def C_def]
  note number_inj = stage_order.number_nat_inj [OF order, folded R_def C_def]
  show "smem_length (sm_num_stages config ident) ident config = Ret (stage_lines config ident (sm_num_stages config ident))"
    by (rule smem_length_eq [OF ok])
  have n_less: "n b r c < R * C" if "b < S" "r < X" "c < Y" for b r c
    using number [OF _ _ in_all(1,2) [OF that]] small by (auto simp: n_def)
  have "shared_out (\<lambda>b r c. contiguous_get_tile order r c b ident config) S X Y h w (S * X * Y * (h * w))"
  proof (rule shared_outI [where f = "\<lambda>(b, r, c, i, j). n b r c * (h * w) + (i * w + j)"])
    fix b r c assume brc: "b < S" "r < X" "c < Y"
    note ia = in_all(1,2) [OF brc]
    obtain i where i: "to_nth_tile order (of_nat (row_in_all config ident b r)) (of_nat (col_in_all config ident b c)) R C ident config = Ret i"
      "unat i = n b r c" "n b r c < R * C"
      using number [OF _ _ ia] small by (auto simp: n_def)
    show "returns (contiguous_get_tile order (of_nat r) (of_nat c) b ident config) (\<lambda>tile. \<forall>i < h. \<forall>j < w.
        unat (tile_line_index tile (of_nat i) (of_nat j)) = (case (b, r, c, i, j) of (b, r, c, i, j) \<Rightarrow> n b r c * (h * w) + (i * w + j)))"
      using contiguous_tile_lines [OF ok brc(1) [unfolded S_def], of order r c i] pos small fits i
      by (simp add: R_def C_def h_def w_def)
  next
    fix b r c i j assume brc: "b < S" "r < X" "c < Y" and ij: "i < h" "j < w"
    show "(case (b, r, c, i, j) of (b, r, c, i, j) \<Rightarrow> n b r c * (h * w) + (i * w + j)) < S * X * Y * (h * w)"
      using tile_digits(1) [OF n_less [OF brc] ij] by (simp add: RC)
  next
    show "inj_on (\<lambda>(b, r, c, i, j). n b r c * (h * w) + (i * w + j)) ({..< S} \<times> {..< X} \<times> {..< Y} \<times> {..< h} \<times> {..< w})"
    proof (rule inj_onI, clarsimp)
      fix b r c i j b' r' c' i' j'
      assume l: "b < S" "r < X" "c < Y" "i < h" "j < w" "b' < S" "r' < X" "c' < Y" "i' < h" "j' < w"
        and eq: "n b r c * (h * w) + (i * w + j) = n b' r' c' * (h * w) + (i' * w + j')"
      have d: "n b r c = n b' r' c' \<and> i = i' \<and> j = j'"
        by (rule tile_digits(2) [OF n_less [OF l(1-3)] l(4,5) n_less [OF l(6-8)] l(9,10) eq])
      then have "row_in_all config ident b r = row_in_all config ident b' r' \<and> col_in_all config ident b c = col_in_all config ident b' c'"
        using number_inj [OF _ _ in_all(1,2) [OF l(1-3)] in_all(1,2) [OF l(6-8)]] small by (simp add: n_def)
      then show "b = b' \<and> r = r' \<and> c = c' \<and> i = i' \<and> j = j'"
        using in_all(3) [OF l(1-3) l(6-8)] d by simp
    qed
  qed simp
  then show "shared_out (\<lambda>b r c. contiguous_get_tile order r c b ident config) (sm_num_stages config ident)
      (stage_rows config ident) (stage_cols config ident) (tile_height config ident) (tile_width config ident)
      (stage_lines config ident (sm_num_stages config ident))"
    by (simp add: stage_lines_def X_def Y_def h_def w_def S_def)
qed

section \<open>Clearing\<close>

lemma unit_position:
  fixes n u i uc :: nat
  assumes "0 < uc" "n + uc \<le> 2 ^ 32" "u < uc" "i < (n + uc - 1) div uc"
  shows "unat (of_nat u + of_nat i * of_nat uc :: u32) = i * uc + u" "n mod uc = 0 \<Longrightarrow> i * uc + u < n"
proof -
  have "i * uc + u < Suc i * uc" using assms(3) by simp
  also have "\<dots> \<le> (n + uc - 1) div uc * uc" using assms(4) by (intro mult_right_mono) auto
  finally have le: "i * uc + u < (n + uc - 1) div uc * uc" .
  moreover have "(n + uc - 1) div uc * uc \<le> n + uc - 1" by (rule div_times_less_eq_dividend)
  ultimately have "i * uc + u < 2 ^ 32" using assms(1,2) by linarith
  then have lt: "i * uc + u < 2 ^ LENGTH(32)" by simp
  have "of_nat u + of_nat i * of_nat uc = (of_nat (i * uc + u) :: u32)" by simp
  then show "unat (of_nat u + of_nat i * of_nat uc :: u32) = i * uc + u" using unat_of_nat_small [OF lt] by (simp only:)
  show "i * uc + u < n" if zero: "n mod uc = 0"
  proof -
    obtain k where "n = uc * k" using zero by (auto simp: mod_eq_0_iff_dvd dvd_def)
    then have "(n + uc - 1) div uc * uc = n" using digits2(1) [of "uc - 1" uc k] assms(1) by (simp add: mult.commute)
    then show ?thesis using le by simp
  qed
qed

lemma line_step: "l < n \<Longrightarrow> 0 < uc \<Longrightarrow> l div uc < (n + uc - 1) div uc" for l n uc :: nat
  by (rule ccontr) (metis div_ceil_enough div_times_less_eq_dividend le_less_trans less_le_trans mult_le_mono1 not_gr0 not_less)

text \<open>The lines of \<open>n\<close> that the \<open>u\<close>-th of \<open>uc\<close> units writes.\<close>

definition unit_writes :: "nat \<Rightarrow> nat \<Rightarrow> nat \<Rightarrow> u32 list" where
  "unit_writes n uc u = filter (\<lambda>p. n mod uc = 0 \<or> p < of_nat n)
    (map (\<lambda>i. of_nat u + of_nat i * of_nat uc) [0..<(n + uc - 1) div uc])"

lemma unit_writes:
  assumes "0 < uc" "n + uc \<le> 2 ^ 32" "u < uc"
  shows "p \<in> set (unit_writes n uc u) \<longleftrightarrow> unat p < n \<and> unat p mod uc = u" "distinct (unit_writes n uc u)"
proof -
  note pos = unit_position [OF assms]
  have n: "unat (of_nat n :: u32) = n" using assms(1,2) by (intro unat_of_nat_small) simp
  show "p \<in> set (unit_writes n uc u) \<longleftrightarrow> unat p < n \<and> unat p mod uc = u"
  proof
    assume "p \<in> set (unit_writes n uc u)"
    then obtain i where i: "i < (n + uc - 1) div uc" "p = of_nat u + of_nat i * of_nat uc" "n mod uc = 0 \<or> p < of_nat n"
      by (auto simp: unit_writes_def)
    have "unat p = i * uc + u" unfolding i(2) by (rule pos(1) [OF i(1)])
    then show "unat p < n \<and> unat p mod uc = u" using pos(2) [OF i(1)] i(3) n assms(3) by (auto simp: word_less_nat_alt)
  next
    assume p: "unat p < n \<and> unat p mod uc = u"
    then have i: "unat p div uc < (n + uc - 1) div uc" using assms(1) by (intro line_step) auto
    have "unat (of_nat u + of_nat (unat p div uc) * of_nat uc :: u32) = unat p div uc * uc + u" by (rule pos(1) [OF i])
    also have "\<dots> = unat p" using p div_mult_mod_eq [of "unat p" uc] by simp
    finally have eq: "p = of_nat u + of_nat (unat p div uc) * of_nat uc" by (simp only: word_unat_eq_iff)
    have "p \<in> set (map (\<lambda>i. of_nat u + of_nat i * of_nat uc) [0..<(n + uc - 1) div uc])"
      unfolding set_map by (rule image_eqI [where x = "unat p div uc"]) (use eq i in simp_all)
    moreover have "p < of_nat n" using p n by (simp add: word_less_nat_alt)
    ultimately show "p \<in> set (unit_writes n uc u)" unfolding unit_writes_def set_filter by blast
  qed
  have "i = j" if "i < (n + uc - 1) div uc" "j < (n + uc - 1) div uc"
    "of_nat u + of_nat i * of_nat uc = (of_nat u + of_nat j * of_nat uc :: u32)" for i j
    using arg_cong [OF that(3), of unat] assms(1) unfolding pos(1) [OF that(1)] pos(1) [OF that(2)] by simp
  then show "distinct (unit_writes n uc u)"
    unfolding unit_writes_def by (intro distinct_filter) (simp add: distinct_map inj_on_def)
qed

text \<open>
  C39. Clearing a whole stage: no unit writes outside its shared memory, and every line is zeroed by exactly one unit,
  once.
\<close>

theorem clear_all_reaches_every_line:
  assumes "smem_length stages (into_stage ident) config = Ret lines" "0 < unit_count" "lines + unit_count \<le> 2 ^ 32"
  shows "\<exists>writes. (\<forall>u < unit_count. clear_all unit_count (of_nat u) stages ident config = Ret (writes u) \<and>
      distinct (writes u) \<and> (\<forall>p \<in> set (writes u). unat p < lines)) \<and>
    (\<forall>l < lines. \<exists>!u. u < unit_count \<and> of_nat l \<in> set (writes u))"
proof (intro exI [of _ "unit_writes lines unit_count"] conjI allI impI)
  note w = unit_writes [OF assms(2,3)]
  fix u assume u: "u < unit_count"
  show "clear_all unit_count (of_nat u) stages ident config = Ret (unit_writes lines unit_count u)"
    using assms(1,2) by (simp add: clear_all_def div_ceil_u32_def unit_writes_def)
  show "distinct (unit_writes lines unit_count u)" by (rule w(2) [OF u])
  show "\<forall>p \<in> set (unit_writes lines unit_count u). unat p < lines" using w(1) [OF u] by blast
next
  fix l assume l: "l < lines"
  then have ul: "unat (of_nat l :: u32) = l" using assms(3) by (intro unat_of_nat_small) simp
  show "\<exists>!u. u < unit_count \<and> of_nat l \<in> set (unit_writes lines unit_count u)"
    by (rule ex1I [of _ "l mod unit_count"]) (use unit_writes(1) [OF assms(2,3), of _ "of_nat l"] ul l assms(2) in auto)
qed

text \<open>
  C40. Clearing one of two buffers spills into the other: when the number of loading units does not divide the lines of a
  buffer, some unit that clears the first buffer also zeroes the first line of the second, in the layouts in which the
  buffers follow each other. The code only checks that the line is inside the shared memory.
\<close>

theorem clear_stage_spills:
  assumes "smem_length stages (into_stage ident) config = Ret lines" "0 < unit_count" "lines + unit_count \<le> 2 ^ 32"
    and "(ident, sm_matrix_layout config (into_stage ident)) \<in> {(Lhs, ColMajorL), (Rhs, RowMajorL)}"
    and "lines div 2 mod unit_count \<noteq> 0"
  shows "\<exists>u < unit_count. returns (clear_stage unit_count (of_nat u) stages BufferA ident config)
    (\<lambda>writes. of_nat (lines div 2) \<in> set writes)"
proof (intro exI conjI)
  define n u where "n = lines div 2" and "u = n mod unit_count"
  have "n \<noteq> 0" using assms(5) unfolding n_def by (metis mod_0)
  then have n: "0 < n" "n < lines" by (auto simp: n_def intro: div_less_dividend gr0I)
  show "n mod unit_count < unit_count" using assms(2) by simp
  have clear: "clear_position BufferA ident config n x = Ret x" for x
    using assms(4) by (auto simp: clear_position_def buffer_to_index_def)
  have map_clear: "mapE (\<lambda>i. Ret (f i)) is = Ret (map f is)" for f :: "nat \<Rightarrow> u32" and "is" by (induction "is") auto
  have i: "n div unit_count < (n + unit_count - 1) div unit_count"
  proof -
    have "n \<le> (n + unit_count - 1) div unit_count * unit_count" using assms(2) by (intro div_ceil_enough) simp
    moreover have "n div unit_count * unit_count < n"
      using assms(5) [folded n_def] div_mult_mod_eq [of n unit_count] by linarith
    ultimately have "n div unit_count * unit_count < (n + unit_count - 1) div unit_count * unit_count" by linarith
    then show ?thesis by (simp only: mult_less_cancel2)
  qed
  have "of_nat u + of_nat (n div unit_count) * of_nat unit_count = (of_nat (u + n div unit_count * unit_count) :: u32)" by simp
  also have "u + n div unit_count * unit_count = n" unfolding u_def by simp
  finally have at: "of_nat u + of_nat (n div unit_count) * of_nat unit_count = (of_nat n :: u32)" .
  have "n < 2 ^ LENGTH(32)" "lines < 2 ^ LENGTH(32)" using n assms(2,3) by simp_all
  then have "(of_nat n :: u32) < of_nat lines" using n by (simp add: word_less_nat_alt unat_of_nat_small)
  then have "(of_nat n :: u32) \<in> set (filter (\<lambda>p. n mod unit_count = 0 \<or> p < of_nat lines)
      (map (\<lambda>i. of_nat u + of_nat i * of_nat unit_count) [0..<(n + unit_count - 1) div unit_count]))"
    using i at [symmetric] by (auto intro!: image_eqI [where x = "n div unit_count"])
  then show "returns (clear_stage unit_count (of_nat (n mod unit_count)) stages BufferA ident config) (\<lambda>writes. of_nat (lines div 2) \<in> set writes)"
    using assms(1,2) by (simp add: clear_stage_def div_ceil_u32_def clear map_clear Let_def flip: n_def u_def)
qed

section \<open>Tiling orders are inverse\<close>

text \<open>
  C38. For every tiling order, the coordinates of a tile are computed from its number and its number from its coordinates,
  each undoing the other, for all counts of tiles that are counted in 32 bits; the ordered one is for the left operand only,
  with as many groups as planes that divide the rows.
\<close>

theorem tiling_orders_round_trip:
  assumes "order_fits order ident config R C"
  shows "(\<forall>i. unat i < R * C \<longrightarrow> returns (to_row_col order i R C ident config)
      (\<lambda>(r, c). unat r < R \<and> unat c < C \<and> to_nth_tile order r c R C ident config = Ret i)) \<and>
    (\<forall>r c. unat r < R \<longrightarrow> unat c < C \<longrightarrow> returns (to_nth_tile order r c R C ident config)
      (\<lambda>i. unat i < R * C \<and> to_row_col order i R C ident config = Ret (r, c)))"
  using stage_order.row_col [OF assms] stage_order.number [OF assms] by blast

section \<open>An example\<close>

text \<open>Two by two tiles of four by four elements, in lines of four.\<close>

abbreviation example_stage :: "nat \<Rightarrow> problem_layout \<Rightarrow> stage_memory_config" where
  "example_stage stages layout \<equiv> \<lparr>sm_num_main_flow_planes = 2, sm_tiling_scheme =
     \<lparr>ts_tile_size = \<lparr>sz_m = 4, sz_n = 4, sz_k = 4\<rparr>, ts_partition_size = \<lparr>sz_m = 2, sz_n = 2, sz_k = 2\<rparr>,
      ts_stage_size = \<lparr>sz_m = 1, sz_n = 1, sz_k = 1\<rparr>, ts_global_partition_size = \<lparr>gp_m = 1, gp_n = 1, gp_batches = 1\<rparr>\<rparr>,
     sm_stage_line_size = (\<lambda>_. 4), sm_matrix_layout = (\<lambda>_. layout), sm_num_stages = (\<lambda>_. stages)\<rparr>"

lemma example_stage_sizes:
  "stage_rows (example_stage stages layout) ident = 2" "stage_cols (example_stage stages layout) ident = 2"
  "tile_elements_row (example_stage stages layout) ident = 4" "tile_elements_col (example_stage stages layout) ident = 4"
  "tile_height (example_stage stages layout) ident = 4" "tile_width (example_stage stages layout) ident = 1"
  by (simp_all add: tiles_along_def tile_height_def tile_width_def size_get_def split: matmul_dim.split problem_layout.split)

lemma example_stage_ok:
  assumes "ident \<noteq> AccS" "0 < stages" "stages < 100"
  shows "stage_ok (example_stage stages layout) ident stages" "stage_lines (example_stage stages layout) ident stages = 16 * stages"
proof -
  have "scheme_wf (sm_tiling_scheme (example_stage stages layout))"
    by (simp add: scheme_wf_def size_get_def split: matmul_dim.split)
  then show "stage_ok (example_stage stages layout) ident stages"
    using assms by (simp only: stage_ok_def example_stage_sizes) (simp split: problem_layout.split)
  show "stage_lines (example_stage stages layout) ident stages = 16 * stages"
    by (simp only: stage_lines_def example_stage_sizes)
qed

lemma example_stage_length:
  "ident \<noteq> AccS \<Longrightarrow> 0 < stages \<Longrightarrow> stages < 100 \<Longrightarrow> smem_length stages ident (example_stage stages layout) = Ret (16 * stages)"
  using smem_length_eq(1) [OF example_stage_ok(1)] example_stage_ok(2) by metis

lemma example_order:
  "order_fits OrderedTiling LhsS (example_stage stages layout) 2 4"
  by (simp add: order_fits_def)

theorem strided_tiles_share_stage_witness:
  "shared_out (\<lambda>_ x y. strided_get_tile x y RhsS (example_stage 1 ColMajorL)) 1 2 2 4 1 16"
  using strided_tiles_share_stage [OF example_stage_ok(1) [of RhsS 1 ColMajorL]] example_stage_length [of RhsS 1 ColMajorL]
  by (simp only: example_stage_sizes) simp

theorem contiguous_tiles_share_stage_witness:
  "shared_out (\<lambda>b r c. contiguous_get_tile OrderedTiling r c b LhsS (example_stage 2 RowMajorL)) 2 2 2 4 1 32"
proof -
  have "total_rows (example_stage 2 RowMajorL) LhsS = 2" "total_cols (example_stage 2 RowMajorL) LhsS = 4"
    by (simp_all only: total_rows_def total_cols_def example_stage_sizes) simp_all
  then show ?thesis
    using contiguous_tiles_share_stage [of "example_stage 2 RowMajorL" LhsS OrderedTiling] example_stage_ok(1) [of LhsS 2 RowMajorL]
      example_order [where stages = 2 and layout = RowMajorL] example_stage_length [of LhsS 2 RowMajorL]
    by (simp only: example_stage_sizes) simp
qed

theorem clear_all_reaches_every_line_witness:
  "\<exists>w. clear_all 5 (of_nat 3) 1 Lhs (example_stage 1 RowMajorL) = Ret w \<and> distinct w"
proof -
  have "smem_length 1 (into_stage Lhs) (example_stage 1 RowMajorL) = Ret 16"
    using example_stage_length [of LhsS 1 RowMajorL] by (simp add: into_stage_def)
  from clear_all_reaches_every_line [OF this, of 5] obtain writes :: "nat \<Rightarrow> u32 list"
    where "\<forall>u < 5. clear_all 5 (of_nat u) 1 Lhs (example_stage 1 RowMajorL) = Ret (writes u) \<and> distinct (writes u)" by auto
  moreover have "(3 :: nat) < 5" by simp
  ultimately show ?thesis by blast
qed

theorem clear_stage_spills_witness:
  "\<exists>u. u < 5 \<and> returns (clear_stage 5 (of_nat u) 2 BufferA Lhs (example_stage 2 ColMajorL)) (\<lambda>writes. of_nat 16 \<in> set writes)"
proof -
  have "smem_length 2 (into_stage Lhs) (example_stage 2 ColMajorL) = Ret 32"
    using example_stage_length [of LhsS 2 ColMajorL] by (simp add: into_stage_def)
  from clear_stage_spills [OF this, of 5] show ?thesis by simp
qed

theorem tiling_orders_round_trip_witness:
  "returns (to_row_col OrderedTiling (of_nat 6) 2 4 LhsS (example_stage 2 RowMajorL))
     (\<lambda>(r, c). unat r < 2 \<and> unat c < 4 \<and> to_nth_tile OrderedTiling r c 2 4 LhsS (example_stage 2 RowMajorL) = Ret 6)"
  using tiling_orders_round_trip [OF example_order [where stages = 2 and layout = RowMajorL]] by simp

text \<open>A tile in the contiguous layout is given a slice as if it were strided: it is longer than the tile, and the slice of the
  last tile ends after the shared memory.\<close>

lemma contiguous_slice_overruns:
  "returns (contiguous_get_tile RowMajorTiling 1 1 0 LhsS (example_stage 1 RowMajorL)) (\<lambda>tile. tile_slice tile = (12, 19)) \<and>
   smem_length 1 LhsS (example_stage 1 RowMajorL) = Ret 16"
proof -
  have wf: "scheme_wf (sm_tiling_scheme (example_stage 1 RowMajorL))"
    by (simp add: scheme_wf_def size_get_def split: matmul_dim.split)
  note c = stage_counts_ident [OF wf, of LhsS, unfolded example_stage_sizes]
  have "contiguous_get_tile RowMajorTiling 1 1 0 LhsS (example_stage 1 RowMajorL) =
      Ret \<lparr>tile_slice = (12, 19), tile_stride = 1, tile_layout = RowMajorL\<rparr>"
    unfolding contiguous_get_tile_def buffer_offsets_def contiguous_sizes_def Let_def stage_ident.case c
    by (simp add: c mul_u32_def add_u32_def sub_u32_def quot_u32_def to_nth_tile_def row_major_to_nth_tile_def
        tile_new_contiguous_def size_get_def)
  then show ?thesis using example_stage_length [of LhsS 1 RowMajorL] by simp
qed

end
