(* ===== verification/Spec2Isabelle.thy ===== *)
theory Spec2Isabelle
  imports Memory_Properties IR_Display Opt_Fold Opt_Strength Opt_Liveness Opt_Range Opt_Lowering_Total Opt_Critical_Edges Tensor_Layout Matmul_Partition Matmul_Stage_Memory
begin

text \<open>
  \<^bold>\<open>A verification library for CubeCL.\<close>

  CubeCL compiles kernels written in Rust to several GPU and CPU backends and runs them. The library models the parts
  that carry its own logic: the memory manager of the runtime, the intermediate representation and the passes of the
  optimizer, the index arithmetic of the standard kernels, and the tiling and launch of a matrix multiplication. They
  meet in a launch: the host plans a grid of cubes and the sizes a kernel is compiled for, the kernel's scope is
  processed and optimized as a control-flow graph of instructions, the runtime reserves the buffers of its tensors, and
  every cube computes from its position which elements it works on.

  \<^bold>\<open>How code is modelled.\<close> Host code is compiled with overflow checks, so its numbers are natural numbers and every
  operation that can fail is of the type \<open>'a exec\<close> of \<open>Prelude\<close>: \<open>Ret\<close> of a value, \<open>Panic\<close> with the reason (overflow, a
  division by zero, \<open>unwrap\<close>, an explicit panic), or \<open>Diverge\<close>. Loops are \<open>for_each\<close>, \<open>foldE\<close>, \<open>mapE\<close>, recursive
  functions with termination proofs, or \<open>loop\<close>, the least fixed point of a body, which is \<open>Diverge\<close> when the loop does
  not end; no fuel is used. \<open>returns m Q\<close> says that \<open>m\<close> returns a value with \<open>Q\<close>, so it includes that \<open>m\<close> ends without
  a panic; \<open>on_return m Q\<close> says it of values that are returned. The theorem collections \<open>wp_simps\<close> and \<open>exec_simps\<close>
  compute with them. Code that runs in a kernel wraps around and is modelled on 32-bit words (\<open>Machine_Words\<close>, with the
  collection \<open>no_wrap\<close>). Errors that are values are options or sums. Fallible results of \<open>as u32\<close> conversions are taken
  modulo \<open>2 ^ 32\<close>.

  \<^bold>\<open>Memory management\<close> (\<open>cubecl-runtime\<close>).

  \<^item> \<open>Handles\<close>: \<open>id.rs\<close>, \<open>memory_pool/handle.rs\<close>. The atomic reference counters are the record \<open>world\<close>; cloning and
    dropping handles and bindings are functions on it.
  \<^item> \<open>Storage\<close>: \<open>storage/base.rs\<close>, \<open>storage/bytes_cpu.rs\<close>. The trait \<open>ComputeStorage\<close> is a record of operations with the
    locale \<open>compute_storage\<close> as its contract; \<open>BytesStorage\<close> interprets it, with reading and writing of its resources.
  \<^item> \<open>Memory_Pool\<close>: slices, padding, exclusion lists and usage reports; the trait \<open>MemoryPool\<close> as the locale
    \<open>memory_pool\<close>: what every operation keeps of the invariant and of the live slices.
  \<^item> \<open>Search_Index\<close>, \<open>Ring_Buffer\<close>, \<open>Sliced_Pool\<close>, \<open>Exclusive_Pool\<close>, \<open>Static_Pool\<close>: \<open>index.rs\<close>, \<open>ring.rs\<close>, \<open>sliced_pool.rs\<close>,
    \<open>exclusive_pool.rs\<close>, \<open>static_pool.rs\<close>; each pool interprets \<open>memory_pool\<close>. \<open>Float64\<close> is the IEEE binary64 arithmetic the
    exclusive pool uses for its averages.
  \<^item> \<open>Pool_Family\<close>: a family of pools on one storage as a locale, with the invariant that their slices are disjoint.
  \<^item> \<open>Memory_Manage\<close>, \<open>Configuration\<close>: \<open>memory_manage.rs\<close>: dispatch to the pools, the operations of the manager, the
    presets. \<open>f64::ln\<close> and \<open>f64::exp\<close> are parameters, as their results are not specified.
  \<^item> \<open>Client\<close>: the manager together with the holders of its handles as a step relation, and its invariant.
  \<^item> \<open>Memory_Properties\<close>: C1 to C10. Held allocations are allocated, disjoint and isolated (C1, C2), a handle is mutable
    exactly when it is unique (C3), reserving refines an abstract allocator (C4), cleaning up keeps what is live and
    releases what is free (C5, C9), the presets serve all sizes (C6, C10), a request is served by the first pool that
    accepts it, or in static mode by the static pool, and from which buffer (C7), the search of a pool ends without
    failure (C8), and a case in which it misses a free slice (\<open>search_misses_free_slice\<close>). C11, in \<open>Search_Index\<close>: the index
    by size implements a map from items to sizes, for every history of insertions and removals.

  \<^bold>\<open>Intermediate representation\<close> (\<open>cubecl-ir\<close>).

  \<^item> \<open>IR_Types\<close>, \<open>IR_Operation\<close>: the types, constants, variables, operations and instructions, one datatype or record per
    type of the source; the operations are polymorphic in their variables, which gives renaming and the set of operands.
  \<^item> \<open>IR_Display\<close>: the printed names of types and what they determine (C12).
  \<^item> \<open>IR_Processing\<close>: \<open>processing.rs\<close>, which gives the constant operands of the operations it treats their types, position
    by position, and returns the other operations as they are (C13).

  \<^bold>\<open>Optimizer\<close> (\<open>cubecl-opt\<close>).

  \<^item> \<open>Opt_Visitor\<close>, \<open>Opt_Reads\<close>: \<open>instructions.rs\<close> over an arbitrary visitor; which operands it reaches (C14) and misses
    (\<open>visitor_misses_operands\<close>).
  \<^item> \<open>Opt_Program\<close>: basic blocks, control flow and the program graph. The order in which petgraph lists edges is that of
    the edge list; no theorem depends on it.
  \<^item> \<open>Opt_Lowering\<close>: how the scopes of a kernel become that graph: \<open>parse_graph\<close>, \<open>parse_scope\<close> and \<open>ret\<close> of \<open>lib.rs\<close>, the
    parser of every branch and the splitting of critical edges in \<open>control_flow.rs\<close>, \<open>insert_phi\<close>, and \<open>Scope::process\<close>, for
    the execution mode \<open>Unchecked\<close>. \<open>Opt_Graph_Semantics\<close> runs scopes and graphs on a \<open>machine\<close>, which says what single
    instructions do; what the parser relies on is the locale \<open>kernel_machine\<close>, interpreted by a machine for kernels over
    \<open>u32\<close>. When a counting loop goes on and how it counts (\<open>goes_on\<close>, \<open>counts\<close>) is stated there without the parser's
    definitions. Runs count steps, and not ending is not returning for any count. \<open>Opt_Lowered\<close> is the shape of a graph that
    implements a list of instructions, one rule per kind of branch, and its simulation; \<open>Opt_Lowering_Sound\<close> and
    \<open>Opt_Lowering_Loops\<close> prove that each parser builds that shape, and \<open>Opt_Lowering_Correct\<close> that the graph of a kernel
    computes what the kernel does (C15). \<open>Opt_Lowering_Total\<close>: the parser returns exactly on the kernels an executable check
    accepts (C16). \<open>Opt_Critical_Edges\<close>: splitting critical edges returns, leaves none and keeps what the graph computes
    (C17), but for the exit of a counting loop with a break (\<open>split_loses_loop_exit\<close>).
  \<^item> \<open>Opt_Const_Prop\<close>: \<open>constant_prop.rs\<close>; \<open>Opt_Semantics\<close> is a reference semantics on words of every integer operation,
    comparison and logical operation that the passes rewrite. The simplification pass returns, leaves nothing to simplify
    and keeps all values (C18); in \<open>Opt_Fold\<close>, folding is exact (C19), except where it works at the width of the payload
    (\<open>folding_at_payload_width\<close>, \<open>folded_constants_leave_their_type\<close>), with the operations on which it fails (C20). Floats
    have no reference semantics; the float functions of \<open>num_traits\<close> are the parameter \<open>num_float\<close>.
  \<^item> \<open>Opt_Strength\<close>: \<open>reduce_strength.rs\<close>, a simulation over lists of instructions (C21) and its overflow (\<open>reduce_mul_overflows_at_max\<close>).
  \<^item> \<open>Opt_Liveness\<close>: \<open>analyses/liveness.rs\<close> ends and computes liveness along paths (C22).
  \<^item> \<open>Opt_Range\<close>: \<open>analyses/integer_range.rs\<close>, which bounds are always sound (C23), and exactly when the others are (C24).

  \<^bold>\<open>Kernels on tensors\<close> (\<open>cubecl-std\<close>, \<open>cubecl-core/src/lib.rs\<close>).

  \<^item> \<open>Fast_Math\<close>: \<open>fast_math.rs\<close>, division by a precomputed multiplier, exact below \<open>2 ^ 31\<close> (C25) and wrong above
    (\<open>fast_divmod_wraps\<close>).
  \<^item> \<open>Tensor_Layout\<close>: \<open>tensor/contiguous.rs\<close> and the choice of line sizes: offsets of row-major coordinates (C26, C27), strides
    (C28), line sizes (C29) and one that is misaligned (\<open>parallel_line_size_misaligned\<close>).

  \<^bold>\<open>Matrix multiplication\<close> (\<open>cubecl-matmul/src/components\<close>).

  \<^item> \<open>Matmul_Order\<close>: \<open>hypercube/global_order.rs\<close>. The swizzle on words refines a zigzag on natural numbers; the locale
    \<open>tile_order\<close> states what a cube needs of an order and lifts it to batches, and every order interprets it.
  \<^item> \<open>Matmul_Hypercube\<close>: \<open>hypercube/base.rs\<close>, \<open>cube_count_plan.rs\<close>, \<open>sm_allocation.rs\<close>, \<open>problem.rs\<close> and the guard of
    \<open>batch/entry_point.rs\<close>: how the host plans a grid and how a cube finds its tile.
  \<^item> \<open>Matmul_Plans\<close>: allocation is the best the divisors allow (C31), which is not what the documented example says
    (\<open>exact_example_differs\<close>), spreading succeeds and is minimal (C32), and the
    limits on which it overflows (\<open>spread_overflows\<close>).
  \<^item> \<open>Matmul_Launch\<close>: the positions of a grid are numbered one to one, and every tile has exactly one cube (C30).
  \<^item> \<open>Matmul_Tiling\<close>: \<open>size.rs\<close>, \<open>tiling_scheme.rs\<close>: counts between tiling levels are products (C33).
  \<^item> \<open>Matmul_Partition\<close>: \<open>partitioned_matmul/matmul.rs\<close>, \<open>partition/matmul.rs\<close>: a cube as the list of the global
    multiplications it runs; from the tiling scheme to these calls, every element of the output is computed exactly once
    (C34), from the matching batches of the operands (C35).
  \<^item> \<open>Matmul_Stage\<close>: \<open>stage/memory/layout.rs\<close>, \<open>stage_memory.rs\<close>, \<open>config.rs\<close>, \<open>tile/tile_data.rs\<close> and the tiling order of
    \<open>tma_loader.rs\<close>: the shared memory of a stage, its tiles and how units clear it. The locale \<open>tile_numbering\<close> states
    what the memory needs of a tiling order, and every order of the source interprets it as \<open>stage_order\<close>.
  \<^item> \<open>Matmul_Stage_Memory\<close>: the tiles of a stage share its lines out in both layouts (C36, C37), numbers and coordinates of
    tiles determine each other (C38), clearing a stage reaches every line once (C39), and clearing one buffer can spill
    into the other (C40).

  \<^bold>\<open>Bounds.\<close> Machine integers are bounded by \<open>u64_bound\<close>, \<open>u32_bound\<close> and the width of words. Theorems that need room state
  it: C6 alignments up to 8 MiB, C25 dividends up to \<open>2 ^ 31\<close>, C32 at most \<open>2 ^ 31\<close> cubes on a device whose height times
  depth fits 32 bits, C34 a problem that leaves room for one more cube below \<open>2 ^ 32\<close>.

  \<^bold>\<open>Not modelled.\<close> The backends (\<open>cubecl-cpp\<close>, \<open>cubecl-cuda\<close>, \<open>cubecl-hip\<close>, \<open>cubecl-wgpu\<close>, \<open>cubecl-spirv\<close>, \<open>cubecl-cpu\<close>) print
  source text or call driver libraries that are not part of the repository; of them only the formula of the cube
  position is used. The procedural macros and the frontend of \<open>cubecl-core\<close> build the representation from Rust syntax.
  The remaining passes of the optimizer (global value numbering, SSA construction, dominance and uniformity, dead code)
  rest on petgraph's graph algorithms; the levels of a matrix multiplication below the batch level, but for the shared
  memory of a stage, the reductions, convolutions and random numbers are kernels on tensors of floats; the channels,
  servers, streams, tuning, profiling and logging of the runtime are concurrency and input and output.
\<close>

end
